(* ===== verification/Prelude.thy ===== *)
theory Prelude
  imports Complex_Main "HOL-Library.Word"
begin

text \<open>
  Shared vocabulary of the development: the C++ integer types, results of operations that
  can throw or run into undefined behaviour, checked reads of a \<open>std::vector\<close>, the
  standard algorithms the sources call (\<open>std::lower_bound\<close>, \<open>std::find\<close>), and the
  generic lemmas on lists that several components use.
\<close>

section \<open>Integer types and results\<close>

type_synonym u8 = "8 word"
type_synonym u32 = "32 word"
type_synonym u64 = "64 word"

type_synonym ('e, 'a) res = "'e + 'a"

named_theorems res_simps \<open>evaluation rules for results\<close>
named_theorems std_simps \<open>evaluation rules for the standard algorithms\<close>

text \<open>Sequencing: an exception of the first operation is the result of the whole.\<close>

definition bind_res :: "('e, 'a) res \<Rightarrow> ('a \<Rightarrow> ('e, 'b) res) \<Rightarrow> ('e, 'b) res" where
  "bind_res m f = (case m of Inl e \<Rightarrow> Inl e | Inr a \<Rightarrow> f a)"

lemma bind_res_simps [simp, res_simps]:
  "bind_res (Inl e) f = Inl e"
  "bind_res (Inr a) f = f a"
  by (simp_all add: bind_res_def)

lemma bind_res_eq_Inr [res_simps]:
  "bind_res m f = Inr b \<longleftrightarrow> (\<exists>a. m = Inr a \<and> f a = Inr b)"
  by (cases m) auto

lemma bind_res_eq_Inl [res_simps]:
  "bind_res m f = Inl e \<longleftrightarrow> m = Inl e \<or> (\<exists>a. m = Inr a \<and> f a = Inl e)"
  by (cases m) auto

lemma bind_res_InrE:
  assumes "bind_res m f = Inr b"
  obtains a where "m = Inr a" "f a = Inr b"
  using assms by (auto simp: bind_res_eq_Inr)

text \<open>The exceptions of a called component inside those of the caller.\<close>

definition map_err :: "('e \<Rightarrow> 'f) \<Rightarrow> ('e, 'a) res \<Rightarrow> ('f, 'a) res" where
  "map_err f m = (case m of Inl e \<Rightarrow> Inl (f e) | Inr a \<Rightarrow> Inr a)"

lemma map_err_simps [simp, res_simps]:
  "map_err f (Inl e) = Inl (f e)"
  "map_err f (Inr a) = Inr a"
  by (simp_all add: map_err_def)

lemma map_err_eq_Inr [res_simps]: "map_err f m = Inr a \<longleftrightarrow> m = Inr a"
  by (cases m) auto

text \<open>A loop over a container whose body may throw.\<close>

fun fold_res :: "('s \<Rightarrow> 'a \<Rightarrow> ('e, 's) res) \<Rightarrow> 's \<Rightarrow> 'a list \<Rightarrow> ('e, 's) res" where
  "fold_res f s [] = Inr s"
| "fold_res f s (x # xs) = bind_res (f s x) (\<lambda>s'. fold_res f s' xs)"

lemma fold_res_append:
  "fold_res f s (xs @ ys) = bind_res (fold_res f s xs) (\<lambda>s'. fold_res f s' ys)"
  by (induction xs arbitrary: s) (auto simp: bind_res_def split: sum.splits)

lemma fold_res_invariant:
  assumes "fold_res f s xs = Inr s'" and "I s"
    and "\<And>s x s'. I s \<Longrightarrow> x \<in> set xs \<Longrightarrow> f s x = Inr s' \<Longrightarrow> I s'"
  shows "I s'"
  using assms
proof (induction xs arbitrary: s)
  case Nil
  then show ?case by simp
next
  case (Cons x xs)
  from Cons.prems(1) obtain t where t: "f s x = Inr t" "fold_res f t xs = Inr s'"
    by (auto elim: bind_res_InrE)
  have "I t" by (rule Cons.prems(3) [OF Cons.prems(2) _ t(1)]) simp
  then show ?case
    by (rule Cons.IH [OF t(2)]) (meson Cons.prems(3) list.set_intros(2))
qed

text \<open>A loop whose body never fails from a state with the invariant returns.\<close>

lemma fold_res_total:
  assumes "I s" and "\<And>s x. I s \<Longrightarrow> x \<in> set xs \<Longrightarrow> \<exists>s'. f s x = Inr s' \<and> I s'"
  shows "\<exists>s'. fold_res f s xs = Inr s' \<and> I s'"
  using assms
proof (induction xs arbitrary: s)
  case Nil
  then show ?case by simp
next
  case (Cons x xs)
  obtain t where t: "f s x = Inr t" "I t"
    using Cons.prems(2) [OF Cons.prems(1), of x] by auto
  have "\<exists>s'. fold_res f t xs = Inr s' \<and> I s'"
    by (rule Cons.IH [OF t(2)]) (meson Cons.prems(2) list.set_intros(2))
  with t(1) show ?case by simp
qed

text \<open>
  The contract of a component whose commands may fail: a command that is allowed and succeeds
  keeps the invariant, so every sequence of allowed commands that succeeds keeps it.
\<close>

locale checked_machine =
  fixes inv :: "'s \<Rightarrow> bool"
    and allowed :: "'c \<Rightarrow> bool"
    and step :: "'s \<Rightarrow> 'c \<Rightarrow> ('e, 's) res"
  assumes step_keeps: "inv s \<Longrightarrow> allowed c \<Longrightarrow> step s c = Inr s' \<Longrightarrow> inv s'"
begin

lemma run_keeps: "inv s \<Longrightarrow> list_all allowed cs \<Longrightarrow> fold_res step s cs = Inr s' \<Longrightarrow> inv s'"
proof (induction cs arbitrary: s)
  case (Cons c cs)
  then show ?case by (auto simp: bind_res_eq_Inr intro: step_keeps)
qed simp

end

section \<open>Words\<close>

lemma unat_u32_less: "unat (x :: u32) < 4294967296"
  by (rule order_less_le_trans [OF unsigned_less]) simp

lemma unat_u32_eqI: "unat (x :: u32) = unat y \<Longrightarrow> x = y"
  by (rule unsigned_word_eqI)

section \<open>Vectors and standard algorithms\<close>

definition vec_at :: "'e \<Rightarrow> 'a list \<Rightarrow> nat \<Rightarrow> ('e, 'a) res" where
  "vec_at e xs i = (if i < length xs then Inr (xs ! i) else Inl e)"

lemma vec_at_in [simp, res_simps]: "i < length xs \<Longrightarrow> vec_at e xs i = Inr (xs ! i)"
  by (simp add: vec_at_def)

lemma vec_at_out [simp, res_simps]: "length xs \<le> i \<Longrightarrow> vec_at e xs i = Inl e"
  by (simp add: vec_at_def)

lemma vec_at_eq_Inr: "vec_at e xs i = Inr x \<longleftrightarrow> i < length xs \<and> xs ! i = x"
  by (simp add: vec_at_def)

text \<open>
  \<open>std::lower_bound\<close>: the position of the first element that is not less than the value,
  the end of the range if there is none.
\<close>

definition lower_bound :: "('a \<Rightarrow> 'v \<Rightarrow> bool) \<Rightarrow> 'a list \<Rightarrow> 'v \<Rightarrow> nat" where
  "lower_bound lt xs v = length (takeWhile (\<lambda>x. lt x v) xs)"

lemma lower_bound_le_length: "lower_bound lt xs v \<le> length xs"
  by (simp add: lower_bound_def length_takeWhile_le)

lemma lower_bound_before: "i < lower_bound lt xs v \<Longrightarrow> lt (xs ! i) v"
  unfolding lower_bound_def by (metis nth_mem set_takeWhileD takeWhile_nth)

lemma lower_bound_at:
  "lower_bound lt xs v < length xs \<Longrightarrow> \<not> lt (xs ! lower_bound lt xs v) v"
  unfolding lower_bound_def by (rule nth_length_takeWhile)

lemma length_takeWhile_found:
  "x \<in> set xs \<Longrightarrow> \<not> P x \<Longrightarrow> length (takeWhile P xs) < length xs"
proof -
  assume "x \<in> set xs" "\<not> P x"
  then have "takeWhile P xs \<noteq> xs" by (auto simp: takeWhile_eq_all_conv)
  then show ?thesis
    by (metis le_neq_implies_less length_takeWhile_le takeWhile_eq_take take_all_iff le_refl)
qed

lemma lower_bound_less_length:
  "x \<in> set xs \<Longrightarrow> \<not> lt x v \<Longrightarrow> lower_bound lt xs v < length xs"
  unfolding lower_bound_def by (rule length_takeWhile_found)

lemma lower_bound_pos:
  "xs \<noteq> [] \<Longrightarrow> lt (hd xs) v \<Longrightarrow> 0 < lower_bound lt xs v"
  by (cases xs) (simp_all add: lower_bound_def)

text \<open>\<open>std::vector::insert\<close> before a position.\<close>

definition insert_at :: "nat \<Rightarrow> 'a \<Rightarrow> 'a list \<Rightarrow> 'a list" where
  "insert_at p x xs = take p xs @ x # drop p xs"

lemma length_insert_at [simp]: "length (insert_at p x xs) = Suc (length xs)"
  by (simp add: insert_at_def)

lemma set_insert_at [simp]: "set (insert_at p x xs) = insert x (set xs)"
  unfolding insert_at_def by (metis append_take_drop_id list.simps(15) set_append Un_insert_right)

lemma hd_insert_at: "0 < p \<Longrightarrow> xs \<noteq> [] \<Longrightarrow> hd (insert_at p x xs) = hd xs"
  by (cases xs; cases p) (simp_all add: insert_at_def)

lemma last_insert_at: "p < length xs \<Longrightarrow> last (insert_at p x xs) = last xs"
  by (simp add: insert_at_def)

lemma sorted_wrt_insert_at:
  assumes "sorted_wrt R xs"
    and "\<And>y. y \<in> set (take p xs) \<Longrightarrow> R y x"
    and "\<And>y. y \<in> set (drop p xs) \<Longrightarrow> R x y"
  shows "sorted_wrt R (insert_at p x xs)"
proof -
  have "sorted_wrt R (take p xs @ drop p xs)" using assms(1) by simp
  then have "sorted_wrt R (take p xs)" "sorted_wrt R (drop p xs)"
    "\<forall>y \<in> set (take p xs). \<forall>z \<in> set (drop p xs). R y z"
    unfolding sorted_wrt_append by blast+
  then show ?thesis
    using assms(2,3) by (auto simp: insert_at_def sorted_wrt_append)
qed

lemma in_set_take_nth: "x \<in> set (take p xs) \<longleftrightarrow> (\<exists>i < p. i < length xs \<and> xs ! i = x)"
  by (auto simp: in_set_conv_nth)

lemma in_set_drop_nth: "x \<in> set (drop p xs) \<longleftrightarrow> (\<exists>i \<ge> p. i < length xs \<and> xs ! i = x)"
proof
  assume "x \<in> set (drop p xs)"
  then obtain j where "j < length xs - p" "drop p xs ! j = x"
    by (auto simp: in_set_conv_nth)
  then show "\<exists>i \<ge> p. i < length xs \<and> xs ! i = x"
    by (intro exI [of _ "p + j"]) (auto simp: nth_drop)
next
  assume "\<exists>i \<ge> p. i < length xs \<and> xs ! i = x"
  then obtain i where "p \<le> i" "i < length xs" "xs ! i = x" by blast
  then have "drop p xs ! (i - p) = x" "i - p < length (drop p xs)" by auto
  then show "x \<in> set (drop p xs)" by (metis nth_mem)
qed

end
