(* ===== verification/Ideal_Double.thy ===== *)
theory Ideal_Double
  imports Prelude
begin

text \<open>
  The C++ \<open>double\<close> with its special values: not-a-number and the two infinities behave as
  in IEEE 754 (every comparison with a NaN is false, \<open>INFINITY - INFINITY\<close> is a NaN), the
  finite values are exact reals. Rounding and the sign of a zero are abstracted away; a
  division of a finite value by zero is the infinity of the sign of the dividend.
\<close>

section \<open>Values and arithmetic\<close>

datatype double = NaN | MInf | PInf | Fin real

instantiation double :: "{zero, one, plus, uminus, minus, times, inverse, abs, ord}"
begin

definition zero_double :: double where "0 = Fin 0"

definition one_double :: double where "1 = Fin 1"

fun plus_double :: "double \<Rightarrow> double \<Rightarrow> double" where
  "plus_double (Fin a) (Fin b) = Fin (a + b)"
| "plus_double NaN y = NaN"
| "plus_double x NaN = NaN"
| "plus_double PInf MInf = NaN"
| "plus_double MInf PInf = NaN"
| "plus_double PInf y = PInf"
| "plus_double x PInf = PInf"
| "plus_double MInf y = MInf"
| "plus_double x MInf = MInf"

fun uminus_double :: "double \<Rightarrow> double" where
  "uminus_double NaN = NaN"
| "uminus_double PInf = MInf"
| "uminus_double MInf = PInf"
| "uminus_double (Fin a) = Fin (- a)"

definition minus_double :: "double \<Rightarrow> double \<Rightarrow> double" where
  "minus_double x y = x + (- y)"

fun scale_inf :: "real \<Rightarrow> double \<Rightarrow> double" where
  "scale_inf a y = (if a = 0 then NaN else if 0 < a then y else - y)"

fun times_double :: "double \<Rightarrow> double \<Rightarrow> double" where
  "times_double (Fin a) (Fin b) = Fin (a * b)"
| "times_double NaN y = NaN"
| "times_double x NaN = NaN"
| "times_double (Fin a) y = scale_inf a y"
| "times_double x (Fin b) = scale_inf b x"
| "times_double PInf PInf = PInf"
| "times_double MInf MInf = PInf"
| "times_double x y = MInf"

fun divide_double :: "double \<Rightarrow> double \<Rightarrow> double" where
  "divide_double (Fin a) (Fin b) =
     (if b = 0 then (if a = 0 then NaN else if 0 < a then PInf else MInf) else Fin (a / b))"
| "divide_double NaN y = NaN"
| "divide_double x NaN = NaN"
| "divide_double (Fin a) y = Fin 0"
| "divide_double x (Fin b) = (if b = 0 then x else scale_inf b x)"
| "divide_double x y = NaN"

definition inverse_double :: "double \<Rightarrow> double" where
  "inverse_double x = divide_class.divide (Fin 1) x"

fun abs_double :: "double \<Rightarrow> double" where
  "abs_double NaN = NaN"
| "abs_double (Fin a) = Fin \<bar>a\<bar>"
| "abs_double x = PInf"

fun less_double :: "double \<Rightarrow> double \<Rightarrow> bool" where
  "less_double (Fin a) (Fin b) = (a < b)"
| "less_double MInf PInf = True"
| "less_double MInf (Fin b) = True"
| "less_double (Fin a) PInf = True"
| "less_double x y = False"

fun less_eq_double :: "double \<Rightarrow> double \<Rightarrow> bool" where
  "less_eq_double (Fin a) (Fin b) = (a \<le> b)"
| "less_eq_double MInf y = (y \<noteq> NaN)"
| "less_eq_double x PInf = (x \<noteq> NaN)"
| "less_eq_double x y = False"

instance ..

end

text \<open>C++ equality: a NaN is different from itself.\<close>

definition deq :: "double \<Rightarrow> double \<Rightarrow> bool" where
  "deq x y \<longleftrightarrow> x = y \<and> x \<noteq> NaN"

definition std_min :: "double \<Rightarrow> double \<Rightarrow> double" where
  "std_min a b = (if b < a then b else a)"

definition std_max :: "double \<Rightarrow> double \<Rightarrow> double" where
  "std_max a b = (if a < b then b else a)"

fun dceil :: "double \<Rightarrow> double" where
  "dceil (Fin x) = Fin (of_int \<lceil>x\<rceil>)"
| "dceil x = x"

text \<open>C's \<open>round\<close>: halves go away from zero.\<close>

fun dround :: "double \<Rightarrow> double" where
  "dround (Fin x) = Fin (sgn x * of_int \<lfloor>\<bar>x\<bar> + 1/2\<rfloor>)"
| "dround x = x"

definition epsilon :: real where
  "epsilon = 1 / 4503599627370496"

text \<open>
  Conversion to \<open>unsigned int\<close> truncates towards zero; it is undefined behaviour (here
  \<open>None\<close>) when the truncated value does not fit.
\<close>

fun double_to_u32 :: "double \<Rightarrow> u32 option" where
  "double_to_u32 (Fin x) =
     (if -1 < x \<and> x < 4294967296 then Some (word_of_int (if x < 0 then 0 else \<lfloor>x\<rfloor>)) else None)"
| "double_to_u32 x = None"

fun is_fin :: "double \<Rightarrow> bool" where
  "is_fin (Fin x) = True"
| "is_fin x = False"

fun dval :: "double \<Rightarrow> real" where
  "dval (Fin x) = x"
| "dval x = 0"

section \<open>Order and arithmetic facts\<close>

lemma is_fin_iff: "is_fin x \<longleftrightarrow> (\<exists>a. x = Fin a)"
  by (cases x) auto

lemma minus_double_simps [simp]:
  "Fin a - Fin b = Fin (a - b)"
  "NaN - y = NaN" "x - NaN = NaN"
  "PInf - PInf = NaN" "MInf - MInf = NaN"
  "PInf - Fin b = PInf" "PInf - MInf = PInf"
  "MInf - Fin b = MInf" "MInf - PInf = MInf"
  "Fin a - PInf = MInf" "Fin a - MInf = PInf"
  by (cases x; cases y; simp add: minus_double_def)+

lemma less_double_irrefl [simp]: "\<not> (x::double) < x"
  by (cases x) auto

lemma less_NaN [simp]: "\<not> NaN < y" "\<not> x < NaN" "\<not> NaN \<le> y" "\<not> x \<le> NaN"
  by (cases x; cases y; simp)+

lemma less_PInf_iff: "x < PInf \<longleftrightarrow> x = MInf \<or> is_fin x"
  by (cases x) auto

lemma less_double_imp_le: "(x::double) < y \<Longrightarrow> x \<le> y"
  by (cases x; cases y) auto

lemma le_double_trans: "(x::double) \<le> y \<Longrightarrow> y \<le> z \<Longrightarrow> x \<le> z"
  by (cases x; cases y; cases z) auto

lemma less_le_double_trans: "(x::double) < y \<Longrightarrow> y \<le> z \<Longrightarrow> x < z"
  by (cases x; cases y; cases z) auto

lemma le_less_double_trans: "(x::double) \<le> y \<Longrightarrow> y < z \<Longrightarrow> x < z"
  by (cases x; cases y; cases z) auto

lemma not_less_double: "x \<noteq> NaN \<Longrightarrow> y \<noteq> NaN \<Longrightarrow> \<not> (x::double) < y \<longleftrightarrow> y \<le> x"
  by (cases x; cases y) auto

lemma le_double_refl: "x \<noteq> NaN \<Longrightarrow> (x::double) \<le> x"
  by (cases x) auto

lemma le_double_antisym: "(x::double) \<le> y \<Longrightarrow> y \<le> x \<Longrightarrow> x = y"
  by (cases x; cases y) auto

lemma le_PInf [simp]: "x \<noteq> NaN \<Longrightarrow> x \<le> PInf"
  by (cases x) auto

lemma MInf_le [simp]: "x \<noteq> NaN \<Longrightarrow> MInf \<le> x"
  by (cases x) auto

lemma PInf_le_iff [simp]: "PInf \<le> x \<longleftrightarrow> x = PInf"
  by (cases x) auto

lemma le_MInf_iff [simp]: "x \<le> MInf \<longleftrightarrow> x = MInf"
  by (cases x) auto

lemma not_PInf_less [simp]: "\<not> PInf < x"
  by (cases x) auto

lemma not_less_MInf [simp]: "\<not> x < MInf"
  by (cases x) auto

lemma std_min_Fin [simp]: "std_min (Fin a) (Fin b) = Fin (min a b)"
  by (simp add: std_min_def min_def)

lemma std_max_Fin [simp]: "std_max (Fin a) (Fin b) = Fin (max a b)"
  by (simp add: std_max_def max_def)

lemma std_min_inf [simp]: "std_min (Fin a) PInf = Fin a" "std_min PInf (Fin a) = Fin a"
  by (simp_all add: std_min_def)

lemma std_max_inf [simp]: "std_max (Fin a) PInf = PInf" "std_max PInf (Fin a) = PInf"
  by (simp_all add: std_max_def)

lemma epsilon_pos [simp]: "0 < epsilon" "0 \<le> epsilon" "epsilon \<noteq> 0"
  by (simp_all add: epsilon_def)

lemma epsilon_small: "epsilon < 1 / 1000000"
  by (simp add: epsilon_def)

end
