(* ===== verification/Time_Step.thy ===== *)
theory Time_Step
  imports Ideal_Double
begin

text \<open>
  \<open>TimeStep\<close> of \<open>src/src/tools/time_governor.hh\<close> and \<open>time_governor.cc\<close>: one step of the
  time axis, the construction of the following step and the comparisons that tolerate
  rounding errors. The lemmas say what the comparisons decide on finite times, how wide the
  tolerance is, and what they do with the infinite times the time marks use as stoppers.
\<close>

section \<open>Model\<close>

definition time_step_precision :: double where
  "time_step_precision = Fin (16 * epsilon)"

definition inf_time :: double where
  "inf_time = PInf"

definition max_end_time :: double where
  "max_end_time = Fin 500000000000000000"

record time_unit_conversion =
  coef :: double
  unit_string :: string

definition default_unit_conversion :: time_unit_conversion where
  "default_unit_conversion = \<lparr>coef = Fin 1, unit_string = ''s''\<rparr>"

record time_step =
  step_index :: u32
  step_length :: double
  step_end :: double
  step_unit :: time_unit_conversion

definition zero_step :: "double \<Rightarrow> time_unit_conversion \<Rightarrow> time_step" where
  "zero_step init_time tuc =
     \<lparr>step_index = 0, step_length = Fin 1, step_end = init_time, step_unit = tuc\<rparr>"

definition undefined_step :: time_step where
  "undefined_step =
     \<lparr>step_index = 0, step_length = inf_time, step_end = - inf_time, step_unit = default_unit_conversion\<rparr>"

definition make_next_to :: "time_step \<Rightarrow> double \<Rightarrow> double \<Rightarrow> time_step" where
  "make_next_to ts new_length end_time =
     undefined_step\<lparr>step_index := step_index ts + 1, step_length := new_length, step_end := end_time,
       step_unit := step_unit ts\<rparr>"

definition make_next :: "time_step \<Rightarrow> double \<Rightarrow> time_step" where
  "make_next ts new_length = make_next_to ts new_length (step_end ts + new_length)"

definition safe_compare :: "double \<Rightarrow> double \<Rightarrow> bool" where
  "safe_compare t1 t0 \<longleftrightarrow>
     t0 - Fin (16 * epsilon) * (Fin 1 + std_max \<bar>t1\<bar> \<bar>t0\<bar>) \<le> t1"

definition step_gt :: "time_step \<Rightarrow> double \<Rightarrow> bool" where
  "step_gt ts other_time \<longleftrightarrow> \<not> safe_compare other_time (step_end ts)"

definition step_ge :: "time_step \<Rightarrow> double \<Rightarrow> bool" where
  "step_ge ts other_time \<longleftrightarrow> safe_compare (step_end ts) other_time"

definition step_lt :: "time_step \<Rightarrow> double \<Rightarrow> bool" where
  "step_lt ts other_time \<longleftrightarrow> \<not> safe_compare (step_end ts) other_time"

definition step_le :: "time_step \<Rightarrow> double \<Rightarrow> bool" where
  "step_le ts other_time \<longleftrightarrow> safe_compare other_time (step_end ts)"

definition step_eq :: "time_step \<Rightarrow> double \<Rightarrow> bool" where
  "step_eq ts other_time \<longleftrightarrow> step_le ts other_time \<and> step_ge ts other_time"

definition step_contains :: "time_step \<Rightarrow> double \<Rightarrow> bool" where
  "step_contains ts other_time \<longleftrightarrow>
     step_ge ts other_time \<and> step_lt ts (other_time + step_length ts)"

definition same_step :: "time_step \<Rightarrow> time_step \<Rightarrow> bool" where
  "same_step a b \<longleftrightarrow>
     step_index a = step_index b \<and> deq (step_length a) (step_length b) \<and> deq (step_end a) (step_end b)"

lemmas step_compare_defs = step_gt_def step_ge_def step_lt_def step_le_def

section \<open>Comparisons\<close>

definition tolerance :: "real \<Rightarrow> real \<Rightarrow> real" where
  "tolerance a b = 16 * epsilon * (1 + max \<bar>a\<bar> \<bar>b\<bar>)"

lemma tolerance_pos [simp]: "0 < tolerance a b"
  unfolding tolerance_def by (intro mult_pos_pos) (auto simp: max_def)

lemma tolerance_nonneg [simp]: "0 \<le> tolerance a b"
  by (rule less_imp_le) simp

lemma tolerance_commute: "tolerance a b = tolerance b a"
  by (simp add: tolerance_def max.commute)

lemma tolerance_ge: "16 * epsilon \<le> tolerance a b"
  using mult_left_mono [of 1 "1 + max \<bar>a\<bar> \<bar>b\<bar>" "16 * epsilon"] by (simp add: tolerance_def)

lemma safe_compare_Fin [simp]:
  "safe_compare (Fin t1) (Fin t0) \<longleftrightarrow> t0 - tolerance t1 t0 \<le> t1"
  by (simp add: safe_compare_def tolerance_def)

lemma safe_compare_PInf_right [simp]: "\<not> safe_compare t PInf"
  by (cases t) (simp_all add: safe_compare_def std_max_def)

lemma safe_compare_MInf_right [simp]: "safe_compare (Fin t) MInf"
  by (simp add: safe_compare_def)

lemma safe_compare_PInf_left [simp]: "safe_compare PInf (Fin t)" "safe_compare PInf MInf"
  by (simp_all add: safe_compare_def std_max_def)

lemma safe_compare_MInf_left [simp]: "safe_compare MInf (Fin t)"
  by (simp add: safe_compare_def)

lemma safe_compare_refl_Fin [simp]: "safe_compare (Fin t) (Fin t)"
  by simp

lemma safe_compare_of_le: "a \<le> b \<Longrightarrow> safe_compare (Fin b) (Fin a)"
  using tolerance_nonneg [of b a] by (simp del: tolerance_nonneg tolerance_pos)

text \<open>
  On times at least one tolerance apart the comparisons are the exact ones; the tolerance
  is monotone in the right argument, so a time that compares greater stays greater.
\<close>

lemma safe_compare_mono:
  assumes "safe_compare (Fin a) (Fin c)" and "a \<le> b"
  shows "safe_compare (Fin b) (Fin c)"
proof (cases "c \<le> b")
  case True
  then show ?thesis by (rule safe_compare_of_le)
next
  case False
  then have bc: "b < c" by simp
  from assms(1) have ac: "c - a \<le> tolerance a c" by simp
  have eps: "16 * epsilon < 1" using epsilon_small by simp
  have "\<bar>a\<bar> \<le> \<bar>b\<bar> + (b - a)" using assms(2) by linarith
  then have "max \<bar>a\<bar> \<bar>c\<bar> \<le> max \<bar>b\<bar> \<bar>c\<bar> + (b - a)" using assms(2) by linarith
  then have "tolerance a c \<le> 16 * epsilon * (1 + max \<bar>b\<bar> \<bar>c\<bar> + (b - a))"
    unfolding tolerance_def by (intro mult_left_mono) auto
  also have "\<dots> = tolerance b c + 16 * epsilon * (b - a)"
    by (simp add: tolerance_def algebra_simps)
  also have "\<dots> \<le> tolerance b c + (b - a)"
    using mult_right_mono [of "16 * epsilon" 1 "b - a"] eps assms(2) by simp
  finally show ?thesis using ac by simp
qed

lemma safe_compare_antimono:
  assumes "safe_compare (Fin a) (Fin c)" and "b \<le> c"
  shows "safe_compare (Fin a) (Fin b)"
proof (cases "b \<le> a")
  case True
  then show ?thesis by (rule safe_compare_of_le)
next
  case False
  from assms(1) have ac: "c - a \<le> tolerance a c" by simp
  have eps: "16 * epsilon < 1" using epsilon_small by simp
  have "max \<bar>a\<bar> \<bar>c\<bar> \<le> max \<bar>a\<bar> \<bar>b\<bar> + (c - b)" using assms(2) by linarith
  then have "tolerance a c \<le> 16 * epsilon * (1 + max \<bar>a\<bar> \<bar>b\<bar> + (c - b))"
    unfolding tolerance_def by (intro mult_left_mono) auto
  also have "\<dots> = tolerance a b + 16 * epsilon * (c - b)"
    by (simp add: tolerance_def algebra_simps)
  also have "\<dots> \<le> tolerance a b + (c - b)"
    using mult_right_mono [of "16 * epsilon" 1 "c - b"] eps assms(2) by simp
  finally show ?thesis using ac by simp
qed

lemma step_lt_imp_less: "step_end ts = Fin e \<Longrightarrow> step_lt ts (Fin t) \<Longrightarrow> e < t"
  using tolerance_nonneg [of e t] by (auto simp: step_lt_def simp del: tolerance_nonneg)

lemma step_lt_gap: "step_end ts = Fin e \<Longrightarrow> step_lt ts (Fin t) \<Longrightarrow> 16 * epsilon < t - e"
  using tolerance_ge [of e t] by (auto simp: step_lt_def)

lemma step_lt_PInf [simp]: "step_lt ts PInf"
  by (simp add: step_lt_def)

lemma step_ge_MInf [simp]: "is_fin (step_end ts) \<Longrightarrow> step_ge ts MInf"
  by (auto simp: step_ge_def is_fin_iff)

lemma step_ge_iff_not_lt: "step_ge ts t \<longleftrightarrow> \<not> step_lt ts t"
  by (simp add: step_ge_def step_lt_def)

end
