(* ===== verification/Time_Marks.thy ===== *)
theory Time_Marks
  imports Time_Step
begin

text \<open>
  \<open>TimeMark\<close>, \<open>TimeMarks\<close> and \<open>TimeMarksIterator\<close> of \<open>src/src/tools/time_marks.hh\<close> and
  \<open>time_marks.cc\<close>: the database of the times at which something happens (fixed times, output,
  input, balance), one sorted vector per equation, closed by a mark at minus and a mark at
  plus infinity. The lemmas give the invariant of the vectors, that every operation keeps it,
  what \<open>add\<close> does to the set of marks, and that the searches \<open>next\<close> and \<open>last\<close> never run off
  a vector and return the nearest matching mark.
\<close>

unbundle bit_operations_syntax

section \<open>Mark types\<close>

datatype tm_error =
    AssertEquationIndex u8 u8   \<comment> \<open>a failed \<open>ASSERT\<close> on equation indices\<close>
  | AssertMarkTypeLimit         \<comment> \<open>\<open>new_mark_type\<close>: no free mark type\<close>
  | OutOfMarks                  \<comment> \<open>undefined behaviour: an iterator or index outside a vector\<close>
  | BadConversion               \<comment> \<open>undefined behaviour: \<open>double\<close> that does not fit \<open>unsigned int\<close>\<close>
  | EndlessLoop                 \<comment> \<open>a loop counter that can never pass its limit\<close>

record mark_type =
  bitmap :: u64
  equation_index :: u8

definition default_type :: mark_type where
  "default_type = \<lparr>bitmap = 1, equation_index = 1\<rparr>"

definition type_or :: "mark_type \<Rightarrow> mark_type \<Rightarrow> (tm_error, mark_type) res" where
  "type_or a b =
     (if equation_index a = 0
      then Inr \<lparr>bitmap = bitmap a OR bitmap b, equation_index = equation_index b\<rparr>
      else if equation_index a = equation_index b \<or> equation_index b = 0
      then Inr \<lparr>bitmap = bitmap a OR bitmap b, equation_index = equation_index a\<rparr>
      else Inl (AssertEquationIndex (equation_index a) (equation_index b)))"

definition type_not :: "mark_type \<Rightarrow> mark_type" where
  "type_not a = \<lparr>bitmap = NOT (bitmap a), equation_index = equation_index a\<rparr>"

definition type_eq :: "mark_type \<Rightarrow> mark_type \<Rightarrow> bool" where
  "type_eq a b \<longleftrightarrow>
     bitmap a = bitmap b \<and> (equation_index a = equation_index b \<or> equation_index b = 0)"

definition every_type :: mark_type where
  "every_type = \<lparr>bitmap = NOT 0, equation_index = 0\<rparr>"

definition none_type :: mark_type where
  "none_type = \<lparr>bitmap = 0, equation_index = 255\<rparr>"

section \<open>Marks\<close>

record time_mark =
  mark_time :: double
  mtype :: mark_type

definition match_mask :: "time_mark \<Rightarrow> mark_type \<Rightarrow> bool" where
  "match_mask m msk \<longleftrightarrow>
     (bitmap msk AND NOT (bitmap (mtype m))) = 0 \<and>
     (equation_index msk = equation_index (mtype m) \<or> equation_index msk = 0)"

definition add_to_type :: "time_mark \<Rightarrow> mark_type \<Rightarrow> (tm_error, time_mark) res" where
  "add_to_type m ty =
     (if equation_index (mtype m) = equation_index ty \<or> equation_index ty = 0
      then Inr (m\<lparr>mtype := (mtype m)\<lparr>bitmap := bitmap (mtype m) OR bitmap ty\<rparr>\<rparr>)
      else Inl (AssertEquationIndex (equation_index (mtype m)) (equation_index ty)))"

definition mark_less :: "time_mark \<Rightarrow> time_mark \<Rightarrow> bool" where
  "mark_less a b \<longleftrightarrow> mark_time a < mark_time b"

definition mark_eq :: "time_mark \<Rightarrow> time_mark \<Rightarrow> bool" where
  "mark_eq a b \<longleftrightarrow> deq (mark_time a) (mark_time b) \<and> type_eq (mtype a) (mtype b)"

section \<open>The database\<close>

record time_marks =
  next_mark_type :: mark_type
  marks :: "time_mark list list"
  type_fixed_time :: mark_type
  type_output :: mark_type
  type_input :: mark_type
  type_balance_output :: mark_type

definition stopper :: "double \<Rightarrow> u8 \<Rightarrow> time_mark" where
  "stopper t ei = \<lparr>mark_time = t, mtype = \<lparr>bitmap = NOT 0, equation_index = ei\<rparr>\<rparr>"

definition reinit :: time_marks where
  "reinit =
     \<lparr>next_mark_type = \<lparr>bitmap = 0, equation_index = 1\<rparr>,
      marks = [[\<lparr>mark_time = MInf, mtype = every_type\<rparr>, \<lparr>mark_time = PInf, mtype = every_type\<rparr>]],
      type_fixed_time = \<lparr>bitmap = 1, equation_index = 0\<rparr>,
      type_output = \<lparr>bitmap = 2, equation_index = 0\<rparr>,
      type_input = \<lparr>bitmap = 4, equation_index = 0\<rparr>,
      type_balance_output = \<lparr>bitmap = 8, equation_index = 0\<rparr>\<rparr>"

text \<open>
  \<open>marks_.push_back\<close> appends an empty vector; the stoppers go to the vector at the position
  given by the equation index.
\<close>

definition new_mark_type :: "time_marks \<Rightarrow> (tm_error, mark_type \<times> time_marks) res" where
  "new_mark_type tms =
     (let current_type = next_mark_type tms; ei = equation_index current_type; i = unat ei;
          vs = marks tms @ [[]] in
      if ei = 0 then Inl AssertMarkTypeLimit
      else if length vs \<le> i then Inl OutOfMarks
      else Inr (current_type,
        tms\<lparr>marks := vs[i := vs ! i @ [stopper MInf ei, stopper PInf ei]],
            next_mark_type := current_type\<lparr>equation_index := ei + 1\<rparr>\<rparr>))"

text \<open>\<open>times_equal\<close> is the test \<open>fabs(a->time() - b.time()) < time_step_precision\<close> of \<open>add\<close>.\<close>

definition times_equal :: "time_mark \<Rightarrow> time_mark \<Rightarrow> bool" where
  "times_equal a b \<longleftrightarrow> \<bar>mark_time a - mark_time b\<bar> < time_step_precision"

definition merge_mark ::
  "time_marks \<Rightarrow> nat \<Rightarrow> nat \<Rightarrow> time_mark \<Rightarrow> (tm_error, time_mark \<times> time_marks) res" where
  "merge_mark tms i p m =
     bind_res (add_to_type (marks tms ! i ! p) (mtype m)) (\<lambda>m'.
       Inr (m', tms\<lparr>marks := (marks tms)[i := (marks tms ! i)[p := m']]\<rparr>))"

definition add_mark :: "time_marks \<Rightarrow> time_mark \<Rightarrow> (tm_error, time_mark \<times> time_marks) res" where
  "add_mark tms m =
     (let i = unat (equation_index (mtype m)) in
      bind_res (vec_at OutOfMarks (marks tms) i) (\<lambda>ms.
        let first_ge = lower_bound mark_less ms m in
        bind_res (vec_at OutOfMarks ms first_ge) (\<lambda>f.
          if times_equal f m then merge_mark tms i first_ge m
          else if first_ge \<noteq> 0 \<and> times_equal (ms ! (first_ge - 1)) m
          then merge_mark tms i (first_ge - 1) m
          else Inr (m, tms\<lparr>marks := (marks tms)[i := insert_at first_ge m ms]\<rparr>))))"

text \<open>
  The counter of the loop is an \<open>unsigned int\<close> compared by \<open>i <= n_steps\<close>: with the largest
  \<open>n_steps\<close> the loop never ends.
\<close>

definition add_time_marks ::
  "time_marks \<Rightarrow> double \<Rightarrow> double \<Rightarrow> double \<Rightarrow> mark_type \<Rightarrow> (tm_error, time_marks) res" where
  "add_time_marks tms time dt end_time ty =
     (case double_to_u32 ((end_time - time) / dt + time_step_precision) of
        None \<Rightarrow> Inl BadConversion
      | Some n_steps \<Rightarrow>
          if n_steps = - 1 then Inl EndlessLoop
          else fold_res
            (\<lambda>s i. bind_res
               (add_mark s \<lparr>mark_time = time + Fin (real i) * dt, mtype = ty\<rparr>) (\<lambda>r. Inr (snd r)))
            tms [0..<Suc (unat n_steps)])"

definition add_to_type_all ::
  "time_marks \<Rightarrow> mark_type \<Rightarrow> mark_type \<Rightarrow> (tm_error, time_marks) res" where
  "add_to_type_all tms filter_type add_type =
     (let i = unat (equation_index filter_type) in
      if equation_index filter_type = 0 then Inl (AssertEquationIndex 0 0)
      else if equation_index filter_type \<noteq> equation_index add_type \<and> equation_index add_type \<noteq> 0
      then Inl (AssertEquationIndex (equation_index filter_type) (equation_index add_type))
      else bind_res (vec_at OutOfMarks (marks tms) i) (\<lambda>ms.
        bind_res (fold_res
            (\<lambda>acc m. if match_mask m filter_type
                     then bind_res (add_to_type m add_type) (\<lambda>m'. Inr (acc @ [m']))
                     else Inr (acc @ [m])) [] ms) (\<lambda>ms'.
          Inr (tms\<lparr>marks := (marks tms)[i := ms']\<rparr>))))"

section \<open>Iterators and searches\<close>

text \<open>An iterator is the vector it runs over, a position and a mask.\<close>

record marks_iterator =
  it_marks :: "time_mark list"
  it_pos :: nat
  it_mask :: mark_type

definition deref :: "marks_iterator \<Rightarrow> (tm_error, time_mark) res" where
  "deref it = vec_at OutOfMarks (it_marks it) (it_pos it)"

text \<open>
  The prefix increment dereferences the position it moved to before it tests for the end of
  the vector; \<open>it_rest\<close> is the part of the vector after the position.
\<close>

fun incr_from :: "mark_type \<Rightarrow> nat \<Rightarrow> time_mark list \<Rightarrow> (tm_error, nat) res" where
  "incr_from msk p [] = Inl OutOfMarks"
| "incr_from msk p (m # it_rest) =
     (if match_mask m msk then Inr (Suc p) else incr_from msk (Suc p) it_rest)"

definition it_incr :: "marks_iterator \<Rightarrow> (tm_error, marks_iterator) res" where
  "it_incr it =
     (if it_pos it = length (it_marks it) then Inr it
      else bind_res (incr_from (it_mask it) (it_pos it) (drop (Suc (it_pos it)) (it_marks it)))
             (\<lambda>p. Inr (it\<lparr>it_pos := p\<rparr>)))"

fun decr_from :: "mark_type \<Rightarrow> time_mark list \<Rightarrow> nat \<Rightarrow> nat" where
  "decr_from msk ms 0 = 0"
| "decr_from msk ms (Suc p) = (if match_mask (ms ! p) msk then p else decr_from msk ms p)"

definition it_decr :: "marks_iterator \<Rightarrow> marks_iterator" where
  "it_decr it = it\<lparr>it_pos := decr_from (it_mask it) (it_marks it) (it_pos it)\<rparr>"

definition begin_mark :: "time_marks \<Rightarrow> mark_type \<Rightarrow> (tm_error, marks_iterator) res" where
  "begin_mark tms msk =
     bind_res (vec_at OutOfMarks (marks tms) (unat (equation_index msk))) (\<lambda>ms.
       Inr \<lparr>it_marks = ms, it_pos = 0, it_mask = msk\<rparr>)"

definition end_mark :: "time_marks \<Rightarrow> mark_type \<Rightarrow> (tm_error, marks_iterator) res" where
  "end_mark tms msk =
     bind_res (vec_at OutOfMarks (marks tms) (unat (equation_index msk))) (\<lambda>ms.
       if ms = [] then Inl OutOfMarks
       else Inr \<lparr>it_marks = ms, it_pos = length ms - 1, it_mask = msk\<rparr>)"

definition begin_equation :: "time_marks \<Rightarrow> u8 \<Rightarrow> (tm_error, marks_iterator) res" where
  "begin_equation tms ei = begin_mark tms \<lparr>bitmap = bitmap every_type, equation_index = ei\<rparr>"

definition end_equation :: "time_marks \<Rightarrow> u8 \<Rightarrow> (tm_error, marks_iterator) res" where
  "end_equation tms ei = end_mark tms \<lparr>bitmap = bitmap every_type, equation_index = ei\<rparr>"

text \<open>The loop of \<open>next\<close>, over the marks from position \<open>p\<close> on.\<close>

fun next_from :: "time_step \<Rightarrow> mark_type \<Rightarrow> nat \<Rightarrow> time_mark list \<Rightarrow> (tm_error, nat) res" where
  "next_from st msk p [] = Inl OutOfMarks"
| "next_from st msk p (m # rest) =
     (if \<not> step_lt st (mark_time m) \<or> \<not> match_mask m msk
      then (if rest = [] then Inr p else next_from st msk (Suc p) rest)
      else Inr p)"

definition next_mark ::
  "time_marks \<Rightarrow> time_step \<Rightarrow> mark_type \<Rightarrow> mark_type \<Rightarrow> (tm_error, marks_iterator) res" where
  "next_mark tms st eq_mark_type msk =
     (if equation_index eq_mark_type \<noteq> equation_index msk
      then Inl (AssertEquationIndex (equation_index eq_mark_type) (equation_index msk))
      else bind_res (vec_at OutOfMarks (marks tms) (unat (equation_index msk))) (\<lambda>ms.
        let first_ge = lower_bound mark_less ms \<lparr>mark_time = step_end st, mtype = msk\<rparr> in
        bind_res (next_from st msk first_ge (drop first_ge ms)) (\<lambda>p.
          Inr \<lparr>it_marks = ms, it_pos = p, it_mask = msk\<rparr>)))"

text \<open>The loop of \<open>last\<close>: backwards from a position, undefined before the first mark.\<close>

fun last_from :: "time_step \<Rightarrow> mark_type \<Rightarrow> time_mark list \<Rightarrow> nat \<Rightarrow> (tm_error, nat) res" where
  "last_from st msk ms p =
     bind_res (vec_at OutOfMarks ms p) (\<lambda>m.
       if \<not> step_ge st (mark_time m) \<or> \<not> match_mask m msk
       then (case p of 0 \<Rightarrow> Inl OutOfMarks | Suc q \<Rightarrow> last_from st msk ms q)
       else Inr p)"

definition last_mark ::
  "time_marks \<Rightarrow> time_step \<Rightarrow> mark_type \<Rightarrow> (tm_error, marks_iterator) res" where
  "last_mark tms st msk =
     bind_res (vec_at OutOfMarks (marks tms) (unat (equation_index msk))) (\<lambda>ms.
       let first_ge = lower_bound mark_less ms
             \<lparr>mark_time = step_end st + Fin (1/100) * step_length st, mtype = msk\<rparr> in
       bind_res (last_from st msk ms first_ge) (\<lambda>p.
         Inr \<lparr>it_marks = ms, it_pos = p, it_mask = msk\<rparr>))"

definition last_of_type :: "time_marks \<Rightarrow> mark_type \<Rightarrow> (tm_error, marks_iterator) res" where
  "last_of_type tms msk = bind_res (end_mark tms msk) (\<lambda>it. Inr (it_decr it))"

definition current_mark ::
  "time_marks \<Rightarrow> time_step \<Rightarrow> mark_type \<Rightarrow> (tm_error, marks_iterator) res" where
  "current_mark tms st msk =
     bind_res (last_mark tms st msk) (\<lambda>it.
       bind_res (deref it) (\<lambda>m.
         if step_contains st (mark_time m) then Inr it else end_mark tms msk))"

declare last_from.simps [simp del]

section \<open>The invariant\<close>

text \<open>
  Marks of one equation are ordered by time and two finite marks are at least the time step
  precision apart; the vector is closed by the two stoppers.
\<close>

definition mark_before :: "time_mark \<Rightarrow> time_mark \<Rightarrow> bool" where
  "mark_before a b \<longleftrightarrow>
     mark_time a \<le> mark_time b \<and>
     (is_fin (mark_time a) \<and> is_fin (mark_time b) \<longrightarrow>
        dval (mark_time a) + 16 * epsilon \<le> dval (mark_time b))"

definition marks_ok :: "u8 \<Rightarrow> time_mark list \<Rightarrow> bool" where
  "marks_ok ei ms \<longleftrightarrow>
     2 \<le> length ms \<and> hd ms = stopper MInf ei \<and> last ms = stopper PInf ei \<and>
     sorted_wrt mark_before ms \<and> list_all (\<lambda>m. equation_index (mtype m) = ei) ms"

definition n_types :: "time_marks \<Rightarrow> nat" where
  "n_types tms = (let n = equation_index (next_mark_type tms) in if n = 0 then 256 else unat n)"

definition tms_ok :: "time_marks \<Rightarrow> bool" where
  "tms_ok tms \<longleftrightarrow>
     length (marks tms) = n_types tms \<and> bitmap (next_mark_type tms) = 0 \<and>
     type_fixed_time tms = type_fixed_time reinit \<and> type_output tms = type_output reinit \<and>
     type_input tms = type_input reinit \<and> type_balance_output tms = type_balance_output reinit \<and>
     list_all (\<lambda>i. marks_ok (word_of_nat i) (marks tms ! i)) [0..<length (marks tms)]"

lemma tms_ok_marks_ok:
  assumes "tms_ok tms" and "unat ei < length (marks tms)"
  shows "marks_ok ei (marks tms ! unat ei)"
proof -
  have "unat ei \<in> set [0..<length (marks tms)]" using assms(2) by simp
  then have "marks_ok (word_of_nat (unat ei)) (marks tms ! unat ei)"
    using assms(1) unfolding tms_ok_def list_all_iff by blast
  then show ?thesis by simp
qed

lemma unat_succ_or_wrap:
  "(if (x::u8) + 1 = 0 then 256 else unat (x + 1)) = Suc (unat x)"
proof (cases "x + 1 = 0")
  case True
  then have "x = - 1" by (simp add: eq_neg_iff_add_eq_0)
  then show ?thesis by (simp add: unsigned_minus_1_eq_mask mask_eq_exp_minus_1)
next
  case False
  then have "1 + x \<noteq> 0" by (simp add: add.commute)
  then show ?thesis using unatSuc [of x] False by (simp add: add.commute)
qed

lemma n_types_le: "n_types tms \<le> 256"
proof -
  have "unat (equation_index (next_mark_type tms)) < 256"
    using unsigned_less [of "equation_index (next_mark_type tms)"] by simp
  then show ?thesis by (auto simp: n_types_def Let_def)
qed

lemma tms_ok_update:
  assumes "tms_ok tms" and "unat ei < length (marks tms)" and "marks_ok ei ms"
  shows "tms_ok (tms\<lparr>marks := (marks tms)[unat ei := ms]\<rparr>)"
  using assms unfolding tms_ok_def list_all_iff n_types_def
  by (auto simp: nth_list_update)

lemma reinit_ok: "tms_ok reinit"
  by (simp add: tms_ok_def reinit_def n_types_def marks_ok_def stopper_def every_type_def
      mark_before_def)

lemma marks_ok_nth:
  assumes "marks_ok ei ms" and "i < j" and "j < length ms"
  shows "mark_before (ms ! i) (ms ! j)"
  using assms unfolding marks_ok_def by (auto intro: sorted_wrt_nth_less)

lemma marks_ok_first: "marks_ok ei ms \<Longrightarrow> ms ! 0 = stopper MInf ei"
  unfolding marks_ok_def by (cases ms) auto

lemma marks_ok_last: "marks_ok ei ms \<Longrightarrow> ms ! (length ms - 1) = stopper PInf ei"
  unfolding marks_ok_def by (cases ms rule: rev_cases) (auto simp: nth_append)

lemma marks_ok_nonempty: "marks_ok ei ms \<Longrightarrow> ms \<noteq> []"
  by (auto simp: marks_ok_def)

lemma marks_ok_stopper_in: "marks_ok ei ms \<Longrightarrow> stopper PInf ei \<in> set ms"
  by (metis marks_ok_def last_in_set marks_ok_nonempty)

lemma marks_ok_not_NaN:
  assumes "marks_ok ei ms" and "m \<in> set ms"
  shows "mark_time m \<noteq> NaN"
proof -
  from assms(2) obtain i where i: "i < length ms" "ms ! i = m" by (auto simp: in_set_conv_nth)
  show ?thesis
  proof (cases "i = 0")
    case True
    with i marks_ok_first [OF assms(1)] show ?thesis by (auto simp: stopper_def)
  next
    case False
    then have "mark_before (ms ! 0) (ms ! i)" using marks_ok_nth [OF assms(1), of 0 i] i by simp
    with i show ?thesis by (auto simp: mark_before_def)
  qed
qed

lemma marks_ok_index: "marks_ok ei ms \<Longrightarrow> m \<in> set ms \<Longrightarrow> equation_index (mtype m) = ei"
  by (auto simp: marks_ok_def list_all_iff)

lemma stopper_sel [simp]:
  "mark_time (stopper t ei) = t" "equation_index (mtype (stopper t ei)) = ei"
  by (simp_all add: stopper_def)

lemma match_stopper [simp]:
  "match_mask (stopper t ei) msk \<longleftrightarrow> equation_index msk = ei \<or> equation_index msk = 0"
  by (simp add: match_mask_def stopper_def)

lemma marks_ok_lower_bound:
  assumes "marks_ok ei ms"
  shows "lower_bound mark_less ms m < length ms"
  by (rule lower_bound_less_length [OF marks_ok_stopper_in [OF assms]])
     (simp add: mark_less_def)

section \<open>Allocation of mark types\<close>

lemma new_mark_type_ok:
  assumes ok: "tms_ok tms" and free: "equation_index (next_mark_type tms) \<noteq> 0"
  obtains tms' where "new_mark_type tms = Inr (next_mark_type tms, tms')" "tms_ok tms'"
    "length (marks tms') = Suc (length (marks tms))"
    "take (length (marks tms)) (marks tms') = marks tms"
proof -
  let ?ei = "equation_index (next_mark_type tms)"
  let ?n = "length (marks tms)"
  have n: "?n = unat ?ei"
    using ok free by (simp add: tms_ok_def n_types_def Let_def)
  let ?st = "[stopper MInf ?ei, stopper PInf ?ei]"
  define tms' where "tms' = tms\<lparr>marks := (marks tms @ [[]])[?n := ?st],
      next_mark_type := (next_mark_type tms)\<lparr>equation_index := ?ei + 1\<rparr>\<rparr>"
  have marks': "marks tms' = marks tms @ [?st]" by (simp add: tms'_def)
  have eq: "new_mark_type tms = Inr (next_mark_type tms, tms')"
    using free n by (simp add: new_mark_type_def tms'_def Let_def nth_append)
  have "n_types tms' = Suc (unat ?ei)"
    by (simp add: n_types_def tms'_def Let_def unat_succ_or_wrap)
  moreover have "marks_ok ?ei ?st"
    by (simp add: marks_ok_def mark_before_def)
  moreover have "word_of_nat ?n = ?ei" by (simp add: n)
  ultimately have "tms_ok tms'"
    using ok n unfolding tms_ok_def list_all_iff
    by (auto simp: marks' nth_append less_Suc_eq tms'_def)
  with eq marks' show ?thesis using that by simp
qed

section \<open>Adding marks\<close>

lemma add_to_type_same_index:
  "equation_index (mtype m) = equation_index ty \<Longrightarrow>
     add_to_type m ty = Inr (m\<lparr>mtype := (mtype m)\<lparr>bitmap := bitmap (mtype m) OR bitmap ty\<rparr>\<rparr>)"
  by (simp add: add_to_type_def)

lemma add_to_type_sel:
  assumes "add_to_type m ty = Inr m'"
  shows "mark_time m' = mark_time m" "equation_index (mtype m') = equation_index (mtype m)"
    "bitmap (mtype m') = bitmap (mtype m) OR bitmap ty"
  using assms by (auto simp: add_to_type_def split: if_splits)

lemma add_to_type_stopper: "add_to_type (stopper t ei) ty = Inr m' \<Longrightarrow> m' = stopper t ei"
  by (auto simp: add_to_type_def stopper_def split: if_splits)

lemma mask_subset_or: "(x :: u64) AND NOT (y OR z) = 0 \<longleftrightarrow> (x AND NOT y) AND NOT z = 0"
  by (simp add: ac_simps)

lemma match_mask_mono:
  assumes "match_mask m msk" and "add_to_type m ty = Inr m'"
  shows "match_mask m' msk"
  using assms(1) unfolding match_mask_def add_to_type_sel [OF assms(2)] mask_subset_or by simp

lemma match_mask_own_type [simp]: "match_mask m (mtype m)"
  by (simp add: match_mask_def)

lemma match_mask_added:
  assumes "add_to_type m ty = Inr m'"
  shows "match_mask m' ty"
proof -
  have "bitmap ty AND NOT (bitmap (mtype m) OR bitmap ty) = 0"
    by (rule bit_eqI) (simp add: bit_simps)
  moreover have "equation_index ty = equation_index (mtype m) \<or> equation_index ty = 0"
    using assms by (auto simp: add_to_type_def split: if_splits)
  ultimately show ?thesis
    unfolding match_mask_def add_to_type_sel [OF assms] by auto
qed

lemma sorted_wrt_mark_before_update:
  assumes "sorted_wrt mark_before ms" and "mark_time m' = mark_time (ms ! p)"
  shows "sorted_wrt mark_before (ms[p := m'])"
proof -
  have "mark_time (ms[p := m'] ! i) = mark_time (ms ! i)" if "i < length ms" for i
    using that assms(2) by (cases "p = i") auto
  then show ?thesis
    using assms(1) unfolding sorted_wrt_iff_nth_less mark_before_def by simp
qed

lemma marks_ok_merge:
  assumes ok: "marks_ok ei ms" and p: "p < length ms" and m': "add_to_type (ms ! p) ty = Inr m'"
  shows "marks_ok ei (ms[p := m'])"
proof -
  note sel = add_to_type_sel [OF m']
  have "ms[p := m'] ! 0 = stopper MInf ei"
    using marks_ok_first [OF ok] m' p by (cases "p = 0") (auto dest: add_to_type_stopper)
  moreover have "ms[p := m'] ! (length ms - 1) = stopper PInf ei"
    using marks_ok_last [OF ok] m' p
    by (cases "p = length ms - 1") (auto dest: add_to_type_stopper)
  moreover have "sorted_wrt mark_before (ms[p := m'])"
    using ok sel(1) by (intro sorted_wrt_mark_before_update) (auto simp: marks_ok_def)
  moreover have "equation_index (mtype m) = ei" if "m \<in> set (ms[p := m'])" for m
    using that sel(2) p marks_ok_index [OF ok] set_update_subset_insert [of ms p m']
    by (metis insert_iff nth_mem subsetD)
  ultimately show ?thesis
    using ok marks_ok_nonempty [OF ok]
    by (auto simp: marks_ok_def list_all_iff hd_conv_nth last_conv_nth)
qed

lemma not_times_equal_gap:
  assumes "\<not> times_equal a b" "is_fin (mark_time a)" "is_fin (mark_time b)"
  shows "16 * epsilon \<le> \<bar>dval (mark_time a) - dval (mark_time b)\<bar>"
  using assms by (auto simp: times_equal_def time_step_precision_def is_fin_iff)

text \<open>
  A new mark goes between two neighbours that are not equal to it, so the distance to every
  other mark is at least the precision.
\<close>

lemma mark_before_trans_left:
  assumes "mark_before a b" and "mark_time b < t"
    and "is_fin (mark_time b) \<and> is_fin t \<longrightarrow> dval (mark_time b) + 16 * epsilon \<le> dval t"
  shows "mark_before a \<lparr>mark_time = t, mtype = ty\<rparr>"
  using assms
  by (cases "mark_time a"; cases "mark_time b"; cases t) (auto simp: mark_before_def)

lemma mark_before_trans_right:
  assumes "mark_before b a" and "t \<le> mark_time b"
    and "is_fin (mark_time b) \<and> is_fin t \<longrightarrow> dval t + 16 * epsilon \<le> dval (mark_time b)"
  shows "mark_before \<lparr>mark_time = t, mtype = ty\<rparr> a"
  using assms
  by (cases "mark_time a"; cases "mark_time b"; cases t) (auto simp: mark_before_def)

lemma mark_before_lower_bound:
  assumes ok: "marks_ok ei ms" and m: "m = \<lparr>mark_time = t, mtype = ty\<rparr>"
    and p: "p = lower_bound mark_less ms m"
    and prev: "0 < p" "\<not> times_equal (ms ! (p - 1)) m" and i: "i < p"
  shows "mark_before (ms ! i) m"
proof -
  have len: "p < length ms" using marks_ok_lower_bound [OF ok] p by simp
  have less: "mark_time (ms ! (p - 1)) < t"
    using lower_bound_before [of "p - 1" mark_less ms m] p prev(1) by (simp add: mark_less_def m)
  have gap: "is_fin (mark_time (ms ! (p - 1))) \<and> is_fin t \<longrightarrow>
      dval (mark_time (ms ! (p - 1))) + 16 * epsilon \<le> dval t"
    using not_times_equal_gap [OF prev(2)] less by (auto simp: is_fin_iff m abs_if)
  show ?thesis
  proof (cases "i = p - 1")
    case True
    then show ?thesis using less gap by (simp add: mark_before_def m less_double_imp_le)
  next
    case False
    then have "mark_before (ms ! i) (ms ! (p - 1))"
      using marks_ok_nth [OF ok, of i "p - 1"] i len by simp
    then show ?thesis unfolding m by (rule mark_before_trans_left [OF _ less gap])
  qed
qed

lemma lower_bound_mark_before:
  assumes ok: "marks_ok ei ms" and m: "m = \<lparr>mark_time = t, mtype = ty\<rparr>" and t: "t \<noteq> NaN"
    and p: "p = lower_bound mark_less ms m"
    and ne: "\<not> times_equal (ms ! p) m" and i: "p \<le> i" "i < length ms"
  shows "mark_before m (ms ! i)"
proof -
  have len: "p < length ms" using marks_ok_lower_bound [OF ok] p by simp
  have "mark_time (ms ! p) \<noteq> NaN" using marks_ok_not_NaN [OF ok] len by simp
  then have le: "t \<le> mark_time (ms ! p)"
    using lower_bound_at [of mark_less ms m] p len t by (simp add: mark_less_def not_less_double m)
  have gap: "is_fin (mark_time (ms ! p)) \<and> is_fin t \<longrightarrow>
      dval t + 16 * epsilon \<le> dval (mark_time (ms ! p))"
    using not_times_equal_gap [OF ne] le by (auto simp: is_fin_iff m abs_if)
  show ?thesis
  proof (cases "i = p")
    case True
    then show ?thesis using le gap by (auto simp: mark_before_def m)
  next
    case False
    then have "mark_before (ms ! p) (ms ! i)" using marks_ok_nth [OF ok, of p i] i by simp
    then show ?thesis unfolding m by (rule mark_before_trans_right [OF _ le gap])
  qed
qed

lemma marks_ok_insert:
  assumes ok: "marks_ok ei ms" and ei: "equation_index (mtype m) = ei"
    and t: "mark_time m \<noteq> NaN" and p: "p = lower_bound mark_less ms m" "0 < p"
    and ne: "\<not> times_equal (ms ! p) m" "\<not> times_equal (ms ! (p - 1)) m"
  shows "marks_ok ei (insert_at p m ms)"
proof -
  have len: "p < length ms" using marks_ok_lower_bound [OF ok] p by simp
  have m: "m = \<lparr>mark_time = mark_time m, mtype = mtype m\<rparr>" by simp
  have "sorted_wrt mark_before (insert_at p m ms)"
  proof (rule sorted_wrt_insert_at)
    show "sorted_wrt mark_before ms" using ok by (simp add: marks_ok_def)
    show "mark_before y m" if "y \<in> set (take p ms)" for y
      using that mark_before_lower_bound [OF ok m p(1) p(2) ne(2)] by (auto simp: in_set_take_nth)
    show "mark_before m y" if "y \<in> set (drop p ms)" for y
      using that lower_bound_mark_before [OF ok m t p(1) ne(1)] by (auto simp: in_set_drop_nth)
  qed
  then show ?thesis
    using ok ei len p(2) marks_ok_nonempty [OF ok]
    by (auto simp: marks_ok_def list_all_iff hd_insert_at last_insert_at)
qed

text \<open>What \<open>add\<close> does to the vector of the equation of the new mark.\<close>

definition mark_added :: "time_mark list \<Rightarrow> time_mark \<Rightarrow> time_mark list \<Rightarrow> bool" where
  "mark_added ms m ms' \<longleftrightarrow>
     (\<exists>m' \<in> set ms'. (m' = m \<or> times_equal m' m) \<and> match_mask m' (mtype m)) \<and>
     (\<forall>m0 \<in> set ms. \<exists>m' \<in> set ms'. mark_time m' = mark_time m0 \<and> match_mask m' (mtype m0)) \<and>
     (\<forall>m' \<in> set ms'. mark_time m' = mark_time m \<or> (\<exists>m0 \<in> set ms. mark_time m' = mark_time m0))"

lemma mark_added_insert: "mark_added ms m (insert_at p m ms)"
  unfolding mark_added_def by auto

lemma mark_added_merge:
  assumes p: "p < length ms" and m': "add_to_type (ms ! p) (mtype m) = Inr m'"
    and eq: "times_equal (ms ! p) m"
  shows "mark_added ms m (ms[p := m'])"
proof -
  note sel = add_to_type_sel [OF m']
  have in': "m' \<in> set (ms[p := m'])" using p by (simp add: set_update_memI)
  have "times_equal m' m" using eq sel(1) by (simp add: times_equal_def)
  moreover have "\<exists>m1 \<in> set (ms[p := m']). mark_time m1 = mark_time m0 \<and> match_mask m1 (mtype m0)"
    if "m0 \<in> set ms" for m0
  proof -
    from that obtain i where i: "i < length ms" "ms ! i = m0" by (auto simp: in_set_conv_nth)
    show ?thesis
    proof (cases "i = p")
      case True
      then show ?thesis using in' sel(1) i match_mask_mono [OF match_mask_own_type m'] by auto
    next
      case False
      then have "m0 \<in> set (ms[p := m'])" using i by (metis length_list_update nth_list_update_neq nth_mem)
      then show ?thesis by auto
    qed
  qed
  moreover have "\<exists>m0 \<in> set ms. mark_time m1 = mark_time m0" if "m1 \<in> set (ms[p := m'])" for m1
    using that sel(1) p set_update_subset_insert [of ms p m'] by (metis insert_iff nth_mem subsetD)
  ultimately show ?thesis
    unfolding mark_added_def using in' match_mask_added [OF m'] by blast
qed

lemma add_mark_ok:
  assumes ok: "tms_ok tms" and i: "unat (equation_index (mtype m)) < length (marks tms)"
    and t: "mark_time m \<noteq> NaN" "mark_time m \<noteq> MInf"
  obtains m' ms' where
    "add_mark tms m =
       Inr (m', tms\<lparr>marks := (marks tms)[unat (equation_index (mtype m)) := ms']\<rparr>)"
    "marks_ok (equation_index (mtype m)) ms'"
    "mark_added (marks tms ! unat (equation_index (mtype m))) m ms'"
    "m' \<in> set ms'"
proof -
  let ?ei = "equation_index (mtype m)"
  let ?ms = "marks tms ! unat ?ei"
  let ?p = "lower_bound mark_less ?ms m"
  note result = that
  have ms: "marks_ok ?ei ?ms" using tms_ok_marks_ok [OF ok i] .
  have len: "?p < length ?ms" using marks_ok_lower_bound [OF ms] .
  have pos: "0 < ?p"
    using lower_bound_pos [of ?ms mark_less m] ms t marks_ok_nonempty [OF ms]
    by (cases "mark_time m") (auto simp: marks_ok_def mark_less_def)
  have same: "\<And>q. q < length ?ms \<Longrightarrow> equation_index (mtype (?ms ! q)) = ?ei"
    using marks_ok_index [OF ms] by simp
  have merge: thesis
    if q: "q < length ?ms" "times_equal (?ms ! q) m"
      and eq: "add_mark tms m = merge_mark tms (unat ?ei) q m" for q
  proof -
    obtain m' where m': "add_to_type (?ms ! q) (mtype m) = Inr m'"
      using add_to_type_same_index [OF same [OF q(1)]] by blast
    show thesis
      by (rule result [of m' "?ms[q := m']"])
         (simp_all add: eq merge_mark_def m' marks_ok_merge [OF ms q(1) m'] set_update_memI q(1)
            mark_added_merge [OF q(1) m' q(2)])
  qed
  consider "times_equal (?ms ! ?p) m"
    | "\<not> times_equal (?ms ! ?p) m" "times_equal (?ms ! (?p - 1)) m"
    | "\<not> times_equal (?ms ! ?p) m" "\<not> times_equal (?ms ! (?p - 1)) m" by blast
  then show thesis
  proof cases
    case 1
    then show thesis by (intro merge [OF len]) (simp_all add: add_mark_def Let_def i len)
  next
    case 2
    then show thesis
      using len pos by (intro merge [of "?p - 1"]) (simp_all add: add_mark_def Let_def i)
  next
    case 3
    have "marks_ok ?ei (insert_at ?p m ?ms)"
      by (rule marks_ok_insert [OF ms refl t(1) refl pos 3])
    moreover have "add_mark tms m =
        Inr (m, tms\<lparr>marks := (marks tms)[unat ?ei := insert_at ?p m ?ms]\<rparr>)"
      using 3 by (simp add: add_mark_def Let_def i len)
    ultimately show thesis
      using mark_added_insert result by fastforce
  qed
qed

corollary add_mark_keeps_ok:
  assumes "tms_ok tms" "unat (equation_index (mtype m)) < length (marks tms)"
    "mark_time m \<noteq> NaN" "mark_time m \<noteq> MInf"
  shows "\<exists>m' tms'. add_mark tms m = Inr (m', tms') \<and> tms_ok tms' \<and>
    length (marks tms') = length (marks tms)"
proof -
  from add_mark_ok [OF assms] obtain m' ms' where
    "add_mark tms m = Inr (m', tms\<lparr>marks := (marks tms)[unat (equation_index (mtype m)) := ms']\<rparr>)"
    "marks_ok (equation_index (mtype m)) ms'" by metis
  then show ?thesis using tms_ok_update [OF assms(1,2)] by auto
qed

section \<open>Searching marks\<close>

lemma next_from_found:
  assumes "\<exists>m \<in> set xs. step_lt st (mark_time m) \<and> match_mask m msk"
  shows "next_from st msk p xs =
    Inr (p + length (takeWhile (\<lambda>m. \<not> (step_lt st (mark_time m) \<and> match_mask m msk)) xs))"
  using assms
proof (induction xs arbitrary: p)
  case Nil
  then show ?case by simp
next
  case (Cons m xs)
  show ?case
  proof (cases "step_lt st (mark_time m) \<and> match_mask m msk")
    case True
    then show ?thesis by simp
  next
    case False
    with Cons.prems have ex: "\<exists>m \<in> set xs. step_lt st (mark_time m) \<and> match_mask m msk" by auto
    from False Cons.IH [OF ex, of "Suc p"] ex show ?thesis by auto
  qed
qed

lemma not_step_lt_of_less:
  assumes "mark_time m < step_end st"
  shows "\<not> step_lt st (mark_time m)"
proof (cases "mark_time m")
  case (Fin a)
  show ?thesis
  proof (cases "step_end st")
    case Fin': (Fin b)
    then show ?thesis using Fin assms safe_compare_of_le [of a b] by (simp add: step_lt_def)
  qed (use Fin assms in \<open>auto simp: step_lt_def\<close>)
qed (use assms in \<open>cases "step_end st"; auto simp: step_lt_def\<close>)+

lemma mark_less_step: "mark_less m \<lparr>mark_time = t, mtype = ty\<rparr> \<longleftrightarrow> mark_time m < t"
  by (simp add: mark_less_def)

text \<open>
  The search from the lower bound finds the first mark of the whole vector that is later than
  the step and matches: the marks before the lower bound are not later.
\<close>

lemma next_mark_found:
  assumes ok: "tms_ok tms" and i: "unat (equation_index msk) < length (marks tms)"
    and ei: "equation_index eqt = equation_index msk"
  obtains m p where
    "next_mark tms st eqt msk =
       Inr \<lparr>it_marks = marks tms ! unat (equation_index msk), it_pos = p, it_mask = msk\<rparr>"
    "p < length (marks tms ! unat (equation_index msk))"
    "marks tms ! unat (equation_index msk) ! p = m"
    "step_lt st (mark_time m)" "match_mask m msk"
    "\<And>q. q < p \<Longrightarrow> \<not> (step_lt st (mark_time (marks tms ! unat (equation_index msk) ! q)) \<and>
              match_mask (marks tms ! unat (equation_index msk) ! q) msk)"
proof -
  let ?ms = "marks tms ! unat (equation_index msk)"
  let ?P = "\<lambda>m. step_lt st (mark_time m) \<and> match_mask m msk"
  let ?v = "\<lparr>mark_time = step_end st, mtype = msk\<rparr>"
  let ?b = "lower_bound mark_less ?ms ?v"
  let ?k = "length (takeWhile (\<lambda>m. \<not> ?P m) (drop ?b ?ms))"
  have ms: "marks_ok (equation_index msk) ?ms" using tms_ok_marks_ok [OF ok i] .
  have b: "?b < length ?ms" using marks_ok_lower_bound [OF ms] .
  have "last (drop ?b ?ms) = stopper PInf (equation_index msk)"
    using ms b by (simp add: marks_ok_def)
  then have last_in: "stopper PInf (equation_index msk) \<in> set (drop ?b ?ms)"
    using b by (metis drop_eq_Nil last_in_set leD)
  then have ex: "\<exists>m \<in> set (drop ?b ?ms). ?P m" by (auto intro!: bexI)
  then have k: "?k < length (drop ?b ?ms)"
    using length_takeWhile_found [of _ "drop ?b ?ms" "\<lambda>m. \<not> ?P m"] by blast
  have at: "?P (?ms ! (?b + ?k))"
    using nth_length_takeWhile [OF k] k by (simp add: nth_drop)
  have before: "\<not> ?P (?ms ! q)" if "q < ?b + ?k" for q
  proof (cases "q < ?b")
    case True
    then have "mark_time (?ms ! q) < step_end st"
      using lower_bound_before [of q mark_less ?ms ?v] by (simp add: mark_less_step)
    then show ?thesis using not_step_lt_of_less by blast
  next
    case False
    with that have q: "q - ?b < ?k" by simp
    then have "takeWhile (\<lambda>m. \<not> ?P m) (drop ?b ?ms) ! (q - ?b) = ?ms ! q"
      using False k by (simp add: takeWhile_nth nth_drop)
    then show ?thesis using q nth_mem [OF q] by (metis (mono_tags, lifting) set_takeWhileD)
  qed
  have "next_mark tms st eqt msk = Inr \<lparr>it_marks = ?ms, it_pos = ?b + ?k, it_mask = msk\<rparr>"
    using next_from_found [OF ex, of ?b] i ei by (simp add: next_mark_def Let_def)
  moreover have "?b + ?k < length ?ms" using k by simp
  ultimately show thesis using at before that by blast
qed

lemma last_from_le:
  assumes "last_from st msk ms p = Inr q"
  shows "q \<le> p \<and> q < length ms \<and> step_ge st (mark_time (ms ! q)) \<and> match_mask (ms ! q) msk \<and>
    (\<forall>r. q < r \<longrightarrow> r \<le> p \<longrightarrow> \<not> (step_ge st (mark_time (ms ! r)) \<and> match_mask (ms ! r) msk))"
  using assms
proof (induction p)
  case 0
  then show ?case by (subst (asm) last_from.simps) (auto simp: res_simps vec_at_eq_Inr split: if_splits)
next
  case (Suc p)
  show ?case
  proof (cases "step_ge st (mark_time (ms ! Suc p)) \<and> match_mask (ms ! Suc p) msk")
    case True
    then show ?thesis using Suc.prems
      by (subst (asm) last_from.simps) (auto simp: res_simps vec_at_eq_Inr split: if_splits)
  next
    case False
    then have "last_from st msk ms p = Inr q" using Suc.prems
      by (subst (asm) (1) last_from.simps) (auto simp: res_simps vec_at_eq_Inr split: if_splits)
    from Suc.IH [OF this] False show ?thesis by (auto simp: le_Suc_eq)
  qed
qed

lemma last_from_total:
  assumes "p < length ms" "q \<le> p" "step_ge st (mark_time (ms ! q))" "match_mask (ms ! q) msk"
  shows "\<exists>r. last_from st msk ms p = Inr r"
  using assms
proof (induction p)
  case 0
  then show ?case by (subst last_from.simps) auto
next
  case (Suc p)
  show ?case
  proof (cases "q = Suc p")
    case True
    then show ?thesis using Suc.prems by (subst last_from.simps) auto
  next
    case False
    then have "\<exists>r. last_from st msk ms p = Inr r" using Suc by simp
    then show ?thesis using Suc.prems(1) by (subst last_from.simps) auto
  qed
qed

lemma last_mark_found:
  assumes ok: "tms_ok tms" and i: "unat (equation_index msk) < length (marks tms)"
    and t: "is_fin (step_end st)"
  obtains m p where
    "last_mark tms st msk =
       Inr \<lparr>it_marks = marks tms ! unat (equation_index msk), it_pos = p, it_mask = msk\<rparr>"
    "p < length (marks tms ! unat (equation_index msk))"
    "marks tms ! unat (equation_index msk) ! p = m"
    "step_ge st (mark_time m)" "match_mask m msk"
    "\<And>m'. m' \<in> set (marks tms ! unat (equation_index msk)) \<Longrightarrow> match_mask m' msk \<Longrightarrow>
       step_ge st (mark_time m') \<Longrightarrow>
       mark_time m' < step_end st + Fin (1/100) * step_length st \<Longrightarrow> mark_time m' \<le> mark_time m"
proof -
  let ?ms = "marks tms ! unat (equation_index msk)"
  let ?t = "step_end st + Fin (1/100) * step_length st"
  let ?v = "\<lparr>mark_time = ?t, mtype = msk\<rparr>"
  let ?b = "lower_bound mark_less ?ms ?v"
  have ms: "marks_ok (equation_index msk) ?ms" using tms_ok_marks_ok [OF ok i] .
  have b: "?b < length ?ms" using marks_ok_lower_bound [OF ms] .
  have "step_ge st (mark_time (?ms ! 0))" "match_mask (?ms ! 0) msk"
    using marks_ok_first [OF ms] t by simp_all
  then obtain p where p: "last_from st msk ?ms ?b = Inr p"
    using last_from_total [OF b le0] by blast
  note spec = last_from_le [OF p]
  have latest: "mark_time m' \<le> mark_time (?ms ! p)"
    if m': "m' \<in> set ?ms" "match_mask m' msk" "step_ge st (mark_time m')" "mark_time m' < ?t" for m'
  proof -
    from m'(1) obtain r where r: "r < length ?ms" "?ms ! r = m'" by (auto simp: in_set_conv_nth)
    have "r < ?b"
    proof (rule ccontr)
      assume "\<not> r < ?b"
      then have "?b \<le> r" by simp
      then have "mark_time (?ms ! ?b) \<le> mark_time (?ms ! r)"
        using marks_ok_nth [OF ms, of ?b r] r b marks_ok_not_NaN [OF ms, of m']
        by (cases "?b = r") (auto simp: mark_before_def le_double_refl)
      moreover have "\<not> mark_time (?ms ! ?b) < ?t"
        using lower_bound_at [OF b] by (simp add: mark_less_step)
      ultimately show False using m'(4) r le_less_double_trans by blast
    qed
    then have "r \<le> p" using spec m' r by (metis leI less_imp_le_nat)
    then show ?thesis
      using marks_ok_nth [OF ms, of r p] spec r marks_ok_not_NaN [OF ms, of m'] m'(1)
      by (cases "r = p") (auto simp: mark_before_def le_double_refl)
  qed
  have "last_mark tms st msk = Inr \<lparr>it_marks = ?ms, it_pos = p, it_mask = msk\<rparr>"
    using p i by (simp add: last_mark_def Let_def)
  with spec latest show thesis using that by blast
qed

section \<open>Properties of the database\<close>

text \<open>
  C21. Adding a mark to a well-formed database returns; the database stays well-formed (sorted,
  closed by the stoppers, finite marks at least the precision apart); in the vector of the
  equation there is now a mark at that time (up to the precision) with all the bits of the new
  mark, no time and no bit of an older mark is lost, no other time appears, and the vectors of
  the other equations are untouched.
\<close>

theorem add_mark_correct:
  assumes "tms_ok tms" and "unat (equation_index (mtype m)) < length (marks tms)"
    and "mark_time m \<noteq> NaN" and "mark_time m \<noteq> MInf"
  shows "\<exists>m' tms'. add_mark tms m = Inr (m', tms') \<and> tms_ok tms' \<and>
    mark_added (marks tms ! unat (equation_index (mtype m))) m
      (marks tms' ! unat (equation_index (mtype m))) \<and>
    length (marks tms') = length (marks tms) \<and>
    (\<forall>j. j \<noteq> unat (equation_index (mtype m)) \<longrightarrow> marks tms' ! j = marks tms ! j)"
proof -
  from add_mark_ok [OF assms] obtain m' ms' where
    "add_mark tms m = Inr (m', tms\<lparr>marks := (marks tms)[unat (equation_index (mtype m)) := ms']\<rparr>)"
    "marks_ok (equation_index (mtype m)) ms'"
    "mark_added (marks tms ! unat (equation_index (mtype m))) m ms'" by metis
  then show ?thesis using tms_ok_update [OF assms(1,2)] assms(2) by auto
qed

theorem add_mark_correct_witness:
  "\<exists>m' tms'. add_mark reinit \<lparr>mark_time = Fin 5, mtype = type_output reinit\<rparr> = Inr (m', tms') \<and>
     tms_ok tms'"
  using add_mark_correct [OF reinit_ok, of "\<lparr>mark_time = Fin 5, mtype = type_output reinit\<rparr>"]
  by (auto simp: reinit_def)

text \<open>
  C32. The search for the next mark of a type returns the earliest mark of the equation that is
  later than the current time (with the rounding tolerance) and has all the bits of the type;
  it never runs off the vector, whatever the current time is.
\<close>

theorem next_mark_correct:
  assumes "tms_ok tms" and "unat (equation_index msk) < length (marks tms)"
    and "equation_index eqt = equation_index msk"
  shows "\<exists>it m. next_mark tms st eqt msk = Inr it \<and> deref it = Inr m \<and>
    step_lt st (mark_time m) \<and> match_mask m msk \<and>
    (\<forall>m' \<in> set (marks tms ! unat (equation_index msk)).
       step_lt st (mark_time m') \<and> match_mask m' msk \<longrightarrow> mark_time m \<le> mark_time m')"
proof -
  let ?ms = "marks tms ! unat (equation_index msk)"
  have ok: "marks_ok (equation_index msk) ?ms" using tms_ok_marks_ok [OF assms(1,2)] .
  obtain m p where next_mark: "next_mark tms st eqt msk = Inr \<lparr>it_marks = ?ms, it_pos = p, it_mask = msk\<rparr>"
    and p: "p < length ?ms" "?ms ! p = m" and m: "step_lt st (mark_time m)" "match_mask m msk"
    and before: "\<And>q. q < p \<Longrightarrow> \<not> (step_lt st (mark_time (?ms ! q)) \<and> match_mask (?ms ! q) msk)"
    using next_mark_found [OF assms] by blast
  have "mark_time m \<le> mark_time m'"
    if m': "m' \<in> set ?ms" "step_lt st (mark_time m')" "match_mask m' msk" for m'
  proof -
    from m'(1) obtain q where q: "q < length ?ms" "?ms ! q = m'" by (auto simp: in_set_conv_nth)
    with before m' have "p \<le> q" by (meson not_le)
    then show ?thesis
      using marks_ok_nth [OF ok, of p q] p q marks_ok_not_NaN [OF ok m'(1)]
      by (cases "p = q") (auto simp: mark_before_def le_double_refl)
  qed
  with next_mark p m show ?thesis by (auto simp: deref_def)
qed

theorem next_mark_correct_witness:
  "\<exists>it m. next_mark reinit (zero_step (Fin 0) default_unit_conversion) every_type every_type = Inr it \<and>
     deref it = Inr m \<and> step_lt (zero_step (Fin 0) default_unit_conversion) (mark_time m)"
  using next_mark_correct [OF reinit_ok, of every_type every_type
      "zero_step (Fin 0) default_unit_conversion"]
  by (auto simp: reinit_def every_type_def)

text \<open>
  The search for the last mark of a type at a finite time with a positive step returns: the
  mark it returns has all bits of the type and is not later than the current time (with the
  rounding tolerance), and no matching mark with a time up to the current time is later.
\<close>

theorem last_mark_correct:
  assumes "tms_ok tms" and "unat (equation_index msk) < length (marks tms)"
    and "is_fin (step_end st)" and "0 < step_length st"
  shows "\<exists>it m. last_mark tms st msk = Inr it \<and> deref it = Inr m \<and>
    step_ge st (mark_time m) \<and> match_mask m msk \<and>
    (\<forall>m' \<in> set (marks tms ! unat (equation_index msk)).
       match_mask m' msk \<and> mark_time m' \<le> step_end st \<longrightarrow> mark_time m' \<le> mark_time m)"
proof -
  let ?ms = "marks tms ! unat (equation_index msk)"
  obtain m p where r: "last_mark tms st msk = Inr \<lparr>it_marks = ?ms, it_pos = p, it_mask = msk\<rparr>"
    and p: "p < length ?ms" "?ms ! p = m" and m: "step_ge st (mark_time m)" "match_mask m msk"
    and latest: "\<And>m'. m' \<in> set ?ms \<Longrightarrow> match_mask m' msk \<Longrightarrow> step_ge st (mark_time m') \<Longrightarrow>
      mark_time m' < step_end st + Fin (1/100) * step_length st \<Longrightarrow> mark_time m' \<le> mark_time m"
    using last_mark_found [OF assms(1-3)] by blast
  from assms(3) obtain e where e: "step_end st = Fin e" by (auto simp: is_fin_iff)
  have in_reach: "step_ge st x \<and> x < step_end st + Fin (1/100) * step_length st"
    if "x \<le> step_end st" for x
    using that assms(4) e safe_compare_of_le [of _ e]
    by (cases x; cases "step_length st") (auto simp: step_ge_def zero_double_def)
  show ?thesis
    using r p m latest in_reach by (auto simp: deref_def)
qed

theorem last_mark_correct_witness:
  "\<exists>it m. last_mark reinit (zero_step (Fin 0) default_unit_conversion) every_type = Inr it \<and>
     deref it = Inr m \<and> match_mask m every_type"
  using last_mark_correct [OF reinit_ok, of every_type "zero_step (Fin 0) default_unit_conversion"]
  by (auto simp: reinit_def every_type_def zero_step_def zero_double_def)

text \<open>Allocation of \<open>n\<close> mark types in a row.\<close>

fun alloc_types :: "nat \<Rightarrow> time_marks \<Rightarrow> (tm_error, mark_type list \<times> time_marks) res" where
  "alloc_types 0 tms = Inr ([], tms)"
| "alloc_types (Suc n) tms =
     bind_res (alloc_types n tms) (\<lambda>(ts, tms1).
       bind_res (new_mark_type tms1) (\<lambda>(ty, tms2). Inr (ts @ [ty], tms2)))"

lemma alloc_types_reinit:
  assumes "n \<le> 255"
  shows "\<exists>tms. alloc_types n reinit =
      Inr (map (\<lambda>i. \<lparr>bitmap = 0, equation_index = word_of_nat (Suc i)\<rparr>) [0..<n], tms) \<and>
    tms_ok tms \<and> length (marks tms) = Suc n \<and>
    next_mark_type tms = \<lparr>bitmap = 0, equation_index = word_of_nat (Suc n)\<rparr>"
  using assms
proof (induction n)
  case 0
  show ?case using reinit_ok by (simp add: reinit_def)
next
  case (Suc n)
  then obtain tms where tms: "alloc_types n reinit =
      Inr (map (\<lambda>i. \<lparr>bitmap = 0, equation_index = word_of_nat (Suc i)\<rparr>) [0..<n], tms)"
    "tms_ok tms" "length (marks tms) = Suc n"
    "next_mark_type tms = \<lparr>bitmap = 0, equation_index = word_of_nat (Suc n)\<rparr>" by auto
  have "(word_of_nat (Suc n) :: u8) \<noteq> 0"
    using Suc.prems word_of_nat_eq_0_iff [of "Suc n", where 'a = 8] dvd_imp_le [of 256 "Suc n"]
    by fastforce
  then obtain tms' where t: "new_mark_type tms = Inr (next_mark_type tms, tms')" "tms_ok tms'"
    "length (marks tms') = Suc (length (marks tms))"
    using new_mark_type_ok [OF tms(2)] tms(4) by (metis mark_type.select_convs(2))
  have "next_mark_type tms' = (next_mark_type tms)\<lparr>equation_index :=
      equation_index (next_mark_type tms) + 1\<rparr>"
    using t(1) by (auto simp: new_mark_type_def Let_def split: if_splits)
  then show ?case using tms t by (auto simp: add.commute)
qed

text \<open>
  From a fresh database exactly 255 mark types can be allocated: they carry the pairwise
  different equation indices 1 to 255, each comes with a vector of its own, and the next
  request is refused. The last of them is \<open>none_type\<close>, the value that stands for "no type
  given" in the constructors of the time governor.
\<close>

theorem mark_type_allocation:
  "\<exists>ts tms. alloc_types 255 reinit = Inr (ts, tms) \<and> tms_ok tms \<and> length (marks tms) = 256 \<and>
     map (unat \<circ> equation_index) ts = [1..<256] \<and> last ts = none_type \<and>
     new_mark_type tms = Inl AssertMarkTypeLimit"
proof -
  obtain tms where tms: "alloc_types 255 reinit =
      Inr (map (\<lambda>i. \<lparr>bitmap = 0, equation_index = word_of_nat (Suc i)\<rparr>) [0..<255], tms)"
    "tms_ok tms" "length (marks tms) = Suc 255"
    "next_mark_type tms = \<lparr>bitmap = 0, equation_index = word_of_nat (Suc 255)\<rparr>"
    using alloc_types_reinit [of 255] by auto
  let ?ts = "map (\<lambda>i. \<lparr>bitmap = 0, equation_index = word_of_nat (Suc i) :: u8\<rparr>) [0..<255]"
  have "unat (word_of_nat (Suc i) :: u8) = Suc i" if "i < 255" for i
    using that by (simp only: unat_of_nat) simp
  then have "map (unat \<circ> equation_index) ?ts = map Suc [0..<255]"
    unfolding map_map by (intro map_cong) (auto simp del: of_nat_Suc)
  also have "\<dots> = [1..<256]"
    using map_Suc_upt [of 0 255] by simp
  finally have idx: "map (unat \<circ> equation_index) ?ts = [1..<256]" .
  have last: "last ?ts = none_type"
    by (simp add: last_map none_type_def)
  have "word_of_nat (Suc 255) = (0 :: u8)" by simp
  then have "new_mark_type tms = Inl AssertMarkTypeLimit"
    using tms(4) by (simp add: new_mark_type_def Let_def)
  with tms idx last show ?thesis by auto
qed

lemma incr_from_found:
  assumes "\<exists>m \<in> set xs. match_mask m msk"
  shows "incr_from msk p xs = Inr (Suc p + length (takeWhile (\<lambda>m. \<not> match_mask m msk) xs))"
  using assms
proof (induction xs arbitrary: p)
  case (Cons m xs)
  then show ?case using Cons.IH [of "Suc p"] by (cases "match_mask m msk") auto
qed simp

text \<open>
  Incrementing an iterator that stands before the closing mark moves it to the nearest
  later mark that has the bits of its mask, whatever marks lie between; on the closing mark
  itself the increment reads past the end of the vector.
\<close>

theorem it_incr_correct:
  assumes ok: "marks_ok ei (it_marks it)"
    and ei: "equation_index (it_mask it) = ei \<or> equation_index (it_mask it) = 0"
  shows "(Suc (it_pos it) < length (it_marks it) \<longrightarrow>
      (\<exists>q. it_incr it = Inr (it\<lparr>it_pos := q\<rparr>) \<and> it_pos it < q \<and> q < length (it_marks it) \<and>
         match_mask (it_marks it ! q) (it_mask it) \<and>
         (\<forall>r. it_pos it < r \<longrightarrow> r < q \<longrightarrow> \<not> match_mask (it_marks it ! r) (it_mask it)))) \<and>
    (Suc (it_pos it) = length (it_marks it) \<longrightarrow> it_incr it = Inl OutOfMarks)"
proof (intro conjI impI)
  let ?ms = "it_marks it" and ?p = "it_pos it" and ?msk = "it_mask it"
  let ?tw = "takeWhile (\<lambda>m. \<not> match_mask m ?msk) (drop (Suc ?p) ?ms)"
  assume p: "Suc ?p < length ?ms"
  have "last (drop (Suc ?p) ?ms) = stopper PInf ei" using ok p by (simp add: marks_ok_def)
  then have "stopper PInf ei \<in> set (drop (Suc ?p) ?ms)"
    using p by (metis drop_eq_Nil last_in_set leD)
  moreover have "match_mask (stopper PInf ei) ?msk" using ei by auto
  ultimately have ex: "\<exists>m \<in> set (drop (Suc ?p) ?ms). match_mask m ?msk" by blast
  then have k: "length ?tw < length (drop (Suc ?p) ?ms)"
    using length_takeWhile_found [of _ "drop (Suc ?p) ?ms" "\<lambda>m. \<not> match_mask m ?msk"] by blast
  have "it_incr it = Inr (it\<lparr>it_pos := Suc ?p + length ?tw\<rparr>)"
    using incr_from_found [OF ex, of ?p] p by (simp add: it_incr_def)
  moreover have "match_mask (?ms ! (Suc ?p + length ?tw)) ?msk"
    using nth_length_takeWhile [OF k] k by (simp add: nth_drop)
  moreover have "\<not> match_mask (?ms ! r) ?msk" if r: "?p < r" "r < Suc ?p + length ?tw" for r
  proof -
    have i: "r - Suc ?p < length ?tw" using r by simp
    then have "?tw ! (r - Suc ?p) = ?ms ! r" using r k by (simp add: takeWhile_nth nth_drop)
    then show ?thesis using nth_mem [OF i] by (metis (mono_tags, lifting) set_takeWhileD)
  qed
  ultimately show "\<exists>q. it_incr it = Inr (it\<lparr>it_pos := q\<rparr>) \<and> ?p < q \<and> q < length ?ms \<and>
      match_mask (?ms ! q) ?msk \<and> (\<forall>r. ?p < r \<longrightarrow> r < q \<longrightarrow> \<not> match_mask (?ms ! r) ?msk)"
    using k by (intro exI [of _ "Suc ?p + length ?tw"]) auto
next
  assume "Suc (it_pos it) = length (it_marks it)"
  then show "it_incr it = Inl OutOfMarks" by (simp add: it_incr_def)
qed

theorem it_incr_correct_witness:
  "it_incr \<lparr>it_marks = marks reinit ! 0, it_pos = 1, it_mask = every_type\<rparr> = Inl OutOfMarks"
  using it_incr_correct [of 0 "\<lparr>it_marks = marks reinit ! 0, it_pos = 1, it_mask = every_type\<rparr>"]
    tms_ok_marks_ok [OF reinit_ok, of 0]
  by (auto simp: reinit_def every_type_def)

text \<open>The times of a grid of marks.\<close>

definition grid_mark :: "real \<Rightarrow> real \<Rightarrow> mark_type \<Rightarrow> nat \<Rightarrow> time_mark" where
  "grid_mark a d ty i = \<lparr>mark_time = Fin (a + real i * d), mtype = ty\<rparr>"

definition has_mark :: "time_mark list \<Rightarrow> time_mark \<Rightarrow> bool" where
  "has_mark ms m \<longleftrightarrow>
     (\<exists>m' \<in> set ms. \<bar>mark_time m' - mark_time m\<bar> < time_step_precision \<and> match_mask m' (mtype m))"

lemma match_mask_trans:
  assumes "match_mask m' (mtype m)" and "match_mask m ty" and "equation_index (mtype m') = equation_index (mtype m)"
  shows "match_mask m' ty"
proof -
  have "bitmap ty AND NOT (bitmap (mtype m')) = 0"
  proof (rule bit_eqI)
    fix n
    have "\<not> bit (bitmap (mtype m) AND NOT (bitmap (mtype m'))) n"
      "\<not> bit (bitmap ty AND NOT (bitmap (mtype m))) n"
      using assms(1,2) by (simp_all add: match_mask_def)
    then show "bit (bitmap ty AND NOT (bitmap (mtype m'))) n = bit 0 n"
      by (auto simp: bit_simps dest: bit_imp_le_length)
  qed
  then show ?thesis using assms(2,3) by (auto simp: match_mask_def)
qed

lemma mark_added_has_mark:
  assumes "mark_added ms m ms'" and "is_fin (mark_time m)"
  shows "has_mark ms' m"
proof -
  from assms(2) obtain t where "mark_time m = Fin t" by (auto simp: is_fin_iff)
  then have "times_equal m m" by (simp add: times_equal_def time_step_precision_def)
  then show ?thesis
    using assms(1) unfolding mark_added_def has_mark_def times_equal_def by blast
qed

lemma mark_added_keeps_mark:
  assumes "marks_ok ei ms" "marks_ok ei ms'" "mark_added ms m ms'" and "has_mark ms m0"
  shows "has_mark ms' m0"
proof -
  from assms(4) obtain m1 where m1: "m1 \<in> set ms"
    "\<bar>mark_time m1 - mark_time m0\<bar> < time_step_precision" "match_mask m1 (mtype m0)"
    by (auto simp: has_mark_def)
  from assms(3) m1(1) obtain m2 where m2: "m2 \<in> set ms'" "mark_time m2 = mark_time m1"
    "match_mask m2 (mtype m1)" unfolding mark_added_def by blast
  have "match_mask m2 (mtype m0)"
    using match_mask_trans [OF m2(3) m1(3)] marks_ok_index assms(1,2) m1(1) m2(1) by metis
  with m1(2) m2(1,2) show ?thesis unfolding has_mark_def by metis
qed

lemma add_grid_mark:
  assumes ok: "tms_ok tms" and k: "unat (equation_index ty) < length (marks tms)"
  obtains tms' where
    "bind_res (add_mark tms (grid_mark a d ty i)) (\<lambda>r. Inr (snd r)) = Inr tms'" "tms_ok tms'"
    "length (marks tms') = length (marks tms)"
    "has_mark (marks tms' ! unat (equation_index ty)) (grid_mark a d ty i)"
    "\<And>m0. has_mark (marks tms ! unat (equation_index ty)) m0 \<Longrightarrow>
       has_mark (marks tms' ! unat (equation_index ty)) m0"
proof -
  let ?m = "grid_mark a d ty i" and ?i = "unat (equation_index ty)"
  have ty: "mtype ?m = ty" and t: "mark_time ?m = Fin (a + real i * d)" by (simp_all add: grid_mark_def)
  obtain m' ms' where add: "add_mark tms ?m = Inr (m', tms\<lparr>marks := (marks tms)[?i := ms']\<rparr>)"
    and ms': "marks_ok (equation_index ty) ms'" "mark_added (marks tms ! ?i) ?m ms'"
    using add_mark_ok [OF ok, of ?m] k t unfolding ty by (metis double.distinct(5,9))
  let ?tms' = "tms\<lparr>marks := (marks tms)[?i := ms']\<rparr>"
  have "has_mark ms' ?m" using mark_added_has_mark [OF ms'(2)] t by simp
  moreover have "has_mark (marks tms ! ?i) m0 \<Longrightarrow> has_mark ms' m0" for m0
    by (rule mark_added_keeps_mark [OF tms_ok_marks_ok [OF ok k] ms'])
  moreover have "tms_ok ?tms'" by (rule tms_ok_update [OF ok k ms'(1)])
  ultimately show thesis using that [of ?tms'] add k by simp
qed

lemma add_grid:
  assumes ok: "tms_ok tms" and k: "unat (equation_index ty) < length (marks tms)"
  shows "\<exists>tms'. fold_res (\<lambda>s i. bind_res (add_mark s (grid_mark a d ty i)) (\<lambda>r. Inr (snd r)))
      tms [0..<n] = Inr tms' \<and> tms_ok tms' \<and> length (marks tms') = length (marks tms) \<and>
    (\<forall>i < n. has_mark (marks tms' ! unat (equation_index ty)) (grid_mark a d ty i))"
proof (induction n)
  case 0
  then show ?case using ok by simp
next
  case (Suc n)
  then obtain t1 where t1: "fold_res
      (\<lambda>s i. bind_res (add_mark s (grid_mark a d ty i)) (\<lambda>r. Inr (snd r))) tms [0..<n] = Inr t1"
    "tms_ok t1" "length (marks t1) = length (marks tms)"
    "\<forall>i < n. has_mark (marks t1 ! unat (equation_index ty)) (grid_mark a d ty i)" by auto
  have "unat (equation_index ty) < length (marks t1)" using k t1(3) by simp
  then obtain t2 where t2: "bind_res (add_mark t1 (grid_mark a d ty n)) (\<lambda>r. Inr (snd r)) = Inr t2"
    "tms_ok t2" "length (marks t2) = length (marks t1)"
    "has_mark (marks t2 ! unat (equation_index ty)) (grid_mark a d ty n)"
    "\<And>m0. has_mark (marks t1 ! unat (equation_index ty)) m0 \<Longrightarrow>
       has_mark (marks t2 ! unat (equation_index ty)) m0"
    using add_grid_mark [OF t1(2)] by blast
  then show ?case using t1 by (auto simp: fold_res_append less_Suc_eq)
qed

text \<open>
  A grid of marks from \<open>a\<close> to \<open>e\<close> with step \<open>d\<close>, whose number of steps \<open>n\<close> fits an
  \<open>unsigned int\<close> and is not its largest value, is added completely: each of the times
  \<open>a + i * d\<close> has a mark with the bits of the given type.
\<close>

theorem add_time_marks_correct:
  assumes "tms_ok tms" and "unat (equation_index ty) < length (marks tms)"
    and "0 < d" and "a \<le> e" and "n = nat \<lfloor>(e - a) / d + 16 * epsilon\<rfloor>" and "n < 4294967295"
  shows "\<exists>tms'. add_time_marks tms (Fin a) (Fin d) (Fin e) ty = Inr tms' \<and> tms_ok tms' \<and>
    (\<forall>i \<le> n. has_mark (marks tms' ! unat (equation_index ty)) (grid_mark a d ty i))"
proof -
  let ?x = "(e - a) / d + 16 * epsilon"
  have x: "0 \<le> ?x" using assms(3,4) by simp
  then have n: "real n \<le> ?x" "?x < real n + 1" using assms(5) by linarith+
  have "?x < 4294967296" using n(2) assms(6) by linarith
  moreover have "\<lfloor>?x\<rfloor> = int n" using assms(5) x by simp
  ultimately have conv: "double_to_u32 ((Fin e - Fin a) / Fin d + time_step_precision) = Some (word_of_nat n)"
    using assms(3) x by (simp add: time_step_precision_def)
  have un: "unat (word_of_nat n :: u32) = n" using assms(6) by (simp add: unat_of_nat)
  have "unat (- 1 :: u32) = 4294967295"
    by (simp add: unsigned_minus_1_eq_mask mask_eq_exp_minus_1)
  with un assms(6) have "word_of_nat n \<noteq> (- 1 :: u32)" by auto
  moreover have "\<And>i. \<lparr>mark_time = Fin a + Fin (real i) * Fin d, mtype = ty\<rparr> = grid_mark a d ty i"
    by (simp add: grid_mark_def)
  ultimately have "add_time_marks tms (Fin a) (Fin d) (Fin e) ty =
      fold_res (\<lambda>s i. bind_res (add_mark s (grid_mark a d ty i)) (\<lambda>r. Inr (snd r))) tms [0..<Suc n]"
    using conv un by (simp add: add_time_marks_def del: upt_Suc)
  then show ?thesis
    using add_grid [OF assms(1,2), of a d "Suc n"] by (auto simp: less_Suc_eq_le simp del: upt_Suc)
qed

theorem add_time_marks_correct_witness:
  "\<exists>tms'. add_time_marks reinit (Fin 0) (Fin 1) (Fin 2) (type_output reinit) = Inr tms' \<and>
     has_mark (marks tms' ! 0) (grid_mark 0 1 (type_output reinit) 2)"
proof -
  have "\<lfloor>2 + 16 * epsilon\<rfloor> = 2" using epsilon_small by (simp add: floor_eq_iff)
  then have n: "2 = nat \<lfloor>(2 - 0) / 1 + 16 * epsilon\<rfloor>" by simp
  show ?thesis
    using add_time_marks_correct [OF reinit_ok, of "type_output reinit" 1 0 2 2] n
    by (auto simp: reinit_def)
qed

lemma add_to_type_all_fold:
  assumes "\<forall>m \<in> set ms. equation_index (mtype m) = equation_index add_type \<or> equation_index add_type = 0"
  shows "fold_res (\<lambda>acc m. if match_mask m f
             then bind_res (add_to_type m add_type) (\<lambda>m'. Inr (acc @ [m'])) else Inr (acc @ [m])) acc ms =
    Inr (acc @ map (\<lambda>m. if match_mask m f
      then m\<lparr>mtype := (mtype m)\<lparr>bitmap := bitmap (mtype m) OR bitmap add_type\<rparr>\<rparr> else m) ms)"
  using assms by (induction ms arbitrary: acc) (auto simp: add_to_type_def)

text \<open>
  \<open>add_to_type_all\<close> adds the given bits to exactly the marks of the equation that match
  the filter, keeps their times and order, and keeps the database well-formed.
\<close>

theorem add_to_type_all_correct:
  assumes ok: "tms_ok tms" and i: "unat (equation_index f) < length (marks tms)"
    and f: "equation_index f \<noteq> 0"
    and a: "equation_index add_type = equation_index f \<or> equation_index add_type = 0"
  shows "\<exists>tms'. add_to_type_all tms f add_type = Inr tms' \<and> tms_ok tms' \<and>
    marks tms' ! unat (equation_index f) =
      map (\<lambda>m. if match_mask m f
        then m\<lparr>mtype := (mtype m)\<lparr>bitmap := bitmap (mtype m) OR bitmap add_type\<rparr>\<rparr> else m)
        (marks tms ! unat (equation_index f))"
proof -
  let ?i = "unat (equation_index f)"
  let ?ms = "marks tms ! ?i"
  define g where "g = (\<lambda>m. if match_mask m f
    then m\<lparr>mtype := (mtype m)\<lparr>bitmap := bitmap (mtype m) OR bitmap add_type\<rparr>\<rparr> else m)"
  have ms: "marks_ok (equation_index f) ?ms" using tms_ok_marks_ok [OF ok i] .
  have "\<forall>m \<in> set ?ms. equation_index (mtype m) = equation_index add_type \<or> equation_index add_type = 0"
    using marks_ok_index [OF ms] a by auto
  note fold = add_to_type_all_fold [OF this, of f "[]", folded g_def]
  have g: "mark_time (g m) = mark_time m" "equation_index (mtype (g m)) = equation_index (mtype m)"
    "g (stopper t ei) = stopper t ei" for m t ei
    by (simp_all add: g_def stopper_def)
  have "mark_before (g x) (g y) = mark_before x y" for x y
    by (simp only: mark_before_def g)
  then have "sorted_wrt mark_before (map g ?ms)"
    using ms by (simp only: sorted_wrt_map marks_ok_def)
  then have "marks_ok (equation_index f) (map g ?ms)"
    using ms g marks_ok_nonempty [OF ms]
    by (simp add: marks_ok_def list_all_iff hd_map last_map)
  moreover have "add_to_type_all tms f add_type =
      Inr (tms\<lparr>marks := (marks tms)[?i := map g ?ms]\<rparr>)"
    using f a i fold by (auto simp: add_to_type_all_def Let_def)
  ultimately show ?thesis
    using tms_ok_update [OF ok i] i unfolding g_def [symmetric] by simp
qed

theorem add_to_type_all_correct_witness:
  "\<exists>ty tms tms'. new_mark_type reinit = Inr (ty, tms) \<and>
     add_to_type_all tms ty (type_input tms) = Inr tms' \<and> tms_ok tms'"
proof -
  obtain tms where t: "new_mark_type reinit = Inr (next_mark_type reinit, tms)" "tms_ok tms"
    "length (marks tms) = Suc (length (marks reinit))"
    using new_mark_type_ok [OF reinit_ok] by (auto simp: reinit_def)
  then show ?thesis
    using add_to_type_all_correct [OF t(2), of "next_mark_type reinit" "type_input tms"]
    by (auto simp: tms_ok_def reinit_def)
qed

end
