(* ===== verification/Units.thy ===== *)
theory Units
  imports Ideal_Double "HOL-Library.List_Lexorder" "HOL-Library.Char_ord"
begin

text \<open>
  Physical units: \<open>UnitSI\<close> of \<open>src/src/tools/unit_si.hh\<close> and \<open>unit_si.cc\<close>, the table of
  known units \<open>BasicFactors\<close> and the conversion of user defined units \<open>UnitConverter\<close> of
  \<open>unit_converter.cc\<close>, and the semantic actions of the unit grammar of
  \<open>unit_converter_template.hh\<close>. The grammar itself is executed by a third-party parser
  generator: the list of semantic actions it performs on a string is the parameter \<open>parse\<close>.
\<close>

section \<open>SI units\<close>

record unit_si =
  exponents :: "int list"
  undef :: bool

definition n_base_units :: nat where "n_base_units = 8"
definition order_m :: nat where "order_m = 0"
definition order_md :: nat where "order_md = 1"
definition order_kg :: nat where "order_kg = 2"
definition order_s :: nat where "order_s = 3"
definition order_A :: nat where "order_A = 4"
definition order_K :: nat where "order_K = 5"
definition order_mol :: nat where "order_mol = 6"
definition order_cd :: nat where "order_cd = 7"

lemmas unit_orders = n_base_units_def order_m_def order_md_def order_kg_def order_s_def
  order_A_def order_K_def order_mol_def order_cd_def

definition new_unit :: unit_si where
  "new_unit = \<lparr>exponents = replicate n_base_units 0, undef = True\<rparr>"

definition set_exp :: "nat \<Rightarrow> int \<Rightarrow> unit_si \<Rightarrow> unit_si" where
  "set_exp i e u = u\<lparr>exponents := (exponents u)[i := e], undef := False\<rparr>"

definition si_m :: "int \<Rightarrow> unit_si \<Rightarrow> unit_si" where "si_m = set_exp order_m"
definition si_kg :: "int \<Rightarrow> unit_si \<Rightarrow> unit_si" where "si_kg = set_exp order_kg"
definition si_s :: "int \<Rightarrow> unit_si \<Rightarrow> unit_si" where "si_s = set_exp order_s"
definition si_A :: "int \<Rightarrow> unit_si \<Rightarrow> unit_si" where "si_A = set_exp order_A"
definition si_K :: "int \<Rightarrow> unit_si \<Rightarrow> unit_si" where "si_K = set_exp order_K"
definition si_mol :: "int \<Rightarrow> unit_si \<Rightarrow> unit_si" where "si_mol = set_exp order_mol"
definition si_cd :: "int \<Rightarrow> unit_si \<Rightarrow> unit_si" where "si_cd = set_exp order_cd"
definition si_md :: "int \<Rightarrow> unit_si \<Rightarrow> unit_si" where "si_md = set_exp order_md"

lemmas si_setters = si_m_def si_kg_def si_s_def si_A_def si_K_def si_mol_def si_cd_def si_md_def
  set_exp_def

definition unit_N :: unit_si where "unit_N = si_s (-2) (si_kg 1 (si_m 1 new_unit))"
definition unit_J :: unit_si where "unit_J = si_s (-2) (si_kg 1 (si_m 2 new_unit))"
definition unit_W :: unit_si where "unit_W = si_s (-3) (si_kg 1 (si_m 2 new_unit))"
definition unit_Pa :: unit_si where "unit_Pa = si_s (-2) (si_kg 1 (si_m (-1) new_unit))"
definition dimensionless :: unit_si where "dimensionless = si_m 0 new_unit"

definition is_def :: "unit_si \<Rightarrow> bool" where
  "is_def u = (\<not> undef u)"

definition set_undef :: "bool \<Rightarrow> unit_si \<Rightarrow> unit_si" where
  "set_undef v u = u\<lparr>undef := v\<rparr>"

definition multiply :: "unit_si \<Rightarrow> unit_si \<Rightarrow> int \<Rightarrow> unit_si" where
  "multiply u other e =
     u\<lparr>exponents := map (\<lambda>i. exponents u ! i + e * exponents other ! i) [0..<n_base_units],
       undef := False\<rparr>"

definition reset_unit :: "unit_si \<Rightarrow> unit_si" where
  "reset_unit u = u\<lparr>exponents := replicate (length (exponents u)) 0, undef := True\<rparr>"

definition unit_eq :: "unit_si \<Rightarrow> unit_si \<Rightarrow> bool" where
  "unit_eq a b \<longleftrightarrow> exponents a = exponents b"

text \<open>The loops of the two operators run over the first seven of the eight exponents.\<close>

definition unit_times :: "unit_si \<Rightarrow> unit_si \<Rightarrow> unit_si" where
  "unit_times a b =
     (if is_def a \<and> is_def b
      then \<lparr>exponents = map (\<lambda>i. if i < 7 then exponents a ! i + exponents b ! i else 0) [0..<n_base_units],
            undef = False\<rparr>
      else new_unit)"

definition unit_divide :: "unit_si \<Rightarrow> unit_si \<Rightarrow> unit_si" where
  "unit_divide a b =
     (if is_def a \<and> is_def b
      then \<lparr>exponents = map (\<lambda>i. if i < 7 then exponents a ! i - exponents b ! i else 0) [0..<n_base_units],
            undef = False\<rparr>
      else new_unit)"

section \<open>Formatting\<close>

fun show_nat :: "nat \<Rightarrow> string" where
  "show_nat n = (if n < 10 then [char_of (48 + n)] else show_nat (n div 10) @ [char_of (48 + n mod 10)])"

declare show_nat.simps [simp del]

definition show_int :: "int \<Rightarrow> string" where
  "show_int i = (if i < 0 then ''-'' @ show_nat (nat (- i)) else show_nat (nat i))"

record output_format =
  exp_open :: string
  exp_close :: string
  delimiter :: string

definition unit_symbol :: "nat \<Rightarrow> string" where
  "unit_symbol i = [''m'', ''md'', ''kg'', ''s'', ''A'', ''K'', ''mol'', ''cd''] ! i"

datatype unit_error =
    AssertUndefinedUnit
  | ExcInvalidUnit string string          \<comment> \<open>definition and reason\<close>
  | ExcNoncorrespondingUnit string string \<comment> \<open>definition and expected unit\<close>
  | UndefinedFactor                       \<comment> \<open>undefined behaviour: a missing factor or unit\<close>
  | OutOfFuel                             \<comment> \<open>the recursion did not return within the given depth\<close>

definition format_meter :: "output_format \<Rightarrow> int \<Rightarrow> int \<Rightarrow> string" where
  "format_meter form em emd =
     (if em \<noteq> 0 \<or> emd \<noteq> 0
      then unit_symbol order_m @
        (if em \<noteq> 1 \<or> emd \<noteq> 0
         then exp_open form
           @ (if em \<noteq> 0 then show_int em @ (if emd > 0 then ''+'' else []) else [])
           @ (if emd \<noteq> 0
              then (if emd = -1 then ''-'' else if emd \<noteq> 1 then show_int emd else []) @ ''d''
              else [])
           @ exp_close form
         else [])
      else [])"

fun format_rest :: "output_format \<Rightarrow> (nat \<times> int) list \<Rightarrow> string \<Rightarrow> string" where
  "format_rest form [] out = out"
| "format_rest form ((i, e) # es) out =
     format_rest form es
       (if e \<noteq> 0
        then out @ (if out \<noteq> [] then delimiter form else []) @ unit_symbol i
             @ (if e \<noteq> 1 then exp_open form @ show_int e @ exp_close form else [])
        else out)"

definition format_unit :: "output_format \<Rightarrow> unit_si \<Rightarrow> (unit_error, string) res" where
  "format_unit form u =
     (if \<not> is_def u then Inl AssertUndefinedUnit
      else let out = format_rest form (map (\<lambda>i. (i, exponents u ! i)) [2..<n_base_units])
                 (format_meter form (exponents u ! order_m) (exponents u ! order_md))
           in Inr (if out = [] then ''-'' else out))"

definition format_latex :: "unit_si \<Rightarrow> (unit_error, string) res" where
  "format_latex = format_unit \<lparr>exp_open = ''^{'', exp_close = ''}'', delimiter = ''''\<rparr>"

definition format_text :: "unit_si \<Rightarrow> (unit_error, string) res" where
  "format_text = format_unit \<lparr>exp_open = ''('', exp_close = '')'', delimiter = ''.''\<rparr>"

definition json_item :: "unit_si \<Rightarrow> nat \<Rightarrow> string" where
  "json_item u i =
     (if i \<noteq> 0 then '', '' else []) @ [CHR 0x22] @ unit_symbol i @ [CHR 0x22] @ '' : ''
     @ show_int (exponents u ! i)"

definition unit_json :: "unit_si \<Rightarrow> string" where
  "unit_json u = ''{ '' @ concat (map (json_item u) [0..<n_base_units]) @ '' }''"

section \<open>The table of units\<close>

record derived_unit =
  unit_coef :: double
  unit_of :: unit_si

definition base_units_map :: "(string \<times> derived_unit) list" where
  "base_units_map =
     [(''*m'', \<lparr>unit_coef = Fin 1, unit_of = si_m 1 new_unit\<rparr>),
      (''*g'', \<lparr>unit_coef = Fin (1/1000), unit_of = si_kg 1 new_unit\<rparr>),
      (''*s'', \<lparr>unit_coef = Fin 1, unit_of = si_s 1 new_unit\<rparr>),
      (''*A'', \<lparr>unit_coef = Fin 1, unit_of = si_A 1 new_unit\<rparr>),
      (''*K'', \<lparr>unit_coef = Fin 1, unit_of = si_K 1 new_unit\<rparr>),
      (''*cd'', \<lparr>unit_coef = Fin 1, unit_of = si_cd 1 new_unit\<rparr>),
      (''*mol'', \<lparr>unit_coef = Fin 1, unit_of = si_mol 1 new_unit\<rparr>),
      (''*N'', \<lparr>unit_coef = Fin 1, unit_of = si_s (-2) (si_kg 1 (si_m 1 new_unit))\<rparr>),
      (''*J'', \<lparr>unit_coef = Fin 1, unit_of = si_s (-2) (si_kg 1 (si_m 2 new_unit))\<rparr>),
      (''*W'', \<lparr>unit_coef = Fin 1, unit_of = si_s (-3) (si_kg 1 (si_m 2 new_unit))\<rparr>),
      (''*Pa'', \<lparr>unit_coef = Fin 1, unit_of = si_s (-2) (si_kg 1 (si_m (-1) new_unit))\<rparr>),
      (''cm'', \<lparr>unit_coef = Fin (1/100), unit_of = si_m 1 new_unit\<rparr>),
      (''dm'', \<lparr>unit_coef = Fin (1/10), unit_of = si_m 1 new_unit\<rparr>),
      (''t'', \<lparr>unit_coef = Fin 1000, unit_of = si_kg 1 new_unit\<rparr>),
      (''min'', \<lparr>unit_coef = Fin 60, unit_of = si_s 1 new_unit\<rparr>),
      (''h'', \<lparr>unit_coef = Fin 3600, unit_of = si_s 1 new_unit\<rparr>),
      (''d'', \<lparr>unit_coef = Fin (24 * 3600), unit_of = si_s 1 new_unit\<rparr>),
      (''y'', \<lparr>unit_coef = Fin (365 * 24 * 3600), unit_of = si_s 1 new_unit\<rparr>),
      (''hPa'', \<lparr>unit_coef = Fin 100, unit_of = si_s (-2) (si_kg 1 (si_m (-1) new_unit))\<rparr>),
      (''rad'', \<lparr>unit_coef = Fin 1, unit_of = si_m 0 new_unit\<rparr>)]"

definition prefix_map :: "(string \<times> double) list" where
  "prefix_map =
     [(''p'', Fin (1/1000000000000)), (''n'', Fin (1/1000000000)), (''u'', Fin (1/1000000)),
      (''m'', Fin (1/1000)), ('''', Fin 1), (''k'', Fin 1000), (''M'', Fin 1000000),
      (''G'', Fin 1000000000), (''T'', Fin 1000000000000)]"

text \<open>\<open>std::map::insert\<close> keeps an existing entry.\<close>

definition map_insert :: "'k \<Rightarrow> 'v \<Rightarrow> ('k \<times> 'v) list \<Rightarrow> ('k \<times> 'v) list" where
  "map_insert k v al = (if map_of al k = None then al @ [(k, v)] else al)"

definition add_derived_unit ::
  "(string \<times> derived_unit) \<Rightarrow> (string \<times> derived_unit) list \<Rightarrow> (string \<times> derived_unit) list" where
  "add_derived_unit kv units =
     (case fst kv of
        CHR ''*'' # shortcut \<Rightarrow>
          fold (\<lambda>(p, c) us. map_insert (p @ shortcut)
                 \<lparr>unit_coef = unit_coef (snd kv) * c, unit_of = unit_of (snd kv)\<rparr> us) prefix_map units
      | _ \<Rightarrow> map_insert (fst kv) (snd kv) units)"

definition units_map :: "(string \<times> derived_unit) list" where
  "units_map = fold add_derived_unit base_units_map []"

section \<open>Parsed unit definitions\<close>

record factor =
  factor_name :: string
  exponent :: int
  basic :: bool

record formula =
  formula_coef :: double
  factors :: "factor list"

definition new_formula :: formula where
  "new_formula = \<lparr>formula_coef = Fin 1, factors = []\<rparr>"

type_synonym unit_data = "(string \<times> formula) list"

text \<open>\<open>std::map::operator[]\<close> on the left of an assignment: replace the entry or add it.\<close>

fun map_put :: "'k \<Rightarrow> 'v \<Rightarrow> ('k \<times> 'v) list \<Rightarrow> ('k \<times> 'v) list" where
  "map_put k v [] = [(k, v)]"
| "map_put k v ((k', v') # al) = (if k = k' then (k, v) # al else (k', v') # map_put k v al)"

lemma map_of_map_put [simp]: "map_of (map_put k v al) = (map_of al)(k \<mapsto> v)"
  by (induction al) (auto simp: fun_eq_iff)

record semantic_actions =
  unit_data_of :: unit_data
  unit_data_key :: string
  factor_idx :: int

definition init_actions :: semantic_actions where
  "init_actions = \<lparr>unit_data_of = [('''', new_formula)], unit_data_key = '''', factor_idx = -1\<rparr>"

datatype action =
    New_shortcut string
  | New_mult_factor string
  | New_div_factor string
  | New_exp int
  | New_multipl double
  | Throw_exp_not_int string
  | Throw_not_shortcut string string  \<comment> \<open>the text and its surroundings\<close>
  | Throw_not_equating string

definition current_formula :: "semantic_actions \<Rightarrow> formula" where
  "current_formula sa =
     (case map_of (unit_data_of sa) (unit_data_key sa) of Some f \<Rightarrow> f | None \<Rightarrow> new_formula)"

definition put_formula :: "semantic_actions \<Rightarrow> formula \<Rightarrow> semantic_actions" where
  "put_formula sa f = sa\<lparr>unit_data_of := map_put (unit_data_key sa) f (unit_data_of sa)\<rparr>"

definition new_shortcut :: "semantic_actions \<Rightarrow> string \<Rightarrow> semantic_actions" where
  "new_shortcut sa key =
     sa\<lparr>unit_data_of := map_put key new_formula (unit_data_of sa), unit_data_key := key, factor_idx := -1\<rparr>"

definition new_factor :: "semantic_actions \<Rightarrow> string \<Rightarrow> int \<Rightarrow> semantic_actions" where
  "new_factor sa name e =
     (let f = current_formula sa in
      (put_formula sa (f\<lparr>factors := factors f @ [\<lparr>factor_name = name, exponent = e, basic = True\<rparr>]\<rparr>))
        \<lparr>factor_idx := factor_idx sa + 1\<rparr>)"

text \<open>The cast of the parsed 64-bit exponent to \<open>int\<close> keeps the low 32 bits.\<close>

definition new_exp :: "semantic_actions \<Rightarrow> int \<Rightarrow> (unit_error, semantic_actions) res" where
  "new_exp sa i =
     (let f = current_formula sa; k = nat (factor_idx sa) in
      if factor_idx sa < 0 \<or> length (factors f) \<le> k then Inl UndefinedFactor
      else let fk = factors f ! k in
        Inr (put_formula sa (f\<lparr>factors :=
          (factors f)[k := fk\<lparr>exponent := exponent fk * signed_take_bit 31 i\<rparr>]\<rparr>)))"

definition new_multipl :: "semantic_actions \<Rightarrow> double \<Rightarrow> semantic_actions" where
  "new_multipl sa d = put_formula sa ((current_formula sa)\<lparr>formula_coef := d\<rparr>)"

definition quoted :: "string \<Rightarrow> string" where
  "quoted t = [CHR 0x27] @ t @ [CHR 0x27]"

definition perform ::
  "string \<Rightarrow> semantic_actions \<Rightarrow> action \<Rightarrow> (unit_error, semantic_actions) res" where
  "perform def sa act =
     (case act of
        New_shortcut key \<Rightarrow> Inr (new_shortcut sa key)
      | New_mult_factor name \<Rightarrow> Inr (new_factor sa name 1)
      | New_div_factor name \<Rightarrow> Inr (new_factor sa name (-1))
      | New_exp i \<Rightarrow> new_exp sa i
      | New_multipl d \<Rightarrow> Inr (new_multipl sa d)
      | Throw_exp_not_int t \<Rightarrow>
          Inl (ExcInvalidUnit def (''Value of exponent '' @ quoted t @ '' is not integer''))
      | Throw_not_shortcut t ctxt \<Rightarrow>
          Inl (ExcInvalidUnit def
            (if t = [] then ''Missing declaration of shortcut '' @ quoted (''..'' @ ctxt @ ''..'')
             else ''Invalid shortcut of unit '' @ quoted t))
      | Throw_not_equating t \<Rightarrow>
          Inl (ExcInvalidUnit def (''Invalid expression '' @ quoted t @ '', missing '' @ quoted ''='')))"

definition check_factor ::
  "string \<Rightarrow> unit_data \<Rightarrow> string \<Rightarrow> factor \<Rightarrow> (unit_error, factor) res" where
  "check_factor def ud key f =
     (if factor_name f = key
      then Inl (ExcInvalidUnit def (''Cyclic declaration of unit '' @ quoted key))
      else if map_of ud (factor_name f) \<noteq> None
      then (if map_of units_map (factor_name f) \<noteq> None
            then Inl (ExcInvalidUnit def
              (''Shortcut '' @ quoted (factor_name f) @ '' is in conflict with predefined unit''))
            else Inr (f\<lparr>basic := False\<rparr>))
      else if map_of units_map (factor_name f) = None
      then Inl (ExcInvalidUnit def (''Unit '' @ quoted (factor_name f) @ '' is not defined''))
      else Inr f)"

fun check_factors ::
  "string \<Rightarrow> unit_data \<Rightarrow> string \<Rightarrow> factor list \<Rightarrow> (unit_error, factor list) res" where
  "check_factors def ud key [] = Inr []"
| "check_factors def ud key (f # fs) =
     bind_res (check_factor def ud key f) (\<lambda>f'.
       bind_res (check_factors def ud key fs) (\<lambda>fs'. Inr (f' # fs')))"

text \<open>The outer loop runs over the definitions in the order of their names.\<close>

fun check_formulas ::
  "string \<Rightarrow> unit_data \<Rightarrow> unit_data \<Rightarrow> (unit_error, unit_data) res" where
  "check_formulas def ud [] = Inr []"
| "check_formulas def ud ((key, fm) # rest) =
     bind_res (check_factors def ud key (factors fm)) (\<lambda>fs'.
       bind_res (check_formulas def ud rest) (\<lambda>rest'. Inr ((key, fm\<lparr>factors := fs'\<rparr>) # rest')))"

definition check_unit_data :: "string \<Rightarrow> unit_data \<Rightarrow> (unit_error, unit_data) res" where
  "check_unit_data def ud = check_formulas def ud (sort_key fst ud)"

definition read_unit :: "(string \<Rightarrow> action list) \<Rightarrow> string \<Rightarrow> (unit_error, unit_data) res" where
  "read_unit parse s =
     bind_res (fold_res (perform s) init_actions (parse s)) (\<lambda>sa.
       check_unit_data s (unit_data_of sa))"

section \<open>Conversion\<close>

text \<open>\<open>pow(coef, exponent)\<close> for an integral exponent.\<close>

fun dpow :: "double \<Rightarrow> int \<Rightarrow> double" where
  "dpow (Fin x) n = (if x = 0 \<and> n < 0 then PInf else Fin (x powi n))"
| "dpow NaN n = (if n = 0 then Fin 1 else NaN)"
| "dpow PInf n = (if n = 0 then Fin 1 else if 0 < n then PInf else Fin 0)"
| "dpow MInf n = (if n = 0 then Fin 1 else if 0 < n then (if odd n then MInf else PInf) else Fin 0)"

text \<open>
  The recursion over the user definitions is bounded by \<open>fuel\<close>, the depth of nested calls;
  the state is the unit and the coefficient that the calls accumulate.
\<close>

fun add_converted_unit ::
  "nat \<Rightarrow> unit_data \<Rightarrow> factor \<Rightarrow> unit_si \<times> double \<Rightarrow> (unit_error, unit_si \<times> double) res" where
  "add_converted_unit 0 ud f st = Inl OutOfFuel"
| "add_converted_unit (Suc fuel) ud f st =
     (if basic f
      then (case map_of units_map (factor_name f) of
              None \<Rightarrow> Inl UndefinedFactor
            | Some du \<Rightarrow> Inr (multiply (fst st) (unit_of du) (exponent f),
                             snd st * dpow (unit_coef du) (exponent f)))
      else (case map_of ud (factor_name f) of
              None \<Rightarrow> Inl UndefinedFactor
            | Some fm \<Rightarrow>
                fold_res
                  (\<lambda>st' g. add_converted_unit fuel ud (g\<lparr>exponent := exponent g * exponent f\<rparr>) st')
                  (fst st, snd st * dpow (formula_coef fm) (exponent f)) (factors fm)))"

definition convert ::
  "nat \<Rightarrow> (string \<Rightarrow> action list) \<Rightarrow> string \<Rightarrow> (unit_error, unit_si \<times> double) res" where
  "convert fuel parse actual_unit =
     bind_res (read_unit parse actual_unit) (\<lambda>ud.
       case map_of ud '''' of
         None \<Rightarrow> Inl UndefinedFactor
       | Some fm \<Rightarrow>
           fold_res (\<lambda>st f. add_converted_unit fuel ud f st) (reset_unit new_unit, Fin 1) (factors fm))"

definition convert_unit_from ::
  "nat \<Rightarrow> (string \<Rightarrow> action list) \<Rightarrow> unit_si \<Rightarrow> string \<Rightarrow> (unit_error, double) res" where
  "convert_unit_from fuel parse self actual_unit =
     bind_res (convert fuel parse actual_unit) (\<lambda>(u, c).
       if \<not> is_def u then Inl AssertUndefinedUnit
       else if unit_eq u self then Inr c
       else bind_res (format_text self) (\<lambda>t. Inl (ExcNoncorrespondingUnit actual_unit t)))"

section \<open>Exponents\<close>

definition unit_ok :: "unit_si \<Rightarrow> bool" where
  "unit_ok u \<longleftrightarrow> length (exponents u) = n_base_units"

lemma length_multiply [simp]: "length (exponents (multiply u v e)) = n_base_units"
  by (simp add: multiply_def)

lemma multiply_nth: "i < n_base_units \<Longrightarrow>
    exponents (multiply u v e) ! i = exponents u ! i + e * exponents v ! i"
  by (simp add: multiply_def)

text \<open>
  The product and the quotient of two defined units add and subtract the exponents of the
  metre, the dimension dependent metre, kilogram, second, ampere, kelvin and mole; the exponent
  of the candela of the result is zero whatever the operands are.
\<close>

theorem unit_operators_exponents:
  assumes "is_def a" and "is_def b"
  shows "is_def (unit_times a b) \<and> is_def (unit_divide a b) \<and>
    (\<forall>i < order_cd. exponents (unit_times a b) ! i = exponents a ! i + exponents b ! i \<and>
       exponents (unit_divide a b) ! i = exponents a ! i - exponents b ! i) \<and>
    exponents (unit_times a b) ! order_cd = 0 \<and> exponents (unit_divide a b) ! order_cd = 0"
  using assms by (simp add: unit_times_def unit_divide_def is_def_def unit_orders)

theorem unit_operators_exponents_witness:
  "exponents (si_cd 1 new_unit) ! order_cd = 1 \<and>
   exponents (unit_times (si_cd 1 new_unit) dimensionless) ! order_cd = 0"
  using unit_operators_exponents [of "si_cd 1 new_unit" dimensionless]
  by (simp add: is_def_def dimensionless_def si_setters new_unit_def unit_orders)

section \<open>The table of units has no clashes\<close>

definition expand_unit :: "string \<times> derived_unit \<Rightarrow> (string \<times> derived_unit) list" where
  "expand_unit kv =
     (case fst kv of
        CHR ''*'' # shortcut \<Rightarrow>
          map (\<lambda>(p, c). (p @ shortcut,
                 \<lparr>unit_coef = unit_coef (snd kv) * c, unit_of = unit_of (snd kv)\<rparr>)) prefix_map
      | _ \<Rightarrow> [kv])"

lemma map_insert_new: "k \<notin> fst ` set al \<Longrightarrow> map_insert k v al = al @ [(k, v)]"
  by (simp add: map_insert_def map_of_eq_None_iff)

lemma fold_map_insert_new:
  "distinct (map fst (al @ kvs)) \<Longrightarrow> fold (\<lambda>(k, v). map_insert k v) kvs al = al @ kvs"
  by (induction kvs arbitrary: al) (auto simp: map_insert_new)

lemma add_derived_unit_expand:
  "add_derived_unit kv units = fold (\<lambda>(k, v). map_insert k v) (expand_unit kv) units"
  by (auto simp: add_derived_unit_def expand_unit_def fold_map comp_def split_def
      split: list.splits bool.splits char.splits)

lemma units_map_concat:
  assumes "distinct (map fst (concat (map expand_unit base_units_map)))"
  shows "units_map = concat (map expand_unit base_units_map)"
proof -
  have "fold add_derived_unit kvs al =
      fold (\<lambda>(k, v). map_insert k v) (concat (map expand_unit kvs)) al" for kvs al
    by (induction kvs arbitrary: al) (simp_all add: add_derived_unit_expand)
  then show ?thesis using fold_map_insert_new [of "[]"] assms by (simp add: units_map_def)
qed

lemma units_map_names:
  "map fst (concat (map expand_unit base_units_map)) =
     concat (map (\<lambda>n. case n of CHR ''*'' # x \<Rightarrow> map (\<lambda>p. p @ x) (map fst prefix_map) | _ \<Rightarrow> [n])
       (map fst base_units_map))"
  by (simp add: base_units_map_def prefix_map_def expand_unit_def)

lemma units_map_distinct: "distinct (map fst (concat (map expand_unit base_units_map)))"
  unfolding units_map_names by (simp add: base_units_map_def prefix_map_def)

lemmas units_map_eq = units_map_concat [OF units_map_distinct]

lemma units_map_lookup:
  "kv \<in> set base_units_map \<Longrightarrow> (k, du) \<in> set (expand_unit kv) \<Longrightarrow> map_of units_map k = Some du"
  unfolding units_map_eq by (rule map_of_is_SomeI [OF units_map_distinct]) auto

text \<open>
  No symbol of the table of units is defined twice, so nothing is lost when the prefixed
  units are inserted: every unit marked by a star is found with each of the nine prefixes,
  scaled by the prefix, and every other unit is found as it is.
\<close>

theorem units_table_complete:
  "distinct (map fst units_map) \<and>
   (\<forall>kv \<in> set base_units_map. \<forall>pc \<in> set prefix_map.
      if take 1 (fst kv) = ''*''
      then map_of units_map (fst pc @ drop 1 (fst kv)) =
        Some \<lparr>unit_coef = unit_coef (snd kv) * snd pc, unit_of = unit_of (snd kv)\<rparr>
      else map_of units_map (fst kv) = Some (snd kv))"
proof (intro conjI ballI)
  show "distinct (map fst units_map)" using units_map_distinct by (simp add: units_map_eq)
next
  fix kv pc
  assume kv: "kv \<in> set base_units_map" and pc: "pc \<in> set prefix_map"
  show "if take 1 (fst kv) = ''*''
      then map_of units_map (fst pc @ drop 1 (fst kv)) =
        Some \<lparr>unit_coef = unit_coef (snd kv) * snd pc, unit_of = unit_of (snd kv)\<rparr>
      else map_of units_map (fst kv) = Some (snd kv)"
  proof (cases "take 1 (fst kv) = ''*''")
    case True
    then obtain x where "fst kv = CHR ''*'' # x" by (cases "fst kv") auto
    then have "(fst pc @ drop 1 (fst kv),
        \<lparr>unit_coef = unit_coef (snd kv) * snd pc, unit_of = unit_of (snd kv)\<rparr>) \<in> set (expand_unit kv)"
      using pc by (force simp: expand_unit_def)
    then show ?thesis using True units_map_lookup [OF kv] by simp
  next
    case False
    have "expand_unit kv = [kv]" using kv False by (auto simp: base_units_map_def expand_unit_def)
    then show ?thesis using False units_map_lookup [OF kv, of "fst kv" "snd kv"] by simp
  qed
qed

theorem units_table_complete_witness:
  "map_of units_map ''kg'' = Some \<lparr>unit_coef = Fin 1, unit_of = si_kg 1 new_unit\<rparr>"
proof -
  have "(''*g'', \<lparr>unit_coef = Fin (1/1000), unit_of = si_kg 1 new_unit\<rparr>) \<in> set base_units_map"
    "(''k'', Fin 1000) \<in> set prefix_map"
    by (simp_all add: base_units_map_def prefix_map_def)
  then show ?thesis using units_table_complete by fastforce
qed

section \<open>The value of a user defined unit\<close>

text \<open>
  What a definition means: a known unit has its exponents and coefficient, a defined symbol the
  product of the factors of its definition, and an exponent raises the whole to that power.
\<close>

type_synonym unit_val = "(nat \<Rightarrow> int) \<times> real"

fun product_value :: "(factor \<Rightarrow> unit_val option) \<Rightarrow> factor list \<Rightarrow> unit_val option" where
  "product_value v [] = Some (\<lambda>i. 0, 1)"
| "product_value v (f # fs) =
     (case v f of None \<Rightarrow> None | Some (d, c) \<Rightarrow>
        map_option (\<lambda>(d', c'). (\<lambda>i. d i + d' i, c * c')) (product_value v fs))"

fun unit_value :: "nat \<Rightarrow> unit_data \<Rightarrow> factor \<Rightarrow> unit_val option" where
  "unit_value 0 ud f = None"
| "unit_value (Suc n) ud f =
     map_option (\<lambda>(d, c). (\<lambda>i. exponent f * d i, c powi exponent f))
       (if basic f
        then map_option (\<lambda>du. (\<lambda>i. exponents (unit_of du) ! i, dval (unit_coef du)))
               (map_of units_map (factor_name f))
        else (case map_of ud (factor_name f) of None \<Rightarrow> None | Some fm \<Rightarrow>
                map_option (\<lambda>(d, c). (d, dval (formula_coef fm) * c))
                  (product_value (unit_value n ud) (factors fm))))"

definition coefs_ok :: "unit_data \<Rightarrow> bool" where
  "coefs_ok ud \<longleftrightarrow> list_all (\<lambda>(k, fm). is_fin (formula_coef fm) \<and> dval (formula_coef fm) \<noteq> 0) ud"

lemma units_map_coef:
  assumes "map_of units_map k = Some du"
  shows "is_fin (unit_coef du)" "dval (unit_coef du) \<noteq> 0"
proof -
  have "list_all (\<lambda>(k, du). is_fin (unit_coef du) \<and> dval (unit_coef du) \<noteq> 0) units_map"
    by (simp add: units_map_eq base_units_map_def expand_unit_def prefix_map_def)
  then show "is_fin (unit_coef du)" "dval (unit_coef du) \<noteq> 0"
    using map_of_SomeD [OF assms] by (auto simp: list_all_iff)
qed

lemma coefs_okD:
  assumes "coefs_ok ud" and "map_of ud k = Some fm"
  shows "is_fin (formula_coef fm)" "dval (formula_coef fm) \<noteq> 0"
  using assms map_of_SomeD [OF assms(2)] by (auto simp: coefs_ok_def list_all_iff)

definition factors_ok :: "unit_data \<Rightarrow> bool" where
  "factors_ok ud \<longleftrightarrow> list_all (\<lambda>(k, fm). factors fm \<noteq> []) ud"

lemma factors_okD: "factors_ok ud \<Longrightarrow> map_of ud k = Some fm \<Longrightarrow> factors fm \<noteq> []"
  by (auto simp: factors_ok_def list_all_iff dest: map_of_SomeD)

lemma product_value_nonzero:
  assumes "product_value v fs = Some (d, c)" and "\<And>f d c. v f = Some (d, c) \<Longrightarrow> c \<noteq> 0"
  shows "c \<noteq> 0"
  using assms(1)
proof (induction fs arbitrary: d c)
  case (Cons f fs)
  then show ?case using assms(2) by (fastforce split: option.splits)
qed simp

lemma unit_value_nonzero:
  "coefs_ok ud \<Longrightarrow> unit_value n ud f = Some (d, c) \<Longrightarrow> c \<noteq> 0"
proof (induction n arbitrary: f d c)
  case (Suc n)
  then show ?case
    by (auto dest: units_map_coef coefs_okD product_value_nonzero [OF _ Suc.IH [OF Suc.prems(1)]]
        split: if_splits option.splits)
qed simp

text \<open>The effect of a conversion on the accumulated unit and coefficient.\<close>

definition accumulates ::
  "bool \<Rightarrow> unit_si \<Rightarrow> real \<Rightarrow> (nat \<Rightarrow> int) \<Rightarrow> real \<Rightarrow> (unit_error, unit_si \<times> double) res \<Rightarrow> bool" where
  "accumulates b u c d v r \<longleftrightarrow>
     (\<exists>u'. r = Inr (u', Fin (c * v)) \<and> unit_ok u' \<and>
        (\<forall>i < n_base_units. exponents u' ! i = exponents u ! i + d i) \<and>
        (undef u' \<longrightarrow> undef u \<and> \<not> b))"

lemma accumulates_multiply:
  assumes "unit_ok u" and "map_of units_map k = Some du"
  shows "accumulates True u c (\<lambda>i. e * exponents (unit_of du) ! i) (dval (unit_coef du) powi e)
    (Inr (multiply u (unit_of du) e, Fin c * dpow (unit_coef du) e))"
  using units_map_coef [OF assms(2)] assms(1)
  by (auto simp: accumulates_def unit_ok_def multiply_nth is_fin_iff) (auto simp: multiply_def)

lemma accumulates_fold:
  assumes "unit_ok u" and "product_value v fs = Some (d, c)"
    and step: "\<And>f d c u x. f \<in> set fs \<Longrightarrow> v f = Some (d, c) \<Longrightarrow> unit_ok u \<Longrightarrow>
      accumulates True u x (\<lambda>i. k * d i) (c powi k) (g (u, Fin x) f)"
  shows "accumulates (fs \<noteq> []) u x (\<lambda>i. k * d i) (c powi k) (fold_res g (u, Fin x) fs)"
  using assms
proof (induction fs arbitrary: u x d c)
  case Nil
  then show ?case by (auto simp: accumulates_def)
next
  case (Cons f fs)
  from Cons.prems(2) obtain d1 c1 d2 c2 where v: "v f = Some (d1, c1)"
    "product_value v fs = Some (d2, c2)" and dc: "d = (\<lambda>i. d1 i + d2 i)" "c = c1 * c2"
    by (auto split: option.splits)
  from Cons.prems(3) [OF _ v(1) Cons.prems(1), of x] obtain u1 where
    u1: "g (u, Fin x) f = Inr (u1, Fin (x * c1 powi k))" "unit_ok u1"
    "\<forall>i < n_base_units. exponents u1 ! i = exponents u ! i + k * d1 i" "\<not> undef u1"
    by (auto simp: accumulates_def)
  have "accumulates (fs \<noteq> []) u1 (x * c1 powi k) (\<lambda>i. k * d2 i) (c2 powi k)
      (fold_res g (u1, Fin (x * c1 powi k)) fs)"
    by (rule Cons.IH [OF u1(2) v(2)], rule Cons.prems(3)) auto
  then show ?case
    using u1 by (auto simp: accumulates_def dc power_int_mult_distrib algebra_simps)
qed

lemma add_converted_unit_value:
  assumes "coefs_ok ud" and "factors_ok ud" and "unit_value n ud f = Some (d, c)" and "unit_ok u"
  shows "accumulates True u x (\<lambda>i. k * d i) (c powi k)
    (add_converted_unit n ud (f\<lparr>exponent := exponent f * k\<rparr>) (u, Fin x))"
  using assms(3,4)
proof (induction n arbitrary: f d c u x k)
  case 0
  then show ?case by simp
next
  case (Suc n)
  show ?case
  proof (cases "basic f")
    case True
    with Suc.prems obtain du where du: "map_of units_map (factor_name f) = Some du"
      and dc: "d = (\<lambda>i. exponent f * exponents (unit_of du) ! i)"
        "c = dval (unit_coef du) powi exponent f" by auto
    have "(\<lambda>i. k * d i) = (\<lambda>i. (exponent f * k) * exponents (unit_of du) ! i)"
      "c powi k = dval (unit_coef du) powi (exponent f * k)"
      by (simp_all add: dc power_int_mult fun_eq_iff)
    then show ?thesis
      using accumulates_multiply [OF Suc.prems(2) du, of x "exponent f * k"] True du by simp
  next
    case False
    with Suc.prems obtain fm d0 c0 where fm: "map_of ud (factor_name f) = Some fm"
      and pv: "product_value (unit_value n ud) (factors fm) = Some (d0, c0)"
      and dc: "d = (\<lambda>i. exponent f * d0 i)" "c = (dval (formula_coef fm) * c0) powi exponent f"
      by (auto split: option.splits)
    obtain a where a: "formula_coef fm = Fin a" "a \<noteq> 0"
      using coefs_okD [OF assms(1) fm] by (auto simp: is_fin_iff)
    let ?e = "exponent f * k"
    have "accumulates (factors fm \<noteq> []) u (x * a powi ?e) (\<lambda>i. ?e * d0 i) (c0 powi ?e)
      (fold_res (\<lambda>st g. add_converted_unit n ud (g\<lparr>exponent := exponent g * ?e\<rparr>) st)
        (u, Fin (x * a powi ?e)) (factors fm))"
      by (rule accumulates_fold [OF Suc.prems(2) pv]) (rule Suc.IH)
    moreover have "c powi k = a powi ?e * c0 powi ?e"
      by (simp add: dc a power_int_mult power_int_mult_distrib)
    ultimately show ?thesis
      using False fm a factors_okD [OF assms(2) fm] by (auto simp: accumulates_def dc algebra_simps)
  qed
qed

lemma combined_value:
  assumes "coefs_ok ud" "factors_ok ud" and "product_value (unit_value n ud) fs = Some (d, c)"
  shows "accumulates (fs \<noteq> []) (reset_unit new_unit) 1 d c
    (fold_res (\<lambda>st f. add_converted_unit n ud f st) (reset_unit new_unit, Fin 1) fs)"
proof -
  have "accumulates (fs \<noteq> []) (reset_unit new_unit) 1 (\<lambda>i. 1 * d i) (c powi 1)
      (fold_res (\<lambda>st f. add_converted_unit n ud f st) (reset_unit new_unit, Fin 1) fs)"
  proof (rule accumulates_fold [OF _ assms(3)])
    show "unit_ok (reset_unit new_unit)" by (simp add: unit_ok_def reset_unit_def new_unit_def)
    show "accumulates True u x (\<lambda>i. 1 * d i) (c powi 1) (add_converted_unit n ud f (u, Fin x))"
      if "unit_value n ud f = Some (d, c)" "unit_ok u" for f d c u x
      using add_converted_unit_value [OF assms(1,2) that, of x 1] by simp
  qed
  then show ?thesis by simp
qed



text \<open>
  Definitions that do not depend on each other in a cycle: a rank of the symbols decreases from
  a definition to the symbols it uses, and every factor is known.
\<close>

definition ranked :: "(string \<Rightarrow> nat) \<Rightarrow> unit_data \<Rightarrow> bool" where
  "ranked rank ud \<longleftrightarrow>
     list_all (\<lambda>(k, fm). list_all (\<lambda>g. if basic g then map_of units_map (factor_name g) \<noteq> None
         else map_of ud (factor_name g) \<noteq> None \<and> rank (factor_name g) < rank k) (factors fm)) ud"

lemma product_value_total:
  "(\<And>f. f \<in> set fs \<Longrightarrow> v f \<noteq> None) \<Longrightarrow> product_value v fs \<noteq> None"
  by (induction fs) (auto split: option.splits)

lemma rankedD:
  assumes "ranked rank ud" and "map_of ud k = Some fm" and "g \<in> set (factors fm)"
  shows "if basic g then map_of units_map (factor_name g) \<noteq> None
    else map_of ud (factor_name g) \<noteq> None \<and> rank (factor_name g) < rank k"
  using assms map_of_SomeD [OF assms(2)] by (fastforce simp: ranked_def list_all_iff)

lemma unit_value_total:
  assumes "ranked rank ud"
    and "if basic f then map_of units_map (factor_name f) \<noteq> None
      else map_of ud (factor_name f) \<noteq> None \<and> rank (factor_name f) < n"
  shows "unit_value (Suc n) ud f \<noteq> None"
  using assms(2)
proof (induction n arbitrary: f)
  case 0
  then show ?case by (auto split: if_splits)
next
  case (Suc n)
  show ?case
  proof (cases "basic f")
    case True
    then show ?thesis using Suc.prems by auto
  next
    case False
    then obtain fm where fm: "map_of ud (factor_name f) = Some fm" using Suc.prems by auto
    have "product_value (unit_value (Suc n) ud) (factors fm) \<noteq> None"
    proof (rule product_value_total, rule Suc.IH)
      show "if basic g then map_of units_map (factor_name g) \<noteq> None
          else map_of ud (factor_name g) \<noteq> None \<and> rank (factor_name g) < n"
        if "g \<in> set (factors fm)" for g
        using rankedD [OF assms(1) fm that] Suc.prems False by (auto split: if_splits)
    qed
    then show ?thesis using fm False by auto
  qed
qed

text \<open>
  The recursive conversion returns for definitions without cycles: depth one more than the
  rank of the whole unit is enough, and the returned coefficient is the meaning of the unit.
\<close>

theorem convert_terminates:
  assumes "read_unit parse s = Inr ud" and "coefs_ok ud" and "factors_ok ud"
    and "map_of ud '''' = Some fm" and "ranked rank ud"
  shows "\<exists>u d v. convert (Suc (rank '''')) parse s = Inr (u, Fin v) \<and>
    product_value (unit_value (Suc (rank '''')) ud) (factors fm) = Some (d, v) \<and>
    (\<forall>i < n_base_units. exponents u ! i = d i)"
proof -
  have "product_value (unit_value (Suc (rank '''')) ud) (factors fm) \<noteq> None"
    by (rule product_value_total, rule unit_value_total [OF assms(5)], rule rankedD [OF assms(5,4)])
  then obtain d v where dv: "product_value (unit_value (Suc (rank '''')) ud) (factors fm) = Some (d, v)"
    by auto
  show ?thesis
    using combined_value [OF assms(2,3) dv] assms(1,4) dv
    by (auto simp: convert_def accumulates_def reset_unit_def new_unit_def)
qed

lemma sort_unit_data:
  "sort_key fst [('''', f), (''x_'', g), (''y_'', h)] = [('''', f), (''x_'', g), (''y_'', h)]"
  by (simp add: less_char_def)

lemma symbols_not_units: "map_of units_map ''x_'' = None" "map_of units_map ''y_'' = None"
  by (simp_all add: map_of_eq_None_iff units_map_eq base_units_map_def expand_unit_def prefix_map_def)

text \<open>The actions of the grammar on a unit whose two symbols are defined by each other.\<close>

definition cyclic_actions :: "action list" where
  "cyclic_actions =
     [New_mult_factor ''x_'', New_shortcut ''x_'', New_mult_factor ''y_'',
      New_shortcut ''y_'', New_mult_factor ''x_'']"

definition cyclic_data :: unit_data where
  "cyclic_data =
     [('''', \<lparr>formula_coef = Fin 1, factors = [\<lparr>factor_name = ''x_'', exponent = 1, basic = False\<rparr>]\<rparr>),
      (''x_'', \<lparr>formula_coef = Fin 1, factors = [\<lparr>factor_name = ''y_'', exponent = 1, basic = False\<rparr>]\<rparr>),
      (''y_'', \<lparr>formula_coef = Fin 1, factors = [\<lparr>factor_name = ''x_'', exponent = 1, basic = False\<rparr>]\<rparr>)]"

lemma read_cyclic: "read_unit (\<lambda>_. cyclic_actions) s = Inr cyclic_data"
  by (simp add: read_unit_def cyclic_actions_def cyclic_data_def perform_def init_actions_def new_factor_def
      new_shortcut_def current_formula_def put_formula_def new_formula_def check_unit_data_def
      check_factor_def symbols_not_units sort_unit_data Let_def)

lemma cyclic_fuel:
  "n = ''x_'' \<or> n = ''y_'' \<Longrightarrow>
     add_converted_unit fuel cyclic_data \<lparr>factor_name = n, exponent = e, basic = False\<rparr> st = Inl OutOfFuel"
proof (induction fuel arbitrary: n e st)
  case (Suc fuel)
  then show ?case by (auto simp: cyclic_data_def)
qed simp

text \<open>
  C40. The check of a unit definition refuses a symbol defined by itself, but accepts two symbols
  defined by each other; the conversion then recurses without end: no depth is enough.
\<close>

theorem mutual_definitions_diverge:
  "(\<exists>ud. read_unit (\<lambda>_. cyclic_actions) s = Inr ud) \<and>
   convert fuel (\<lambda>_. cyclic_actions) s = Inl OutOfFuel"
  using cyclic_fuel [of "''x_''" fuel 1]
  by (simp add: convert_def read_cyclic) (simp add: cyclic_data_def)

theorem convert_terminates_witness:
  "\<exists>u v. convert 2 (\<lambda>_. [New_mult_factor ''x_'', New_shortcut ''x_'', New_mult_factor ''min'', New_exp 2])
     ''x_;x_=min^2'' = Inr (u, Fin v)"
proof -
  let ?f = "\<lambda>n e b. \<lparr>factor_name = n, exponent = e, basic = b\<rparr>"
  let ?g = "\<lparr>formula_coef = Fin 1, factors = [?f ''x_'' 1 False]\<rparr>"
  let ?ud = "[('''', ?g), (''x_'', \<lparr>formula_coef = Fin 1, factors = [?f ''min'' 2 True]\<rparr>)]"
  let ?acts = "[New_mult_factor ''x_'', New_shortcut ''x_'', New_mult_factor ''min'', New_exp 2]"
  have t: "map_of units_map ''min'' \<noteq> None"
    by (subst units_map_lookup [of "(''min'', \<lparr>unit_coef = Fin 60, unit_of = si_s 1 new_unit\<rparr>)"])
       (simp_all add: base_units_map_def expand_unit_def)
  have r: "read_unit (\<lambda>_. ?acts) ''x_;x_=min^2'' = Inr ?ud"
    using t by (simp add: read_unit_def perform_def init_actions_def new_factor_def
      new_shortcut_def new_exp_def current_formula_def put_formula_def new_formula_def check_unit_data_def
      check_factor_def symbols_not_units Let_def signed_take_bit_eq_take_bit_shift take_bit_eq_mod)
  have "ranked (\<lambda>k. if k = '''' then 1 else 0) ?ud" using t by (simp add: ranked_def)
  then show ?thesis
    using convert_terminates [OF r, of ?g "\<lambda>k. if k = '''' then 1 else 0"]
    by (auto simp: coefs_ok_def factors_ok_def eval_nat_numeral)
qed

end
