(* ===== verification/Time_Governor.thy ===== *)
theory Time_Governor
  imports Time_Marks Units
begin

text \<open>
  \<open>TimeGovernor\<close> and \<open>TimeUnitConversion\<close> of \<open>src/src/tools/time_governor.hh\<close> and
  \<open>time_governor.cc\<close>: construction from the input record, the limits and constraints of the
  time step, the choice of the next step and the advance in time. The static database of time
  marks is passed explicitly. The input record is given by its values; \<open>conv\<close> is the
  conversion \<open>UnitSI().s().convert_unit_from\<close> of a time unit to seconds.
\<close>

section \<open>State\<close>

datatype tg_error =
    ExcTimeGovernorMessage string
  | ExcMissingTimeStep int nat nat     \<comment> \<open>index, history index, history size\<close>
  | ExcMessage string
  | MarksError tm_error
  | UnitError unit_error
  | TableOverrun                       \<comment> \<open>undefined behaviour: read outside a container\<close>

record dt_limit_row =
  row_time :: double
  row_min_dt :: double
  row_max_dt :: double

record time_governor =
  recent_steps :: "time_step list"
  init_time :: double
  end_of_fixed_dt_interval :: double
  end_time :: double
  fixed_time_step :: double
  is_time_step_fixed :: bool
  time_step_changed :: bool
  upper_constraint_message :: string
  lower_constraint_message :: string
  upper_constraint :: double
  lower_constraint :: double
  max_time_step :: double
  min_time_step :: double
  last_upper_constraint :: double
  last_lower_constraint :: double
  eq_mark_type :: mark_type
  steady :: bool
  tg_unit :: time_unit_conversion
  dt_limits_table :: "dt_limit_row list"
  dt_limits_pos :: nat
  timesteps_output_file :: bool
  timesteps_output :: "(double \<times> double \<times> double) list"
  last_printed_timestep :: double
  timestep_output :: bool
  limits_time_marks :: bool

text \<open>A time in the input: a value and an optional unit.\<close>

type_synonym time_value = "double \<times> string option"
type_synonym convert_time = "string \<Rightarrow> (unit_error, double) res"

record limit_input =
  lim_time :: time_value
  lim_min_dt :: "time_value option"
  lim_max_dt :: "time_value option"

record tg_input =
  in_common_time_unit :: string
  in_add_dt_limits_time_marks :: bool
  in_start_time :: time_value
  in_end_time :: time_value
  in_init_dt :: time_value
  in_min_dt :: "time_value option"
  in_max_dt :: "time_value option"
  in_dt_limits :: "limit_input list"
  in_write_used_timesteps :: bool

section \<open>Time units\<close>

definition unit_conversion :: "convert_time \<Rightarrow> string \<Rightarrow> (tg_error, time_unit_conversion) res" where
  "unit_conversion conv u =
     bind_res (map_err UnitError (conv u)) (\<lambda>c. Inr \<lparr>coef = c, unit_string = u\<rparr>)"

text \<open>
  The assertion on the default value compares it with a NaN by \<open>!=\<close>, which always holds.
\<close>

definition read_time ::
  "convert_time \<Rightarrow> time_unit_conversion \<Rightarrow> time_value option \<Rightarrow> double \<Rightarrow> (tg_error, double) res" where
  "read_time conv tuc time_it default_time =
     (case time_it of
        Some (time, Some u) \<Rightarrow> bind_res (map_err UnitError (conv u)) (\<lambda>c. Inr (time * c))
      | Some (time, None) \<Rightarrow> Inr (time * coef tuc)
      | None \<Rightarrow> Inr default_time)"

definition read_coef ::
  "convert_time \<Rightarrow> time_unit_conversion \<Rightarrow> string option \<Rightarrow> (tg_error, double) res" where
  "read_coef conv tuc unit_it =
     (case unit_it of Some u \<Rightarrow> map_err UnitError (conv u) | None \<Rightarrow> Inr (coef tuc))"

section \<open>Steps and marks\<close>

definition size_of_recent_steps :: nat where
  "size_of_recent_steps = 3"

text \<open>\<open>boost::circular_buffer::push_front\<close> drops the oldest step of a full buffer.\<close>

definition push_step :: "time_step \<Rightarrow> time_step list \<Rightarrow> time_step list" where
  "push_step s ss = take size_of_recent_steps (s # ss)"

definition get_step :: "time_governor \<Rightarrow> int \<Rightarrow> (tg_error, time_step) res" where
  "get_step tg i =
     (if 0 \<le> i \<and> recent_steps tg = [] then Inl TableOverrun
      else let back_idx = (if i < 0 then nat (- i - 1)
               else unat (step_index (recent_steps tg ! 0) - word_of_int i)) in
        if length (recent_steps tg) \<le> back_idx
        then Inl (ExcMissingTimeStep i back_idx (length (recent_steps tg)))
        else Inr (recent_steps tg ! back_idx))"

abbreviation cur_step :: "time_governor \<Rightarrow> (tg_error, time_step) res" where
  "cur_step tg \<equiv> get_step tg (-1)"

definition last_dt :: "time_governor \<Rightarrow> (tg_error, double) res" where
  "last_dt tg = bind_res (cur_step tg) (\<lambda>st.
     if 0 < step_index st then bind_res (get_step tg (-2)) (\<lambda>p. Inr (step_length p)) else Inr inf_time)"

definition last_t :: "time_governor \<Rightarrow> (tg_error, double) res" where
  "last_t tg = bind_res (cur_step tg) (\<lambda>st.
     if 0 < step_index st then bind_res (get_step tg (-2)) (\<lambda>p. Inr (step_end p))
     else Inr (step_end st - step_length st))"

definition is_end :: "time_governor \<Rightarrow> time_step \<Rightarrow> bool" where
  "is_end tg st \<longleftrightarrow> step_ge st (end_time tg) \<or> deq (step_end st) inf_time"

definition equation_fixed_mark_type :: "time_marks \<Rightarrow> time_governor \<Rightarrow> (tg_error, mark_type) res" where
  "equation_fixed_mark_type tms tg = map_err MarksError (type_or (eq_mark_type tg) (type_fixed_time tms))"

definition next_fixed_time :: "time_marks \<Rightarrow> time_governor \<Rightarrow> time_step \<Rightarrow> (tg_error, double) res" where
  "next_fixed_time tms tg st =
     bind_res (equation_fixed_mark_type tms tg) (\<lambda>ft.
       map_err MarksError
         (bind_res (next_mark tms st (eq_mark_type tg) ft) (\<lambda>it.
            bind_res (deref it) (\<lambda>m. Inr (mark_time m)))))"

definition is_current :: "time_marks \<Rightarrow> time_governor \<Rightarrow> mark_type \<Rightarrow> (tg_error, bool) res" where
  "is_current tms tg msk =
     bind_res (map_err MarksError (type_or (eq_mark_type tg) msk)) (\<lambda>ty.
       bind_res (cur_step tg) (\<lambda>st.
         map_err MarksError
           (bind_res (current_mark tms st ty) (\<lambda>it.
              bind_res (end_mark tms ty) (\<lambda>e. Inr (it_pos it \<noteq> it_pos e))))))"

definition is_default :: "time_governor \<Rightarrow> bool" where
  "is_default tg \<longleftrightarrow>
     deq (end_time tg) max_end_time \<and> deq (max_time_step tg) (end_time tg - init_time tg)"

section \<open>Constraints\<close>

definition set_permanent_constraint :: "time_governor \<Rightarrow> (tg_error, time_governor) res" where
  "set_permanent_constraint tg =
     bind_res (vec_at TableOverrun (dt_limits_table tg) (dt_limits_pos tg)) (\<lambda>row.
       bind_res (cur_step tg) (\<lambda>st.
         let lo = std_max (row_min_dt row) time_step_precision;
             up = std_min (row_max_dt row) (end_time tg - step_end st)
         in Inr (tg\<lparr>min_time_step := lo, lower_constraint := lo,
                    lower_constraint_message := ''Permanent minimal constraint, custom.'',
                    max_time_step := up, upper_constraint := up,
                    upper_constraint_message := ''Permanent maximal constraint, custom.'',
                    dt_limits_pos := Suc (dt_limits_pos tg)\<rparr>)))"

definition set_upper_constraint :: "time_governor \<Rightarrow> double \<Rightarrow> string \<Rightarrow> int \<times> time_governor" where
  "set_upper_constraint tg upper message =
     (if upper_constraint tg < upper then (-1, tg)
      else if upper < lower_constraint tg
      then (1, tg\<lparr>upper_constraint := lower_constraint tg,
                  upper_constraint_message := ''Forced lower constraint. '' @ message\<rparr>)
      else (0, tg\<lparr>upper_constraint := upper, upper_constraint_message := message\<rparr>))"

definition set_lower_constraint :: "time_governor \<Rightarrow> double \<Rightarrow> string \<Rightarrow> int \<times> time_governor" where
  "set_lower_constraint tg lower message =
     (if upper_constraint tg < lower then (-1, tg\<lparr>lower_constraint := upper_constraint tg\<rparr>)
      else if lower < lower_constraint tg then (1, tg)
      else (0, tg\<lparr>lower_constraint := lower, lower_constraint_message := message\<rparr>))"

section \<open>Choice of the step and advance in time\<close>

definition round_step :: "double \<Rightarrow> double \<Rightarrow> double \<Rightarrow> double" where
  "round_step full_step step_estimate last_length =
     (let n_steps = dceil (full_step / step_estimate - time_step_precision);
          s = full_step / n_steps
      in if Fin 1 < n_steps \<and> \<bar>s - last_length\<bar> < time_step_precision then last_length else s)"

definition estimate_step :: "time_governor \<Rightarrow> time_step \<Rightarrow> double \<Rightarrow> double" where
  "estimate_step tg st fix_time =
     (let full_step = fix_time - step_end st;
          step_estimate = std_max (std_min full_step (upper_constraint tg)) (lower_constraint tg)
      in if deq step_estimate inf_time then step_estimate
         else round_step full_step step_estimate (step_length st))"

definition estimate_dt :: "time_marks \<Rightarrow> time_governor \<Rightarrow> (tg_error, double) res" where
  "estimate_dt tms tg =
     bind_res (cur_step tg) (\<lambda>st.
       if is_end tg st then Inr 0
       else if step_lt st (end_of_fixed_dt_interval tg) then Inr (fixed_time_step tg)
       else bind_res (next_fixed_time tms tg st) (\<lambda>fix_time. Inr (estimate_step tg st fix_time)))"

definition estimate_time :: "time_marks \<Rightarrow> time_governor \<Rightarrow> (tg_error, double) res" where
  "estimate_time tms tg =
     bind_res (cur_step tg) (\<lambda>st. bind_res (estimate_dt tms tg) (\<lambda>dt. Inr (step_end st + dt)))"

definition fix_dt_until_mark :: "time_marks \<Rightarrow> time_governor \<Rightarrow> (tg_error, double \<times> time_governor) res" where
  "fix_dt_until_mark tms tg =
     (if steady tg then Inr (0, tg)
      else let tg1 = tg\<lparr>end_of_fixed_dt_interval := - inf_time\<rparr> in
        bind_res (estimate_dt tms tg1) (\<lambda>dt.
          let tg2 = tg1\<lparr>fixed_time_step := dt, is_time_step_fixed := True\<rparr> in
          bind_res (cur_step tg2) (\<lambda>st.
            bind_res (next_fixed_time tms tg2 st) (\<lambda>t.
              Inr (t, tg2\<lparr>end_of_fixed_dt_interval := t\<rparr>)))))"

definition length_changed :: "time_governor \<Rightarrow> (tg_error, bool) res" where
  "length_changed tg =
     bind_res (get_step tg (-2)) (\<lambda>p. bind_res (cur_step tg) (\<lambda>c.
       Inr (\<not> deq (step_length p) (step_length c))))"

text \<open>The step inside an interval with a fixed step.\<close>

definition fixed_advance :: "time_governor \<Rightarrow> time_step \<Rightarrow> (tg_error, time_governor) res" where
  "fixed_advance tg st =
     (let rest = end_of_fixed_dt_interval tg - step_end st;
          tg1 = (if end_of_fixed_dt_interval tg < inf_time
                 then tg\<lparr>fixed_time_step := rest / dround (rest / fixed_time_step tg)\<rparr> else tg);
          tg2 = tg1\<lparr>recent_steps := push_step (make_next st (fixed_time_step tg1)) (recent_steps tg1)\<rparr>
      in if is_time_step_fixed tg2
         then bind_res (length_changed tg2) (\<lambda>ch.
                Inr (tg2\<lparr>is_time_step_fixed := False, time_step_changed := ch\<rparr>))
         else Inr (tg2\<lparr>time_step_changed := False\<rparr>))"

definition free_advance :: "time_marks \<Rightarrow> time_governor \<Rightarrow> time_step \<Rightarrow> (tg_error, time_governor) res" where
  "free_advance tms tg st =
     bind_res (estimate_dt tms tg) (\<lambda>dt.
       let tg2 = tg\<lparr>recent_steps := push_step (make_next st dt) (recent_steps tg)\<rparr> in
       bind_res (length_changed tg2) (\<lambda>ch. Inr (tg2\<lparr>time_step_changed := ch\<rparr>)))"

definition reset_constraints :: "time_governor \<Rightarrow> time_step \<Rightarrow> time_governor" where
  "reset_constraints tg st =
     tg\<lparr>last_lower_constraint := lower_constraint tg, last_upper_constraint := upper_constraint tg,
        upper_constraint := std_min (end_time tg - step_end st) (max_time_step tg),
        lower_constraint := min_time_step tg,
        lower_constraint_message := ''Permanent minimal constraint, in next time.'',
        upper_constraint_message := ''Permanent maximal constraint, in next time.''\<rparr>"

definition write_timestep :: "time_governor \<Rightarrow> time_step \<Rightarrow> time_governor" where
  "write_timestep tg st =
     (if timesteps_output_file tg \<and> timestep_output tg \<and> last_printed_timestep tg < step_end st
      then tg\<lparr>timesteps_output := timesteps_output tg @
                [if is_end tg st then (step_end st, Fin 0, Fin 0)
                 else (step_end st, lower_constraint tg, upper_constraint tg)],
              last_printed_timestep := step_end st\<rparr>
      else tg)"

definition next_time :: "time_marks \<Rightarrow> time_governor \<Rightarrow> (tg_error, time_governor) res" where
  "next_time tms tg =
     bind_res (cur_step tg) (\<lambda>st.
       if is_end tg st then Inr tg
       else bind_res (if step_lt st (end_of_fixed_dt_interval tg)
                      then fixed_advance tg st else free_advance tms tg st) (\<lambda>tg1.
         bind_res (cur_step tg1) (\<lambda>st1.
           let tg2 = reset_constraints tg1 st1 in
           bind_res (vec_at TableOverrun (dt_limits_table tg2) (dt_limits_pos tg2)) (\<lambda>row.
             bind_res (if row_time row \<le> step_end st1 then set_permanent_constraint tg2 else Inr tg2)
               (\<lambda>tg3. Inr (write_timestep tg3 st1))))))"

definition reduce_timestep ::
  "time_marks \<Rightarrow> time_governor \<Rightarrow> double \<Rightarrow> (tg_error, double \<times> time_governor) res" where
  "reduce_timestep tms tg reduction =
     bind_res (cur_step tg) (\<lambda>st.
       let prior_dt = step_length st;
           tg1 = tg\<lparr>recent_steps := tl (recent_steps tg),
                    upper_constraint := last_upper_constraint tg,
                    lower_constraint := last_lower_constraint tg\<rparr>;
           (current_minus_new, tg2) = set_upper_constraint tg1 (reduction * prior_dt) ''Reduce time step.''
       in if current_minus_new < 0 then Inl (ExcMessage ''Internal error.'')
          else bind_res (next_time tms tg2) (\<lambda>tg3.
            bind_res (cur_step tg3) (\<lambda>st3. Inr (step_length st3 / prior_dt, tg3))))"

section \<open>Limits of the step\<close>

text \<open>One row of the \<open>dt_limits\<close> array; the state is the database of marks and the governor.\<close>

definition add_limit ::
  "convert_time \<Rightarrow> double \<Rightarrow> double \<Rightarrow> bool \<Rightarrow> time_marks \<times> time_governor \<Rightarrow> limit_input \<Rightarrow>
     (tg_error, time_marks \<times> time_governor) res" where
  "add_limit conv min_dt max_dt first_step s row =
     (let (tms, tg) = s in
      bind_res (read_time conv (tg_unit tg) (Some (lim_time row)) NaN) (\<lambda>time.
        let tg1 = (if first_step \<and> init_time tg < time
              then tg\<lparr>dt_limits_table := dt_limits_table tg @
                     [\<lparr>row_time = init_time tg, row_min_dt = min_dt, row_max_dt = max_dt\<rparr>]\<rparr>
              else tg) in
        if dt_limits_table tg1 \<noteq> [] \<and> time \<le> row_time (last (dt_limits_table tg1)) then Inr (tms, tg1)
        else if end_time tg1 < time then Inr (tms, tg1)
        else bind_res (read_time conv (tg_unit tg) (lim_min_dt row) (Fin 0)) (\<lambda>mn0.
          bind_res (read_time conv (tg_unit tg) (lim_max_dt row) (Fin 0)) (\<lambda>mx0.
            let mn = (if deq mn0 (Fin 0) then min_dt else mn0);
                mx = (if deq mx0 (Fin 0) then max_dt else mx0) in
            if mn < time_step_precision
            then Inl (ExcTimeGovernorMessage ''min_dt in dt_limits smaller than machine precision.'')
            else if mx < mn
            then Inl (ExcTimeGovernorMessage ''max_dt in dt_limits smaller than min_dt.'')
            else let tg2 = tg1\<lparr>dt_limits_table := dt_limits_table tg1 @
                     [\<lparr>row_time = time, row_min_dt = mn, row_max_dt = mx\<rparr>]\<rparr> in
              if limits_time_marks tg2
              then bind_res (equation_fixed_mark_type tms tg2) (\<lambda>ft.
                bind_res (map_err MarksError (add_mark tms \<lparr>mark_time = time, mtype = ft\<rparr>)) (\<lambda>r.
                  Inr (snd r, tg2)))
              else Inr (tms, tg2)))))"

fun add_limits ::
  "convert_time \<Rightarrow> double \<Rightarrow> double \<Rightarrow> bool \<Rightarrow> time_marks \<times> time_governor \<Rightarrow> limit_input list \<Rightarrow>
     (tg_error, time_marks \<times> time_governor) res" where
  "add_limits conv min_dt max_dt first_step s [] = Inr s"
| "add_limits conv min_dt max_dt first_step s (row # rows) =
     bind_res (add_limit conv min_dt max_dt first_step s row) (\<lambda>s'.
       add_limits conv min_dt max_dt False s' rows)"

text \<open>The search for the first row after the initial time reads the row after the position.\<close>

fun find_limits_pos :: "double \<Rightarrow> nat \<Rightarrow> dt_limit_row list \<Rightarrow> (tg_error, nat) res" where
  "find_limits_pos t pos [] = Inl TableOverrun"
| "find_limits_pos t pos (row # rows) =
     (if row_time row \<le> t then find_limits_pos t (Suc pos) rows else Inr pos)"

definition set_dt_limits ::
  "convert_time \<Rightarrow> time_marks \<Rightarrow> time_governor \<Rightarrow> double \<Rightarrow> double \<Rightarrow> limit_input list \<Rightarrow>
     (tg_error, time_marks \<times> time_governor) res" where
  "set_dt_limits conv tms tg min_dt max_dt dt_limits_list =
     (if min_dt < time_step_precision
      then Inl (ExcTimeGovernorMessage ''min_dt smaller than machine precision.'')
      else if max_dt < min_dt
      then Inl (ExcTimeGovernorMessage ''max_dt smaller than min_dt.'')
      else bind_res (add_limits conv min_dt max_dt True (tms, tg\<lparr>dt_limits_table := []\<rparr>) dt_limits_list)
        (\<lambda>(tms1, tg1).
          let row = (\<lambda>t. \<lparr>row_time = t, row_min_dt = min_dt, row_max_dt = max_dt\<rparr>);
              tb1 = (if dt_limits_table tg1 = [] then [row (init_time tg1)] else dt_limits_table tg1);
              tb2 = (if row_time (last tb1) < end_time tg1 then tb1 @ [row (end_time tg1)] else tb1)
          in bind_res (find_limits_pos (init_time tg1) 0 (tl tb2)) (\<lambda>pos.
               bind_res (set_permanent_constraint (tg1\<lparr>dt_limits_table := tb2, dt_limits_pos := pos\<rparr>))
                 (\<lambda>tg2. Inr (tms1, tg2)))))"

section \<open>Constructors\<close>

text \<open>Members a constructor does not initialise before \<open>init_common\<close> hold no meaningful value.\<close>

definition raw_governor :: "time_unit_conversion \<Rightarrow> bool \<Rightarrow> bool \<Rightarrow> time_governor" where
  "raw_governor tuc ts_output limits_marks =
     \<lparr>recent_steps = [], init_time = NaN, end_of_fixed_dt_interval = NaN, end_time = NaN,
      fixed_time_step = NaN, is_time_step_fixed = False, time_step_changed = False,
      upper_constraint_message = [], lower_constraint_message = [],
      upper_constraint = NaN, lower_constraint = NaN, max_time_step = NaN, min_time_step = NaN,
      last_upper_constraint = NaN, last_lower_constraint = NaN, eq_mark_type = default_type,
      steady = False, tg_unit = tuc, dt_limits_table = [], dt_limits_pos = 0,
      timesteps_output_file = False, timesteps_output = [], last_printed_timestep = NaN,
      timestep_output = ts_output, limits_time_marks = limits_marks\<rparr>"

definition add_fixed_mark ::
  "time_marks \<Rightarrow> time_governor \<Rightarrow> double \<Rightarrow> (tg_error, time_marks) res" where
  "add_fixed_mark tms tg t =
     bind_res (equation_fixed_mark_type tms tg) (\<lambda>ft.
       bind_res (map_err MarksError (add_mark tms \<lparr>mark_time = t, mtype = ft\<rparr>)) (\<lambda>r. Inr (snd r)))"

definition init_common ::
  "time_marks \<Rightarrow> time_governor \<Rightarrow> double \<Rightarrow> double \<Rightarrow> mark_type \<Rightarrow>
     (tg_error, time_marks \<times> time_governor) res" where
  "init_common tms tg init_t end_t ty =
     (if init_t < Fin 0
      then Inl (ExcTimeGovernorMessage ''Start time has to be greater or equal to 0.0'')
      else if end_t < init_t
      then Inl (ExcTimeGovernorMessage ''End time must be greater than start time.'')
      else let tg1 = tg\<lparr>recent_steps := [zero_step init_t (tg_unit tg)], init_time := init_t,
                 end_time := end_t, fixed_time_step := Fin 0, is_time_step_fixed := False,
                 time_step_changed := True, end_of_fixed_dt_interval := init_t,
                 min_time_step := time_step_precision, lower_constraint := time_step_precision,
                 lower_constraint_message := ''Permanent minimal constraing, default, time_step_precision.'',
                 max_time_step := end_t - init_t, upper_constraint := end_t - init_t,
                 upper_constraint_message := ''Permanent maximal constraint, default, total simulation time.'',
                 eq_mark_type := ty, steady := False\<rparr> in
        bind_res (add_fixed_mark tms tg1 init_t) (\<lambda>tms1.
          bind_res (add_fixed_mark tms1 tg1 end_t) (\<lambda>tms2. Inr (tms2, tg1))))"

definition choose_mark_type ::
  "time_marks \<Rightarrow> mark_type \<Rightarrow> (tg_error, mark_type \<times> time_marks) res" where
  "choose_mark_type tms ty =
     (if type_eq ty none_type then map_err MarksError (new_mark_type tms) else Inr (ty, tms))"

definition clip_end_time :: "double \<Rightarrow> double" where
  "clip_end_time t = (if Fin (99/100) * max_end_time < t then max_end_time else t)"

definition first_output :: "bool \<Rightarrow> time_governor \<Rightarrow> time_step \<Rightarrow> time_governor" where
  "first_output write tg st =
     (if timestep_output tg \<and> write
      then tg\<lparr>timesteps_output_file := True,
              timesteps_output := [(step_end st, row_min_dt (dt_limits_table tg ! 0),
                 row_max_dt (dt_limits_table tg ! 0))],
              last_printed_timestep := step_end st\<rparr>
      else tg)"

definition apply_init_dt :: "double \<Rightarrow> time_governor \<Rightarrow> time_governor" where
  "apply_init_dt init_dt tg =
     (if Fin 0 < init_dt
      then tg\<lparr>lower_constraint := init_dt,
              lower_constraint_message := ''Initial time step set by user.'',
              upper_constraint := init_dt,
              upper_constraint_message := ''Initial time step set by user.''\<rparr>
      else tg)"

definition governor_from_input ::
  "convert_time \<Rightarrow> time_marks \<Rightarrow> tg_input \<Rightarrow> mark_type \<Rightarrow> bool \<Rightarrow>
     (tg_error, time_marks \<times> time_governor) res" where
  "governor_from_input conv tms inp ty ts_output =
     bind_res (choose_mark_type tms ty) (\<lambda>(eq_type, tms1).
     bind_res (unit_conversion conv (in_common_time_unit inp)) (\<lambda>tuc.
     bind_res (read_time conv tuc (Some (in_end_time inp)) NaN) (\<lambda>end_t.
     bind_res (read_time conv tuc (Some (in_start_time inp)) NaN) (\<lambda>start_t.
     bind_res (init_common tms1 (raw_governor tuc ts_output (in_add_dt_limits_time_marks inp))
                 start_t (clip_end_time end_t) eq_type) (\<lambda>(tms2, tg1).
     bind_res (read_time conv tuc (in_min_dt inp) (min_time_step tg1)) (\<lambda>min_dt.
     bind_res (read_time conv tuc (in_max_dt inp) (max_time_step tg1)) (\<lambda>max_dt.
     bind_res (set_dt_limits conv tms2 tg1 min_dt max_dt (in_dt_limits inp)) (\<lambda>(tms3, tg2).
     bind_res (cur_step tg2) (\<lambda>st.
     bind_res (read_time conv tuc (Some (in_init_dt inp)) NaN) (\<lambda>init_dt.
       Inr (tms3, apply_init_dt init_dt (first_output (in_write_used_timesteps inp) tg2 st))))))))))))"

definition governor_fixed_dt ::
  "time_marks \<Rightarrow> double \<Rightarrow> double \<Rightarrow> (tg_error, time_marks \<times> time_governor) res" where
  "governor_fixed_dt tms init_t dt =
     bind_res (init_common tms (raw_governor default_unit_conversion False False)
                 init_t inf_time every_type) (\<lambda>(tms1, tg).
       if dt < time_step_precision
       then Inl (ExcTimeGovernorMessage ''Fixed time step smaller then machine precision.'')
       else Inr (tms1, tg\<lparr>fixed_time_step := dt, is_time_step_fixed := True, time_step_changed := True,
              end_of_fixed_dt_interval := inf_time,
              dt_limits_table := [\<lparr>row_time = init_t, row_min_dt = dt, row_max_dt = dt\<rparr>,
                                  \<lparr>row_time = inf_time, row_min_dt = dt, row_max_dt = dt\<rparr>],
              lower_constraint := dt, min_time_step := dt,
              lower_constraint_message := ''Initial time step set by user.'',
              upper_constraint := dt, max_time_step := dt,
              upper_constraint_message := ''Initial time step set by user.''\<rparr>))"

definition governor_steady ::
  "time_marks \<Rightarrow> double \<Rightarrow> mark_type \<Rightarrow> (tg_error, time_marks \<times> time_governor) res" where
  "governor_steady tms init_t ty =
     bind_res (choose_mark_type tms ty) (\<lambda>(eq_type, tms1).
     bind_res (init_common tms1 (raw_governor default_unit_conversion False False)
                 init_t inf_time eq_type) (\<lambda>(tms2, tg).
       Inr (tms2, tg\<lparr>dt_limits_table :=
              [\<lparr>row_time = init_t, row_min_dt = min_time_step tg, row_max_dt = max_time_step tg\<rparr>,
               \<lparr>row_time = inf_time, row_min_dt = min_time_step tg, row_max_dt = max_time_step tg\<rparr>],
              steady := True\<rparr>)))"

definition add_time_marks_grid ::
  "time_marks \<Rightarrow> time_governor \<Rightarrow> double \<Rightarrow> mark_type \<Rightarrow> (tg_error, time_marks) res" where
  "add_time_marks_grid tms tg step ty =
     (if deq (end_time tg) inf_time
      then Inl (ExcTimeGovernorMessage
        ''Missing end time for making output grid required by key time_step of the output stream.'')
      else bind_res (map_err MarksError (type_or ty (eq_mark_type tg))) (\<lambda>t.
        bind_res (map_err MarksError (add_time_marks tms (init_time tg) step (end_time tg) t)) (\<lambda>tms1.
        bind_res (map_err MarksError (add_mark tms1 \<lparr>mark_time = init_time tg, mtype = t\<rparr>)) (\<lambda>r2.
        bind_res (map_err MarksError (add_mark (snd r2) \<lparr>mark_time = end_time tg, mtype = t\<rparr>)) (\<lambda>r3.
          Inr (snd r3))))))"

section \<open>The constraints\<close>

definition clamp :: "double \<Rightarrow> double \<Rightarrow> double \<Rightarrow> double" where
  "clamp lo up x = (if x < lo then lo else if up < x then up else x)"

lemma get_step_head: "recent_steps tg = s # ss \<Longrightarrow> get_step tg (-1) = Inr s"
  by (simp add: get_step_def)

lemma get_step_second: "recent_steps tg = s # r # ss \<Longrightarrow> get_step tg (-2) = Inr r"
  by (simp add: get_step_def)

section \<open>The number of steps to a mark\<close>

definition precision :: real where
  "precision = 16 * epsilon"

lemma precision_pos [simp]: "0 < precision" "0 \<le> precision"
  by (simp_all add: precision_def)

lemma precision_small: "precision < 1 / 10000"
  using epsilon_small by (simp add: precision_def)

lemma time_step_precision_Fin: "time_step_precision = Fin precision"
  by (simp add: time_step_precision_def precision_def)

definition step_count :: "real \<Rightarrow> real \<Rightarrow> int" where
  "step_count full est = \<lceil>full / est - precision\<rceil>"

lemma step_count_pos:
  assumes "0 < est" and "precision * est < full"
  shows "1 \<le> step_count full est"
proof -
  have "precision < full / est" using assms by (simp add: pos_less_divide_eq)
  then show ?thesis unfolding step_count_def by linarith
qed

lemma step_count_upper:
  assumes "0 < est"
  shows "full \<le> of_int (step_count full est) * est + precision * est"
proof -
  have "full / est \<le> of_int (step_count full est) + precision"
    unfolding step_count_def by linarith
  then have "full \<le> (of_int (step_count full est) + precision) * est"
    using assms by (simp add: pos_divide_le_eq)
  then show ?thesis by (simp add: algebra_simps)
qed

lemma step_count_lower:
  assumes "0 < est" and "precision * est < full"
  shows "(of_int (step_count full est) - 1) * est < full"
proof -
  have "of_int (step_count full est) - 1 < full / est - precision"
    unfolding step_count_def by linarith
  also have "\<dots> < full / est" by simp
  finally show ?thesis using assms(1) by (simp add: pos_less_divide_eq)
qed

text \<open>A step is at least half of the estimate, or the whole distance.\<close>

lemma step_count_length:
  assumes "0 < est" and "precision * est < full" and "1 < step_count full est"
  shows "est / 2 < full / of_int (step_count full est)" "est < full"
proof -
  let ?n = "real_of_int (step_count full est)"
  have n: "2 \<le> ?n" using assms(3) by simp
  have lo: "(?n - 1) * est < full" using step_count_lower [OF assms(1,2)] .
  have "?n / 2 * est \<le> (?n - 1) * est" using n assms(1) by (intro mult_right_mono) auto
  with lo have "est / 2 * ?n < full" by (simp add: algebra_simps)
  then show "est / 2 < full / ?n" using n by (simp add: pos_less_divide_eq)
  have "1 * est \<le> (?n - 1) * est" using n assms(1) by (intro mult_right_mono) auto
  with lo show "est < full" by simp
qed

lemma round_step_Fin:
  assumes "0 < est" and "precision * est < full"
  shows "round_step (Fin full) (Fin est) (Fin l) =
    (let n = step_count full est; s = full / of_int n
     in if 1 < n \<and> \<bar>s - l\<bar> < precision then Fin l else Fin s)"
proof -
  have n: "1 \<le> \<lceil>full / est - precision\<rceil>" using step_count_pos [OF assms] by (simp add: step_count_def)
  then have "real_of_int \<lceil>full / est - precision\<rceil> \<noteq> 0" by linarith
  moreover have "(1 < \<lceil>full / est - precision\<rceil>) = (1 < real_of_int \<lceil>full / est - precision\<rceil>)"
    by simp
  ultimately show ?thesis using assms(1)
    by (simp add: round_step_def time_step_precision_Fin Let_def step_count_def del: less_ceiling_iff one_less_ceiling)
qed

definition step_bound :: "real \<Rightarrow> double \<Rightarrow> real \<Rightarrow> real" where
  "step_bound full up lo = dval (std_max (std_min (Fin full) up) (Fin lo))"

lemma step_bound_Fin: "std_max (std_min (Fin full) up) (Fin lo) = Fin (step_bound full up lo)"
  by (cases up) (auto simp: step_bound_def std_min_def std_max_def)

lemma step_bound_range:
  "lo \<le> step_bound full up lo" "step_bound full up lo \<le> max full lo"
  "up = Fin u \<Longrightarrow> step_bound full up lo \<le> max u lo"
  by (cases up; auto simp: step_bound_def std_min_def std_max_def)+

lemma estimate_step_Fin:
  assumes "step_end st = Fin e" and "step_length st = Fin l" and "lower_constraint tg = Fin lo"
    and "0 < lo" and "precision * lo < f - e"
  shows "estimate_step tg st (Fin f) =
    (let n = step_count (f - e) (step_bound (f - e) (upper_constraint tg) lo);
         s = (f - e) / of_int n
     in if 1 < n \<and> \<bar>s - l\<bar> < precision then Fin l else Fin s)"
    "precision * step_bound (f - e) (upper_constraint tg) lo < f - e"
proof -
  let ?b = "step_bound (f - e) (upper_constraint tg) lo"
  have pos: "0 < f - e" using mult_pos_pos [OF precision_pos(1) assms(4)] assms(5) by linarith
  have "precision * (f - e) < 1 * (f - e)"
    using pos precision_small by (intro mult_strict_right_mono) auto
  then have "precision * max (f - e) lo < f - e" using assms(5) by (simp add: max_def)
  moreover have "precision * ?b \<le> precision * max (f - e) lo"
    using step_bound_range(2) by (intro mult_left_mono) auto
  ultimately show b: "precision * ?b < f - e" by linarith
  have "0 < ?b" using step_bound_range(1) [of lo] assms(4) by (meson less_le_trans)
  then show "estimate_step tg st (Fin f) =
    (let n = step_count (f - e) ?b; s = (f - e) / of_int n
     in if 1 < n \<and> \<bar>s - l\<bar> < precision then Fin l else Fin s)"
    using round_step_Fin [OF _ b, of l] assms(1-3)
    by (simp add: estimate_step_def Let_def step_bound_Fin deq_def inf_time_def)
qed

section \<open>The search for fixed marks as an interface\<close>

text \<open>
  What the governor needs of the time marks: in a sound database the search from a step
  returns a known time later than the step, and no known later time is skipped.
\<close>

locale mark_search =
  fixes db_ok :: "'db \<Rightarrow> bool"
    and has_time :: "'db \<Rightarrow> double \<Rightarrow> bool"
    and search :: "'db \<Rightarrow> time_step \<Rightarrow> ('e, double) res"
  assumes search_total: "db_ok db \<Longrightarrow> \<exists>t. search db st = Inr t \<and> has_time db t \<and> step_lt st t"
    and search_first: "db_ok db \<Longrightarrow> search db st = Inr t \<Longrightarrow> has_time db t' \<Longrightarrow> step_lt st t' \<Longrightarrow> t \<le> t'"
begin

lemma search_before:
  assumes "db_ok db" and "step_end st = Fin e" and "has_time db (Fin x)" and "step_lt st (Fin x)"
  obtains f where "search db st = Inr (Fin f)" "has_time db (Fin f)" "step_lt st (Fin f)" "f \<le> x"
    "tolerance e f < f - e"
proof -
  obtain t where t: "search db st = Inr t" "has_time db t" "step_lt st t"
    using search_total [OF assms(1)] by blast
  have "t \<le> Fin x" using search_first [OF assms(1) t(1) assms(3,4)] .
  moreover have "t \<noteq> MInf" using t(3) assms(2) by (auto simp: step_lt_def)
  ultimately obtain f where f: "t = Fin f" by (cases t) auto
  moreover have "tolerance e f < f - e" using t(3) f assms(2) by (auto simp: step_lt_def)
  ultimately show thesis using that t \<open>t \<le> Fin x\<close> by simp
qed

end

definition fixed_type :: "time_governor \<Rightarrow> mark_type" where
  "fixed_type tg = \<lparr>bitmap = bitmap (eq_mark_type tg) OR 1, equation_index = equation_index (eq_mark_type tg)\<rparr>"

definition equation_marks :: "time_marks \<Rightarrow> time_governor \<Rightarrow> time_mark list" where
  "equation_marks tms tg = marks tms ! unat (equation_index (eq_mark_type tg))"

definition is_fixed_time :: "time_marks \<Rightarrow> time_governor \<Rightarrow> double \<Rightarrow> bool" where
  "is_fixed_time tms tg t \<longleftrightarrow>
     list_ex (\<lambda>m. mark_time m = t \<and> match_mask m (fixed_type tg)) (equation_marks tms tg)"

definition marks_known :: "time_marks \<Rightarrow> time_governor \<Rightarrow> bool" where
  "marks_known tms tg \<longleftrightarrow>
     tms_ok tms \<and> unat (equation_index (eq_mark_type tg)) < length (marks tms)"

lemma equation_fixed_mark_type_eq:
  "tms_ok tms \<Longrightarrow> equation_fixed_mark_type tms tg = Inr (fixed_type tg)"
  by (simp add: equation_fixed_mark_type_def tms_ok_def type_or_def reinit_def fixed_type_def
      map_err_def)

lemma next_fixed_time_found:
  assumes "marks_known tms tg"
  obtains m where "next_fixed_time tms tg st = Inr (mark_time m)" "m \<in> set (equation_marks tms tg)"
    "match_mask m (fixed_type tg)" "step_lt st (mark_time m)"
    "\<And>m'. m' \<in> set (equation_marks tms tg) \<Longrightarrow> match_mask m' (fixed_type tg) \<Longrightarrow>
       step_lt st (mark_time m') \<Longrightarrow> mark_time m \<le> mark_time m'"
proof -
  let ?ms = "equation_marks tms tg" and ?ft = "fixed_type tg"
  have ok: "tms_ok tms" and i: "unat (equation_index ?ft) < length (marks tms)"
    and ei: "equation_index (eq_mark_type tg) = equation_index ?ft"
    using assms by (simp_all add: marks_known_def fixed_type_def)
  have ms: "marks tms ! unat (equation_index ?ft) = ?ms"
    by (simp add: equation_marks_def fixed_type_def)
  have mok: "marks_ok (equation_index ?ft) ?ms" using tms_ok_marks_ok [OF ok i] ms by simp
  obtain m p where n: "next_mark tms st (eq_mark_type tg) ?ft = Inr \<lparr>it_marks = ?ms, it_pos = p, it_mask = ?ft\<rparr>"
    and p: "p < length ?ms" "?ms ! p = m" and m: "step_lt st (mark_time m)" "match_mask m ?ft"
    and before: "\<And>q. q < p \<Longrightarrow> \<not> (step_lt st (mark_time (?ms ! q)) \<and> match_mask (?ms ! q) ?ft)"
    using next_mark_found [OF ok i ei, of st] unfolding ms by metis
  have "mark_time m \<le> mark_time m'"
    if m': "m' \<in> set ?ms" "match_mask m' ?ft" "step_lt st (mark_time m')" for m'
  proof -
    from m'(1) obtain q where q: "q < length ?ms" "?ms ! q = m'" by (auto simp: in_set_conv_nth)
    with before m' have "p \<le> q" by (meson not_le)
    then show ?thesis
      using marks_ok_nth [OF mok, of p q] p q marks_ok_not_NaN [OF mok m'(1)]
      by (cases "p = q") (auto simp: mark_before_def le_double_refl)
  qed
  moreover have "next_fixed_time tms tg st = Inr (mark_time m)"
    using n p ok by (simp add: next_fixed_time_def equation_fixed_mark_type_eq deref_def vec_at_def map_err_def)
  ultimately show thesis using that p m by (metis nth_mem)
qed

interpretation fixed: mark_search
  "\<lambda>(tms, tg). marks_known tms tg" "\<lambda>(tms, tg). is_fixed_time tms tg"
  "\<lambda>(tms, tg). next_fixed_time tms tg"
proof (unfold_locales, goal_cases)
  case (1 db st)
  then show ?case
    by (cases db) (auto simp: is_fixed_time_def list_ex_iff elim!: next_fixed_time_found [of _ _ st])
next
  case (2 db st t t')
  obtain tms tg where db: "db = (tms, tg)" by fastforce
  from 2 show ?case unfolding db split is_fixed_time_def list_ex_iff
    by (metis (no_types, lifting) next_fixed_time_found sum.inject(2))
qed

section \<open>The governor's invariant\<close>

text \<open>
  A lower limit is usable at time \<open>e\<close> when it is at least the precision and no fixed mark
  after \<open>e\<close> comes sooner (from time zero) than the limit minus one second: then the number of
  steps to the next mark never rounds to zero.
\<close>

definition limit_ok :: "time_marks \<Rightarrow> time_governor \<Rightarrow> double \<Rightarrow> double \<Rightarrow> bool" where
  "limit_ok tms tg e lo \<longleftrightarrow>
     is_fin lo \<and> time_step_precision \<le> lo \<and>
     list_all (\<lambda>m. match_mask m (fixed_type tg) \<and> e < mark_time m \<longrightarrow> lo \<le> Fin 1 + mark_time m)
       (equation_marks tms tg)"

definition current_ok :: "time_marks \<Rightarrow> time_governor \<Rightarrow> time_step \<Rightarrow> bool" where
  "current_ok tms tg st \<longleftrightarrow>
     is_fin (step_end st) \<and> is_fin (step_length st) \<and> Fin (precision / 2) \<le> step_length st \<and>
     \<not> step_lt st (end_of_fixed_dt_interval tg) \<and>
     limit_ok tms tg (step_end st) (lower_constraint tg) \<and>
     limit_ok tms tg (step_end st) (min_time_step tg) \<and>
     list_all (\<lambda>row. limit_ok tms tg (step_end st) (row_min_dt row)) (dt_limits_table tg) \<and>
     (dt_limits_pos tg < length (dt_limits_table tg) \<or> is_end tg st)"

definition governor_ok :: "time_marks \<Rightarrow> time_governor \<Rightarrow> bool" where
  "governor_ok tms tg \<longleftrightarrow>
     marks_known tms tg \<and> is_fin (end_time tg) \<and> is_fixed_time tms tg (end_time tg) \<and>
     dt_limits_table tg \<noteq> [] \<and> row_time (last (dt_limits_table tg)) = end_time tg \<and>
     length (recent_steps tg) \<le> size_of_recent_steps \<and>
     end_of_fixed_dt_interval tg \<noteq> NaN \<and> end_of_fixed_dt_interval tg \<noteq> PInf \<and>
     (case recent_steps tg of [] \<Rightarrow> False | st # _ \<Rightarrow> current_ok tms tg st)"

lemma limit_ok_later:
  assumes "limit_ok tms tg e lo" and "e \<le> e'"
  shows "limit_ok tms tg e' lo"
  using assms unfolding limit_ok_def list_all_iff by (meson le_less_double_trans)

lemma limit_ok_cong:
  "eq_mark_type tg' = eq_mark_type tg \<Longrightarrow> limit_ok tms tg' e lo = limit_ok tms tg e lo"
  by (simp add: limit_ok_def fixed_type_def equation_marks_def)

lemma limit_ok_precision_max:
  "limit_ok tms tg e lo \<Longrightarrow> std_max lo time_step_precision = lo"
  by (cases lo) (auto simp: limit_ok_def time_step_precision_def)

lemma limit_ok_gap:
  assumes "limit_ok tms tg (Fin e) lo" and "is_fixed_time tms tg (Fin f)" and "tolerance e f < f - e"
  obtains l where "lo = Fin l" "precision \<le> l" "precision * l < f - e"
proof -
  from assms(1) obtain l where l: "lo = Fin l" "precision \<le> l"
    by (auto simp: limit_ok_def is_fin_iff time_step_precision_Fin)
  have "e < f" using assms(3) tolerance_pos [of e f] by linarith
  with assms(1,2) l have "l \<le> 1 + f"
    by (fastforce simp: limit_ok_def is_fixed_time_def list_ex_iff list_all_iff)
  then have "precision * l \<le> precision * (1 + max \<bar>e\<bar> \<bar>f\<bar>)"
    by (intro mult_left_mono) auto
  also have "\<dots> = tolerance e f" by (simp add: tolerance_def precision_def)
  finally show thesis using that l assms(3) by simp
qed

lemma governor_okE:
  assumes "governor_ok tms tg"
  obtains st ss e l where "recent_steps tg = st # ss" "current_ok tms tg st"
    "step_end st = Fin e" "step_length st = Fin l" "precision / 2 \<le> l"
  using assms by (auto simp: governor_ok_def current_ok_def is_fin_iff split: list.splits)

section \<open>One step\<close>

text \<open>The step the governor chooses from \<open>e\<close> towards the mark \<open>f\<close>.\<close>

definition good_step :: "time_governor \<Rightarrow> real \<Rightarrow> real \<Rightarrow> real \<Rightarrow> real \<Rightarrow> bool" where
  "good_step tg e l f d \<longleftrightarrow>
     (let b = step_bound (f - e) (upper_constraint tg) (dval (lower_constraint tg));
          n = step_count (f - e) b; s = (f - e) / of_int n
      in 1 \<le> n \<and> (d = s \<or> (1 < n \<and> d = l \<and> \<bar>s - d\<bar> < precision)))"

lemma good_step_bounds:
  assumes good: "good_step tg e l f d" and lo: "lower_constraint tg = Fin lo" "precision \<le> lo"
    and gap: "precision * lo < f - e" "precision < f - e"
      "precision * step_bound (f - e) (upper_constraint tg) lo < f - e"
    and l: "precision / 2 \<le> l"
  shows "precision / 2 \<le> d" "e + d \<le> f + precision"
proof -
  let ?b = "step_bound (f - e) (upper_constraint tg) lo"
  let ?n = "step_count (f - e) ?b"
  let ?s = "(f - e) / of_int ?n"
  have b: "lo \<le> ?b" by (rule step_bound_range)
  then have b0: "0 < ?b" using lo(2) precision_pos(1) by linarith
  have pos: "0 < f - e" using gap(2) precision_pos(1) by linarith
  have n: "1 \<le> ?n" and d: "d = ?s \<or> (1 < ?n \<and> d = l \<and> \<bar>?s - d\<bar> < precision)"
    using good lo by (auto simp: good_step_def Let_def)
  have n1: "1 \<le> real_of_int ?n" using n by simp
  have s_le: "?s \<le> f - e" using pos n1 by (simp add: pos_divide_le_eq mult_left_le)
  have s_ge: "precision / 2 \<le> ?s"
  proof (cases "1 < ?n")
    case True
    then show ?thesis using step_count_length(1) [OF b0 gap(3)] b lo(2) by linarith
  next
    case False
    then have "?s = f - e" using n by simp
    then show ?thesis using gap(2) precision_pos(1) by linarith
  qed
  show "precision / 2 \<le> d" using d s_ge l by auto
  show "e + d \<le> f + precision" using d s_le precision_pos(1) by (elim disjE conjE) linarith+
qed

lemma estimate_dt_ok:
  assumes ok: "governor_ok tms tg" and st: "recent_steps tg = st # ss" "step_end st = Fin e"
      "step_length st = Fin l"
    and running: "\<not> is_end tg st"
  obtains f d where "next_fixed_time tms tg st = Inr (Fin f)" "is_fixed_time tms tg (Fin f)"
    "Fin f \<le> end_time tg" "tolerance e f < f - e"
    "estimate_dt tms tg = Inr (Fin d)" "good_step tg e l f d"
    "precision / 2 \<le> d" "e + d \<le> f + precision"
proof -
  from ok st have cur: "current_ok tms tg st" and mk: "marks_known tms tg"
    by (auto simp: governor_ok_def)
  from ok obtain x where x: "end_time tg = Fin x" by (auto simp: governor_ok_def is_fin_iff)
  have fx: "is_fixed_time tms tg (Fin x)" using ok x by (simp add: governor_ok_def)
  have lt: "step_lt st (Fin x)" using running x by (simp add: is_end_def step_ge_iff_not_lt)
  obtain f where f: "next_fixed_time tms tg st = Inr (Fin f)" "is_fixed_time tms tg (Fin f)"
    "f \<le> x" "tolerance e f < f - e"
    using fixed.search_before [of "(tms, tg)" st e x] mk fx lt st(2) by auto
  have lim: "limit_ok tms tg (Fin e) (lower_constraint tg)"
    using cur st(2) by (simp add: current_ok_def)
  obtain lo where lo: "lower_constraint tg = Fin lo" "precision \<le> lo" "precision * lo < f - e"
    by (rule limit_ok_gap [OF lim f(2,4)])
  have lo0: "0 < lo" using lo(2) precision_pos(1) by linarith
  note est = estimate_step_Fin [OF st(2,3) lo(1) lo0 lo(3)]
  define d where "d = dval (estimate_step tg st (Fin f))"
  have d: "estimate_step tg st (Fin f) = Fin d" by (simp add: d_def est(1) Let_def)
  have b0: "0 < step_bound (f - e) (upper_constraint tg) lo"
    using step_bound_range(1) [of lo] lo0 by (meson less_le_trans)
  have good: "good_step tg e l f d"
    using step_count_pos [OF b0 est(2)] d est(1) lo(1)
    by (auto simp: good_step_def Let_def split: if_splits)
  have gap: "precision < f - e" using f(4) tolerance_ge [of e f] by (simp add: precision_def)
  have l: "precision / 2 \<le> l" using cur st(3) by (simp add: current_ok_def)
  have "estimate_dt tms tg = Inr (Fin d)"
    using running cur f(1) d by (simp add: estimate_dt_def get_step_head [OF st(1)] current_ok_def)
  then show thesis
    using that [OF f(1,2) _ f(4) _ good] good_step_bounds [OF good lo(1,2,3) gap est(2) l] f(3) x by simp
qed

lemma is_end_cong:
  "end_time tg' = end_time tg \<Longrightarrow> is_end tg' st = is_end tg st"
  by (simp add: is_end_def)

lemma step_lt_later:
  assumes "\<not> step_lt st t" and "step_end st = Fin e" and "step_end st' = Fin e'" and "e \<le> e'"
    and "t \<noteq> NaN" and "t \<noteq> PInf"
  shows "\<not> step_lt st' t"
  using assms safe_compare_mono by (cases t) (auto simp: step_lt_def simp del: safe_compare_Fin)

text \<open>The constraints after the step, with or without a new row of the limits.\<close>

definition after_step :: "time_governor \<Rightarrow> time_step \<Rightarrow> time_governor \<Rightarrow> bool" where
  "after_step tg st' tg' \<longleftrightarrow>
     recent_steps tg' = push_step st' (recent_steps tg) \<and>
     end_time tg' = end_time tg \<and> init_time tg' = init_time tg \<and>
     eq_mark_type tg' = eq_mark_type tg \<and> dt_limits_table tg' = dt_limits_table tg \<and>
     end_of_fixed_dt_interval tg' = end_of_fixed_dt_interval tg \<and>
     lower_constraint tg' = min_time_step tg' \<and>
     last_lower_constraint tg' = lower_constraint tg \<and>
     last_upper_constraint tg' = upper_constraint tg \<and>
     (let p = dt_limits_pos tg; row = dt_limits_table tg ! p in
      if row_time row \<le> step_end st'
      then dt_limits_pos tg' = Suc p \<and> min_time_step tg' = std_max (row_min_dt row) time_step_precision \<and>
        max_time_step tg' = std_min (row_max_dt row) (end_time tg - step_end st') \<and>
        upper_constraint tg' = max_time_step tg'
      else dt_limits_pos tg' = p \<and> min_time_step tg' = min_time_step tg \<and>
        max_time_step tg' = max_time_step tg \<and>
        upper_constraint tg' = std_min (end_time tg - step_end st') (max_time_step tg))"

lemma push_step_Cons: "push_step s (r # ss) = s # r # take 1 ss"
  by (simp add: push_step_def size_of_recent_steps_def numeral_3_eq_3)

lemma free_advance_eq:
  assumes "recent_steps tg = st # ss" and "estimate_dt tms tg = Inr d"
  shows "free_advance tms tg st =
    Inr (tg\<lparr>recent_steps := push_step (make_next st d) (recent_steps tg),
            time_step_changed := \<not> deq (step_length st) d\<rparr>)"
  using assms
  by (simp add: free_advance_def length_changed_def push_step_Cons get_step_def make_next_def
      make_next_to_def)

lemma next_time_free:
  assumes st: "recent_steps tg = st # ss" and "\<not> is_end tg st"
    and "\<not> step_lt st (end_of_fixed_dt_interval tg)" and "estimate_dt tms tg = Inr d"
    and "dt_limits_pos tg < length (dt_limits_table tg)"
  obtains tg' where "next_time tms tg = Inr tg'" "after_step tg (make_next st d) tg'"
proof -
  let ?s = "make_next st d"
  let ?tg1 = "tg\<lparr>recent_steps := push_step ?s (recent_steps tg),
      time_step_changed := \<not> deq (step_length st) d\<rparr>"
  let ?tg2 = "reset_constraints ?tg1 ?s"
  let ?row = "dt_limits_table tg ! dt_limits_pos tg"
  have cur1: "cur_step ?tg1 = Inr ?s" and cur2: "cur_step ?tg2 = Inr ?s"
    by (simp_all add: get_step_def push_step_def size_of_recent_steps_def reset_constraints_def)
  have row: "vec_at TableOverrun (dt_limits_table ?tg2) (dt_limits_pos ?tg2) = Inr ?row"
    using assms(5) by (simp add: reset_constraints_def)
  have perm: "set_permanent_constraint ?tg2 = Inr (?tg2
      \<lparr>min_time_step := std_max (row_min_dt ?row) time_step_precision,
       lower_constraint := std_max (row_min_dt ?row) time_step_precision,
       lower_constraint_message := ''Permanent minimal constraint, custom.'',
       max_time_step := std_min (row_max_dt ?row) (end_time ?tg2 - step_end ?s),
       upper_constraint := std_min (row_max_dt ?row) (end_time ?tg2 - step_end ?s),
       upper_constraint_message := ''Permanent maximal constraint, custom.'',
       dt_limits_pos := Suc (dt_limits_pos ?tg2)\<rparr>)"
    unfolding set_permanent_constraint_def row cur2 bind_res_simps Let_def ..
  obtain tg3 where tg3: "(if row_time ?row \<le> step_end ?s then set_permanent_constraint ?tg2 else Inr ?tg2) = Inr tg3"
    and after: "after_step tg ?s tg3"
    unfolding perm
    by (cases "row_time ?row \<le> step_end ?s") (simp_all add: after_step_def Let_def reset_constraints_def)
  have "next_time tms tg = Inr (write_timestep tg3 ?s)"
    using assms(2,3) row cur1 tg3
    by (simp add: next_time_def get_step_head [OF st] free_advance_eq [OF st assms(4)] Let_def)
  moreover have "after_step tg ?s (write_timestep tg3 ?s)"
    using after by (simp add: after_step_def write_timestep_def Let_def)
  ultimately show thesis using that by blast
qed

lemma after_step_ok:
  assumes ok: "governor_ok tms tg" and st: "recent_steps tg = st # ss" "step_end st = Fin e"
    and after: "after_step tg (make_next st (Fin d)) tg'" and d: "precision / 2 \<le> d"
    and pos: "dt_limits_pos tg < length (dt_limits_table tg)"
  shows "governor_ok tms tg'"
proof -
  let ?s = "make_next st (Fin d)"
  let ?tb = "dt_limits_table tg" and ?p = "dt_limits_pos tg"
  have s: "step_end ?s = Fin (e + d)" "step_length ?s = Fin d"
    using st(2) by (simp_all add: make_next_def make_next_to_def)
  have le: "e \<le> e + d" using d precision_pos(1) by linarith
  have cur: "current_ok tms tg st" using ok st by (simp add: governor_ok_def)
  have eqs: "end_time tg' = end_time tg" "eq_mark_type tg' = eq_mark_type tg" "dt_limits_table tg' = ?tb"
    "end_of_fixed_dt_interval tg' = end_of_fixed_dt_interval tg"
    "recent_steps tg' = ?s # st # take 1 ss" "lower_constraint tg' = min_time_step tg'"
    using after by (simp_all add: after_step_def push_step_Cons st(1))
  have lim: "limit_ok tms tg' (step_end ?s) x" if "limit_ok tms tg (step_end st) x" for x
    using limit_ok_later [OF that, of "step_end ?s"] le st(2) s(1) limit_ok_cong [OF eqs(2)] by simp
  have rows: "list_all (\<lambda>row. limit_ok tms tg' (step_end ?s) (row_min_dt row)) ?tb"
    using cur lim by (auto simp: current_ok_def list_all_iff)
  have row: "limit_ok tms tg' (step_end ?s) (row_min_dt (?tb ! ?p))"
    using rows pos by (simp add: list_all_length)
  have min: "limit_ok tms tg' (step_end ?s) (min_time_step tg')"
    using after row lim cur limit_ok_precision_max [OF row]
    by (auto simp: after_step_def Let_def current_ok_def split: if_splits)
  have "dt_limits_pos tg' < length ?tb \<or> is_end tg' ?s"
  proof (cases "Suc ?p < length ?tb \<or> dt_limits_pos tg' = ?p")
    case True
    then show ?thesis using after pos by (auto simp: after_step_def Let_def split: if_splits)
  next
    case False
    then have "?tb ! ?p = last ?tb" and "row_time (?tb ! ?p) \<le> step_end ?s"
      using after pos by (auto simp: after_step_def Let_def last_conv_nth split: if_splits)
        (metis Suc_lessI diff_Suc_1 last_conv_nth less_nat_zero_code list.size(3))
    then have "end_time tg \<le> step_end ?s" using ok by (simp add: governor_ok_def)
    then have "is_end tg' ?s"
      using s(1) ok eqs(1) safe_compare_of_le
      by (cases "end_time tg") (auto simp: is_end_def step_ge_def governor_ok_def simp del: safe_compare_Fin)
    then show ?thesis ..
  qed
  moreover have "\<not> step_lt ?s (end_of_fixed_dt_interval tg)"
    using step_lt_later [OF _ st(2) s(1) le] cur ok by (auto simp: current_ok_def governor_ok_def)
  ultimately have "current_ok tms tg' ?s"
    using s d min rows eqs by (simp add: current_ok_def)
  then show ?thesis using ok eqs
    by (simp add: governor_ok_def marks_known_def is_fixed_time_def fixed_type_def equation_marks_def
        size_of_recent_steps_def)
qed

section \<open>Advancing to the end\<close>

fun advance :: "nat \<Rightarrow> time_marks \<Rightarrow> time_governor \<Rightarrow> (tg_error, time_governor) res" where
  "advance 0 tms tg = Inr tg"
| "advance (Suc n) tms tg = bind_res (next_time tms tg) (advance n tms)"

lemma next_time_at_end:
  "recent_steps tg = st # ss \<Longrightarrow> is_end tg st \<Longrightarrow> next_time tms tg = Inr tg"
  by (simp add: next_time_def get_step_head)

lemma next_time_running:
  assumes ok: "governor_ok tms tg" and st: "recent_steps tg = st # ss" "step_end st = Fin e"
      "step_length st = Fin l" and running: "\<not> is_end tg st"
  obtains tg' f d where "next_time tms tg = Inr tg'" "governor_ok tms tg'"
    "after_step tg (make_next st (Fin d)) tg'" "next_fixed_time tms tg st = Inr (Fin f)"
    "Fin f \<le> end_time tg" "good_step tg e l f d" "precision / 2 \<le> d" "e + d \<le> f + precision"
proof -
  have cur: "current_ok tms tg st" using ok st by (simp add: governor_ok_def)
  then have pos: "dt_limits_pos tg < length (dt_limits_table tg)"
    and nofix: "\<not> step_lt st (end_of_fixed_dt_interval tg)"
    using running by (auto simp: current_ok_def)
  obtain f d where f: "next_fixed_time tms tg st = Inr (Fin f)" "Fin f \<le> end_time tg"
    and d: "estimate_dt tms tg = Inr (Fin d)" "good_step tg e l f d" "precision / 2 \<le> d"
      "e + d \<le> f + precision"
    by (rule estimate_dt_ok [OF ok st running])
  obtain tg' where tg': "next_time tms tg = Inr tg'" "after_step tg (make_next st (Fin d)) tg'"
    by (rule next_time_free [OF st(1) running nofix d(1) pos])
  have "governor_ok tms tg'" by (rule after_step_ok [OF ok st(1,2) tg'(2) d(3) pos])
  then show thesis using that tg' f d by blast
qed

lemma advance_reaches_end:
  assumes "governor_ok tms tg" and "recent_steps tg = st # ss" and "step_end st = Fin e"
    and "end_time tg = Fin x" and "x - e \<le> real n * (precision / 2)"
  shows "\<exists>tg' st' ss'. advance n tms tg = Inr tg' \<and> governor_ok tms tg' \<and>
    recent_steps tg' = st' # ss' \<and> is_end tg' st' \<and> end_time tg' = Fin x"
  using assms
proof (induction n arbitrary: tg st ss e)
  case 0
  then have "is_end tg st"
    using safe_compare_of_le [of x e] by (simp add: is_end_def step_ge_def del: safe_compare_Fin)
  with 0 show ?case by auto
next
  case (Suc n)
  show ?case
  proof (cases "is_end tg st")
    case True
    have stay: "advance m tms tg = Inr tg" for m
      using next_time_at_end [OF Suc.prems(2) True, of tms] by (induction m) auto
    show ?thesis using Suc.prems True stay by blast
  next
    case False
    obtain l where l: "step_length st = Fin l"
      using Suc.prems(1,2) by (auto simp: governor_ok_def current_ok_def is_fin_iff)
    obtain tg' f d where tg': "next_time tms tg = Inr tg'" "governor_ok tms tg'"
      "after_step tg (make_next st (Fin d)) tg'" "precision / 2 \<le> d"
      by (rule next_time_running [OF Suc.prems(1-3) l False])
    let ?s = "make_next st (Fin d)"
    have "recent_steps tg' = ?s # st # take 1 ss" "end_time tg' = Fin x"
      using tg'(3) Suc.prems(2,4) by (simp_all add: after_step_def push_step_Cons)
    moreover have "step_end ?s = Fin (e + d)"
      using Suc.prems(3) by (simp add: make_next_def make_next_to_def)
    moreover have "x - (e + d) \<le> real n * (precision / 2)"
      using Suc.prems(5) tg'(4) by (simp add: algebra_simps)
    ultimately show ?thesis using Suc.IH [OF tg'(2)] tg'(1) by simp
  qed
qed

section \<open>The limits table\<close>

definition limits_sorted :: "dt_limit_row list \<Rightarrow> bool" where
  "limits_sorted tb \<longleftrightarrow> sorted_wrt (\<lambda>a b. row_time a < row_time b) tb"

definition limits_inv :: "time_marks \<Rightarrow> time_governor \<Rightarrow> bool" where
  "limits_inv tms tg \<longleftrightarrow>
     marks_known tms tg \<and> is_fin (end_time tg) \<and> is_fixed_time tms tg (end_time tg) \<and>
     is_fin (init_time tg) \<and> init_time tg \<le> end_time tg \<and>
     limits_sorted (dt_limits_table tg) \<and>
     list_all (\<lambda>row. is_fin (row_time row) \<and> row_time row \<le> end_time tg \<and>
       \<not> row_min_dt row < time_step_precision) (dt_limits_table tg)"

lemma limits_sorted_snoc:
  assumes "limits_sorted tb" and "list_all (\<lambda>row. is_fin (row_time row)) tb" and "is_fin (row_time r)"
    and "tb \<noteq> [] \<Longrightarrow> \<not> row_time r \<le> row_time (last tb)"
  shows "limits_sorted (tb @ [r])"
proof (cases tb rule: rev_cases)
  case (snoc ys y)
  have "row_time y < row_time r"
    using assms(2-4) snoc by (auto simp: is_fin_iff)
  moreover have "row_time a < row_time r" if "a \<in> set ys" for a
    using assms(1) snoc that \<open>row_time y < row_time r\<close> less_le_double_trans less_double_imp_le
    by (fastforce simp: limits_sorted_def sorted_wrt_append)
  ultimately show ?thesis using assms(1) snoc by (auto simp: limits_sorted_def sorted_wrt_append)
qed (simp add: limits_sorted_def)

lemma add_mark_keeps_fixed:
  assumes mk: "marks_known tms tg" and t: "is_fin (mark_time m)"
    and m: "equation_index (mtype m) = equation_index (eq_mark_type tg)"
    and add: "add_mark tms m = Inr (m', tms')"
  shows "marks_known tms' tg" "is_fixed_time tms tg x \<Longrightarrow> is_fixed_time tms' tg x"
    "length (marks tms') = length (marks tms)"
proof -
  let ?i = "unat (equation_index (mtype m))"
  have i: "?i < length (marks tms)" and ok: "tms_ok tms" using mk m by (simp_all add: marks_known_def)
  have t': "mark_time m \<noteq> NaN" "mark_time m \<noteq> MInf" using t by auto
  obtain m2 ms' where add': "add_mark tms m = Inr (m2, tms\<lparr>marks := (marks tms)[?i := ms']\<rparr>)"
    and ms': "marks_ok (equation_index (mtype m)) ms'" "mark_added (marks tms ! ?i) m ms'"
    by (rule add_mark_ok [OF ok i t'])
  have tms': "tms' = tms\<lparr>marks := (marks tms)[?i := ms']\<rparr>" using add add' by simp
  show len: "length (marks tms') = length (marks tms)" by (simp add: tms')
  show "marks_known tms' tg"
    using tms_ok_update [OF ok i ms'(1)] i m by (simp add: marks_known_def tms')
  have old: "marks_ok (equation_index (mtype m)) (marks tms ! ?i)" by (rule tms_ok_marks_ok [OF ok i])
  assume "is_fixed_time tms tg x"
  then obtain m0 where m0: "m0 \<in> set (marks tms ! ?i)" "mark_time m0 = x" "match_mask m0 (fixed_type tg)"
    by (auto simp: is_fixed_time_def list_ex_iff equation_marks_def m)
  then obtain m1 where m1: "m1 \<in> set ms'" "mark_time m1 = x" "match_mask m1 (mtype m0)"
    using ms'(2) by (auto simp: mark_added_def)
  have "equation_index (mtype m1) = equation_index (mtype m0)"
    using m1(1) m0(1) ms'(1) old by (simp add: marks_ok_def list_all_iff)
  then have "match_mask m1 (fixed_type tg)" using match_mask_trans m1(3) m0(3) by blast
  then show "is_fixed_time tms' tg x"
    using m1 i m by (auto simp: is_fixed_time_def list_ex_iff equation_marks_def tms')
qed

definition conv_finite :: "convert_time \<Rightarrow> bool" where
  "conv_finite conv \<longleftrightarrow> (\<forall>u c. conv u = Inr c \<longrightarrow> is_fin c)"

definition unit_finite :: "time_unit_conversion \<Rightarrow> bool" where
  "unit_finite tuc \<longleftrightarrow> is_fin (coef tuc)"

lemma is_fin_times: "is_fin a \<Longrightarrow> is_fin b \<Longrightarrow> is_fin (a * b)"
  by (auto simp: is_fin_iff)

lemma read_time_finite:
  assumes "read_time conv tuc (Some tv) d = Inr t" and "is_fin (fst tv)" and "conv_finite conv"
    and "unit_finite tuc"
  shows "is_fin t"
  using assms by (auto simp: read_time_def conv_finite_def unit_finite_def res_simps
      split: prod.splits option.splits intro!: is_fin_times)


definition row_ok :: "time_governor \<Rightarrow> dt_limit_row \<Rightarrow> bool" where
  "row_ok tg row \<longleftrightarrow>
     is_fin (row_time row) \<and> row_time row \<le> end_time tg \<and> \<not> row_min_dt row < time_step_precision"

definition only_table :: "time_governor \<Rightarrow> time_governor \<Rightarrow> bool" where
  "only_table tg tg' \<longleftrightarrow> dt_limits_table_update (\<lambda>_. []) tg' = dt_limits_table_update (\<lambda>_. []) tg"

lemma only_table_simps [simp]: "only_table tg tg" "only_table tg (tg'\<lparr>dt_limits_table := tb\<rparr>) = only_table tg tg'"
  by (simp_all add: only_table_def)

lemma only_table_trans: "only_table a b \<Longrightarrow> only_table b c \<Longrightarrow> only_table a c"
  by (simp add: only_table_def)

lemma only_table_sel:
  assumes "only_table tg tg'"
  shows "tg_unit tg' = tg_unit tg" "recent_steps tg' = recent_steps tg" "init_time tg' = init_time tg"
    "end_time tg' = end_time tg" "eq_mark_type tg' = eq_mark_type tg"
    "end_of_fixed_dt_interval tg' = end_of_fixed_dt_interval tg"
proof -
  have "f (dt_limits_table_update (\<lambda>_. []) tg') = f (dt_limits_table_update (\<lambda>_. []) tg)"
    for f :: "time_governor \<Rightarrow> 'b" using assms by (simp add: only_table_def)
  from this [of tg_unit] this [of recent_steps] this [of init_time] this [of end_time]
    this [of eq_mark_type] this [of end_of_fixed_dt_interval]
  show "tg_unit tg' = tg_unit tg" "recent_steps tg' = recent_steps tg" "init_time tg' = init_time tg"
    "end_time tg' = end_time tg" "eq_mark_type tg' = eq_mark_type tg"
    "end_of_fixed_dt_interval tg' = end_of_fixed_dt_interval tg" by simp_all
qed

lemma limits_inv_push:
  assumes "limits_inv tms tg" and "row_ok tg row"
    and "dt_limits_table tg \<noteq> [] \<Longrightarrow> \<not> row_time row \<le> row_time (last (dt_limits_table tg))"
  shows "limits_inv tms (tg\<lparr>dt_limits_table := dt_limits_table tg @ [row]\<rparr>)"
proof -
  have "limits_sorted (dt_limits_table tg @ [row])"
    using assms by (intro limits_sorted_snoc) (auto simp: limits_inv_def row_ok_def list_all_iff)
  then show ?thesis
    using assms(1,2) by (simp add: limits_inv_def marks_known_def is_fixed_time_def fixed_type_def
        equation_marks_def row_ok_def)
qed

lemma limits_inv_mark:
  assumes "limits_inv tms tg" and "is_fin t"
    and "add_mark tms \<lparr>mark_time = t, mtype = fixed_type tg\<rparr> = Inr r"
  shows "limits_inv (snd r) tg"
  using assms add_mark_keeps_fixed [of tms tg "\<lparr>mark_time = t, mtype = fixed_type tg\<rparr>" "fst r" "snd r"]
  by (auto simp: limits_inv_def fixed_type_def)

lemma limits_inv_known: "limits_inv tms tg \<Longrightarrow> tms_ok tms"
  by (simp add: limits_inv_def marks_known_def)

lemma add_limit_inv:
  assumes inv: "limits_inv tms tg" and first: "first_step \<Longrightarrow> dt_limits_table tg = []"
    and conv: "conv_finite conv" "unit_finite (tg_unit tg)"
    and row: "is_fin (fst (lim_time row))" and mn: "\<not> min_dt < time_step_precision"
    and add: "add_limit conv min_dt max_dt first_step (tms, tg) row = Inr (tms', tg')"
  shows "limits_inv tms' tg' \<and> only_table tg tg'"
proof -
  obtain time where time: "read_time conv (tg_unit tg) (Some (lim_time row)) NaN = Inr time"
    using add by (auto simp: add_limit_def res_simps)
  have fin: "is_fin time" by (rule read_time_finite [OF time row conv])
  define tg1 where "tg1 = (if first_step \<and> init_time tg < time
    then tg\<lparr>dt_limits_table := dt_limits_table tg @
           [\<lparr>row_time = init_time tg, row_min_dt = min_dt, row_max_dt = max_dt\<rparr>]\<rparr> else tg)"
  have inv1: "limits_inv tms tg1"
  proof (cases "first_step \<and> init_time tg < time")
    case True
    have "row_ok tg \<lparr>row_time = init_time tg, row_min_dt = min_dt, row_max_dt = max_dt\<rparr>"
      using inv mn by (simp add: row_ok_def limits_inv_def)
    then show ?thesis using limits_inv_push [OF inv] True first by (simp add: tg1_def)
  qed (use inv in \<open>auto simp: tg1_def\<close>)
  have upd: "only_table tg tg1" by (simp add: tg1_def)
  show ?thesis
  proof (cases "dt_limits_table tg1 \<noteq> [] \<and> time \<le> row_time (last (dt_limits_table tg1)) \<or> end_time tg1 < time")
    case True
    then have "tms' = tms \<and> tg' = tg1"
      using add unfolding add_limit_def time Let_def split bind_res_simps tg1_def [symmetric]
      by (auto split: if_splits)
    then show ?thesis using inv1 upd by simp
  next
    case False
    let ?new = "\<lambda>mn mx. tg1\<lparr>dt_limits_table := dt_limits_table tg1 @
      [\<lparr>row_time = time, row_min_dt = mn, row_max_dt = mx\<rparr>]\<rparr>"
    obtain mn mx where new: "\<not> mn < time_step_precision" "tg' = ?new mn mx"
      and marks: "if limits_time_marks tg1
        then \<exists>r. add_mark tms \<lparr>mark_time = time, mtype = fixed_type (?new mn mx)\<rparr> = Inr r \<and> tms' = snd r
        else tms' = tms"
      using add False unfolding add_limit_def time Let_def split bind_res_simps tg1_def [symmetric]
      by (auto simp: res_simps equation_fixed_mark_type_eq [OF limits_inv_known [OF inv]] split: if_splits)
    have "time \<le> end_time tg1" using False fin inv1 by (auto simp: is_fin_iff limits_inv_def)
    then have "limits_inv tms tg'"
      unfolding new(2) using new(1) fin False by (intro limits_inv_push [OF inv1]) (auto simp: row_ok_def)
    then have "limits_inv tms' tg'"
      using marks fin limits_inv_mark new(2) by (auto split: if_splits)
    moreover have "only_table tg tg'" using upd new(2) by simp
    ultimately show ?thesis ..
  qed
qed

lemma add_limits_inv:
  assumes "limits_inv tms tg" and "first_step \<Longrightarrow> dt_limits_table tg = []"
    and "conv_finite conv" and "unit_finite (tg_unit tg)"
    and "list_all (\<lambda>row. is_fin (fst (lim_time row))) rows" and "\<not> min_dt < time_step_precision"
    and "add_limits conv min_dt max_dt first_step (tms, tg) rows = Inr (tms', tg')"
  shows "limits_inv tms' tg' \<and> only_table tg tg'"
  using assms
proof (induction rows arbitrary: tms tg first_step)
  case Nil
  then show ?case by simp
next
  case (Cons row rows)
  obtain tms1 tg1 where one: "add_limit conv min_dt max_dt first_step (tms, tg) row = Inr (tms1, tg1)"
    and rest: "add_limits conv min_dt max_dt False (tms1, tg1) rows = Inr (tms', tg')"
    using Cons.prems(7) by (auto simp: res_simps)
  have first: "limits_inv tms1 tg1 \<and> only_table tg tg1"
    using Cons.prems(5) by (intro add_limit_inv [OF Cons.prems(1-4) _ Cons.prems(6) one]) auto
  then have unit: "tg_unit tg1 = tg_unit tg" by (simp add: only_table_sel)
  have "limits_inv tms' tg' \<and> only_table tg1 tg'"
    by (rule Cons.IH [OF _ _ Cons.prems(3) _ _ Cons.prems(6) rest]) (use Cons.prems(4,5) unit first in simp_all)
  then show ?case using first only_table_trans by blast
qed

lemma find_limits_pos_range:
  "find_limits_pos t p rows = Inr q \<Longrightarrow> p \<le> q \<and> q - p < length rows \<and> \<not> row_time (rows ! (q - p)) \<le> t"
proof (induction t p rows rule: find_limits_pos.induct)
  case (2 t pos row rows)
  show ?case
  proof (cases "row_time row \<le> t")
    case True
    then have "Suc pos \<le> q \<and> q - Suc pos < length rows \<and> \<not> row_time (rows ! (q - Suc pos)) \<le> t"
      using 2 by simp
    then show ?thesis by (auto simp: nth_Cons' Suc_diff_le)
  qed (use 2 in auto)
qed simp

lemma limits_table_closed:
  fixes tms :: time_marks and tg :: time_governor and min_dt max_dt :: double
  assumes inv: "limits_inv tms tg" and mn: "\<not> min_dt < time_step_precision"
  defines "row \<equiv> \<lambda>t. \<lparr>row_time = t, row_min_dt = min_dt, row_max_dt = max_dt\<rparr>"
  defines "tb1 \<equiv> if dt_limits_table tg = [] then [row (init_time tg)] else dt_limits_table tg"
  defines "tb2 \<equiv> if row_time (last tb1) < end_time tg then tb1 @ [row (end_time tg)] else tb1"
  shows "limits_sorted tb2" "list_all (row_ok tg) tb2" "tb2 \<noteq> []" "row_time (last tb2) = end_time tg"
proof -
  have row: "row_ok tg (row (init_time tg))" "row_ok tg (row (end_time tg))"
    using inv mn by (auto simp: row_def row_ok_def limits_inv_def is_fin_iff)
  have tb1: "limits_sorted tb1" "list_all (row_ok tg) tb1" "tb1 \<noteq> []"
    using inv row by (auto simp: tb1_def limits_inv_def limits_sorted_def row_ok_def list_all_iff)
  have fin: "list_all (\<lambda>row. is_fin (row_time row)) tb1"
    using tb1(2) by (auto simp: row_ok_def list_all_iff)
  have last: "row_ok tg (last tb1)" using tb1(2,3) by (simp add: list_all_iff)
  have "limits_sorted (tb1 @ [row (end_time tg)])" if "row_time (last tb1) < end_time tg"
    using that row(2) by (intro limits_sorted_snoc [OF tb1(1) fin])
      (auto simp: row_ok_def row_def is_fin_iff dest: less_le_double_trans)
  then show "limits_sorted tb2" using tb1(1) by (simp add: tb2_def)
  show "list_all (row_ok tg) tb2" using tb1 row by (simp add: tb2_def)
  show "tb2 \<noteq> []" using tb1(3) by (simp add: tb2_def)
  show "row_time (last tb2) = end_time tg"
    using last inv by (auto simp: tb2_def row_def row_ok_def limits_inv_def is_fin_iff)
qed

lemma set_dt_limits_ok:
  assumes inv: "limits_inv tms tg" and conv: "conv_finite conv" "unit_finite (tg_unit tg)"
    and rows: "list_all (\<lambda>row. is_fin (fst (lim_time row))) rows"
    and set: "set_dt_limits conv tms tg min_dt max_dt rows = Inr (tms', tg')"
    and st: "recent_steps tg = [st]"
  obtains tb pos tg1 where "limits_inv tms' tg1" "only_table tg tg1" "limits_sorted tb"
    "list_all (row_ok tg) tb" "row_time (last tb) = end_time tg" "Suc pos < length tb"
    "\<not> row_time (tb ! Suc pos) \<le> init_time tg"
    "set_permanent_constraint (tg1\<lparr>dt_limits_table := tb, dt_limits_pos := pos\<rparr>) = Inr tg'"
proof -
  have mn: "\<not> min_dt < time_step_precision" using set by (auto simp: set_dt_limits_def split: if_splits)
  have inv0: "limits_inv tms (tg\<lparr>dt_limits_table := []\<rparr>)"
    using inv by (simp add: limits_inv_def limits_sorted_def marks_known_def is_fixed_time_def
        fixed_type_def equation_marks_def)
  obtain tms1 tg1 where add: "add_limits conv min_dt max_dt True (tms, tg\<lparr>dt_limits_table := []\<rparr>) rows = Inr (tms1, tg1)"
    using set by (auto simp: set_dt_limits_def res_simps split: if_splits)
  have tg1: "limits_inv tms1 tg1" "only_table tg tg1"
    using add_limits_inv [OF inv0 _ conv(1) _ rows mn add] conv(2) by (auto simp: only_table_def)
  note same = only_table_sel [OF tg1(2)]
  let ?row = "\<lambda>t. \<lparr>row_time = t, row_min_dt = min_dt, row_max_dt = max_dt\<rparr>"
  define tb1 where "tb1 = (if dt_limits_table tg1 = [] then [?row (init_time tg1)] else dt_limits_table tg1)"
  define tb2 where "tb2 = (if row_time (last tb1) < end_time tg1 then tb1 @ [?row (end_time tg1)] else tb1)"
  note closed = limits_table_closed [OF tg1(1) mn, of max_dt, folded tb1_def, folded tb2_def]
  obtain pos where pos: "find_limits_pos (init_time tg1) 0 (tl tb2) = Inr pos" and tms1: "tms1 = tms'"
    and fin: "set_permanent_constraint (tg1\<lparr>dt_limits_table := tb2, dt_limits_pos := pos\<rparr>) = Inr tg'"
    using set add by (auto simp: set_dt_limits_def Let_def res_simps tb2_def tb1_def split: if_splits)
  note range = find_limits_pos_range [OF pos]
  have "list_all (row_ok tg) tb2" using closed(2) same by (simp add: row_ok_def [abs_def])
  then show thesis
    using that [OF _ tg1(2) closed(1) _ _ _ _ fin] tg1(1) closed(4) range same tms1
    by (auto simp: nth_tl less_diff_conv)
qed

lemma set_permanent_constraint_sel:
  assumes "set_permanent_constraint tg = Inr tg'"
  shows "recent_steps tg' = recent_steps tg" "end_time tg' = end_time tg" "init_time tg' = init_time tg"
    "eq_mark_type tg' = eq_mark_type tg" "dt_limits_table tg' = dt_limits_table tg"
    "end_of_fixed_dt_interval tg' = end_of_fixed_dt_interval tg"
    "dt_limits_pos tg' = Suc (dt_limits_pos tg)" "lower_constraint tg' = min_time_step tg'"
    "min_time_step tg' = std_max (row_min_dt (dt_limits_table tg ! dt_limits_pos tg)) time_step_precision"
    "dt_limits_pos tg < length (dt_limits_table tg)"
  using assms by (auto simp: set_permanent_constraint_def res_simps Let_def vec_at_def split: if_splits)

lemma limit_ok_start:
  assumes "time_step_precision \<le> lo" and "lo \<le> Fin (1 + s)"
  shows "limit_ok tms tg (Fin s) lo"
proof -
  obtain l where l: "lo = Fin l" using assms by (cases lo) (auto simp: time_step_precision_def)
  have "lo \<le> Fin 1 + t" if "Fin s < t" for t
    using assms(2) that l by (cases t) auto
  then show ?thesis using assms(1) l by (auto simp: limit_ok_def list_all_iff)
qed

text \<open>A fresh mark type has only the stoppers; the start and the end are added to it.\<close>

lemma new_type_marks:
  assumes "tms_ok tms" and "equation_index (next_mark_type tms) \<noteq> 0"
  obtains tms' where "choose_mark_type tms none_type = Inr (next_mark_type tms, tms')" "tms_ok tms'"
    "unat (equation_index (next_mark_type tms)) < length (marks tms')"
    "\<forall>m \<in> set (marks tms' ! unat (equation_index (next_mark_type tms))). \<not> is_fin (mark_time m)"
proof -
  let ?ei = "equation_index (next_mark_type tms)"
  obtain tms' where n: "new_mark_type tms = Inr (next_mark_type tms, tms')" and ok: "tms_ok tms'"
    and len: "length (marks tms') = Suc (length (marks tms))"
    by (rule new_mark_type_ok [OF assms])
  have "unat ?ei = length (marks tms)"
    using assms by (simp add: tms_ok_def n_types_def Let_def)
  moreover have "marks tms' ! unat ?ei = [stopper MInf ?ei, stopper PInf ?ei]"
    using n assms calculation by (auto simp: new_mark_type_def Let_def)
  ultimately show thesis
    using that n ok len by (simp add: choose_mark_type_def type_eq_def none_type_def stopper_def)
qed

lemma add_fixed_mark_ok:
  assumes mk: "marks_known tms tg" and add: "add_fixed_mark tms tg (Fin t) = Inr tms'"
  shows "marks_known tms' tg" "is_fixed_time tms tg x \<Longrightarrow> is_fixed_time tms' tg x"
    "\<forall>m \<in> set (equation_marks tms' tg). mark_time m = Fin t \<or>
       (\<exists>m0 \<in> set (equation_marks tms tg). mark_time m = mark_time m0)"
    "\<exists>a. is_fixed_time tms' tg (Fin a) \<and> (a = t \<or> \<bar>a - t\<bar> < precision) \<and>
       (\<exists>m \<in> set (equation_marks tms' tg). mark_time m = Fin a)"
proof -
  let ?m = "\<lparr>mark_time = Fin t, mtype = fixed_type tg\<rparr>"
  have ok: "tms_ok tms" and i: "unat (equation_index (mtype ?m)) < length (marks tms)"
    using mk by (simp_all add: marks_known_def fixed_type_def)
  obtain r where r: "add_mark tms ?m = Inr r" "tms' = snd r"
    using add ok by (auto simp: add_fixed_mark_def equation_fixed_mark_type_eq res_simps)
  show "marks_known tms' tg" "is_fixed_time tms tg x \<Longrightarrow> is_fixed_time tms' tg x"
    using add_mark_keeps_fixed [OF mk _ _, of ?m "fst r" "snd r"] r by (auto simp: fixed_type_def)
  obtain m2 ms' where add': "add_mark tms ?m = Inr (m2, tms\<lparr>marks := (marks tms)[unat (equation_index (mtype ?m)) := ms']\<rparr>)"
    and ms': "mark_added (marks tms ! unat (equation_index (mtype ?m))) ?m ms'"
    by (rule add_mark_ok [OF ok i]) auto
  have ms: "equation_marks tms' tg = ms'" "marks tms ! unat (equation_index (mtype ?m)) = equation_marks tms tg"
    using trans [OF r(1) [symmetric] add'] r(2) i by (auto simp: equation_marks_def fixed_type_def)
  show "\<forall>m \<in> set (equation_marks tms' tg). mark_time m = Fin t \<or>
       (\<exists>m0 \<in> set (equation_marks tms tg). mark_time m = mark_time m0)"
    using ms' ms by (auto simp: mark_added_def)
  obtain m' where m': "m' \<in> set ms'" "m' = ?m \<or> times_equal m' ?m" "match_mask m' (fixed_type tg)"
    using ms' by (auto simp: mark_added_def)
  then obtain a where "mark_time m' = Fin a" "a = t \<or> \<bar>a - t\<bar> < precision"
    by (cases "mark_time m'") (auto simp: times_equal_def time_step_precision_Fin)
  then show "\<exists>a. is_fixed_time tms' tg (Fin a) \<and> (a = t \<or> \<bar>a - t\<bar> < precision) \<and>
       (\<exists>m \<in> set (equation_marks tms' tg). mark_time m = Fin a)"
    using m' ms(1) by (auto simp: is_fixed_time_def list_ex_iff)
qed

section \<open>Construction\<close>

lemma marks_known_cong:
  "eq_mark_type tg' = eq_mark_type tg \<Longrightarrow> marks_known tms tg' = marks_known tms tg"
  "eq_mark_type tg' = eq_mark_type tg \<Longrightarrow> is_fixed_time tms tg' x = is_fixed_time tms tg x"
  by (simp_all add: marks_known_def is_fixed_time_def fixed_type_def equation_marks_def)

lemma init_common_ok:
  assumes ok: "tms_ok tms" and i: "unat (equation_index ty) < length (marks tms)"
    and fresh: "\<forall>m \<in> set (marks tms ! unat (equation_index ty)). \<not> is_fin (mark_time m)"
    and init: "init_common tms tg0 (Fin s) (Fin x) ty = Inr (tms', tg)"
    and table: "dt_limits_table tg0 = []" and long: "s + precision \<le> x"
  shows "limits_inv tms' tg" "recent_steps tg = [zero_step (Fin s) (tg_unit tg0)]"
    "init_time tg = Fin s" "end_time tg = Fin x" "tg_unit tg = tg_unit tg0"
    "end_of_fixed_dt_interval tg = Fin s"
proof -
  have tg: "recent_steps tg = [zero_step (Fin s) (tg_unit tg0)]" "init_time tg = Fin s"
    "end_time tg = Fin x" "tg_unit tg = tg_unit tg0" "end_of_fixed_dt_interval tg = Fin s"
    "dt_limits_table tg = []" "eq_mark_type tg = ty"
    using init table by (auto simp: init_common_def Let_def res_simps split: if_splits)
  obtain tms1 where add: "add_fixed_mark tms tg (Fin s) = Inr tms1" "add_fixed_mark tms1 tg (Fin x) = Inr tms'"
    using init by (auto simp: init_common_def Let_def res_simps split: if_splits)
  have mk: "marks_known tms tg" using ok i tg(7) by (simp add: marks_known_def)
  have fresh': "\<forall>m \<in> set (equation_marks tms tg). \<not> is_fin (mark_time m)"
    using fresh tg(7) by (simp add: equation_marks_def)
  note one = add_fixed_mark_ok [OF mk add(1)]
  note two = add_fixed_mark_ok [OF one(1) add(2)]
  obtain a where a: "is_fixed_time tms' tg (Fin a)" "a = x \<or> \<bar>a - x\<bar> < precision"
    "\<exists>m \<in> set (equation_marks tms' tg). mark_time m = Fin a" using two(4) by blast
  have "a = x \<or> a = s" using a(3) two(3) one(3) fresh' by (metis double.inject is_fin.simps(1))
  then have "a = x" using a(2) long precision_pos(1) by auto
  then have "is_fixed_time tms' tg (Fin x)" using a(1) by simp
  moreover have le: "s \<le> x" using long precision_pos(1) by linarith
  ultimately show "limits_inv tms' tg"
    using two(1) tg le by (simp add: limits_inv_def limits_sorted_def)
  show "recent_steps tg = [zero_step (Fin s) (tg_unit tg0)]" "init_time tg = Fin s"
    "end_time tg = Fin x" "tg_unit tg = tg_unit tg0" "end_of_fixed_dt_interval tg = Fin s"
    using tg by simp_all
qed

lemma set_dt_limits_governor_ok:
  assumes inv: "limits_inv tms tg" and conv: "conv_finite conv" "unit_finite (tg_unit tg)"
    and rows: "list_all (\<lambda>row. is_fin (fst (lim_time row))) rows"
    and set: "set_dt_limits conv tms tg min_dt max_dt rows = Inr (tms', tg')"
    and st: "recent_steps tg = [zero_step (Fin s) u]" "init_time tg = Fin s"
      "end_of_fixed_dt_interval tg = Fin s"
    and tg2: "list_all (\<lambda>row. row_min_dt row \<le> Fin (1 + s)) (dt_limits_table tg')"
  shows "governor_ok tms' tg'" "limits_sorted (dt_limits_table tg')"
    "\<not> row_time (dt_limits_table tg' ! dt_limits_pos tg') \<le> Fin s"
proof -
  obtain tb pos tg1 where inv1: "limits_inv tms' tg1" and only: "only_table tg tg1"
    and tb: "limits_sorted tb" "list_all (row_ok tg) tb" "row_time (last tb) = end_time tg"
    and pos: "Suc pos < length tb" "\<not> row_time (tb ! Suc pos) \<le> init_time tg"
    and perm: "set_permanent_constraint (tg1\<lparr>dt_limits_table := tb, dt_limits_pos := pos\<rparr>) = Inr tg'"
    by (rule set_dt_limits_ok [OF inv conv rows set st(1)])
  note sel = set_permanent_constraint_sel [OF perm, simplified] and same = only_table_sel [OF only]
  show "limits_sorted (dt_limits_table tg')" using tb(1) sel by simp
  show "\<not> row_time (dt_limits_table tg' ! dt_limits_pos tg') \<le> Fin s" using pos sel st(2) by simp
  have min: "time_step_precision \<le> row_min_dt row \<and> row_min_dt row \<le> Fin (1 + s)" if "row \<in> set tb" for row
    using tb(2) tg2 sel that
    by (cases "row_min_dt row") (auto simp: list_all_iff row_ok_def time_step_precision_def not_less)
  then have lim: "limit_ok tms' tg' (Fin s) (row_min_dt row)" if "row \<in> set tb" for row
    using limit_ok_start that by blast
  have row: "limit_ok tms' tg' (Fin s) (row_min_dt (tb ! pos))" using lim pos(1) by simp
  then have low: "limit_ok tms' tg' (Fin s) (min_time_step tg')"
    using sel limit_ok_precision_max [OF row] by simp
  have "current_ok tms' tg' (zero_step (Fin s) u)"
    using lim low sel same st pos precision_small
    by (simp add: current_ok_def zero_step_def step_lt_def list_all_iff)
  then show "governor_ok tms' tg'"
    using inv1 tb(3) pos sel same st
    by (auto simp: governor_ok_def limits_inv_def marks_known_cong [of tg' tg1] size_of_recent_steps_def)
qed

lemma governor_ok_lower:
  assumes "governor_ok tms tg" and "recent_steps tg = st # ss"
    and "limit_ok tms tg (step_end st) (lower_constraint tg')"
    and "recent_steps tg' = recent_steps tg" "end_time tg' = end_time tg"
      "eq_mark_type tg' = eq_mark_type tg" "dt_limits_table tg' = dt_limits_table tg"
      "dt_limits_pos tg' = dt_limits_pos tg" "min_time_step tg' = min_time_step tg"
      "end_of_fixed_dt_interval tg' = end_of_fixed_dt_interval tg"
  shows "governor_ok tms tg'"
  using assms by (simp add: governor_ok_def current_ok_def limit_ok_cong [of tg' tg]
      marks_known_cong [of tg' tg] is_end_cong [of tg' tg])

lemma governor_tail_sel:
  "recent_steps (apply_init_dt d (first_output w tg st)) = recent_steps tg"
  "end_time (apply_init_dt d (first_output w tg st)) = end_time tg"
  "init_time (apply_init_dt d (first_output w tg st)) = init_time tg"
  "eq_mark_type (apply_init_dt d (first_output w tg st)) = eq_mark_type tg"
  "dt_limits_table (apply_init_dt d (first_output w tg st)) = dt_limits_table tg"
  "dt_limits_pos (apply_init_dt d (first_output w tg st)) = dt_limits_pos tg"
  "min_time_step (apply_init_dt d (first_output w tg st)) = min_time_step tg"
  "end_of_fixed_dt_interval (apply_init_dt d (first_output w tg st)) = end_of_fixed_dt_interval tg"
  by (simp_all add: apply_init_dt_def first_output_def)

lemma governor_from_input_ok:
  assumes ok: "tms_ok tms" and free: "equation_index (next_mark_type tms) \<noteq> 0"
    and conv: "conv_finite conv" "unit_conversion conv (in_common_time_unit inp) = Inr tuc"
    and s: "read_time conv tuc (Some (in_start_time inp)) NaN = Inr (Fin s)"
    and x: "read_time conv tuc (Some (in_end_time inp)) NaN = Inr e" "clip_end_time e = Fin x"
    and fin: "list_all (\<lambda>row. is_fin (fst (lim_time row))) (in_dt_limits inp)"
    and gov: "governor_from_input conv tms inp none_type ts_output = Inr (tms', tg)"
    and long: "s + precision \<le> x"
    and lower: "time_step_precision \<le> lower_constraint tg" "lower_constraint tg \<le> Fin (1 + s)"
    and rows: "list_all (\<lambda>row. row_min_dt row \<le> Fin (1 + s)) (dt_limits_table tg)"
  shows "governor_ok tms' tg" "limits_sorted (dt_limits_table tg)"
    "\<not> row_time (dt_limits_table tg ! dt_limits_pos tg) \<le> Fin s"
    "recent_steps tg = [zero_step (Fin s) tuc]" "end_time tg = Fin x"
proof -
  obtain tms1 where ch: "choose_mark_type tms none_type = Inr (next_mark_type tms, tms1)"
    and tms1: "tms_ok tms1" "unat (equation_index (next_mark_type tms)) < length (marks tms1)"
    "\<forall>m \<in> set (marks tms1 ! unat (equation_index (next_mark_type tms))). \<not> is_fin (mark_time m)"
    by (rule new_type_marks [OF ok free])
  let ?raw = "raw_governor tuc ts_output (in_add_dt_limits_time_marks inp)"
  obtain tms2 tg1 min_dt max_dt tg2 init_dt st where
    init: "init_common tms1 ?raw (Fin s) (Fin x) (next_mark_type tms) = Inr (tms2, tg1)"
    and lim: "set_dt_limits conv tms2 tg1 min_dt max_dt (in_dt_limits inp) = Inr (tms', tg2)"
    and tg: "tg = apply_init_dt init_dt (first_output (in_write_used_timesteps inp) tg2 st)"
    using gov unfolding governor_from_input_def ch conv(2) s x bind_res_simps split
    by (auto simp: res_simps)
  note sel = governor_tail_sel [of init_dt "in_write_used_timesteps inp" tg2 st, folded tg]
  have uf: "unit_finite tuc" using conv by (auto simp: unit_conversion_def unit_finite_def conv_finite_def res_simps)
  have raw: "dt_limits_table ?raw = []" "tg_unit ?raw = tuc" by (simp_all add: raw_governor_def)
  note one = init_common_ok [OF tms1 init raw(1) long, unfolded raw(2)]
  have unit: "unit_finite (tg_unit tg1)" using uf one(5) by simp
  note two = set_dt_limits_governor_ok [OF one(1) conv(1) unit fin lim one(2,3,6) rows [unfolded sel]]
  have keep: "recent_steps tg2 = recent_steps tg1" "end_time tg2 = end_time tg1"
    by (rule set_dt_limits_ok [OF one(1) conv(1) unit fin lim one(2)];
        simp add: set_permanent_constraint_sel only_table_sel)+
  then show st: "recent_steps tg = [zero_step (Fin s) tuc]" and "end_time tg = Fin x"
    using sel one by simp_all
  show "limits_sorted (dt_limits_table tg)" "\<not> row_time (dt_limits_table tg ! dt_limits_pos tg) \<le> Fin s"
    using two(2,3) sel by simp_all
  show "governor_ok tms' tg"
    using governor_ok_lower [OF two(1) _ _ sel(1,2,4,5,6,7,8)] st sel(1) limit_ok_start [OF lower]
    by (simp add: zero_step_def)
qed

section \<open>Reducing a step\<close>

text \<open>The state \<open>reduce_timestep\<close> restarts from: the last step is taken back.\<close>

definition step_back :: "time_governor \<Rightarrow> time_governor" where
  "step_back tg = tg\<lparr>recent_steps := tl (recent_steps tg),
     upper_constraint := last_upper_constraint tg, lower_constraint := last_lower_constraint tg\<rparr>"

lemma reduce_timestep_eq:
  "reduce_timestep tms tg r =
     bind_res (cur_step tg) (\<lambda>st.
       let (c, tg2) = set_upper_constraint (step_back tg) (r * step_length st) ''Reduce time step.''
       in if c < 0 then Inl (ExcMessage ''Internal error.'')
          else bind_res (next_time tms tg2) (\<lambda>tg3.
            bind_res (cur_step tg3) (\<lambda>st3. Inr (step_length st3 / step_length st, tg3))))"
  by (simp add: reduce_timestep_def step_back_def Let_def)

lemma step_back_recent:
  assumes "recent_steps tg = st # ss" and "after_step tg s tg'"
  shows "recent_steps tg' = s # st # take 1 ss" "recent_steps (step_back tg') = st # take 1 ss"
  using assms by (simp_all add: after_step_def push_step_Cons step_back_def)

lemma step_back_ok:
  assumes ok: "governor_ok tms tg" and st: "recent_steps tg = st # ss"
    and after: "after_step tg s tg'" and pos: "dt_limits_pos tg < length (dt_limits_table tg)"
    and pos': "dt_limits_pos tg' < length (dt_limits_table tg')"
  shows "governor_ok tms (step_back tg')"
proof -
  let ?row = "dt_limits_table tg ! dt_limits_pos tg"
  have cur: "current_ok tms tg st" using ok st by (simp add: governor_ok_def)
  then have row: "limit_ok tms tg (step_end st) (row_min_dt ?row)"
    using pos by (simp add: current_ok_def list_all_length)
  have eqs: "end_time (step_back tg') = end_time tg" "eq_mark_type (step_back tg') = eq_mark_type tg"
    "dt_limits_table (step_back tg') = dt_limits_table tg"
    "end_of_fixed_dt_interval (step_back tg') = end_of_fixed_dt_interval tg"
    "lower_constraint (step_back tg') = lower_constraint tg"
    using after by (simp_all add: after_step_def step_back_def)
  have "limit_ok tms tg (step_end st) (min_time_step tg')"
    using after row cur limit_ok_precision_max [OF row]
    by (auto simp: after_step_def Let_def current_ok_def split: if_splits)
  then have "limit_ok tms tg (step_end st) (min_time_step (step_back tg'))" by (simp add: step_back_def)
  moreover have "dt_limits_pos (step_back tg') < length (dt_limits_table (step_back tg'))"
    using pos' by (simp add: step_back_def)
  ultimately have "current_ok tms (step_back tg') st"
    using cur eqs by (simp add: current_ok_def limit_ok_cong [of "step_back tg'" tg] is_end_cong [of "step_back tg'" tg])
  then show ?thesis
    using ok eqs step_back_recent(2) [OF st after]
    by (simp add: governor_ok_def marks_known_cong [of "step_back tg'" tg] size_of_recent_steps_def)
qed

lemma governor_ok_upper:
  "governor_ok tms (tg\<lparr>upper_constraint := v, upper_constraint_message := w\<rparr>) = governor_ok tms tg"
  by (simp add: governor_ok_def current_ok_def limit_ok_def marks_known_def is_fixed_time_def
      equation_marks_def fixed_type_def is_end_def split: list.splits)

lemma set_upper_constraint_not_less:
  assumes "\<not> upper_constraint tg < u"
  shows "set_upper_constraint tg u msg =
    (if u < lower_constraint tg then 1 else 0,
     tg\<lparr>upper_constraint := std_max u (lower_constraint tg),
        upper_constraint_message := if u < lower_constraint tg then ''Forced lower constraint. '' @ msg else msg\<rparr>)"
  using assms by (simp add: set_upper_constraint_def std_max_def)

text \<open>The row of the limits is read after the step is pushed.\<close>

lemma next_time_overrun:
  assumes st: "recent_steps tg = st # ss" and "\<not> is_end tg st"
    and "\<not> step_lt st (end_of_fixed_dt_interval tg)" and "estimate_dt tms tg = Inr d"
    and "length (dt_limits_table tg) \<le> dt_limits_pos tg"
  shows "next_time tms tg = Inl TableOverrun"
proof -
  let ?tg1 = "tg\<lparr>recent_steps := push_step (make_next st d) (recent_steps tg),
      time_step_changed := \<not> deq (step_length st) d\<rparr>"
  have "cur_step ?tg1 = Inr (make_next st d)"
    by (simp add: get_step_def push_step_def size_of_recent_steps_def)
  moreover have "vec_at TableOverrun (dt_limits_table (reset_constraints ?tg1 s))
      (dt_limits_pos (reset_constraints ?tg1 s)) = Inl TableOverrun" for s
    using assms(5) by (simp add: reset_constraints_def)
  ultimately show ?thesis
    using assms(2,3) by (simp add: next_time_def get_step_head [OF st] free_advance_eq [OF st assms(4)] Let_def)
qed

section \<open>A fixed step\<close>

definition fixed_count :: "real \<Rightarrow> real \<Rightarrow> int" where
  "fixed_count rest h = \<lfloor>rest / h + 1 / 2\<rfloor>"

lemma fixed_advance_finite:
  assumes st: "recent_steps tg = st # ss" "step_end st = Fin e"
    and x: "end_of_fixed_dt_interval tg = Fin x" and h: "fixed_time_step tg = Fin h" "0 < h"
    and near: "e < x" "h \<le> 2 * (x - e)"
  obtains tg' where "fixed_advance tg st = Inr tg'" "1 \<le> fixed_count (x - e) h"
    "fixed_time_step tg' = Fin ((x - e) / of_int (fixed_count (x - e) h))"
    "recent_steps tg' = push_step (make_next st (fixed_time_step tg')) (recent_steps tg)"
    "\<not> is_time_step_fixed tg'" "end_of_fixed_dt_interval tg' = Fin x"
proof -
  let ?n = "fixed_count (x - e) h"
  have "1 / 2 \<le> (x - e) / h" using near h(2) by (simp add: pos_le_divide_eq)
  then have n: "1 \<le> ?n" unfolding fixed_count_def by linarith
  have pos: "0 < (x - e) / h" using near(1) h(2) by simp
  have r: "dround (Fin (x - e) / Fin h) = Fin (of_int ?n)"
    using near(1) h(2) by (simp add: fixed_count_def)
  have d: "Fin (x - e) / Fin (real_of_int ?n) = Fin ((x - e) / of_int ?n)" using n by simp
  let ?h = "Fin ((x - e) / of_int ?n)"
  let ?tg2 = "tg\<lparr>fixed_time_step := ?h, recent_steps := push_step (make_next st ?h) (recent_steps tg)\<rparr>"
  obtain ch where ch: "length_changed ?tg2 = Inr ch"
    using st(1) by (simp add: length_changed_def get_step_def push_step_Cons)
  have "fixed_advance tg st = (if is_time_step_fixed tg then Inr (?tg2\<lparr>is_time_step_fixed := False, time_step_changed := ch\<rparr>)
      else Inr (?tg2\<lparr>time_step_changed := False\<rparr>))"
    using ch by (simp add: fixed_advance_def x inf_time_def st(2) r d h(1) Let_def del: divide_double.simps)
  then show thesis using that n x by (cases "is_time_step_fixed tg") auto
qed

lemma empty_span_overruns:
  assumes "init_time tg = Fin t" and "end_time tg = Fin t"
    and "\<not> min_dt < time_step_precision" and "\<not> max_dt < min_dt"
  shows "set_dt_limits conv tms tg min_dt max_dt [] = Inl TableOverrun"
  using assms by (simp add: set_dt_limits_def)

section \<open>Properties\<close>

text \<open>A governor from 0 to 10 seconds, used to show that the hypotheses can hold.\<close>

definition sample_marks :: time_marks where
  "sample_marks = reinit\<lparr>next_mark_type := \<lparr>bitmap = 0, equation_index = 2\<rparr>,
     marks := [hd (marks reinit),
       [stopper MInf 1, \<lparr>mark_time = Fin 0, mtype = \<lparr>bitmap = 1, equation_index = 1\<rparr>\<rparr>,
        \<lparr>mark_time = Fin 10, mtype = \<lparr>bitmap = 1, equation_index = 1\<rparr>\<rparr>, stopper PInf 1]]\<rparr>"

definition sample_governor :: time_governor where
  "sample_governor = (raw_governor default_unit_conversion False False)\<lparr>
     recent_steps := [zero_step (Fin 0) default_unit_conversion], init_time := Fin 0, end_time := Fin 10,
     end_of_fixed_dt_interval := Fin 0, fixed_time_step := Fin 0,
     min_time_step := Fin (1/10), lower_constraint := Fin (1/10),
     max_time_step := Fin 4, upper_constraint := Fin 4,
     eq_mark_type := \<lparr>bitmap = 0, equation_index = 1\<rparr>,
     dt_limits_table := [\<lparr>row_time = Fin 0, row_min_dt = Fin (1/10), row_max_dt = Fin 4\<rparr>,
        \<lparr>row_time = Fin 10, row_min_dt = Fin (1/10), row_max_dt = Fin 4\<rparr>],
     dt_limits_pos := 1\<rparr>"

lemma sample_marks_ok: "tms_ok sample_marks"
  by (simp add: tms_ok_def sample_marks_def reinit_def n_types_def marks_ok_def stopper_def every_type_def
      mark_before_def epsilon_def)

lemma sample_governor_ok: "governor_ok sample_marks sample_governor"
proof -
  have "marks_known sample_marks sample_governor"
    using sample_marks_ok by (simp add: marks_known_def sample_governor_def sample_marks_def)
  moreover have "limit_ok sample_marks sample_governor (Fin 0) (Fin (1/10))"
    by (rule limit_ok_start) (simp_all add: time_step_precision_def epsilon_def)
  ultimately show ?thesis
    by (simp add: governor_ok_def current_ok_def sample_governor_def is_fixed_time_def equation_marks_def
        fixed_type_def sample_marks_def match_mask_def size_of_recent_steps_def zero_step_def
        step_lt_def precision_def epsilon_def)
qed

lemma sample_governor_sel:
  "recent_steps sample_governor = zero_step (Fin 0) default_unit_conversion # []"
  "step_end (zero_step (Fin 0) default_unit_conversion) = Fin 0"
  "step_length (zero_step (Fin 0) default_unit_conversion) = Fin 1"
  "end_time sample_governor = Fin 10" "\<not> is_end sample_governor (zero_step (Fin 0) default_unit_conversion)"
  by (simp_all add: sample_governor_def zero_step_def is_end_def step_ge_def deq_def inf_time_def
      tolerance_def epsilon_def)

text \<open>
  C1. From a sound state that has not reached the end, \<open>next_time\<close> always succeeds: it pushes one
  step with the next index whose length divides the distance to the next fixed mark into the
  smallest whole number of steps the constraints allow (or repeats the previous length when that
  differs by less than the precision), never passes that mark or the end time by more than the
  precision, resets the constraints, and leaves the state sound again.
\<close>

theorem next_time_correct:
  assumes "governor_ok tms tg" and "recent_steps tg = st # ss" and "step_end st = Fin e"
    and "step_length st = Fin l" and "\<not> is_end tg st"
  shows "\<exists>tg' f d. next_time tms tg = Inr tg' \<and> governor_ok tms tg' \<and>
    next_fixed_time tms tg st = Inr (Fin f) \<and> Fin f \<le> end_time tg \<and>
    after_step tg (make_next st (Fin d)) tg' \<and> good_step tg e l f d \<and>
    precision / 2 \<le> d \<and> e + d \<le> f + precision"
  using next_time_running [OF assms] by metis

theorem next_time_correct_witness:
  "\<exists>tg'. next_time sample_marks sample_governor = Inr tg' \<and> governor_ok sample_marks tg'"
  using next_time_correct [OF sample_governor_ok sample_governor_sel(1,2,3,5)] by blast



lemma clamp_facts:
  assumes "lower_constraint tg \<le> upper_constraint tg" and "x \<noteq> NaN"
  shows "upper_constraint (snd (set_upper_constraint tg x msg)) =
      clamp (lower_constraint tg) (upper_constraint tg) x"
    "lower_constraint (snd (set_upper_constraint tg x msg)) = lower_constraint tg"
    "lower_constraint (snd (set_lower_constraint tg x msg)) =
      clamp (lower_constraint tg) (upper_constraint tg) x"
    "upper_constraint (snd (set_lower_constraint tg x msg)) = upper_constraint tg"
    "fst (set_upper_constraint tg x msg) =
      (if upper_constraint tg < x then -1 else if x < lower_constraint tg then 1 else 0)"
    "fst (set_lower_constraint tg x msg) =
      (if upper_constraint tg < x then -1 else if x < lower_constraint tg then 1 else 0)"
    "lower_constraint tg \<le> clamp (lower_constraint tg) (upper_constraint tg) x"
    "clamp (lower_constraint tg) (upper_constraint tg) x \<le> upper_constraint tg"
proof -
  have order: "x < lower_constraint tg \<Longrightarrow> \<not> upper_constraint tg < x"
    using assms(1) by (cases x; cases "lower_constraint tg"; cases "upper_constraint tg") auto
  show "upper_constraint (snd (set_upper_constraint tg x msg)) =
      clamp (lower_constraint tg) (upper_constraint tg) x"
    and "lower_constraint (snd (set_lower_constraint tg x msg)) =
      clamp (lower_constraint tg) (upper_constraint tg) x"
    using order by (auto simp: set_upper_constraint_def set_lower_constraint_def clamp_def)
  show "lower_constraint tg \<le> clamp (lower_constraint tg) (upper_constraint tg) x"
    and "clamp (lower_constraint tg) (upper_constraint tg) x \<le> upper_constraint tg"
    using assms
    by (cases x; cases "lower_constraint tg"; cases "upper_constraint tg"; simp add: clamp_def)+
qed (simp_all add: set_upper_constraint_def set_lower_constraint_def)




definition sample_input :: tg_input where
  "sample_input = \<lparr>in_common_time_unit = ''s'', in_add_dt_limits_time_marks = False,
     in_start_time = (Fin 0, None), in_end_time = (Fin 10, None), in_init_dt = (Fin 0, None),
     in_min_dt = Some (Fin (1/2), None), in_max_dt = Some (Fin 2, None), in_dt_limits = [],
     in_write_used_timesteps = False\<rparr>"

lemma sample_built:
  "\<exists>tms' tg. governor_from_input (\<lambda>u. Inr (Fin 1)) reinit sample_input none_type False = Inr (tms', tg) \<and>
     lower_constraint tg = Fin (1/2) \<and> list_all (\<lambda>row. row_min_dt row = Fin (1/2)) (dt_limits_table tg)"
  by (simp add: governor_from_input_def sample_input_def choose_mark_type_def type_eq_def none_type_def
      new_mark_type_def reinit_def unit_conversion_def read_time_def init_common_def clip_end_time_def
      max_end_time_def add_fixed_mark_def equation_fixed_mark_type_def type_or_def raw_governor_def
      add_mark_def Let_def lower_bound_def mark_less_def every_type_def stopper_def times_equal_def
      time_step_precision_def epsilon_def merge_mark_def insert_at_def set_dt_limits_def
      set_permanent_constraint_def get_step_def zero_step_def apply_init_dt_def first_output_def)



text \<open>The sample governor after one step of length \<open>d\<close> taken with upper constraint \<open>u\<close>.\<close>

definition sample_after :: "double \<Rightarrow> real \<Rightarrow> time_governor" where
  "sample_after u d = sample_governor\<lparr>
     recent_steps := push_step (make_next (zero_step (Fin 0) default_unit_conversion) (Fin d))
       (recent_steps sample_governor),
     upper_constraint := std_min (Fin (10 - d)) (Fin 4), max_time_step := std_min (Fin (10 - d)) (Fin 4),
     last_lower_constraint := Fin (1/10), last_upper_constraint := u,
     dt_limits_pos := if 10 \<le> d then 2 else 1\<rparr>"

definition sample_long :: time_governor where
  "sample_long = sample_governor\<lparr>upper_constraint := Fin 20, upper_constraint_message := []\<rparr>"

lemma sample_long_ok: "governor_ok sample_marks sample_long"
  using sample_governor_ok governor_ok_upper by (simp add: sample_long_def)

lemma sample_long_sel:
  "recent_steps sample_long = zero_step (Fin 0) default_unit_conversion # []"
  "step_end (zero_step (Fin 0) default_unit_conversion) = Fin 0"
  "step_length (zero_step (Fin 0) default_unit_conversion) = Fin 1"
  "end_time sample_long = Fin 10" "\<not> is_end sample_long (zero_step (Fin 0) default_unit_conversion)"
  using sample_governor_sel by (simp_all add: sample_long_def is_end_def)

lemma sample_after_step:
  "after_step sample_governor (make_next (zero_step (Fin 0) default_unit_conversion) (Fin (10/3)))
     (sample_after (Fin 4) (10/3))"
  "after_step sample_long (make_next (zero_step (Fin 0) default_unit_conversion) (Fin 10))
     (sample_after (Fin 20) 10)"
  by (simp_all add: after_step_def sample_after_def sample_long_def sample_governor_def make_next_def
      make_next_to_def zero_step_def time_step_precision_def epsilon_def)

text \<open>
  Reducing the last step restarts from the previous time: with a factor whose reduced length
  does not exceed the previous upper constraint, and with limit rows left, \<open>reduce_timestep\<close>
  succeeds, keeps the state sound, and the new step has the index of the one taken back and is
  chosen with the upper constraint lowered to the reduced length (never below the lower one).
\<close>

theorem reduce_timestep_correct:
  assumes "governor_ok tms tg" and "recent_steps tg = st # ss" and "step_end st = Fin e"
    and "step_length st = Fin l" and "\<not> is_end tg st"
    and "after_step tg (make_next st (Fin d)) tg1"
    and "dt_limits_pos tg1 < length (dt_limits_table tg1)"
    and "\<not> upper_constraint tg < Fin (r * d)"
  shows "\<exists>tg2 f d'. reduce_timestep tms tg1 (Fin r) = Inr (Fin d' / Fin d, tg2) \<and> governor_ok tms tg2 \<and>
    recent_steps tg2 = make_next st (Fin d') # recent_steps (step_back tg1) \<and>
    next_fixed_time tms tg st = Inr (Fin f) \<and>
    good_step (tg\<lparr>upper_constraint := std_max (Fin (r * d)) (lower_constraint tg)\<rparr>) e l f d'"
proof -
  let ?u = "std_max (Fin (r * d)) (lower_constraint tg)"
  have pos: "dt_limits_pos tg < length (dt_limits_table tg)"
    using assms(1,2,5) by (auto simp: governor_ok_def current_ok_def)
  note prev = step_back_recent [OF assms(2,6)]
  have sel: "upper_constraint (step_back tg1) = upper_constraint tg"
    "lower_constraint (step_back tg1) = lower_constraint tg"
    "end_time (step_back tg1) = end_time tg" "eq_mark_type (step_back tg1) = eq_mark_type tg"
    using assms(6) by (simp_all add: after_step_def step_back_def)
  obtain c msg where c: "c \<ge> 0" "set_upper_constraint (step_back tg1) (Fin (r * d)) ''Reduce time step.'' =
      (c, (step_back tg1)\<lparr>upper_constraint := ?u, upper_constraint_message := msg\<rparr>)"
    using set_upper_constraint_not_less [of "step_back tg1" "Fin (r * d)"] assms(8) sel by simp
  let ?tg2 = "(step_back tg1)\<lparr>upper_constraint := ?u, upper_constraint_message := msg\<rparr>"
  have ok2: "governor_ok tms ?tg2"
    using step_back_ok [OF assms(1,2,6) pos assms(7)] governor_ok_upper by simp
  have rs2: "recent_steps ?tg2 = st # take 1 ss" and run2: "\<not> is_end ?tg2 st"
    using prev assms(5) sel by (simp_all add: is_end_def)
  obtain tg3 f d' where n: "next_time tms ?tg2 = Inr tg3" "governor_ok tms tg3"
    "after_step ?tg2 (make_next st (Fin d')) tg3" "next_fixed_time tms ?tg2 st = Inr (Fin f)"
    "good_step ?tg2 e l f d'"
    by (rule next_time_running [OF ok2 rs2 assms(3,4) run2])
  have rs3: "recent_steps tg3 = make_next st (Fin d') # recent_steps (step_back tg1)"
    using n(3) rs2 prev by (simp add: after_step_def push_step_def size_of_recent_steps_def)
  have "reduce_timestep tms tg1 (Fin r) = Inr (Fin d' / Fin d, tg3)"
    using c n(1) prev(1) rs3
    by (simp add: reduce_timestep_eq get_step_def make_next_def make_next_to_def del: divide_double.simps)
  moreover have "next_fixed_time tms tg st = Inr (Fin f)"
    using n(4) sel(4) by (simp add: next_fixed_time_def equation_fixed_mark_type_def)
  moreover have "good_step (tg\<lparr>upper_constraint := ?u\<rparr>) e l f d'"
    using n(5) sel by (simp add: good_step_def)
  ultimately show ?thesis using n(2) rs3 by blast
qed

theorem reduce_timestep_correct_witness:
  "\<exists>d' tg2. reduce_timestep sample_marks (sample_after (Fin 4) (10/3)) (Fin (1/2)) = Inr (d', tg2) \<and>
     governor_ok sample_marks tg2"
  using reduce_timestep_correct [OF sample_governor_ok sample_governor_sel(1,2,3,5)
      sample_after_step(1), of "1/2"]
  by (simp add: sample_after_def sample_governor_def) blast

text \<open>
  C39. Reducing the step that consumed the last row of the limits table (the step that reached the
  end time) reads past the end of that table: the position in the table is not taken back with
  the step.
\<close>

theorem reduce_timestep_overrun:
  assumes "governor_ok tms tg" and "recent_steps tg = st # ss" and "step_end st = Fin e"
    and "step_length st = Fin l" and "\<not> is_end tg st"
    and "after_step tg (make_next st (Fin d)) tg1"
    and "dt_limits_pos tg1 = length (dt_limits_table tg1)"
    and "\<not> upper_constraint tg < Fin (r * d)"
  shows "reduce_timestep tms tg1 (Fin r) = Inl TableOverrun"
proof -
  note prev = step_back_recent [OF assms(2,6)]
  have sel: "upper_constraint (step_back tg1) = upper_constraint tg"
    "lower_constraint (step_back tg1) = lower_constraint tg"
    "end_time (step_back tg1) = end_time tg" "eq_mark_type (step_back tg1) = eq_mark_type tg"
    "end_of_fixed_dt_interval (step_back tg1) = end_of_fixed_dt_interval tg"
    "dt_limits_table (step_back tg1) = dt_limits_table tg1" "dt_limits_pos (step_back tg1) = dt_limits_pos tg1"
    using assms(6) by (simp_all add: after_step_def step_back_def)
  obtain c u msg where c: "c \<ge> 0" "set_upper_constraint (step_back tg1) (Fin (r * d)) ''Reduce time step.'' =
      (c, (step_back tg1)\<lparr>upper_constraint := u, upper_constraint_message := msg\<rparr>)"
    using set_upper_constraint_not_less [of "step_back tg1" "Fin (r * d)"] assms(8) sel by simp
  let ?tg2 = "(step_back tg1)\<lparr>upper_constraint := u, upper_constraint_message := msg\<rparr>"
  have nofix: "\<not> step_lt st (end_of_fixed_dt_interval ?tg2)"
    using assms(1,2) sel by (simp add: governor_ok_def current_ok_def)
  have rs2: "recent_steps ?tg2 = st # take 1 ss" and run2: "\<not> is_end ?tg2 st"
    using prev assms(5) sel by (simp_all add: is_end_def)
  obtain f where "next_fixed_time tms tg st = Inr f"
    using estimate_dt_ok [OF assms(1-5)] by metis
  then have "next_fixed_time tms ?tg2 st = Inr f"
    using sel(4) by (simp add: next_fixed_time_def equation_fixed_mark_type_def)
  then have est: "estimate_dt tms ?tg2 = Inr (estimate_step ?tg2 st f)"
    using run2 nofix by (simp add: estimate_dt_def get_step_head [OF rs2])
  have "next_time tms ?tg2 = Inl TableOverrun"
    using assms(7) sel by (intro next_time_overrun [OF rs2 run2 nofix est]) simp
  then show ?thesis
    using c prev(1) by (simp add: reduce_timestep_eq get_step_def make_next_def make_next_to_def)
qed

theorem reduce_timestep_overrun_witness:
  "reduce_timestep sample_marks (sample_after (Fin 20) 10) (Fin (1/2)) = Inl TableOverrun"
  using reduce_timestep_overrun [OF sample_long_ok sample_long_sel(1,2,3,5)
      sample_after_step(2), of "1/2"]
  by (simp add: sample_after_def sample_governor_def sample_long_def)

text \<open>
  Inside an interval with a fixed step the governor corrects the step so that a whole number
  of steps fits into the rest of the interval, and after the step the rest is exactly one step
  shorter.
\<close>

theorem fixed_interval_steps:
  assumes "recent_steps tg = st # ss" and "step_end st = Fin e"
    and "end_of_fixed_dt_interval tg = Fin x" and "fixed_time_step tg = Fin h" and "0 < h"
    and "e < x" and "h \<le> 2 * (x - e)"
  shows "\<exists>tg' h'. fixed_advance tg st = Inr tg' \<and> fixed_time_step tg' = Fin h' \<and> 0 < h' \<and>
    step_end (hd (recent_steps tg')) = Fin (e + h') \<and>
    x - (e + h') = (of_int (fixed_count (x - e) h) - 1) * h' \<and> 1 \<le> fixed_count (x - e) h \<and>
    (1 < fixed_count (x - e) h \<longrightarrow> fixed_count (x - (e + h')) h' = fixed_count (x - e) h - 1)"
proof -
  let ?n = "fixed_count (x - e) h"
  obtain tg' where tg': "fixed_advance tg st = Inr tg'" "1 \<le> ?n"
    "fixed_time_step tg' = Fin ((x - e) / of_int ?n)"
    "recent_steps tg' = push_step (make_next st (fixed_time_step tg')) (recent_steps tg)"
    by (rule fixed_advance_finite [OF assms])
  let ?h = "(x - e) / of_int ?n"
  have h: "0 < ?h" using assms(6) tg'(2) by simp
  have rest: "x - (e + ?h) = (of_int ?n - 1) * ?h" using tg'(2) by (simp add: field_simps)
  have "(x - (e + ?h)) / ?h = of_int (?n - 1)"
    unfolding rest using h by (simp only: nonzero_mult_div_cancel_right less_imp_neq [OF h, symmetric] not_False_eq_True of_int_diff of_int_1)
  then have "fixed_count (x - (e + ?h)) ?h = ?n - 1"
    unfolding fixed_count_def by (simp add: floor_eq_iff)
  then show ?thesis
    using tg' h rest assms(1,2) by (auto simp: push_step_Cons make_next_def make_next_to_def)
qed

theorem fixed_interval_steps_witness:
  "\<exists>tg'. fixed_advance (sample_governor\<lparr>end_of_fixed_dt_interval := Fin 10, fixed_time_step := Fin 3\<rparr>)
     (zero_step (Fin 0) default_unit_conversion) = Inr tg' \<and> fixed_count 10 3 = 3"
  using fixed_interval_steps [of "sample_governor\<lparr>end_of_fixed_dt_interval := Fin 10, fixed_time_step := Fin 3\<rparr>"
      "zero_step (Fin 0) default_unit_conversion" "[]" 0 10 3] sample_governor_sel
  by (auto simp: fixed_count_def floor_eq_iff)

end
