(* ===== verification/Output_Times.thy ===== *)
theory Output_Times
  imports Time_Governor
begin

text \<open>
  The set of output times, \<open>OutputTimeSet\<close> of \<open>src/src/io/output_time_set.hh\<close> and
  \<open>output_time_set.cc\<close>, on top of the time marks and the time governor: every output time is a
  time of a mark with the output type. The static database of marks is passed explicitly, the input
  array is given by its values, and the warnings about ignored grids are not modelled.
\<close>

section \<open>Model\<close>

datatype output_error =
    AssertGE double double
  | AssertLE double double
  | GovernorError tg_error

type_synonym output_state = "time_marks \<times> double set"

record time_grid =
  grid_begin :: "time_value option"
  grid_step :: "time_value option"
  grid_end :: "time_value option"

definition contains :: "double set \<Rightarrow> time_mark \<Rightarrow> bool" where
  "contains ts m \<longleftrightarrow> mark_time m \<in> ts"

definition output_type :: "time_marks \<Rightarrow> mark_type \<Rightarrow> (output_error, mark_type) res" where
  "output_type tms ty = map_err (GovernorError \<circ> MarksError) (type_or ty (type_output tms))"

definition add_marked_time :: "mark_type \<Rightarrow> output_state \<Rightarrow> double \<Rightarrow> (output_error, output_state) res" where
  "add_marked_time ty st time =
     bind_res (map_err (GovernorError \<circ> MarksError) (add_mark (fst st) \<lparr>mark_time = time, mtype = ty\<rparr>)) (\<lambda>(m, tms').
       Inr (tms', insert (mark_time m) (snd st)))"

definition add_time :: "output_state \<Rightarrow> double \<Rightarrow> mark_type \<Rightarrow> (output_error, output_state) res" where
  "add_time st time ty = bind_res (output_type (fst st) ty) (\<lambda>oty. add_marked_time oty st time)"

definition add_grid_times ::
  "output_state \<Rightarrow> double \<Rightarrow> double \<Rightarrow> double \<Rightarrow> mark_type \<Rightarrow> (output_error, output_state) res" where
  "add_grid_times st t_begin step t_end ty =
     (if \<not> Fin (2 * epsilon) \<le> step then Inl (AssertGE step (Fin (2 * epsilon)))
      else if \<not> t_begin \<le> t_end then Inl (AssertLE t_begin t_end)
      else if \<not> t_end \<le> inf_time then Inl (AssertLE t_end inf_time)
      else bind_res (output_type (fst st) ty) (\<lambda>oty.
        let n_dbl = (t_end - t_begin) / step + time_step_precision;
            capped = Fin 1000000 < n_dbl;
            n_dbl' = (if capped then Fin 1000000 else n_dbl);
            step' = (if capped then (t_end - t_begin) / n_dbl' else step)
        in case double_to_u32 n_dbl' of
             None \<Rightarrow> Inl (GovernorError (MarksError BadConversion))
           | Some n_steps \<Rightarrow>
               fold_res (\<lambda>s i. add_marked_time oty s (t_begin + Fin (real i) * step')) st [0..<Suc (unat n_steps)]))"

text \<open>The loop over the grids of the input array.\<close>

definition read_grid ::
  "convert_time \<Rightarrow> time_governor \<Rightarrow> mark_type \<Rightarrow> output_state \<Rightarrow> time_grid \<Rightarrow> (output_error, output_state) res" where
  "read_grid conv tg ty st g =
     bind_res (map_err GovernorError (read_time conv (tg_unit tg) (grid_begin g) (init_time tg))) (\<lambda>t_begin.
     bind_res (map_err GovernorError (read_time conv (tg_unit tg) (grid_end g) (end_time tg))) (\<lambda>t_end0.
     bind_res (case grid_step g of
                 None \<Rightarrow> Inr (t_begin, coef (tg_unit tg))
               | Some s \<Rightarrow> bind_res (map_err GovernorError (read_time conv (tg_unit tg) (Some s) NaN)) (\<lambda>t_step.
                   Inr (t_end0, t_step))) (\<lambda>(t_end, t_step).
       if t_end < t_begin then Inr st
       else if t_step < Fin (2 * epsilon) then Inr st
       else add_grid_times st t_begin t_step t_end ty)))"

definition read_grids ::
  "convert_time \<Rightarrow> time_governor \<Rightarrow> mark_type \<Rightarrow> output_state \<Rightarrow> time_grid list \<Rightarrow> (output_error, output_state) res" where
  "read_grids conv tg ty st gs = fold_res (read_grid conv tg ty) st gs"

definition read_from_input ::
  "convert_time \<Rightarrow> time_governor \<Rightarrow> output_state \<Rightarrow> time_grid list \<Rightarrow> (output_error, output_state) res" where
  "read_from_input conv tg st gs =
     bind_res (map_err GovernorError (equation_fixed_mark_type (fst st) tg)) (\<lambda>ty. read_grids conv tg ty st gs)"

section \<open>Marked times\<close>

text \<open>Every output time added is the time of a mark with the given bits.\<close>

definition marked :: "mark_type \<Rightarrow> time_marks \<Rightarrow> double \<Rightarrow> bool" where
  "marked ty tms \<tau> \<longleftrightarrow> (\<exists>m \<in> set (marks tms ! unat (equation_index ty)). mark_time m = \<tau> \<and> match_mask m ty)"

definition type_of_db :: "mark_type \<Rightarrow> time_marks \<Rightarrow> bool" where
  "type_of_db ty tms \<longleftrightarrow> tms_ok tms \<and> unat (equation_index ty) < length (marks tms)"

lemma add_mark_returned:
  assumes "add_mark tms m = Inr (m', tms')"
  shows "(m' = m \<or> times_equal m' m) \<and> match_mask m' (mtype m)"
proof -
  have merge: "(m' = m \<or> times_equal m' m) \<and> match_mask m' (mtype m)"
    if "merge_mark tms i p m = Inr (m', t)" "times_equal (marks tms ! i ! p) m" for i p t
  proof -
    have a: "add_to_type (marks tms ! i ! p) (mtype m) = Inr m'" using that(1) by (auto simp: merge_mark_def res_simps)
    show ?thesis using add_to_type_sel(1) [OF a] match_mask_added [OF a] that(2) by (simp add: times_equal_def)
  qed
  define i where "i = unat (equation_index (mtype m))"
  define ms where "ms = marks tms ! i"
  have i: "i < length (marks tms)"
    using assms by (auto simp: add_mark_def i_def [symmetric] Let_def vec_at_def res_simps split: if_splits)
  then show ?thesis
    using assms merge by (auto simp: add_mark_def i_def [symmetric] ms_def [symmetric] Let_def vec_at_def res_simps
        match_mask_own_type split: if_splits)
qed

lemma marked_keeps:
  assumes "tms_ok tms" "tms_ok tms'" and "unat (equation_index ty) < length (marks tms)" "unat (equation_index ty) < length (marks tms')"
    and added: "mark_added (marks tms ! unat (equation_index ty)) m (marks tms' ! unat (equation_index ty))"
    and "marked ty tms \<tau>"
  shows "marked ty tms' \<tau>"
proof -
  let ?i = "unat (equation_index ty)"
  obtain m0 where m0: "m0 \<in> set (marks tms ! ?i)" "mark_time m0 = \<tau>" "match_mask m0 ty"
    using assms(6) by (auto simp: marked_def)
  obtain m1 where m1: "m1 \<in> set (marks tms' ! ?i)" "mark_time m1 = mark_time m0" "match_mask m1 (mtype m0)"
    using added m0(1) unfolding mark_added_def by blast
  have "match_mask m1 ty"
    using match_mask_trans [OF m1(3) m0(3)] marks_ok_index tms_ok_marks_ok assms(1-4) m0(1) m1(1) by metis
  then show ?thesis using m0 m1 unfolding marked_def by metis
qed

lemma add_marked_time_ok:
  assumes db: "type_of_db ty (fst st)" and t: "is_fin time"
  shows "\<exists>st' \<tau>. add_marked_time ty st time = Inr st' \<and> type_of_db ty (fst st') \<and> snd st' = insert \<tau> (snd st)
    \<and> \<bar>\<tau> - time\<bar> < time_step_precision \<and> marked ty (fst st') \<tau> \<and> (\<forall>\<sigma>. marked ty (fst st) \<sigma> \<longrightarrow> marked ty (fst st') \<sigma>)
    \<and> length (marks (fst st')) = length (marks (fst st))"
proof -
  let ?m = "\<lparr>mark_time = time, mtype = ty\<rparr>" and ?i = "unat (equation_index ty)"
  have ok: "tms_ok (fst st)" "?i < length (marks (fst st))" using db by (simp_all add: type_of_db_def)
  have nf: "mark_time ?m \<noteq> NaN" "mark_time ?m \<noteq> MInf" using t by auto
  obtain m' ms' where add: "add_mark (fst st) ?m = Inr (m', (fst st)\<lparr>marks := (marks (fst st))[?i := ms']\<rparr>)"
    and ms': "marks_ok (equation_index ty) ms'" "mark_added (marks (fst st) ! ?i) ?m ms'" "m' \<in> set ms'"
    using add_mark_ok [of "fst st" ?m] ok nf by (metis time_mark.select_convs(2))
  define tms' where "tms' = (fst st)\<lparr>marks := (marks (fst st))[?i := ms']\<rparr>"
  have ok': "tms_ok tms'" unfolding tms'_def by (rule tms_ok_update [OF ok ms'(1)])
  have at: "marks tms' ! ?i = ms'" "length (marks tms') = length (marks (fst st))" using ok(2) by (simp_all add: tms'_def)
  have ret: "m' = ?m \<or> times_equal m' ?m" "match_mask m' ty" using add_mark_returned [OF add] by simp_all
  have "add_marked_time ty st time = Inr (tms', insert (mark_time m') (snd st))"
    using add by (simp add: add_marked_time_def tms'_def)
  moreover have "\<bar>mark_time m' - time\<bar> < time_step_precision"
    using ret(1) t by (auto simp: times_equal_def is_fin_iff time_step_precision_def)
  moreover have "marked ty tms' (mark_time m')" using ms'(3) ret(2) at by (auto simp: marked_def)
  moreover have "marked ty (fst st) \<sigma> \<Longrightarrow> marked ty tms' \<sigma>" for \<sigma>
    by (rule marked_keeps [OF ok(1) ok' ok(2)]) (use at ok ms'(2) in simp_all)
  ultimately show ?thesis
    using ok' ok(2) at by (intro exI [of _ "(tms', insert (mark_time m') (snd st))"] exI [of _ "mark_time m'"])
      (simp add: type_of_db_def)
qed

text \<open>What a state gained by marked output times close to the wanted times \<open>ts\<close>.\<close>

definition gained :: "mark_type \<Rightarrow> double list \<Rightarrow> output_state \<Rightarrow> output_state \<Rightarrow> bool" where
  "gained ty ts st st' \<longleftrightarrow> type_of_db ty (fst st') \<and> snd st \<subseteq> snd st'
     \<and> (\<forall>\<tau> \<in> snd st' - snd st. marked ty (fst st') \<tau>)
     \<and> (\<forall>t \<in> set ts. \<exists>\<tau> \<in> snd st'. \<bar>\<tau> - t\<bar> < time_step_precision \<and> marked ty (fst st') \<tau>)
     \<and> (\<forall>\<sigma>. marked ty (fst st) \<sigma> \<longrightarrow> marked ty (fst st') \<sigma>)"

lemma add_marked_times_gain:
  assumes "type_of_db ty (fst st)" and "\<forall>t \<in> set ts. is_fin t"
  shows "\<exists>st'. fold_res (add_marked_time ty) st ts = Inr st' \<and> gained ty ts st st'"
  using assms
proof (induction ts rule: rev_induct)
  case Nil
  then show ?case by (simp add: gained_def)
next
  case (snoc t ts)
  then obtain s1 where s1: "fold_res (add_marked_time ty) st ts = Inr s1" "gained ty ts st s1" by auto
  then have "type_of_db ty (fst s1)" by (simp add: gained_def)
  from add_marked_time_ok [OF this, of t] snoc.prems(2) obtain s2 \<tau> where
    s2: "add_marked_time ty s1 t = Inr s2" "type_of_db ty (fst s2)" "snd s2 = insert \<tau> (snd s1)"
      "\<bar>\<tau> - t\<bar> < time_step_precision" "marked ty (fst s2) \<tau>" "\<forall>\<sigma>. marked ty (fst s1) \<sigma> \<longrightarrow> marked ty (fst s2) \<sigma>"
    by auto
  have "gained ty (ts @ [t]) st s2"
    using s1(2) s2(2-6) unfolding gained_def by (auto; blast)
  then show ?case using s1(1) s2(1) by (simp add: fold_res_append)
qed

lemma fold_res_map: "fold_res f s (map g xs) = fold_res (\<lambda>s x. f s (g x)) s xs"
  by (induction xs arbitrary: s) (simp_all add: bind_res_def split: sum.splits)

text \<open>The number of steps and the step that the code uses for a grid; at most a million steps are made.\<close>

definition grid_steps :: "real \<Rightarrow> real \<Rightarrow> real \<Rightarrow> nat \<times> real" where
  "grid_steps a d e =
     (if 1000000 < (e - a) / d + 16 * epsilon then (1000000, (e - a) / 1000000)
      else (nat \<lfloor>(e - a) / d + 16 * epsilon\<rfloor>, d))"

lemma add_grid_times_fold:
  assumes "2 * epsilon \<le> d" and "a \<le> e" and oty: "output_type (fst st) ty = Inr oty" and g: "grid_steps a d e = (n, d')"
  shows "add_grid_times st (Fin a) (Fin d) (Fin e) ty
    = fold_res (add_marked_time oty) st (map (\<lambda>i. Fin (a + real i * d')) [0..<Suc n])"
proof -
  let ?x = "(e - a) / d + 16 * epsilon"
  have d: "0 < d" using assms(1) epsilon_pos(1) by linarith
  then have x: "0 \<le> ?x" using assms(2) by simp
  have n: "n \<le> 1000000" using g x by (auto simp: grid_steps_def split: if_splits) linarith
  have un: "unat (word_of_nat n :: u32) = n" using n by (simp add: unat_of_nat)
  have conv: "double_to_u32 (if 1000000 < ?x then Fin 1000000 else Fin ?x) = Some (word_of_nat n)"
  proof (cases "1000000 < ?x")
    case True
    then show ?thesis using g by (simp add: grid_steps_def)
  next
    case False
    then have "\<lfloor>?x\<rfloor> = int n" using g x by (auto simp: grid_steps_def)
    then show ?thesis using False x by simp
  qed
  have guards: "Fin (2 * epsilon) \<le> Fin d" "Fin a \<le> Fin e" "Fin e \<le> inf_time" using assms by (simp_all add: inf_time_def)
  have nd: "(Fin e - Fin a) / Fin d + time_step_precision = Fin ?x" using d by (simp add: time_step_precision_def)
  have "add_grid_times st (Fin a) (Fin d) (Fin e) ty
      = fold_res (\<lambda>s i. add_marked_time oty s (Fin a + Fin (real i) * Fin d')) st [0..<Suc n]"
    using guards conv g un unfolding add_grid_times_def oty nd Let_def
    by (auto simp: grid_steps_def simp del: upt_Suc split: if_splits)
  then show ?thesis by (simp add: fold_res_map del: upt_Suc)
qed

section \<open>Properties\<close>

text \<open>
  C22. Output grids and time marks agree. Adding a grid of output times to a well-formed database
  of marks returns; for every time of the grid (at most a million steps are made) the set then
  contains a time within the precision that is the time of a mark with the output type, every new time
  of the set is the time of such a mark, and no earlier output time is lost.
\<close>

theorem output_grid_correct:
  assumes "2 * epsilon \<le> d" and "a \<le> e" and oty: "type_or ty (type_output tms) = Inr oty"
    and db: "tms_ok tms" "unat (equation_index oty) < length (marks tms)"
  shows "\<exists>tms' ts'. add_grid_times (tms, ts) (Fin a) (Fin d) (Fin e) ty = Inr (tms', ts') \<and> tms_ok tms' \<and> ts \<subseteq> ts'
    \<and> fst (grid_steps a d e) \<le> 1000000
    \<and> (\<forall>i \<le> fst (grid_steps a d e). \<exists>m \<in> set (marks tms' ! unat (equation_index oty)).
         contains ts' m \<and> match_mask m oty \<and> \<bar>mark_time m - Fin (a + real i * snd (grid_steps a d e))\<bar> < time_step_precision)
    \<and> (\<forall>\<tau> \<in> ts' - ts. \<exists>m \<in> set (marks tms' ! unat (equation_index oty)). mark_time m = \<tau> \<and> match_mask m oty)"
proof -
  obtain n d' where g: "grid_steps a d e = (n, d')" by fastforce
  have "0 < d" using assms(1) epsilon_pos(1) by linarith
  then have "0 \<le> (e - a) / d + 16 * epsilon" using assms(2) by simp
  then have n: "n \<le> 1000000" using g by (auto simp: grid_steps_def split: if_splits) linarith
  have "output_type tms ty = Inr oty" by (simp add: output_type_def oty)
  then have run: "add_grid_times (tms, ts) (Fin a) (Fin d) (Fin e) ty
      = fold_res (add_marked_time oty) (tms, ts) (map (\<lambda>i. Fin (a + real i * d')) [0..<Suc n])"
    using add_grid_times_fold [OF assms(1,2) _ g, of "(tms, ts)"] by simp
  have "type_of_db oty (fst (tms, ts))" using db by (simp add: type_of_db_def)
  from add_marked_times_gain [OF this, of "map (\<lambda>i. Fin (a + real i * d')) [0..<Suc n]"] obtain tms' ts' where
    r: "fold_res (add_marked_time oty) (tms, ts) (map (\<lambda>i. Fin (a + real i * d')) [0..<Suc n]) = Inr (tms', ts')"
    and gn: "gained oty (map (\<lambda>i. Fin (a + real i * d')) [0..<Suc n]) (tms, ts) (tms', ts')"
    by (auto simp del: upt_Suc)
  have "\<exists>m \<in> set (marks tms' ! unat (equation_index oty)).
      contains ts' m \<and> match_mask m oty \<and> \<bar>mark_time m - Fin (a + real i * d')\<bar> < time_step_precision" if "i \<le> n" for i
  proof -
    have "Fin (a + real i * d') \<in> set (map (\<lambda>i. Fin (a + real i * d')) [0..<Suc n])" using that by auto
    then obtain \<tau> where "\<tau> \<in> ts'" "\<bar>\<tau> - Fin (a + real i * d')\<bar> < time_step_precision" "marked oty tms' \<tau>"
      using gn unfolding gained_def by (metis snd_conv fst_conv)
    then show ?thesis unfolding marked_def contains_def by blast
  qed
  moreover have "tms_ok tms'" "ts \<subseteq> ts'" "\<forall>\<tau> \<in> ts' - ts. marked oty tms' \<tau>"
    using gn by (auto simp: gained_def type_of_db_def)
  moreover have "add_grid_times (tms, ts) (Fin a) (Fin d) (Fin e) ty = Inr (tms', ts')" using run r by simp
  ultimately show ?thesis
    using n unfolding g fst_conv snd_conv marked_def by (intro exI [of _ tms'] exI [of _ ts']) simp
qed

text \<open>A grid with the step 1 from 0 to 2 on the initial database.\<close>

theorem output_grid_correct_witness:
  "\<exists>tms' ts'. add_grid_times (reinit, {}) (Fin 0) (Fin 1) (Fin 2) (type_fixed_time reinit) = Inr (tms', ts') \<and> tms_ok tms'"
proof -
  have "2 * epsilon \<le> 1" using epsilon_small by simp
  then show ?thesis
    using output_grid_correct [of 1 0 2 "type_fixed_time reinit" reinit _ "{}"] reinit_ok
    by (auto simp: reinit_def type_or_def)
qed

end
