(* ===== verification/Region_DB.thy ===== *)
theory Region_DB
  imports Prelude
begin

text \<open>
  The database of regions of a mesh: \<open>RegionIdx\<close>, \<open>Region\<close> and \<open>RegionDB\<close> of
  \<open>src/src/mesh/region.hh\<close> and \<open>region.cc\<close>. A region is its index; the multi-index table is the
  list of its items with the uniqueness checks of the container; the sets of regions are a map
  from names to lists of indices. The code runs with the debug assertions (\<open>OLD_ASSERT\<close>) off:
  a lookup of an index that is not there is undefined behaviour, \<open>UndefinedAccess\<close>.
\<close>

unbundle bit_operations_syntax

section \<open>Regions\<close>

type_synonym region_idx = u32
type_synonym region_set = "region_idx list"

datatype region_error =
    ExcAddingIntoClosed string u32
  | ExcNonuniqueID string u32 string
  | ExcNonuniqueLabel string u32 u32
  | ExcInconsistentBoundary string u32
  | ExcCantAdd string u32
  | ExcUnknownSet string
  | ExcUniqueRegionId u32
  | ExcEmptyRegionSetResult string
  | UsrErrDimension u32
  | NotClosed
  | UndefinedAccess

type_synonym 'a region_res = "(region_error, 'a) res"

definition undefined_region :: region_idx where
  "undefined_region = 0xffffffff"

definition is_boundary_idx :: "region_idx \<Rightarrow> bool" where
  "is_boundary_idx i \<longleftrightarrow> i AND 1 = 0"

definition is_valid :: "region_idx \<Rightarrow> bool" where
  "is_valid i \<longleftrightarrow> i \<noteq> undefined_region"

definition boundary_idx :: "region_idx \<Rightarrow> u32" where
  "boundary_idx i = drop_bit 1 i"

definition bulk_idx :: "region_idx \<Rightarrow> u32" where
  "bulk_idx i = drop_bit 1 i"

definition is_in_region_set :: "region_idx \<Rightarrow> region_set \<Rightarrow> bool" where
  "is_in_region_set r rs \<longleftrightarrow> list_ex (\<lambda>x. x = r) rs"

section \<open>The database\<close>

record region_item =
  index :: region_idx
  dim_id :: "u32 \<times> u32"
  label :: string
  used :: bool
  address :: string

record region_db =
  region_table :: "region_item list"
  closed :: bool
  n_boundary :: u32
  n_bulk :: u32
  max_id :: u32
  sets :: "string \<rightharpoonup> region_set"
  el_to_reg_map :: "(u32 \<times> u32) list"

definition max_n_regions :: u32 where "max_n_regions = 10000"

definition undefined_dim :: u32 where "undefined_dim = 10"

definition new_db :: region_db where
  "new_db = \<lparr>region_table = [], closed = False, n_boundary = 0, n_bulk = 0, max_id = 0,
     sets = Map.empty, el_to_reg_map = []\<rparr>"

definition is_boundary_label :: "string \<Rightarrow> bool" where
  "is_boundary_label l \<longleftrightarrow> l \<noteq> [] \<and> hd l = CHR ''.''"

text \<open>Lookups by the unique keys of the container, its insertion and replacement.\<close>

definition find_index :: "region_item list \<Rightarrow> region_idx \<Rightarrow> region_item option" where
  "find_index t i = find (\<lambda>it. index it = i) t"

definition find_dim_id :: "region_item list \<Rightarrow> u32 \<times> u32 \<Rightarrow> region_item option" where
  "find_dim_id t k = find (\<lambda>it. dim_id it = k) t"

definition find_by_label :: "region_item list \<Rightarrow> string \<Rightarrow> region_item option" where
  "find_by_label t l = find (\<lambda>it. label it = l) t"

definition clashes :: "region_item \<Rightarrow> region_item \<Rightarrow> bool" where
  "clashes a b \<longleftrightarrow> index a = index b \<or> dim_id a = dim_id b \<or> label a = label b"

definition table_insert :: "region_item list \<Rightarrow> region_item \<Rightarrow> region_item list option" where
  "table_insert t it = (if list_ex (clashes it) t then None else Some (t @ [it]))"

definition table_replace :: "region_item list \<Rightarrow> region_idx \<Rightarrow> region_item \<Rightarrow> region_item list" where
  "table_replace t i it =
     (if list_ex (\<lambda>x. index x \<noteq> i \<and> clashes it x) t then t
      else map (\<lambda>x. if index x = i then it else x) t)"

definition get_item :: "region_db \<Rightarrow> region_idx \<Rightarrow> region_item region_res" where
  "get_item db i = (case find_index (region_table db) i of Some it \<Rightarrow> Inr it | None \<Rightarrow> Inl UndefinedAccess)"

definition get_label :: "region_db \<Rightarrow> region_idx \<Rightarrow> string region_res" where
  "get_label db i = bind_res (get_item db i) (\<lambda>it. Inr (label it))"

definition get_id :: "region_db \<Rightarrow> region_idx \<Rightarrow> u32 region_res" where
  "get_id db i = bind_res (get_item db i) (\<lambda>it. Inr (snd (dim_id it)))"

definition get_dim :: "region_db \<Rightarrow> region_idx \<Rightarrow> u32 region_res" where
  "get_dim db i = bind_res (get_item db i) (\<lambda>it. Inr (fst (dim_id it)))"

definition get_region_address :: "region_db \<Rightarrow> region_idx \<Rightarrow> string region_res" where
  "get_region_address db i = bind_res (get_item db i) (\<lambda>it. Inr (address it))"

definition region_of :: "region_item option \<Rightarrow> region_idx" where
  "region_of it = (case it of Some x \<Rightarrow> index x | None \<Rightarrow> undefined_region)"

definition find_label :: "region_db \<Rightarrow> string \<Rightarrow> region_idx" where
  "find_label db l = region_of (find_by_label (region_table db) l)"

definition find_id_dim :: "region_db \<Rightarrow> u32 \<Rightarrow> u32 \<Rightarrow> region_idx" where
  "find_id_dim db rid rdim = region_of (find_dim_id (region_table db) (rdim, rid))"

definition find_id :: "region_db \<Rightarrow> u32 \<Rightarrow> region_idx region_res" where
  "find_id db rid =
     (case filter (\<lambda>it. snd (dim_id it) = rid) (region_table db) of
        [] \<Rightarrow> Inr undefined_region
      | [it] \<Rightarrow> Inr (index it)
      | _ \<Rightarrow> Inl (ExcUniqueRegionId rid))"

subsection \<open>Sets\<close>

definition get_region_set :: "region_db \<Rightarrow> string \<Rightarrow> region_set" where
  "get_region_set db s = (case sets db s of Some rs \<Rightarrow> rs | None \<Rightarrow> [])"

definition add_to_set :: "region_db \<Rightarrow> string \<Rightarrow> region_idx \<Rightarrow> region_db" where
  "add_to_set db s r =
     (case sets db s of
        None \<Rightarrow> db\<lparr>sets := (sets db)(s \<mapsto> [r])\<rparr>
      | Some rs \<Rightarrow> if r \<in> set rs then db else db\<lparr>sets := (sets db)(s \<mapsto> rs @ [r])\<rparr>)"

definition add_set :: "region_db \<Rightarrow> string \<Rightarrow> region_set \<Rightarrow> region_db" where
  "add_set db s rs = (if sets db s = None then db\<lparr>sets := (sets db)(s \<mapsto> rs)\<rparr> else db)"

definition erase_from_set :: "region_db \<Rightarrow> string \<Rightarrow> region_idx \<Rightarrow> region_db region_res" where
  "erase_from_set db s r =
     (case sets db s of
        None \<Rightarrow> Inl UndefinedAccess
      | Some rs \<Rightarrow> if r \<in> set rs then Inr (db\<lparr>sets := (sets db)(s \<mapsto> remove1 r rs)\<rparr>)
                   else Inl UndefinedAccess)"

definition get_and_check_operands :: "region_db \<Rightarrow> string list \<Rightarrow> string list region_res" where
  "get_and_check_operands db names =
     (case find (\<lambda>n. sets db n = None) names of
        Some n \<Rightarrow> Inl (ExcUnknownSet n) | None \<Rightarrow> Inr names)"

text \<open>Insertion into a \<open>std::set\<close> ordered by the index.\<close>

definition set_insert :: "region_idx \<Rightarrow> region_idx list \<Rightarrow> region_idx list" where
  "set_insert r rs = (if r \<in> set rs then rs else insort r rs)"

definition union_set :: "region_db \<Rightarrow> string list \<Rightarrow> region_set" where
  "union_set db names = fold (\<lambda>n acc. fold set_insert (get_region_set db n) acc) names []"

subsection \<open>Adding and changing regions\<close>

definition register_region :: "region_db \<Rightarrow> region_idx \<Rightarrow> string \<Rightarrow> region_db" where
  "register_region db reg l =
     (let db1 = add_set db l [reg]; db2 = add_to_set db1 ''ALL'' reg in
      if is_boundary_idx reg then add_to_set db2 ''.BOUNDARY'' reg else add_to_set db2 ''BULK'' reg)"

definition insert_region ::
  "region_db \<Rightarrow> u32 \<Rightarrow> string \<Rightarrow> u32 \<Rightarrow> bool \<Rightarrow> string \<Rightarrow> (region_idx \<times> region_db) region_res" where
  "insert_region db rid l rdim boundary addr =
     (if closed db then Inl (ExcAddingIntoClosed l rid)
      else let idx = (if boundary then push_bit 1 (n_boundary db) else push_bit 1 (n_bulk db) + 1);
               db1 = (if boundary then db\<lparr>n_boundary := n_boundary db + 1\<rparr>
                      else db\<lparr>n_bulk := n_bulk db + 1\<rparr>) in
        case table_insert (region_table db)
            \<lparr>index = idx, dim_id = (rdim, rid), label = l, used = False, address = addr\<rparr> of
          None \<Rightarrow> Inl (ExcCantAdd l rid)
        | Some t \<Rightarrow>
            let db2 = db1\<lparr>region_table := t, max_id := max (max_id db) rid\<rparr> in
            bind_res (get_label db2 idx) (\<lambda>l'. Inr (idx, register_region db2 idx l')))"

definition replace_region_dim ::
  "region_db \<Rightarrow> region_item \<Rightarrow> u32 \<Rightarrow> bool \<Rightarrow> (region_idx \<times> region_db) region_res" where
  "replace_region_dim db it rdim boundary =
     bind_res (get_region_address db (index it)) (\<lambda>addr.
       let item = \<lparr>index = index it, dim_id = (rdim, snd (dim_id it)), label = label it,
                   used = False, address = addr\<rparr>;
           db1 = db\<lparr>region_table := table_replace (region_table db) (index it) item\<rparr> in
       if is_boundary_idx (index it) \<noteq> boundary
       then Inl (ExcInconsistentBoundary (label it) (snd (dim_id it)))
       else Inr (index it, db1))"

definition find_by_dimid ::
  "region_db \<Rightarrow> region_item \<Rightarrow> u32 \<Rightarrow> string \<Rightarrow> bool \<Rightarrow> region_idx region_res" where
  "find_by_dimid db it rid l boundary =
     (case find_by_label (region_table db) l of
        None \<Rightarrow> Inl (ExcNonuniqueID l rid (label it))
      | Some it' \<Rightarrow>
          if index it \<noteq> index it' then Inl (ExcNonuniqueID l rid (label it))
          else if is_boundary_idx (index it) \<noteq> boundary then Inl (ExcInconsistentBoundary l rid)
          else Inr (index it))"

definition add_region ::
  "region_db \<Rightarrow> u32 \<Rightarrow> string \<Rightarrow> u32 \<Rightarrow> string \<Rightarrow> (region_idx \<times> region_db) region_res" where
  "add_region db rid l rdim addr =
     (let boundary = is_boundary_label l in
      case find_dim_id (region_table db) (rdim, rid) of
        Some it \<Rightarrow> bind_res (find_by_dimid db it rid l boundary) (\<lambda>r. Inr (r, db))
      | None \<Rightarrow>
          (case find_dim_id (region_table db) (undefined_dim, rid) of
             Some it \<Rightarrow> replace_region_dim db it rdim boundary
           | None \<Rightarrow>
               (case find_by_label (region_table db) l of
                  Some it \<Rightarrow> Inl (ExcNonuniqueLabel l rid (snd (dim_id it)))
                | None \<Rightarrow> insert_region db rid l rdim boundary addr)))"

definition implicit_boundary_region :: "region_db \<Rightarrow> (region_idx \<times> region_db) region_res" where
  "implicit_boundary_region db =
     (case find_dim_id (region_table db) (undefined_dim, undefined_region - 2) of
        Some it \<Rightarrow> Inr (index it, db)
      | None \<Rightarrow> insert_region db (undefined_region - 2) ''.IMPLICIT_BOUNDARY'' undefined_dim True [])"

text \<open>\<open>std::swap(sets_[new_label], it->second); sets_.erase(it)\<close>.\<close>

definition rename_set :: "(string \<rightharpoonup> region_set) \<Rightarrow> string \<Rightarrow> string \<Rightarrow> (string \<rightharpoonup> region_set) option" where
  "rename_set m old new =
     (case m old of None \<Rightarrow> None | Some rs \<Rightarrow> Some ((m(new \<mapsto> rs))(old := None)))"

definition rename_region :: "region_db \<Rightarrow> region_idx \<Rightarrow> string \<Rightarrow> (region_idx \<times> region_db) region_res" where
  "rename_region db reg new_label =
     bind_res (get_item db reg) (\<lambda>it.
       let rid = snd (dim_id it) in
       case find_by_label (region_table db) new_label of
         Some other \<Rightarrow> if rid = index other then Inr (reg, db)
                      else Inl (ExcNonuniqueLabel new_label rid (snd (dim_id other)))
       | None \<Rightarrow>
           (case rename_set (sets db) (label it) new_label of
              None \<Rightarrow> Inl UndefinedAccess
            | Some m \<Rightarrow>
                let old_flag = is_boundary_idx reg;
                    item = \<lparr>index = reg, dim_id = dim_id it, label = new_label, used = False,
                            address = address it\<rparr>;
                    db1 = db\<lparr>sets := m, region_table := table_replace (region_table db) reg item\<rparr> in
                if old_flag \<noteq> is_boundary_idx reg
                then (if old_flag
                      then bind_res (erase_from_set db1 ''.BOUNDARY'' reg) (\<lambda>d. Inr (reg, add_to_set d ''BULK'' reg))
                      else bind_res (erase_from_set db1 ''BULK'' reg) (\<lambda>d. Inr (reg, add_to_set d ''.BOUNDARY'' reg)))
                else Inr (reg, db1)))"

definition get_region :: "region_db \<Rightarrow> u32 \<Rightarrow> u32 \<Rightarrow> (region_idx \<times> region_db) region_res" where
  "get_region db rid rdim =
     (case find_dim_id (region_table db) (rdim, rid) of
        Some it \<Rightarrow> Inr (index it, db)
      | None \<Rightarrow>
          (case find_dim_id (region_table db) (undefined_dim, rid) of
             None \<Rightarrow> Inr (undefined_region, db)
           | Some it \<Rightarrow> replace_region_dim db it rdim (is_boundary_label (label it))))"

definition mark_used_region :: "region_db \<Rightarrow> region_idx \<Rightarrow> region_db region_res" where
  "mark_used_region db i =
     bind_res (get_item db i) (\<lambda>it.
       if used it then Inr db
       else Inr (db\<lparr>region_table := table_replace (region_table db) i
              \<lparr>index = index it, dim_id = dim_id it, label = label it, used = True, address = address it\<rparr>\<rparr>))"

definition close_db :: "region_db \<Rightarrow> region_db" where
  "close_db db = db\<lparr>closed := True\<rparr>"

definition db_size :: "region_db \<Rightarrow> u32" where
  "db_size db = 2 * max (n_boundary db) (n_bulk db)"

definition boundary_size :: "region_db \<Rightarrow> u32" where
  "boundary_size db = n_boundary db"

definition bulk_size :: "region_db \<Rightarrow> u32" where
  "bulk_size db = n_bulk db"

text \<open>\<open>check_regions\<close> only warns: the result is the warnings, in the order of the indices.\<close>

definition check_regions :: "region_db \<Rightarrow> (bool \<times> region_item list) region_res" where
  "check_regions db =
     (if \<not> closed db then Inl NotClosed
      else Inr (max_n_regions \<le> n_bulk db + n_boundary db,
                filter (\<lambda>it. \<not> used it) (sort_key index (region_table db))))"

text \<open>\<open>create_label_from_id\<close>: the decimal digits of the number.\<close>

fun digits :: "nat \<Rightarrow> string" where
  "digits n = (if n < 10 then [char_of (48 + n)] else digits (n div 10) @ [char_of (48 + n mod 10)])"

declare digits.simps [simp del]

definition create_label_from_id :: "u32 \<Rightarrow> string" where
  "create_label_from_id rid = ''region_'' @ digits (unat rid)"

section \<open>Invariant\<close>

definition table_ok :: "region_item list \<Rightarrow> bool" where
  "table_ok t \<longleftrightarrow> distinct (map index t) \<and> distinct (map dim_id t) \<and> distinct (map label t)"

definition reserved :: "string \<Rightarrow> bool" where
  "reserved l \<longleftrightarrow> l = ''ALL'' \<or> l = ''BULK'' \<or> l = ''.BOUNDARY''"

definition indices :: "region_db \<Rightarrow> region_idx set" where
  "indices db = index ` set (region_table db)"

definition item_counted :: "u32 \<Rightarrow> u32 \<Rightarrow> u32 \<Rightarrow> region_item \<Rightarrow> bool" where
  "item_counted nb nk mx it \<longleftrightarrow>
     unat (index it) div 2 < (if is_boundary_idx (index it) then unat nb else unat nk) \<and>
     snd (dim_id it) \<le> mx"

definition counts_ok :: "region_db \<Rightarrow> bool" where
  "counts_ok db \<longleftrightarrow>
     list_all (item_counted (n_boundary db) (n_bulk db) (max_id db)) (region_table db) \<and>
     unat (n_boundary db) \<le> 2 ^ 31 \<and> unat (n_bulk db) \<le> 2 ^ 31 \<and>
     (n_boundary db \<noteq> 0 \<longrightarrow> 0 \<in> indices db) \<and> (n_bulk db \<noteq> 0 \<longrightarrow> 1 \<in> indices db)"

definition sets_ok :: "region_db \<Rightarrow> bool" where
  "sets_ok db \<longleftrightarrow>
     (\<forall>s rs. sets db s = Some rs \<longrightarrow> distinct rs \<and> set rs \<subseteq> indices db) \<and>
     (\<forall>it \<in> set (region_table db). sets db (label it) \<noteq> None \<and> \<not> reserved (label it))"

definition standard_sets :: "region_db \<Rightarrow> bool" where
  "standard_sets db \<longleftrightarrow>
     set (get_region_set db ''ALL'') = indices db \<and>
     set (get_region_set db ''.BOUNDARY'') = {i \<in> indices db. is_boundary_idx i} \<and>
     set (get_region_set db ''BULK'') = {i \<in> indices db. \<not> is_boundary_idx i}"

definition db_ok :: "region_db \<Rightarrow> bool" where
  "db_ok db \<longleftrightarrow> table_ok (region_table db) \<and> counts_ok db \<and> sets_ok db \<and> standard_sets db"

definition has_room :: "region_db \<Rightarrow> bool \<Rightarrow> bool" where
  "has_room db b \<longleftrightarrow> (if b then unat (n_boundary db) else unat (n_bulk db)) < 2 ^ 31"

lemma new_db_ok: "db_ok new_db"
  by (simp add: db_ok_def new_db_def table_ok_def counts_ok_def sets_ok_def standard_sets_def
      indices_def get_region_set_def)

subsection \<open>Lookups\<close>

lemma find_unique:
  assumes "distinct (map f t)" and "it \<in> set t"
  shows "find (\<lambda>x. f x = f it) t = Some it"
  using assms by (induction t) auto

lemma find_key_SomeD: "find (\<lambda>x. f x = k) t = Some it \<Longrightarrow> it \<in> set t \<and> f it = k"
  by (auto simp: find_Some_iff)

lemma find_key_None: "find (\<lambda>x. f x = k) t = None \<longleftrightarrow> k \<notin> f ` set t"
  by (auto simp: find_None_iff)

lemmas find_defs = find_index_def find_dim_id_def find_by_label_def

lemma get_item_eq_Inr:
  "table_ok (region_table db) \<Longrightarrow>
   get_item db i = Inr it \<longleftrightarrow> it \<in> set (region_table db) \<and> index it = i"
  unfolding get_item_def find_index_def table_ok_def
  by (auto split: option.splits dest: find_key_SomeD find_unique simp: find_key_None)

subsection \<open>The table\<close>

lemma table_insert_ok:
  assumes "table_ok t" and "table_insert t it = Some t'"
  shows "table_ok t'" "t' = t @ [it]"
  using assms by (auto simp: table_insert_def table_ok_def clashes_def list_ex_iff split: if_splits)

lemma table_replace_ok:
  assumes ok: "table_ok t" and i: "index it = i" and old: "x0 \<in> set t" "index x0 = i"
    and fresh: "\<And>x. x \<in> set t \<Longrightarrow> index x \<noteq> i \<Longrightarrow> dim_id x \<noteq> dim_id it \<and> label x \<noteq> label it"
  shows "table_replace t i it = map (\<lambda>x. if index x = i then it else x) t"
    "table_ok (table_replace t i it)" "index ` set (table_replace t i it) = index ` set t"
    "set (table_replace t i it) = insert it {x \<in> set t. index x \<noteq> i}"
proof -
  let ?g = "\<lambda>x. if index x = i then it else x"
  show eq: "table_replace t i it = map ?g t"
    using fresh i by (auto simp: table_replace_def list_ex_iff clashes_def) metis+
  have inj: "inj_on index (set t)" and d: "distinct t"
    using ok by (auto simp: table_ok_def distinct_map)
  have same: "x = y" if "x \<in> set t" "y \<in> set t" "index x = i" "index y = i" for x y
    using inj that by (auto dest: inj_onD)
  have idx: "index (?g x) = index x" for x using i by simp
  have "map index (map ?g t) = map index t" using idx by simp
  moreover have "inj_on dim_id (set t)" "inj_on label (set t)"
    using ok by (auto simp: table_ok_def distinct_map)
  then have "inj_on (dim_id \<circ> ?g) (set t)" "inj_on (label \<circ> ?g) (set t)"
    using fresh same by (auto simp: inj_on_def; metis)+
  ultimately show "table_ok (table_replace t i it)"
    using ok d unfolding eq table_ok_def by (simp add: distinct_map comp_def idx)
  show "index ` set (table_replace t i it) = index ` set t"
    unfolding eq set_map image_image by (simp add: idx)
  show "set (table_replace t i it) = insert it {x \<in> set t. index x \<noteq> i}"
    using old unfolding eq by force
qed

subsection \<open>Parity of the indices\<close>

lemma is_boundary_idx_iff: "is_boundary_idx i \<longleftrightarrow> even (unat i)"
proof -
  have "is_boundary_idx i \<longleftrightarrow> even i" by (simp add: is_boundary_idx_def and_one_eq mod2_eq_if)
  moreover have "bit (unat i) 0 \<longleftrightarrow> bit i 0" unfolding bit_unsigned_iff by simp
  ultimately show ?thesis unfolding bit_0 by blast
qed

lemma unat_push_boundary: "unat n < 2 ^ 31 \<Longrightarrow> unat (push_bit 1 (n::u32)) = 2 * unat n"
  by (simp add: push_bit_eq_mult unat_word_ariths)

lemma unat_push_bulk: "unat n < 2 ^ 31 \<Longrightarrow> unat (push_bit 1 (n::u32) + 1) = 2 * unat n + 1"
  by (simp add: push_bit_eq_mult unat_word_ariths)

subsection \<open>Sets\<close>

definition push_new :: "region_idx \<Rightarrow> region_set \<Rightarrow> region_set" where
  "push_new r rs = (if r \<in> set rs then rs else rs @ [r])"

lemma push_new_simps [simp]:
  "set (push_new r rs) = insert r (set rs)" "distinct (push_new r rs) = distinct rs"
  by (auto simp: push_new_def)

lemma add_to_set_sel:
  "sets (add_to_set db s r) = (sets db)(s \<mapsto> push_new r (get_region_set db s))"
  by (auto simp: add_to_set_def get_region_set_def push_new_def split: option.splits)

lemma add_to_set_same [simp]:
  "region_table (add_to_set db s r) = region_table db" "n_boundary (add_to_set db s r) = n_boundary db"
  "n_bulk (add_to_set db s r) = n_bulk db" "max_id (add_to_set db s r) = max_id db"
  "closed (add_to_set db s r) = closed db" "el_to_reg_map (add_to_set db s r) = el_to_reg_map db"
  by (simp_all add: add_to_set_def split: option.splits)

lemma add_set_same [simp]:
  "region_table (add_set db s rs) = region_table db" "n_boundary (add_set db s rs) = n_boundary db"
  "n_bulk (add_set db s rs) = n_bulk db" "max_id (add_set db s rs) = max_id db"
  "closed (add_set db s rs) = closed db" "el_to_reg_map (add_set db s rs) = el_to_reg_map db"
  by (simp_all add: add_set_def)

lemma add_set_sel:
  "sets (add_set db s rs) = (if sets db s = None then (sets db)(s \<mapsto> rs) else sets db)"
  by (simp add: add_set_def)

lemma register_region_same [simp]:
  "region_table (register_region db r l) = region_table db"
  "n_boundary (register_region db r l) = n_boundary db" "n_bulk (register_region db r l) = n_bulk db"
  "max_id (register_region db r l) = max_id db" "closed (register_region db r l) = closed db"
  "el_to_reg_map (register_region db r l) = el_to_reg_map db"
  by (simp_all add: register_region_def Let_def)

lemma not_reservedD:
  assumes "\<not> reserved l"
  shows "l \<noteq> ''ALL''" "''ALL'' \<noteq> l" "l \<noteq> ''BULK''" "''BULK'' \<noteq> l" "l \<noteq> ''.BOUNDARY''" "''.BOUNDARY'' \<noteq> l"
  using assms by (auto simp: reserved_def)

lemma register_region_sets:
  assumes "\<not> reserved l"
  shows "sets (register_region db r l) =
    (let k = (if is_boundary_idx r then ''.BOUNDARY'' else ''BULK'');
         m = (if sets db l = None then (sets db)(l \<mapsto> [r]) else sets db)
     in m(''ALL'' \<mapsto> push_new r (get_region_set db ''ALL''), k \<mapsto> push_new r (get_region_set db k)))"
  using not_reservedD [OF assms]
  by (simp add: register_region_def add_to_set_sel add_set_sel Let_def get_region_set_def)

text \<open>A registered region is in its own set, in \<open>ALL\<close> and in the set of its kind.\<close>

lemma register_region_ok:
  assumes sets: "sets_ok db" and std: "standard_sets db" and l: "\<not> reserved l"
    and t: "region_table db' = region_table db @ [it]" "index it = r" "label it = l" "sets db' = sets db"
  shows "sets_ok (register_region db' r l)" "standard_sets (register_region db' r l)"
proof -
  have ind: "indices (register_region db' r l) = insert r (indices db)"
    using t by (auto simp: indices_def)
  have getdb: "get_region_set db' s = get_region_set db s" for s using t by (simp add: get_region_set_def)
  let ?m = "sets (register_region db' r l)"
  note m = register_region_sets [OF l, of db' r, unfolded getdb t(4) Let_def]
  have old: "distinct rs \<and> set rs \<subseteq> indices db" if "sets db s = Some rs" for s rs
    using sets that by (simp add: sets_ok_def)
  have get: "distinct (get_region_set db s) \<and> set (get_region_set db s) \<subseteq> indices db" for s
    using old by (auto simp: get_region_set_def split: option.splits)
  have "distinct rs \<and> set rs \<subseteq> insert r (indices db)" if "?m s = Some rs" for s rs
    using that get old unfolding m by (fastforce split: if_splits)
  moreover have "?m (label x) \<noteq> None \<and> \<not> reserved (label x)" if "x \<in> set (region_table db')" for x
    using that t l sets unfolding m by (auto simp: sets_ok_def)
  ultimately show "sets_ok (register_region db' r l)"
    by (simp add: sets_ok_def ind)
  have "set (get_region_set (register_region db' r l) ''ALL'') = insert r (indices db)"
    using std not_reservedD [OF l] by (auto simp: get_region_set_def m standard_sets_def)
  moreover have "set (get_region_set (register_region db' r l) ''.BOUNDARY'') =
      {i \<in> insert r (indices db). is_boundary_idx i}"
    using std not_reservedD [OF l] by (auto simp: get_region_set_def m standard_sets_def)
  moreover have "set (get_region_set (register_region db' r l) ''BULK'') =
      {i \<in> insert r (indices db). \<not> is_boundary_idx i}"
    using std not_reservedD [OF l] by (auto simp: get_region_set_def m standard_sets_def)
  ultimately show "standard_sets (register_region db' r l)" by (simp add: standard_sets_def ind)
qed

section \<open>Operations keep the invariant\<close>

text \<open>The index a new region gets, and what its insertion does.\<close>

definition new_index :: "region_db \<Rightarrow> bool \<Rightarrow> region_idx" where
  "new_index db boundary = (if boundary then push_bit 1 (n_boundary db) else push_bit 1 (n_bulk db) + 1)"

lemma new_index_fresh:
  assumes "counts_ok db" and "has_room db b"
  shows "new_index db b \<notin> indices db" "is_boundary_idx (new_index db b) = b"
    "unat (new_index db b) div 2 = (if b then unat (n_boundary db) else unat (n_bulk db))"
proof -
  have u: "unat (new_index db b) = (if b then 2 * unat (n_boundary db) else 2 * unat (n_bulk db) + 1)"
    using assms(2) by (cases b) (simp_all add: new_index_def has_room_def unat_push_boundary unat_push_bulk del: push_bit_numeral_minus_1 push_bit_of_1 push_bit_Suc One_nat_def)
  show par: "is_boundary_idx (new_index db b) = b"
    and half: "unat (new_index db b) div 2 = (if b then unat (n_boundary db) else unat (n_bulk db))"
    using u by (simp_all add: is_boundary_idx_iff)
  show "new_index db b \<notin> indices db"
  proof
    assume "new_index db b \<in> indices db"
    then obtain it where "it \<in> set (region_table db)" "index it = new_index db b"
      by (auto simp: indices_def)
    then show False using assms(1) par half by (auto simp: counts_ok_def item_counted_def list_all_iff split: if_splits)
  qed
qed

lemma unat_eq_half: "unat n = 2147483648 \<Longrightarrow> n = (2147483648 :: u32)"
proof -
  assume "unat n = 2147483648"
  then have "(word_of_nat (unat n) :: u32) = word_of_nat 2147483648" by (rule arg_cong)
  then show ?thesis by simp
qed

lemma item_counted_mono:
  assumes "item_counted nb nk mx x" and "unat nb \<le> unat nb'" and "unat nk \<le> unat nk'" and "mx \<le> mx'"
  shows "item_counted nb' nk' mx' x"
  using assms order_trans [of "snd (dim_id x)" mx mx'] by (simp add: item_counted_def split: if_splits)

text \<open>When the counter of a kind is exhausted, the index wraps around to an existing one.\<close>

lemma new_index_room:
  assumes "counts_ok db" and "new_index db b \<notin> indices db"
  shows "has_room db b"
proof (rule ccontr)
  assume "\<not> has_room db b"
  then have "(if b then unat (n_boundary db) else unat (n_bulk db)) = 2147483648"
    using assms(1) by (auto simp: has_room_def counts_ok_def split: if_splits)
  then have full: "(if b then n_boundary db else n_bulk db) = 2147483648"
    using unat_eq_half by (auto split: if_splits)
  then have "new_index db b = (if b then 0 else 1)"
    by (auto simp: new_index_def push_bit_eq_mult split: if_splits)
  then show False using assms full by (auto simp: counts_ok_def split: if_splits)
qed

lemma insert_region_eq:
  "insert_region db rid l d boundary addr =
     (if closed db then Inl (ExcAddingIntoClosed l rid)
      else let it = \<lparr>index = new_index db boundary, dim_id = (d, rid), label = l, used = False, address = addr\<rparr>;
               db1 = (if boundary then db\<lparr>n_boundary := n_boundary db + 1\<rparr> else db\<lparr>n_bulk := n_bulk db + 1\<rparr>) in
        case table_insert (region_table db) it of
          None \<Rightarrow> Inl (ExcCantAdd l rid)
        | Some t \<Rightarrow>
            let db2 = db1\<lparr>region_table := t, max_id := max (max_id db) rid\<rparr> in
            bind_res (get_label db2 (index it)) (\<lambda>l'. Inr (index it, register_region db2 (index it) l')))"
  by (cases boundary) (simp_all add: insert_region_def new_index_def Let_def cong: option.case_cong)

lemma insert_region_Inr:
  assumes ok: "db_ok db" and ins: "insert_region db rid l d b addr = Inr (r, db')"
  obtains it db2 where "it = \<lparr>index = r, dim_id = (d, rid), label = l, used = False, address = addr\<rparr>"
    "r = new_index db b" "\<not> closed db" "table_insert (region_table db) it = Some (region_table db @ [it])"
    "db2 = (if b then db\<lparr>n_boundary := n_boundary db + 1\<rparr> else db\<lparr>n_bulk := n_bulk db + 1\<rparr>)
        \<lparr>region_table := region_table db @ [it], max_id := max (max_id db) rid\<rparr>"
    "db' = register_region db2 r l"
proof -
  define it where "it = \<lparr>index = new_index db b, dim_id = (d, rid), label = l, used = False, address = addr\<rparr>"
  obtain t where cl: "\<not> closed db" and t: "table_insert (region_table db) it = Some t"
    using ins by (auto simp: insert_region_eq Let_def it_def split: if_splits option.splits)
  have tt: "table_ok t" "t = region_table db @ [it]"
    using table_insert_ok [OF _ t] ok by (auto simp: db_ok_def)
  define db2 where "db2 = (if b then db\<lparr>n_boundary := n_boundary db + 1\<rparr> else db\<lparr>n_bulk := n_bulk db + 1\<rparr>)
        \<lparr>region_table := t, max_id := max (max_id db) rid\<rparr>"
  have "table_ok (region_table db2)" "it \<in> set (region_table db2)" using tt by (simp_all add: db2_def)
  then have "get_label db2 (index it) = Inr l"
    using get_item_eq_Inr [of db2 "index it" it] by (simp add: get_label_def it_def)
  then have "r = index it \<and> db' = register_region db2 (index it) l"
    using ins cl t by (simp add: insert_region_eq Let_def it_def [symmetric] db2_def [symmetric] split: if_splits)
      (auto simp: it_def)
  then show thesis using that [of it db2] cl t tt(2) by (simp add: it_def db2_def)
qed

lemma insert_region_ok:
  assumes ok: "db_ok db" and l: "\<not> reserved l"
    and ins: "insert_region db rid l d b addr = Inr (r, db')"
  shows "db_ok db'"
    "region_table db' = region_table db @ [\<lparr>index = r, dim_id = (d, rid), label = l, used = False, address = addr\<rparr>]"
    "is_boundary_idx r = b" "r \<notin> indices db" "\<not> closed db"
    "sets db' s = sets db s \<or> s = l \<or> reserved s"
    "el_to_reg_map db' = el_to_reg_map db" "\<not> closed db'"
proof -
  obtain it db2 where it: "it = \<lparr>index = r, dim_id = (d, rid), label = l, used = False, address = addr\<rparr>"
    and r: "r = new_index db b" and cl: "\<not> closed db"
    and t: "table_insert (region_table db) it = Some (region_table db @ [it])"
    and db2: "db2 = (if b then db\<lparr>n_boundary := n_boundary db + 1\<rparr> else db\<lparr>n_bulk := n_bulk db + 1\<rparr>)
        \<lparr>region_table := region_table db @ [it], max_id := max (max_id db) rid\<rparr>"
    and db': "db' = register_region db2 r l"
    by (rule insert_region_Inr [OF ok ins])
  have cnt: "counts_ok db" using ok by (simp add: db_ok_def)
  have "new_index db b \<notin> indices db"
    using t it r by (auto simp: table_insert_def list_ex_iff clashes_def indices_def split: if_splits)
  then have room: "has_room db b" by (rule new_index_room [OF cnt])
  note fresh = new_index_fresh [OF cnt room, folded r]
  show "region_table db' = region_table db @ [\<lparr>index = r, dim_id = (d, rid), label = l, used = False, address = addr\<rparr>]"
    "is_boundary_idx r = b" "r \<notin> indices db" "\<not> closed db" "el_to_reg_map db' = el_to_reg_map db" "\<not> closed db'"
    using db' db2 it fresh cl by auto
  show "sets db' s = sets db s \<or> s = l \<or> reserved s"
    using register_region_sets [OF l, of db2 r] db' db2 by (auto simp: Let_def reserved_def)
  have n: "unat (n_boundary db') = unat (n_boundary db) + (if b then 1 else 0)"
    "unat (n_bulk db') = unat (n_bulk db) + (if b then 0 else 1)"
    using room db' db2 by (auto simp: has_room_def unat_word_ariths)
  have mx: "max_id db' = max (max_id db) rid" using db' db2 by simp
  have ind: "indices db' = insert r (indices db)" using db' db2 it by (auto simp: indices_def)
  have tab: "region_table db' = region_table db @ [it]" using db' db2 by simp
  have "item_counted (n_boundary db') (n_bulk db') (max_id db') x" if x: "x \<in> set (region_table db')" for x
  proof (cases "x = it")
    case True
    then show ?thesis using fresh n mx it by (cases b) (simp_all add: item_counted_def)
  next
    case False
    then have "item_counted (n_boundary db) (n_bulk db) (max_id db) x"
      using x tab cnt by (simp add: counts_ok_def list_all_iff)
    then show ?thesis by (rule item_counted_mono) (use n mx in simp_all)
  qed
  moreover have "n_boundary db' \<noteq> 0 \<longrightarrow> 0 \<in> indices db'" "n_bulk db' \<noteq> 0 \<longrightarrow> 1 \<in> indices db'"
    using cnt ind db' db2 r by (auto simp: counts_ok_def new_index_def split: if_splits)
  ultimately have "counts_ok db'"
    using cnt room n by (auto simp: counts_ok_def list_all_iff has_room_def)
  moreover have "sets_ok db'" "standard_sets db'"
    using register_region_ok [of db l db2 it r] ok l db' db2 it by (simp_all add: db_ok_def)
  moreover have "table_ok (region_table db')"
    using table_insert_ok(1) [OF _ t] ok db' db2 by (simp add: db_ok_def)
  ultimately show "db_ok db'" by (simp add: db_ok_def)
qed

lemma insert_region_total:
  assumes ok: "db_ok db" and "\<not> closed db" and "(d, rid) \<notin> dim_id ` set (region_table db)"
    and "l \<notin> label ` set (region_table db)" and room: "has_room db b"
  shows "\<exists>r db'. insert_region db rid l d b addr = Inr (r, db')"
proof -
  define it where "it = \<lparr>index = new_index db b, dim_id = (d, rid), label = l, used = False, address = addr\<rparr>"
  have "new_index db b \<notin> indices db" using new_index_fresh ok room by (simp add: db_ok_def)
  then have "\<not> clashes it x" if "x \<in> set (region_table db)" for x
    using assms(3,4) that by (force simp: clashes_def it_def indices_def)
  then have t: "table_insert (region_table db) it = Some (region_table db @ [it])"
    by (auto simp: table_insert_def list_ex_iff)
  have "table_ok (region_table db @ [it])" using table_insert_ok [OF _ t] ok by (simp add: db_ok_def)
  then have "get_item db2 (index it) = Inr it" if "region_table db2 = region_table db @ [it]" for db2
    using that get_item_eq_Inr [of db2 "index it" it] by simp
  then show ?thesis
    using assms(2) t by (simp add: insert_region_eq Let_def it_def [symmetric] get_label_def)
qed

lemma table_label_unique:
  "table_ok t \<Longrightarrow> x \<in> set t \<Longrightarrow> y \<in> set t \<Longrightarrow> index x \<noteq> index y \<Longrightarrow> label x \<noteq> label y \<and> dim_id x \<noteq> dim_id y"
  by (auto simp: table_ok_def distinct_map dest: inj_onD)

lemma counts_ok_same:
  assumes "counts_ok db" and "n_boundary db' = n_boundary db" and "n_bulk db' = n_bulk db"
    and "max_id db' = max_id db"
    and "\<And>x. x \<in> set (region_table db') \<Longrightarrow>
      \<exists>y \<in> set (region_table db). index x = index y \<and> snd (dim_id x) = snd (dim_id y)"
    and "indices db' = indices db"
  shows "counts_ok db'"
proof -
  have "item_counted nb nk mx x = item_counted nb nk mx y"
    if "index x = index y" "snd (dim_id x) = snd (dim_id y)" for nb nk mx x y
    using that by (simp add: item_counted_def)
  then show ?thesis using assms unfolding counts_ok_def list_all_iff by metis
qed

lemma table_split:
  "table_ok t \<Longrightarrow> it \<in> set t \<Longrightarrow> set t = insert it {x \<in> set t. index x \<noteq> index it}"
  by (auto simp: table_ok_def distinct_map dest: inj_onD)

lemma image_table_split:
  assumes "table_ok t" and "it \<in> set t" and "set t' = insert it' {x \<in> set t. index x \<noteq> index it}"
    and "f it' = f it"
  shows "f ` set t' = f ` set t"
proof -
  have "f ` set t = f ` insert it {x \<in> set t. index x \<noteq> index it}"
    by (rule arg_cong [OF table_split [OF assms(1,2)]])
  then show ?thesis unfolding assms(3) by (simp add: assms(4))
qed

lemma replace_item_ok:
  assumes ok: "db_ok db" and old: "x0 \<in> set (region_table db)" "index it = index x0"
      "snd (dim_id it) = snd (dim_id x0)" "label it = label x0"
    and fresh: "dim_id it = dim_id x0 \<or> dim_id it \<notin> dim_id ` set (region_table db)"
  defines "db' \<equiv> db\<lparr>region_table := table_replace (region_table db) (index x0) it\<rparr>"
  shows "db_ok db'" "indices db' = indices db"
    "set (region_table db') = insert it {x \<in> set (region_table db). index x \<noteq> index x0}"
proof -
  let ?t = "region_table db"
  have tok: "table_ok ?t" using ok by (simp add: db_ok_def)
  have "dim_id x \<noteq> dim_id it \<and> label x \<noteq> label it" if "x \<in> set ?t" "index x \<noteq> index x0" for x
    using table_label_unique [OF tok that(1) old(1) that(2)] fresh old(4) that(1) by (auto simp: image_iff)
  note rep = table_replace_ok [OF tok old(2) old(1) refl this]
  show ind: "indices db' = indices db" by (simp add: indices_def db'_def rep(3))
  show set: "set (region_table db') = insert it {x \<in> set ?t. index x \<noteq> index x0}"
    by (simp add: db'_def rep(4))
  have "counts_ok db'"
    by (rule counts_ok_same [OF _ _ _ _ _ ind]) (use ok set old in \<open>auto simp: db_ok_def db'_def\<close>)
  moreover have "sets_ok db'"
    using ok ind set old by (auto simp: db_ok_def sets_ok_def db'_def)
  moreover have "standard_sets db'"
    using ok ind by (simp add: db_ok_def standard_sets_def get_region_set_def db'_def)
  ultimately show "db_ok db'" using rep(2) by (simp add: db_ok_def db'_def)
qed

lemma replace_region_dim_ok:
  assumes ok: "db_ok db" and it: "it \<in> set (region_table db)"
    and free: "(d, snd (dim_id it)) \<notin> dim_id ` set (region_table db)"
    and rep: "replace_region_dim db it d b = Inr (r, db')"
  shows "db_ok db'" "r = index it" "indices db' = indices db" "closed db' = closed db"
    "sets db' = sets db" "label ` set (region_table db') = label ` set (region_table db)"
    "\<exists>it' \<in> set (region_table db'). index it' = r \<and> dim_id it' = (d, snd (dim_id it)) \<and> label it' = label it"
    "el_to_reg_map db' = el_to_reg_map db"
    "n_boundary db' = n_boundary db \<and> n_bulk db' = n_bulk db"
    "\<And>x. x \<in> set (region_table db) \<Longrightarrow> x \<noteq> it \<Longrightarrow> x \<in> set (region_table db')"
proof -
  have tok: "table_ok (region_table db)" using ok by (simp add: db_ok_def)
  let ?new = "\<lparr>index = index it, dim_id = (d, snd (dim_id it)), label = label it, used = False, address = address it\<rparr>"
  have "get_item db (index it) = Inr it" using get_item_eq_Inr [OF tok] it by simp
  then have eq: "r = index it" "db' = db\<lparr>region_table := table_replace (region_table db) (index it) ?new\<rparr>"
    using rep by (auto simp: replace_region_dim_def get_region_address_def Let_def split: if_splits)
  have new: "db_ok db'" "indices db' = indices db"
    "set (region_table db') = insert ?new {x \<in> set (region_table db). index x \<noteq> index it}"
    unfolding eq(2) by (rule replace_item_ok [OF ok it]; use free in simp)+
  show "db_ok db'" "indices db' = indices db" by (rule new)+
  show "r = index it" "closed db' = closed db" "sets db' = sets db"
    "el_to_reg_map db' = el_to_reg_map db" "n_boundary db' = n_boundary db \<and> n_bulk db' = n_bulk db"
    using eq by simp_all
  show "label ` set (region_table db') = label ` set (region_table db)"
    by (rule image_table_split [OF tok it new(3)]) simp
  show "x \<in> set (region_table db')" if "x \<in> set (region_table db)" "x \<noteq> it" for x
    using new(3) that it tok by (auto simp: table_ok_def distinct_map dest: inj_onD)
  show "\<exists>it' \<in> set (region_table db'). index it' = r \<and> dim_id it' = (d, snd (dim_id it)) \<and> label it' = label it"
    using new(3) eq(1) by force
qed

lemma mark_used_region_ok:
  assumes ok: "db_ok db" and mk: "mark_used_region db i = Inr db'"
  shows "db_ok db'" "\<exists>it \<in> set (region_table db'). index it = i \<and> used it" "sets db' = sets db"
    "(\<lambda>x. (index x, dim_id x)) ` set (region_table db') = (\<lambda>x. (index x, dim_id x)) ` set (region_table db)"
    "label ` set (region_table db') = label ` set (region_table db)"
    "indices db' = indices db" "closed db' = closed db" "el_to_reg_map db' = el_to_reg_map db"
    "n_boundary db' = n_boundary db \<and> n_bulk db' = n_bulk db"
proof -
  have tok: "table_ok (region_table db)" using ok by (simp add: db_ok_def)
  obtain it where g: "get_item db i = Inr it" using mk by (auto simp: mark_used_region_def res_simps)
  then have it: "it \<in> set (region_table db)" "index it = i" using get_item_eq_Inr [OF tok] by auto
  let ?new = "\<lparr>index = index it, dim_id = dim_id it, label = label it, used = True, address = address it\<rparr>"
  have "db_ok db' \<and> (\<exists>it \<in> set (region_table db'). index it = i \<and> used it) \<and>
    (\<lambda>x. (index x, dim_id x)) ` set (region_table db') = (\<lambda>x. (index x, dim_id x)) ` set (region_table db) \<and>
    label ` set (region_table db') = label ` set (region_table db) \<and> indices db' = indices db"
  proof (cases "used it")
    case True
    then show ?thesis using mk g it ok by (auto simp: mark_used_region_def)
  next
    case False
    then have eq: "db' = db\<lparr>region_table := table_replace (region_table db) (index it) ?new\<rparr>"
      using mk g it by (simp add: mark_used_region_def)
    have new: "db_ok db'" "indices db' = indices db"
      "set (region_table db') = insert ?new {x \<in> set (region_table db). index x \<noteq> index it}"
      unfolding eq by (rule replace_item_ok [OF ok it(1)]; simp)+
    have "(\<lambda>x. (index x, dim_id x)) ` set (region_table db') = (\<lambda>x. (index x, dim_id x)) ` set (region_table db)"
      "label ` set (region_table db') = label ` set (region_table db)"
      by (rule image_table_split [OF tok it(1) new(3)], simp)+
    then show ?thesis using new it(2) by auto
  qed
  then show "db_ok db'" "\<exists>it \<in> set (region_table db'). index it = i \<and> used it"
    "(\<lambda>x. (index x, dim_id x)) ` set (region_table db') = (\<lambda>x. (index x, dim_id x)) ` set (region_table db)"
    "label ` set (region_table db') = label ` set (region_table db)" "indices db' = indices db" by auto
  show "sets db' = sets db" "closed db' = closed db" "el_to_reg_map db' = el_to_reg_map db"
    "n_boundary db' = n_boundary db \<and> n_bulk db' = n_bulk db"
    using mk g by (auto simp: mark_used_region_def split: if_splits)
qed

lemma add_set_ok:
  assumes "db_ok db" and "distinct rs" and "set rs \<subseteq> indices db" and "\<not> reserved s"
  shows "db_ok (add_set db s rs)"
proof -
  have "indices (add_set db s rs) = indices db" by (simp add: indices_def)
  moreover have "get_region_set (add_set db s rs) k = get_region_set db k" if "reserved k" for k
    using assms(4) that by (auto simp: get_region_set_def add_set_sel)
  moreover have "reserved ''ALL''" "reserved ''BULK''" "reserved ''.BOUNDARY''" by (simp_all add: reserved_def)
  moreover have "counts_ok (add_set db s rs)" using assms(1) by (simp add: db_ok_def counts_ok_def indices_def)
  moreover have "sets_ok (add_set db s rs)"
    using assms calculation(1) by (auto simp: db_ok_def sets_ok_def add_set_sel)
  ultimately show ?thesis using assms(1) by (simp add: db_ok_def standard_sets_def)
qed

lemma get_item_indices: "table_ok (region_table db) \<Longrightarrow> r \<in> indices db \<Longrightarrow> \<exists>it. get_item db r = Inr it"
  using get_item_eq_Inr [of db r] by (auto simp: indices_def)

lemma rename_region_fresh:
  assumes ok: "db_ok db" and it: "it \<in> set (region_table db)"
    and fresh: "new_label \<notin> label ` set (region_table db)" and res: "\<not> reserved new_label"
  obtains db' it' where "rename_region db (index it) new_label = Inr (index it, db')" "db_ok db'"
    "it' = it\<lparr>label := new_label, used := False\<rparr>"
    "set (region_table db') = insert it' {x \<in> set (region_table db). index x \<noteq> index it}"
    "indices db' = indices db" "get_region_set db' new_label = get_region_set db (label it)"
    "closed db' = closed db" "el_to_reg_map db' = el_to_reg_map db"
    "n_boundary db' = n_boundary db \<and> n_bulk db' = n_bulk db"
proof -
  let ?t = "region_table db"
  let ?new = "\<lparr>index = index it, dim_id = dim_id it, label = new_label, used = False, address = address it\<rparr>"
  have tok: "table_ok ?t" and sok: "sets_ok db" and std: "standard_sets db" and cok: "counts_ok db"
    using ok by (auto simp: db_ok_def)
  have g: "get_item db (index it) = Inr it" using get_item_eq_Inr [OF tok] it by simp
  have none: "find_by_label ?t new_label = None"
    using fresh by (simp add: find_by_label_def find_key_None)
  obtain rs where rs: "sets db (label it) = Some rs" using sok it by (auto simp: sets_ok_def)
  define db' where "db' = db\<lparr>sets := ((sets db)(new_label \<mapsto> rs))(label it := None),
      region_table := table_replace ?t (index it) ?new\<rparr>"
  have eq: "rename_region db (index it) new_label = Inr (index it, db')"
    using g none rs by (simp add: rename_region_def rename_set_def Let_def db'_def)
  have ne: "new_label \<noteq> label it" using fresh it by auto
  have "dim_id x \<noteq> dim_id ?new \<and> label x \<noteq> label ?new" if "x \<in> set ?t" "index x \<noteq> index it" for x
    using table_label_unique [OF tok that(1) it that(2)] fresh that(1) by auto
  moreover have "index ?new = index it" by simp
  ultimately have rep: "table_ok (table_replace ?t (index it) ?new)"
    "index ` set (table_replace ?t (index it) ?new) = index ` set ?t"
    "set (table_replace ?t (index it) ?new) = insert ?new {x \<in> set ?t. index x \<noteq> index it}"
    using table_replace_ok(2-4) [OF tok _ it refl] by blast+
  have set: "set (region_table db') = insert ?new {x \<in> set ?t. index x \<noteq> index it}"
    by (simp add: db'_def rep(3))
  have ind: "indices db' = indices db" by (simp add: indices_def db'_def rep(2))
  have get: "get_region_set db' k = get_region_set db k" if "reserved k" for k
    using that res it sok by (auto simp: get_region_set_def db'_def sets_ok_def)
  have "counts_ok db'"
    by (rule counts_ok_same [OF cok _ _ _ _ ind]) (use set it in \<open>auto simp: db'_def\<close>)
  moreover have "sets db' (label x) \<noteq> None \<and> \<not> reserved (label x)" if "x \<in> set (region_table db')" for x
  proof (cases "x = ?new")
    case True
    then show ?thesis using ne res by (simp add: db'_def)
  next
    case False
    then have "x \<in> set ?t" "label x \<noteq> label it" "label x \<noteq> new_label"
      using that set table_label_unique [OF tok _ it] fresh by auto
    then show ?thesis using sok by (auto simp: db'_def sets_ok_def)
  qed
  then have "sets_ok db'"
    using sok ind rs by (auto simp: sets_ok_def db'_def split: if_splits) 
  moreover have "standard_sets db'"
    using std get ind by (simp add: standard_sets_def reserved_def)
  ultimately have "db_ok db'" using rep(1) by (simp add: db_ok_def db'_def)
  then show thesis
  proof (rule that [OF eq _ _ set ind])
    show "?new = it\<lparr>label := new_label, used := False\<rparr>" by simp
  qed (use ne rs in \<open>simp_all add: db'_def get_region_set_def\<close>)
qed

lemma rename_region_ok:
  assumes ok: "db_ok db" and res: "\<not> reserved l" and ren: "rename_region db r l = Inr (r', db')"
  shows "db_ok db'" "r' = r" "indices db' = indices db" "closed db' = closed db"
    "el_to_reg_map db' = el_to_reg_map db" "n_boundary db' = n_boundary db \<and> n_bulk db' = n_bulk db"
proof -
  have tok: "table_ok (region_table db)" using ok by (simp add: db_ok_def)
  obtain it where g: "get_item db r = Inr it" using ren by (auto simp: rename_region_def res_simps)
  then have it: "it \<in> set (region_table db)" "r = index it" using get_item_eq_Inr [OF tok] by auto
  have "db_ok db' \<and> r' = r \<and> indices db' = indices db \<and> closed db' = closed db \<and>
    el_to_reg_map db' = el_to_reg_map db \<and> n_boundary db' = n_boundary db \<and> n_bulk db' = n_bulk db"
  proof (cases "find_by_label (region_table db) l")
    case None
    then have "l \<notin> label ` set (region_table db)" by (simp add: find_by_label_def find_key_None)
    from rename_region_fresh [OF ok it(1) this res] ren it(2) show ?thesis by auto
  next
    case (Some other)
    then show ?thesis using ren g ok by (auto simp: rename_region_def Let_def split: if_splits)
  qed
  then show "db_ok db'" "r' = r" "indices db' = indices db" "closed db' = closed db"
    "el_to_reg_map db' = el_to_reg_map db" "n_boundary db' = n_boundary db \<and> n_bulk db' = n_bulk db" by auto
qed

lemma find_dim_id_Some: "find_dim_id t k = Some it \<Longrightarrow> it \<in> set t \<and> dim_id it = k"
  unfolding find_dim_id_def by (rule find_key_SomeD)

lemma find_dim_id_None: "find_dim_id t k = None \<longleftrightarrow> k \<notin> dim_id ` set t"
  by (simp add: find_dim_id_def find_key_None)

lemma find_by_label_Some: "find_by_label t k = Some it \<Longrightarrow> it \<in> set t \<and> label it = k"
  unfolding find_by_label_def by (rule find_key_SomeD)

lemma find_by_label_None: "find_by_label t k = None \<longleftrightarrow> k \<notin> label ` set t"
  by (simp add: find_by_label_def find_key_None)

text \<open>What every operation that returns a region promises.\<close>

definition region_result :: "region_db \<Rightarrow> region_idx \<Rightarrow> region_db \<Rightarrow> bool" where
  "region_result db r db' \<longleftrightarrow>
     db_ok db' \<and> r \<in> indices db' \<and> indices db \<subseteq> indices db' \<and>
     closed db' = closed db \<and> el_to_reg_map db' = el_to_reg_map db \<and>
     (closed db \<longrightarrow> indices db' = indices db)"

lemma add_region_ok:
  assumes ok: "db_ok db" and l: "\<not> reserved l"
    and add: "add_region db rid l d addr = Inr (r, db')"
  shows "region_result db r db' \<and>
    (\<exists>it \<in> set (region_table db'). index it = r \<and> dim_id it = (d, rid)) \<and>
    is_boundary_idx r = is_boundary_label l"
proof (cases "find_dim_id (region_table db) (d, rid)")
  case (Some it)
  then have "r = index it" "db' = db" "is_boundary_idx r = is_boundary_label l"
    using add by (auto simp: add_region_def find_by_dimid_def res_simps split: option.splits if_splits)
  then show ?thesis
    using find_dim_id_Some [OF Some] ok by (auto simp: indices_def region_result_def)
next
  case None
  then have free: "(d, rid) \<notin> dim_id ` set (region_table db)" by (simp add: find_dim_id_None)
  show ?thesis
  proof (cases "find_dim_id (region_table db) (undefined_dim, rid)")
    case (Some it)
    note it = find_dim_id_Some [OF Some]
    have rep: "replace_region_dim db it d (is_boundary_label l) = Inr (r, db')"
      using add None Some by (simp add: add_region_def)
    have "(d, snd (dim_id it)) \<notin> dim_id ` set (region_table db)" using free it by simp
    note new = replace_region_dim_ok [OF ok conjunct1 [OF it] this rep]
    moreover have "is_boundary_idx r = is_boundary_label l"
      using rep by (auto simp: replace_region_dim_def res_simps Let_def split: if_splits)
    ultimately show ?thesis using it by (auto simp: indices_def region_result_def)
  next
    case undef: None
    have lab: "find_by_label (region_table db) l = None"
      and ins: "insert_region db rid l d (is_boundary_label l) addr = Inr (r, db')"
      using add None undef by (auto simp: add_region_def split: option.splits)
    from insert_region_ok [OF ok l ins] show ?thesis
      by (auto simp: indices_def region_result_def)
  qed
qed

lemma get_region_ok:
  assumes ok: "db_ok db" and get: "get_region db rid d = Inr (r, db')"
  shows "db_ok db'" "indices db' = indices db" "closed db' = closed db" "el_to_reg_map db' = el_to_reg_map db"
    "n_boundary db' = n_boundary db \<and> n_bulk db' = n_bulk db"
    "r = undefined_region \<and> db' = db \<and> (d, rid) \<notin> dim_id ` set (region_table db) \<or>
     (\<exists>it \<in> set (region_table db'). index it = r \<and> dim_id it = (d, rid))"
proof -
  have "db_ok db' \<and> indices db' = indices db \<and> closed db' = closed db \<and> el_to_reg_map db' = el_to_reg_map db \<and>
    (n_boundary db' = n_boundary db \<and> n_bulk db' = n_bulk db) \<and>
    (r = undefined_region \<and> db' = db \<and> (d, rid) \<notin> dim_id ` set (region_table db) \<or>
     (\<exists>it \<in> set (region_table db'). index it = r \<and> dim_id it = (d, rid)))"
  proof (cases "find_dim_id (region_table db) (d, rid)")
    case (Some it)
    then show ?thesis using get find_dim_id_Some [OF Some] ok by (auto simp: get_region_def)
  next
    case None
    then have free: "(d, rid) \<notin> dim_id ` set (region_table db)" by (simp add: find_dim_id_None)
    show ?thesis
    proof (cases "find_dim_id (region_table db) (undefined_dim, rid)")
      case undef: None
      then show ?thesis using None free get ok by (auto simp: get_region_def)
    next
      case (Some it)
      note it = find_dim_id_Some [OF Some]
      have rep: "replace_region_dim db it d (is_boundary_label (label it)) = Inr (r, db')"
        using get None Some by (simp add: get_region_def)
      have fr: "(d, snd (dim_id it)) \<notin> dim_id ` set (region_table db)" using free it by simp
      from replace_region_dim_ok [OF ok conjunct1 [OF it] fr rep] it show ?thesis by auto
    qed
  qed
  then show "db_ok db'" "indices db' = indices db" "closed db' = closed db" "el_to_reg_map db' = el_to_reg_map db"
    "n_boundary db' = n_boundary db \<and> n_bulk db' = n_bulk db"
    "r = undefined_region \<and> db' = db \<and> (d, rid) \<notin> dim_id ` set (region_table db) \<or>
     (\<exists>it \<in> set (region_table db'). index it = r \<and> dim_id it = (d, rid))" by auto
qed

lemma implicit_boundary_region_ok:
  assumes ok: "db_ok db" and imp: "implicit_boundary_region db = Inr (r, db')"
  shows "region_result db r db'"
proof (cases "find_dim_id (region_table db) (undefined_dim, undefined_region - 2)")
  case None
  then have "insert_region db (undefined_region - 2) ''.IMPLICIT_BOUNDARY'' undefined_dim True [] = Inr (r, db')"
    using imp by (simp add: implicit_boundary_region_def)
  from insert_region_ok [OF ok _ this] show ?thesis
    by (auto simp: reserved_def indices_def region_result_def)
next
  case (Some it)
  then show ?thesis using imp ok find_dim_id_Some [OF Some]
    by (auto simp: implicit_boundary_region_def indices_def region_result_def)
qed

section \<open>Union of sets\<close>

lemma set_insert_props: "sorted rs \<and> distinct rs \<Longrightarrow>
  sorted (set_insert r rs) \<and> distinct (set_insert r rs) \<and> set (set_insert r rs) = insert r (set rs)"
  by (auto simp: set_insert_def set_insort_key distinct_insort sorted_insort)

lemma fold_set_insert: "sorted acc \<and> distinct acc \<Longrightarrow>
  sorted (fold set_insert rs acc) \<and> distinct (fold set_insert rs acc) \<and>
  set (fold set_insert rs acc) = set rs \<union> set acc"
proof (induction rs arbitrary: acc)
  case (Cons r rs)
  then show ?case using set_insert_props [OF Cons.prems, of r] Cons.IH [of "set_insert r acc"] by auto
qed simp

lemma union_set_fold: "sorted acc \<and> distinct acc \<Longrightarrow>
  let u = fold (\<lambda>n acc. fold set_insert (get_region_set db n) acc) names acc
  in sorted u \<and> distinct u \<and> set u = (\<Union>n \<in> set names. set (get_region_set db n)) \<union> set acc"
proof (induction names arbitrary: acc)
  case (Cons n names)
  then show ?case
    using fold_set_insert [OF Cons.prems, of "get_region_set db n"]
      Cons.IH [of "fold set_insert (get_region_set db n) acc"] by (auto simp: Let_def)
qed simp

lemma union_set_props:
  "sorted (union_set db names)" "distinct (union_set db names)"
  "set (union_set db names) = (\<Union>n \<in> set names. set (get_region_set db n))"
  using union_set_fold [of "[]" db names] by (simp_all add: union_set_def Let_def)

lemma get_region_set_ok:
  "sets_ok db \<Longrightarrow> distinct (get_region_set db s) \<and> set (get_region_set db s) \<subseteq> indices db"
  by (auto simp: get_region_set_def sets_ok_def split: option.splits)

section \<open>Reachable databases\<close>

text \<open>The calls other components make, as steps of the database.\<close>

inductive db_step :: "region_db \<Rightarrow> region_db \<Rightarrow> bool" where
  add: "\<not> reserved l \<Longrightarrow> add_region db rid l d addr = Inr (r, db') \<Longrightarrow> db_step db db'"
| rename: "\<not> reserved l \<Longrightarrow> rename_region db r l = Inr (r', db') \<Longrightarrow> db_step db db'"
| get: "get_region db rid d = Inr (r, db') \<Longrightarrow> db_step db db'"
| use: "mark_used_region db r = Inr db' \<Longrightarrow> db_step db db'"
| implicit: "implicit_boundary_region db = Inr (r, db') \<Longrightarrow> db_step db db'"
| combine: "\<not> reserved s \<Longrightarrow> db_step db (add_set db s (union_set db names))"
| close: "db_step db (close_db db)"

inductive_cases db_stepE: "db_step db db'"

inductive db_reachable :: "region_db \<Rightarrow> bool" where
  init: "db_reachable new_db"
| step: "db_reachable db \<Longrightarrow> db_step db db' \<Longrightarrow> db_reachable db'"

lemma close_db_ok: "db_ok db \<Longrightarrow> db_ok (close_db db)"
  by (simp add: close_db_def db_ok_def counts_ok_def sets_ok_def standard_sets_def indices_def
      get_region_set_def)

lemma union_set_ok: "db_ok db \<Longrightarrow> \<not> reserved s \<Longrightarrow> db_ok (add_set db s (union_set db names))"
  using get_region_set_ok [of db] by (intro add_set_ok) (auto simp: union_set_props db_ok_def)

lemma db_step_ok:
  assumes "db_step db db'" and "db_ok db"
  shows "db_ok db' \<and> indices db \<subseteq> indices db' \<and> (closed db \<longrightarrow> closed db' \<and> indices db' = indices db)"
  using assms
proof cases
  case (add l rid d addr r)
  then show ?thesis using add_region_ok [OF assms(2) add(1,2)] by (auto simp: region_result_def)
next
  case (rename l r r')
  then show ?thesis using rename_region_ok [OF assms(2) rename(1,2)] by auto
next
  case (get rid d r)
  then show ?thesis using get_region_ok [OF assms(2) get] by auto
next
  case (use r)
  then show ?thesis using mark_used_region_ok [OF assms(2) use] by auto
next
  case (implicit r)
  then show ?thesis using implicit_boundary_region_ok [OF assms(2) implicit] by (auto simp: region_result_def)
next
  case (combine s names)
  then show ?thesis using union_set_ok [OF assms(2)] by (auto simp: indices_def)
next
  case close
  then show ?thesis using close_db_ok [OF assms(2)] by (auto simp: close_db_def indices_def)
qed

lemma db_reachable_ok: "db_reachable db \<Longrightarrow> db_ok db"
  by (induction rule: db_reachable.induct) (auto simp: new_db_ok dest: db_step_ok)

section \<open>Properties\<close>

lemma sample_add:
  "\<exists>db'. add_region new_db 7 ''rock'' 3 ''mesh'' = Inr (1, db')"
  by (simp add: add_region_def new_db_def find_dim_id_def find_by_label_def insert_region_def table_insert_def
      is_boundary_label_def get_label_def get_item_def find_index_def Let_def)



text \<open>
  C38. Adding a region to a sound open database: with a free pair of dimension and id, a free id
  among the regions of undefined dimension, a free label and a free index it succeeds; whenever it succeeds
  the returned region is found by its label or dimension and id, is a boundary region exactly
  when the label starts with a dot, every earlier region is kept, and the database stays sound.
\<close>

theorem add_region_correct:
  assumes "db_ok db" and "\<not> reserved l"
  shows "(\<not> closed db \<and> has_room db (is_boundary_label l) \<and> (d, rid) \<notin> dim_id ` set (region_table db) \<and>
      (undefined_dim, rid) \<notin> dim_id ` set (region_table db) \<and> l \<notin> label ` set (region_table db) \<longrightarrow>
      (\<exists>r db'. add_region db rid l d addr = Inr (r, db') \<and> find_label db' l = r \<and> r \<notin> indices db)) \<and>
    (\<forall>r db'. add_region db rid l d addr = Inr (r, db') \<longrightarrow>
      db_ok db' \<and> indices db \<subseteq> indices db' \<and> find_id_dim db' rid d = r \<and>
      is_boundary_idx r = is_boundary_label l)"
proof (intro conjI impI allI)
  assume free: "\<not> closed db \<and> has_room db (is_boundary_label l) \<and> (d, rid) \<notin> dim_id ` set (region_table db) \<and>
      (undefined_dim, rid) \<notin> dim_id ` set (region_table db) \<and> l \<notin> label ` set (region_table db)"
  then obtain r db' where ins: "insert_region db rid l d (is_boundary_label l) addr = Inr (r, db')"
    using insert_region_total [OF assms(1)] by blast
  have "add_region db rid l d addr = Inr (r, db')"
    using ins free by (simp add: add_region_def find_dim_id_None [THEN iffD2] find_by_label_None [THEN iffD2])
  moreover have "find_label db' l = r"
  proof -
    let ?it = "\<lparr>index = r, dim_id = (d, rid), label = l, used = False, address = addr\<rparr>"
    have "?it \<in> set (region_table db')" "distinct (map label (region_table db'))"
      using insert_region_ok(1,2) [OF assms ins] by (simp_all add: db_ok_def table_ok_def)
    from find_unique [OF this(2,1)] show ?thesis by (simp add: find_label_def find_by_label_def region_of_def)
  qed
  moreover have "r \<notin> indices db" by (rule insert_region_ok(4) [OF assms ins])
  ultimately show "\<exists>r db'. add_region db rid l d addr = Inr (r, db') \<and> find_label db' l = r \<and> r \<notin> indices db"
    by blast
next
  fix r db'
  assume "add_region db rid l d addr = Inr (r, db')"
  note res = add_region_ok [OF assms this]
  then obtain it where it: "it \<in> set (region_table db')" "index it = r" "dim_id it = (d, rid)" by blast
  have ok': "db_ok db'" using res by (simp add: region_result_def)
  then have "find_dim_id (region_table db') (d, rid) = Some it"
    using find_unique [of dim_id "region_table db'" it] it by (simp add: find_dim_id_def db_ok_def table_ok_def)
  then show "db_ok db'" "indices db \<subseteq> indices db'" "find_id_dim db' rid d = r"
    "is_boundary_idx r = is_boundary_label l"
    using res it(2) by (auto simp: region_result_def find_id_dim_def region_of_def)
qed

theorem add_region_correct_witness:
  "\<exists>r db'. add_region new_db 7 ''rock'' 3 ''mesh'' = Inr (r, db') \<and> find_label db' ''rock'' = r"
  using add_region_correct [OF new_db_ok, of "''rock''" 3 7 "''mesh''"]
  by (auto simp: reserved_def new_db_def has_room_def is_boundary_label_def)

text \<open>
  Renaming a region to an unused label changes only its label (and clears its used flag) and
  moves its set to the new name; the sets of all, bulk and boundary regions are kept, even when
  the new label belongs to the other kind, and the database stays sound.
\<close>

theorem rename_region_correct:
  assumes "db_ok db" and "it \<in> set (region_table db)"
    and "l \<notin> label ` set (region_table db)" and "\<not> reserved l"
  shows "\<exists>db'. rename_region db (index it) l = Inr (index it, db') \<and> db_ok db' \<and>
    find_label db' l = index it \<and> find_label db' (label it) = undefined_region \<and>
    set (region_table db') = insert (it\<lparr>label := l, used := False\<rparr>) (set (region_table db) - {it}) \<and>
    get_region_set db' l = get_region_set db (label it) \<and>
    set (get_region_set db' ''BULK'') = set (get_region_set db ''BULK'')"
proof -
  obtain db' it' where r: "rename_region db (index it) l = Inr (index it, db')" "db_ok db'"
    "it' = it\<lparr>label := l, used := False\<rparr>"
    "set (region_table db') = insert it' {x \<in> set (region_table db). index x \<noteq> index it}"
    "indices db' = indices db" "get_region_set db' l = get_region_set db (label it)"
    by (rule rename_region_fresh [OF assms])
  have tok: "table_ok (region_table db)" "table_ok (region_table db')" using assms(1) r(2) by (auto simp: db_ok_def)
  have it': "it' \<in> set (region_table db')" "label it' = l" "index it' = index it" using r(3,4) by auto
  have "find_by_label (region_table db') l = Some it'"
    using find_unique [of label "region_table db'" it'] tok(2) it' by (simp add: find_by_label_def table_ok_def)
  then have found: "find_label db' l = index it" using it' by (simp add: find_label_def region_of_def)
  have "label it \<notin> label ` set (region_table db')"
    using r(3,4) assms(2,3) table_label_unique [OF tok(1) _ assms(2)] by fastforce
  then have gone: "find_label db' (label it) = undefined_region"
    by (simp add: find_label_def region_of_def find_by_label_None [THEN iffD2])
  have "{x \<in> set (region_table db). index x \<noteq> index it} = set (region_table db) - {it}"
    using tok(1) assms(2) by (auto simp: table_ok_def distinct_map dest: inj_onD)
  then show ?thesis using r found gone assms(1) by (auto simp: db_ok_def standard_sets_def)
qed

lemma sample_db_ok:
  obtains db' it where "add_region new_db 7 ''rock'' 3 ''mesh'' = Inr (1, db')" "db_ok db'"
    "n_boundary db' = 0" "n_bulk db' = 1"
    "region_table db' = [it]" "index it = 1" "label it = ''rock''" "dim_id it = (3, 7)"
proof -
  obtain db' where db': "add_region new_db 7 ''rock'' 3 ''mesh'' = Inr (1, db')" using sample_add by blast
  have "db_ok db'"
    using add_region_ok [OF new_db_ok _ db'] by (simp add: reserved_def region_result_def)
  moreover have "region_table db' =
      [\<lparr>index = 1, dim_id = (3, 7), label = ''rock'', used = False, address = ''mesh''\<rparr>] \<and> n_boundary db' = 0 \<and> n_bulk db' = 1"
    using db' by (auto simp: add_region_def new_db_def find_dim_id_def find_by_label_def insert_region_def
        table_insert_def is_boundary_label_def get_label_def get_item_def find_index_def Let_def)
  ultimately show thesis using that db' by auto
qed

theorem rename_region_correct_witness:
  "\<exists>db db'. rename_region db 1 ''granite'' = Inr (1, db') \<and> find_label db' ''granite'' = 1"
proof -
  obtain db it where db: "db_ok db" "region_table db = [it]" "index it = 1" "label it = ''rock''"
    using sample_db_ok by metis
  show ?thesis
    using rename_region_correct [OF db(1), of it "''granite''"] db(2-4) by (auto simp: reserved_def)
qed

text \<open>
  Renaming a region to a label that exists compares the id of the region with the index of
  the other one: renaming a region to its own label is refused as not unique unless its id
  equals its index, and renaming to the label of another region silently does nothing when the
  id of the first equals the index of the second.
\<close>

theorem rename_region_existing:
  assumes "db_ok db" and "it \<in> set (region_table db)" and "other \<in> set (region_table db)"
  shows "rename_region db (index it) (label other) =
    (if snd (dim_id it) = index other then Inr (index it, db)
     else Inl (ExcNonuniqueLabel (label other) (snd (dim_id it)) (snd (dim_id other))))"
proof -
  have tok: "table_ok (region_table db)" using assms(1) by (simp add: db_ok_def)
  then have "get_item db (index it) = Inr it" using get_item_eq_Inr assms(2) by blast
  moreover have "find_by_label (region_table db) (label other) = Some other"
    using find_unique [OF _ assms(3), of label] tok by (simp add: find_by_label_def table_ok_def)
  ultimately show ?thesis by (simp add: rename_region_def Let_def)
qed

theorem rename_region_existing_witness:
  "\<exists>db. rename_region db 1 ''rock'' = Inl (ExcNonuniqueLabel ''rock'' 7 7)"
proof -
  obtain db it where db: "db_ok db" "region_table db = [it]" "index it = 1" "label it = ''rock''" "dim_id it = (3, 7)"
    using sample_db_ok by metis
  then show ?thesis using rename_region_existing [OF db(1), of it it] by auto
qed

text \<open>
  The index of every region of a reachable database is a valid region index below the size
  the database reports, and its half is below the number of boundary or bulk regions, so the
  arrays of region fields indexed by them are large enough.
\<close>

theorem region_index_bounds:
  assumes "db_ok db" and "it \<in> set (region_table db)"
    and "unat (n_boundary db) < 2 ^ 31 - 1" and "unat (n_bulk db) < 2 ^ 31 - 1"
  shows "index it < db_size db \<and> is_valid (index it) \<and>
    (if is_boundary_idx (index it) then boundary_idx (index it) < boundary_size db
     else bulk_idx (index it) < bulk_size db)"
proof -
  let ?i = "index it" and ?b = "n_boundary db" and ?k = "n_bulk db"
  have half: "unat ?i div 2 < (if is_boundary_idx ?i then unat ?b else unat ?k)"
    using assms(1,2) by (auto simp: db_ok_def counts_ok_def item_counted_def list_all_iff)
  then have m: "unat ?i div 2 < max (unat ?b) (unat ?k)" by (auto split: if_splits)
  have um: "unat (max ?b ?k) = max (unat ?b) (unat ?k)"
    by (simp add: max_def word_le_nat_alt)
  have sz: "unat (db_size db) = 2 * max (unat ?b) (unat ?k)"
    using assms(3,4) um by (simp add: db_size_def unat_word_ariths)
  have lt: "unat ?i < unat (db_size db)" using m sz by linarith
  moreover have "is_valid ?i"
    using lt sz assms(3,4) by (auto simp: is_valid_def undefined_region_def)
  moreover have "unat (drop_bit 1 ?i) = unat ?i div 2" by (simp add: drop_bit_eq_div unat_div)
  ultimately show ?thesis
    using half by (auto simp: word_less_nat_alt boundary_idx_def bulk_idx_def boundary_size_def bulk_size_def)
qed

theorem region_index_bounds_witness:
  "\<exists>db it. it \<in> set (region_table db) \<and> index it < db_size db"
proof -
  obtain db it where db: "db_ok db" "region_table db = [it]" "n_boundary db = 0" "n_bulk db = 1" using sample_db_ok by metis
  then have "it \<in> set (region_table db) \<and> index it < db_size db"
    using region_index_bounds [OF db(1), of it] by simp
  then show ?thesis by blast
qed

end
