(* ===== verification/Region_Sets.thy ===== *)
theory Region_Sets
  imports Region_DB
begin

text \<open>
  Regions and sets of regions declared by the user: the constructors of \<open>RegionSetFromId\<close>,
  \<open>RegionSetFromLabel\<close>, \<open>RegionSetFromElements\<close>, \<open>RegionSetUnion\<close>, \<open>RegionSetDifference\<close> and
  \<open>RegionSetIntersection\<close> of \<open>src/src/mesh/region_set.cc\<close>, with their effect on the region
  database, and the operations of \<open>Mesh\<close> (\<open>src/src/mesh/mesh.cc\<close>) that run them and assign
  regions to elements. The address of an input record is part of the input.
\<close>

section \<open>Sorted ranges\<close>

text \<open>\<open>std::set_difference\<close> and \<open>std::set_intersection\<close> on sorted ranges.\<close>

fun set_difference :: "region_idx list \<Rightarrow> region_idx list \<Rightarrow> region_idx list" where
  "set_difference [] ys = []"
| "set_difference (x # xs) [] = x # xs"
| "set_difference (x # xs) (y # ys) =
     (if x < y then x # set_difference xs (y # ys)
      else if y < x then set_difference (x # xs) ys
      else set_difference xs ys)"

fun set_intersection :: "'a :: linorder list \<Rightarrow> 'a list \<Rightarrow> 'a list" where
  "set_intersection (x # xs) (y # ys) =
     (if x < y then set_intersection xs (y # ys)
      else if y < x then set_intersection (x # xs) ys
      else x # set_intersection xs ys)"
| "set_intersection xs ys = []"

section \<open>Declarations of regions\<close>

definition get_max_region_id :: "region_db \<Rightarrow> u32" where
  "get_max_region_id db = max_id db + 1"

text \<open>
  The constructor catches the exception of an ambiguous id and does not throw it again: the
  region stays invalid and the branch that adds a region runs.
\<close>

definition from_id :: "region_db \<Rightarrow> string \<Rightarrow> u32 \<Rightarrow> u32 option \<Rightarrow> string \<Rightarrow> region_db region_res" where
  "from_id db name rid dim_opt addr =
     (let reg = (case find_id db rid of Inr r \<Rightarrow> r | Inl _ \<Rightarrow> undefined_region) in
      if is_valid reg then bind_res (rename_region db reg name) (\<lambda>r. Inr (snd r))
      else bind_res (add_region db rid name
             (case dim_opt of Some d \<Rightarrow> d | None \<Rightarrow> undefined_dim) addr) (\<lambda>r. Inr (snd r)))"

definition from_label :: "region_db \<Rightarrow> string \<Rightarrow> string \<Rightarrow> bool \<Rightarrow> string \<Rightarrow> region_db region_res" where
  "from_label db new_name mesh_label allow_empty addr =
     (let reg = find_label db mesh_label in
      if is_valid reg then bind_res (rename_region db reg new_name) (\<lambda>r. Inr (snd r))
      else if allow_empty
      then bind_res (add_region db (get_max_region_id db) new_name 0 addr) (\<lambda>r. Inr (snd r))
      else Inr db)"

text \<open>\<open>std::map::insert\<close> keeps the value of a key that is present; the map is ordered.\<close>

fun map_insert_sorted :: "u32 \<times> u32 \<Rightarrow> (u32 \<times> u32) list \<Rightarrow> (u32 \<times> u32) list" where
  "map_insert_sorted kv [] = [kv]"
| "map_insert_sorted kv (x # xs) =
     (if fst kv < fst x then kv # x # xs
      else if fst kv = fst x then x # xs
      else x # map_insert_sorted kv xs)"

definition from_elements :: "region_db \<Rightarrow> string \<Rightarrow> u32 option \<Rightarrow> u32 list \<Rightarrow> string \<Rightarrow> region_db region_res" where
  "from_elements db name id_opt element_list addr =
     (let rid = (case id_opt of Some i \<Rightarrow> i | None \<Rightarrow> get_max_region_id db) in
      bind_res (add_region db rid name undefined_dim addr) (\<lambda>r.
        Inr ((snd r)\<lparr>el_to_reg_map :=
               fold (\<lambda>e m. map_insert_sorted (e, rid) m) element_list (el_to_reg_map (snd r))\<rparr>)))"

definition union_operand :: "string \<Rightarrow> region_db \<times> string list \<Rightarrow> u32 \<Rightarrow> (region_db \<times> string list) region_res" where
  "union_operand addr s rid =
     (let (db, names) = s in
      bind_res (find_id db rid) (\<lambda>reg.
        bind_res (if is_valid reg then Inr (reg, db)
                  else add_region db rid (create_label_from_id rid) undefined_dim addr) (\<lambda>(reg', db').
          bind_res (get_label db' reg') (\<lambda>l. Inr (db', names @ [l])))))"

definition union_of :: "region_db \<Rightarrow> string \<Rightarrow> u32 list option \<Rightarrow> string list option \<Rightarrow> string \<Rightarrow> region_db region_res" where
  "union_of db name region_ids regions addr =
     bind_res (case regions of Some ns \<Rightarrow> get_and_check_operands db ns | None \<Rightarrow> Inr []) (\<lambda>names0.
     bind_res (fold_res (union_operand addr) (db, names0)
                 (case region_ids of Some is \<Rightarrow> is | None \<Rightarrow> [])) (\<lambda>(db1, names).
       let region_set = union_set db1 names in
       if region_set = [] then Inl (ExcEmptyRegionSetResult ''Union'')
       else Inr (add_set db1 name region_set)))"

definition difference_of :: "region_db \<Rightarrow> string \<Rightarrow> string \<Rightarrow> string \<Rightarrow> region_db region_res" where
  "difference_of db name a b =
     bind_res (get_and_check_operands db [a, b]) (\<lambda>names.
       let set_diff = set_difference (sort (get_region_set db a)) (sort (get_region_set db b)) in
       if set_diff = [] then Inl (ExcEmptyRegionSetResult ''Difference'')
       else Inr (add_set db name set_diff))"

definition intersection :: "region_db \<Rightarrow> region_set \<Rightarrow> string \<Rightarrow> region_set" where
  "intersection db target source =
     set_intersection (sort target) (sort (get_region_set db source))"

definition intersection_of :: "region_db \<Rightarrow> string \<Rightarrow> string list \<Rightarrow> region_db region_res" where
  "intersection_of db name regions =
     bind_res (get_and_check_operands db regions) (\<lambda>names.
       case names of
         [] \<Rightarrow> Inl UndefinedAccess
       | n # ns \<Rightarrow>
           let region_set = fold (\<lambda>s t. intersection db t s) ns (get_region_set db n) in
           if region_set = [] then Inl (ExcEmptyRegionSetResult ''Intersection'')
           else Inr (add_set db name region_set))"

datatype region_decl =
    From_Id string u32 "u32 option" string
  | From_Label string string bool string
  | From_Elements string "u32 option" "u32 list" string
  | Union string "u32 list option" "string list option" string
  | Difference string string string
  | Intersection string "string list"

fun declare_region :: "region_db \<Rightarrow> region_decl \<Rightarrow> region_db region_res" where
  "declare_region db (From_Id n i d a) = from_id db n i d a"
| "declare_region db (From_Label n m e a) = from_label db n m e a"
| "declare_region db (From_Elements n i es a) = from_elements db n i es a"
| "declare_region db (Union n is ns a) = union_of db n is ns a"
| "declare_region db (Difference n a b) = difference_of db n a b"
| "declare_region db (Intersection n ns) = intersection_of db n ns"

definition read_regions_from_input :: "region_db \<Rightarrow> region_decl list \<Rightarrow> region_db region_res" where
  "read_regions_from_input = fold_res declare_region"

section \<open>Regions of elements\<close>

record mesh_element =
  el_dim :: u32
  el_region :: region_idx

text \<open>
  The elements of the mesh by their ids; \<open>modify_element_ids\<close> moves the elements of the map to
  their regions. The dimension of the first element of the whole map is required of all.
\<close>

type_synonym mesh_elements = "u32 \<rightharpoonup> mesh_element"

definition modify_element ::
  "u32 \<Rightarrow> mesh_elements \<times> region_db \<Rightarrow> u32 \<times> u32 \<Rightarrow> (mesh_elements \<times> region_db) region_res" where
  "modify_element dim_to_check s er =
     (let (els, db) = s in
      case els (fst er) of
        None \<Rightarrow> Inl UndefinedAccess
      | Some ele \<Rightarrow>
          if el_dim ele \<noteq> dim_to_check then Inl (UsrErrDimension (fst er))
          else bind_res (get_region db (snd er) (el_dim ele)) (\<lambda>(r, db1).
            bind_res (mark_used_region db1 r) (\<lambda>db2.
              Inr (els(fst er \<mapsto> ele\<lparr>el_region := r\<rparr>), db2))))"

definition modify_element_ids ::
  "mesh_elements \<Rightarrow> region_db \<Rightarrow> (u32 \<times> u32) list \<Rightarrow> (mesh_elements \<times> region_db) region_res" where
  "modify_element_ids els db m =
     (case m of
        [] \<Rightarrow> Inr (els, db)
      | er # _ \<Rightarrow>
          (case els (fst er) of
             None \<Rightarrow> Inl UndefinedAccess
           | Some ele \<Rightarrow>
               bind_res (find_id db (snd er)) (\<lambda>reg.
               bind_res (get_label db reg) (\<lambda>reg_name.
                 fold_res (modify_element (el_dim ele)) (els, db) m))))"

definition check_and_finish ::
  "mesh_elements \<Rightarrow> region_db \<Rightarrow> (mesh_elements \<times> region_db) region_res" where
  "check_and_finish els db =
     bind_res (modify_element_ids els db (el_to_reg_map db)) (\<lambda>(els1, db1).
       let db2 = close_db (db1\<lparr>el_to_reg_map := []\<rparr>) in
       bind_res (check_regions db2) (\<lambda>warnings. Inr (els1, db2)))"

definition add_physical_name :: "region_db \<Rightarrow> u32 \<Rightarrow> u32 \<Rightarrow> string \<Rightarrow> region_db region_res" where
  "add_physical_name db d rid name =
     bind_res (add_region db rid name d ''$PhysicalNames'') (\<lambda>r. Inr (snd r))"

text \<open>The region of a new element; it is created when the mesh file did not name it.\<close>

definition element_region :: "region_db \<Rightarrow> u32 \<Rightarrow> u32 \<Rightarrow> (region_idx \<times> region_db) region_res" where
  "element_region db d rid =
     bind_res (get_region db rid d) (\<lambda>(r, db1).
       bind_res (if is_valid r then Inr (r, db1)
                 else add_region db1 rid (create_label_from_id rid) d ''$Element'') (\<lambda>(r', db2).
         bind_res (mark_used_region db2 r') (\<lambda>db3. Inr (r', db3))))"

section \<open>Set algebra\<close>

lemma set_difference_sorted:
  "sorted xs \<Longrightarrow> sorted ys \<Longrightarrow> distinct xs \<Longrightarrow> distinct ys \<Longrightarrow>
   set (set_difference xs ys) = set xs - set ys \<and> distinct (set_difference xs ys) \<and> sorted (set_difference xs ys)"
proof (induction xs ys rule: set_difference.induct)
  case (3 x xs y ys)
  consider "x < y" | "y < x" | "x = y" by fastforce
  then show ?case
  proof cases
    case 1
    then have "x \<notin> set (y # ys)" using 3(5) by fastforce
    then show ?thesis using 1 3 by (auto simp: sorted_simps)
  next
    case 2
    then have "y \<notin> set (x # xs)" using 3(4) by fastforce
    then show ?thesis using 2 3 by (auto simp: sorted_simps)
  next
    case 3
    then show ?thesis using "3.IH" "3.prems" by (auto simp: sorted_simps)
  qed
qed auto

lemma set_intersection_sorted:
  "sorted xs \<Longrightarrow> sorted ys \<Longrightarrow> distinct xs \<Longrightarrow> distinct ys \<Longrightarrow>
   set (set_intersection xs ys) = set xs \<inter> set ys \<and> distinct (set_intersection xs ys)"
proof (induction xs ys rule: set_intersection.induct)
  case (1 x xs y ys)
  consider "x < y" | "y < x" | "x = y" by fastforce
  then show ?case
  proof cases
    case 1
    then have "x \<notin> set (y # ys)" using "1.prems" by fastforce
    then show ?thesis using 1 "1.IH" "1.prems" by auto
  next
    case 2
    then have "y \<notin> set (x # xs)" using "1.prems" by fastforce
    then show ?thesis using 2 "1.IH" "1.prems" by auto
  next
    case 3
    then show ?thesis using "1.IH" "1.prems" by auto
  qed
qed auto

lemma intersection_props:
  assumes "distinct t" and "sets_ok db"
  shows "set (intersection db t s) = set t \<inter> set (get_region_set db s)" "distinct (intersection db t s)"
  using set_intersection_sorted [of "sort t" "sort (get_region_set db s)"] assms get_region_set_ok [OF assms(2), of s]
  by (simp_all add: intersection_def)

lemma fold_intersection:
  assumes "sets_ok db" and "distinct t"
  shows "distinct (fold (\<lambda>s t. intersection db t s) ns t) \<and>
    set (fold (\<lambda>s t. intersection db t s) ns t) = set t \<inter> (\<Inter>n \<in> set ns. set (get_region_set db n))"
  using assms(2)
proof (induction ns arbitrary: t)
  case (Cons n ns)
  then show ?case using intersection_props [OF Cons.prems assms(1), of n] by auto
qed simp

section \<open>Declarations keep the database sound\<close>

fun decl_name :: "region_decl \<Rightarrow> string" where
  "decl_name (From_Id n i d a) = n"
| "decl_name (From_Label n m e a) = n"
| "decl_name (From_Elements n i es a) = n"
| "decl_name (Union n is ns a) = n"
| "decl_name (Difference n a b) = n"
| "decl_name (Intersection n ns) = n"

definition decl_ok :: "region_decl \<Rightarrow> bool" where
  "decl_ok d \<longleftrightarrow> \<not> reserved (decl_name d)"

lemma create_label_not_reserved: "\<not> reserved (create_label_from_id rid)"
  by (simp add: reserved_def create_label_from_id_def)

lemma map_update_ok: "db_ok db \<Longrightarrow> db_ok (db\<lparr>el_to_reg_map := m\<rparr>)"
  by (simp add: db_ok_def counts_ok_def sets_ok_def standard_sets_def indices_def get_region_set_def)

lemma add_region_db_ok:
  "db_ok db \<Longrightarrow> \<not> reserved l \<Longrightarrow> add_region db rid l d addr = Inr (r, db') \<Longrightarrow> db_ok db'"
  using add_region_ok [of db l rid d addr r db'] by (simp add: region_result_def)

lemma rename_region_db_ok:
  "db_ok db \<Longrightarrow> \<not> reserved l \<Longrightarrow> rename_region db reg l = Inr (r, db') \<Longrightarrow> db_ok db'"
  by (rule rename_region_ok(1))

lemma from_id_ok: "db_ok db \<Longrightarrow> \<not> reserved n \<Longrightarrow> from_id db n i d a = Inr db' \<Longrightarrow> db_ok db'"
  by (auto simp: from_id_def Let_def bind_res_eq_Inr intro: add_region_db_ok rename_region_db_ok split: if_splits)

lemma from_label_ok: "db_ok db \<Longrightarrow> \<not> reserved n \<Longrightarrow> from_label db n l e a = Inr db' \<Longrightarrow> db_ok db'"
  by (auto simp: from_label_def Let_def bind_res_eq_Inr intro: add_region_db_ok rename_region_db_ok split: if_splits)

lemma from_elements_ok: "db_ok db \<Longrightarrow> \<not> reserved n \<Longrightarrow> from_elements db n i es a = Inr db' \<Longrightarrow> db_ok db'"
  by (auto simp: from_elements_def Let_def bind_res_eq_Inr intro!: map_update_ok intro: add_region_db_ok)

lemma union_operand_ok:
  assumes "db_ok (fst s)" and "union_operand a s rid = Inr s'"
  shows "db_ok (fst s')"
proof -
  obtain db names where s: "s = (db, names)" by fastforce
  from assms(2) obtain reg reg' db' l where
    "(if is_valid reg then Inr (reg, db) else add_region db rid (create_label_from_id rid) undefined_dim a) = Inr (reg', db')"
    and s': "s' = (db', names @ [l])"
    unfolding s union_operand_def by (auto simp: bind_res_eq_Inr)
  then have "db_ok db'"
    using assms(1) s add_region_db_ok [of db "create_label_from_id rid" rid undefined_dim a reg' db']
      create_label_not_reserved by (auto split: if_splits)
  then show ?thesis by (simp add: s')
qed

interpretation operands: checked_machine "\<lambda>s. db_ok (fst s)" "\<lambda>_. True" "union_operand a" for a
  by unfold_locales (rule union_operand_ok)

lemma union_of_ok:
  assumes "db_ok db" and "\<not> reserved n" and "union_of db n is ns a = Inr db'"
  shows "db_ok db'"
proof -
  from assms(3) obtain names0 db1 names where
    f: "fold_res (union_operand a) (db, names0) (case is of Some is \<Rightarrow> is | None \<Rightarrow> []) = Inr (db1, names)"
    and d: "db' = add_set db1 n (union_set db1 names)"
    by (auto simp: union_of_def bind_res_eq_Inr Let_def split: if_splits)
  have "db_ok db1" using operands.run_keeps [OF _ _ f] assms(1) by (simp add: list_all_iff)
  then show ?thesis unfolding d by (rule union_set_ok [OF _ assms(2)])
qed

lemma difference_of_ok:
  assumes ok: "db_ok db" and "\<not> reserved n" and "difference_of db n a b = Inr db'"
  shows "db_ok db'"
    "set (set_difference (sort (get_region_set db a)) (sort (get_region_set db b))) =
      set (get_region_set db a) - set (get_region_set db b)"
proof -
  have g: "distinct (get_region_set db s)" "set (get_region_set db s) \<subseteq> indices db" for s
    using get_region_set_ok ok by (auto simp: db_ok_def)
  note d = set_difference_sorted [of "sort (get_region_set db a)" "sort (get_region_set db b)"]
  have res: "set (set_difference (sort (get_region_set db a)) (sort (get_region_set db b))) =
      set (get_region_set db a) - set (get_region_set db b)"
    "distinct (set_difference (sort (get_region_set db a)) (sort (get_region_set db b)))"
    using d g by simp_all
  have sub: "set (get_region_set db a) - set (get_region_set db b) \<subseteq> indices db" using g(2) [of a] by blast
  show "set (set_difference (sort (get_region_set db a)) (sort (get_region_set db b))) =
      set (get_region_set db a) - set (get_region_set db b)" by (rule res)
  have eq: "db' = add_set db n (set_difference (sort (get_region_set db a)) (sort (get_region_set db b)))"
    using assms(3) by (auto simp: difference_of_def bind_res_eq_Inr Let_def split: if_splits)
  show "db_ok db'" unfolding eq by (rule add_set_ok [OF ok res(2) _ assms(2)]) (simp only: res(1) sub)
qed

lemma get_and_check_operands_Inr:
  "get_and_check_operands db ns = Inr ms \<longleftrightarrow> ms = ns \<and> (\<forall>n \<in> set ns. sets db n \<noteq> None)"
  by (auto simp: get_and_check_operands_def find_None_iff find_Some_iff split: option.splits)

lemma intersection_of_Inr:
  assumes "intersection_of db n ns = Inr db'"
  obtains m ms where "ns = m # ms" "fold (\<lambda>s t. intersection db t s) ms (get_region_set db m) \<noteq> []"
    "db' = add_set db n (fold (\<lambda>s t. intersection db t s) ms (get_region_set db m))"
  using assms by (cases ns)
    (auto simp: intersection_of_def bind_res_eq_Inr get_and_check_operands_Inr Let_def split: if_splits)

lemma intersection_of_ok:
  assumes ok: "db_ok db" and "\<not> reserved n" and "intersection_of db n ns = Inr db'"
  shows "db_ok db'"
proof -
  have g: "distinct (get_region_set db s)" "set (get_region_set db s) \<subseteq> indices db" for s
    using get_region_set_ok ok by (auto simp: db_ok_def)
  from assms(3) obtain m ms where d: "db' = add_set db n (fold (\<lambda>s t. intersection db t s) ms (get_region_set db m))"
    by (rule intersection_of_Inr)
  have "sets_ok db" using ok by (simp add: db_ok_def)
  from fold_intersection [OF this g(1), of ms m] have f:
    "distinct (fold (\<lambda>s t. intersection db t s) ms (get_region_set db m))"
    "set (fold (\<lambda>s t. intersection db t s) ms (get_region_set db m)) \<subseteq> set (get_region_set db m)" by auto
  show ?thesis unfolding d by (rule add_set_ok [OF ok f(1) subset_trans [OF f(2) g(2)] assms(2)])
qed

interpretation declarations: checked_machine db_ok decl_ok declare_region
proof
  fix db d db'
  assume "db_ok db" "decl_ok d" "declare_region db d = Inr db'"
  then show "db_ok db'"
    by (cases d) (auto simp: decl_ok_def intro: from_id_ok from_label_ok from_elements_ok union_of_ok
        difference_of_ok(1) intersection_of_ok)
qed

section \<open>Elements\<close>

lemma map_of_insert_sorted:
  "sorted_wrt (\<lambda>a b. fst a < fst b) m \<Longrightarrow>
   map_of (map_insert_sorted kv m) = (if map_of m (fst kv) = None then (map_of m)(fst kv \<mapsto> snd kv) else map_of m) \<and>
   sorted_wrt (\<lambda>a b. fst a < fst b) (map_insert_sorted kv m) \<and>
   fst ` set (map_insert_sorted kv m) = insert (fst kv) (fst ` set m)"
proof (induction kv m rule: map_insert_sorted.induct)
  case (2 kv x xs)
  consider "fst kv < fst x" | "fst kv = fst x" | "fst x < fst kv" by fastforce
  then show ?case
  proof cases
    case 1
    then have "fst kv \<notin> fst ` set (x # xs)" using "2.prems" by force
    then have "map_of (x # xs) (fst kv) = None" by (simp only: map_of_eq_None_iff not_False_eq_True)
    then show ?thesis using 1 "2.prems" by (auto simp: fun_eq_iff split: if_splits)
  next
    case 2
    then show ?thesis using "2.prems" by auto
  next
    case 3
    then have IH: "map_of (map_insert_sorted kv xs) =
        (if map_of xs (fst kv) = None then (map_of xs)(fst kv \<mapsto> snd kv) else map_of xs)"
      "sorted_wrt (\<lambda>a b. fst a < fst b) (map_insert_sorted kv xs)"
      "fst ` set (map_insert_sorted kv xs) = insert (fst kv) (fst ` set xs)"
      using 2 by auto
    have "fst x < fst y" if "y \<in> set (map_insert_sorted kv xs)" for y
    proof -
      have "fst y \<in> insert (fst kv) (fst ` set xs)" using that IH(3) by blast
      then show ?thesis using 3 "2.prems" by auto
    qed
    then show ?thesis using 3 IH by (auto simp: fun_eq_iff)
  qed
qed simp

definition map_sorted :: "(u32 \<times> u32) list \<Rightarrow> bool" where
  "map_sorted m \<longleftrightarrow> sorted_wrt (\<lambda>a b. fst a < fst b) m"

lemma fold_insert_elements:
  assumes "map_sorted m"
  shows "map_sorted (fold (\<lambda>e m. map_insert_sorted (e, rid) m) es m) \<and>
    map_of (fold (\<lambda>e m. map_insert_sorted (e, rid) m) es m) =
      (\<lambda>e. case map_of m e of Some r \<Rightarrow> Some r | None \<Rightarrow> if e \<in> set es then Some rid else None)"
  using assms
proof (induction es arbitrary: m)
  case Nil
  then show ?case by (auto simp: fun_eq_iff split: option.splits)
next
  case (Cons e es)
  have one: "map_sorted (map_insert_sorted (e, rid) m)"
    "map_of (map_insert_sorted (e, rid) m) = (if map_of m e = None then (map_of m)(e \<mapsto> rid) else map_of m)"
    using map_of_insert_sorted [of m "(e, rid)"] Cons.prems by (simp_all add: map_sorted_def)
  from Cons.IH [OF one(1)] one(2) show ?case by (auto simp: fun_eq_iff split: option.splits if_splits)
qed

text \<open>The regions that \<open>modify_element_ids\<close> assigns.\<close>

definition has_region :: "region_db \<Rightarrow> region_idx \<Rightarrow> u32 \<Rightarrow> u32 \<Rightarrow> bool" where
  "has_region db r d rid \<longleftrightarrow> list_ex (\<lambda>it. index it = r \<and> dim_id it = (d, rid)) (region_table db)"

lemma has_region_iff:
  "has_region db r d rid \<longleftrightarrow> (r, (d, rid)) \<in> (\<lambda>x. (index x, dim_id x)) ` set (region_table db)"
  by (force simp: has_region_def list_ex_iff)

lemma get_region_keeps:
  assumes "db_ok db" and "get_region db rid d = Inr (r, db')" and "has_region db r' d' rid'"
    and "d' \<noteq> undefined_dim"
  shows "has_region db' r' d' rid'"
proof (cases "db' = db")
  case False
  then obtain it where it: "find_dim_id (region_table db) (d, rid) = None"
    "find_dim_id (region_table db) (undefined_dim, rid) = Some it"
    "replace_region_dim db it d (is_boundary_label (label it)) = Inr (r, db')"
    using assms(2) by (auto simp: get_region_def split: option.splits)
  have i: "it \<in> set (region_table db)" "dim_id it = (undefined_dim, rid)"
    using find_dim_id_Some [OF it(2)] by auto
  have "(d, snd (dim_id it)) \<notin> dim_id ` set (region_table db)"
    using it(1) i(2) by (simp add: find_dim_id_None)
  note keep = replace_region_dim_ok(10) [OF assms(1) i(1) this it(3)]
  obtain x where x: "x \<in> set (region_table db)" "index x = r'" "dim_id x = (d', rid')"
    using assms(3) by (auto simp: has_region_def list_ex_iff)
  have "x \<noteq> it" using x(3) i(2) assms(4) by auto
  then show ?thesis using keep [OF x(1)] x by (auto simp: has_region_def list_ex_iff)
qed (use assms in simp)

lemma mark_used_keeps:
  "db_ok db \<Longrightarrow> mark_used_region db i = Inr db' \<Longrightarrow> has_region db' r d rid = has_region db r d rid"
  using mark_used_region_ok(4) [of db i db'] by (simp only: has_region_iff)

definition assigned :: "mesh_elements \<Rightarrow> region_db \<Rightarrow> u32 \<Rightarrow> u32 \<times> u32 \<Rightarrow> bool" where
  "assigned els db d er \<longleftrightarrow>
     (case els (fst er) of None \<Rightarrow> False
      | Some ele \<Rightarrow> el_dim ele = d \<and> has_region db (el_region ele) d (snd er))"

lemma modify_element_ok:
  assumes ok: "db_ok db" and nu: "undefined_region \<notin> indices db" and d: "d \<noteq> undefined_dim"
    and mod: "modify_element d (els, db) er = Inr (els', db')"
  shows "db_ok db'" "undefined_region \<notin> indices db'" "assigned els' db' d er"
    "\<And>e. e \<noteq> fst er \<Longrightarrow> els' e = els e"
    "\<And>er'. fst er' \<noteq> fst er \<Longrightarrow> assigned els db d er' \<Longrightarrow> assigned els' db' d er'"
proof -
  obtain ele r db1 where ele: "els (fst er) = Some ele" "el_dim ele = d"
    and get: "get_region db (snd er) d = Inr (r, db1)" and mk: "mark_used_region db1 r = Inr db'"
    and els': "els' = els(fst er \<mapsto> ele\<lparr>el_region := r\<rparr>)"
    using mod by (auto simp: modify_element_def bind_res_eq_Inr split: option.splits if_splits)
  note g = get_region_ok [OF ok get]
  note m = mark_used_region_ok [OF g(1) mk]
  show "db_ok db'" "undefined_region \<notin> indices db'" using m(1,6) g(2) nu by simp_all
  have "r \<in> indices db1" using m(2,6) by (auto simp: indices_def)
  then have "has_region db1 r d (snd er)"
    using g(2,6) nu by (auto simp: has_region_def list_ex_iff)
  then show "assigned els' db' d er"
    using mark_used_keeps [OF g(1) mk] ele els' by (simp add: assigned_def)
  show "els' e = els e" if "e \<noteq> fst er" for e using els' that by simp
  show "assigned els' db' d er'" if "fst er' \<noteq> fst er" "assigned els db d er'" for er'
    using that get_region_keeps [OF ok get _ d] mark_used_keeps [OF g(1) mk] els'
    by (auto simp: assigned_def split: option.splits)
qed

lemma modify_elements_ok:
  assumes "db_ok db" and "undefined_region \<notin> indices db" and "d \<noteq> undefined_dim" and "distinct (map fst m)"
    and "fold_res (modify_element d) (els, db) m = Inr (els', db')"
  shows "db_ok db' \<and> list_all (assigned els' db' d) m \<and> (\<forall>e. e \<notin> fst ` set m \<longrightarrow> els' e = els e) \<and>
    (\<forall>er. fst er \<notin> fst ` set m \<longrightarrow> assigned els db d er \<longrightarrow> assigned els' db' d er)"
  using assms(1,2,4,5)
proof (induction m arbitrary: els db)
  case Nil
  then show ?case by simp
next
  case (Cons er m)
  obtain els1 db1 where one: "modify_element d (els, db) er = Inr (els1, db1)"
    and rest: "fold_res (modify_element d) (els1, db1) m = Inr (els', db')"
    using Cons.prems(4) by (auto simp: bind_res_eq_Inr)
  note o = modify_element_ok [OF Cons.prems(1,2) assms(3) one]
  have IH: "db_ok db' \<and> list_all (assigned els' db' d) m \<and> (\<forall>e. e \<notin> fst ` set m \<longrightarrow> els' e = els1 e) \<and>
    (\<forall>er. fst er \<notin> fst ` set m \<longrightarrow> assigned els1 db1 d er \<longrightarrow> assigned els' db' d er)"
    using Cons.IH [OF o(1,2) _ rest] Cons.prems(3) by simp
  have "fst er \<notin> fst ` set m" using Cons.prems(3) by simp
  then have "assigned els' db' d er" using IH o(3) by blast
  then show ?case using IH o(4,5) by (auto simp del: split_paired_All)
qed

section \<open>Properties\<close>

definition sample_decls :: "region_decl list" where
  "sample_decls = [From_Id ''rock'' 7 (Some 3) ''a'', From_Id ''fracture'' 8 (Some 2) ''a'',
     Union ''both'' None (Some [''rock'', ''fracture'']) ''a'',
     Difference ''only_rock'' ''both'' ''fracture'',
     Intersection ''common'' [''both'', ''rock'']]"

lemmas sample_eval = new_db_def from_id_def find_id_def is_valid_def undefined_region_def add_region_def
  find_dim_id_def find_by_label_def insert_region_def table_insert_def is_boundary_label_def get_label_def
  get_item_def find_index_def Let_def register_region_def add_set_def add_to_set_def is_boundary_idx_def
  clashes_def undefined_dim_def union_of_def get_and_check_operands_def union_set_def get_region_set_def
  set_insert_def difference_of_def intersection_of_def intersection_def

definition sample_db :: "region_db region_res" where
  "sample_db = read_regions_from_input new_db (take 3 sample_decls)"

lemma sample_db_built:
  "\<exists>db. sample_db = Inr db \<and> sets db ''both'' = Some [1, 3] \<and> sets db ''rock'' = Some [1] \<and>
     sets db ''fracture'' = Some [3] \<and> sets db ''new'' = None"
  by (simp add: sample_db_def read_regions_from_input_def sample_decls_def sample_eval word_le_nat_alt)





text \<open>
  A region declared by a list of elements: when the declaration succeeds, the map from
  elements to regions gives the new region to the listed elements that had none, and keeps the
  region of the elements that an earlier declaration has already assigned.
\<close>

theorem from_elements_map:
  assumes "db_ok db" and "map_sorted (el_to_reg_map db)" and "\<not> reserved n"
    and "from_elements db n (Some rid) es addr = Inr db'"
  shows "map_sorted (el_to_reg_map db') \<and>
    (\<forall>e. map_of (el_to_reg_map db') e =
      (case map_of (el_to_reg_map db) e of Some r \<Rightarrow> Some r
       | None \<Rightarrow> if e \<in> set es then Some rid else None))"
proof -
  obtain r db1 where add: "add_region db rid n undefined_dim addr = Inr (r, db1)"
    and db': "db' = db1\<lparr>el_to_reg_map := fold (\<lambda>e m. map_insert_sorted (e, rid) m) es (el_to_reg_map db1)\<rparr>"
    using assms(4) by (auto simp: from_elements_def bind_res_eq_Inr)
  have "el_to_reg_map db1 = el_to_reg_map db"
    using add_region_ok [OF assms(1,3) add] by (simp add: region_result_def)
  then show ?thesis using fold_insert_elements [OF assms(2)] db' by simp
qed

theorem from_elements_map_witness:
  "\<exists>db'. from_elements (new_db\<lparr>el_to_reg_map := [(4, 1)]\<rparr>) ''well'' (Some 9) [4, 5] ''a'' = Inr db' \<and>
     map_of (el_to_reg_map db') 4 = Some 1 \<and> map_of (el_to_reg_map db') 5 = Some 9"
proof -
  let ?db = "new_db\<lparr>el_to_reg_map := [(4, 1)]\<rparr>"
  obtain db' where db': "from_elements ?db ''well'' (Some 9) [4, 5] ''a'' = Inr db'"
    by (simp add: from_elements_def sample_eval)
  show ?thesis
    using from_elements_map [OF map_update_ok [OF new_db_ok] _ _ db'] db'
    by (auto simp: map_sorted_def reserved_def)
qed

text \<open>
  Assigning the declared regions to the elements: when it succeeds on a sound database, every
  element of the map lies in a region of its own dimension with the declared id, all elements of
  the map have the same dimension, the other elements are untouched, and the database stays
  sound.
\<close>

theorem modify_element_ids_correct:
  assumes "db_ok db" and "undefined_region \<notin> indices db" and "map_sorted m"
    and "\<forall>e ele. els e = Some ele \<longrightarrow> el_dim ele \<noteq> undefined_dim"
    and "modify_element_ids els db m = Inr (els', db')"
  shows "db_ok db' \<and> (\<forall>e. e \<notin> fst ` set m \<longrightarrow> els' e = els e) \<and>
    (\<exists>d. list_all (assigned els' db' d) m)"
proof (cases m)
  case Nil
  then show ?thesis using assms(1,5) by (simp add: modify_element_ids_def)
next
  case (Cons er m')
  then obtain ele where e: "els (fst er) = Some ele"
    and f: "fold_res (modify_element (el_dim ele)) (els, db) m = Inr (els', db')"
    using assms(5) by (auto simp: modify_element_ids_def bind_res_eq_Inr split: option.splits)
  have "distinct (map fst m)"
    using assms(3) by (auto simp: map_sorted_def sorted_wrt_map strict_sorted_iff simp flip: sorted_wrt_map)
  moreover have "el_dim ele \<noteq> undefined_dim" using assms(4) e by blast
  ultimately show ?thesis using modify_elements_ok [OF assms(1,2) _ _ f] by auto
qed

theorem modify_element_ids_correct_witness:
  "\<exists>db els' db'. modify_element_ids [4 \<mapsto> \<lparr>el_dim = 3, el_region = 0\<rparr>] db [(4, 7)] = Inr (els', db') \<and>
     (\<exists>d. assigned els' db' d (4, 7))"
proof -
  obtain db it where db: "db_ok db" "region_table db = [it]" "index it = 1" "label it = ''rock''" "dim_id it = (3, 7)"
    using sample_db_ok by metis
  let ?els = "[4 \<mapsto> \<lparr>el_dim = 3, el_region = 0\<rparr>] :: mesh_elements"
  have "\<exists>els' db'. modify_element_ids ?els db [(4, 7)] = Inr (els', db')"
    using db(2-5) by (simp add: modify_element_ids_def find_id_def get_label_def get_item_def find_index_def
        modify_element_def get_region_def find_dim_id_def mark_used_region_def)
  then obtain els' db' where m: "modify_element_ids ?els db [(4, 7)] = Inr (els', db')" by blast
  have "\<exists>d. list_all (assigned els' db' d) [(4, 7)]"
    using modify_element_ids_correct [OF db(1) _ _ _ m] db(2,3)
    by (simp add: indices_def undefined_region_def map_sorted_def undefined_dim_def)
  then show ?thesis using m by auto
qed

end
