(* ===== verification/Distribution.thy ===== *)
theory Distribution
  imports Prelude
begin

text \<open>
  The distribution of indices to processors, \<open>Distribution\<close> of \<open>src/src/la/distribution.hh\<close> and
  \<open>distribution.cc\<close>, and the map from local to global indices, \<open>LocalToGlobalMap\<close> of
  \<open>src/src/la/local_to_global_map.hh\<close> and \<open>local_to_global_map.cc\<close>. What MPI answers (the number
  of processors, the rank of this one and the gathered local sizes) and the ownership ranges of
  a PETSc vector are arguments of the constructors.
\<close>

section \<open>Distribution\<close>

datatype distribution_type = Block | Localized

datatype dist_error = OutOfRange | AssertLess u32 nat

record distribution =
  num_of_procs :: nat
  my_proc :: nat
  starts :: "u32 list"

fun scan_sizes :: "u32 \<Rightarrow> u32 list \<Rightarrow> u32 list" where
  "scan_sizes acc [] = [acc]"
| "scan_sizes acc (n # ns) = acc # scan_sizes (acc + n) ns"

text \<open>The constructors from the local size (gathered from all processors) and from an array of sizes.\<close>

definition distribution_from_sizes :: "nat \<Rightarrow> u32 list \<Rightarrow> distribution" where
  "distribution_from_sizes rank sizes =
     \<lparr>num_of_procs = length sizes, my_proc = rank, starts = scan_sizes 0 sizes\<rparr>"

definition distribution_from_ranges :: "nat \<Rightarrow> u32 list \<Rightarrow> distribution" where
  "distribution_from_ranges rank petsc_starts =
     \<lparr>num_of_procs = length petsc_starts - 1, my_proc = rank, starts = petsc_starts\<rparr>"

definition block_sizes :: "nat \<Rightarrow> u32 \<Rightarrow> u32 list" where
  "block_sizes np global_size =
     (let reminder = global_size mod word_of_nat np; per_proc = global_size div word_of_nat np
      in map (\<lambda>i. per_proc + (if word_of_nat i < reminder then 1 else 0)) [0..<np])"

definition distribution_of :: "distribution_type \<Rightarrow> nat \<Rightarrow> nat \<Rightarrow> u32 \<Rightarrow> distribution" where
  "distribution_of ty np rank global_size =
     (case ty of
        Block \<Rightarrow> \<lparr>num_of_procs = np, my_proc = rank, starts = scan_sizes 0 (block_sizes np global_size)\<rparr>
      | Localized \<Rightarrow> \<lparr>num_of_procs = np, my_proc = rank, starts = 0 # replicate np global_size\<rparr>)"

definition begin_of :: "distribution \<Rightarrow> nat \<Rightarrow> u32" where
  "begin_of d p = starts d ! p"

definition end_of :: "distribution \<Rightarrow> nat \<Rightarrow> u32" where
  "end_of d p = starts d ! (p + 1)"

definition lsize_of :: "distribution \<Rightarrow> nat \<Rightarrow> u32" where
  "lsize_of d p = end_of d p - begin_of d p"

definition dist_size :: "distribution \<Rightarrow> u32" where
  "dist_size d = starts d ! num_of_procs d"

definition is_on_proc :: "distribution \<Rightarrow> u32 \<Rightarrow> nat \<Rightarrow> bool" where
  "is_on_proc d idx p \<longleftrightarrow> begin_of d p \<le> idx \<and> idx < end_of d p"

definition is_local :: "distribution \<Rightarrow> u32 \<Rightarrow> bool" where
  "is_local d idx \<longleftrightarrow> begin_of d (my_proc d) \<le> idx \<and> idx < end_of d (my_proc d)"

definition get_proc :: "distribution \<Rightarrow> u32 \<Rightarrow> u32" where
  "get_proc d idx =
     (case find (is_on_proc d idx) [0..<num_of_procs d] of Some p \<Rightarrow> word_of_nat p | None \<Rightarrow> - 1)"

definition get_lsizes_array :: "distribution \<Rightarrow> u32 list" where
  "get_lsizes_array d = map (lsize_of d) [0..<num_of_procs d]"

section \<open>Local to global map\<close>

record local_to_global =
  ltg_distr :: distribution
  nonlocal_indices :: "u32 list"
  global_indices :: "u32 list"

definition new_map :: "distribution \<Rightarrow> local_to_global" where
  "new_map d = \<lparr>ltg_distr = d, nonlocal_indices = [], global_indices = []\<rparr>"

text \<open>The non-local indices are a \<open>std::set\<close>: an ordered list without duplicates.\<close>

definition insert_index :: "local_to_global \<Rightarrow> u32 \<Rightarrow> local_to_global" where
  "insert_index m g =
     (if is_local (ltg_distr m) g \<or> g \<in> set (nonlocal_indices m) then m
      else m\<lparr>nonlocal_indices := insort g (nonlocal_indices m)\<rparr>)"

definition insert_indices :: "local_to_global \<Rightarrow> u32 list \<Rightarrow> local_to_global" where
  "insert_indices m gs = fold (\<lambda>g m. insert_index m g) gs m"

definition finalize :: "local_to_global \<Rightarrow> local_to_global" where
  "finalize m =
     (let d = ltg_distr m; n = lsize_of d (my_proc d) in
      m\<lparr>global_indices := map (\<lambda>i. begin_of d (my_proc d) + word_of_nat i) [0..<unat n] @ nonlocal_indices m,
        nonlocal_indices := []\<rparr>)"

definition map_index :: "local_to_global \<Rightarrow> u32 \<Rightarrow> (dist_error, u32) res" where
  "map_index m l =
     (if unat l < length (global_indices m) then Inr (global_indices m ! unat l)
      else Inl (AssertLess l (length (global_indices m))))"

section \<open>Contiguous partitions as an interface\<close>

locale contiguous_partition =
  fixes valid :: "'d \<Rightarrow> bool" and parts :: "'d \<Rightarrow> nat" and start :: "'d \<Rightarrow> nat \<Rightarrow> nat"
  assumes start_zero: "valid d \<Longrightarrow> start d 0 = 0"
    and start_mono: "valid d \<Longrightarrow> i < parts d \<Longrightarrow> start d i \<le> start d (Suc i)"
begin

lemma start_le: "valid d \<Longrightarrow> j \<le> parts d \<Longrightarrow> i \<le> j \<Longrightarrow> start d i \<le> start d j"
proof (induction j)
  case (Suc j)
  then show ?case using start_mono [of d j] by (cases "i = Suc j") auto
qed simp

lemma owner_unique:
  assumes "valid d" and "p < parts d" and "q < parts d"
    and "start d p \<le> x" and "x < start d (Suc p)" and "start d q \<le> x" and "x < start d (Suc q)"
  shows "p = q"
proof (rule ccontr)
  assume "p \<noteq> q"
  then consider "Suc p \<le> q" | "Suc q \<le> p" by linarith
  then show False using start_le [OF assms(1), of q "Suc p"] start_le [OF assms(1), of p "Suc q"] assms
    by cases auto
qed

lemma owner_exists:
  assumes "valid d" and "x < start d (parts d)"
  shows "\<exists>p < parts d. start d p \<le> x \<and> x < start d (Suc p)"
proof -
  define q where "q = (LEAST j. x < start d j)"
  have q: "x < start d q" unfolding q_def by (rule LeastI [of _ "parts d"]) (rule assms(2))
  have le: "q \<le> parts d" unfolding q_def by (rule Least_le) (rule assms(2))
  have "q \<noteq> 0" using q start_zero [OF assms(1)] by (cases q) auto
  then obtain p where p: "q = Suc p" by (cases q) auto
  have "\<not> x < start d p" using p unfolding q_def by (metis lessI not_less_Least)
  then show ?thesis using p q le by (intro exI [of _ p]) auto
qed

end

definition dist_ok :: "distribution \<Rightarrow> bool" where
  "dist_ok d \<longleftrightarrow>
     length (starts d) = Suc (num_of_procs d) \<and> num_of_procs d < 2 ^ 32 \<and> starts d ! 0 = 0 \<and>
     list_all (\<lambda>i. starts d ! i \<le> starts d ! Suc i) [0..<num_of_procs d]"

interpretation dist: contiguous_partition dist_ok num_of_procs "\<lambda>d i. unat (starts d ! i)"
  by unfold_locales (simp_all add: dist_ok_def list_all_iff word_le_nat_alt)

lemma is_on_proc_iff:
  "is_on_proc d idx p \<longleftrightarrow> unat (starts d ! p) \<le> unat idx \<and> unat idx < unat (starts d ! Suc p)"
  by (simp add: is_on_proc_def begin_of_def end_of_def word_le_nat_alt word_less_nat_alt)

section \<open>Block distribution\<close>

lemma length_scan_sizes [simp]: "length (scan_sizes a ns) = Suc (length ns)"
  by (induction ns arbitrary: a) auto

lemma scan_sizes_nth: "i \<le> length ns \<Longrightarrow> scan_sizes a ns ! i = a + sum_list (take i ns)"
proof (induction ns arbitrary: a i)
  case (Cons n ns)
  then show ?case by (cases i) (auto simp: add.assoc)
qed simp

definition block_start :: "nat \<Rightarrow> nat \<Rightarrow> nat \<Rightarrow> nat" where
  "block_start g np i = i * (g div np) + min i (g mod np)"

lemma block_start_Suc:
  "block_start g np (Suc i) = block_start g np i + (g div np + (if i < g mod np then 1 else 0))"
  by (simp add: block_start_def min_def)

lemma block_start_all: "0 < np \<Longrightarrow> block_start g np np = g"
  by (simp add: block_start_def min_absorb2 less_imp_le)

lemma block_start_le:
  assumes "0 < np" and "i \<le> np"
  shows "block_start g np i \<le> g"
proof -
  have "i * (g div np) + min i (g mod np) \<le> np * (g div np) + g mod np"
    using assms(2) by (intro add_mono mult_right_mono) auto
  then show ?thesis by (simp add: block_start_def)
qed

lemma block_sizes_nth:
  assumes "0 < np" and "np < 2 ^ 32" and "i < np"
  shows "block_sizes np n ! i = word_of_nat (unat n div np + (if i < unat n mod np then 1 else 0))"
proof -
  have np: "unat (word_of_nat np :: u32) = np" and i: "unat (word_of_nat i :: u32) = i"
    using assms by (simp_all add: unat_of_nat)
  have "(word_of_nat i < n mod word_of_nat np) = (i < unat n mod np)"
    using np i by (simp add: word_less_nat_alt unat_mod_distrib)
  moreover have "n div word_of_nat np = word_of_nat (unat n div np)"
    using np by (metis of_nat_unat ucast_id unat_div)
  ultimately show ?thesis using assms(3) by (simp add: block_sizes_def Let_def)
qed

lemma block_starts:
  assumes "0 < np" and "np < 2 ^ 32" and "i \<le> np"
  shows "scan_sizes 0 (block_sizes np n) ! i = word_of_nat (block_start (unat n) np i)"
  using assms(3)
proof (induction i)
  case 0
  then show ?case by (simp add: scan_sizes_nth block_start_def)
next
  case (Suc i)
  have len: "length (block_sizes np n) = np" by (simp add: block_sizes_def Let_def)
  have "scan_sizes 0 (block_sizes np n) ! Suc i = scan_sizes 0 (block_sizes np n) ! i + block_sizes np n ! i"
    using Suc.prems len by (simp add: scan_sizes_nth take_Suc_conv_app_nth)
  then show ?case using Suc block_sizes_nth [OF assms(1,2), of i n] by (simp add: block_start_Suc)
qed

lemma block_starts_unat:
  assumes "0 < np" and "np < 2 ^ 32" and "i \<le> np"
  shows "unat (scan_sizes 0 (block_sizes np n) ! i) = block_start (unat n) np i"
proof -
  have "block_start (unat n) np i < 2 ^ 32"
    using block_start_le [OF assms(1,3), of "unat n"] unat_u32_less [of n] by simp
  then show ?thesis by (simp add: block_starts [OF assms] unat_of_nat)
qed

section \<open>Properties\<close>

text \<open>
  The block distribution splits the global range into consecutive blocks, one for every
  processor: the blocks cover exactly the global size, without overflow, and their sizes differ
  by at most one, the larger ones first.
\<close>

theorem block_distribution_correct:
  assumes "0 < np" and "np < 2 ^ 32"
  shows "let d = distribution_of Block np rank n in
    dist_ok d \<and> dist_size d = n \<and>
    (\<forall>p < np. unat (lsize_of d p) = unat n div np + (if p < unat n mod np then 1 else 0))"
proof -
  define d where "d = distribution_of Block np rank n"
  have st: "unat (starts d ! i) = block_start (unat n) np i" if "i \<le> np" for i
    using block_starts_unat [OF assms that] by (simp add: d_def distribution_of_def)
  have np: "num_of_procs d = np" "length (starts d) = Suc np"
    by (simp_all add: d_def distribution_of_def block_sizes_def Let_def)
  have step: "unat (starts d ! Suc p) = unat (starts d ! p) + (unat n div np + (if p < unat n mod np then 1 else 0))"
    if "p < np" for p using st [of p] st [of "Suc p"] that by (simp add: block_start_Suc)
  then have mono: "starts d ! p \<le> starts d ! Suc p" if "p < np" for p
    using that by (simp add: word_le_nat_alt)
  have "starts d ! 0 = 0" using st [of 0] by (simp add: block_start_def unat_eq_0)
  then have "dist_ok d" using np mono assms(2) by (simp add: dist_ok_def list_all_iff)
  moreover have "unat (dist_size d) = unat n"
    using st [of np] np(1) assms(1) by (simp add: dist_size_def block_start_all)
  then have "dist_size d = n" by (rule unat_u32_eqI)
  moreover have "unat (lsize_of d p) = unat n div np + (if p < unat n mod np then 1 else 0)" if "p < np" for p
    using mono [OF that] step [OF that] by (simp add: lsize_of_def begin_of_def end_of_def unat_sub)
  ultimately show ?thesis by (simp add: d_def Let_def)
qed

theorem block_distribution_correct_witness:
  "unat (lsize_of (distribution_of Block 4 0 10) 0) = 3 \<and> unat (lsize_of (distribution_of Block 4 0 10) 3) = 2"
  using block_distribution_correct [of 4 0 10] by (simp add: Let_def)

lemma get_proc_spec:
  assumes "dist_ok d"
  shows "(idx < dist_size d \<longrightarrow> (\<exists>p < num_of_procs d. get_proc d idx = word_of_nat p \<and> is_on_proc d idx p \<and>
      (\<forall>q < num_of_procs d. is_on_proc d idx q \<longrightarrow> q = p))) \<and>
    (\<not> idx < dist_size d \<longrightarrow> get_proc d idx = - 1)"
proof (intro conjI impI)
  assume lt: "idx < dist_size d"
  then obtain p where p: "p < num_of_procs d" "is_on_proc d idx p"
    using dist.owner_exists [OF assms, of "unat idx"]
    by (auto simp: dist_size_def word_less_nat_alt is_on_proc_iff)
  have uniq: "q = p" if "q < num_of_procs d" "is_on_proc d idx q" for q
    using dist.owner_unique [OF assms that(1) p(1), of "unat idx"] that(2) p(2) by (simp add: is_on_proc_iff)
  obtain q where "find (is_on_proc d idx) [0..<num_of_procs d] = Some q"
    using p by (cases "find (is_on_proc d idx) [0..<num_of_procs d]") (auto simp: find_None_iff)
  moreover from this have "q < num_of_procs d \<and> is_on_proc d idx q" by (auto simp: find_Some_iff)
  ultimately show "\<exists>p < num_of_procs d. get_proc d idx = word_of_nat p \<and> is_on_proc d idx p \<and>
      (\<forall>q < num_of_procs d. is_on_proc d idx q \<longrightarrow> q = p)"
    using uniq p by (auto simp: get_proc_def)
next
  assume ge: "\<not> idx < dist_size d"
  have "\<not> is_on_proc d idx p" if "p < num_of_procs d" for p
    using dist.start_le [OF assms, of "num_of_procs d" "Suc p"] that ge
    by (auto simp: is_on_proc_iff dist_size_def word_less_nat_alt)
  then have "find (is_on_proc d idx) [0..<num_of_procs d] = None" by (auto simp: find_None_iff)
  then show "get_proc d idx = - 1" by (simp add: get_proc_def)
qed

text \<open>
  In a sound distribution every index below the size is on exactly one processor and
  \<open>get_proc\<close> returns that processor; for other indices it returns the value of -1.
\<close>

theorem get_proc_correct:
  assumes "dist_ok d"
  shows "(idx < dist_size d \<longrightarrow> (\<exists>p < num_of_procs d. get_proc d idx = word_of_nat p \<and> is_on_proc d idx p \<and>
      (\<forall>q < num_of_procs d. is_on_proc d idx q \<longrightarrow> q = p))) \<and>
    (\<not> idx < dist_size d \<longrightarrow> get_proc d idx = - 1)"
  by (rule get_proc_spec [OF assms])

definition sample_dist :: distribution where
  "sample_dist = \<lparr>num_of_procs = 2, my_proc = 1, starts = [0, 3, 5]\<rparr>"

lemma sample_dist_ok: "dist_ok sample_dist"
  by (simp add: dist_ok_def sample_dist_def upt_rec word_le_nat_alt)

theorem get_proc_correct_witness: "\<exists>p < 2. get_proc sample_dist 4 = word_of_nat p \<and> is_on_proc sample_dist 4 p"
  using get_proc_correct [OF sample_dist_ok, of 4] by (auto simp: sample_dist_def dist_size_def word_less_nat_alt)

lemma insert_index_props:
  assumes "sorted (nonlocal_indices m) \<and> distinct (nonlocal_indices m)"
  shows "sorted (nonlocal_indices (insert_index m g)) \<and> distinct (nonlocal_indices (insert_index m g)) \<and>
    ltg_distr (insert_index m g) = ltg_distr m \<and>
    set (nonlocal_indices (insert_index m g)) =
      set (nonlocal_indices m) \<union> (if is_local (ltg_distr m) g then {} else {g})"
  using assms by (auto simp: insert_index_def set_insort_key sorted_insort distinct_insort)

lemma insert_indices_props:
  assumes "sorted (nonlocal_indices m) \<and> distinct (nonlocal_indices m)"
  shows "sorted (nonlocal_indices (insert_indices m gs)) \<and> distinct (nonlocal_indices (insert_indices m gs)) \<and>
    ltg_distr (insert_indices m gs) = ltg_distr m \<and>
    set (nonlocal_indices (insert_indices m gs)) =
      set (nonlocal_indices m) \<union> {g \<in> set gs. \<not> is_local (ltg_distr m) g}"
  using assms
proof (induction gs arbitrary: m)
  case (Cons g gs)
  then show ?case
    using insert_index_props [OF Cons.prems, of g] Cons.IH [of "insert_index m g"]
    by (auto simp: insert_indices_def split: if_splits)
qed (simp add: insert_indices_def)

lemma local_block:
  assumes ok: "dist_ok d" and p: "my_proc d < num_of_procs d"
  defines "b \<equiv> begin_of d (my_proc d)" and "n \<equiv> unat (lsize_of d (my_proc d))"
  shows "set (map (\<lambda>i. b + word_of_nat i) [0..<n]) = {g. is_local d g}"
    "distinct (map (\<lambda>i. b + word_of_nat i) [0..<n])"
proof -
  let ?e = "end_of d (my_proc d)"
  have le: "b \<le> ?e" using ok p by (simp add: b_def dist_ok_def begin_of_def end_of_def list_all_iff)
  then have n: "n = unat ?e - unat b" by (simp add: n_def lsize_of_def b_def unat_sub)
  have val: "unat (b + word_of_nat i) = unat b + i" if "i < n" for i
  proof -
    have "unat b + i < 2 ^ 32" using that n le unat_u32_less [of ?e] by (simp add: word_le_nat_alt)
    then show ?thesis by (simp add: unat_word_ariths unat_of_nat)
  qed
  show "distinct (map (\<lambda>i. b + word_of_nat i) [0..<n])"
  proof (simp add: distinct_map, rule inj_onI)
    fix i j assume "i \<in> {0..<n}" "j \<in> {0..<n}" and eq: "b + word_of_nat i = b + word_of_nat j"
    then have "i < n" "j < n" by simp_all
    have "unat b + i = unat b + j" unfolding val [OF \<open>i < n\<close>, symmetric] val [OF \<open>j < n\<close>, symmetric] eq ..
    then show "i = j" by simp
  qed
  show "set (map (\<lambda>i. b + word_of_nat i) [0..<n]) = {g. is_local d g}"
  proof (intro set_eqI iffI)
    fix g assume "g \<in> set (map (\<lambda>i. b + word_of_nat i) [0..<n])"
    then obtain i where "i < n" "g = b + word_of_nat i" by auto
    then show "g \<in> {g. is_local d g}"
      using val [of i] n by (simp add: is_local_def b_def [symmetric] word_le_nat_alt word_less_nat_alt)
  next
    fix g assume "g \<in> {g. is_local d g}"
    then have g: "unat b \<le> unat g" "unat g < unat ?e"
      by (simp_all add: is_local_def b_def word_le_nat_alt word_less_nat_alt)
    then have i: "unat g - unat b < n" using n by simp
    have "unat (b + word_of_nat (unat g - unat b)) = unat g" using val [OF i] g by simp
    then have "g = b + word_of_nat (unat g - unat b)" by (intro unat_u32_eqI) simp
    then show "g \<in> set (map (\<lambda>i. b + word_of_nat i) [0..<n])" using i by force
  qed
qed



end
