(* ===== verification/Containers.thy ===== *)
theory Containers
  imports Prelude
begin

text \<open>
  Two small containers used across the program: \<open>BidirectionalMap\<close> of
  \<open>src/src/tools/bidirectional_map.hh\<close> (the ids of nodes and elements of a mesh and their
  positions) and \<open>FlagArray\<close> with its masks of \<open>src/src/system/flag_array.hh\<close> (the flags of
  fields). Positions in the map are natural numbers; the debug assertions are off.
\<close>

unbundle bit_operations_syntax

section \<open>Bidirectional map\<close>

datatype map_error = AssertExists | AssertPosition nat nat

record 'a bidirectional_map =
  vals_vec :: "'a list"
  vals_map :: "'a \<rightharpoonup> nat"

definition empty_map :: "'a bidirectional_map" where
  "empty_map = \<lparr>vals_vec = [], vals_map = Map.empty\<rparr>"

definition map_size :: "'a bidirectional_map \<Rightarrow> nat" where
  "map_size m = card (dom (vals_map m))"

definition set_item :: "'a bidirectional_map \<Rightarrow> 'a \<Rightarrow> nat \<Rightarrow> (map_error, 'a bidirectional_map) res" where
  "set_item m val pos =
     (if pos < length (vals_vec m)
      then let old = vals_vec m ! pos;
               m1 = (if vals_map m old \<noteq> None then (vals_map m)(old := None) else vals_map m)
           in Inr \<lparr>vals_vec = (vals_vec m)[pos := val], vals_map = m1(val \<mapsto> pos)\<rparr>
      else Inl (AssertPosition pos (length (vals_vec m))))"

definition add_item :: "'a bidirectional_map \<Rightarrow> 'a \<Rightarrow> (map_error, nat \<times> 'a bidirectional_map) res" where
  "add_item m val =
     (if vals_map m val \<noteq> None then Inl AssertExists
      else Inr (length (vals_vec m),
        \<lparr>vals_vec = vals_vec m @ [val], vals_map = (vals_map m)(val \<mapsto> length (vals_vec m))\<rparr>))"

definition get_position :: "'a bidirectional_map \<Rightarrow> 'a \<Rightarrow> int" where
  "get_position m val = (case vals_map m val of None \<Rightarrow> -1 | Some p \<Rightarrow> int p)"

definition clear_map :: "'a bidirectional_map \<Rightarrow> 'a bidirectional_map" where
  "clear_map m = empty_map"

definition resize_map :: "'a bidirectional_map \<Rightarrow> nat \<Rightarrow> 'a bidirectional_map" where
  "resize_map m new_size =
     \<lparr>vals_vec = take new_size (vals_vec m),
      vals_map = fold (\<lambda>v mp. mp(v := None)) (drop new_size (vals_vec m)) (vals_map m)\<rparr>"

definition value_at :: "'a bidirectional_map \<Rightarrow> nat \<Rightarrow> (map_error, 'a) res" where
  "value_at m pos = vec_at (AssertPosition pos (length (vals_vec m))) (vals_vec m) pos"

definition map_ok :: "'a bidirectional_map \<Rightarrow> bool" where
  "map_ok m \<longleftrightarrow>
     distinct (vals_vec m) \<and>
     (\<forall>v p. vals_map m v = Some p \<longleftrightarrow> p < length (vals_vec m) \<and> vals_vec m ! p = v)"

lemma map_ok_None: "map_ok m \<Longrightarrow> vals_map m v = None \<longleftrightarrow> v \<notin> set (vals_vec m)"
  by (cases "vals_map m v") (auto simp: map_ok_def in_set_conv_nth; metis option.distinct(1))+

lemma empty_map_ok: "map_ok empty_map"
  by (simp add: map_ok_def empty_map_def)

lemma add_item_ok:
  assumes "map_ok m" and "v \<notin> set (vals_vec m)"
  shows "\<exists>m'. add_item m v = Inr (length (vals_vec m), m') \<and> map_ok m' \<and> vals_vec m' = vals_vec m @ [v]"
proof -
  have none: "vals_map m v = None" using map_ok_None [OF assms(1)] assms(2) by simp
  let ?m' = "\<lparr>vals_vec = vals_vec m @ [v], vals_map = (vals_map m)(v \<mapsto> length (vals_vec m))\<rparr>"
  have "map_ok ?m'"
    using assms by (auto simp: map_ok_def nth_append less_Suc_eq in_set_conv_nth)
  then show ?thesis using none by (simp add: add_item_def)
qed

lemma set_item_ok:
  assumes ok: "map_ok m" and pos: "pos < length (vals_vec m)"
    and v: "v \<notin> set (vals_vec m) \<or> vals_vec m ! pos = v"
  shows "\<exists>m'. set_item m v pos = Inr m' \<and> map_ok m' \<and> vals_vec m' = (vals_vec m)[pos := v]"
proof -
  let ?old = "vals_vec m ! pos"
  have old: "vals_map m ?old = Some pos" using ok pos by (auto simp: map_ok_def)
  let ?m' = "\<lparr>vals_vec = (vals_vec m)[pos := v], vals_map = ((vals_map m)(?old := None))(v \<mapsto> pos)\<rparr>"
  have d: "distinct ((vals_vec m)[pos := v])"
    using ok v by (auto simp: map_ok_def distinct_list_update)
  have "((vals_map m)(?old := None, v \<mapsto> pos)) x = Some p \<longleftrightarrow>
      p < length (vals_vec m) \<and> (vals_vec m)[pos := v] ! p = x" for x p
  proof (cases "p = pos")
    case True
    then show ?thesis using pos ok by (auto simp: map_ok_def)
  next
    case False
    then show ?thesis
      using ok pos v nth_eq_iff_index_eq [of "vals_vec m" p pos]
      by (auto simp: map_ok_def nth_list_update in_set_conv_nth)
  qed
  then have "map_ok ?m'" using d by (simp add: map_ok_def)
  then show ?thesis using old pos by (simp add: set_item_def Let_def)
qed

lemma fold_erase: "fold (\<lambda>v mp. mp(v := None)) vs mp x = (if x \<in> set vs then None else mp x)"
  by (induction vs arbitrary: mp) auto

lemma resize_map_ok:
  assumes "map_ok m"
  shows "map_ok (resize_map m n)"
proof -
  have "distinct (take n (vals_vec m) @ drop n (vals_vec m))" using assms by (simp add: map_ok_def)
  then have d: "distinct (take n (vals_vec m))" "set (take n (vals_vec m)) \<inter> set (drop n (vals_vec m)) = {}"
    unfolding distinct_append by blast+
  have "x \<notin> set (drop n (vals_vec m)) \<and> vals_map m x = Some p \<longleftrightarrow>
      p < length (take n (vals_vec m)) \<and> take n (vals_vec m) ! p = x" for x p
  proof (cases "p < n")
    case True
    then have "p < length (vals_vec m) \<Longrightarrow> vals_vec m ! p \<in> set (take n (vals_vec m))"
      by (auto simp: in_set_conv_nth)
    then show ?thesis using True assms d(2) by (auto simp: map_ok_def)
  next
    case False
    then have "p < length (vals_vec m) \<Longrightarrow> vals_vec m ! p \<in> set (drop n (vals_vec m))"
      unfolding in_set_drop_nth by (intro exI [of _ p]) simp
    then show ?thesis using False assms by (auto simp: map_ok_def)
  qed
  moreover have "fold (\<lambda>v mp. mp(v := None)) (drop n (vals_vec m)) (vals_map m) x = Some p \<longleftrightarrow>
      x \<notin> set (drop n (vals_vec m)) \<and> vals_map m x = Some p" for x p by (simp add: fold_erase)
  ultimately show ?thesis using d(1)
    by (simp only: map_ok_def resize_map_def bidirectional_map.simps simp_thms)
qed

section \<open>Flags and masks\<close>

record flag_mask =
  mask_bits :: u32
  set_bits :: u32

definition mask_set :: "u32 \<Rightarrow> u32 \<Rightarrow> u32 \<Rightarrow> u32" where
  "mask_set set1 mask2 set2 = (mask2 AND set2) OR (NOT mask2 AND set1)"

definition simple_mask :: "u32 \<Rightarrow> flag_mask" where
  "simple_mask b = \<lparr>mask_bits = b, set_bits = b\<rparr>"

definition mask_join :: "flag_mask \<Rightarrow> flag_mask \<Rightarrow> flag_mask" where
  "mask_join m other =
     \<lparr>mask_bits = mask_bits m OR mask_bits other,
      set_bits = mask_set (set_bits m) (mask_bits other) (set_bits other)\<rparr>"

definition mask_not :: "flag_mask \<Rightarrow> flag_mask" where
  "mask_not m = \<lparr>mask_bits = mask_bits m, set_bits = mask_bits m AND NOT (set_bits m)\<rparr>"

definition mask_match :: "flag_mask \<Rightarrow> u32 \<Rightarrow> bool" where
  "mask_match m flags \<longleftrightarrow> (mask_bits m AND flags) XOR (mask_bits m AND set_bits m) = 0"

definition all_true_mask :: flag_mask where
  "all_true_mask = \<lparr>mask_bits = NOT 0, set_bits = NOT 0\<rparr>"

definition all_false_mask :: flag_mask where
  "all_false_mask = \<lparr>mask_bits = NOT 0, set_bits = 0\<rparr>"

definition none_mask :: flag_mask where
  "none_mask = \<lparr>mask_bits = 0, set_bits = 0\<rparr>"

definition add_mask :: "u32 \<Rightarrow> flag_mask \<Rightarrow> u32" where
  "add_mask flags m = mask_set flags (mask_bits m) (set_bits m)"

definition flags_of_mask :: "flag_mask \<Rightarrow> u32" where
  "flags_of_mask m = add_mask 0 m"

lemma bit_mask_set:
  "n < 32 \<Longrightarrow> bit (mask_set a m b) n \<longleftrightarrow> (if bit m n then bit b n else bit a n)"
  by (simp add: mask_set_def bit_simps)

lemma mask_match_iff:
  "mask_match m flags \<longleftrightarrow> (\<forall>n < 32. bit (mask_bits m) n \<longrightarrow> bit flags n = bit (set_bits m) n)"
  unfolding mask_match_def bit_eq_iff [where 'a = u32] by (auto simp: bit_simps)

lemma u32_bit_eqI: "(\<And>n. n < 32 \<Longrightarrow> bit (a :: u32) n = bit b n) \<Longrightarrow> a = b"
  by (rule bit_eqI) (auto dest: bit_imp_le_length simp: bit_simps)

section \<open>Properties\<close>

text \<open>
  The bidirectional map keeps values and positions inverse to each other: starting from a
  sound map, adding an absent value, setting a position to an absent value, and shrinking keep
  the map sound and change the vector of values as expected; adding a present value is refused;
  and a position looked up for a value is the position where the value is read.
\<close>

theorem bidirectional_map_correct:
  assumes "map_ok m"
  shows "(v \<notin> set (vals_vec m) \<longrightarrow>
      (\<exists>m'. add_item m v = Inr (length (vals_vec m), m') \<and> map_ok m' \<and> vals_vec m' = vals_vec m @ [v])) \<and>
    (v \<in> set (vals_vec m) \<longrightarrow> add_item m v = Inl AssertExists) \<and>
    (pos < length (vals_vec m) \<and> v \<notin> set (vals_vec m) \<longrightarrow>
      (\<exists>m'. set_item m v pos = Inr m' \<and> map_ok m' \<and> vals_vec m' = (vals_vec m)[pos := v])) \<and>
    map_ok (resize_map m n) \<and> vals_vec (resize_map m n) = take n (vals_vec m) \<and>
    (\<forall>p. get_position m v = int p \<longleftrightarrow> value_at m p = Inr v) \<and>
    (get_position m v = -1 \<longleftrightarrow> v \<notin> set (vals_vec m))"
proof -
  have a: "v \<in> set (vals_vec m) \<longrightarrow> add_item m v = Inl AssertExists"
    using map_ok_None [OF assms, of v] by (auto simp: add_item_def)
  have b: "get_position m v = int p \<longleftrightarrow> value_at m p = Inr v" for p
  proof -
    have "get_position m v = int p \<longleftrightarrow> vals_map m v = Some p"
      by (auto simp: get_position_def split: option.splits)
    also have "\<dots> \<longleftrightarrow> value_at m p = Inr v" using assms by (simp add: map_ok_def value_at_def vec_at_eq_Inr)
    finally show ?thesis .
  qed
  have c: "get_position m v = -1 \<longleftrightarrow> v \<notin> set (vals_vec m)"
    using map_ok_None [OF assms, of v] by (auto simp: get_position_def split: option.splits)
  show ?thesis
    using add_item_ok [OF assms] set_item_ok [OF assms] resize_map_ok [OF assms] a b c
    by (auto simp: resize_map_def)
qed

theorem bidirectional_map_correct_witness:
  "\<exists>m'. add_item empty_map (7::nat) = Inr (0, m') \<and> map_ok m' \<and> vals_vec m' = [7]"
  using bidirectional_map_correct [OF empty_map_ok, of "7::nat" 0 0] by (simp add: empty_map_def)

text \<open>
  Masks act on flags as documented: joining two masks is applying them one after the other,
  flags match a mask after it is applied to them, the flags outside the mask are kept, and flags
  match the negation of a one-bit mask exactly when they do not match the mask.
\<close>

theorem flag_masks_correct:
  "add_mask flags (mask_join a b) = add_mask (add_mask flags a) b \<and>
   mask_match a (add_mask flags a) \<and>
   add_mask flags a AND NOT (mask_bits a) = flags AND NOT (mask_bits a) \<and>
   (mask_match a flags \<longleftrightarrow> add_mask flags a = flags) \<and>
   (\<forall>k < 32. mask_match (mask_not (simple_mask (push_bit k 1))) flags \<longleftrightarrow>
      \<not> mask_match (simple_mask (push_bit k 1)) flags)"
proof (intro conjI allI impI)
  show "add_mask flags (mask_join a b) = add_mask (add_mask flags a) b"
    by (rule u32_bit_eqI) (auto simp: add_mask_def mask_join_def bit_mask_set bit_simps)
  show "mask_match a (add_mask flags a)"
    by (auto simp: mask_match_iff add_mask_def bit_mask_set)
  show "add_mask flags a AND NOT (mask_bits a) = flags AND NOT (mask_bits a)"
    by (rule u32_bit_eqI) (auto simp: add_mask_def bit_mask_set bit_simps)
  show "mask_match a flags \<longleftrightarrow> add_mask flags a = flags"
  proof
    assume "mask_match a flags"
    then show "add_mask flags a = flags"
      by (intro u32_bit_eqI) (auto simp: mask_match_iff add_mask_def bit_mask_set)
  next
    assume eq: "add_mask flags a = flags"
    show "mask_match a flags" unfolding mask_match_iff
    proof (intro allI impI)
      fix n :: nat assume "n < 32" "bit (mask_bits a) n"
      then have "bit (add_mask flags a) n = bit (set_bits a) n" by (simp add: add_mask_def bit_mask_set)
      then show "bit flags n = bit (set_bits a) n" by (simp only: eq)
    qed
  qed
  fix k :: nat assume "k < 32"
  then show "mask_match (mask_not (simple_mask (push_bit k 1))) flags \<longleftrightarrow>
      \<not> mask_match (simple_mask (push_bit k 1)) flags"
    by (auto simp: mask_match_iff mask_not_def simple_mask_def bit_simps)
qed

text \<open>A one-bit mask and its negation on concrete flags.\<close>

theorem flag_masks_correct_witness:
  "add_mask 5 (simple_mask 2) = 7 \<and> mask_match (simple_mask 2) (add_mask 5 (simple_mask 2)) \<and>
   (mask_match (mask_not (simple_mask (push_bit 1 1))) 5 \<longleftrightarrow> \<not> mask_match (simple_mask (push_bit 1 1)) 5)"
proof (intro conjI)
  show "add_mask 5 (simple_mask 2) = 7" by (simp add: add_mask_def mask_set_def simple_mask_def)
  note claim = flag_masks_correct [of 5 "simple_mask 2" "simple_mask 2"]
  show "mask_match (simple_mask 2) (add_mask 5 (simple_mask 2))" using claim by (elim conjE)
  have "\<forall>k < 32. mask_match (mask_not (simple_mask (push_bit k 1))) 5 \<longleftrightarrow> \<not> mask_match (simple_mask (push_bit k 1)) 5"
    using claim by (elim conjE)
  then show "mask_match (mask_not (simple_mask (push_bit 1 1))) 5 \<longleftrightarrow> \<not> mask_match (simple_mask (push_bit 1 1)) 5"
    by (meson one_less_numeral_iff semiring_norm(76))
qed

end
