(* ===== verification/Bounding_Box.thy ===== *)
theory Bounding_Box
  imports Ideal_Double
begin

text \<open>
  Axis-aligned boxes, \<open>BoundingBox\<close> of \<open>src/src/mesh/bounding_box.hh\<close> and \<open>bounding_box.cc\<close>.
  A point is the list of its three coordinates. The comparisons of the code are kept with their
  tolerance; a comparison with a NaN is false.
\<close>

section \<open>Model\<close>

type_synonym point = "double list"

datatype box_error =
    AssertAxis nat
  | AssertLE double double
  | ExcSplitting double double double
  | AssertPoints

definition dimension :: nat where "dimension = 3"

definition box_epsilon :: double where "box_epsilon = Fin (64 * epsilon)"

record bounding_box =
  min_vertex :: point
  max_vertex :: point

definition undefined_box :: bounding_box where
  "undefined_box = \<lparr>min_vertex = [NaN, NaN, NaN], max_vertex = [NaN, NaN, NaN]\<rparr>"

definition point_box :: "point \<Rightarrow> bounding_box" where
  "point_box p = \<lparr>min_vertex = p, max_vertex = p\<rparr>"

definition box_of_vertices :: "point \<Rightarrow> point \<Rightarrow> (box_error, bounding_box) res" where
  "box_of_vertices mn mx =
     (if list_all2 (\<le>) mn mx then Inr \<lparr>min_vertex = mn, max_vertex = mx\<rparr> else Inl (AssertLE NaN NaN))"

definition box_min :: "bounding_box \<Rightarrow> nat \<Rightarrow> double" where
  "box_min b i = min_vertex b ! i"

definition box_max :: "bounding_box \<Rightarrow> nat \<Rightarrow> double" where
  "box_max b i = max_vertex b ! i"

definition set_max :: "bounding_box \<Rightarrow> nat \<Rightarrow> double \<Rightarrow> (box_error, bounding_box) res" where
  "set_max b i x =
     (if \<not> i < dimension then Inl (AssertAxis i)
      else if \<not> box_min b i \<le> x then Inl (AssertLE (box_min b i) x)
      else Inr (b\<lparr>max_vertex := (max_vertex b)[i := x]\<rparr>))"

definition set_min :: "bounding_box \<Rightarrow> nat \<Rightarrow> double \<Rightarrow> (box_error, bounding_box) res" where
  "set_min b i x =
     (if \<not> i < dimension then Inl (AssertAxis i)
      else if \<not> x \<le> box_max b i then Inl (AssertLE x (box_max b i))
      else Inr (b\<lparr>min_vertex := (min_vertex b)[i := x]\<rparr>))"

definition box_size :: "bounding_box \<Rightarrow> nat \<Rightarrow> double" where
  "box_size b i = box_max b i - box_min b i"

definition box_center :: "bounding_box \<Rightarrow> point" where
  "box_center b = map2 (\<lambda>mx mn. (mx + mn) / Fin 2) (max_vertex b) (min_vertex b)"

definition projection_center :: "bounding_box \<Rightarrow> nat \<Rightarrow> double" where
  "projection_center b i = (box_max b i + box_min b i) / Fin 2"

definition contains_point :: "bounding_box \<Rightarrow> point \<Rightarrow> bool" where
  "contains_point b p \<longleftrightarrow>
     list_all (\<lambda>i. \<not> (p ! i + box_epsilon < box_min b i \<or> box_epsilon + box_max b i < p ! i)) [0..<dimension]"

definition intersect :: "bounding_box \<Rightarrow> bounding_box \<Rightarrow> bool" where
  "intersect b b2 \<longleftrightarrow>
     list_all (\<lambda>i. \<not> (box_max b2 i + box_epsilon < box_min b i \<or> box_max b i + box_epsilon < box_min b2 i))
       [0..<dimension]"

definition projection_lt :: "bounding_box \<Rightarrow> nat \<Rightarrow> double \<Rightarrow> bool" where
  "projection_lt b i x \<longleftrightarrow> box_max b i + box_epsilon < x"

definition projection_gt :: "bounding_box \<Rightarrow> nat \<Rightarrow> double \<Rightarrow> bool" where
  "projection_gt b i x \<longleftrightarrow> x < box_min b i - box_epsilon"

definition split_box ::
  "bounding_box \<Rightarrow> nat \<Rightarrow> double \<Rightarrow> (box_error, bounding_box \<times> bounding_box) res" where
  "split_box b i x =
     (if \<not> i < dimension then Inl (AssertAxis i)
      else if box_min b i \<le> x \<and> x \<le> box_max b i
      then Inr (b\<lparr>max_vertex := (max_vertex b)[i := x]\<rparr>, b\<lparr>min_vertex := (min_vertex b)[i := x]\<rparr>)
      else Inl (ExcSplitting (box_min b i) (box_max b i) x))"

definition expand_point :: "bounding_box \<Rightarrow> point \<Rightarrow> bounding_box" where
  "expand_point b p =
     \<lparr>min_vertex = map2 std_min p (min_vertex b), max_vertex = map2 std_max p (max_vertex b)\<rparr>"

definition expand_box :: "bounding_box \<Rightarrow> bounding_box \<Rightarrow> bounding_box" where
  "expand_box b b2 =
     \<lparr>min_vertex = map2 std_min (min_vertex b2) (min_vertex b),
      max_vertex = map2 std_max (max_vertex b2) (max_vertex b)\<rparr>"

definition box_of_points :: "point list \<Rightarrow> (box_error, bounding_box) res" where
  "box_of_points ps =
     (case ps of [] \<Rightarrow> Inl AssertPoints
      | p # rest \<Rightarrow> Inr (fold (\<lambda>q b. expand_point b q) rest (point_box p)))"

definition longest_axis :: "bounding_box \<Rightarrow> nat" where
  "longest_axis b =
     (let diff = map2 (-) (max_vertex b) (min_vertex b) in
      if diff ! 0 < diff ! 1 then (if diff ! 1 < diff ! 2 then 2 else 1)
      else (if diff ! 0 < diff ! 2 then 2 else 0))"

definition project_point :: "bounding_box \<Rightarrow> point \<Rightarrow> point" where
  "project_point b p =
     map (\<lambda>i. if projection_gt b i (p ! i) then box_min b i
              else if projection_lt b i (p ! i) then box_max b i else p ! i) [0..<dimension]"

section \<open>Finite boxes\<close>

definition fin_point :: "point \<Rightarrow> bool" where
  "fin_point p \<longleftrightarrow> length p = dimension \<and> list_all is_fin p"

definition fin_box :: "bounding_box \<Rightarrow> bool" where
  "fin_box b \<longleftrightarrow> fin_point (min_vertex b) \<and> fin_point (max_vertex b)"

definition proper_box :: "bounding_box \<Rightarrow> bool" where
  "proper_box b \<longleftrightarrow> fin_box b \<and> list_all (\<lambda>i. box_min b i \<le> box_max b i) [0..<dimension]"

lemma fin_point_nth: "fin_point p \<Longrightarrow> i < dimension \<Longrightarrow> \<exists>x. p ! i = Fin x"
  by (auto simp: fin_point_def list_all_length is_fin_iff)

lemma fin_box_nth:
  assumes "fin_box b" and "i < dimension"
  obtains mn mx where "box_min b i = Fin mn" "box_max b i = Fin mx"
  using assms fin_point_nth by (metis box_max_def box_min_def fin_box_def)

lemma longest_axis_less [simp]: "longest_axis b < dimension"
  by (simp add: longest_axis_def Let_def dimension_def)

lemma std_min_le: "is_fin a \<Longrightarrow> is_fin b \<Longrightarrow> std_min a b \<le> a \<and> std_min a b \<le> b \<and> is_fin (std_min a b)"
  by (auto simp: is_fin_iff)

lemma std_max_ge: "is_fin a \<Longrightarrow> is_fin b \<Longrightarrow> a \<le> std_max a b \<and> b \<le> std_max a b \<and> is_fin (std_max a b)"
  by (auto simp: is_fin_iff)

lemma expand_point_ok:
  assumes "proper_box b" and "fin_point p"
  shows "proper_box (expand_point b p)"
    "i < dimension \<Longrightarrow> box_min (expand_point b p) i \<le> p ! i \<and> p ! i \<le> box_max (expand_point b p) i"
    "i < dimension \<Longrightarrow> box_min (expand_point b p) i \<le> box_min b i \<and> box_max b i \<le> box_max (expand_point b p) i"
proof -
  have len: "length p = dimension" "length (min_vertex b) = dimension" "length (max_vertex b) = dimension"
    using assms by (auto simp: proper_box_def fin_box_def fin_point_def)
  have fin: "is_fin (p ! i)" "is_fin (box_min b i)" "is_fin (box_max b i)" if "i < dimension" for i
    using assms that len by (auto simp: proper_box_def fin_box_def fin_point_def list_all_length box_min_def box_max_def)
  have eq: "box_min (expand_point b p) i = std_min (p ! i) (box_min b i)"
    "box_max (expand_point b p) i = std_max (p ! i) (box_max b i)" if "i < dimension" for i
    using that len by (simp_all add: expand_point_def box_min_def box_max_def)
  show one: "i < dimension \<Longrightarrow> box_min (expand_point b p) i \<le> p ! i \<and> p ! i \<le> box_max (expand_point b p) i" for i
    using eq fin std_min_le std_max_ge by metis
  show "i < dimension \<Longrightarrow> box_min (expand_point b p) i \<le> box_min b i \<and> box_max b i \<le> box_max (expand_point b p) i"
    using eq fin std_min_le std_max_ge by metis
  have "is_fin (min_vertex (expand_point b p) ! i)" "is_fin (max_vertex (expand_point b p) ! i)" if "i < dimension" for i
    using eq [OF that] fin [OF that] std_min_le std_max_ge unfolding box_min_def box_max_def by metis+
  then show "proper_box (expand_point b p)"
    using one le_double_trans len
    by (auto simp: proper_box_def fin_box_def fin_point_def list_all_length expand_point_def) blast
qed

section \<open>Boxes of point sets\<close>

text \<open>The bounds of a box around points are attained by the points.\<close>

definition tight_box :: "point list \<Rightarrow> bounding_box \<Rightarrow> bool" where
  "tight_box ps b \<longleftrightarrow> proper_box b
     \<and> (\<forall>p \<in> set ps. \<forall>i < dimension. box_min b i \<le> p ! i \<and> p ! i \<le> box_max b i)
     \<and> (\<forall>i < dimension. (\<exists>p \<in> set ps. box_min b i = p ! i) \<and> (\<exists>p \<in> set ps. box_max b i = p ! i))"

lemma tight_box_point: "fin_point p \<Longrightarrow> tight_box [p] (point_box p)"
  using fin_point_nth [of p] le_double_refl
  by (fastforce simp: tight_box_def proper_box_def point_box_def fin_box_def list_all_iff box_min_def box_max_def)

lemma tight_box_expand:
  assumes t: "tight_box ps b" and p: "fin_point p"
  shows "tight_box (ps @ [p]) (expand_point b p)"
proof -
  have b: "proper_box b" using t by (simp add: tight_box_def)
  note ok = expand_point_ok [OF b p]
  have "box_min b i \<le> q ! i \<and> q ! i \<le> box_max b i" if "q \<in> set ps" "i < dimension" for q i
    using t that by (simp add: tight_box_def)
  then have all: "\<forall>q \<in> set (ps @ [p]). \<forall>i < dimension. box_min (expand_point b p) i \<le> q ! i \<and> q ! i \<le> box_max (expand_point b p) i"
    using ok(2,3) le_double_trans by fastforce
  have pick: "box_min (expand_point b p) i \<in> {p ! i, box_min b i}" "box_max (expand_point b p) i \<in> {p ! i, box_max b i}"
    if "i < dimension" for i
    using that b p by (auto simp: expand_point_def box_min_def box_max_def proper_box_def fin_box_def fin_point_def
        std_min_def std_max_def)
  have "(\<exists>q \<in> set (ps @ [p]). box_min (expand_point b p) i = q ! i) \<and> (\<exists>q \<in> set (ps @ [p]). box_max (expand_point b p) i = q ! i)"
    if "i < dimension" for i
    using pick [OF that] t that unfolding tight_box_def by fastforce
  with all ok(1) show ?thesis by (simp add: tight_box_def)
qed

lemma tight_box_fold:
  assumes "tight_box ps b" and "\<forall>q \<in> set qs. fin_point q"
  shows "tight_box (ps @ qs) (fold (\<lambda>q b. expand_point b q) qs b)"
  using assms
proof (induction qs arbitrary: ps b)
  case (Cons q qs)
  then show ?case using Cons.IH [of "ps @ [q]" "expand_point b q"] tight_box_expand by simp
qed simp

lemma contains_point_iff_intersect:
  assumes "fin_box b" and "fin_point p"
  shows "contains_point b p \<longleftrightarrow> intersect b (point_box p)"
proof -
  have "(p ! i + box_epsilon < box_min b i \<or> box_epsilon + box_max b i < p ! i)
      = (box_max (point_box p) i + box_epsilon < box_min b i \<or> box_max b i + box_epsilon < box_min (point_box p) i)"
    if "i < dimension" for i
    using fin_point_nth [OF assms(2) that] fin_box_nth [OF assms(1) that]
    by (metis add.commute box_epsilon_def box_max_def box_min_def plus_double.simps(1) point_box_def
        bounding_box.select_convs(1,2))
  then show ?thesis
    unfolding contains_point_def intersect_def list_all_iff by auto
qed

lemma not_less_tolerance: "(x::double) \<le> y \<Longrightarrow> \<not> y + box_epsilon < x" "(x::double) \<le> y \<Longrightarrow> \<not> box_epsilon + y < x"
proof -
  have e: "0 < 64 * epsilon" by simp
  show "x \<le> y \<Longrightarrow> \<not> y + box_epsilon < x" "x \<le> y \<Longrightarrow> \<not> box_epsilon + y < x"
    using e by (cases x; cases y; simp add: box_epsilon_def del: epsilon_pos)+
qed

lemma proper_box_intersects_itself:
  assumes "proper_box b"
  shows "intersect b b"
proof -
  have "\<not> box_max b i + box_epsilon < box_min b i" if "i < dimension" for i
    using assms that by (intro not_less_tolerance) (simp add: proper_box_def list_all_iff)
  then show ?thesis by (simp add: intersect_def list_all_iff)
qed

text \<open>
  The box of a non-empty set of finite points is returned, it is a proper box, it holds every
  point, and it is the smallest such box: every face of it goes through one of the points. For
  an empty set the assertion fails.
\<close>

theorem box_of_points_correct:
  assumes "\<forall>p \<in> set ps. fin_point p"
  shows "(ps = [] \<longrightarrow> box_of_points ps = Inl AssertPoints)
    \<and> (ps \<noteq> [] \<longrightarrow> (\<exists>b. box_of_points ps = Inr b \<and> proper_box b
         \<and> (\<forall>p \<in> set ps. contains_point b p \<and> (\<forall>i < dimension. box_min b i \<le> p ! i \<and> p ! i \<le> box_max b i))
         \<and> (\<forall>i < dimension. (\<exists>p \<in> set ps. box_min b i = p ! i) \<and> (\<exists>p \<in> set ps. box_max b i = p ! i))))"
proof (cases ps)
  case Nil
  then show ?thesis by (simp add: box_of_points_def)
next
  case (Cons p qs)
  define b where "b = fold (\<lambda>q b. expand_point b q) qs (point_box p)"
  have r: "box_of_points ps = Inr b" by (simp add: box_of_points_def Cons b_def)
  have t: "tight_box ps b"
    using tight_box_fold [OF tight_box_point, of p qs] assms by (simp add: b_def Cons)
  then have "contains_point b q" if "q \<in> set ps" for q
    using that by (auto simp: contains_point_def list_all_iff tight_box_def not_less_tolerance)
  then show ?thesis using r t Cons unfolding tight_box_def by (intro conjI impI exI [of _ b]) auto
qed

text \<open>The box around two corners of a unit square.\<close>

theorem box_of_points_correct_witness:
  "\<exists>b. box_of_points [[0, 0, 0], [1, 1, 0]] = Inr b \<and> proper_box b \<and> contains_point b [1, 1, 0]"
  using box_of_points_correct [of "[[0, 0, 0], [1, 1, 0]]"]
  by (auto simp: fin_point_def dimension_def zero_double_def one_double_def)

end
