(* ===== verification/BIH_Tree.thy ===== *)
theory BIH_Tree
  imports Bounding_Box "HOL-Library.While_Combinator" "HOL-Library.Multiset"
begin

text \<open>
  The bounding interval hierarchy of \<open>src/src/mesh/bih_tree.cc\<close>, \<open>bih_tree.hh\<close> and
  \<open>bih_node.hh\<close>: construction by in-place partition of the element indexes, and the search
  of the elements whose box intersects a given box. The loops are \<open>while_option\<close> loops, so
  not returning is a value (the partition does not return on a NaN); the recursion of
  \<open>make_node\<close> carries fuel, and \<open>Suc (max_n_levels)\<close> is proved to be enough.
\<close>

section \<open>Nodes\<close>

record bih_node =
  child0 :: nat
  child1 :: nat
  node_bound :: double
  axis_code :: nat

definition new_node :: bih_node where
  "new_node = \<lparr>child0 = 0, child1 = 0, node_bound = NaN, axis_code = 0\<rparr>"

text \<open>The axis or depth is stored in an \<open>unsigned char\<close>.\<close>

definition set_leaf :: "bih_node \<Rightarrow> nat \<Rightarrow> nat \<Rightarrow> double \<Rightarrow> nat \<Rightarrow> bih_node" where
  "set_leaf nd b e bd depth =
     nd\<lparr>child0 := b, child1 := e, node_bound := bd, axis_code := (dimension + depth) mod 256\<rparr>"

definition set_non_leaf :: "bih_node \<Rightarrow> nat \<Rightarrow> nat \<Rightarrow> nat \<Rightarrow> bih_node" where
  "set_non_leaf nd left right ax = nd\<lparr>axis_code := ax mod 256, child0 := left, child1 := right\<rparr>"

definition is_leaf :: "bih_node \<Rightarrow> bool" where
  "is_leaf nd \<longleftrightarrow> dimension \<le> axis_code nd"

definition node_depth :: "bih_node \<Rightarrow> nat" where
  "node_depth nd = axis_code nd - dimension"

definition leaf_begin :: "bih_node \<Rightarrow> nat" where
  "leaf_begin nd = child0 nd"

definition leaf_end :: "bih_node \<Rightarrow> nat" where
  "leaf_end nd = child1 nd"

definition leaf_size :: "bih_node \<Rightarrow> nat" where
  "leaf_size nd = child1 nd - child0 nd"

definition node_axis :: "bih_node \<Rightarrow> nat" where
  "node_axis nd = axis_code nd"

datatype bih_error =
    NotInBranch
  | ChildIndex nat
  | NoElements
  | ResultNotEmpty
  | BoxFailure box_error
  | NoReturn

definition node_child :: "bih_node \<Rightarrow> nat \<Rightarrow> (bih_error, nat) res" where
  "node_child nd k =
     (if is_leaf nd then Inl NotInBranch
      else if \<not> k < 2 then Inl (ChildIndex k)
      else Inr (if k = 0 then child0 nd else child1 nd))"

section \<open>The tree and its construction\<close>

record bih_tree =
  tree_elements :: "bounding_box list"
  main_box :: bounding_box
  tree_nodes :: "bih_node list"
  leaf_size_limit :: nat
  max_n_levels :: nat
  in_leaves :: "nat list"

definition default_leaf_size_limit :: nat where "default_leaf_size_limit = 20"

definition new_tree :: "nat \<Rightarrow> bih_tree" where
  "new_tree soft_leaf_size_limit =
     \<lparr>tree_elements = [], main_box = undefined_box, tree_nodes = [],
      leaf_size_limit = soft_leaf_size_limit, max_n_levels = 0, in_leaves = []\<rparr>"

definition add_boxes :: "bih_tree \<Rightarrow> bounding_box list \<Rightarrow> bih_tree" where
  "add_boxes t boxes =
     (let t0 = (if tree_elements t = [] then t\<lparr>main_box := point_box (min_vertex (boxes ! 0))\<rparr> else t)
      in fold (\<lambda>b s. s\<lparr>tree_elements := tree_elements s @ [b], main_box := expand_box (main_box s) b\<rparr>) boxes t0)"

text \<open>The value \<open>std::nth_element\<close> leaves at a position: that of the sorted sequence.\<close>

fun insert_coor :: "double \<Rightarrow> double list \<Rightarrow> double list" where
  "insert_coor x [] = [x]"
| "insert_coor x (y # ys) = (if y < x then y # insert_coor x ys else x # y # ys)"

definition nth_element :: "double list \<Rightarrow> nat \<Rightarrow> double" where
  "nth_element coors k = foldr insert_coor coors [] ! k"

definition estimate_median :: "bih_tree \<Rightarrow> nat \<Rightarrow> bih_node \<Rightarrow> double" where
  "estimate_median t ax nd =
     (let coors = map (\<lambda>i. projection_center (tree_elements t ! (in_leaves t ! (leaf_begin nd + i))) ax)
                    [0..<leaf_size nd]
      in nth_element coors (length coors div 2))"

text \<open>
  The loop of \<open>split_node\<close>: the positions \<open>left\<close> and \<open>right\<close> in \<open>in_leaves_\<close> and the
  two bounds. The inner loop moves \<open>right\<close> down.
\<close>

type_synonym split_state = "nat list \<times> nat \<times> nat \<times> double \<times> double"

fun shrink_right ::
  "bounding_box list \<Rightarrow> nat \<Rightarrow> double \<Rightarrow> nat list \<Rightarrow> nat \<Rightarrow> nat \<Rightarrow> double \<Rightarrow> nat \<times> double" where
  "shrink_right els ax med xs left 0 rb = (0, rb)"
| "shrink_right els ax med xs left (Suc r) rb =
     (if left \<noteq> Suc r \<and> med \<le> projection_center (els ! (xs ! Suc r)) ax
      then shrink_right els ax med xs left r (std_min rb (box_min (els ! (xs ! Suc r)) ax))
      else (Suc r, rb))"

definition swap_at :: "nat list \<Rightarrow> nat \<Rightarrow> nat \<Rightarrow> nat list" where
  "swap_at xs i j = xs[i := xs ! j, j := xs ! i]"

fun split_step :: "bounding_box list \<Rightarrow> nat \<Rightarrow> double \<Rightarrow> split_state \<Rightarrow> split_state" where
  "split_step els ax med (xs, left, right, lb, rb) =
     (if projection_center (els ! (xs ! left)) ax < med
      then (xs, Suc left, right, std_max lb (box_max (els ! (xs ! left)) ax), rb)
      else (let (right', rb') = shrink_right els ax med xs left right rb
            in (swap_at xs left right', left, right', lb, rb')))"

fun unresolved :: "split_state \<Rightarrow> bool" where
  "unresolved (xs, left, right, lb, rb) \<longleftrightarrow> left \<noteq> right"

text \<open>After the loop the last unresolved element goes to its group.\<close>

fun split_last :: "bounding_box list \<Rightarrow> nat \<Rightarrow> double \<Rightarrow> split_state \<Rightarrow> split_state" where
  "split_last els ax med (xs, left, right, lb, rb) =
     (if projection_center (els ! (xs ! left)) ax < med
      then (xs, Suc left, Suc right, std_max lb (box_max (els ! (xs ! left)) ax), rb)
      else (xs, left, right, lb, std_min rb (box_min (els ! (xs ! right)) ax)))"

definition split_elements ::
  "bounding_box list \<Rightarrow> nat \<Rightarrow> double \<Rightarrow> split_state \<Rightarrow> split_state option" where
  "split_elements els ax med s = map_option (split_last els ax med) (while_option unresolved (split_step els ax med) s)"

definition split_node :: "bih_tree \<Rightarrow> bounding_box \<Rightarrow> nat \<Rightarrow> (bih_error, bih_tree) res" where
  "split_node t box i =
     (let nd = tree_nodes t ! i;
          ax = longest_axis box;
          med = estimate_median t ax nd
      in case split_elements (tree_elements t) ax med
                (in_leaves t, leaf_begin nd, leaf_end nd - 1, box_min box ax, box_max box ax) of
           None \<Rightarrow> Inl NoReturn
         | Some (xs, left, right, lb, rb) \<Rightarrow>
             (let depth = node_depth nd + 1;
                  ns = tree_nodes t @ [set_leaf new_node (leaf_begin nd) left lb depth,
                                       set_leaf new_node left (leaf_end nd) rb depth]
              in Inr (t\<lparr>in_leaves := xs,
                        tree_nodes := ns[i := set_non_leaf (ns ! i) (length ns - 2) (length ns - 1) ax]\<rparr>)))"

text \<open>The part of \<open>make_node\<close> that decides whether a child is split further.\<close>

definition splittable :: "bih_tree \<Rightarrow> bih_node \<Rightarrow> bool" where
  "splittable t child \<longleftrightarrow> leaf_size_limit t < leaf_size child \<and> node_depth child < max_n_levels t"

fun make_node :: "nat \<Rightarrow> bih_tree \<Rightarrow> bounding_box \<Rightarrow> nat \<Rightarrow> (bih_error, bih_tree \<times> nat) res" where
  "make_node 0 t box i = Inl NoReturn"
| "make_node (Suc fuel) t box i =
     bind_res (split_node t box i) (\<lambda>t1.
     bind_res (node_child (tree_nodes t1 ! i) 0) (\<lambda>c0.
     bind_res (map_err BoxFailure
                (set_max box (node_axis (tree_nodes t1 ! i)) (node_bound (tree_nodes t1 ! c0)))) (\<lambda>box0.
     bind_res (if splittable t1 (tree_nodes t1 ! c0) then make_node fuel t1 box0 c0 else Inr (t1, 0)) (\<lambda>(t2, h0).
     bind_res (node_child (tree_nodes t2 ! i) 1) (\<lambda>c1.
     bind_res (map_err BoxFailure
                (set_min box (node_axis (tree_nodes t2 ! i)) (node_bound (tree_nodes t2 ! c1)))) (\<lambda>box1.
     bind_res (if splittable t2 (tree_nodes t2 ! c1) then make_node fuel t2 box1 c1 else Inr (t2, 0)) (\<lambda>(t3, h1).
     Inr (t3, max h0 h1 + 1))))))))"

text \<open>\<open>2*log2(n)\<close> converted to an integer is the integer part of the logarithm of \<open>n * n\<close>.\<close>

fun int_log2 :: "nat \<Rightarrow> nat" where
  "int_log2 n = (if n < 2 then 0 else Suc (int_log2 (n div 2)))"

declare int_log2.simps [simp del]

definition construct :: "bih_tree \<Rightarrow> (bih_error, bih_tree) res" where
  "construct t =
     (if \<not> 0 < length (tree_elements t) then Inl NoElements
      else let n = length (tree_elements t);
               t0 = t\<lparr>max_n_levels := int_log2 (n * n), in_leaves := [0..<n],
                      tree_nodes := tree_nodes t @ [set_leaf new_node 0 n 0 0]\<rparr>
           in bind_res (make_node (Suc (max_n_levels t0)) t0 (main_box t0) 0) (\<lambda>(t1, height). Inr t1))"

section \<open>Queries\<close>

definition ele_bounding_box :: "bih_tree \<Rightarrow> nat \<Rightarrow> bounding_box" where
  "ele_bounding_box t i = tree_elements t ! i"

definition get_element_count :: "bih_tree \<Rightarrow> nat" where
  "get_element_count t = length (tree_elements t)"

definition tree_box :: "bih_tree \<Rightarrow> bounding_box" where
  "tree_box t = main_box t"

text \<open>
  The search: a stack of nodes (its top is the head of the list) and the result list. The
  children are read only under the guard that the node is not a leaf, so \<open>child\<close> cannot fail.
\<close>

type_synonym find_state = "nat list \<times> nat list"

fun find_step :: "bih_tree \<Rightarrow> bounding_box \<Rightarrow> bool \<Rightarrow> find_state \<Rightarrow> find_state" where
  "find_step t box full_list ([], result) = ([], result)"
| "find_step t box full_list (i # stack, result) =
     (let nd = tree_nodes t ! i
      in if is_leaf nd
         then (stack, result @ filter (\<lambda>j. full_list \<or> intersect (tree_elements t ! j) box)
                                 (map (\<lambda>k. in_leaves t ! k) [leaf_begin nd..<leaf_end nd]))
         else let stack0 = (if projection_gt box (node_axis nd) (node_bound (tree_nodes t ! child0 nd))
                            then stack else child0 nd # stack);
                  stack1 = (if projection_lt box (node_axis nd) (node_bound (tree_nodes t ! child1 nd))
                            then stack0 else child1 nd # stack0)
              in (stack1, result))"

definition find_loop :: "bih_tree \<Rightarrow> bounding_box \<Rightarrow> bool \<Rightarrow> find_state \<Rightarrow> find_state option" where
  "find_loop t box full_list = while_option (\<lambda>s. fst s \<noteq> []) (find_step t box full_list)"

definition find_bounding_box ::
  "bih_tree \<Rightarrow> bounding_box \<Rightarrow> nat list \<Rightarrow> bool \<Rightarrow> (bih_error, nat list) res" where
  "find_bounding_box t box result_list full_list =
     (if length result_list \<noteq> 0 then Inl ResultNotEmpty
      else case find_loop t box full_list ([0], result_list) of
             None \<Rightarrow> Inl NoReturn | Some s \<Rightarrow> Inr (snd s))"

definition find_point :: "bih_tree \<Rightarrow> point \<Rightarrow> nat list \<Rightarrow> bool \<Rightarrow> (bih_error, nat list) res" where
  "find_point t p result_list full_list = find_bounding_box t (point_box p) result_list full_list"

section \<open>Partition of a segment\<close>

definition seg :: "'a list \<Rightarrow> nat \<Rightarrow> nat \<Rightarrow> 'a list" where
  "seg xs b e = map (\<lambda>k. xs ! k) [b..<e]"

definition permuted :: "nat \<Rightarrow> nat \<Rightarrow> 'a list \<Rightarrow> 'a list \<Rightarrow> bool" where
  "permuted b e xs ys \<longleftrightarrow> length ys = length xs \<and> mset ys = mset xs
     \<and> (\<forall>k < length xs. k < b \<or> e \<le> k \<longrightarrow> ys ! k = xs ! k)"

lemma permuted_refl [simp]: "permuted b e xs xs"
  by (simp add: permuted_def)

lemma permuted_trans: "permuted b e xs ys \<Longrightarrow> permuted b e ys zs \<Longrightarrow> permuted b e xs zs"
  by (simp add: permuted_def)

lemma permuted_widen: "permuted b' e' xs ys \<Longrightarrow> b \<le> b' \<Longrightarrow> e' \<le> e \<Longrightarrow> permuted b e xs ys"
  by (auto simp: permuted_def)

lemma permuted_length: "permuted b e xs ys \<Longrightarrow> length ys = length xs"
  by (simp add: permuted_def)

lemma permuted_set: "permuted b e xs ys \<Longrightarrow> set ys = set xs"
  unfolding permuted_def by (metis set_mset_mset)

lemma permuted_outside: "permuted b e xs ys \<Longrightarrow> k < length xs \<Longrightarrow> k < b \<or> e \<le> k \<Longrightarrow> ys ! k = xs ! k"
  by (auto simp: permuted_def)

lemma permuted_swap_at:
  assumes "b \<le> i" "i < e" "b \<le> j" "j < e" "e \<le> length xs"
  shows "permuted b e xs (swap_at xs i j)"
proof -
  have "mset (swap_at xs i j) = mset xs"
    unfolding swap_at_def using assms by (intro mset_swap) simp_all
  then show ?thesis
    using assms by (auto simp: permuted_def swap_at_def nth_list_update)
qed

lemma seg_split: "b \<le> m \<Longrightarrow> m \<le> e \<Longrightarrow> seg xs b e = seg xs b m @ seg xs m e"
  unfolding seg_def by (metis map_append le_add_diff_inverse upt_add_eq_append)

lemma seg_whole [simp]: "seg xs 0 (length xs) = xs"
  by (simp add: seg_def map_nth)

lemma seg_cong: "(\<And>k. b \<le> k \<Longrightarrow> k < e \<Longrightarrow> ys ! k = xs ! k) \<Longrightarrow> seg ys b e = seg xs b e"
  by (simp add: seg_def)

lemma permuted_seg:
  assumes p: "permuted b e xs ys" and "b \<le> e" "e \<le> length xs"
  shows "mset (seg ys b e) = mset (seg xs b e)"
proof -
  have whole: "mset zs = mset (seg zs 0 b) + mset (seg zs b e) + mset (seg zs e (length zs))"
    if "length zs = length xs" for zs :: "'a list"
    using that assms by (metis append_assoc mset_append order_trans seg_split seg_whole zero_le)
  have "seg ys 0 b = seg xs 0 b" "seg ys e (length xs) = seg xs e (length xs)"
    using assms by (auto intro!: seg_cong permuted_outside [OF p])
  then show ?thesis
    using whole [of xs] whole [of ys] p by (simp add: permuted_def)
qed

lemma permuted_all:
  assumes "permuted b e xs ys" and "b \<le> e" "e \<le> length xs"
  shows "(\<forall>k \<in> {b..<e}. P (ys ! k)) \<longleftrightarrow> (\<forall>k \<in> {b..<e}. P (xs ! k))"
proof -
  have "set (seg ys b e) = set (seg xs b e)"
    using permuted_seg [OF assms] by (metis set_mset_mset)
  then have img: "(!) ys ` {b..<e} = (!) xs ` {b..<e}"
    by (simp add: seg_def)
  have "(\<forall>k \<in> {b..<e}. P (zs ! k)) \<longleftrightarrow> (\<forall>v \<in> (!) zs ` {b..<e}. P v)" for zs
    by blast
  then show ?thesis
    using img by metis
qed

lemma shrink_right_spec:
  assumes "shrink_right els ax med xs left r rb = (r', rb')" and "left \<le> r" and "is_fin rb"
    and "\<And>k. left < k \<Longrightarrow> k \<le> r \<Longrightarrow> is_fin (box_min (els ! (xs ! k)) ax)"
  shows "left \<le> r' \<and> r' \<le> r \<and> is_fin rb' \<and> rb' \<le> rb
    \<and> (\<forall>k \<in> {r'<..r}. rb' \<le> box_min (els ! (xs ! k)) ax)
    \<and> (r' \<noteq> left \<longrightarrow> \<not> med \<le> projection_center (els ! (xs ! r')) ax)"
  using assms
proof (induction r arbitrary: rb)
  case 0
  then show ?case by (cases rb) auto
next
  case (Suc r)
  define x where "x = box_min (els ! (xs ! Suc r)) ax"
  show ?case
  proof (cases "left \<noteq> Suc r \<and> med \<le> projection_center (els ! (xs ! Suc r)) ax")
    case True
    then have "left \<le> r" "is_fin x" using Suc.prems by (auto simp: x_def)
    then have m: "std_min rb x \<le> rb" "std_min rb x \<le> x" "is_fin (std_min rb x)"
      using std_min_le Suc.prems(3) by blast+
    have "shrink_right els ax med xs left r (std_min rb x) = (r', rb')"
      using Suc.prems(1) True by (simp add: x_def)
    from Suc.IH [OF this \<open>left \<le> r\<close> m(3)] Suc.prems(4)
    have ih: "left \<le> r' \<and> r' \<le> r \<and> is_fin rb' \<and> rb' \<le> std_min rb x
      \<and> (\<forall>k \<in> {r'<..r}. rb' \<le> box_min (els ! (xs ! k)) ax)
      \<and> (r' \<noteq> left \<longrightarrow> \<not> med \<le> projection_center (els ! (xs ! r')) ax)"
      by (meson le_Suc_eq)
    moreover have "rb' \<le> rb" "rb' \<le> x" using ih m le_double_trans by blast+
    ultimately show ?thesis
      by (auto simp: x_def le_Suc_eq)
  next
    case False
    then show ?thesis using Suc.prems by (cases rb) auto
  qed
qed

definition split_inv ::
  "bounding_box list \<Rightarrow> nat \<Rightarrow> nat list \<Rightarrow> nat \<Rightarrow> nat \<Rightarrow> double \<Rightarrow> double \<Rightarrow> split_state \<Rightarrow> bool" where
  "split_inv els ax xs0 b e lb0 rb0 s \<longleftrightarrow>
     (case s of (xs, left, right, lb, rb) \<Rightarrow>
        permuted b e xs0 xs \<and> b \<le> left \<and> left \<le> right \<and> right < e
      \<and> is_fin lb \<and> is_fin rb \<and> lb0 \<le> lb \<and> rb \<le> rb0
      \<and> (\<forall>k \<in> {b..<left}. box_max (els ! (xs ! k)) ax \<le> lb)
      \<and> (\<forall>k \<in> {right<..<e}. rb \<le> box_min (els ! (xs ! k)) ax))"

fun split_measure :: "bounding_box list \<Rightarrow> nat \<Rightarrow> double \<Rightarrow> split_state \<Rightarrow> nat" where
  "split_measure els ax med (xs, left, right, lb, rb) =
     2 * (right - left) + (if projection_center (els ! (xs ! left)) ax < med then 0 else 1)"

lemma split_step_inv:
  assumes inv: "split_inv els ax xs0 b e lb0 rb0 s" and u: "unresolved s"
    and fin: "\<forall>j \<in> set xs0. fin_box (els ! j)" and ax: "ax < dimension" and e: "e \<le> length xs0"
    and med: "is_fin med"
  shows "split_inv els ax xs0 b e lb0 rb0 (split_step els ax med s)
    \<and> split_measure els ax med (split_step els ax med s) < split_measure els ax med s"
proof -
  obtain xs left right lb rb where s: "s = (xs, left, right, lb, rb)" by (cases s) auto
  define c where "c = (\<lambda>k. projection_center (els ! (xs ! k)) ax)"
  have p: "permuted b e xs0 xs" and r: "b \<le> left" "left < right" "right < e"
    and lb: "is_fin lb" "lb0 \<le> lb" and rb: "is_fin rb" "rb \<le> rb0"
    and L: "\<forall>k \<in> {b..<left}. box_max (els ! (xs ! k)) ax \<le> lb"
    and R: "\<forall>k \<in> {right<..<e}. rb \<le> box_min (els ! (xs ! k)) ax"
    using inv u unfolding split_inv_def s by auto
  have f: "is_fin (box_min (els ! (xs ! k)) ax)" "is_fin (box_max (els ! (xs ! k)) ax)" "is_fin (c k)" if "k < e" for k
  proof -
    have "xs ! k \<in> set xs0" using that e permuted_set [OF p] permuted_length [OF p] by (metis nth_mem order_less_le_trans)
    then obtain mn mx where "box_min (els ! (xs ! k)) ax = Fin mn" "box_max (els ! (xs ! k)) ax = Fin mx"
      using fin fin_box_nth ax by meson
    then show "is_fin (box_min (els ! (xs ! k)) ax)" "is_fin (box_max (els ! (xs ! k)) ax)" "is_fin (c k)"
      by (simp_all add: c_def projection_center_def)
  qed
  show ?thesis
  proof (cases "c left < med")
    case True
    define lb' where "lb' = std_max lb (box_max (els ! (xs ! left)) ax)"
    have m: "lb \<le> lb'" "box_max (els ! (xs ! left)) ax \<le> lb'" "is_fin lb'"
      using std_max_ge lb(1) f(2) [of left] r unfolding lb'_def by force+
    have st: "split_step els ax med s = (xs, Suc left, right, lb', rb)"
      using True unfolding s c_def lb'_def by simp
    have "\<forall>k \<in> {b..<Suc left}. box_max (els ! (xs ! k)) ax \<le> lb'"
      using L m le_double_trans by (metis atLeastLessThan_iff less_Suc_eq)
    moreover have "lb0 \<le> lb'" using lb m le_double_trans by blast
    ultimately show ?thesis
      unfolding st using p r rb R m True
      by (auto simp: split_inv_def s c_def)
  next
    case False
    obtain r' rb' where sh: "shrink_right els ax med xs left right rb = (r', rb')" by fastforce
    from shrink_right_spec [OF sh _ rb(1)] f(1) r
    have q: "left \<le> r'" "r' \<le> right" "is_fin rb'" "rb' \<le> rb"
      and R': "\<forall>k \<in> {r'<..right}. rb' \<le> box_min (els ! (xs ! k)) ax"
      and stop: "r' \<noteq> left \<Longrightarrow> \<not> med \<le> c r'"
      unfolding c_def by (auto dest: order_le_less_trans)
    define ys where "ys = swap_at xs left r'"
    have st: "split_step els ax med s = (ys, left, r', lb, rb')"
      using False sh unfolding s c_def ys_def by simp
    have len: "length xs = length xs0" using permuted_length [OF p] .
    have same: "ys ! k = xs ! k" if "k \<noteq> left" "k \<noteq> r'" "k < e" for k
      using that by (simp add: ys_def swap_at_def)
    have "permuted b e xs0 ys"
      unfolding ys_def using r q e len by (intro permuted_trans [OF p] permuted_swap_at) auto
    moreover have "\<forall>k \<in> {b..<left}. box_max (els ! (ys ! k)) ax \<le> lb"
      using L same r q by auto
    moreover have "\<forall>k \<in> {r'<..<e}. rb' \<le> box_min (els ! (ys ! k)) ax"
    proof
      fix k assume k: "k \<in> {r'<..<e}"
      then have "ys ! k = xs ! k" using same q by auto
      moreover have "rb' \<le> box_min (els ! (xs ! k)) ax"
        using k R R' q le_double_trans by (cases "k \<le> right") auto
      ultimately show "rb' \<le> box_min (els ! (ys ! k)) ax" by simp
    qed
    moreover have "rb' \<le> rb0" using q rb le_double_trans by blast
    moreover have "split_measure els ax med (ys, left, r', lb, rb') < split_measure els ax med s"
    proof (cases "r' = left")
      case True
      then show ?thesis using r False by (simp add: s c_def)
    next
      case ne: False
      then have "c r' < med" using stop f(3) [of r'] q r med by (auto simp: is_fin_iff)
      moreover have "ys ! left = xs ! r'" using ne r q e len by (simp add: ys_def swap_at_def)
      ultimately show ?thesis using q False by (simp add: s c_def)
    qed
    ultimately show ?thesis
      unfolding st using r q lb by (simp add: split_inv_def)
  qed
qed

text \<open>
  The partition returns on finite boxes; \<open>left\<close> is then the border between the groups, and
  the bounds are bounds of the groups.
\<close>

lemma split_elements_spec:
  assumes fin: "\<forall>j \<in> set xs0. fin_box (els ! j)" and ax: "ax < dimension" and e: "b < e" "e \<le> length xs0"
    and med: "is_fin med" and bd: "is_fin lb0" "is_fin rb0"
  shows "\<exists>xs m lb rb. split_elements els ax med (xs0, b, e - 1, lb0, rb0) = Some (xs, m, m, lb, rb)
    \<and> permuted b e xs0 xs \<and> b \<le> m \<and> m \<le> e \<and> is_fin lb \<and> is_fin rb \<and> lb0 \<le> lb \<and> rb \<le> rb0
    \<and> (\<forall>k \<in> {b..<m}. box_max (els ! (xs ! k)) ax \<le> lb)
    \<and> (\<forall>k \<in> {m..<e}. rb \<le> box_min (els ! (xs ! k)) ax)"
proof -
  let ?I = "split_inv els ax xs0 b e lb0 rb0"
  have init: "?I (xs0, b, e - 1, lb0, rb0)"
    using e bd by (auto simp: split_inv_def is_fin_iff)
  note step = split_step_inv [OF _ _ fin ax e(2) med]
  obtain s where s: "while_option unresolved (split_step els ax med) (xs0, b, e - 1, lb0, rb0) = Some s"
    using measure_while_option_Some [where P = ?I and f = "split_measure els ax med", OF step init] by blast
  have inv: "?I s" by (rule while_option_rule [where P = ?I, OF _ s init]) (use step in blast)
  obtain xs l r lb rb where st: "s = (xs, l, r, lb, rb)" by (cases s) auto
  have r: "r = l" using while_option_stop [OF s] by (simp add: st)
  have p: "permuted b e xs0 xs" and le: "b \<le> l" "l < e" and fb: "is_fin lb" "is_fin rb" and b0: "lb0 \<le> lb" "rb \<le> rb0"
    and L: "\<forall>k \<in> {b..<l}. box_max (els ! (xs ! k)) ax \<le> lb"
    and R: "\<forall>k \<in> {l<..<e}. rb \<le> box_min (els ! (xs ! k)) ax"
    using inv by (auto simp: split_inv_def st r)
  have "xs ! l \<in> set xs0" using le e permuted_set [OF p] permuted_length [OF p] by (metis nth_mem order_less_le_trans)
  then obtain mn mx where x: "box_min (els ! (xs ! l)) ax = Fin mn" "box_max (els ! (xs ! l)) ax = Fin mx"
    using fin fin_box_nth ax by meson
  show ?thesis
  proof (cases "projection_center (els ! (xs ! l)) ax < med")
    case True
    define lb' where "lb' = std_max lb (Fin mx)"
    have m: "lb \<le> lb'" "Fin mx \<le> lb'" "is_fin lb'" using std_max_ge [of lb "Fin mx"] fb by (auto simp: lb'_def)
    have "split_elements els ax med (xs0, b, e - 1, lb0, rb0) = Some (xs, Suc l, Suc l, lb', rb)"
      unfolding split_elements_def s using True by (simp add: st r x lb'_def)
    moreover have "\<forall>k \<in> {b..<Suc l}. box_max (els ! (xs ! k)) ax \<le> lb'"
      using L m x le_double_trans by (metis atLeastLessThan_iff less_Suc_eq)
    moreover have "lb0 \<le> lb'" using b0 m le_double_trans by blast
    moreover have "{Suc l..<e} = {l<..<e}" by auto
    ultimately show ?thesis using p le fb b0 m R by (intro exI conjI) auto
  next
    case False
    define rb' where "rb' = std_min rb (Fin mn)"
    have m: "rb' \<le> rb" "rb' \<le> Fin mn" "is_fin rb'" using std_min_le [of rb "Fin mn"] fb by (auto simp: rb'_def)
    have "split_elements els ax med (xs0, b, e - 1, lb0, rb0) = Some (xs, l, l, lb, rb')"
      unfolding split_elements_def s using False by (simp add: st r x rb'_def)
    moreover have "\<forall>k \<in> {l..<e}. rb' \<le> box_min (els ! (xs ! k)) ax"
    proof
      fix k assume "k \<in> {l..<e}"
      then show "rb' \<le> box_min (els ! (xs ! k)) ax"
        using R m x le_double_trans by (cases "k = l") auto
    qed
    moreover have "rb' \<le> rb0" using b0 m le_double_trans by blast
    ultimately show ?thesis using p le fb b0 m L by (intro exI conjI) auto
  qed
qed

section \<open>The median\<close>

lemma set_insert_coor: "set (insert_coor x ys) = insert x (set ys)"
  by (induction ys) auto

lemma length_insert_coor: "length (insert_coor x ys) = Suc (length ys)"
  by (induction ys) auto

lemma nth_element_mem:
  assumes "k < length coors"
  shows "nth_element coors k \<in> set coors"
proof -
  have "set (foldr insert_coor coors []) = set coors" "length (foldr insert_coor coors []) = length coors"
    by (induction coors) (simp_all add: set_insert_coor length_insert_coor)
  then show ?thesis
    using assms nth_mem unfolding nth_element_def by fastforce
qed

lemma estimate_median_fin:
  assumes "leaf_begin nd < leaf_end nd" "leaf_end nd \<le> length (in_leaves t)" and ax: "ax < dimension"
    and fin: "\<forall>j \<in> set (in_leaves t). fin_box (tree_elements t ! j)"
  shows "is_fin (estimate_median t ax nd)"
proof -
  define coors where
    "coors = map (\<lambda>i. projection_center (tree_elements t ! (in_leaves t ! (leaf_begin nd + i))) ax) [0..<leaf_size nd]"
  have "0 < length coors"
    using assms(1) by (simp add: coors_def leaf_size_def leaf_begin_def leaf_end_def)
  then have "length coors div 2 < length coors" by simp
  then have "nth_element coors (length coors div 2) \<in> set coors" by (rule nth_element_mem)
  moreover have "is_fin x" if x: "x \<in> set coors" for x
  proof -
    obtain i where i: "i < leaf_size nd"
      "x = projection_center (tree_elements t ! (in_leaves t ! (leaf_begin nd + i))) ax"
      using x unfolding coors_def by auto
    have "leaf_begin nd + i < length (in_leaves t)"
      using assms i(1) by (simp add: leaf_size_def leaf_begin_def leaf_end_def)
    then have "fin_box (tree_elements t ! (in_leaves t ! (leaf_begin nd + i)))" using fin nth_mem by blast
    then show ?thesis
      using i(2) fin_box_nth [OF _ ax] by (metis is_fin.simps(1) projection_center_def plus_double.simps(1) divide_double.simps(1) zero_neq_numeral)
  qed
  ultimately show ?thesis by (simp add: estimate_median_def coors_def Let_def)
qed

section \<open>Well-formed trees\<close>

text \<open>
  \<open>covers ns xs els i b e S\<close>: the node \<open>i\<close> is the root of a tree with the nodes \<open>S\<close>,
  whose leaves hold the positions from \<open>b\<close> to \<open>e\<close> of \<open>xs\<close>, and every bound is a bound
  of the boxes below it.
\<close>

inductive covers ::
  "bih_node list \<Rightarrow> nat list \<Rightarrow> bounding_box list \<Rightarrow> nat \<Rightarrow> nat \<Rightarrow> nat \<Rightarrow> nat set \<Rightarrow> bool"
  for ns xs els where
  leaf: "\<lbrakk>i < length ns; is_leaf (ns ! i); leaf_begin (ns ! i) = b; leaf_end (ns ! i) = e;
          b \<le> e; e \<le> length xs\<rbrakk> \<Longrightarrow> covers ns xs els i b e {i}"
| inner: "\<lbrakk>i < length ns; \<not> is_leaf (ns ! i); b \<le> m; m \<le> e; e \<le> length xs;
           covers ns xs els (child0 (ns ! i)) b m S0; covers ns xs els (child1 (ns ! i)) m e S1;
           i \<notin> S0; i \<notin> S1; S0 \<inter> S1 = {};
           \<forall>k \<in> {b..<m}. box_max (els ! (xs ! k)) (node_axis (ns ! i)) \<le> node_bound (ns ! child0 (ns ! i));
           \<forall>k \<in> {m..<e}. node_bound (ns ! child1 (ns ! i)) \<le> box_min (els ! (xs ! k)) (node_axis (ns ! i))\<rbrakk>
          \<Longrightarrow> covers ns xs els i b e (insert i (S0 \<union> S1))"

inductive_cases covers_elim: "covers ns xs els i b e S"

lemma covers_root: "covers ns xs els i b e S \<Longrightarrow> i \<in> S"
  by (erule covers_elim) auto

lemma covers_range: "covers ns xs els i b e S \<Longrightarrow> b \<le> e \<and> e \<le> length xs"
  by (erule covers_elim) auto

lemma covers_bounded: "covers ns xs els i b e S \<Longrightarrow> j \<in> S \<Longrightarrow> j < length ns"
  by (induction arbitrary: j rule: covers.induct) auto

text \<open>A change of other nodes and of other positions does not concern a tree.\<close>

lemma covers_frame:
  assumes "covers ns xs els i b e S" and "length ns \<le> length ns'" and "length xs' = length xs"
    and "\<forall>j \<in> S. ns' ! j = ns ! j" and "\<forall>k \<in> {b..<e}. xs' ! k = xs ! k"
  shows "covers ns' xs' els i b e S"
  using assms
proof (induction rule: covers.induct)
  case (leaf i b e)
  then show ?case by (auto intro: covers.leaf)
next
  case (inner i b m e S0 S1)
  have nd: "ns' ! i = ns ! i" "ns' ! child0 (ns ! i) = ns ! child0 (ns ! i)" "ns' ! child1 (ns ! i) = ns ! child1 (ns ! i)"
    using inner.prems(3) covers_root inner.hyps(6,7) by auto
  have "covers ns' xs' els (child0 (ns' ! i)) b m S0" "covers ns' xs' els (child1 (ns' ! i)) m e S1"
    using inner nd by auto
  then show ?case
    using inner.hyps inner.prems nd by (intro covers.inner) auto
qed

section \<open>Construction\<close>

definition leaf_at :: "bih_tree \<Rightarrow> nat \<Rightarrow> nat \<Rightarrow> nat \<Rightarrow> nat \<Rightarrow> bool" where
  "leaf_at t i b e d \<longleftrightarrow> i < length (tree_nodes t) \<and> is_leaf (tree_nodes t ! i) \<and> leaf_begin (tree_nodes t ! i) = b
     \<and> leaf_end (tree_nodes t ! i) = e \<and> b \<le> e \<and> e \<le> length (in_leaves t) \<and> node_depth (tree_nodes t ! i) = d"

definition finite_elements :: "bih_tree \<Rightarrow> bool" where
  "finite_elements t \<longleftrightarrow> (\<forall>j \<in> set (in_leaves t). fin_box (tree_elements t ! j))"

text \<open>What the work below the node \<open>i\<close> may change.\<close>

definition grows :: "bih_tree \<Rightarrow> bih_tree \<Rightarrow> nat \<Rightarrow> nat \<Rightarrow> nat \<Rightarrow> bool" where
  "grows t t' i b e \<longleftrightarrow>
     tree_elements t' = tree_elements t \<and> leaf_size_limit t' = leaf_size_limit t \<and> max_n_levels t' = max_n_levels t
   \<and> main_box t' = main_box t
   \<and> permuted b e (in_leaves t) (in_leaves t') \<and> length (tree_nodes t) \<le> length (tree_nodes t')
   \<and> (\<forall>j < length (tree_nodes t). j \<noteq> i \<longrightarrow> tree_nodes t' ! j = tree_nodes t ! j)
   \<and> node_bound (tree_nodes t' ! i) = node_bound (tree_nodes t ! i)"

definition built :: "bih_tree \<Rightarrow> bih_tree \<Rightarrow> nat \<Rightarrow> nat \<Rightarrow> nat \<Rightarrow> nat set \<Rightarrow> bool" where
  "built t t' i b e S \<longleftrightarrow> grows t t' i b e \<and> covers (tree_nodes t') (in_leaves t') (tree_elements t) i b e S
     \<and> S \<subseteq> insert i {length (tree_nodes t)..<length (tree_nodes t')}"

lemma grows_refl [simp]: "grows t t i b e"
  by (simp add: grows_def)

lemma grows_finite: "grows t t' i b e \<Longrightarrow> finite_elements t \<Longrightarrow> finite_elements t'"
  unfolding grows_def finite_elements_def by (metis permuted_set)

lemma grows_leaf_at:
  "grows t t' i b e \<Longrightarrow> leaf_at t j b' e' d \<Longrightarrow> j \<noteq> i \<Longrightarrow> leaf_at t' j b' e' d"
  by (auto simp: grows_def leaf_at_def permuted_length)

lemma built_leaf: "leaf_at t i b e d \<Longrightarrow> built t t i b e {i}"
  by (auto simp: built_def leaf_at_def intro: covers.leaf)

lemma split_node_spec:
  assumes lf: "leaf_at t i b e d" and "b < e" and fin: "finite_elements t" and box: "fin_box box" and d: "d + 1 < 253"
  shows "\<exists>t' m. split_node t box i = Inr t' \<and> grows t t' i b e
    \<and> (let n = length (tree_nodes t); nd = tree_nodes t' ! i; lb = node_bound (tree_nodes t' ! n);
           rb = node_bound (tree_nodes t' ! Suc n); ax = longest_axis box in
       length (tree_nodes t') = n + 2 \<and> \<not> is_leaf nd \<and> child0 nd = n \<and> child1 nd = Suc n \<and> node_axis nd = ax
     \<and> leaf_at t' n b m (d + 1) \<and> leaf_at t' (Suc n) m e (d + 1)
     \<and> is_fin lb \<and> is_fin rb \<and> box_min box ax \<le> lb \<and> rb \<le> box_max box ax
     \<and> (\<forall>k \<in> {b..<m}. box_max (tree_elements t ! (in_leaves t' ! k)) ax \<le> lb)
     \<and> (\<forall>k \<in> {m..<e}. rb \<le> box_min (tree_elements t ! (in_leaves t' ! k)) ax))"
proof -
  define nd ax n where "nd = tree_nodes t ! i" and "ax = longest_axis box" and "n = length (tree_nodes t)"
  have L: "i < n" "is_leaf nd" "leaf_begin nd = b" "leaf_end nd = e" "node_depth nd = d" "e \<le> length (in_leaves t)"
    using lf by (auto simp: leaf_at_def nd_def n_def)
  have ax: "ax < dimension" by (simp add: ax_def)
  have F: "\<forall>j \<in> set (in_leaves t). fin_box (tree_elements t ! j)" using fin by (simp add: finite_elements_def)
  have med: "is_fin (estimate_median t ax nd)"
    by (rule estimate_median_fin) (use L F ax \<open>b < e\<close> in simp_all)
  have bx: "is_fin (box_min box ax)" "is_fin (box_max box ax)"
    using fin_box_nth [OF box ax] by (metis is_fin.simps(1))+
  obtain xs m lb rb where sp: "split_elements (tree_elements t) ax (estimate_median t ax nd)
      (in_leaves t, b, e - 1, box_min box ax, box_max box ax) = Some (xs, m, m, lb, rb)"
    and p: "permuted b e (in_leaves t) xs" and m: "b \<le> m" "m \<le> e"
    and bd: "is_fin lb" "is_fin rb" "box_min box ax \<le> lb" "rb \<le> box_max box ax"
    and B: "\<forall>k \<in> {b..<m}. box_max (tree_elements t ! (xs ! k)) ax \<le> lb"
      "\<forall>k \<in> {m..<e}. rb \<le> box_min (tree_elements t ! (xs ! k)) ax"
    using split_elements_spec [OF F ax \<open>b < e\<close> L(6) med bx] by blast
  define l0 l1 where "l0 = set_leaf new_node b m lb (d + 1)" and "l1 = set_leaf new_node m e rb (d + 1)"
  define ns where "ns = (tree_nodes t @ [l0, l1])[i := set_non_leaf nd n (Suc n) ax]"
  define t' where "t' = t\<lparr>in_leaves := xs, tree_nodes := ns\<rparr>"
  have sn: "split_node t box i = Inr t'"
    using sp L(1) unfolding split_node_def Let_def nd_def [symmetric] ax_def [symmetric] L(3,4,5)
    by (simp add: t'_def ns_def l0_def l1_def nth_append nd_def n_def)
  have len: "length ns = n + 2" by (simp add: ns_def n_def)
  have at: "ns ! i = set_non_leaf nd n (Suc n) ax" "ns ! n = l0" "ns ! Suc n = l1"
    using L(1) by (simp_all add: ns_def n_def nth_append)
  have leafs: "is_leaf l0" "leaf_begin l0 = b" "leaf_end l0 = m" "node_depth l0 = d + 1" "node_bound l0 = lb"
    "is_leaf l1" "leaf_begin l1 = m" "leaf_end l1 = e" "node_depth l1 = d + 1" "node_bound l1 = rb"
    using d by (simp_all add: l0_def l1_def set_leaf_def is_leaf_def leaf_begin_def leaf_end_def node_depth_def dimension_def)
  have inner: "\<not> is_leaf (ns ! i)" "child0 (ns ! i) = n" "child1 (ns ! i) = Suc n" "node_axis (ns ! i) = ax"
    "node_bound (ns ! i) = node_bound nd"
    using ax by (simp_all add: at set_non_leaf_def is_leaf_def node_axis_def dimension_def)
  have rest: "\<forall>j < n. j \<noteq> i \<longrightarrow> ns ! j = tree_nodes t ! j"
    by (simp add: ns_def n_def nth_append)
  have "grows t t' i b e"
    using p len rest inner(5) by (simp add: grows_def t'_def n_def nd_def)
  moreover have "leaf_at t' n b m (d + 1)" "leaf_at t' (Suc n) m e (d + 1)"
    using len at leafs m L permuted_length [OF p] by (simp_all add: leaf_at_def t'_def)
  ultimately show ?thesis
    using sn len inner bd B at leafs unfolding Let_def n_def [symmetric] ax_def [symmetric]
    by (intro exI [of _ t'] exI [of _ m]) (simp add: t'_def)
qed

text \<open>The two halves make the tree of their parent.\<close>

lemma built_join:
  assumes g: "grows t t1 i b e" and n: "n = length (tree_nodes t)" and len: "length (tree_nodes t1) = n + 2" and i: "i < n"
    and nd: "\<not> is_leaf (tree_nodes t1 ! i)" "child0 (tree_nodes t1 ! i) = n" "child1 (tree_nodes t1 ! i) = Suc n"
      "node_axis (tree_nodes t1 ! i) = ax"
    and m: "b \<le> m" "m \<le> e" "e \<le> length (in_leaves t)"
    and B0: "\<forall>k \<in> {b..<m}. box_max (tree_elements t ! (in_leaves t1 ! k)) ax \<le> node_bound (tree_nodes t1 ! n)"
    and B1: "\<forall>k \<in> {m..<e}. node_bound (tree_nodes t1 ! Suc n) \<le> box_min (tree_elements t ! (in_leaves t1 ! k)) ax"
    and b0: "built t1 t2 n b m S0" and b1: "built t2 t3 (Suc n) m e S1"
  shows "built t t3 i b e (insert i (S0 \<union> S1))"
proof -
  have g2: "grows t1 t2 n b m" and g3: "grows t2 t3 (Suc n) m e"
    and c0: "covers (tree_nodes t2) (in_leaves t2) (tree_elements t) n b m S0"
    and c1: "covers (tree_nodes t3) (in_leaves t3) (tree_elements t) (Suc n) m e S1"
    and S0: "S0 \<subseteq> insert n {n + 2..<length (tree_nodes t2)}"
    and S1: "S1 \<subseteq> insert (Suc n) {length (tree_nodes t2)..<length (tree_nodes t3)}"
    using b0 b1 g len by (auto simp: built_def grows_def)
  have ln: "n + 2 \<le> length (tree_nodes t2)" "length (tree_nodes t2) \<le> length (tree_nodes t3)"
    using g2 g3 len by (auto simp: grows_def)
  have p1: "permuted b e (in_leaves t) (in_leaves t1)" and p2: "permuted b m (in_leaves t1) (in_leaves t2)"
    and p3: "permuted m e (in_leaves t2) (in_leaves t3)"
    using g g2 g3 by (auto simp: grows_def)
  note pl = permuted_length [OF p1] permuted_length [OF p2] permuted_length [OF p3]
  have n2: "tree_nodes t2 ! j = tree_nodes t1 ! j" if "j < n + 2" "j \<noteq> n" for j
    using g2 that len by (simp add: grows_def)
  have n3: "tree_nodes t3 ! j = tree_nodes t2 ! j" if "j < length (tree_nodes t2)" "j \<noteq> Suc n" for j
    using g3 that by (simp add: grows_def)
  have i3: "tree_nodes t3 ! i = tree_nodes t1 ! i" using n2 n3 i ln by simp
  have bd: "node_bound (tree_nodes t3 ! n) = node_bound (tree_nodes t1 ! n)"
    "node_bound (tree_nodes t3 ! Suc n) = node_bound (tree_nodes t1 ! Suc n)"
    using g2 g3 n2 n3 ln by (simp_all add: grows_def)
  have c0': "covers (tree_nodes t3) (in_leaves t3) (tree_elements t) n b m S0"
  proof (rule covers_frame [OF c0 ln(2) pl(3)])
    show "\<forall>j \<in> S0. tree_nodes t3 ! j = tree_nodes t2 ! j"
      using covers_bounded [OF c0] S0 n3 by fastforce
    show "\<forall>k \<in> {b..<m}. in_leaves t3 ! k = in_leaves t2 ! k"
      using permuted_outside [OF p3] m pl by auto
  qed
  have low: "\<forall>k \<in> {b..<m}. box_max (tree_elements t ! (in_leaves t3 ! k)) ax \<le> node_bound (tree_nodes t3 ! n)"
  proof -
    have "\<forall>k \<in> {b..<m}. box_max (tree_elements t ! (in_leaves t2 ! k)) ax \<le> node_bound (tree_nodes t1 ! n)"
      using B0 permuted_all [OF p2, of "\<lambda>v. box_max (tree_elements t ! v) ax \<le> node_bound (tree_nodes t1 ! n)"] m pl by simp
    then show ?thesis using permuted_outside [OF p3] m pl bd by auto
  qed
  have high: "\<forall>k \<in> {m..<e}. node_bound (tree_nodes t3 ! Suc n) \<le> box_min (tree_elements t ! (in_leaves t3 ! k)) ax"
  proof -
    have "\<forall>k \<in> {m..<e}. node_bound (tree_nodes t1 ! Suc n) \<le> box_min (tree_elements t ! (in_leaves t2 ! k)) ax"
      using B1 permuted_outside [OF p2] m pl by auto
    then show ?thesis
      using permuted_all [OF p3, of "\<lambda>v. node_bound (tree_nodes t1 ! Suc n) \<le> box_min (tree_elements t ! v) ax"] m pl bd by simp
  qed
  have "i \<notin> S0" "i \<notin> S1" using S0 S1 i ln by fastforce+
  moreover have "x \<notin> S1" if "x \<in> S0" for x
    using subsetD [OF S0 that] S1 ln by fastforce
  then have "S0 \<inter> S1 = {}" by blast
  ultimately have "covers (tree_nodes t3) (in_leaves t3) (tree_elements t) i b e (insert i (S0 \<union> S1))"
    using i ln nd m pl c0' c1 low high by (intro covers.inner) (simp_all add: i3)
  moreover have "grows t t3 i b e"
  proof -
    have "permuted b e (in_leaves t) (in_leaves t3)"
      using permuted_trans [OF p1 permuted_trans [OF permuted_widen [OF p2, of b e] permuted_widen [OF p3, of b e]]] m by simp
    moreover have "\<forall>j < n. j \<noteq> i \<longrightarrow> tree_nodes t3 ! j = tree_nodes t ! j"
      using g n2 n3 ln by (simp add: grows_def n)
    ultimately show ?thesis
      using g g2 g3 i3 n ln by (simp add: grows_def)
  qed
  moreover have "insert i (S0 \<union> S1) \<subseteq> insert i {n..<length (tree_nodes t3)}"
    using S0 S1 ln by fastforce
  ultimately show ?thesis by (simp add: built_def n)
qed

lemma set_max_fin_box:
  "fin_box b \<Longrightarrow> i < dimension \<Longrightarrow> is_fin x \<Longrightarrow> box_min b i \<le> x \<Longrightarrow> \<exists>b'. set_max b i x = Inr b' \<and> fin_box b'"
  by (auto simp: set_max_def fin_box_def fin_point_def list_all_length nth_list_update)

lemma set_min_fin_box:
  "fin_box b \<Longrightarrow> i < dimension \<Longrightarrow> is_fin x \<Longrightarrow> x \<le> box_max b i \<Longrightarrow> \<exists>b'. set_min b i x = Inr b' \<and> fin_box b'"
  by (auto simp: set_min_def fin_box_def fin_point_def list_all_length nth_list_update)

text \<open>With fuel for the remaining levels \<open>make_node\<close> returns and no assertion of it fails.\<close>

lemma make_node_spec:
  assumes "leaf_at t i b e d" and "b < e" and "finite_elements t" and "fin_box box"
    and "d \<le> max_n_levels t" and "max_n_levels t \<le> 200" and "max_n_levels t - d < fuel"
  shows "\<exists>t' h S. make_node fuel t box i = Inr (t', h) \<and> built t t' i b e S"
  using assms
proof (induction fuel arbitrary: t box i b e d)
  case 0
  then show ?case by simp
next
  case (Suc fuel)
  define n ax where "n = length (tree_nodes t)" and "ax = longest_axis box"
  have ax: "ax < dimension" by (simp add: ax_def)
  have i: "i < n" and e: "e \<le> length (in_leaves t)" using Suc.prems(1) by (auto simp: leaf_at_def n_def)
  have "d + 1 < 253" using Suc.prems by simp
  from split_node_spec [OF Suc.prems(1-4) this] obtain t1 m where
    sn: "split_node t box i = Inr t1" and g: "grows t t1 i b e" and len: "length (tree_nodes t1) = n + 2"
    and nd: "\<not> is_leaf (tree_nodes t1 ! i)" "child0 (tree_nodes t1 ! i) = n" "child1 (tree_nodes t1 ! i) = Suc n"
      "node_axis (tree_nodes t1 ! i) = ax"
    and lf: "leaf_at t1 n b m (d + 1)" "leaf_at t1 (Suc n) m e (d + 1)"
    and bd: "is_fin (node_bound (tree_nodes t1 ! n))" "is_fin (node_bound (tree_nodes t1 ! Suc n))"
      "box_min box ax \<le> node_bound (tree_nodes t1 ! n)" "node_bound (tree_nodes t1 ! Suc n) \<le> box_max box ax"
    and B: "\<forall>k \<in> {b..<m}. box_max (tree_elements t ! (in_leaves t1 ! k)) ax \<le> node_bound (tree_nodes t1 ! n)"
      "\<forall>k \<in> {m..<e}. node_bound (tree_nodes t1 ! Suc n) \<le> box_min (tree_elements t ! (in_leaves t1 ! k)) ax"
    unfolding Let_def n_def [symmetric] ax_def [symmetric] by blast
  have m: "b \<le> m" "m \<le> e" using lf by (auto simp: leaf_at_def)
  have mx: "max_n_levels t1 = max_n_levels t" using g by (simp add: grows_def)
  have child: "\<exists>s' h S. (if splittable s (tree_nodes s ! c) then make_node fuel s bx c else Inr (s, 0)) = Inr (s', h)
      \<and> built s s' c lo hi S"
    if s: "leaf_at s c lo hi (d + 1)" "finite_elements s" "fin_box bx" "max_n_levels s = max_n_levels t" for s c lo hi bx
  proof (cases "splittable s (tree_nodes s ! c)")
    case True
    then have "lo < hi" "d + 1 < max_n_levels t"
      using s by (auto simp: splittable_def leaf_at_def leaf_size_def leaf_begin_def leaf_end_def)
    then show ?thesis
      using Suc.IH [OF s(1) _ s(2,3)] s(4) Suc.prems(6,7) True by simp
  next
    case False
    then show ?thesis using built_leaf [OF s(1)] by auto
  qed
  have f1: "finite_elements t1" using grows_finite [OF g Suc.prems(3)] .
  obtain box0 where box0: "set_max box ax (node_bound (tree_nodes t1 ! n)) = Inr box0" "fin_box box0"
    using set_max_fin_box [OF Suc.prems(4) ax bd(1,3)] by blast
  obtain t2 h0 S0 where r2: "(if splittable t1 (tree_nodes t1 ! n) then make_node fuel t1 box0 n else Inr (t1, 0)) = Inr (t2, h0)"
    and b2: "built t1 t2 n b m S0"
    using child [OF lf(1) f1 box0(2) mx] by blast
  have g2: "grows t1 t2 n b m" using b2 by (simp add: built_def)
  have same: "tree_nodes t2 ! i = tree_nodes t1 ! i" "tree_nodes t2 ! Suc n = tree_nodes t1 ! Suc n"
    using g2 i len by (simp_all add: grows_def)
  obtain box1 where box1: "set_min box ax (node_bound (tree_nodes t1 ! Suc n)) = Inr box1" "fin_box box1"
    using set_min_fin_box [OF Suc.prems(4) ax bd(2,4)] by blast
  have "leaf_at t2 (Suc n) m e (d + 1)" using grows_leaf_at [OF g2 lf(2)] by simp
  moreover have "max_n_levels t2 = max_n_levels t" using g2 mx by (simp add: grows_def)
  ultimately obtain t3 h1 S1 where
    r3: "(if splittable t2 (tree_nodes t2 ! Suc n) then make_node fuel t2 box1 (Suc n) else Inr (t2, 0)) = Inr (t3, h1)"
    and b3: "built t2 t3 (Suc n) m e S1"
    using child grows_finite [OF g2 f1] box1(2) by blast
  have "make_node (Suc fuel) t box i = Inr (t3, max h0 h1 + 1)"
    using r2 r3 by (simp add: sn node_child_def nd same box0 box1)
  moreover have "built t t3 i b e (insert i (S0 \<union> S1))"
    by (rule built_join [OF g n_def len i nd m e B b2 b3])
  ultimately show ?case by blast
qed

lemma int_log2_less: "n < 2 ^ Suc k \<Longrightarrow> int_log2 n \<le> k"
proof (induction k arbitrary: n)
  case 0
  then show ?case by (simp add: int_log2.simps)
next
  case (Suc k)
  show ?case
  proof (cases "n < 2")
    case False
    then show ?thesis
      using Suc.IH [of "n div 2"] Suc.prems by (subst int_log2.simps) auto
  qed (simp add: int_log2.simps)
qed

text \<open>\<open>int_log2\<close> is the integer part of the logarithm.\<close>

lemma int_log2_floor: "0 < n \<Longrightarrow> 2 ^ int_log2 n \<le> n \<and> n < 2 ^ Suc (int_log2 n)"
proof (induction n rule: int_log2.induct)
  case (1 n)
  show ?case
  proof (cases "n < 2")
    case True
    then show ?thesis using 1 by (simp add: int_log2.simps)
  next
    case False
    then have "2 ^ int_log2 (n div 2) \<le> n div 2" "n div 2 < 2 ^ Suc (int_log2 (n div 2))"
      using 1 by (auto simp: div_greater_zero_iff)
    moreover have "int_log2 n = Suc (int_log2 (n div 2))" using False by (subst int_log2.simps) simp
    ultimately show ?thesis by auto
  qed
qed

lemma expand_box_fin: "fin_box b \<Longrightarrow> fin_box b2 \<Longrightarrow> fin_box (expand_box b b2)"
  using std_min_le std_max_ge by (auto simp: expand_box_def fin_box_def fin_point_def list_all_length)

lemma add_boxes_fields:
  assumes "boxes \<noteq> []" and "\<forall>b \<in> set boxes. fin_box b" and "tree_elements t \<noteq> [] \<Longrightarrow> fin_box (main_box t)"
  shows "tree_elements (add_boxes t boxes) = tree_elements t @ boxes \<and> fin_box (main_box (add_boxes t boxes))
    \<and> tree_nodes (add_boxes t boxes) = tree_nodes t"
proof -
  let ?f = "\<lambda>b s. s\<lparr>tree_elements := tree_elements s @ [b], main_box := expand_box (main_box s) b\<rparr>"
  have loop: "tree_elements (fold ?f bs s) = tree_elements s @ bs \<and> fin_box (main_box (fold ?f bs s))
      \<and> tree_nodes (fold ?f bs s) = tree_nodes s"
    if "\<forall>b \<in> set bs. fin_box b" "fin_box (main_box s)" for bs and s :: bih_tree
    using that
  proof (induction bs arbitrary: s)
    case (Cons b bs)
    then show ?case using Cons.IH [of "?f b s"] expand_box_fin by simp
  qed simp
  have "fin_box (point_box (min_vertex (boxes ! 0)))"
    using assms by (auto simp: point_box_def fin_box_def neq_Nil_conv)
  then show ?thesis
    unfolding add_boxes_def Let_def using loop [OF assms(2)] assms(3) by auto
qed

lemma add_batches:
  assumes "\<forall>bs \<in> set batches. bs \<noteq> [] \<and> (\<forall>b \<in> set bs. fin_box b)" and "tree_elements t \<noteq> [] \<Longrightarrow> fin_box (main_box t)"
  shows "tree_elements (foldl add_boxes t batches) = tree_elements t @ concat batches
    \<and> (tree_elements (foldl add_boxes t batches) \<noteq> [] \<longrightarrow> fin_box (main_box (foldl add_boxes t batches)))
    \<and> tree_nodes (foldl add_boxes t batches) = tree_nodes t"
  using assms
proof (induction batches arbitrary: t)
  case (Cons bs batches)
  have "tree_elements (add_boxes t bs) = tree_elements t @ bs \<and> fin_box (main_box (add_boxes t bs))
    \<and> tree_nodes (add_boxes t bs) = tree_nodes t"
    using Cons.prems by (intro add_boxes_fields) auto
  then show ?case using Cons.IH [of "add_boxes t bs"] Cons.prems by simp
qed simp

definition well_built :: "bih_tree \<Rightarrow> bih_tree \<Rightarrow> bool" where
  "well_built t t' \<longleftrightarrow> tree_elements t' = tree_elements t \<and> mset (in_leaves t') = mset [0..<length (tree_elements t)]
     \<and> (\<exists>S. covers (tree_nodes t') (in_leaves t') (tree_elements t') 0 0 (length (tree_elements t)) S)"

lemma construct_spec:
  assumes "tree_elements t \<noteq> []" and "length (tree_elements t) < 2 ^ 32" and "tree_nodes t = []"
    and "fin_box (main_box t)" and "\<forall>b \<in> set (tree_elements t). fin_box b"
  shows "\<exists>t'. construct t = Inr t' \<and> well_built t t'"
proof -
  define n where "n = length (tree_elements t)"
  define t0 where "t0 = t\<lparr>max_n_levels := int_log2 (n * n), in_leaves := [0..<n], tree_nodes := [set_leaf new_node 0 n 0 0]\<rparr>"
  have "n * n < 2 ^ 32 * 2 ^ 32" using assms(2) by (intro mult_strict_mono) (simp_all add: n_def)
  then have lev: "max_n_levels t0 \<le> 63" unfolding t0_def by (simp add: int_log2_less)
  have "leaf_at t0 0 0 n 0"
    by (simp add: leaf_at_def t0_def set_leaf_def is_leaf_def leaf_begin_def leaf_end_def node_depth_def dimension_def)
  moreover have "finite_elements t0" using assms(5) by (simp add: finite_elements_def t0_def n_def)
  moreover have "fin_box (main_box t0)" using assms(4) by (simp add: t0_def)
  moreover have "0 < n" using assms(1) by (simp add: n_def)
  ultimately obtain t' h S where r: "make_node (Suc (max_n_levels t0)) t0 (main_box t0) 0 = Inr (t', h)"
    and b: "built t0 t' 0 0 n S"
    using make_node_spec [of t0 0 0 n 0 "main_box t0" "Suc (max_n_levels t0)"] lev by auto
  have "construct t = Inr t'"
    using r assms(1,3) unfolding construct_def Let_def n_def [symmetric] by (simp add: t0_def n_def)
  moreover have "well_built t t'"
    using b unfolding built_def grows_def well_built_def permuted_def t0_def n_def by auto
  ultimately show ?thesis by blast
qed

section \<open>Search\<close>

lemma find_loop_simps:
  "find_loop t box full ([], r) = Some ([], r)"
  "find_loop t box full (i # st, r) = find_loop t box full (find_step t box full (i # st, r))"
  by (subst find_loop_def, subst while_option_unfold, simp add: find_loop_def)+

lemma pruned_left:
  assumes "fin_box el" "fin_box box" "ax < dimension" "box_max el ax \<le> bd" "projection_gt box ax bd"
  shows "\<not> intersect el box"
proof -
  obtain a b c d where f: "box_min el ax = Fin a" "box_max el ax = Fin b" "box_min box ax = Fin c" "box_max box ax = Fin d"
    using assms fin_box_nth by metis
  have "box_max el ax < box_min box ax - box_epsilon"
    using assms(4,5) le_less_double_trans by (simp add: projection_gt_def)
  then show ?thesis
    using f assms(3) unfolding intersect_def list_all_iff by (auto simp: box_epsilon_def algebra_simps intro!: bexI [of _ ax])
qed

lemma pruned_right:
  assumes "fin_box el" "fin_box box" "ax < dimension" "bd \<le> box_min el ax" "projection_lt box ax bd"
  shows "\<not> intersect el box"
proof -
  have "box_max box ax + box_epsilon < box_min el ax"
    using assms(4,5) less_le_double_trans by (auto simp: projection_lt_def)
  then show ?thesis
    using assms(3) unfolding intersect_def list_all_iff by (auto intro!: bexI [of _ ax])
qed

definition hits :: "bih_tree \<Rightarrow> bounding_box \<Rightarrow> nat \<Rightarrow> nat \<Rightarrow> nat list" where
  "hits t box b e = filter (\<lambda>j. intersect (tree_elements t ! j) box) (seg (in_leaves t) b e)"

definition found :: "bih_tree \<Rightarrow> bounding_box \<Rightarrow> bool \<Rightarrow> nat \<Rightarrow> nat \<Rightarrow> nat list \<Rightarrow> bool" where
  "found t box full b e r \<longleftrightarrow> mset (hits t box b e) \<subseteq># mset r \<and> mset r \<subseteq># mset (seg (in_leaves t) b e)
     \<and> (\<not> full \<longrightarrow> mset r = mset (hits t box b e))"

lemma found_append:
  "found t box full b m r \<Longrightarrow> found t box full m e r' \<Longrightarrow> b \<le> m \<Longrightarrow> m \<le> e \<Longrightarrow> found t box full b e (r' @ r)"
  by (auto simp: found_def hits_def seg_split [of b m e] intro: subset_mset.add_mono simp: add.commute)

lemma found_nothing: "hits t box b e = [] \<Longrightarrow> found t box full b e []"
  by (simp add: found_def)

lemma find_covers:
  assumes "covers (tree_nodes t) (in_leaves t) (tree_elements t) i b e S"
    and fin: "\<forall>j \<in> set (in_leaves t). fin_box (tree_elements t ! j)" and box: "fin_box box"
  shows "\<exists>r. find_loop t box full (i # st, res) = find_loop t box full (st, res @ r) \<and> found t box full b e r"
  using assms(1)
proof (induction arbitrary: st res rule: covers.induct)
  case (leaf i b e)
  let ?r = "filter (\<lambda>j. full \<or> intersect (tree_elements t ! j) box) (seg (in_leaves t) b e)"
  have "find_loop t box full (i # st, res) = find_loop t box full (st, res @ ?r)"
    using leaf by (simp add: find_loop_simps(2) seg_def)
  moreover have "found t box full b e ?r"
    by (cases full) (simp_all add: found_def hits_def multiset_filter_subset)
  ultimately show ?case by blast
next
  case (inner i b m e S0 S1)
  define nd ax where "nd = tree_nodes t ! i" and "ax = node_axis nd"
  have ax: "ax < dimension" using inner.hyps(2) by (simp add: nd_def ax_def node_axis_def is_leaf_def)
  have el: "fin_box (tree_elements t ! (in_leaves t ! k))" if "k < e" for k
    using fin that inner.hyps(5) by simp
  define skip0 where "skip0 = projection_gt box ax (node_bound (tree_nodes t ! child0 nd))"
  define skip1 where "skip1 = projection_lt box ax (node_bound (tree_nodes t ! child1 nd))"
  have none0: "hits t box b m = []" if skip0
    using that inner.hyps(4,11) pruned_left [OF el box ax]
    by (auto simp: hits_def seg_def skip0_def nd_def ax_def filter_empty_conv)
  have none1: "hits t box m e = []" if skip1
    using that inner.hyps(12) pruned_right [OF el box ax]
    by (auto simp: hits_def seg_def skip1_def nd_def ax_def filter_empty_conv)
  have left: "\<exists>r. find_loop t box full (if skip0 then st else child0 nd # st, res') = find_loop t box full (st, res' @ r)
      \<and> found t box full b m r" for res'
  proof (cases skip0)
    case True
    then show ?thesis using found_nothing [OF none0] by (intro exI [of _ "[]"]) simp
  next
    case False
    then show ?thesis using inner.IH(1) [of st res'] by (simp add: nd_def)
  qed
  have right: "\<exists>r. find_loop t box full (if skip1 then st' else child1 nd # st', res) = find_loop t box full (st', res @ r)
      \<and> found t box full m e r" for st'
  proof (cases skip1)
    case True
    then show ?thesis using found_nothing [OF none1] by (intro exI [of _ "[]"]) simp
  next
    case False
    then show ?thesis using inner.IH(2) [of st' res] by (simp add: nd_def)
  qed
  have step: "find_loop t box full (i # st, res)
      = find_loop t box full (if skip1 then (if skip0 then st else child0 nd # st)
                              else child1 nd # (if skip0 then st else child0 nd # st), res)"
    using inner.hyps(2) by (subst find_loop_simps(2)) (simp add: nd_def ax_def skip0_def skip1_def Let_def)
  obtain r1 where r1: "find_loop t box full (i # st, res) = find_loop t box full (if skip0 then st else child0 nd # st, res @ r1)"
    "found t box full m e r1"
    unfolding step using right [of "if skip0 then st else child0 nd # st"] by blast
  obtain r0 where r0: "find_loop t box full (if skip0 then st else child0 nd # st, res @ r1) = find_loop t box full (st, (res @ r1) @ r0)"
    "found t box full b m r0"
    using left [of "res @ r1"] by blast
  have "found t box full b e (r1 @ r0)"
    using found_append [OF r0(2) r1(2)] inner.hyps(3,4) by simp
  then show ?case using r1(1) r0(1) by (intro exI [of _ "r1 @ r0"]) simp
qed

lemma find_bounding_box_spec:
  assumes wb: "well_built t t'" and fin: "\<forall>b \<in> set (tree_elements t). fin_box b" and box: "fin_box box"
  defines "n \<equiv> length (tree_elements t)"
  shows "\<exists>r. find_bounding_box t' box [] full = Inr r
    \<and> mset (filter (\<lambda>j. intersect (tree_elements t ! j) box) [0..<n]) \<subseteq># mset r \<and> mset r \<subseteq># mset [0..<n]
    \<and> (\<not> full \<longrightarrow> mset r = mset (filter (\<lambda>j. intersect (tree_elements t ! j) box) [0..<n]))"
proof -
  have els: "tree_elements t' = tree_elements t" and perm: "mset (in_leaves t') = mset [0..<n]"
    using wb by (auto simp: well_built_def n_def)
  obtain S where c: "covers (tree_nodes t') (in_leaves t') (tree_elements t') 0 0 n S"
    using wb by (auto simp: well_built_def n_def)
  have len: "length (in_leaves t') = n" using perm by (metis length_upt minus_nat.diff_0 size_mset)
  have "set (in_leaves t') = {0..<n}" using perm by (metis set_mset_mset set_upt)
  then have "\<forall>j \<in> set (in_leaves t'). fin_box (tree_elements t' ! j)" using fin els by (simp add: n_def)
  from find_covers [OF c this box, of full "[]" "[]"] obtain r where
    r: "find_loop t' box full ([0], []) = Some ([], r)" "found t' box full 0 n r"
    by (auto simp: find_loop_simps(1))
  have whole: "seg (in_leaves t') 0 n = in_leaves t'" using seg_whole [of "in_leaves t'"] len by simp
  have "mset (hits t' box 0 n) = mset (filter (\<lambda>j. intersect (tree_elements t ! j) box) [0..<n])"
    by (simp add: hits_def whole els perm)
  then show ?thesis
    using r by (simp add: found_def whole perm find_bounding_box_def)
qed

section \<open>The index as a component\<close>

text \<open>
  What a client of the index relies on: it can be built over any collection of proper boxes,
  and a search returns the elements whose box intersects the query, each once.
\<close>

locale box_index =
  fixes build :: "bounding_box list \<Rightarrow> ('e, 't) res"
    and search :: "'t \<Rightarrow> bounding_box \<Rightarrow> ('e, nat list) res"
    and valid :: "bounding_box list \<Rightarrow> bool"
  assumes build_total: "valid els \<Longrightarrow> \<exists>t. build els = Inr t"
    and search_exact: "valid els \<Longrightarrow> build els = Inr t \<Longrightarrow> fin_box q \<Longrightarrow>
      \<exists>r. search t q = Inr r \<and> distinct r \<and> set r = {j. j < length els \<and> intersect (els ! j) q}"
    and valid_proper: "valid els \<Longrightarrow> b \<in> set els \<Longrightarrow> proper_box b"
begin

lemma query_returns:
  "valid els \<Longrightarrow> fin_box q \<Longrightarrow> \<exists>r. bind_res (build els) (\<lambda>t. search t q) = Inr r
     \<and> distinct r \<and> set r = {j. j < length els \<and> intersect (els ! j) q}"
  using build_total search_exact by fastforce

lemma finds_itself:
  assumes "valid els" and "i < length els"
  shows "\<exists>r. bind_res (build els) (\<lambda>t. search t (els ! i)) = Inr r \<and> i \<in> set r"
proof -
  have b: "proper_box (els ! i)" using valid_proper assms by simp
  then have "fin_box (els ! i)" by (simp add: proper_box_def)
  from query_returns [OF assms(1) this] show ?thesis
    using proper_box_intersects_itself [OF b] assms(2) by blast
qed

lemma finds_points:
  assumes "valid els" and "fin_point p"
  shows "\<exists>r. bind_res (build els) (\<lambda>t. search t (point_box p)) = Inr r
    \<and> distinct r \<and> set r = {j. j < length els \<and> contains_point (els ! j) p}"
proof -
  have "fin_box (point_box p)" using assms(2) by (simp add: fin_box_def point_box_def)
  moreover have "fin_box (els ! j)" if "j < length els" for j
    using valid_proper [OF assms(1)] that by (simp add: proper_box_def)
  ultimately show ?thesis
    using query_returns [OF assms(1), of "point_box p"] contains_point_iff_intersect [OF _ assms(2)] by auto
qed

end

definition indexable :: "bounding_box list \<Rightarrow> bool" where
  "indexable els \<longleftrightarrow> els \<noteq> [] \<and> length els < 2 ^ 32 \<and> list_all proper_box els"

lemma mset_eq_filter_upt:
  assumes "mset r = mset (filter P [0..<n])"
  shows "distinct r \<and> set r = {j. j < n \<and> P j}"
proof -
  have "distinct r" using assms mset_eq_imp_distinct_iff by fastforce
  moreover have "set r = set (filter P [0..<n])" using assms by (metis set_mset_mset)
  ultimately show ?thesis by auto
qed

lemma batches_built:
  assumes "batches \<noteq> []" and "\<forall>bs \<in> set batches. bs \<noteq> [] \<and> (\<forall>b \<in> set bs. fin_box b)" and "length (concat batches) < 2 ^ 32"
  shows "\<exists>t. construct (foldl add_boxes (new_tree limit) batches) = Inr t
    \<and> well_built (foldl add_boxes (new_tree limit) batches) t
    \<and> tree_elements (foldl add_boxes (new_tree limit) batches) = concat batches"
proof -
  define t0 where "t0 = foldl add_boxes (new_tree limit) batches"
  have f: "tree_elements t0 = concat batches" "tree_elements t0 \<noteq> [] \<longrightarrow> fin_box (main_box t0)" "tree_nodes t0 = []"
    using add_batches [OF assms(2), of "new_tree limit"] by (simp_all add: new_tree_def t0_def)
  have "concat batches \<noteq> []" using assms(1,2) by (auto simp: neq_Nil_conv)
  then show ?thesis
    using construct_spec [of t0] f assms(2,3) unfolding t0_def [symmetric] by auto
qed

interpretation bih: box_index
  "\<lambda>els. construct (add_boxes (new_tree default_leaf_size_limit) els)"
  "\<lambda>t q. find_bounding_box t q [] False" indexable
proof
  fix els :: "bounding_box list" and b assume "indexable els" "b \<in> set els"
  then show "proper_box b" by (simp add: indexable_def list_all_iff)
next
  fix els assume v: "indexable els"
  have "\<exists>t. construct (add_boxes (new_tree default_leaf_size_limit) els) = Inr t
    \<and> well_built (add_boxes (new_tree default_leaf_size_limit) els) t
    \<and> tree_elements (add_boxes (new_tree default_leaf_size_limit) els) = els"
    using batches_built [of "[els]" default_leaf_size_limit] v by (simp add: indexable_def list_all_iff proper_box_def)
  then obtain t where t: "construct (add_boxes (new_tree default_leaf_size_limit) els) = Inr t"
    "well_built (add_boxes (new_tree default_leaf_size_limit) els) t"
    "tree_elements (add_boxes (new_tree default_leaf_size_limit) els) = els"
    by blast
  then show "\<exists>t. construct (add_boxes (new_tree default_leaf_size_limit) els) = Inr t" by blast
  fix t' q assume "construct (add_boxes (new_tree default_leaf_size_limit) els) = Inr t'" and q: "fin_box q"
  then have "t' = t" using t(1) by simp
  moreover have "\<forall>b \<in> set els. fin_box b" using v by (simp add: indexable_def list_all_iff proper_box_def)
  ultimately show "\<exists>r. find_bounding_box t' q [] False = Inr r \<and> distinct r
      \<and> set r = {j. j < length els \<and> intersect (els ! j) q}"
    using find_bounding_box_spec [OF t(2) _ q, of False] t(3) mset_eq_filter_upt by fastforce
qed

section \<open>Properties\<close>



text \<open>
  C24. In a tree over proper boxes every element is among the results of a search for its own
  box, and the search for a point returns exactly the elements whose box contains the point.
\<close>

theorem find_point_correct:
  assumes "indexable els" and "fin_point p" and "i < length els"
  shows "\<exists>t r s. construct (add_boxes (new_tree default_leaf_size_limit) els) = Inr t
    \<and> find_point t p [] False = Inr r \<and> distinct r \<and> set r = {j. j < length els \<and> contains_point (els ! j) p}
    \<and> find_bounding_box t (els ! i) [] False = Inr s \<and> i \<in> set s"
  using bih.finds_points [OF assms(1,2)] bih.finds_itself [OF assms(1,3)] bih.build_total [OF assms(1)]
  unfolding find_point_def by auto

text \<open>Two elements, a point of the first.\<close>

theorem find_point_correct_witness:
  "\<exists>t r. construct (add_boxes (new_tree default_leaf_size_limit) [point_box [0, 0, 0], point_box [1, 0, 0]]) = Inr t
    \<and> find_point t [0, 0, 0] [] False = Inr r
    \<and> set r = {j. j < 2 \<and> contains_point ([point_box [0, 0, 0], point_box [1, 0, 0]] ! j) [0, 0, 0]}"
  using find_point_correct [of "[point_box [0, 0, 0], point_box [1, 0, 0]]" "[0, 0, 0]" 0]
  by (auto simp: indexable_def proper_box_def fin_box_def fin_point_def point_box_def dimension_def zero_double_def one_double_def
      box_min_def box_max_def upt_rec)

end
