(* ===== verification/Local_System.thy ===== *)
theory Local_System
  imports Prelude
begin

text \<open>
  The local linear system of \<open>src/src/la/local_system.hh\<close> and \<open>local_system.cc\<close>: assembly,
  known values of the solution and their elimination, the Schur complement and the
  reconstruction from it. The entries are finite doubles, taken as exact reals. A matrix of
  Armadillo is its size and its entries; the inverse it computes is a parameter \<open>minv\<close>.
  Memory that \<open>set_size\<close> leaves uninitialised holds an unspecified value. The debug assertions
  are off; a write past the end of a vector is the error \<open>OutOfBounds\<close>.
\<close>

section \<open>Matrices\<close>

record arma_mat =
  n_rows :: nat
  n_cols :: nat
  entry :: "nat \<Rightarrow> nat \<Rightarrow> real"

definition new_mat :: "nat \<Rightarrow> nat \<Rightarrow> arma_mat" where
  "new_mat r c = \<lparr>n_rows = r, n_cols = c, entry = (\<lambda>i j. undefined)\<rparr>"

definition fill_mat :: "arma_mat \<Rightarrow> real \<Rightarrow> arma_mat" where
  "fill_mat A v = A\<lparr>entry := (\<lambda>i j. v)\<rparr>"

definition set_entry :: "arma_mat \<Rightarrow> nat \<Rightarrow> nat \<Rightarrow> real \<Rightarrow> arma_mat" where
  "set_entry A r c v = A\<lparr>entry := (\<lambda>i j. if i = r \<and> j = c then v else entry A i j)\<rparr>"

definition zero_col :: "arma_mat \<Rightarrow> nat \<Rightarrow> arma_mat" where
  "zero_col A c = A\<lparr>entry := (\<lambda>i j. if j = c then 0 else entry A i j)\<rparr>"

definition zero_row :: "arma_mat \<Rightarrow> nat \<Rightarrow> arma_mat" where
  "zero_row A r = A\<lparr>entry := (\<lambda>i j. if i = r then 0 else entry A i j)\<rparr>"

definition mat_add :: "arma_mat \<Rightarrow> arma_mat \<Rightarrow> arma_mat" where
  "mat_add A B = A\<lparr>entry := (\<lambda>i j. entry A i j + entry B i j)\<rparr>"

definition mat_sub :: "arma_mat \<Rightarrow> arma_mat \<Rightarrow> arma_mat" where
  "mat_sub A B = A\<lparr>entry := (\<lambda>i j. entry A i j - entry B i j)\<rparr>"

definition mat_scale :: "real \<Rightarrow> arma_mat \<Rightarrow> arma_mat" where
  "mat_scale a A = A\<lparr>entry := (\<lambda>i j. a * entry A i j)\<rparr>"

definition mat_mult :: "arma_mat \<Rightarrow> arma_mat \<Rightarrow> arma_mat" where
  "mat_mult A B = \<lparr>n_rows = n_rows A, n_cols = n_cols B, entry = (\<lambda>i j. \<Sum>k < n_cols A. entry A i k * entry B k j)\<rparr>"

definition mat_vec :: "arma_mat \<Rightarrow> real list \<Rightarrow> real list" where
  "mat_vec A x = map (\<lambda>i. \<Sum>k < n_cols A. entry A i k * x ! k) [0..<n_rows A]"

text \<open>\<open>submat(r1, c1, r2, c2)\<close> of Armadillo includes the last row and the last column.\<close>

definition submat :: "arma_mat \<Rightarrow> nat \<Rightarrow> nat \<Rightarrow> nat \<Rightarrow> nat \<Rightarrow> arma_mat" where
  "submat A r1 c1 r2 c2 =
     \<lparr>n_rows = r2 + 1 - r1, n_cols = c2 + 1 - c1, entry = (\<lambda>i j. entry A (r1 + i) (c1 + j))\<rparr>"

definition subvec :: "real list \<Rightarrow> nat \<Rightarrow> nat \<Rightarrow> real list" where
  "subvec v a b = take (b + 1 - a) (drop a v)"

section \<open>The system\<close>

definition almost_zero :: real where
  "almost_zero = 1 / 2 ^ 1022"

datatype system_error = OutOfBounds

record local_system =
  row_dofs :: "int list"
  col_dofs :: "int list"
  matrix :: arma_mat
  rhs :: "real list"
  sparsity :: arma_mat
  n_elim_rows :: nat
  n_elim_cols :: nat
  elim_rows :: "nat list"
  elim_cols :: "nat list"
  solution_rows :: "real list"
  solution_cols :: "real list"
  diag_rows :: "real list"

definition reset :: "local_system \<Rightarrow> local_system" where
  "reset s = s\<lparr>matrix := fill_mat (matrix s) 0, rhs := replicate (length (rhs s)) 0,
               n_elim_rows := 0, n_elim_cols := 0\<rparr>"

definition new_system :: "nat \<Rightarrow> nat \<Rightarrow> local_system" where
  "new_system nrows ncols = reset
     \<lparr>row_dofs = replicate nrows undefined, col_dofs = replicate ncols undefined,
      matrix = new_mat nrows ncols, rhs = replicate nrows undefined, sparsity = new_mat nrows ncols,
      n_elim_rows = 0, n_elim_cols = 0,
      elim_rows = replicate nrows undefined, elim_cols = replicate ncols undefined,
      solution_rows = replicate nrows undefined, solution_cols = replicate ncols undefined,
      diag_rows = replicate nrows undefined\<rparr>"

definition set_size :: "local_system \<Rightarrow> nat \<Rightarrow> nat \<Rightarrow> local_system" where
  "set_size s nrows ncols = s
     \<lparr>row_dofs := replicate nrows undefined, col_dofs := replicate ncols undefined,
      matrix := new_mat nrows ncols, rhs := replicate nrows undefined,
      elim_rows := replicate nrows undefined, elim_cols := replicate ncols undefined,
      solution_rows := replicate nrows undefined, solution_cols := replicate ncols undefined,
      diag_rows := replicate nrows undefined, sparsity := fill_mat (new_mat nrows ncols) almost_zero\<rparr>"

definition reset_size :: "local_system \<Rightarrow> nat \<Rightarrow> nat \<Rightarrow> local_system" where
  "reset_size s nrows ncols =
     reset (if n_rows (matrix s) \<noteq> nrows \<or> n_cols (matrix s) \<noteq> ncols then set_size s nrows ncols else s)"

definition reset_dofs :: "local_system \<Rightarrow> int list \<Rightarrow> int list \<Rightarrow> local_system" where
  "reset_dofs s rdofs cdofs =
     (reset (if n_rows (matrix s) \<noteq> length rdofs \<or> n_cols (matrix s) \<noteq> length cdofs
             then set_size s (length rdofs) (length cdofs) else s))
     \<lparr>row_dofs := rdofs, col_dofs := cdofs\<rparr>"

definition set_solution_row :: "local_system \<Rightarrow> nat \<Rightarrow> real \<Rightarrow> real \<Rightarrow> (system_error, local_system) res" where
  "set_solution_row s loc_row solution diag =
     (let k = n_elim_rows s in
      if k < length (elim_rows s)
      then Inr (s\<lparr>elim_rows := (elim_rows s)[k := loc_row], solution_rows := (solution_rows s)[k := solution],
                  diag_rows := (diag_rows s)[k := diag], n_elim_rows := k + 1\<rparr>)
      else Inl OutOfBounds)"

definition set_solution_col :: "local_system \<Rightarrow> nat \<Rightarrow> real \<Rightarrow> (system_error, local_system) res" where
  "set_solution_col s loc_col solution =
     (let k = n_elim_cols s in
      if k < length (elim_cols s)
      then Inr (s\<lparr>elim_cols := (elim_cols s)[k := loc_col], solution_cols := (solution_cols s)[k := solution],
                  n_elim_cols := k + 1\<rparr>)
      else Inl OutOfBounds)"

definition set_solution :: "local_system \<Rightarrow> nat \<Rightarrow> real \<Rightarrow> real \<Rightarrow> (system_error, local_system) res" where
  "set_solution s loc_dof solution diag =
     bind_res (set_solution_row s loc_dof solution diag) (\<lambda>s1. set_solution_col s1 loc_dof solution)"

text \<open>The loops of \<open>eliminate_solution\<close> work on copies of the matrix and of the right-hand side.\<close>

type_synonym work = "arma_mat \<times> real list"

fun eliminate_col :: "local_system \<Rightarrow> nat \<Rightarrow> work \<Rightarrow> work" where
  "eliminate_col s ic (A, b) =
     (let col = elim_cols s ! ic
      in (zero_col A col, map (\<lambda>i. b ! i - solution_cols s ! ic * entry A i col) [0..<length b]))"

definition new_diagonal :: "local_system \<Rightarrow> nat \<Rightarrow> nat \<Rightarrow> nat \<Rightarrow> real" where
  "new_diagonal s ir row col =
     (if diag_rows s ! ir \<noteq> 0 then diag_rows s ! ir
      else if entry (matrix s) row col = 0 then 1
      else entry (matrix s) row col)"

fun fix_diagonal :: "local_system \<Rightarrow> nat \<Rightarrow> nat \<Rightarrow> nat \<Rightarrow> work \<Rightarrow> work" where
  "fix_diagonal s ir row ic (A, b) =
     (let col = elim_cols s ! ic
      in if row_dofs s ! row = col_dofs s ! col
         then (set_entry A row col (new_diagonal s ir row col),
               b[row := new_diagonal s ir row col * solution_rows s ! ir])
         else (A, b))"

fun eliminate_row :: "local_system \<Rightarrow> nat \<Rightarrow> work \<Rightarrow> work" where
  "eliminate_row s ir (A, b) =
     (let row = elim_rows s ! ir
      in fold (fix_diagonal s ir row) [0..<n_elim_cols s] (zero_row A row, b[row := 0]))"

definition eliminate_loops :: "local_system \<Rightarrow> work" where
  "eliminate_loops s =
     fold (eliminate_row s) [0..<n_elim_rows s]
       (fold (eliminate_col s) [0..<n_elim_cols s] (matrix s, rhs s))"

definition eliminate_solution :: "local_system \<Rightarrow> local_system" where
  "eliminate_solution s =
     (let s1 = (if n_elim_rows s \<noteq> 0 \<or> n_elim_cols s \<noteq> 0
                then (case eliminate_loops s of (A, b) \<Rightarrow>
                        s\<lparr>matrix := A, rhs := b, n_elim_cols := 0, n_elim_rows := 0\<rparr>)
                else s)
      in s1\<lparr>matrix := mat_add (matrix s1) (sparsity s1)\<rparr>)"

definition add_value :: "local_system \<Rightarrow> nat \<Rightarrow> nat \<Rightarrow> real \<Rightarrow> real \<Rightarrow> local_system" where
  "add_value s row col mat_val rhs_val =
     s\<lparr>matrix := set_entry (matrix s) row col (entry (matrix s) row col + mat_val),
       rhs := (rhs s)[row := rhs s ! row + rhs_val]\<rparr>"

definition add_matrix_value :: "local_system \<Rightarrow> nat \<Rightarrow> nat \<Rightarrow> real \<Rightarrow> local_system" where
  "add_matrix_value s row col mat_val =
     s\<lparr>matrix := set_entry (matrix s) row col (entry (matrix s) row col + mat_val)\<rparr>"

definition add_rhs_value :: "local_system \<Rightarrow> nat \<Rightarrow> real \<Rightarrow> local_system" where
  "add_rhs_value s row rhs_val = s\<lparr>rhs := (rhs s)[row := rhs s ! row + rhs_val]\<rparr>"

definition set_matrix :: "local_system \<Rightarrow> arma_mat \<Rightarrow> local_system" where
  "set_matrix s A = s\<lparr>matrix := A\<rparr>"

definition set_rhs :: "local_system \<Rightarrow> real list \<Rightarrow> local_system" where
  "set_rhs s r = s\<lparr>rhs := r\<rparr>"

definition set_sparsity :: "local_system \<Rightarrow> (nat \<Rightarrow> nat \<Rightarrow> nat) \<Rightarrow> local_system" where
  "set_sparsity s sp =
     s\<lparr>sparsity := (sparsity s)\<lparr>entry := (\<lambda>i j. if sp i j \<noteq> 0 then almost_zero else 0)\<rparr>\<rparr>"

definition compute_schur_complement ::
  "(arma_mat \<Rightarrow> arma_mat) \<Rightarrow> local_system \<Rightarrow> nat \<Rightarrow> local_system \<Rightarrow> bool \<Rightarrow> local_system" where
  "compute_schur_complement minv s off schur negative =
     (let M = matrix s; n = n_rows M - 1;
          BinvA = mat_mult (submat M off 0 n (off - 1)) (minv (submat M 0 0 (off - 1) (off - 1)));
          sm = mat_sub (submat M off off n n) (mat_mult BinvA (submat M 0 off (off - 1) n));
          sr = map2 (-) (subvec (rhs s) off n) (mat_vec BinvA (subvec (rhs s) 0 (off - 1)))
      in if negative then schur\<lparr>matrix := mat_scale (-1) sm, rhs := map ((*) (-1)) sr\<rparr>
         else schur\<lparr>matrix := sm, rhs := sr\<rparr>)"

definition reconstruct_solution_schur ::
  "(arma_mat \<Rightarrow> arma_mat) \<Rightarrow> local_system \<Rightarrow> nat \<Rightarrow> real list \<Rightarrow> real list" where
  "reconstruct_solution_schur minv s off schur_solution =
     (let M = matrix s; n = n_rows M - 1; invA = minv (submat M 0 0 (off - 1) (off - 1))
      in map2 (-) (mat_vec invA (subvec (rhs s) 0 (off - 1)))
           (mat_vec (mat_mult invA (submat M 0 off (off - 1) n)) schur_solution))"

section \<open>Solutions\<close>

text \<open>The linear equations of a matrix and a right-hand side, and the equation of one row.\<close>

definition row_holds :: "arma_mat \<Rightarrow> real list \<Rightarrow> real list \<Rightarrow> nat \<Rightarrow> bool" where
  "row_holds A b x i \<longleftrightarrow> (\<Sum>j < n_cols A. entry A i j * x ! j) = b ! i"

definition solves :: "arma_mat \<Rightarrow> real list \<Rightarrow> real list \<Rightarrow> bool" where
  "solves A b x \<longleftrightarrow> length x = n_cols A \<and> (\<forall>i < n_rows A. row_holds A b x i)"

section \<open>Known values\<close>

definition system_ok :: "local_system \<Rightarrow> bool" where
  "system_ok s \<longleftrightarrow>
     (let n = n_rows (matrix s); m = n_cols (matrix s) in
      length (row_dofs s) = n \<and> length (col_dofs s) = m \<and> length (rhs s) = n
    \<and> n_rows (sparsity s) = n \<and> n_cols (sparsity s) = m
    \<and> length (elim_rows s) = n \<and> length (solution_rows s) = n \<and> length (diag_rows s) = n
    \<and> length (elim_cols s) = m \<and> length (solution_cols s) = m
    \<and> n_elim_rows s \<le> n \<and> n_elim_cols s \<le> m)"

text \<open>The state after \<open>set_solution\<close> was called for the known values \<open>ks\<close> (dof, value, diagonal).\<close>

definition knows :: "local_system \<Rightarrow> (nat \<times> real \<times> real) list \<Rightarrow> bool" where
  "knows s ks \<longleftrightarrow> n_elim_rows s = length ks \<and> n_elim_cols s = length ks
     \<and> (\<forall>k < length ks. elim_rows s ! k = fst (ks ! k) \<and> elim_cols s ! k = fst (ks ! k)
          \<and> solution_rows s ! k = fst (snd (ks ! k)) \<and> solution_cols s ! k = fst (snd (ks ! k))
          \<and> diag_rows s ! k = snd (snd (ks ! k)))"

definition set_solutions :: "local_system \<Rightarrow> (nat \<times> real \<times> real) list \<Rightarrow> (system_error, local_system) res" where
  "set_solutions s ks = fold_res (\<lambda>s (d, v, g). set_solution s d v g) s ks"

lemma set_solution_knows:
  assumes "system_ok s" and "knows s ks" and "length ks < n_rows (matrix s)" and "n_rows (matrix s) = n_cols (matrix s)"
  shows "\<exists>s'. set_solution s d v g = Inr s' \<and> system_ok s' \<and> knows s' (ks @ [(d, v, g)])
    \<and> matrix s' = matrix s \<and> rhs s' = rhs s \<and> sparsity s' = sparsity s \<and> row_dofs s' = row_dofs s \<and> col_dofs s' = col_dofs s"
  using assms
  by (auto simp: set_solution_def set_solution_row_def set_solution_col_def system_ok_def knows_def Let_def
      nth_append nth_list_update less_Suc_eq)

lemma set_solutions_knows:
  assumes "system_ok s" and "knows s ks0" and "length ks0 + length ks \<le> n_rows (matrix s)"
    and "n_rows (matrix s) = n_cols (matrix s)"
  shows "\<exists>s'. set_solutions s ks = Inr s' \<and> system_ok s' \<and> knows s' (ks0 @ ks)
    \<and> matrix s' = matrix s \<and> rhs s' = rhs s \<and> sparsity s' = sparsity s \<and> row_dofs s' = row_dofs s \<and> col_dofs s' = col_dofs s"
  using assms
proof (induction ks arbitrary: s ks0)
  case Nil
  then show ?case by (auto simp: set_solutions_def)
next
  case (Cons k ks)
  obtain d v g where k: "k = (d, v, g)" by (cases k)
  obtain s1 where s1: "set_solution s d v g = Inr s1" "system_ok s1" "knows s1 (ks0 @ [(d, v, g)])"
    "matrix s1 = matrix s" "rhs s1 = rhs s" "sparsity s1 = sparsity s" "row_dofs s1 = row_dofs s" "col_dofs s1 = col_dofs s"
    using set_solution_knows [OF Cons.prems(1,2) _ Cons.prems(4), of d v g] Cons.prems(3) by fastforce
  then have "\<exists>s'. set_solutions s1 ks = Inr s' \<and> system_ok s' \<and> knows s' ((ks0 @ [(d, v, g)]) @ ks)
    \<and> matrix s' = matrix s1 \<and> rhs s' = rhs s1 \<and> sparsity s' = sparsity s1 \<and> row_dofs s' = row_dofs s1 \<and> col_dofs s' = col_dofs s1"
    using Cons.prems(3,4) by (intro Cons.IH) auto
  then show ?case using s1 by (simp add: set_solutions_def k)
qed

section \<open>Elimination\<close>

lemma eliminate_cols_loop:
  assumes "distinct (map (\<lambda>k. elim_cols s ! k) [0..<m])"
  shows "fold (eliminate_col s) [0..<m] (A, b) =
    (A\<lparr>entry := (\<lambda>i j. if \<exists>k < m. elim_cols s ! k = j then 0 else entry A i j)\<rparr>,
     map (\<lambda>i. b ! i - (\<Sum>k < m. solution_cols s ! k * entry A i (elim_cols s ! k))) [0..<length b])"
  using assms
proof (induction m)
  case 0
  then show ?case by (simp add: map_nth)
next
  case (Suc m)
  have "elim_cols s ! m \<notin> (!) (elim_cols s) ` {0..<m}" using Suc.prems by simp
  then have "\<not> (\<exists>k < m. elim_cols s ! k = elim_cols s ! m)"
    by (metis atLeastLessThan_iff image_eqI le0)
  then show ?case
    using Suc by (auto simp: Let_def zero_col_def fun_eq_iff less_Suc_eq intro!: arma_mat.equality)
qed

lemma fix_diagonal_loop:
  assumes "ir < m" and "\<And>ic. ic < m \<Longrightarrow> row_dofs s ! row = col_dofs s ! (elim_cols s ! ic) \<longleftrightarrow> ic = ir"
  shows "fold (fix_diagonal s ir row) [0..<m] (A, b) =
    (set_entry A row (elim_cols s ! ir) (new_diagonal s ir row (elim_cols s ! ir)),
     b[row := new_diagonal s ir row (elim_cols s ! ir) * solution_rows s ! ir])"
proof -
  have "fold (fix_diagonal s ir row) [0..<j] (A, b) =
      (if ir < j then (set_entry A row (elim_cols s ! ir) (new_diagonal s ir row (elim_cols s ! ir)),
         b[row := new_diagonal s ir row (elim_cols s ! ir) * solution_rows s ! ir]) else (A, b))" if "j \<le> m" for j
    using that
  proof (induction j)
    case (Suc j)
    then show ?case using assms(2) [of j] by (cases "j = ir") (auto simp: Let_def)
  qed simp
  then show ?thesis using assms(1) by simp
qed

text \<open>The work copies after the rows \<open>rs\<close> with the diagonal values \<open>ds\<close> and the solution \<open>vs\<close>.\<close>

lemma eliminate_rows_loop:
  assumes kn: "knows s ks" and d: "distinct (map fst ks)" and rng: "\<forall>k \<in> set ks. fst k < length (row_dofs s)"
    and dofs: "row_dofs s = col_dofs s" "distinct (row_dofs s)" and b: "length b = length (row_dofs s)"
    and r: "fold (eliminate_row s) [0..<m] (A, b) = (A', b')" and m: "m \<le> length ks"
  shows "n_rows A' = n_rows A \<and> n_cols A' = n_cols A \<and> length b' = length b
    \<and> (\<forall>i. (\<forall>k < m. fst (ks ! k) \<noteq> i) \<longrightarrow> entry A' i = entry A i \<and> b' ! i = b ! i)
    \<and> (\<forall>k < m. let row = fst (ks ! k); g = new_diagonal s k row row in
         entry A' row = (\<lambda>j. if j = row then g else 0) \<and> b' ! row = g * fst (snd (ks ! k)))"
  using m r
proof (induction m arbitrary: A' b')
  case 0
  then show ?case by simp
next
  case (Suc m)
  obtain A1 b1 where w: "fold (eliminate_row s) [0..<m] (A, b) = (A1, b1)" by fastforce
  define row g where "row = fst (ks ! m)" and "g = new_diagonal s m row row"
  note ih = Suc.IH [OF _ w]
  have len: "length b1 = length b" using ih Suc.prems(1) by simp
  have inj: "fst (ks ! k) = fst (ks ! k') \<longleftrightarrow> k = k'" if "k < length ks" "k' < length ks" for k k'
    using nth_eq_iff_index_eq [OF d, of k k'] that by simp
  have at: "elim_rows s ! m = row" "elim_cols s ! m = row" "solution_rows s ! m = fst (snd (ks ! m))"
    using kn Suc.prems(1) by (auto simp: knows_def row_def)
  have rl: "row < length b" using rng Suc.prems(1) b by (simp add: row_def)
  have "row_dofs s ! row = col_dofs s ! (elim_cols s ! ic) \<longleftrightarrow> ic = m" if "ic < length ks" for ic
  proof -
    have "fst (ks ! ic) < length (row_dofs s)" using rng that by simp
    moreover have "elim_cols s ! ic = fst (ks ! ic)" using kn that by (simp add: knows_def)
    ultimately show ?thesis
      using nth_eq_iff_index_eq [OF dofs(2), of row "fst (ks ! ic)"] rl b inj [of m ic] that Suc.prems(1)
      by (auto simp: dofs(1) row_def)
  qed
  moreover have "n_elim_cols s = length ks" using kn by (simp add: knows_def)
  ultimately have "eliminate_row s m (A1, b1)
      = (set_entry (zero_row A1 row) row row g, (b1[row := 0])[row := g * fst (snd (ks ! m))])"
    using Suc.prems(1) fix_diagonal_loop [of m "length ks" s row] by (simp add: Let_def at g_def)
  then have eq: "A' = set_entry (zero_row A1 row) row row g" "b' = b1[row := g * fst (snd (ks ! m))]"
    using Suc.prems(2) w by simp_all
  have e: "entry A' i = (if i = row then (\<lambda>j. if j = row then g else 0) else entry A1 i)" for i
    by (auto simp: eq set_entry_def zero_row_def fun_eq_iff)
  have be: "b' ! i = (if i = row then g * fst (snd (ks ! m)) else b1 ! i)" for i
    using rl len by (simp add: eq nth_list_update)
  have dim: "n_rows A' = n_rows A1" "n_cols A' = n_cols A1" "length b' = length b1"
    by (simp_all add: eq set_entry_def zero_row_def)
  have old: "fst (ks ! k) \<noteq> row" if "k < m" for k
    using inj [of k m] that Suc.prems(1) by (auto simp: row_def)
  show ?case
    using ih Suc.prems(1) old e be dim by (auto simp: Let_def less_Suc_eq row_def g_def)
qed

text \<open>
  A row that is not eliminated says the same of a vector with the known values before and after
  the elimination of the columns.
\<close>

lemma eliminated_row_holds:
  assumes d: "distinct (map fst ks)" and rng: "\<forall>k \<in> set ks. fst k < n_cols A"
    and x: "\<forall>k \<in> set ks. x ! fst k = fst (snd k)" and b: "i < length b"
  shows "(\<Sum>j < n_cols A. (if j \<in> fst ` set ks then 0 else entry A i j) * x ! j)
      = b ! i - (\<Sum>k < length ks. fst (snd (ks ! k)) * entry A i (fst (ks ! k)))
    \<longleftrightarrow> row_holds A b x i"
proof -
  let ?K = "fst ` set ks"
  have "(\<Sum>j \<in> ?K. entry A i j * x ! j) = (\<Sum>k \<in> set ks. entry A i (fst k) * x ! fst k)"
    using d by (intro sum.reindex [unfolded o_def]) (simp add: distinct_map)
  also have "\<dots> = (\<Sum>k \<in> set ks. fst (snd k) * entry A i (fst k))"
    using x by (intro sum.cong) (simp_all add: mult.commute)
  also have "\<dots> = (\<Sum>k < length ks. fst (snd (ks ! k)) * entry A i (fst (ks ! k)))"
    using d by (simp add: sum.distinct_set_conv_list distinct_map sum_list_sum_nth atLeast0LessThan)
  finally have known: "(\<Sum>j \<in> ?K. entry A i j * x ! j) = (\<Sum>k < length ks. fst (snd (ks ! k)) * entry A i (fst (ks ! k)))" .
  have sub: "?K \<subseteq> {..<n_cols A}" using rng by auto
  have "(\<Sum>j < n_cols A. (if j \<in> ?K then 0 else entry A i j) * x ! j) = (\<Sum>j \<in> {..<n_cols A} - ?K. entry A i j * x ! j)"
    by (rule sum.mono_neutral_cong_right) auto
  also have "\<dots> = (\<Sum>j < n_cols A. entry A i j * x ! j) - (\<Sum>j \<in> ?K. entry A i j * x ! j)"
    using sub by (simp add: sum_diff)
  finally show ?thesis by (auto simp: row_holds_def known)
qed

lemma mem_image_set_conv_nth: "i \<in> f ` set ks \<longleftrightarrow> (\<exists>k < length ks. f (ks ! k) = i)"
  by (metis imageE image_eqI in_set_conv_nth)

lemma eliminate_loops_spec:
  assumes ok: "system_ok s" and kn: "knows s ks" and d: "distinct (map fst ks)"
    and rng: "\<forall>k \<in> set ks. fst k < n_rows (matrix s)" and sq: "n_rows (matrix s) = n_cols (matrix s)"
    and dofs: "row_dofs s = col_dofs s" "distinct (row_dofs s)"
    and r: "eliminate_loops s = (A, b)"
  shows "n_rows A = n_rows (matrix s)" "n_cols A = n_cols (matrix s)" "length b = length (rhs s)"
    "\<forall>i. i \<notin> fst ` set ks \<longrightarrow> entry A i = (\<lambda>j. if j \<in> fst ` set ks then 0 else entry (matrix s) i j)"
    "\<forall>i < length (rhs s). i \<notin> fst ` set ks \<longrightarrow>
       b ! i = rhs s ! i - (\<Sum>k < length ks. fst (snd (ks ! k)) * entry (matrix s) i (fst (ks ! k)))"
    "\<forall>k < length ks. let row = fst (ks ! k); g = new_diagonal s k row row in
       entry A row = (\<lambda>j. if j = row then g else 0) \<and> b ! row = g * fst (snd (ks ! k))"
proof -
  have el: "elim_cols s ! k = fst (ks ! k)" "solution_cols s ! k = fst (snd (ks ! k))" if "k < length ks" for k
    using kn that by (simp_all add: knows_def)
  have cols: "map (\<lambda>k. elim_cols s ! k) [0..<length ks] = map fst ks"
    by (rule nth_equalityI) (simp_all add: el)
  have mem: "(\<exists>k < length ks. elim_cols s ! k = j) \<longleftrightarrow> j \<in> fst ` set ks" for j
    using el by (auto simp: mem_image_set_conv_nth)
  define A1 where "A1 = (matrix s)\<lparr>entry := (\<lambda>i j. if j \<in> fst ` set ks then 0 else entry (matrix s) i j)\<rparr>"
  define b1 where "b1 = map (\<lambda>i. rhs s ! i - (\<Sum>k < length ks. fst (snd (ks ! k)) * entry (matrix s) i (fst (ks ! k)))) [0..<length (rhs s)]"
  have "(\<Sum>k < length ks. solution_cols s ! k * entry (matrix s) i (elim_cols s ! k))
      = (\<Sum>k < length ks. fst (snd (ks ! k)) * entry (matrix s) i (fst (ks ! k)))" for i
    by (rule sum.cong) (simp_all add: el)
  then have "fold (eliminate_col s) [0..<length ks] (matrix s, rhs s) = (A1, b1)"
    using eliminate_cols_loop [of s "length ks" "matrix s" "rhs s"] d by (simp add: cols mem A1_def b1_def)
  moreover have "n_elim_rows s = length ks" "n_elim_cols s = length ks" using kn by (simp_all add: knows_def)
  ultimately have fold: "fold (eliminate_row s) [0..<length ks] (A1, b1) = (A, b)"
    using r by (simp add: eliminate_loops_def)
  have lens: "length b1 = length (row_dofs s)" "\<forall>k \<in> set ks. fst k < length (row_dofs s)"
    using ok rng by (simp_all add: b1_def system_ok_def Let_def)
  note rows = eliminate_rows_loop [OF kn d lens(2) dofs lens(1) fold order_refl]
  show "n_rows A = n_rows (matrix s)" "n_cols A = n_cols (matrix s)" "length b = length (rhs s)"
    using rows by (simp_all add: A1_def b1_def)
  have out: "(\<forall>k < length ks. fst (ks ! k) \<noteq> i) \<longleftrightarrow> i \<notin> fst ` set ks" for i
    by (simp add: mem_image_set_conv_nth)
  show "\<forall>i. i \<notin> fst ` set ks \<longrightarrow> entry A i = (\<lambda>j. if j \<in> fst ` set ks then 0 else entry (matrix s) i j)"
    using rows out by (simp add: A1_def)
  show "\<forall>i < length (rhs s). i \<notin> fst ` set ks \<longrightarrow>
       b ! i = rhs s ! i - (\<Sum>k < length ks. fst (snd (ks ! k)) * entry (matrix s) i (fst (ks ! k)))"
    using rows out by (simp add: b1_def)
  show "\<forall>k < length ks. let row = fst (ks ! k); g = new_diagonal s k row row in
       entry A row = (\<lambda>j. if j = row then g else 0) \<and> b ! row = g * fst (snd (ks ! k))"
    using rows by blast
qed

lemma new_diagonal_nonzero: "new_diagonal s ir row col \<noteq> 0"
  by (simp add: new_diagonal_def)

lemma known_row_holds:
  assumes "row < n_cols A" and "entry A row = (\<lambda>j. if j = row then g else 0)" and "b ! row = g * v" and "g \<noteq> 0"
  shows "row_holds A b x row \<longleftrightarrow> x ! row = v"
proof -
  have "(\<Sum>j < n_cols A. entry A row j * x ! j) = (\<Sum>j < n_cols A. if j = row then g * x ! row else 0)"
    by (rule sum.cong) (simp_all add: assms(2))
  also have "\<dots> = g * x ! row" using assms(1) by (simp add: sum.delta)
  finally show ?thesis using assms(3,4) by (auto simp: row_holds_def)
qed

lemma eliminate_loops_solutions:
  assumes ok: "system_ok s" and kn: "knows s ks" and d: "distinct (map fst ks)"
    and rng: "\<forall>k \<in> set ks. fst k < n_rows (matrix s)" and sq: "n_rows (matrix s) = n_cols (matrix s)"
    and dofs: "row_dofs s = col_dofs s" "distinct (row_dofs s)"
    and r: "eliminate_loops s = (A, b)"
  shows "solves A b x \<longleftrightarrow> length x = n_cols (matrix s) \<and> (\<forall>k \<in> set ks. x ! fst k = fst (snd k))
    \<and> (\<forall>i < n_rows (matrix s). i \<notin> fst ` set ks \<longrightarrow> row_holds (matrix s) (rhs s) x i)"
proof -
  note sp = eliminate_loops_spec [OF assms]
  have rl: "length (rhs s) = n_rows (matrix s)" using ok by (simp add: system_ok_def Let_def)
  have known: "row_holds A b x (fst k) \<longleftrightarrow> x ! fst k = fst (snd k)" if "k \<in> set ks" for k
  proof -
    obtain j where j: "j < length ks" "k = ks ! j" using \<open>k \<in> set ks\<close> by (auto simp: in_set_conv_nth)
    have "fst k < n_cols A" using that rng sq sp(2) by simp
    then show ?thesis
      using known_row_holds [OF _ _ _ new_diagonal_nonzero] sp(6) j by (auto simp: Let_def)
  qed
  have other: "row_holds A b x i \<longleftrightarrow> row_holds (matrix s) (rhs s) x i"
    if "i < n_rows (matrix s)" "i \<notin> fst ` set ks" "\<forall>k \<in> set ks. x ! fst k = fst (snd k)" for i
  proof -
    have "\<forall>k \<in> set ks. fst k < n_cols (matrix s)" using rng sq by simp
    from eliminated_row_holds [OF d this that(3), of i "rhs s"] show ?thesis
      using that(1,2) sp(2,4,5) rl by (simp add: row_holds_def)
  qed
  have "solves A b x \<longleftrightarrow> length x = n_cols A \<and> (\<forall>k \<in> set ks. row_holds A b x (fst k))
      \<and> (\<forall>i < n_rows (matrix s). i \<notin> fst ` set ks \<longrightarrow> row_holds A b x i)"
    using rng sp(1) unfolding solves_def by (metis imageE)
  moreover have "(\<forall>k \<in> set ks. row_holds A b x (fst k)) \<longleftrightarrow> (\<forall>k \<in> set ks. x ! fst k = fst (snd k))"
    using known by simp
  ultimately show ?thesis using other sp(2) by auto
qed

section \<open>Schur complement\<close>

lemma sum_lessThan_split:
  fixes f :: "nat \<Rightarrow> real"
  shows "(\<Sum>j < p + q. f j) = (\<Sum>j < p. f j) + (\<Sum>j < q. f (p + j))"
  by (induction q) simp_all

text \<open>What \<open>.i()\<close> of Armadillo promises for a regular matrix.\<close>

definition is_inverse :: "arma_mat \<Rightarrow> arma_mat \<Rightarrow> bool" where
  "is_inverse A B \<longleftrightarrow> n_rows B = n_rows A \<and> n_cols B = n_rows A \<and> n_cols A = n_rows A
     \<and> (\<forall>i < n_rows A. \<forall>j < n_rows A. (\<Sum>k < n_rows A. entry B i k * entry A k j) = (if i = j then 1 else 0))
     \<and> (\<forall>i < n_rows A. \<forall>j < n_rows A. (\<Sum>k < n_rows A. entry A i k * entry B k j) = (if i = j then 1 else 0))"

text \<open>Sums of products associate, and a product with its inverse disappears.\<close>

lemma sum_assoc:
  fixes f :: "nat \<Rightarrow> real"
  shows "(\<Sum>k < p. f k * (\<Sum>l < q. g k l * h l)) = (\<Sum>l < q. (\<Sum>k < p. f k * g k l) * h l)"
proof -
  have "(\<Sum>k < p. f k * (\<Sum>l < q. g k l * h l)) = (\<Sum>k < p. \<Sum>l < q. f k * g k l * h l)"
    by (simp add: sum_distrib_left mult.assoc)
  also have "\<dots> = (\<Sum>l < q. \<Sum>k < p. f k * g k l * h l)" by (rule sum.swap)
  finally show ?thesis by (simp add: sum_distrib_right)
qed

lemma sum_unit:
  fixes h :: "nat \<Rightarrow> real"
  assumes "i < p" and "\<And>l. l < p \<Longrightarrow> u l = (if i = l then 1 else 0)"
  shows "(\<Sum>l < p. u l * h l) = h i"
proof -
  have "(\<Sum>l < p. u l * h l) = (\<Sum>l < p. if l = i then h i else 0)"
    by (rule sum.cong) (auto simp: assms(2))
  then show ?thesis using assms(1) by (simp add: sum.delta)
qed

text \<open>Block elimination, with the blocks as functions of their indexes.\<close>

lemma block_elimination:
  fixes a bt b c v :: "nat \<Rightarrow> nat \<Rightarrow> real" and f g u y :: "nat \<Rightarrow> real"
  assumes left: "\<And>i j. i < p \<Longrightarrow> j < p \<Longrightarrow> (\<Sum>k < p. v i k * a k j) = (if i = j then 1 else 0)"
    and right: "\<And>i j. i < p \<Longrightarrow> j < p \<Longrightarrow> (\<Sum>k < p. a i k * v k j) = (if i = j then 1 else 0)"
  defines "bv \<equiv> \<lambda>i k. \<Sum>l < p. b i l * v l k"
  shows "(\<forall>i < p. (\<Sum>j < p. a i j * u j) + (\<Sum>j < q. bt i j * y j) = f i)
      \<and> (\<forall>i < q. (\<Sum>j < p. b i j * u j) + (\<Sum>j < q. c i j * y j) = g i)
    \<longleftrightarrow> (\<forall>i < p. u i = (\<Sum>k < p. v i k * f k) - (\<Sum>j < q. (\<Sum>k < p. v i k * bt k j) * y j))
      \<and> (\<forall>i < q. (\<Sum>j < q. (c i j - (\<Sum>k < p. bv i k * bt k j)) * y j) = g i - (\<Sum>k < p. bv i k * f k))"
proof -
  define w where "w i = f i - (\<Sum>j < q. bt i j * y j)" for i
  have vw: "(\<Sum>k < p. v i k * w k) = (\<Sum>k < p. v i k * f k) - (\<Sum>j < q. (\<Sum>k < p. v i k * bt k j) * y j)" for i
    by (simp add: w_def right_diff_distrib sum_subtractf sum_assoc)
  have first: "(\<forall>i < p. (\<Sum>j < p. a i j * u j) + (\<Sum>j < q. bt i j * y j) = f i) \<longleftrightarrow> (\<forall>i < p. u i = (\<Sum>k < p. v i k * w k))"
  proof
    assume "\<forall>i < p. (\<Sum>j < p. a i j * u j) + (\<Sum>j < q. bt i j * y j) = f i"
    then have au: "w k = (\<Sum>j < p. a k j * u j)" if "k < p" for k using that by (auto simp: w_def)
    show "\<forall>i < p. u i = (\<Sum>k < p. v i k * w k)"
    proof (intro allI impI)
      fix i assume i: "i < p"
      have "(\<Sum>k < p. v i k * w k) = (\<Sum>k < p. v i k * (\<Sum>j < p. a k j * u j))" by (simp add: au)
      also have "\<dots> = u i" using i by (simp add: sum_assoc sum_unit left)
      finally show "u i = (\<Sum>k < p. v i k * w k)" by simp
    qed
  next
    assume u: "\<forall>i < p. u i = (\<Sum>k < p. v i k * w k)"
    show "\<forall>i < p. (\<Sum>j < p. a i j * u j) + (\<Sum>j < q. bt i j * y j) = f i"
    proof (intro allI impI)
      fix i assume i: "i < p"
      have "(\<Sum>j < p. a i j * u j) = (\<Sum>j < p. a i j * (\<Sum>k < p. v j k * w k))" using u by simp
      also have "\<dots> = w i" using i by (simp add: sum_assoc sum_unit right)
      finally show "(\<Sum>j < p. a i j * u j) + (\<Sum>j < q. bt i j * y j) = f i" by (simp add: w_def)
    qed
  qed
  have second: "(\<Sum>j < p. b i j * u j) + (\<Sum>j < q. c i j * y j) = g i
      \<longleftrightarrow> (\<Sum>j < q. (c i j - (\<Sum>k < p. bv i k * bt k j)) * y j) = g i - (\<Sum>k < p. bv i k * f k)"
    if u: "\<forall>i < p. u i = (\<Sum>k < p. v i k * w k)" for i
  proof -
    have "(\<Sum>j < p. b i j * u j) = (\<Sum>k < p. bv i k * w k)"
      using u by (simp add: sum_assoc bv_def)
    also have "\<dots> = (\<Sum>k < p. bv i k * f k) - (\<Sum>j < q. (\<Sum>k < p. bv i k * bt k j) * y j)"
      by (simp add: w_def right_diff_distrib sum_subtractf sum_assoc)
    finally show ?thesis by (simp add: left_diff_distrib sum_subtractf) linarith
  qed
  show ?thesis unfolding first vw [symmetric] using second by blast
qed

lemma solves_append:
  assumes "length u = p" and "length y = q" and "n_cols A = p + q" and "n_rows A = p + q"
  shows "solves A b (u @ y) \<longleftrightarrow>
    (\<forall>i < p. (\<Sum>j < p. entry A i j * u ! j) + (\<Sum>j < q. entry A i (p + j) * y ! j) = b ! i)
  \<and> (\<forall>i < q. (\<Sum>j < p. entry A (p + i) j * u ! j) + (\<Sum>j < q. entry A (p + i) (p + j) * y ! j) = b ! (p + i))"
proof -
  have row: "row_holds A b (u @ y) i \<longleftrightarrow> (\<Sum>j < p. entry A i j * u ! j) + (\<Sum>j < q. entry A i (p + j) * y ! j) = b ! i" for i
    using assms by (simp add: row_holds_def sum_lessThan_split nth_append)
  have "(\<forall>i < p + q. P i) \<longleftrightarrow> (\<forall>i < p. P i) \<and> (\<forall>i < q. P (p + i))" for P
    by (metis add_less_cancel_left less_add_same_cancel1 le_add_diff_inverse not_less trans_less_add1)
  then show ?thesis using assms by (simp add: solves_def row)
qed

lemma solves_negated: "length b = n_rows A \<Longrightarrow> solves (mat_scale (-1) A) (map ((*) (-1)) b) x \<longleftrightarrow> solves A b x"
  by (simp add: solves_def row_holds_def mat_scale_def sum_negf)

lemma solves_fields:
  "n_rows A = n_rows B \<Longrightarrow> n_cols A = n_cols B \<Longrightarrow> entry A = entry B \<Longrightarrow> solves A b x \<longleftrightarrow> solves B b x"
  by (simp add: solves_def row_holds_def)

lemma subvec_nth: "i < b + 1 - a \<Longrightarrow> i < length v - a \<Longrightarrow> subvec v a b ! i = v ! (a + i)"
  by (simp add: subvec_def)

lemma eliminate_solution_fields:
  "matrix (eliminate_solution s) = mat_add (fst (eliminate_loops s)) (sparsity s)"
  "rhs (eliminate_solution s) = snd (eliminate_loops s)"
  "sparsity (eliminate_solution s) = sparsity s"
  "n_elim_rows (eliminate_solution s) = 0" "n_elim_cols (eliminate_solution s) = 0"
  by (auto simp: eliminate_solution_def Let_def eliminate_loops_def split: prod.splits)

section \<open>Properties\<close>


text \<open>Two equations, the second value known.\<close>

definition sample_system :: local_system where
  "sample_system = add_value (add_value (reset_dofs (new_system 2 2) [7, 9] [7, 9]) 0 0 2 6) 0 1 1 0"



text \<open>A system of two equations whose first block is the number 2, inverted exactly.\<close>

definition reciprocal :: "arma_mat \<Rightarrow> arma_mat" where
  "reciprocal A = A\<lparr>entry := (\<lambda>i j. 1 / entry A i j)\<rparr>"

definition coupled_system :: local_system where
  "coupled_system = add_value (add_matrix_value sample_system 1 0 1) 1 1 3 5"


end
