(* ===== verification/Mesh_Build.thy ===== *)
theory Mesh_Build
  imports Region_Sets Containers Bounding_Box
begin

text \<open>
  The raw mesh while it is read: nodes and elements with their ids, the assignment of regions and
  the postponed boundary elements, from \<open>src/src/mesh/mesh.cc\<close>, \<open>mesh.h\<close> and \<open>elements.cc\<close>. The ids are
  stored as C \<open>int\<close>. The warnings (bulk elements of dimension zero, degenerated tetrahedra) are
  not modelled.
\<close>

section \<open>Model\<close>

datatype mesh_error =
    RegionError region_error
  | IdError map_error
  | OutOfNodes
  | UsrErrOrder int

text \<open>The nodes of an element are the first \<open>n_nodes\<close> entries of its array, which has four. An index equal to
  \<open>Mesh::undef_idx\<close> is \<open>None\<close>; the arrays \<open>boundary_idx_\<close> and \<open>neigh_vb\<close> are \<open>None\<close> while they are not allocated,
  pointers to neighbours are their positions.\<close>

record element =
  elem_pid :: u32
  elem_dim :: u32
  elem_region :: region_idx
  elem_nodes :: "u32 list"
  edge_idx :: "nat option list"
  permutation_idx :: "nat option list"
  boundary_idx_arr :: "nat option list option"
  n_neighs_vb :: nat
  neigh_vb :: "nat option list option"

record element_tmp =
  tmp_id :: u32
  tmp_dim :: u32
  tmp_region :: region_idx
  tmp_partition :: u32
  tmp_nodes :: "u32 list"

record mesh_data =
  mesh_nodes :: "point list"
  node_ids :: "int bidirectional_map"
  element_vec :: "element list"
  element_ids :: "int bidirectional_map"
  mesh_bulk_size :: nat
  bc_element_tmp :: "element_tmp list"
  mesh_regions :: region_db

definition n_nodes_of :: "u32 \<Rightarrow> nat" where
  "n_nodes_of d = unat (d + 1)"

definition new_element :: element where
  "new_element = \<lparr>elem_pid = 0, elem_dim = 0, elem_region = undefined_region, elem_nodes = [],
     edge_idx = [], permutation_idx = [], boundary_idx_arr = None, n_neighs_vb = 0, neigh_vb = None\<rparr>"

definition element_init :: "element \<Rightarrow> u32 \<Rightarrow> region_idx \<Rightarrow> element" where
  "element_init e d r = e\<lparr>elem_pid := 0, n_neighs_vb := 0, neigh_vb := None, elem_dim := d, elem_region := r,
     edge_idx := replicate (n_nodes_of d) None, permutation_idx := replicate (n_nodes_of d) None, boundary_idx_arr := None\<rparr>"

definition elem_index :: "mesh_data \<Rightarrow> int \<Rightarrow> int" where
  "elem_index m eid = get_position (element_ids m) eid"

definition node_index :: "mesh_data \<Rightarrow> int \<Rightarrow> int" where
  "node_index m nid = get_position (node_ids m) nid"

definition n_elements :: "mesh_data \<Rightarrow> bool \<Rightarrow> nat" where
  "n_elements m boundary = (if boundary then map_size (element_ids m) - mesh_bulk_size m else mesh_bulk_size m)"

definition init_node_vector :: "mesh_data \<Rightarrow> mesh_data" where
  "init_node_vector m = m\<lparr>mesh_nodes := [], node_ids := clear_map (node_ids m)\<rparr>"

definition init_element_vector :: "mesh_data \<Rightarrow> mesh_data" where
  "init_element_vector m =
     m\<lparr>element_vec := [], element_ids := clear_map (element_ids m), bc_element_tmp := [], mesh_bulk_size := 0\<rparr>"

definition add_node :: "mesh_data \<Rightarrow> u32 \<Rightarrow> point \<Rightarrow> (mesh_error, mesh_data) res" where
  "add_node m nid coords =
     bind_res (map_err IdError (add_item (node_ids m) (sint nid))) (\<lambda>(_, ids).
       Inr (m\<lparr>mesh_nodes := mesh_nodes m @ [coords], node_ids := ids\<rparr>))"

definition add_element_to_vector :: "mesh_data \<Rightarrow> u32 \<Rightarrow> (mesh_error, mesh_data) res" where
  "add_element_to_vector m eid =
     bind_res (map_err IdError (add_item (element_ids m) (sint eid))) (\<lambda>(_, ids).
       Inr (m\<lparr>element_vec := element_vec m @ [new_element], element_ids := ids\<rparr>))"

text \<open>\<open>init_element\<close> works on the element that was added last; an id of a node that does not exist gives the index \<open>-1\<close>.\<close>

definition init_element :: "mesh_data \<Rightarrow> nat \<Rightarrow> u32 \<Rightarrow> region_idx \<Rightarrow> u32 \<Rightarrow> u32 list \<Rightarrow> (mesh_error, mesh_data) res" where
  "init_element m k d r part_id ids =
     (if n_nodes_of d \<le> length ids \<and> n_nodes_of d \<le> 4
      then Inr (m\<lparr>element_vec := (element_vec m)[k := (element_init (element_vec m ! k) d r)
             \<lparr>elem_pid := part_id, elem_nodes := map (\<lambda>i. word_of_int (node_index m (sint (ids ! i)))) [0..<n_nodes_of d]\<rparr>]\<rparr>)
      else Inl OutOfNodes)"

definition add_element ::
  "mesh_data \<Rightarrow> u32 \<Rightarrow> u32 \<Rightarrow> u32 \<Rightarrow> u32 \<Rightarrow> u32 list \<Rightarrow> (mesh_error, mesh_data) res" where
  "add_element m eid d region_id part_id ids =
     bind_res (map_err RegionError (element_region (mesh_regions m) d region_id)) (\<lambda>(r, db).
       let m1 = m\<lparr>mesh_regions := db\<rparr> in
       if is_boundary_idx r
       then Inr (m1\<lparr>bc_element_tmp := bc_element_tmp m1 @
              [\<lparr>tmp_id = eid, tmp_dim = d, tmp_region = r, tmp_partition = part_id, tmp_nodes = ids\<rparr>]\<rparr>)
       else if d = 0 then Inr m1
       else bind_res (add_element_to_vector m1 eid) (\<lambda>m2.
         init_element (m2\<lparr>mesh_bulk_size := mesh_bulk_size m2 + 1\<rparr>) (length (element_vec m2) - 1) d r part_id ids))"

definition create_boundary_element :: "mesh_data \<Rightarrow> element_tmp \<Rightarrow> (mesh_error, mesh_data) res" where
  "create_boundary_element m e =
     bind_res (add_element_to_vector m (tmp_id e)) (\<lambda>m1.
       init_element m1 (length (element_vec m1) - 1) (tmp_dim e) (tmp_region e) (tmp_partition e) (tmp_nodes e))"

definition create_boundary_elements :: "mesh_data \<Rightarrow> (mesh_error, mesh_data) res" where
  "create_boundary_elements m =
     bind_res (fold_res create_boundary_element m (bc_element_tmp m)) (\<lambda>m'. Inr (m'\<lparr>bc_element_tmp := []\<rparr>))"

text \<open>The ids of bulk and of boundary elements in their order; the ids have to increase.\<close>

fun increasing_ids :: "int \<Rightarrow> int list \<Rightarrow> (mesh_error, int list) res" where
  "increasing_ids last_id [] = Inr []"
| "increasing_ids last_id (i # is) =
     (if i \<le> last_id then Inl (UsrErrOrder i)
      else bind_res (increasing_ids i is) (\<lambda>out. Inr (i # out)))"

fun boundary_ids :: "int \<Rightarrow> int list \<Rightarrow> (mesh_error, int list) res" where
  "boundary_ids last_id [] = Inr []"
| "boundary_ids last_id (i # is) =
     (if i < 0 then bind_res (boundary_ids (-1) is) (\<lambda>out. Inr (-1 # out))
      else if i \<le> last_id then Inl (UsrErrOrder i)
      else bind_res (boundary_ids i is) (\<lambda>out. Inr (i # out)))"

definition elements_id_maps :: "mesh_data \<Rightarrow> int list \<Rightarrow> int list \<Rightarrow> (mesh_error, int list \<times> int list) res" where
  "elements_id_maps m bulk_ids bc_ids =
     (if bulk_ids = []
      then bind_res (increasing_ids (-1) (take (mesh_bulk_size m) (vals_vec (element_ids m)))) (\<lambda>bulk.
           bind_res (boundary_ids (-1) (drop (mesh_bulk_size m) (vals_vec (element_ids m)))) (\<lambda>bc. Inr (bulk, bc)))
      else Inr (bulk_ids, bc_ids))"

section \<open>Invariant\<close>

text \<open>While the mesh is read all elements of the vector are bulk elements.\<close>

definition element_ok :: "region_db \<Rightarrow> bool \<Rightarrow> element \<Rightarrow> bool" where
  "element_ok db boundary e \<longleftrightarrow> elem_region e \<in> indices db \<and> is_boundary_idx (elem_region e) = boundary
     \<and> length (elem_nodes e) = n_nodes_of (elem_dim e) \<and> length (edge_idx e) = n_nodes_of (elem_dim e)"

definition tmp_ok :: "region_db \<Rightarrow> element_tmp \<Rightarrow> bool" where
  "tmp_ok db e \<longleftrightarrow> tmp_region e \<in> indices db \<and> is_boundary_idx (tmp_region e)"

definition mesh_ok :: "mesh_data \<Rightarrow> bool" where
  "mesh_ok m \<longleftrightarrow> db_ok (mesh_regions m)
     \<and> map_ok (node_ids m) \<and> length (vals_vec (node_ids m)) = length (mesh_nodes m)
     \<and> map_ok (element_ids m) \<and> length (vals_vec (element_ids m)) = length (element_vec m)
     \<and> mesh_bulk_size m \<le> length (element_vec m)
     \<and> list_all (element_ok (mesh_regions m) False) (take (mesh_bulk_size m) (element_vec m))
     \<and> list_all (element_ok (mesh_regions m) True) (drop (mesh_bulk_size m) (element_vec m))
     \<and> list_all (tmp_ok (mesh_regions m)) (bc_element_tmp m)"

definition reading :: "mesh_data \<Rightarrow> bool" where
  "reading m \<longleftrightarrow> mesh_ok m \<and> mesh_bulk_size m = length (element_vec m)"

lemma element_region_ok:
  assumes ok: "db_ok db" and r: "element_region db d rid = Inr (r, db')"
  shows "db_ok db' \<and> r \<in> indices db' \<and> indices db \<subseteq> indices db'"
proof -
  obtain r1 db1 where g: "get_region db rid d = Inr (r1, db1)"
    and r2: "bind_res (if is_valid r1 then Inr (r1, db1) else add_region db1 rid (create_label_from_id rid) d ''$Element'')
      (\<lambda>(r', db2). bind_res (mark_used_region db2 r') (\<lambda>db3. Inr (r', db3))) = Inr (r, db')"
    using r unfolding element_region_def by (auto elim!: bind_res_InrE)
  note g1 = get_region_ok [OF ok g]
  obtain db2 where a: "(if is_valid r1 then Inr (r1, db1) else add_region db1 rid (create_label_from_id rid) d ''$Element'') = Inr (r, db2)"
    and mk: "mark_used_region db2 r = Inr db'"
    using r2 by (auto elim!: bind_res_InrE)
  have two: "db_ok db2 \<and> r \<in> indices db2 \<and> indices db1 \<subseteq> indices db2"
  proof (cases "is_valid r1")
    case True
    then have "r1 \<in> indices db1" using g1(6) by (auto simp: is_valid_def indices_def)
    then show ?thesis using True a g1(1) by simp
  next
    case False
    then show ?thesis
      using a add_region_ok [OF g1(1) create_label_not_reserved] by (auto simp: region_result_def)
  qed
  note m = mark_used_region_ok [OF conjunct1 [OF two] mk]
  show ?thesis using two m(1,6) g1(2) by simp
qed

lemma element_ok_mono: "element_ok db b e \<Longrightarrow> indices db \<subseteq> indices db' \<Longrightarrow> element_ok db' b e"
  by (auto simp: element_ok_def)

lemma tmp_ok_mono: "tmp_ok db e \<Longrightarrow> indices db \<subseteq> indices db' \<Longrightarrow> tmp_ok db' e"
  by (auto simp: tmp_ok_def)

lemma mesh_ok_regions:
  assumes "mesh_ok m" and "db_ok db" and "indices (mesh_regions m) \<subseteq> indices db"
  shows "mesh_ok (m\<lparr>mesh_regions := db\<rparr>)"
  using assms element_ok_mono tmp_ok_mono
  by (auto simp: mesh_ok_def list_all_iff)

lemma add_item_Inr:
  assumes "map_ok mp" and "add_item mp v = Inr (k, mp')"
  shows "map_ok mp' \<and> vals_vec mp' = vals_vec mp @ [v] \<and> k = length (vals_vec mp) \<and> v \<notin> set (vals_vec mp)"
proof -
  have v: "v \<notin> set (vals_vec mp)"
    using assms map_ok_None [OF assms(1), of v] by (auto simp: add_item_def split: if_splits)
  show ?thesis using add_item_ok [OF assms(1) v] assms(2) v by auto
qed

lemma add_node_ok:
  assumes "reading m" and "add_node m nid p = Inr m'"
  shows "reading m'"
proof -
  obtain k ids where a: "add_item (node_ids m) (sint nid) = Inr (k, ids)"
    and m': "m' = m\<lparr>mesh_nodes := mesh_nodes m @ [p], node_ids := ids\<rparr>"
    using assms(2) by (auto simp: add_node_def res_simps)
  have "map_ok (node_ids m)" using assms(1) by (simp add: reading_def mesh_ok_def)
  from add_item_Inr [OF this a] show ?thesis
    using assms(1) by (auto simp: reading_def mesh_ok_def m')
qed

text \<open>A new element with its data appended to the vector.\<close>

lemma element_appended:
  assumes ids: "map_ok (element_ids m)" "length (vals_vec (element_ids m)) = length (element_vec m)"
    and add: "add_element_to_vector m eid = Inr m1"
    and init: "init_element (m1\<lparr>mesh_bulk_size := n\<rparr>) (length (element_vec m1) - 1) d r part_id ids = Inr m'"
    and r: "r \<in> indices (mesh_regions m)" "is_boundary_idx r = boundary"
  shows "\<exists>e. element_vec m' = element_vec m @ [e] \<and> element_ok (mesh_regions m) boundary e
    \<and> map_ok (element_ids m') \<and> vals_vec (element_ids m') = vals_vec (element_ids m) @ [sint eid]
    \<and> mesh_nodes m' = mesh_nodes m \<and> node_ids m' = node_ids m \<and> mesh_regions m' = mesh_regions m
    \<and> bc_element_tmp m' = bc_element_tmp m \<and> mesh_bulk_size m' = n"
proof -
  obtain k em where a: "add_item (element_ids m) (sint eid) = Inr (k, em)"
    and m1: "m1 = m\<lparr>element_vec := element_vec m @ [new_element], element_ids := em\<rparr>"
    using add by (auto simp: add_element_to_vector_def res_simps)
  note em = add_item_Inr [OF ids(1) a]
  show ?thesis
    using init em r
    by (auto simp: init_element_def m1 element_ok_def element_init_def split: if_splits)
qed

lemma add_element_ok:
  assumes rd: "reading m" and add: "add_element m eid d rid part_id ids = Inr m'"
  shows "reading m'"
proof -
  obtain r db where er: "element_region (mesh_regions m) d rid = Inr (r, db)"
    using add by (auto simp: add_element_def res_simps)
  have "db_ok (mesh_regions m)" using rd by (simp add: reading_def mesh_ok_def)
  note reg = element_region_ok [OF this er]
  define m1 where "m1 = m\<lparr>mesh_regions := db\<rparr>"
  have ok1: "mesh_ok m1" "mesh_bulk_size m1 = length (element_vec m1)" "mesh_regions m1 = db"
    using mesh_ok_regions [of m db] rd reg by (simp_all add: m1_def reading_def)
  have cases: "m' = m1\<lparr>bc_element_tmp := bc_element_tmp m1 @
        [\<lparr>tmp_id = eid, tmp_dim = d, tmp_region = r, tmp_partition = part_id, tmp_nodes = ids\<rparr>]\<rparr> \<and> is_boundary_idx r
    \<or> m' = m1 \<or> \<not> is_boundary_idx r \<and> (\<exists>m2. add_element_to_vector m1 eid = Inr m2
        \<and> init_element (m2\<lparr>mesh_bulk_size := mesh_bulk_size m2 + 1\<rparr>) (length (element_vec m2) - 1) d r part_id ids = Inr m')"
    using add er by (auto simp: add_element_def m1_def [symmetric] Let_def res_simps split: if_splits)
  show ?thesis
  proof (cases "is_boundary_idx r \<or> m' = m1")
    case True
    then show ?thesis using cases ok1 reg by (auto simp: reading_def mesh_ok_def tmp_ok_def)
  next
    case False
    then obtain m2 where m2: "add_element_to_vector m1 eid = Inr m2"
      "init_element (m2\<lparr>mesh_bulk_size := mesh_bulk_size m2 + 1\<rparr>) (length (element_vec m2) - 1) d r part_id ids = Inr m'"
      using cases by blast
    have ids: "map_ok (element_ids m1)" "length (vals_vec (element_ids m1)) = length (element_vec m1)"
      using ok1(1) by (simp_all add: mesh_ok_def)
    have bs: "mesh_bulk_size m2 = mesh_bulk_size m1" using m2(1) by (auto simp: add_element_to_vector_def res_simps)
    from element_appended [OF ids m2, of False] reg False ok1(3) obtain e where
      "element_vec m' = element_vec m1 @ [e]" "element_ok db False e" "map_ok (element_ids m')"
      "vals_vec (element_ids m') = vals_vec (element_ids m1) @ [sint eid]"
      "mesh_nodes m' = mesh_nodes m1" "node_ids m' = node_ids m1" "mesh_regions m' = mesh_regions m1"
      "bc_element_tmp m' = bc_element_tmp m1" "mesh_bulk_size m' = mesh_bulk_size m2 + 1"
      by auto
    then show ?thesis using ok1 bs by (simp add: reading_def mesh_ok_def)
  qed
qed

lemma add_physical_name_ok:
  assumes "reading m" and "add_physical_name (mesh_regions m) d rid name = Inr db" and "\<not> reserved name"
  shows "reading (m\<lparr>mesh_regions := db\<rparr>)"
proof -
  obtain r where "add_region (mesh_regions m) rid name d ''$PhysicalNames'' = Inr (r, db)"
    using assms(2) by (auto simp: add_physical_name_def res_simps)
  moreover have "db_ok (mesh_regions m)" using assms(1) by (simp add: reading_def mesh_ok_def)
  ultimately have "db_ok db" "indices (mesh_regions m) \<subseteq> indices db"
    using add_region_ok [OF _ assms(3)] by (auto simp: region_result_def)
  then show ?thesis using mesh_ok_regions [of m db] assms(1) by (simp add: reading_def)
qed

text \<open>The calls of a reader.\<close>

datatype mesh_cmd =
    Add_Node u32 point
  | Add_Element u32 u32 u32 u32 "u32 list"
  | Add_Name u32 u32 string

fun mesh_cmd_allowed :: "mesh_cmd \<Rightarrow> bool" where
  "mesh_cmd_allowed (Add_Name d rid name) \<longleftrightarrow> \<not> reserved name"
| "mesh_cmd_allowed c \<longleftrightarrow> True"

fun mesh_step :: "mesh_data \<Rightarrow> mesh_cmd \<Rightarrow> (mesh_error, mesh_data) res" where
  "mesh_step m (Add_Node nid p) = add_node m nid p"
| "mesh_step m (Add_Element eid d rid part_id ids) = add_element m eid d rid part_id ids"
| "mesh_step m (Add_Name d rid name) =
     bind_res (map_err RegionError (add_physical_name (mesh_regions m) d rid name)) (\<lambda>db. Inr (m\<lparr>mesh_regions := db\<rparr>))"

interpretation building: checked_machine reading mesh_cmd_allowed mesh_step
proof
  fix m c m'
  assume "reading m" "mesh_cmd_allowed c" "mesh_step m c = Inr m'"
  then show "reading m'"
    by (cases c) (simp_all add: res_simps, (metis add_node_ok add_element_ok add_physical_name_ok)+)
qed

lemma create_boundary_element_ok:
  assumes ok: "mesh_ok m" and e: "tmp_ok (mesh_regions m) e" and cr: "create_boundary_element m e = Inr m'"
  shows "mesh_ok m' \<and> mesh_regions m' = mesh_regions m \<and> mesh_bulk_size m' = mesh_bulk_size m
    \<and> bc_element_tmp m' = bc_element_tmp m \<and> take (length (element_vec m)) (element_vec m') = element_vec m
    \<and> vals_vec (element_ids m') = vals_vec (element_ids m) @ [sint (tmp_id e)]
    \<and> node_ids m' = node_ids m \<and> mesh_nodes m' = mesh_nodes m"
proof -
  obtain m1 where m1: "add_element_to_vector m (tmp_id e) = Inr m1"
    "init_element m1 (length (element_vec m1) - 1) (tmp_dim e) (tmp_region e) (tmp_partition e) (tmp_nodes e) = Inr m'"
    using cr by (auto simp: create_boundary_element_def res_simps)
  have bs: "m1\<lparr>mesh_bulk_size := mesh_bulk_size m\<rparr> = m1" using m1(1) by (auto simp: add_element_to_vector_def res_simps)
  have ids: "map_ok (element_ids m)" "length (vals_vec (element_ids m)) = length (element_vec m)"
    using ok by (simp_all add: mesh_ok_def)
  have r: "tmp_region e \<in> indices (mesh_regions m)" "is_boundary_idx (tmp_region e) = True"
    using e by (simp_all add: tmp_ok_def)
  from element_appended [OF ids m1(1) _ r, of "mesh_bulk_size m" "tmp_dim e" "tmp_partition e" "tmp_nodes e" m'] m1(2)
  obtain el where
    "element_vec m' = element_vec m @ [el]" "element_ok (mesh_regions m) True el" "map_ok (element_ids m')"
    "vals_vec (element_ids m') = vals_vec (element_ids m) @ [sint (tmp_id e)]"
    "mesh_nodes m' = mesh_nodes m" "node_ids m' = node_ids m" "mesh_regions m' = mesh_regions m"
    "bc_element_tmp m' = bc_element_tmp m" "mesh_bulk_size m' = mesh_bulk_size m"
    unfolding bs by auto
  then show ?thesis using ok by (simp add: mesh_ok_def)
qed

lemma create_boundary_fold:
  assumes "mesh_ok m" and "list_all (tmp_ok (mesh_regions m)) es" and "fold_res create_boundary_element m es = Inr m'"
  shows "mesh_ok m' \<and> mesh_regions m' = mesh_regions m \<and> mesh_bulk_size m' = mesh_bulk_size m
    \<and> take (length (element_vec m)) (element_vec m') = element_vec m
    \<and> vals_vec (element_ids m') = vals_vec (element_ids m) @ map (\<lambda>e. sint (tmp_id e)) es
    \<and> node_ids m' = node_ids m \<and> mesh_nodes m' = mesh_nodes m"
  using assms
proof (induction es arbitrary: m)
  case (Cons e es)
  obtain m1 where m1: "create_boundary_element m e = Inr m1" "fold_res create_boundary_element m1 es = Inr m'"
    using Cons.prems(3) by (auto simp: res_simps)
  have "tmp_ok (mesh_regions m) e" using Cons.prems(2) by simp
  note one = create_boundary_element_ok [OF Cons.prems(1) this m1(1)]
  have ih: "mesh_ok m' \<and> mesh_regions m' = mesh_regions m1 \<and> mesh_bulk_size m' = mesh_bulk_size m1
    \<and> take (length (element_vec m1)) (element_vec m') = element_vec m1
    \<and> vals_vec (element_ids m') = vals_vec (element_ids m1) @ map (\<lambda>e. sint (tmp_id e)) es
    \<and> node_ids m' = node_ids m1 \<and> mesh_nodes m' = mesh_nodes m1"
    using Cons.IH [OF _ _ m1(2)] one Cons.prems(2) by simp
  have "length (element_vec m) \<le> length (element_vec m1)" using one by (metis length_take min.cobounded1 min_def)
  then have "take (length (element_vec m)) (element_vec m') = element_vec m"
    using ih one by (metis min.absorb1 take_take)
  then show ?case using ih one by simp
qed simp

lemma map_ok_position: "map_ok mp \<Longrightarrow> k < length (vals_vec mp) \<Longrightarrow> get_position mp (vals_vec mp ! k) = int k"
  by (auto simp: map_ok_def get_position_def split: option.splits) (metis nth_eq_iff_index_eq option.inject)+

lemma mesh_ok_kind:
  assumes "mesh_ok m" and k: "k < length (element_vec m)"
  shows "is_boundary_idx (elem_region (element_vec m ! k)) \<longleftrightarrow> mesh_bulk_size m \<le> k"
    and "elem_region (element_vec m ! k) \<in> indices (mesh_regions m)"
proof -
  have "element_ok (mesh_regions m) (mesh_bulk_size m \<le> k) (element_vec m ! k)"
  proof (cases "mesh_bulk_size m \<le> k")
    case True
    then have "element_vec m ! k \<in> set (drop (mesh_bulk_size m) (element_vec m))"
      using k by (auto simp: in_set_drop_nth)
    then show ?thesis using assms(1) True by (simp add: mesh_ok_def list_all_iff)
  next
    case False
    then have "element_vec m ! k \<in> set (take (mesh_bulk_size m) (element_vec m))"
      using k unfolding in_set_take_nth by (intro exI [of _ k]) simp
    then show ?thesis using assms(1) False by (simp add: mesh_ok_def list_all_iff)
  qed
  then show "is_boundary_idx (elem_region (element_vec m ! k)) \<longleftrightarrow> mesh_bulk_size m \<le> k"
    "elem_region (element_vec m ! k) \<in> indices (mesh_regions m)"
    by (auto simp: element_ok_def)
qed

lemma create_boundary_elements_ok:
  assumes rd: "reading m1" and cr: "create_boundary_elements m1 = Inr m2"
  shows "mesh_ok m2" and "mesh_regions m2 = mesh_regions m1" and "bc_element_tmp m2 = []" and "mesh_bulk_size m2 = mesh_bulk_size m1"
    and "take (length (element_vec m1)) (element_vec m2) = element_vec m1"
    and "vals_vec (element_ids m2) = vals_vec (element_ids m1) @ map (\<lambda>e. sint (tmp_id e)) (bc_element_tmp m1)"
proof -
  obtain m' where f: "fold_res create_boundary_element m1 (bc_element_tmp m1) = Inr m'" and m2: "m2 = m'\<lparr>bc_element_tmp := []\<rparr>"
    using cr by (auto simp: create_boundary_elements_def res_simps)
  have ok1: "mesh_ok m1" "list_all (tmp_ok (mesh_regions m1)) (bc_element_tmp m1)"
    using rd by (simp add: reading_def) (use rd in \<open>simp add: reading_def mesh_ok_def\<close>)
  note r = create_boundary_fold [OF ok1 f]
  have "mesh_ok m'" using r by simp
  then show "mesh_ok m2" by (simp add: m2 mesh_ok_def)
  show "mesh_regions m2 = mesh_regions m1" "bc_element_tmp m2 = []" "mesh_bulk_size m2 = mesh_bulk_size m1"
    "take (length (element_vec m1)) (element_vec m2) = element_vec m1"
    "vals_vec (element_ids m2) = vals_vec (element_ids m1) @ map (\<lambda>e. sint (tmp_id e)) (bc_element_tmp m1)"
    using r by (simp_all add: m2)
qed

section \<open>Properties\<close>

text \<open>
  C17. Building the mesh. Whatever nodes, elements and names of regions a reader adds, when
  all its calls and the creation of the boundary elements succeed, then the regions form a sound
  database, the bulk elements stay in front in their order and the postponed boundary elements
  follow, an element lies in a boundary region exactly when it stands behind the bulk elements,
  its region exists, and nodes and elements are found under their ids at their positions.
\<close>

theorem mesh_build_correct:
  assumes "reading m0" and "list_all mesh_cmd_allowed cs" and "fold_res mesh_step m0 cs = Inr m1"
    and cr: "create_boundary_elements m1 = Inr m2"
  shows "db_ok (mesh_regions m2) \<and> bc_element_tmp m2 = []
    \<and> mesh_bulk_size m2 = length (element_vec m1) \<and> take (length (element_vec m1)) (element_vec m2) = element_vec m1
    \<and> length (element_vec m2) = length (element_vec m1) + length (bc_element_tmp m1)
    \<and> (\<forall>k < length (element_vec m2). (is_boundary_idx (elem_region (element_vec m2 ! k)) \<longleftrightarrow> mesh_bulk_size m2 \<le> k)
         \<and> elem_region (element_vec m2 ! k) \<in> indices (mesh_regions m2)
         \<and> elem_index m2 (vals_vec (element_ids m2) ! k) = int k)
    \<and> (\<forall>k < length (mesh_nodes m2). node_index m2 (vals_vec (node_ids m2) ! k) = int k)"
proof -
  have rd: "reading m1" by (rule building.run_keeps [OF assms(1-3)])
  note c = create_boundary_elements_ok [OF rd cr]
  have ok1: "mesh_ok m1" "mesh_bulk_size m1 = length (element_vec m1)" using rd by (simp_all add: reading_def)
  have lens: "length (vals_vec (element_ids m2)) = length (element_vec m2)" "length (vals_vec (node_ids m2)) = length (mesh_nodes m2)"
    "map_ok (element_ids m2)" "map_ok (node_ids m2)" "length (vals_vec (element_ids m1)) = length (element_vec m1)" "db_ok (mesh_regions m2)"
    using c(1) ok1(1) by (simp_all add: mesh_ok_def)
  have "length (element_vec m2) = length (element_vec m1) + length (bc_element_tmp m1)"
    using c(6) lens(1,5) by (metis length_append length_map)
  then show ?thesis
    using c(3-5) ok1(2) lens mesh_ok_kind [OF c(1)] map_ok_position [OF lens(3)] map_ok_position [OF lens(4)]
    by (simp add: elem_index_def node_index_def)
qed

text \<open>A triangle and a boundary line of a named boundary region.\<close>

definition empty_mesh :: mesh_data where
  "empty_mesh = \<lparr>mesh_nodes = [], node_ids = empty_map, element_vec = [], element_ids = empty_map, mesh_bulk_size = 0,
     bc_element_tmp = [], mesh_regions = new_db\<rparr>"

definition sample_cmds :: "mesh_cmd list" where
  "sample_cmds = [Add_Name 1 5 ''.side'', Add_Node 10 [0, 0, 0], Add_Node 11 [1, 0, 0], Add_Element 1 1 5 0 [10, 11],
     Add_Element 2 1 6 0 [10, 11]]"

lemma empty_mesh_reading: "reading empty_mesh"
  using new_db_ok empty_map_ok by (simp add: reading_def mesh_ok_def empty_mesh_def) (simp add: empty_map_def)

lemma not_isl_cases:
  assumes "\<not> isl r"
  obtains x where "r = Inr x"
  using assms by (cases r) auto

lemma sample_cmds_succeed: "\<not> isl (bind_res (fold_res mesh_step empty_mesh sample_cmds) create_boundary_elements)"
  by code_simp

theorem mesh_build_correct_witness:
  "\<exists>m1 m2. fold_res mesh_step empty_mesh sample_cmds = Inr m1 \<and> create_boundary_elements m1 = Inr m2
    \<and> mesh_bulk_size m2 = length (element_vec m1) \<and> db_ok (mesh_regions m2)"
proof -
  obtain m1 m2 where m: "fold_res mesh_step empty_mesh sample_cmds = Inr m1" "create_boundary_elements m1 = Inr m2"
    using sample_cmds_succeed unfolding bind_res_def by (auto split: sum.splits elim: not_isl_cases)
  have "list_all mesh_cmd_allowed sample_cmds" by (simp add: sample_cmds_def reserved_def)
  from mesh_build_correct [OF empty_mesh_reading this m] show ?thesis using m by blast
qed

end
