(* ===== verification/Tokenizer.thy ===== *)
theory Tokenizer
  imports Prelude "HOL-Library.While_Combinator" "HOL-Library.Sublist"
begin

text \<open>
  The reader of text files, \<open>Tokenizer\<close> of \<open>src/src/system/tokenizer.hh\<close> and \<open>tokenizer.cc\<close>. The
  input stream is modelled with its content, position and the end-of-file and failure bits
  of the standard library; read errors of the device (the bad bit) do not occur. The two
  functions of Boost the code calls, the trimming of a line and the splitting of a line
  into tokens, are the parameters \<open>trim\<close> and \<open>split\<close>. The loops are \<open>while_option\<close> loops.
\<close>

section \<open>Streams\<close>

record istream =
  content :: string
  offset :: nat
  eofbit :: bool
  failbit :: bool

definition newline :: char where
  "newline = CHR 0x0A"

definition open_stream :: "string \<Rightarrow> istream" where
  "open_stream cs = \<lparr>content = cs, offset = 0, eofbit = False, failbit = False\<rparr>"

definition rest_of :: "istream \<Rightarrow> string" where
  "rest_of s = drop (offset s) (content s)"

text \<open>\<open>std::getline\<close>: a stream that is not good fails and the string is left as it is.\<close>

definition getline :: "istream \<Rightarrow> string \<Rightarrow> istream \<times> string" where
  "getline s l =
     (if eofbit s \<or> failbit s then (s\<lparr>failbit := True\<rparr>, l)
      else let l' = takeWhile (\<lambda>c. c \<noteq> newline) (rest_of s); n = length l'
           in if n < length (rest_of s) then (s\<lparr>offset := offset s + n + 1\<rparr>, l')
              else (s\<lparr>offset := offset s + n, eofbit := True, failbit := (n = 0)\<rparr>, l'))"

text \<open>\<open>tellg\<close> gives \<open>-1\<close> (\<open>None\<close>) on a stream that is not good, and sets its failure bit.\<close>

definition tellg :: "istream \<Rightarrow> istream \<times> nat option" where
  "tellg s = (if eofbit s \<or> failbit s then (s\<lparr>failbit := True\<rparr>, None) else (s, Some (offset s)))"

definition seekg :: "istream \<Rightarrow> nat option \<Rightarrow> istream" where
  "seekg s p =
     (if failbit s then s
      else case p of None \<Rightarrow> s\<lparr>failbit := True\<rparr>
           | Some k \<Rightarrow> (if k \<le> length (content s) then s\<lparr>offset := k, eofbit := False\<rparr> else s\<lparr>failbit := True\<rparr>))"

section \<open>Tokenizer\<close>

record tok_position =
  file_position :: "nat option"
  line_counter :: nat
  line_position :: nat

datatype token_error = MissingToken nat nat | NoReturn

record tokenizer =
  f_name :: string
  in_stream :: istream
  cur_line :: string
  comment_pattern :: string
  position :: tok_position
  remaining :: "string list"
  warned :: "string list"

definition eol :: "tokenizer \<Rightarrow> bool" where
  "eol t \<longleftrightarrow> remaining t = []"

definition eof :: "tokenizer \<Rightarrow> bool" where
  "eof t \<longleftrightarrow> eofbit (in_stream t)"

definition pos :: "tokenizer \<Rightarrow> nat" where
  "pos t = line_position (position t)"

definition line_num :: "tokenizer \<Rightarrow> nat" where
  "line_num t = line_counter (position t)"

definition new_tokenizer :: "istream \<Rightarrow> tokenizer" where
  "new_tokenizer s =
     \<lparr>f_name = ''__anonymous_stream__'', in_stream = s, cur_line = '''', comment_pattern = '''',
      position = \<lparr>file_position = Some 0, line_counter = 0, line_position = 0\<rparr>, remaining = [], warned = []\<rparr>"

definition set_comment_pattern :: "tokenizer \<Rightarrow> string \<Rightarrow> tokenizer" where
  "set_comment_pattern t pattern = t\<lparr>comment_pattern := pattern\<rparr>"

text \<open>One step over a token, and the loop over empty tokens.\<close>

definition step_token :: "tokenizer \<Rightarrow> tokenizer" where
  "step_token t = t\<lparr>position := (position t)\<lparr>line_position := line_position (position t) + 1\<rparr>, remaining := tl (remaining t)\<rparr>"

definition skip_empty :: "tokenizer \<Rightarrow> tokenizer" where
  "skip_empty t =
     t\<lparr>position := (position t)\<lparr>line_position := line_position (position t) + length (takeWhile (\<lambda>w. w = []) (remaining t))\<rparr>,
       remaining := dropWhile (\<lambda>w. w = []) (remaining t)\<rparr>"

definition next_token :: "tokenizer \<Rightarrow> tokenizer" where
  "next_token t = skip_empty (if eol t then t else step_token t)"

definition cur_token :: "tokenizer \<Rightarrow> (token_error, string) res" where
  "cur_token t = (case remaining t of [] \<Rightarrow> Inl (MissingToken (line_num t) (pos t)) | w # ws \<Rightarrow> Inr w)"

definition set_tokenizer :: "(string \<Rightarrow> string list) \<Rightarrow> tokenizer \<Rightarrow> tokenizer" where
  "set_tokenizer split t =
     skip_empty (t\<lparr>remaining := split (cur_line t), position := (position t)\<lparr>line_position := 0\<rparr>\<rparr>)"

text \<open>The body of the loop of \<open>next_line\<close>: a line that is empty or a comment becomes empty.\<close>

definition is_comment :: "tokenizer \<Rightarrow> string \<Rightarrow> bool" where
  "is_comment t l \<longleftrightarrow> comment_pattern t \<noteq> [] \<and> take (length (comment_pattern t)) l = comment_pattern t"

definition read_step :: "(string \<Rightarrow> string) \<Rightarrow> tokenizer \<Rightarrow> tokenizer" where
  "read_step trim t =
     (let (s, l) = getline (in_stream t) (cur_line t); l' = trim l
      in t\<lparr>in_stream := s, position := (position t)\<lparr>line_counter := line_counter (position t) + 1\<rparr>,
           cur_line := (if is_comment t l' then '''' else l')\<rparr>)"

definition next_line ::
  "(string \<Rightarrow> string) \<Rightarrow> (string \<Rightarrow> string list) \<Rightarrow> bool \<Rightarrow> tokenizer \<Rightarrow> (token_error, bool \<times> tokenizer) res" where
  "next_line trim split assert_for_remaining_tokens t =
     (let t0 = (if assert_for_remaining_tokens \<and> \<not> eol t then t\<lparr>warned := warned t @ [hd (remaining t)]\<rparr> else t)
      in if eof t0 then Inr (False, t0)
         else case while_option (\<lambda>u. \<not> eof u \<and> cur_line u = '''') (read_step trim) (t0\<lparr>cur_line := ''''\<rparr>) of
                None \<Rightarrow> Inl NoReturn
              | Some u \<Rightarrow> (if \<not> failbit (in_stream u) then Inr (True, set_tokenizer split u) else Inr (False, u)))"

text \<open>
  The loop of \<open>skip_to\<close>; its state holds the answer once there is one. \<open>next_line\<close> is called
  without the check of the remaining tokens.
\<close>

definition skip_step ::
  "(string \<Rightarrow> string) \<Rightarrow> (string \<Rightarrow> string list) \<Rightarrow> string \<Rightarrow> string \<Rightarrow>
   (token_error, bool option \<times> tokenizer) res \<Rightarrow> (token_error, bool option \<times> tokenizer) res" where
  "skip_step trim split pattern end_pattern r =
     bind_res r (\<lambda>(ans, t).
       if sublist pattern (cur_line t) then Inr (Some True, set_tokenizer split t)
       else if end_pattern \<noteq> [] \<and> sublist end_pattern (cur_line t) then Inr (Some False, t)
       else bind_res (next_line trim split False t) (\<lambda>(_, t'). Inr (None, t')))"

fun skip_more :: "(token_error, bool option \<times> tokenizer) res \<Rightarrow> bool" where
  "skip_more (Inr (None, t)) \<longleftrightarrow> \<not> eof t"
| "skip_more _ \<longleftrightarrow> False"

definition skip_to ::
  "(string \<Rightarrow> string) \<Rightarrow> (string \<Rightarrow> string list) \<Rightarrow> string \<Rightarrow> string \<Rightarrow> tokenizer \<Rightarrow> (token_error, bool \<times> tokenizer) res" where
  "skip_to trim split pattern end_pattern t =
     (case while_option skip_more (skip_step trim split pattern end_pattern) (Inr (None, t)) of
        None \<Rightarrow> Inl NoReturn
      | Some r \<Rightarrow> bind_res r (\<lambda>(ans, t'). Inr (ans = Some True, t')))"

definition tokenizer_get_position :: "tokenizer \<Rightarrow> tokenizer \<times> tok_position" where
  "tokenizer_get_position t =
     (let (s, p) = tellg (in_stream t); q = (position t)\<lparr>file_position := p\<rparr>
      in (t\<lparr>in_stream := s, position := q\<rparr>, q))"

definition set_position :: "(string \<Rightarrow> string list) \<Rightarrow> tokenizer \<Rightarrow> tok_position \<Rightarrow> tokenizer" where
  "set_position split t p =
     set_tokenizer split (t\<lparr>in_stream := seekg ((in_stream t)\<lparr>eofbit := False, failbit := False\<rparr>) (file_position p),
                            position := p, cur_line := ''''\<rparr>)"

section \<open>Lines\<close>

definition good :: "istream \<Rightarrow> bool" where
  "good s \<longleftrightarrow> \<not> eofbit s \<and> \<not> failbit s \<and> offset s \<le> length (content s)"

definition ignored :: "(string \<Rightarrow> string) \<Rightarrow> tokenizer \<Rightarrow> string \<Rightarrow> bool" where
  "ignored trim t l \<longleftrightarrow> trim l = '''' \<or> is_comment t (trim l)"

definition terminated :: "string list \<Rightarrow> string" where
  "terminated ls = concat (map (\<lambda>l. l @ [newline]) ls)"

lemma takeWhile_line: "newline \<notin> set l \<Longrightarrow> takeWhile (\<lambda>c. c \<noteq> newline) (l @ newline # r) = l"
  by (induction l) auto

lemma takeWhile_last: "newline \<notin> set l \<Longrightarrow> takeWhile (\<lambda>c. c \<noteq> newline) l = l"
  by (induction l) auto

lemma getline_line:
  assumes "good s" and "rest_of s = l @ newline # r" and "newline \<notin> set l"
  shows "getline s x = (s\<lparr>offset := offset s + length l + 1\<rparr>, l)"
    and "good (s\<lparr>offset := offset s + length l + 1\<rparr>)" and "rest_of (s\<lparr>offset := offset s + length l + 1\<rparr>) = r"
proof -
  show "getline s x = (s\<lparr>offset := offset s + length l + 1\<rparr>, l)"
    using assms by (simp add: getline_def good_def takeWhile_line Let_def)
  have "length (rest_of s) = length l + 1 + length r" using assms(2) by simp
  then show "good (s\<lparr>offset := offset s + length l + 1\<rparr>)"
    using assms(1) by (simp add: good_def rest_of_def)
  have "drop (length l + 1) (rest_of s) = r" using assms(2) by simp
  then show "rest_of (s\<lparr>offset := offset s + length l + 1\<rparr>) = r"
    by (simp add: rest_of_def add.commute add.left_commute)
qed

lemma getline_last:
  assumes "good s" and "newline \<notin> set (rest_of s)"
  shows "getline s x = (s\<lparr>offset := offset s + length (rest_of s), eofbit := True, failbit := (rest_of s = '''')\<rparr>, rest_of s)"
  using assms by (simp add: getline_def good_def takeWhile_last Let_def)

text \<open>One pass of the loop of \<open>next_line\<close>.\<close>

definition read_loop :: "(string \<Rightarrow> string) \<Rightarrow> tokenizer \<Rightarrow> tokenizer option" where
  "read_loop trim = while_option (\<lambda>u. \<not> eof u \<and> cur_line u = '''') (read_step trim)"

lemma read_loop_more: "\<not> eof u \<Longrightarrow> cur_line u = '''' \<Longrightarrow> read_loop trim u = read_loop trim (read_step trim u)"
  unfolding read_loop_def by (subst while_option_unfold) simp

lemma read_loop_done: "eof u \<or> cur_line u \<noteq> '''' \<Longrightarrow> read_loop trim u = Some u"
  unfolding read_loop_def by (subst while_option_unfold) auto

definition after_line :: "(string \<Rightarrow> string) \<Rightarrow> tokenizer \<Rightarrow> istream \<Rightarrow> string \<Rightarrow> tokenizer" where
  "after_line trim t s l =
     t\<lparr>in_stream := s, position := (position t)\<lparr>line_counter := line_counter (position t) + 1\<rparr>,
       cur_line := (if ignored trim t l then '''' else trim l)\<rparr>"

lemma read_step_eq: "getline (in_stream t) (cur_line t) = (s, l) \<Longrightarrow> read_step trim t = after_line trim t s l"
  by (simp add: read_step_def after_line_def ignored_def Let_def)

text \<open>The ignored lines are read over.\<close>

lemma read_loop_ignored:
  assumes "good (in_stream t)" and "rest_of (in_stream t) = terminated skip @ tail" and "cur_line t = ''''"
    and "\<forall>l \<in> set skip. newline \<notin> set l \<and> ignored trim t l"
  shows "\<exists>s. good s \<and> rest_of s = tail \<and> content s = content (in_stream t) \<and> read_loop trim t
    = read_loop trim (t\<lparr>in_stream := s, position := (position t)\<lparr>line_counter := line_counter (position t) + length skip\<rparr>\<rparr>)"
  using assms
proof (induction skip arbitrary: t)
  case Nil
  then show ?case by (intro exI [of _ "in_stream t"]) (simp add: terminated_def)
next
  case (Cons l skip)
  define s1 where "s1 = (in_stream t)\<lparr>offset := offset (in_stream t) + length l + 1\<rparr>"
  have rest: "rest_of (in_stream t) = l @ newline # (terminated skip @ tail)"
    using Cons.prems(2) by (simp add: terminated_def)
  have l: "newline \<notin> set l" "ignored trim t l" using Cons.prems(4) by auto
  note gl = getline_line [OF Cons.prems(1) rest l(1), folded s1_def]
  define t1 where "t1 = after_line trim t s1 l"
  have step: "read_loop trim t = read_loop trim t1"
    using read_loop_more [of t trim] read_step_eq [OF gl(1)] Cons.prems(1,3) by (simp add: eof_def good_def t1_def)
  have t1: "t1 = t\<lparr>in_stream := s1, position := (position t)\<lparr>line_counter := line_counter (position t) + 1\<rparr>\<rparr>"
    using l(2) Cons.prems(3) by (simp add: t1_def after_line_def)
  have "\<exists>s. good s \<and> rest_of s = tail \<and> content s = content (in_stream t1) \<and> read_loop trim t1
    = read_loop trim (t1\<lparr>in_stream := s, position := (position t1)\<lparr>line_counter := line_counter (position t1) + length skip\<rparr>\<rparr>)"
  proof (rule Cons.IH)
    show "good (in_stream t1)" "rest_of (in_stream t1) = terminated skip @ tail" using gl by (simp_all add: t1)
    show "cur_line t1 = ''''" using Cons.prems(3) by (simp add: t1)
    show "\<forall>l \<in> set skip. newline \<notin> set l \<and> ignored trim t1 l"
      using Cons.prems(4) by (simp add: t1 ignored_def is_comment_def)
  qed
  then show ?case by (auto simp: step t1 s1_def)
qed

text \<open>Every rest of a stream is some ignored lines and then a line to return, an unterminated line or the end.\<close>

lemma rest_cases:
  "\<exists>skip tail. cs = terminated skip @ tail \<and> (\<forall>l \<in> set skip. newline \<notin> set l \<and> P l)
     \<and> (newline \<notin> set tail \<or> (\<exists>l r. tail = l @ newline # r \<and> newline \<notin> set l \<and> \<not> P l))"
proof (induction "length cs" arbitrary: cs rule: less_induct)
  case less
  show ?case
  proof (cases "newline \<in> set cs")
    case False
    then show ?thesis by (intro exI [of _ "[]"] exI [of _ cs]) (simp add: terminated_def)
  next
    case True
    then obtain l r where cs: "cs = l @ newline # r" "newline \<notin> set l" by (meson split_list_first)
    show ?thesis
    proof (cases "P l")
      case False
      then show ?thesis using cs by (intro exI [of _ "[]"] exI [of _ cs]) (auto simp: terminated_def)
    next
      case P: True
      obtain skip tail where r: "r = terminated skip @ tail" "\<forall>l \<in> set skip. newline \<notin> set l \<and> P l"
        "newline \<notin> set tail \<or> (\<exists>l r. tail = l @ newline # r \<and> newline \<notin> set l \<and> \<not> P l)"
        using less [of r] cs by auto
      have "cs = terminated (l # skip) @ tail" "\<forall>k \<in> set (l # skip). newline \<notin> set k \<and> P k"
        using r cs P by (simp_all add: terminated_def)
      then show ?thesis using r(3) by blast
    qed
  qed
qed

lemma set_tokenizer_fields [simp]:
  "in_stream (set_tokenizer split t) = in_stream t" "cur_line (set_tokenizer split t) = cur_line t"
  "line_num (set_tokenizer split t) = line_num t" "comment_pattern (set_tokenizer split t) = comment_pattern t"
  "remaining (set_tokenizer split t) = dropWhile (\<lambda>w. w = []) (split (cur_line t))"
  "eof (set_tokenizer split t) = eof t"
  "file_position (position (set_tokenizer split t)) = file_position (position t)"
  by (simp_all add: set_tokenizer_def skip_empty_def line_num_def eof_def)

text \<open>What \<open>next_line\<close> does after the ignored lines, in terms of the last line read.\<close>

lemma next_line_reads:
  assumes g: "good (in_stream t)" and rest: "rest_of (in_stream t) = terminated skip @ tail"
    and skip: "\<forall>l \<in> set skip. newline \<notin> set l \<and> ignored trim t l"
    and getl: "\<And>s x. good s \<Longrightarrow> rest_of s = tail \<Longrightarrow> content s = content (in_stream t) \<Longrightarrow> \<exists>s'. getline s x = (s', l) \<and> Q s'"
    and stop: "\<And>s'. Q s' \<Longrightarrow> eofbit s' \<or> \<not> ignored trim t l"
  shows "\<exists>s' u. Q s' \<and> in_stream u = s' \<and> cur_line u = (if ignored trim t l then '''' else trim l)
    \<and> line_num u = line_num t + length skip + 1 \<and> comment_pattern u = comment_pattern t
    \<and> next_line trim split asrt t = (if \<not> failbit s' then Inr (True, set_tokenizer split u) else Inr (False, u))"
proof -
  define t0 where "t0 = (if asrt \<and> \<not> eol t then t\<lparr>warned := warned t @ [hd (remaining t)]\<rparr> else t)"
  define t1 where "t1 = t0\<lparr>cur_line := ''''\<rparr>"
  have same: "in_stream t1 = in_stream t" "position t1 = position t" "comment_pattern t1 = comment_pattern t" "cur_line t1 = ''''"
    by (simp_all add: t1_def t0_def)
  have ig: "ignored trim u k = ignored trim t k" if "comment_pattern u = comment_pattern t" for u k
    using that by (simp add: ignored_def is_comment_def)
  have skip1: "\<forall>l \<in> set skip. newline \<notin> set l \<and> ignored trim t1 l" using skip ig [OF same(3)] by simp
  obtain s where s: "good s" "rest_of s = tail" "content s = content (in_stream t)"
    and run: "read_loop trim t1
      = read_loop trim (t1\<lparr>in_stream := s, position := (position t1)\<lparr>line_counter := line_counter (position t1) + length skip\<rparr>\<rparr>)"
    using read_loop_ignored [of t1 skip tail trim, unfolded same(1,3)] g rest skip1 same(4) by blast
  define t2 where "t2 = t1\<lparr>in_stream := s, position := (position t1)\<lparr>line_counter := line_counter (position t1) + length skip\<rparr>\<rparr>"
  obtain s' where s': "getline (in_stream t2) (cur_line t2) = (s', l)" "Q s'"
    using getl [OF s] by (auto simp: t2_def)
  define u where "u = after_line trim t2 s' l"
  have u: "in_stream u = s'" "cur_line u = (if ignored trim t l then '''' else trim l)" "line_num u = line_num t + length skip + 1"
    "comment_pattern u = comment_pattern t"
    using same ig [of t2] by (simp_all add: u_def after_line_def t2_def line_num_def)
  have "\<not> eof t2" "cur_line t2 = ''''" using s(1) same by (simp_all add: t2_def eof_def good_def)
  then have "read_loop trim t2 = read_loop trim u"
    using read_loop_more read_step_eq [OF s'(1)] by (simp add: u_def)
  also have "\<dots> = Some u"
    using stop [OF s'(2)] u by (intro read_loop_done) (auto simp: eof_def ignored_def)
  finally have "read_loop trim t1 = Some u" using run by (simp add: t2_def)
  moreover have "\<not> eof t0" using g by (simp add: t0_def eof_def good_def)
  ultimately have "next_line trim split asrt t = (if \<not> failbit s' then Inr (True, set_tokenizer split u) else Inr (False, u))"
    unfolding next_line_def Let_def t0_def [symmetric] t1_def [symmetric] read_loop_def [symmetric] by (simp add: u(1))
  then show ?thesis using u s'(2) by blast
qed

lemma next_line_line:
  assumes "good (in_stream t)" and "rest_of (in_stream t) = terminated skip @ l @ newline # r" and "newline \<notin> set l"
    and "\<forall>l \<in> set skip. newline \<notin> set l \<and> ignored trim t l" and "\<not> ignored trim t l"
  shows "\<exists>t'. next_line trim split asrt t = Inr (True, t') \<and> cur_line t' = trim l
    \<and> remaining t' = dropWhile (\<lambda>w. w = []) (split (trim l)) \<and> line_num t' = line_num t + length skip + 1
    \<and> good (in_stream t') \<and> rest_of (in_stream t') = r \<and> content (in_stream t') = content (in_stream t)
    \<and> comment_pattern t' = comment_pattern t"
proof -
  have "\<exists>s' u. (good s' \<and> rest_of s' = r \<and> content s' = content (in_stream t)) \<and> in_stream u = s'
    \<and> cur_line u = (if ignored trim t l then '''' else trim l)
    \<and> line_num u = line_num t + length skip + 1 \<and> comment_pattern u = comment_pattern t
    \<and> next_line trim split asrt t = (if \<not> failbit s' then Inr (True, set_tokenizer split u) else Inr (False, u))"
    using next_line_reads [OF assms(1,2,4), of l "\<lambda>s'. good s' \<and> rest_of s' = r \<and> content s' = content (in_stream t)"]
      getline_line [OF _ _ assms(3)] assms(5) by auto
  then obtain u where "good (in_stream u)" "rest_of (in_stream u) = r" "content (in_stream u) = content (in_stream t)"
    "cur_line u = trim l" "line_num u = line_num t + length skip + 1" "comment_pattern u = comment_pattern t"
    "next_line trim split asrt t = Inr (True, set_tokenizer split u)"
    using assms(5) by (auto simp: good_def)
  then show ?thesis by (intro exI [of _ "set_tokenizer split u"]) simp
qed

lemma next_line_last:
  assumes "good (in_stream t)" and "rest_of (in_stream t) = terminated skip @ tail" and "newline \<notin> set tail"
    and "\<forall>l \<in> set skip. newline \<notin> set l \<and> ignored trim t l"
  shows "\<exists>t'. next_line trim split asrt t = Inr (tail \<noteq> '''', t') \<and> cur_line t' = (if ignored trim t tail then '''' else trim tail)
    \<and> (tail \<noteq> '''' \<longrightarrow> remaining t' = dropWhile (\<lambda>w. w = []) (split (cur_line t')))
    \<and> line_num t' = line_num t + length skip + 1 \<and> eof t'"
proof -
  have "\<exists>s' u. (eofbit s' \<and> failbit s' = (tail = '''')) \<and> in_stream u = s'
    \<and> cur_line u = (if ignored trim t tail then '''' else trim tail)
    \<and> line_num u = line_num t + length skip + 1 \<and> comment_pattern u = comment_pattern t
    \<and> next_line trim split asrt t = (if \<not> failbit s' then Inr (True, set_tokenizer split u) else Inr (False, u))"
    by (rule next_line_reads [OF assms(1,2,4)]) (use getline_last assms(3) in auto)
  then obtain u where u: "eofbit (in_stream u)" "cur_line u = (if ignored trim t tail then '''' else trim tail)"
    "line_num u = line_num t + length skip + 1"
    "next_line trim split asrt t = (if tail \<noteq> '''' then Inr (True, set_tokenizer split u) else Inr (False, u))"
    by auto
  then show ?thesis
    by (cases "tail = ''''") (auto simp: eof_def)
qed

text \<open>On a good stream \<open>next_line\<close> returns, and consumes input or reaches the end.\<close>

definition left :: "tokenizer \<Rightarrow> nat" where
  "left t = (if eof t then 0 else Suc (length (rest_of (in_stream t))))"

lemma next_line_total:
  assumes "good (in_stream t)"
  shows "\<exists>ok t'. next_line trim split asrt t = Inr (ok, t') \<and> (eof t' \<or> good (in_stream t')) \<and> left t' < left t"
proof -
  obtain skip tail where r: "rest_of (in_stream t) = terminated skip @ tail"
    "\<forall>l \<in> set skip. newline \<notin> set l \<and> ignored trim t l"
    and c: "newline \<notin> set tail \<or> (\<exists>l r. tail = l @ newline # r \<and> newline \<notin> set l \<and> \<not> ignored trim t l)"
    using rest_cases [of "rest_of (in_stream t)" "ignored trim t"] by blast
  have ne: "\<not> eof t" using assms by (simp add: good_def eof_def)
  from c show ?thesis
  proof
    assume "newline \<notin> set tail"
    from next_line_last [OF assms r(1) this r(2)] obtain t' where "next_line trim split asrt t = Inr (tail \<noteq> [], t')" "eof t'"
      by blast
    then show ?thesis using ne by (intro exI [of _ "tail \<noteq> []"] exI [of _ t']) (simp add: left_def)
  next
    assume "\<exists>l r. tail = l @ newline # r \<and> newline \<notin> set l \<and> \<not> ignored trim t l"
    then obtain l r' where l: "tail = l @ newline # r'" "newline \<notin> set l" "\<not> ignored trim t l" by blast
    have "rest_of (in_stream t) = terminated skip @ l @ newline # r'" using r(1) l(1) by simp
    from next_line_line [OF assms this l(2) r(2) l(3)] obtain t' where
      "next_line trim split asrt t = Inr (True, t')" "good (in_stream t')" "rest_of (in_stream t') = r'" by blast
    then show ?thesis
      using ne r(1) l(1) by (intro exI [of _ True] exI [of _ t']) (simp add: left_def)
  qed
qed

section \<open>Positions\<close>

lemma failed_stream_hangs:
  assumes "failbit (in_stream t)" and "\<not> eofbit (in_stream t)" and trim: "trim '''' = ''''"
  shows "next_line trim split asrt t = Inl NoReturn"
proof -
  let ?I = "\<lambda>u. failbit (in_stream u) \<and> \<not> eofbit (in_stream u) \<and> cur_line u = ''''"
  have step: "?I (read_step trim u)" if "?I u" for u
    using that trim by (auto simp: read_step_def getline_def Let_def)
  have "while_option (\<lambda>u. \<not> eof u \<and> cur_line u = '''') (read_step trim) v = None" if v: "?I v" for v
  proof (rule ccontr)
    assume "while_option (\<lambda>u. \<not> eof u \<and> cur_line u = '''') (read_step trim) v \<noteq> None"
    then obtain u where u: "while_option (\<lambda>u. \<not> eof u \<and> cur_line u = '''') (read_step trim) v = Some u" by blast
    have "?I u" by (rule while_option_rule [where P = ?I, OF _ u v]) (use step in blast)
    then show False using while_option_stop [OF u] by (simp add: eof_def)
  qed
  then show ?thesis using assms by (simp add: next_line_def Let_def eof_def)
qed

lemma set_position_fields:
  assumes "file_position p = Some k" and "k \<le> length (content (in_stream t))"
  shows "in_stream (set_position split t p) = \<lparr>content = content (in_stream t), offset = k, eofbit = False, failbit = False\<rparr>"
    and "comment_pattern (set_position split t p) = comment_pattern t" and "line_num (set_position split t p) = line_counter p"
  using assms by (simp_all add: set_position_def seekg_def line_num_def set_tokenizer_def skip_empty_def)

text \<open>The line read next depends only on the stream, the comment pattern and the line counter.\<close>

lemma next_line_determined:
  assumes g: "good (in_stream t)" and same: "in_stream u = in_stream t" "comment_pattern u = comment_pattern t" "line_num u = line_num t"
  shows "\<exists>ok t' u'. next_line trim split a t = Inr (ok, t') \<and> next_line trim split b u = Inr (ok, u')
    \<and> cur_line u' = cur_line t' \<and> line_num u' = line_num t' \<and> (ok \<longrightarrow> remaining u' = remaining t')"
proof -
  obtain skip tail where r: "rest_of (in_stream t) = terminated skip @ tail"
    "\<forall>l \<in> set skip. newline \<notin> set l \<and> ignored trim t l"
    and c: "newline \<notin> set tail \<or> (\<exists>l r. tail = l @ newline # r \<and> newline \<notin> set l \<and> \<not> ignored trim t l)"
    using rest_cases [of "rest_of (in_stream t)" "ignored trim t"] by blast
  have ig: "ignored trim u = ignored trim t" using same(2) by (simp add: fun_eq_iff ignored_def is_comment_def)
  have u: "good (in_stream u)" "rest_of (in_stream u) = terminated skip @ tail" "\<forall>l \<in> set skip. newline \<notin> set l \<and> ignored trim u l"
    using g r by (simp_all add: same(1) ig)
  from c show ?thesis
  proof
    assume n: "newline \<notin> set tail"
    show ?thesis
      using next_line_last [OF g r(1) n r(2), of split a] next_line_last [OF u(1,2) n u(3), of split b] same(3) ig by metis
  next
    assume "\<exists>l r. tail = l @ newline # r \<and> newline \<notin> set l \<and> \<not> ignored trim t l"
    then obtain l r' where l: "tail = l @ newline # r'" "newline \<notin> set l" "\<not> ignored trim t l" by blast
    have "\<not> ignored trim u l" using l(3) ig by simp
    from next_line_line [OF g r(1) [unfolded l(1)] l(2) r(2) l(3), of split a]
      next_line_line [OF u(1) u(2) [unfolded l(1)] l(2) u(3) this, of split b]
    show ?thesis using same(3) by metis
  qed
qed

section \<open>Search for a line\<close>

fun skip_inv :: "string \<Rightarrow> (token_error, bool option \<times> tokenizer) res \<Rightarrow> bool" where
  "skip_inv pat (Inr (None, t)) \<longleftrightarrow> eof t \<or> good (in_stream t)"
| "skip_inv pat (Inr (Some a, t)) \<longleftrightarrow> (a \<longrightarrow> sublist pat (cur_line t))"
| "skip_inv pat (Inl e) \<longleftrightarrow> False"

fun skip_measure :: "(token_error, bool option \<times> tokenizer) res \<Rightarrow> nat" where
  "skip_measure (Inr (None, t)) = Suc (left t)"
| "skip_measure _ = 0"

lemma skip_step_ok:
  assumes "skip_inv pat r" and "skip_more r"
  shows "skip_inv pat (skip_step trim split pat ep r) \<and> skip_measure (skip_step trim split pat ep r) < skip_measure r"
proof -
  obtain t where r: "r = Inr (None, t)" "\<not> eof t" using assms(2) by (cases r rule: skip_more.cases) auto
  then have g: "good (in_stream t)" using assms(1) by simp
  from next_line_total [OF g] obtain ok t' where
    "next_line trim split False t = Inr (ok, t')" "eof t' \<or> good (in_stream t')" "left t' < left t" by blast
  then show ?thesis by (auto simp: skip_step_def r)
qed

lemma skip_to_returns:
  assumes "good (in_stream t)"
  shows "\<exists>found t'. skip_to trim split pat ep t = Inr (found, t') \<and> (found \<longrightarrow> sublist pat (cur_line t'))"
proof -
  let ?w = "while_option skip_more (skip_step trim split pat ep) (Inr (None, t))"
  have init: "skip_inv pat (Inr (None, t))" using assms by simp
  obtain r where r: "?w = Some r"
    using measure_while_option_Some [where P = "skip_inv pat" and f = skip_measure and b = skip_more
        and c = "skip_step trim split pat ep", OF skip_step_ok init] by auto
  have inv: "skip_inv pat r"
    by (rule while_option_rule [where P = "skip_inv pat", OF _ r init]) (use skip_step_ok in blast)
  then show ?thesis
    using r by (cases r rule: skip_more.cases) (auto simp: skip_to_def)
qed

lemma skip_to_misses_last_line:
  assumes "good (in_stream t)" and "newline \<notin> set (rest_of (in_stream t))" and "\<not> sublist pat (cur_line t)"
  shows "\<exists>t'. skip_to trim split pat [] t = Inr (False, t')"
proof -
  have "rest_of (in_stream t) = terminated [] @ rest_of (in_stream t)" by (simp add: terminated_def)
  from next_line_last [OF assms(1) this assms(2), of trim split False] obtain ok t' where
    t': "next_line trim split False t = Inr (ok, t')" "eof t'" by auto
  have "\<not> eof t" using assms(1) by (simp add: good_def eof_def)
  then have "while_option skip_more (skip_step trim split pat []) (Inr (None, t))
      = while_option skip_more (skip_step trim split pat []) (Inr (None, t'))"
    using t' assms(3) by (subst while_option_unfold) (simp add: skip_step_def)
  also have "\<dots> = Some (Inr (None, t'))" using t'(2) by (subst while_option_unfold) simp
  finally show ?thesis by (simp add: skip_to_def)
qed

section \<open>Properties\<close>



text \<open>
  C27. A position taken while the stream is good and set again later, after any reading of the
  same file, restores the reading: the next line is the one that would have been read
  then, with the same number and tokens. A position taken at the end of the file does not: after it
  is set, the next call of \<open>next_line\<close> does not return.
\<close>

theorem position_restored:
  assumes "content (in_stream u) = content (in_stream t)" and "comment_pattern u = comment_pattern t" and trim: "trim '''' = ''''"
  shows "(good (in_stream t) \<longrightarrow>
      (\<exists>ok t' u'. next_line trim split a t = Inr (ok, t')
         \<and> next_line trim split b (set_position split u (snd (tokenizer_get_position t))) = Inr (ok, u')
         \<and> cur_line u' = cur_line t' \<and> line_num u' = line_num t' \<and> (ok \<longrightarrow> remaining u' = remaining t')))
    \<and> (eof t \<longrightarrow> next_line trim split b (set_position split u (snd (tokenizer_get_position t))) = Inl NoReturn)"
proof (intro conjI impI)
  define p where "p = snd (tokenizer_get_position t)"
  have lc: "line_counter p = line_num t" by (simp add: p_def tokenizer_get_position_def line_num_def Let_def split: prod.splits)
  {
    assume g: "good (in_stream t)"
    then have k: "file_position p = Some (offset (in_stream t))" "offset (in_stream t) \<le> length (content (in_stream u))"
      using assms(1) by (simp_all add: p_def tokenizer_get_position_def tellg_def good_def Let_def)
    have "in_stream (set_position split u p) = in_stream t"
      using set_position_fields(1) [OF k] assms(1) g by (simp add: good_def)
    then show "\<exists>ok t' u'. next_line trim split a t = Inr (ok, t') \<and> next_line trim split b (set_position split u p) = Inr (ok, u')
        \<and> cur_line u' = cur_line t' \<and> line_num u' = line_num t' \<and> (ok \<longrightarrow> remaining u' = remaining t')"
      using next_line_determined [OF g] set_position_fields(2,3) [OF k] assms(2) lc by simp
  next
    assume "eof t"
    then have "file_position p = None" by (simp add: p_def tokenizer_get_position_def tellg_def eof_def Let_def)
    then show "next_line trim split b (set_position split u p) = Inl NoReturn"
      using trim by (intro failed_stream_hangs) (simp_all add: set_position_def seekg_def)
  }
qed

text \<open>Reading two lines, going back behind the first and reading the second again.\<close>

theorem position_restored_witness:
  "\<exists>ok t' u'. next_line (\<lambda>l. l) (\<lambda>l. [l]) True (new_tokenizer (open_stream ''a'')) = Inr (ok, t')
    \<and> next_line (\<lambda>l. l) (\<lambda>l. [l]) True (set_position (\<lambda>l. [l]) (new_tokenizer (open_stream ''a''))
        (snd (tokenizer_get_position (new_tokenizer (open_stream ''a''))))) = Inr (ok, u') \<and> cur_line u' = cur_line t'"
proof -
  have "good (in_stream (new_tokenizer (open_stream ''a'')))" by (simp add: new_tokenizer_def open_stream_def good_def)
  then show ?thesis using position_restored [OF refl refl, of "\<lambda>l. l"] by blast
qed

text \<open>
  \<open>skip_to\<close> returns on every good stream, and when it answers true the current line
  contains the pattern. It does not look at the last line of a file without a final newline: whatever
  that line holds, the answer is false.
\<close>

theorem skip_to_correct:
  assumes "good (in_stream t)"
  shows "(\<exists>found t'. skip_to trim split pat ep t = Inr (found, t') \<and> (found \<longrightarrow> sublist pat (cur_line t')))
    \<and> (newline \<notin> set (rest_of (in_stream t)) \<and> \<not> sublist pat (cur_line t) \<longrightarrow>
         (\<exists>t'. skip_to trim split pat [] t = Inr (False, t')))"
  using skip_to_returns [OF assms, of trim split pat ep] skip_to_misses_last_line [OF assms, of pat trim split] by blast

text \<open>The only line of the file is the pattern, and it is not found.\<close>

theorem skip_to_correct_witness:
  "\<exists>t'. skip_to (\<lambda>l. l) (\<lambda>l. [l]) ''a'' [] (new_tokenizer (open_stream ''a'')) = Inr (False, t')"
proof -
  have "good (in_stream (new_tokenizer (open_stream ''a'')))" "newline \<notin> set (rest_of (in_stream (new_tokenizer (open_stream ''a''))))"
    "\<not> sublist ''a'' (cur_line (new_tokenizer (open_stream ''a'')))"
    by (simp_all add: new_tokenizer_def open_stream_def good_def rest_of_def newline_def)
  then show ?thesis using skip_to_correct by blast
qed

end
