(* ===== verification/Element_Cache.thy ===== *)
theory Element_Cache
  imports Tokenizer Ideal_Double Distribution
begin

text \<open>
  The cache of values on elements and nodes, \<open>ElementDataCache\<close> of \<open>src/src/io/element_data_cache.cc\<close>. The
  cache is a template over the type of its values; the operations that only move values are
  polymorphic here, those that compute are given for \<open>double\<close>. Indices are natural numbers (the products
  of the code are assumed to fit in 32 bits), an access behind the end of a vector is an error. The
  printing, the binary reading and the data types of MPI and VTK are not modelled.
\<close>

section \<open>Caches\<close>

datatype cache_error =
    CacheRange nat nat
  | CacheAssert
  | CacheToken token_error
  | CacheCast nat nat

datatype check_scale_data = Scale_None | Scale_Check | Scale_Scale

datatype check_result = Check_Ok | Check_Limits | Check_NaN

text \<open>The input caches do not set the numbers of values and components, and nothing reads them there.\<close>

record 'a data_cache =
  cache_time :: double
  field_input_name :: string
  n_values :: nat
  n_comp :: nat
  cache_data :: "'a list list"
  scale_state :: check_scale_data

definition create_data_cache :: "'a \<Rightarrow> nat \<Rightarrow> nat \<Rightarrow> 'a list list" where
  "create_data_cache nan size_of_cache row_vec_size = replicate size_of_cache (replicate row_vec_size nan)"

definition empty_cache :: "'a data_cache" where
  "empty_cache = \<lparr>cache_time = MInf, field_input_name = '''', n_values = 0, n_comp = 0, cache_data = [],
     scale_state = Scale_None\<rparr>"

definition input_cache :: "'a \<Rightarrow> string \<Rightarrow> double \<Rightarrow> nat \<Rightarrow> nat \<Rightarrow> 'a data_cache" where
  "input_cache nan name t size_of_cache row_vec_size =
     \<lparr>cache_time = t, field_input_name = name, n_values = 0, n_comp = 0,
      cache_data = create_data_cache nan size_of_cache row_vec_size, scale_state = Scale_None\<rparr>"

definition output_cache :: "'a \<Rightarrow> string \<Rightarrow> nat \<Rightarrow> nat \<Rightarrow> (cache_error, 'a data_cache) res" where
  "output_cache nan name nc n =
     (if 0 < nc
      then Inr \<lparr>cache_time = MInf, field_input_name = name, n_values = n, n_comp = nc,
                cache_data = create_data_cache nan 1 (n * nc), scale_state = Scale_None\<rparr>
      else Inl CacheAssert)"

definition is_actual :: "'a data_cache \<Rightarrow> double \<Rightarrow> string \<Rightarrow> bool" where
  "is_actual c t name \<longleftrightarrow> deq (cache_time c) t \<and> field_input_name c = name"

definition get_component_data :: "'a data_cache \<Rightarrow> nat \<Rightarrow> (cache_error, 'a list) res" where
  "get_component_data c i = (if i < length (cache_data c) then Inr (cache_data c ! i) else Inl CacheAssert)"

definition put_value :: "'a list \<Rightarrow> nat \<Rightarrow> 'a \<Rightarrow> (cache_error, 'a list) res" where
  "put_value vec i x = (if i < length vec then Inr (vec[i := x]) else Inl (CacheRange i (length vec)))"

section \<open>Reading a row\<close>

text \<open>One value: \<open>parse\<close> stands for the conversion of a token.\<close>

definition read_value ::
  "(string \<Rightarrow> 'a option) \<Rightarrow> 'a list \<times> tokenizer \<Rightarrow> nat \<Rightarrow> (cache_error, 'a list \<times> tokenizer) res" where
  "read_value parse st i =
     bind_res (map_err CacheToken (cur_token (snd st))) (\<lambda>w.
       case parse w of None \<Rightarrow> Inl (CacheCast (line_num (snd st)) (pos (snd st)))
       | Some x \<Rightarrow> bind_res (put_value (fst st) i x) (\<lambda>vec. Inr (vec, next_token (snd st))))"

definition read_ascii_vec ::
  "(string \<Rightarrow> 'a option) \<Rightarrow> nat \<Rightarrow> nat \<Rightarrow> 'a list list \<times> tokenizer \<Rightarrow> nat \<Rightarrow> (cache_error, 'a list list \<times> tokenizer) res" where
  "read_ascii_vec parse n_components i_row st i_vec =
     bind_res (fold_res (read_value parse) (fst st ! i_vec, snd st) [i_row * n_components..<i_row * n_components + n_components])
       (\<lambda>(vec, t). Inr ((fst st)[i_vec := vec], t))"

definition read_ascii_data ::
  "(string \<Rightarrow> 'a option) \<Rightarrow> nat \<Rightarrow> nat \<Rightarrow> 'a data_cache \<times> tokenizer \<Rightarrow> (cache_error, 'a data_cache \<times> tokenizer) res" where
  "read_ascii_data parse n_components i_row ct =
     bind_res (fold_res (read_ascii_vec parse n_components i_row) (cache_data (fst ct), snd ct) [0..<length (cache_data (fst ct))])
       (\<lambda>(data, t). Inr ((fst ct)\<lparr>cache_data := data\<rparr>, t))"

section \<open>Values at an index\<close>

text \<open>The loop over the components of one index, and the operations that have it.\<close>

definition each_component :: "'a data_cache \<Rightarrow> nat \<Rightarrow> (nat \<Rightarrow> 'a \<Rightarrow> 'a) \<Rightarrow> (cache_error, 'a data_cache) res" where
  "each_component c idx f =
     bind_res (get_component_data c 0) (\<lambda>vec0.
     bind_res (fold_res (\<lambda>vec i. if idx * n_comp c + i < length vec
                             then put_value vec (idx * n_comp c + i) (f i (vec ! (idx * n_comp c + i)))
                             else Inl (CacheRange (idx * n_comp c + i) (length vec))) vec0 [0..<n_comp c])
       (\<lambda>vec. Inr (c\<lparr>cache_data := (cache_data c)[0 := vec]\<rparr>)))"

definition store_value :: "'a data_cache \<Rightarrow> nat \<Rightarrow> (nat \<Rightarrow> 'a) \<Rightarrow> (cache_error, 'a data_cache) res" where
  "store_value c idx v = each_component c idx (\<lambda>i x. v i)"

definition cache_add :: "double data_cache \<Rightarrow> nat \<Rightarrow> (nat \<Rightarrow> double) \<Rightarrow> (cache_error, double data_cache) res" where
  "cache_add c idx v = each_component c idx (\<lambda>i x. x + v i)"

definition zero_value :: "double data_cache \<Rightarrow> nat \<Rightarrow> (cache_error, double data_cache) res" where
  "zero_value c idx = each_component c idx (\<lambda>i x. 0)"

definition normalize_value :: "double data_cache \<Rightarrow> nat \<Rightarrow> nat \<Rightarrow> (cache_error, double data_cache) res" where
  "normalize_value c idx divisor = each_component c idx (\<lambda>i x. divide_class.divide x (Fin (real divisor)))"

section \<open>Range, check and scaling\<close>

text \<open>\<open>numeric_limits<double>::max()\<close> and \<open>numeric_limits<double>::min()\<close>; the second is the smallest positive normal number.\<close>

definition double_max :: double where
  "double_max = Fin ((2 - 1 / 2 ^ 52) * 2 ^ 1023)"

definition double_min :: double where
  "double_min = Fin (1 / 2 ^ 1022)"

definition range_step :: "double \<times> double \<Rightarrow> double \<Rightarrow> double \<times> double" where
  "range_step mm x = (if x < fst mm then x else fst mm, if snd mm < x then x else snd mm)"

definition get_min_max_range :: "double data_cache \<Rightarrow> (cache_error, double \<times> double) res" where
  "get_min_max_range c =
     bind_res (get_component_data c 0) (\<lambda>vec.
       if n_comp c * n_values c \<le> length vec
       then Inr (foldl range_step (double_max, double_min) (take (n_comp c * n_values c) vec))
       else Inl (CacheRange (length vec) (length vec)))"

definition checked_value :: "double \<Rightarrow> double \<Rightarrow> double" where
  "checked_value default_val x = (if x = NaN \<and> default_val \<noteq> NaN then default_val else x)"

definition check_values ::
  "double data_cache \<Rightarrow> double \<Rightarrow> double \<Rightarrow> double \<Rightarrow> check_result \<times> double data_cache" where
  "check_values c default_val lower upper =
     (if scale_state c \<noteq> Scale_None then (Check_Ok, c)
      else let data = map (map (checked_value default_val)) (cache_data c);
               is_nan = (\<exists>vec \<in> set (cache_data c). \<exists>x \<in> set vec. x = NaN \<and> default_val = NaN);
               out_of_limit = (\<exists>vec \<in> set data. \<exists>x \<in> set vec. x < lower \<or> upper < x)
           in (if is_nan then Check_NaN else if out_of_limit then Check_Limits else Check_Ok,
               c\<lparr>cache_data := data, scale_state := Scale_Check\<rparr>))"

definition scale_data :: "double data_cache \<Rightarrow> double \<Rightarrow> double data_cache" where
  "scale_data c coef =
     (if scale_state c = Scale_Scale then c
      else c\<lparr>cache_data := map (map (\<lambda>x. x * coef)) (cache_data c), scale_state := Scale_Scale\<rparr>)"

definition check_and_scale ::
  "double data_cache \<Rightarrow> double \<Rightarrow> double \<Rightarrow> double \<Rightarrow> double \<Rightarrow> check_result \<times> double data_cache" where
  "check_and_scale c coef default_val lower upper =
     (let (r, c') = check_values c default_val lower upper in (r, scale_data c' coef))"

section \<open>Rearranging\<close>

text \<open>One value moved from a vector to another, and the values of one index.\<close>

definition move_value :: "'a list \<Rightarrow> 'a list \<Rightarrow> nat \<times> nat \<Rightarrow> (cache_error, 'a list) res" where
  "move_value src out m =
     (if fst m < length out \<and> snd m < length src then Inr (out[fst m := src ! snd m]) else Inl CacheAssert)"

definition move_values :: "nat \<Rightarrow> 'a list \<Rightarrow> 'a list \<Rightarrow> nat \<times> nat \<Rightarrow> (cache_error, 'a list) res" where
  "move_values nc src out m =
     fold_res (\<lambda>out i. move_value src out (fst m * nc + i, snd m * nc + i)) out [0..<nc]"

text \<open>The loop over the nodes of one element; the counter of the connectivity goes on over the elements.\<close>

definition fixed_size_element ::
  "nat \<Rightarrow> 'a list \<Rightarrow> 'a list \<times> nat \<Rightarrow> nat \<times> nat \<Rightarrow> (cache_error, 'a list \<times> nat) res" where
  "fixed_size_element nc src st e =
     bind_res (fold_res (\<lambda>out i_conn. move_values nc src out (4 * fst e + (i_conn - snd st), i_conn)) (fst st) [snd st..<snd e])
       (\<lambda>out. Inr (out, max (snd st) (snd e)))"

definition optimize_size_element ::
  "nat \<Rightarrow> 'a list \<Rightarrow> 'a list \<times> nat \<Rightarrow> nat \<times> nat \<Rightarrow> (cache_error, 'a list \<times> nat) res" where
  "optimize_size_element nc src st e =
     bind_res (fold_res (\<lambda>out i_conn. move_values nc src out (i_conn, 4 * fst e + (i_conn - snd st))) (fst st) [snd st..<snd e])
       (\<lambda>out. Inr (out, max (snd st) (snd e)))"

definition element_node_cache_fixed_size ::
  "'a::zero \<Rightarrow> 'a data_cache \<Rightarrow> nat list \<Rightarrow> (cache_error, 'a data_cache) res" where
  "element_node_cache_fixed_size nan c offset_vec =
     bind_res (output_cache nan (field_input_name c) (4 * n_comp c) (length offset_vec)) (\<lambda>c'.
     bind_res (get_component_data c 0) (\<lambda>src.
     bind_res (fold_res (fixed_size_element (n_comp c) src) (replicate (length offset_vec * (4 * n_comp c)) 0, 0)
         (zip [0..<length offset_vec] offset_vec)) (\<lambda>(out, i_conn).
       Inr (c'\<lparr>cache_data := [out]\<rparr>))))"

text \<open>The last offset of an empty vector does not exist.\<close>

definition element_node_cache_optimize_size ::
  "'a \<Rightarrow> 'a data_cache \<Rightarrow> nat list \<Rightarrow> (cache_error, 'a data_cache) res" where
  "element_node_cache_optimize_size nan c offset_vec =
     (if offset_vec = [] then Inl (CacheRange 0 0)
      else bind_res (output_cache nan (field_input_name c) (n_comp c div 4) (last offset_vec)) (\<lambda>c'.
        bind_res (get_component_data c' 0) (\<lambda>out0.
        bind_res (get_component_data c 0) (\<lambda>src.
        bind_res (fold_res (optimize_size_element (n_comp c') src) (out0, 0) (zip [0..<length offset_vec] offset_vec)) (\<lambda>(out, i_conn).
          Inr (c'\<lparr>cache_data := [out]\<rparr>))))))"

section \<open>Averages at nodes\<close>

definition add_node_value ::
  "double data_cache \<Rightarrow> double data_cache \<times> nat list \<Rightarrow> nat \<times> nat \<Rightarrow> (cache_error, double data_cache \<times> nat list) res" where
  "add_node_value c st m =
     bind_res (get_component_data c 0) (\<lambda>src.
       if snd m < n_values (fst st) \<and> n_comp c * fst m < length src
       then bind_res (cache_add (fst st) (snd m) (\<lambda>i. src ! (n_comp c * fst m + i))) (\<lambda>c'.
              Inr (c', (snd st)[snd m := snd st ! snd m + 1]))
       else Inl CacheAssert)"

definition compute_node_data ::
  "double data_cache \<Rightarrow> nat list \<Rightarrow> nat \<Rightarrow> (cache_error, double data_cache) res" where
  "compute_node_data c conn_vec data_size =
     (if length conn_vec \<noteq> n_values c then Inl CacheAssert
      else bind_res (output_cache NaN (field_input_name c) (n_comp c) data_size) (\<lambda>c0.
        bind_res (fold_res zero_value c0 [0..<data_size]) (\<lambda>c1.
        bind_res (fold_res (add_node_value c) (c1, replicate data_size 0) (zip [0..<length conn_vec] conn_vec)) (\<lambda>(c2, counts).
          fold_res (\<lambda>c idx. normalize_value c idx (counts ! idx)) c2 [0..<data_size]))))"

section \<open>Gathering\<close>

text \<open>
  \<open>gather\<close>: the root receives the maps to global indices and the values of all processes, each at the
  beginning of the block of its process, which is one behind the other in the order of processes.
\<close>

definition gather_cache ::
  "'a \<Rightarrow> string \<Rightarrow> nat \<Rightarrow> nat list list \<Rightarrow> 'a list list \<Rightarrow> (cache_error, 'a data_cache) res" where
  "gather_cache nan name nc local_to_global local_data =
     (let rec_indices_ids = concat local_to_global; rec_data = concat local_data; n_global_data = length rec_indices_ids in
      bind_res (output_cache nan name nc n_global_data) (\<lambda>c.
      bind_res (get_component_data c 0) (\<lambda>out0.
      bind_res (fold_res (\<lambda>out i. move_values nc rec_data out (rec_indices_ids ! i, i)) out0 [0..<n_global_data]) (\<lambda>out.
        Inr (c\<lparr>cache_data := [out]\<rparr>)))))"

section \<open>Moves\<close>

lemma fold_res_concat: "fold_res (\<lambda>s x. fold_res f s (g x)) s xs = fold_res f s (concat (map g xs))"
  by (induction xs arbitrary: s) (simp_all add: fold_res_append)

lemma fold_res_map_list: "fold_res f s (map g xs) = fold_res (\<lambda>s x. f s (g x)) s xs"
  by (induction xs arbitrary: s) simp_all

lemma moves_done:
  assumes "\<forall>m \<in> set ms. fst m < length out \<and> snd m < length src" and "distinct (map fst ms)"
  shows "\<exists>out'. fold_res (move_value src) out ms = Inr out' \<and> length out' = length out
    \<and> (\<forall>m \<in> set ms. out' ! fst m = src ! snd m) \<and> (\<forall>i. i \<notin> fst ` set ms \<longrightarrow> out' ! i = out ! i)"
  using assms
proof (induction ms arbitrary: out)
  case Nil
  then show ?case by simp
next
  case (Cons m ms)
  define out1 where "out1 = out[fst m := src ! snd m]"
  have m: "fst m < length out" "snd m < length src" using Cons.prems(1) by simp_all
  have "\<exists>out'. fold_res (move_value src) out1 ms = Inr out' \<and> length out' = length out1
    \<and> (\<forall>m \<in> set ms. out' ! fst m = src ! snd m) \<and> (\<forall>i. i \<notin> fst ` set ms \<longrightarrow> out' ! i = out1 ! i)"
    by (rule Cons.IH) (use Cons.prems in \<open>simp_all add: out1_def\<close>)
  then obtain out' where o: "fold_res (move_value src) out1 ms = Inr out'" "length out' = length out"
    "\<forall>m \<in> set ms. out' ! fst m = src ! snd m" "\<forall>i. i \<notin> fst ` set ms \<longrightarrow> out' ! i = out1 ! i"
    by (auto simp: out1_def)
  have "fst m \<notin> fst ` set ms" using Cons.prems(2) by simp
  then have "out' ! fst m = src ! snd m" using o(4) m by (simp add: out1_def)
  moreover have "out' ! i = out ! i" if "i \<notin> fst ` set (m # ms)" for i
    using that o(4) by (simp add: out1_def)
  moreover have "fold_res (move_value src) out (m # ms) = Inr out'"
    using o(1) m by (simp add: move_value_def out1_def)
  ultimately show ?case using o(2,3) by (intro exI [of _ out'] conjI ballI allI impI) auto
qed

definition value_moves :: "nat \<Rightarrow> nat \<times> nat \<Rightarrow> (nat \<times> nat) list" where
  "value_moves nc m = map (\<lambda>i. (fst m * nc + i, snd m * nc + i)) [0..<nc]"

definition all_moves :: "nat \<Rightarrow> (nat \<times> nat) list \<Rightarrow> (nat \<times> nat) list" where
  "all_moves nc ms = concat (map (value_moves nc) ms)"

lemma move_values_eq: "move_values nc src out m = fold_res (move_value src) out (value_moves nc m)"
  by (simp add: move_values_def value_moves_def fold_res_map_list)

lemma fold_move_values: "fold_res (move_values nc src) out ms = fold_res (move_value src) out (all_moves nc ms)"
proof -
  have e: "move_values nc src = (\<lambda>out m. fold_res (move_value src) out (value_moves nc m))"
    by (simp add: fun_eq_iff move_values_eq)
  show ?thesis unfolding e by (simp add: fold_res_concat all_moves_def)
qed

lemma all_moves_swap: "all_moves nc (map prod.swap ms) = map prod.swap (all_moves nc ms)"
  by (induction ms) (simp_all add: all_moves_def value_moves_def)

lemma set_all_moves: "set (all_moves nc ms) = {(d * nc + i, s * nc + i) | d s i. (d, s) \<in> set ms \<and> i < nc}"
  by (force simp: all_moves_def value_moves_def)

lemma row_quotient:
  fixes d i nc :: nat
  assumes "i < nc"
  shows "(d * nc + i) div nc = d"
proof -
  have "(i + d * nc) div nc = d" using assms by simp
  then show ?thesis by (simp add: add.commute)
qed

lemma distinct_all_moves:
  assumes "distinct (map fst ms)"
  shows "distinct (map fst (all_moves nc ms))"
  using assms
proof (induction ms)
  case Nil
  then show ?case by (simp add: all_moves_def)
next
  case (Cons m ms)
  have e: "map fst (all_moves nc (m # ms)) = map (\<lambda>i. fst m * nc + i) [0..<nc] @ map fst (all_moves nc ms)"
    by (simp add: all_moves_def value_moves_def o_def)
  have "distinct (map (\<lambda>i. fst m * nc + i) [0..<nc])" by (simp add: distinct_map inj_on_def)
  moreover have "set (map (\<lambda>i. fst m * nc + i) [0..<nc]) \<inter> set (map fst (all_moves nc ms)) = {}"
  proof (rule ccontr)
    assume "set (map (\<lambda>i. fst m * nc + i) [0..<nc]) \<inter> set (map fst (all_moves nc ms)) \<noteq> {}"
    then obtain x i where x: "x = fst m * nc + i" "i < nc" "x \<in> fst ` set (all_moves nc ms)"
      unfolding disjoint_iff set_map by force
    then obtain d s j where j: "x = d * nc + j" "(d, s) \<in> set ms" "j < nc" unfolding set_all_moves by auto
    have "fst m = d" using x(1,2) j(1,3) row_quotient by metis
    then have "fst m \<in> set (map fst ms)" using j(2) by (metis fst_conv image_eqI list.set_map)
    then show False using Cons.prems by simp
  qed
  ultimately show ?case unfolding e using Cons by (simp only: distinct_append) simp
qed

lemma row_bound:
  fixes d n i nc :: nat
  assumes "d < n" and "i < nc"
  shows "d * nc + i < n * nc"
proof -
  have "d * nc + i < (d + 1) * nc" using assms(2) by simp
  also have "\<dots> \<le> n * nc" using assms(1) by (intro mult_right_mono) auto
  finally show ?thesis .
qed

text \<open>Moves of whole indices that stay in range and do not meet.\<close>

lemma index_moves_done:
  assumes "\<forall>m \<in> set ms. fst m < n \<and> snd m < k" and "distinct (map fst ms)"
    and "length out = n * nc" and "length src = k * nc"
  shows "\<exists>out'. fold_res (move_values nc src) out ms = Inr out' \<and> length out' = n * nc
    \<and> (\<forall>d s i. (d, s) \<in> set ms \<and> i < nc \<longrightarrow> out' ! (d * nc + i) = src ! (s * nc + i))
    \<and> (\<forall>d i. d \<notin> fst ` set ms \<and> i < nc \<longrightarrow> out' ! (d * nc + i) = out ! (d * nc + i))"
proof -
  have "\<forall>m \<in> set (all_moves nc ms). fst m < length out \<and> snd m < length src"
    using assms(1,3,4) row_bound by (fastforce simp: set_all_moves)
  from moves_done [OF this distinct_all_moves [OF assms(2)]] obtain out' where
    o: "fold_res (move_values nc src) out ms = Inr out'" "length out' = n * nc"
    "\<forall>m \<in> set (all_moves nc ms). out' ! fst m = src ! snd m"
    "\<forall>i. i \<notin> fst ` set (all_moves nc ms) \<longrightarrow> out' ! i = out ! i"
    using assms(3) by (auto simp: fold_move_values)
  have "out' ! (d * nc + i) = src ! (s * nc + i)" if "(d, s) \<in> set ms" "i < nc" for d s i
    using bspec [OF o(3), of "(d * nc + i, s * nc + i)"] that by (auto simp: set_all_moves)
  moreover have "out' ! (d * nc + i) = out ! (d * nc + i)" if "d \<notin> fst ` set ms" "i < nc" for d i
  proof -
    have "d * nc + i \<notin> fst ` set (all_moves nc ms)"
    proof
      assume "d * nc + i \<in> fst ` set (all_moves nc ms)"
      then obtain d' s j where "d * nc + i = d' * nc + j" "(d', s) \<in> set ms" "j < nc" unfolding set_all_moves by auto
      then have "d = d'" "(d', s) \<in> set ms" using that(2) row_quotient by metis+
      then show False using that(1) by force
    qed
    then show ?thesis using o(4) by simp
  qed
  ultimately show ?thesis using o(1,2) by blast
qed

text \<open>The moves of the elements from the number \<open>k\<close> on.\<close>

fun element_moves :: "nat \<Rightarrow> nat \<Rightarrow> nat list \<Rightarrow> (nat \<times> nat) list" where
  "element_moves k prev [] = []"
| "element_moves k prev (off # offs) =
     map (\<lambda>i_conn. (4 * k + (i_conn - prev), i_conn)) [prev..<off] @ element_moves (Suc k) (max prev off) offs"

lemma zip_upt_Cons: "zip [k..<k + length (x # xs)] (x # xs) = (k, x) # zip [Suc k..<Suc k + length xs] xs"
  by (simp add: upt_conv_Cons del: upt_Suc)

lemma fold_fixed_size:
  "bind_res (fold_res (fixed_size_element nc src) (out, prev) (zip [k..<k + length offs] offs)) (\<lambda>(out, i). Inr (f out))
   = bind_res (fold_res (move_values nc src) out (element_moves k prev offs)) (\<lambda>out. Inr (f out))"
proof (induction offs arbitrary: out prev k)
  case Nil
  then show ?case by simp
next
  case (Cons off offs)
  show ?case
    unfolding zip_upt_Cons element_moves.simps fold_res_append fold_res_map_list
    using Cons.IH [where k = "Suc k" and prev = "max prev off"]
    by (cases "fold_res (\<lambda>out i_conn. move_values nc src out (4 * k + (i_conn - prev), i_conn)) out [prev..<off]")
      (simp_all add: fixed_size_element_def)
qed

lemma fold_optimize_size:
  "bind_res (fold_res (optimize_size_element nc src) (out, prev) (zip [k..<k + length offs] offs)) (\<lambda>(out, i). Inr (f out))
   = bind_res (fold_res (move_values nc src) out (map prod.swap (element_moves k prev offs))) (\<lambda>out. Inr (f out))"
proof (induction offs arbitrary: out prev k)
  case Nil
  then show ?case by simp
next
  case (Cons off offs)
  show ?case
    unfolding zip_upt_Cons element_moves.simps map_append fold_res_append fold_res_map_list
    using Cons.IH [where k = "Suc k" and prev = "max prev off"]
    by (cases "fold_res (\<lambda>out i_conn. move_values nc src out (i_conn, 4 * k + (i_conn - prev))) out [prev..<off]")
      (simp_all add: optimize_size_element_def fold_res_map_list)
qed

text \<open>Offsets of elements with at most four nodes.\<close>

fun offsets_ok :: "nat \<Rightarrow> nat list \<Rightarrow> bool" where
  "offsets_ok prev [] \<longleftrightarrow> True"
| "offsets_ok prev (off # offs) \<longleftrightarrow> prev \<le> off \<and> off \<le> prev + 4 \<and> offsets_ok off offs"

lemma element_moves_facts:
  assumes "offsets_ok prev offs"
  shows "map snd (element_moves k prev offs) = [prev..<last (prev # offs)] \<and> prev \<le> last (prev # offs)
    \<and> distinct (map fst (element_moves k prev offs))
    \<and> (\<forall>m \<in> set (element_moves k prev offs). 4 * k \<le> fst m \<and> fst m < 4 * (k + length offs))"
  using assms
proof (induction offs arbitrary: k prev)
  case Nil
  then show ?case by simp
next
  case (Cons off offs)
  have o: "prev \<le> off" "off \<le> prev + 4" "offsets_ok off offs" using Cons.prems by simp_all
  note IH = Cons.IH [OF o(3), of "Suc k"]
  let ?h = "map (\<lambda>i_conn. (4 * k + (i_conn - prev), i_conn)) [prev..<off]"
  have e: "element_moves k prev (off # offs) = ?h @ element_moves (Suc k) off offs" using o(1) by (simp add: max_def)
  have l: "last (prev # off # offs) = last (off # offs)" by simp
  have hs: "map snd ?h = [prev..<off]" by (simp add: o_def)
  have "[prev..<off] @ [off..<last (off # offs)] = [prev..<last (off # offs)]"
    using o(1) IH upt_add_eq_append [of prev off "last (off # offs) - off"] by simp
  then have 1: "map snd (element_moves k prev (off # offs)) = [prev..<last (prev # off # offs)]"
    unfolding e l map_append hs using IH by simp
  have hb: "4 * k \<le> fst m \<and> fst m < 4 * Suc k" if "m \<in> set ?h" for m using that o(2) by auto
  have "distinct (map fst ?h)" by (auto simp: o_def distinct_map inj_on_def)
  moreover have "set (map fst ?h) \<inter> set (map fst (element_moves (Suc k) off offs)) = {}"
    using IH hb by fastforce
  ultimately have 2: "distinct (map fst (element_moves k prev (off # offs)))"
    unfolding e map_append distinct_append using IH by blast
  have 3: "4 * k \<le> fst m \<and> fst m < 4 * (k + length (off # offs))" if "m \<in> set (element_moves k prev (off # offs))" for m
  proof (cases "m \<in> set ?h")
    case True
    from hb [OF True] show ?thesis by simp
  next
    case False
    then have "m \<in> set (element_moves (Suc k) off offs)" using that e by simp
    then show ?thesis using IH by fastforce
  qed
  show ?case using 1 2 3 o(1) IH by (auto simp: l)
qed

lemma element_moves_nth:
  assumes "e < length offs" and "offsets_ok prev offs" and "(prev # offs) ! e + j < offs ! e"
  shows "(4 * (k + e) + j, (prev # offs) ! e + j) \<in> set (element_moves k prev offs)"
  using assms
proof (induction offs arbitrary: k prev e)
  case Nil
  then show ?case by simp
next
  case (Cons off offs)
  show ?case
  proof (cases e)
    case 0
    then have "prev + j \<in> set [prev..<off]" using Cons.prems(3) by simp
    then have "(4 * k + (prev + j - prev), prev + j) \<in> (\<lambda>i_conn. (4 * k + (i_conn - prev), i_conn)) ` set [prev..<off]"
      by (rule image_eqI [OF refl])
    then show ?thesis using 0 by (simp del: set_upt)
  next
    case (Suc e')
    have "max prev off = off" using Cons.prems(2) by simp
    then show ?thesis using Cons.IH [of e' off "Suc k"] Cons.prems Suc by simp
  qed
qed

section \<open>Facts\<close>

lemma get_component_single [simp]: "cache_data c = [vec] \<Longrightarrow> get_component_data c 0 = Inr vec"
  by (simp add: get_component_data_def)

text \<open>The cache with four nodes per element, in terms of moves.\<close>

lemma fixed_size_eq:
  assumes "0 < n_comp c" and "cache_data c = [src]"
  shows "element_node_cache_fixed_size nan c offs =
    bind_res (fold_res (move_values (n_comp c) src) (replicate (4 * length offs * n_comp c) 0) (element_moves 0 0 offs)) (\<lambda>out.
      Inr \<lparr>cache_time = MInf, field_input_name = field_input_name c, n_values = length offs, n_comp = 4 * n_comp c,
           cache_data = [out], scale_state = Scale_None\<rparr>)"
proof -
  have z: "zip [0..<length offs] offs = zip [0..<0 + length offs] offs" by simp
  have n: "length offs * (4 * n_comp c) = 4 * length offs * n_comp c" by simp
  show ?thesis
    unfolding element_node_cache_fixed_size_def z n
    using assms fold_fixed_size [of "n_comp c" src _ 0 0 offs] by (simp add: output_cache_def)
qed

lemma optimize_size_eq:
  assumes "0 < n_comp c div 4" and "cache_data c = [src]" and "offs \<noteq> []"
  shows "element_node_cache_optimize_size nan c offs =
    bind_res (fold_res (move_values (n_comp c div 4) src) (replicate (last offs * (n_comp c div 4)) nan)
        (map prod.swap (element_moves 0 0 offs))) (\<lambda>out.
      Inr \<lparr>cache_time = MInf, field_input_name = field_input_name c, n_values = last offs, n_comp = n_comp c div 4,
           cache_data = [out], scale_state = Scale_None\<rparr>)"
proof -
  have z: "zip [0..<length offs] offs = zip [0..<0 + length offs] offs" by simp
  show ?thesis
    unfolding element_node_cache_optimize_size_def z
    using assms fold_optimize_size [of "n_comp c div 4" src _ 0 0 offs]
    by (simp add: output_cache_def create_data_cache_def get_component_data_def)
qed

text \<open>The loop over the components of an index.\<close>

lemma fold_components:
  assumes "length vec = n * nc" and "idx < n" and "k \<le> nc"
  shows "\<exists>vec'. fold_res (\<lambda>vec i. if idx * nc + i < length vec
        then put_value vec (idx * nc + i) (f i (vec ! (idx * nc + i)))
        else Inl (CacheRange (idx * nc + i) (length vec))) vec [0..<k] = Inr vec' \<and> length vec' = n * nc
    \<and> (\<forall>i < k. vec' ! (idx * nc + i) = f i (vec ! (idx * nc + i)))
    \<and> (\<forall>j. (\<forall>i < k. j \<noteq> idx * nc + i) \<longrightarrow> vec' ! j = vec ! j)"
  using assms(3)
proof (induction k)
  case 0
  then show ?case using assms(1) by simp
next
  case (Suc k)
  let ?f = "\<lambda>vec i. if idx * nc + i < length vec then put_value vec (idx * nc + i) (f i (vec ! (idx * nc + i)))
        else Inl (CacheRange (idx * nc + i) (length vec))"
  obtain v where v: "fold_res ?f vec [0..<k] = Inr v" "length v = n * nc"
    "\<forall>i < k. v ! (idx * nc + i) = f i (vec ! (idx * nc + i))"
    "\<forall>j. (\<forall>i < k. j \<noteq> idx * nc + i) \<longrightarrow> v ! j = vec ! j"
    using Suc by auto
  have r: "idx * nc + k < n * nc" using row_bound [OF assms(2), of k nc] Suc.prems by simp
  have "v ! (idx * nc + k) = vec ! (idx * nc + k)" using v(4) by simp
  then have "fold_res ?f vec [0..<Suc k] = Inr (v[idx * nc + k := f k (vec ! (idx * nc + k))])"
    using v(1,2) r by (simp add: fold_res_append put_value_def)
  then show ?case
    using v r by (intro exI [of _ "v[idx * nc + k := f k (vec ! (idx * nc + k))]"]) (auto simp: less_Suc_eq nth_list_update)
qed

text \<open>The values of an index after one of its operations.\<close>

lemma each_component_ok:
  assumes "cache_data c = [vec]" and "length vec = n * n_comp c" and "idx < n"
  shows "\<exists>vec'. each_component c idx f = Inr (c\<lparr>cache_data := [vec']\<rparr>) \<and> length vec' = n * n_comp c
    \<and> (\<forall>j i. i < n_comp c \<longrightarrow> vec' ! (j * n_comp c + i) = (if j = idx then f i (vec ! (j * n_comp c + i)) else vec ! (j * n_comp c + i)))"
proof -
  obtain v where v: "fold_res (\<lambda>vec i. if idx * n_comp c + i < length vec
        then put_value vec (idx * n_comp c + i) (f i (vec ! (idx * n_comp c + i)))
        else Inl (CacheRange (idx * n_comp c + i) (length vec))) vec [0..<n_comp c] = Inr v" "length v = n * n_comp c"
    "\<forall>i < n_comp c. v ! (idx * n_comp c + i) = f i (vec ! (idx * n_comp c + i))"
    "\<forall>j. (\<forall>i < n_comp c. j \<noteq> idx * n_comp c + i) \<longrightarrow> v ! j = vec ! j"
    using fold_components [OF assms(2,3) order_refl] by blast
  have "each_component c idx f = Inr (c\<lparr>cache_data := [v]\<rparr>)"
    using v(1) assms(1) by (simp add: each_component_def)
  moreover have "v ! (j * n_comp c + i) = vec ! (j * n_comp c + i)" if "i < n_comp c" "j \<noteq> idx" for j i
    using v(4) row_quotient that by metis
  ultimately show ?thesis using v by auto
qed

text \<open>An operation on each of several indices.\<close>

lemma each_index_ok:
  assumes "cache_data c = [vec]" and "length vec = n * n_comp c" and "distinct ids" and "\<forall>idx \<in> set ids. idx < n"
  shows "\<exists>vec'. fold_res (\<lambda>c idx. each_component c idx (f idx)) c ids = Inr (c\<lparr>cache_data := [vec']\<rparr>) \<and> length vec' = n * n_comp c
    \<and> (\<forall>j i. i < n_comp c \<longrightarrow> vec' ! (j * n_comp c + i)
        = (if j \<in> set ids then f j i (vec ! (j * n_comp c + i)) else vec ! (j * n_comp c + i)))"
  using assms
proof (induction ids arbitrary: c vec)
  case Nil
  then show ?case by (intro exI [of _ vec]) simp
next
  case (Cons idx ids)
  obtain v where v: "each_component c idx (f idx) = Inr (c\<lparr>cache_data := [v]\<rparr>)" "length v = n * n_comp c"
    "\<forall>j i. i < n_comp c \<longrightarrow> v ! (j * n_comp c + i) = (if j = idx then f idx i (vec ! (j * n_comp c + i)) else vec ! (j * n_comp c + i))"
    using each_component_ok [OF Cons.prems(1,2), of idx "f idx"] Cons.prems(4) by auto
  obtain w where w: "fold_res (\<lambda>c idx. each_component c idx (f idx)) (c\<lparr>cache_data := [v]\<rparr>) ids = Inr (c\<lparr>cache_data := [w]\<rparr>)"
    "length w = n * n_comp c" "\<forall>j i. i < n_comp c \<longrightarrow> w ! (j * n_comp c + i)
        = (if j \<in> set ids then f j i (v ! (j * n_comp c + i)) else v ! (j * n_comp c + i))"
    using Cons.IH [of "c\<lparr>cache_data := [v]\<rparr>" v] v(2) Cons.prems(3,4) by auto
  have "w ! (j * n_comp c + i) = (if j \<in> set (idx # ids) then f j i (vec ! (j * n_comp c + i)) else vec ! (j * n_comp c + i))"
    if "i < n_comp c" for j i
  proof (cases "j \<in> set ids")
    case True
    then have "j \<noteq> idx" using Cons.prems(3) by auto
    then show ?thesis using True w(3) v(3) that by simp
  next
    case False
    then show ?thesis using w(3) v(3) that by simp
  qed
  then show ?case using v(1) w(1,2) by (intro exI [of _ w]) simp
qed

definition points_of :: "nat list \<Rightarrow> nat \<Rightarrow> nat \<Rightarrow> nat list" where
  "points_of conn v k = filter (\<lambda>p. conn ! p = v) [0..<k]"

text \<open>The tot and counts after some of the points.\<close>

lemma add_node_values:
  assumes src: "cache_data c = [map Fin xs]" "length xs = length conn * n_comp c" "0 < n_comp c"
    and out: "cache_data c1 = [map Fin (replicate (n * n_comp c) 0)]" "n_comp c1 = n_comp c" "n_values c1 = n"
    and conn: "\<forall>v \<in> set conn. v < n" and k: "k \<le> length conn"
  shows "\<exists>vec counts. fold_res (add_node_value c) (c1, replicate n 0) (zip [0..<k] (take k conn)) = Inr (c1\<lparr>cache_data := [vec]\<rparr>, counts)
    \<and> length vec = n * n_comp c \<and> length counts = n
    \<and> (\<forall>v < n. counts ! v = length (points_of conn v k)
        \<and> (\<forall>i < n_comp c. vec ! (v * n_comp c + i) = Fin (\<Sum>p\<leftarrow>points_of conn v k. xs ! (p * n_comp c + i))))"
  using k
proof (induction k)
  case 0
  have "map Fin (replicate (n * n_comp c) 0) ! (v * n_comp c + i) = Fin 0" if "v < n" "i < n_comp c" for v i
    using row_bound [OF that] by simp
  then show ?case
    using out by (intro exI [of _ "map Fin (replicate (n * n_comp c) 0)"] exI [of _ "replicate n 0"]) (simp add: points_of_def)
next
  case (Suc k)
  obtain vec counts where IH: "fold_res (add_node_value c) (c1, replicate n 0) (zip [0..<k] (take k conn)) = Inr (c1\<lparr>cache_data := [vec]\<rparr>, counts)"
    "length vec = n * n_comp c" "length counts = n"
    "\<forall>v < n. counts ! v = length (points_of conn v k)
        \<and> (\<forall>i < n_comp c. vec ! (v * n_comp c + i) = Fin (\<Sum>p\<leftarrow>points_of conn v k. xs ! (p * n_comp c + i)))"
    using Suc by auto
  have lt: "k < length conn" using Suc.prems by simp
  have z: "zip [0..<Suc k] (take (Suc k) conn) = zip [0..<k] (take k conn) @ [(k, conn ! k)]"
    using lt by (simp add: take_Suc_conv_app_nth)
  define v where "v = conn ! k"
  have v: "v < n" using conn lt by (simp add: v_def)
  define c2 where "c2 = c1\<lparr>cache_data := [vec]\<rparr>"
  have c2: "cache_data c2 = [vec]" "length vec = n * n_comp c2" "n_comp c2 = n_comp c" "n_values c2 = n"
    using out IH(2) by (simp_all add: c2_def)
  define src where "src = map Fin xs"
  obtain w where w: "each_component c2 v (\<lambda>i x. x + src ! (n_comp c * k + i)) = Inr (c2\<lparr>cache_data := [w]\<rparr>)" "length w = n * n_comp c"
    "\<forall>j i. i < n_comp c \<longrightarrow> w ! (j * n_comp c + i)
      = (if j = v then vec ! (j * n_comp c + i) + src ! (n_comp c * k + i) else vec ! (j * n_comp c + i))"
    using each_component_ok [OF c2(1,2) v, of "\<lambda>i x. x + src ! (n_comp c * k + i)"] c2(3) by auto
  have "n_comp c * k < length xs" using row_bound [OF lt src(3)] src(2) by (simp add: mult.commute)
  then have "add_node_value c (c2, counts) (k, v) = Inr (c1\<lparr>cache_data := [w]\<rparr>, counts[v := counts ! v + 1])"
    using w(1) v c2(4) src(1) by (simp add: add_node_value_def cache_add_def src_def c2_def)
  then have run: "fold_res (add_node_value c) (c1, replicate n 0) (zip [0..<Suc k] (take (Suc k) conn))
      = Inr (c1\<lparr>cache_data := [w]\<rparr>, counts[v := counts ! v + 1])"
    unfolding z fold_res_append IH(1) by (simp add: c2_def v_def)
  have pts: "points_of conn u (Suc k) = points_of conn u k @ (if u = v then [k] else [])" for u
    by (auto simp: points_of_def v_def)
  have row: "src ! (n_comp c * k + i) = Fin (xs ! (k * n_comp c + i))" if "i < n_comp c" for i
    using row_bound [OF lt that] src(2) by (simp add: src_def mult.commute)
  have "(counts[v := counts ! v + 1]) ! u = length (points_of conn u (Suc k))
      \<and> (\<forall>i < n_comp c. w ! (u * n_comp c + i) = Fin (\<Sum>p\<leftarrow>points_of conn u (Suc k). xs ! (p * n_comp c + i)))" if "u < n" for u
    using that IH(3,4) w(3) row v by (simp add: pts nth_list_update)
  then show ?case using run w(2) IH(3) by auto
qed

lemma gather_moves:
  assumes "distinct (concat l2g)" and "\<forall>g \<in> set (concat l2g). g < length (concat l2g)" and "0 < nc"
    and "length (concat data) = length (concat l2g) * nc"
  shows "\<exists>out c. gather_cache nan name nc l2g data = Inr c \<and> cache_data c = [out] \<and> length out = length (concat l2g) * nc
    \<and> (\<forall>p < length (concat l2g). \<forall>i < nc. out ! (concat l2g ! p * nc + i) = concat data ! (p * nc + i))"
proof -
  define ids where "ids = concat l2g"
  define ms where "ms = map (\<lambda>p. (ids ! p, p)) [0..<length ids]"
  have "map fst ms = ids" by (simp add: ms_def o_def map_nth)
  then have d: "distinct (map fst ms)" using assms(1) by (simp add: ids_def)
  have "\<forall>g \<in> set ids. g < length ids" using assms(2) by (simp add: ids_def)
  then have "\<forall>m \<in> set ms. fst m < length ids \<and> snd m < length ids" by (simp add: ms_def)
  from index_moves_done [OF this d, of "replicate (length ids * nc) nan" nc "concat data"] assms(4) obtain out where
    o: "fold_res (move_values nc (concat data)) (replicate (length ids * nc) nan) ms = Inr out" "length out = length ids * nc"
    "\<forall>d s i. (d, s) \<in> set ms \<and> i < nc \<longrightarrow> out ! (d * nc + i) = concat data ! (s * nc + i)"
    by (auto simp: ids_def)
  have "out ! (ids ! p * nc + i) = concat data ! (p * nc + i)" if "p < length ids" "i < nc" for p i
    using o(3) that by (auto simp: ms_def)
  moreover have "gather_cache nan name nc l2g data = Inr \<lparr>cache_time = MInf, field_input_name = name,
      n_values = length ids, n_comp = nc, cache_data = [out], scale_state = Scale_None\<rparr>"
    using o(1) assms(3) unfolding ms_def fold_res_map_list
    by (simp add: gather_cache_def Let_def output_cache_def create_data_cache_def get_component_data_def ids_def)
  ultimately show ?thesis using o(2) by (auto simp: ids_def)
qed

text \<open>The maximum of negative values is not found: the search starts at the smallest positive number.\<close>

lemma range_of_negative_values:
  assumes "cache_data c = [map Fin xs]" and "length xs = n_values c * n_comp c" and "\<forall>x \<in> set xs. x < 0"
  shows "\<exists>mn. get_min_max_range c = Inr (mn, double_min)"
proof -
  have "snd (foldl range_step (mn, double_min) (map Fin ys)) = double_min" if "\<forall>x \<in> set ys. x < 0" for mn ys
    using that
  proof (induction ys arbitrary: mn)
    case Nil
    then show ?case by simp
  next
    case (Cons y ys)
    have "(0::real) < 1 / 2 ^ 1022" by (simp del: power_numeral)
    moreover have "y < 0" using Cons.prems by simp
    ultimately have "\<not> (1 / 2 ^ 1022 < y)" by linarith
    then have "\<not> double_min < Fin y" unfolding double_min_def less_double.simps .
    then show ?case using Cons by (simp add: range_step_def)
  qed
  from this [OF assms(3), of double_max] show ?thesis
    using assms(1,2) by (simp add: get_min_max_range_def mult.commute prod_eq_iff)
qed

section \<open>Properties\<close>

text \<open>
  C30. The cache with four nodes for each element gives the node values back: when the offsets
  describe elements with at most four nodes, the cache \<open>element_node_cache_fixed_size\<close> makes holds the
  values of the \<open>j\<close>-th node of the element \<open>e\<close> at the place \<open>4 * e + j\<close>, and \<open>element_node_cache_optimize_size\<close>
  makes the original values of it.
\<close>

theorem node_cache_roundtrip:
  assumes data: "cache_data c = [src]" "length src = last offs * n_comp c" "0 < n_comp c"
    and offs: "offs \<noteq> []" "offsets_ok 0 offs"
  shows "\<exists>c1 c2 out. element_node_cache_fixed_size nan c offs = Inr c1 \<and> cache_data c1 = [out]
    \<and> length out = n_values c1 * n_comp c1 \<and> n_values c1 = length offs \<and> n_comp c1 = 4 * n_comp c
    \<and> (\<forall>e < length offs. \<forall>j. (0 # offs) ! e + j < offs ! e \<longrightarrow>
        (\<forall>i < n_comp c. out ! ((4 * e + j) * n_comp c + i) = src ! (((0 # offs) ! e + j) * n_comp c + i)))
    \<and> element_node_cache_optimize_size nan' c1 offs = Inr c2
    \<and> cache_data c2 = [src] \<and> n_values c2 = last offs \<and> n_comp c2 = n_comp c"
proof -
  define ms where "ms = element_moves 0 0 offs"
  note f = element_moves_facts [OF offs(2), of 0, folded ms_def]
  have srcs: "map snd ms = [0..<last offs]" using f offs(1) by simp
  have rng: "\<forall>m \<in> set ms. fst m < 4 * length offs \<and> snd m < last offs"
  proof (intro ballI conjI)
    fix m assume m: "m \<in> set ms"
    then show "fst m < 4 * length offs" using f by simp
    have "snd m \<in> set (map snd ms)" using m by simp
    then show "snd m < last offs" unfolding srcs by simp
  qed
  obtain out where o: "fold_res (move_values (n_comp c) src) (replicate (4 * length offs * n_comp c) 0) ms = Inr out"
    "length out = 4 * length offs * n_comp c"
    "\<forall>d s i. (d, s) \<in> set ms \<and> i < n_comp c \<longrightarrow> out ! (d * n_comp c + i) = src ! (s * n_comp c + i)"
    using index_moves_done [OF rng, of "replicate (4 * length offs * n_comp c) 0" "n_comp c" src] f data(2) by auto
  define c1 where "c1 = \<lparr>cache_time = MInf, field_input_name = field_input_name c, n_values = length offs, n_comp = 4 * n_comp c,
    cache_data = [out], scale_state = Scale_None\<rparr>"
  have c1: "element_node_cache_fixed_size nan c offs = Inr c1"
    unfolding fixed_size_eq [OF data(3,1)] ms_def [symmetric] o(1) by (simp add: c1_def)
  have sw: "\<forall>m \<in> set (map prod.swap ms). fst m < last offs \<and> snd m < 4 * length offs" "distinct (map fst (map prod.swap ms))"
    using rng srcs by (auto simp: o_def)
  obtain out2 where o2: "fold_res (move_values (n_comp c) out) (replicate (last offs * n_comp c) nan') (map prod.swap ms) = Inr out2"
    "length out2 = last offs * n_comp c"
    "\<forall>d s i. (d, s) \<in> set (map prod.swap ms) \<and> i < n_comp c \<longrightarrow> out2 ! (d * n_comp c + i) = out ! (s * n_comp c + i)"
    using index_moves_done [OF sw, of "replicate (last offs * n_comp c) nan'" "n_comp c" out] o(2) by auto
  have "out2 = src"
  proof (rule nth_equalityI)
    show "length out2 = length src" using o2(2) data(2) by simp
    fix j assume "j < length out2"
    then have s: "j div n_comp c < last offs" "j mod n_comp c < n_comp c"
      using data(3) o2(2) by (simp_all add: less_mult_imp_div_less)
    then obtain d where "(d, j div n_comp c) \<in> set ms"
      using srcs by (metis (no_types, lifting) atLeast_upt imageE lessThan_iff list.set_map prod.collapse)
    then have "out2 ! (j div n_comp c * n_comp c + j mod n_comp c) = src ! (j div n_comp c * n_comp c + j mod n_comp c)"
      using o(3) o2(3) s(2) by force
    then show "out2 ! j = src ! j" by simp
  qed
  then have "element_node_cache_optimize_size nan' c1 offs = Inr \<lparr>cache_time = MInf, field_input_name = field_input_name c,
      n_values = last offs, n_comp = n_comp c, cache_data = [src], scale_state = Scale_None\<rparr>"
    using optimize_size_eq [of c1 out offs nan'] data(3) offs(1) o2(1) by (simp add: c1_def ms_def)
  moreover have "out ! ((4 * e + j) * n_comp c + i) = src ! (((0 # offs) ! e + j) * n_comp c + i)"
    if "e < length offs" "(0 # offs) ! e + j < offs ! e" "i < n_comp c" for e j i
    using o(3) element_moves_nth [OF that(1) offs(2) that(2), of 0] that(3) by (simp add: ms_def)
  ultimately show ?thesis
    using c1 o(2) by (intro exI conjI) (assumption | rule refl | simp add: c1_def)+
qed

text \<open>Two elements with two and three nodes and two components.\<close>

theorem node_cache_roundtrip_witness:
  "\<exists>c1 c2. element_node_cache_fixed_size (0::nat) \<lparr>cache_time = MInf, field_input_name = ''p'', n_values = 5, n_comp = 2,
       cache_data = [[10,11,20,21,30,31,40,41,50,51]], scale_state = Scale_None\<rparr> [2, 5] = Inr c1
     \<and> element_node_cache_optimize_size 7 c1 [2, 5] = Inr c2 \<and> cache_data c2 = [[10,11,20,21,30,31,40,41,50,51]]"
proof -
  let ?c = "\<lparr>cache_time = MInf, field_input_name = ''p'', n_values = 5, n_comp = 2,
       cache_data = [[10,11,20,21,30,31,40,41,50,51::nat]], scale_state = Scale_None\<rparr>"
  have "cache_data ?c = [[10,11,20,21,30,31,40,41,50,51]]"
    "length [10,11,20,21,30,31,40,41,50,51::nat] = last [2, 5] * n_comp ?c" "0 < n_comp ?c" "[2, 5::nat] \<noteq> []" "offsets_ok 0 [2, 5]"
    by simp_all
  from node_cache_roundtrip [OF this, of 0 7] show ?thesis by blast
qed

text \<open>
  C31. \<open>compute_node_data\<close> averages: the value of a node is the mean of the values of the points
  that are connected to it, in each component, and not a number at a node without points.
\<close>

theorem node_averages:
  assumes src: "cache_data c = [map Fin xs]" "length xs = length conn * n_comp c" "0 < n_comp c" "n_values c = length conn"
    and conn: "\<forall>v \<in> set conn. v < n"
  shows "\<exists>c' out. compute_node_data c conn n = Inr c' \<and> cache_data c' = [out] \<and> length out = n * n_comp c
    \<and> n_values c' = n \<and> n_comp c' = n_comp c
    \<and> (\<forall>v < n. \<forall>i < n_comp c. out ! (v * n_comp c + i) =
        (if v \<in> set conn
         then Fin ((\<Sum>p\<leftarrow>points_of conn v (length conn). xs ! (p * n_comp c + i)) / real (count_list conn v)) else NaN))"
proof -
  define nc where "nc = n_comp c"
  define c0 where "c0 = \<lparr>cache_time = MInf, field_input_name = field_input_name c, n_values = n, n_comp = nc,
    cache_data = [replicate (n * nc) NaN], scale_state = Scale_None\<rparr>"
  have c0: "output_cache NaN (field_input_name c) (n_comp c) n = Inr c0"
    using src(3) by (simp add: output_cache_def create_data_cache_def c0_def nc_def)
  obtain vec where vec: "fold_res zero_value c0 [0..<n] = Inr (c0\<lparr>cache_data := [vec]\<rparr>)" "length vec = n * nc"
    "\<forall>j i. i < nc \<longrightarrow> vec ! (j * nc + i) = (if j \<in> set [0..<n] then 0 else replicate (n * nc) NaN ! (j * nc + i))"
    using each_index_ok [of c0 "replicate (n * nc) NaN" n "[0..<n]" "\<lambda>idx i x. 0"]
    unfolding zero_value_def [abs_def] by (auto simp: c0_def)
  have "vec = map Fin (replicate (n * nc) 0)"
  proof (rule nth_equalityI)
    fix j assume j: "j < length vec"
    then have "j div nc < n" "j mod nc < nc" using src(3) vec(2) by (simp_all add: less_mult_imp_div_less nc_def)
    from vec(3) [rule_format, OF this(2), of "j div nc"] this(1) have "vec ! j = 0" by simp
    then show "vec ! j = map Fin (replicate (n * nc) 0) ! j" using j vec(2) by (simp add: zero_double_def)
  qed (simp add: vec(2))
  then have c1: "cache_data (c0\<lparr>cache_data := [vec]\<rparr>) = [map Fin (replicate (n * n_comp c) 0)]" by (simp add: nc_def)
  obtain tot counts where s: "fold_res (add_node_value c) (c0\<lparr>cache_data := [vec]\<rparr>, replicate n 0) (zip [0..<length conn] conn)
      = Inr (c0\<lparr>cache_data := [tot]\<rparr>, counts)" "length tot = n * nc" "length counts = n"
    "\<forall>v < n. counts ! v = length (points_of conn v (length conn))
      \<and> (\<forall>i < nc. tot ! (v * nc + i) = Fin (\<Sum>p\<leftarrow>points_of conn v (length conn). xs ! (p * nc + i)))"
    using add_node_values [OF src(1-3) c1 _ _ conn order_refl] by (auto simp: c0_def nc_def)
  obtain out where o: "fold_res (\<lambda>c idx. normalize_value c idx (counts ! idx)) (c0\<lparr>cache_data := [tot]\<rparr>) [0..<n]
      = Inr (c0\<lparr>cache_data := [out]\<rparr>)" "length out = n * nc"
    "\<forall>j i. i < nc \<longrightarrow> out ! (j * nc + i) = (if j \<in> set [0..<n]
       then divide_class.divide (tot ! (j * nc + i)) (Fin (real (counts ! j))) else tot ! (j * nc + i))"
    using each_index_ok [of "c0\<lparr>cache_data := [tot]\<rparr>" tot n "[0..<n]"
        "\<lambda>idx i x. divide_class.divide x (Fin (real (counts ! idx)))"] s(2)
    unfolding normalize_value_def [abs_def] by (auto simp: c0_def)
  have cnt: "length (points_of conn v (length conn)) = count_list conn v" for v
  proof -
    have "filter (\<lambda>x. x = v) (map ((!) conn) [0..<length conn]) = map ((!) conn) (points_of conn v (length conn))"
      unfolding filter_map points_of_def o_def ..
    then have "filter (\<lambda>x. x = v) conn = map ((!) conn) (points_of conn v (length conn))" unfolding map_nth .
    moreover have "(=) v = (\<lambda>x. x = v)" by auto
    ultimately show ?thesis unfolding count_list_eq_length_filter by simp
  qed
  have "out ! (v * nc + i) = (if v \<in> set conn
      then Fin ((\<Sum>p\<leftarrow>points_of conn v (length conn). xs ! (p * nc + i)) / real (count_list conn v)) else NaN)"
    if v: "v < n" "i < nc" for v i
  proof -
    have out: "out ! (v * nc + i) = divide_class.divide (Fin (\<Sum>p\<leftarrow>points_of conn v (length conn). xs ! (p * nc + i)))
        (Fin (real (count_list conn v)))"
      using o(3) s(4) v by (simp add: cnt)
    have "v \<notin> set conn \<Longrightarrow> points_of conn v (length conn) = []" using cnt [of v] by (simp add: count_list_0_iff)
    moreover have "count_list conn v = 0 \<longleftrightarrow> v \<notin> set conn" by (simp add: count_list_0_iff)
    ultimately show ?thesis unfolding out by (cases "v \<in> set conn") simp_all
  qed
  moreover have "compute_node_data c conn n = Inr (c0\<lparr>cache_data := [out]\<rparr>)"
    using src(4) vec(1) s(1) o(1) c0 by (simp add: compute_node_data_def)
  ultimately show ?thesis
    using o(2) by (intro exI [of _ "c0\<lparr>cache_data := [out]\<rparr>"] exI [of _ out]) (simp add: c0_def nc_def)
qed

text \<open>Two points at the first node, none at the second.\<close>

theorem node_averages_witness:
  "\<exists>c'. compute_node_data \<lparr>cache_time = MInf, field_input_name = ''p'', n_values = 2, n_comp = 1,
       cache_data = [map Fin [3, 5]], scale_state = Scale_None\<rparr> [0, 0] 2 = Inr c' \<and> cache_data c' = [[Fin 4, NaN]]"
proof -
  let ?c = "\<lparr>cache_time = MInf, field_input_name = ''p'', n_values = 2, n_comp = 1,
       cache_data = [map Fin [3, 5]], scale_state = Scale_None\<rparr>"
  have "cache_data ?c = [map Fin [3, 5]]" by simp
  from node_averages [OF this, of "[0, 0]" 2] obtain c' out where
    c': "compute_node_data ?c [0, 0] 2 = Inr c'" "cache_data c' = [out]" "length out = 2"
    "\<forall>v < 2. \<forall>i < 1. out ! (v * 1 + i) = (if v \<in> set [0, 0::nat]
       then Fin ((\<Sum>p\<leftarrow>points_of [0, 0] v (length [0, 0::nat]). [3, 5] ! (p * 1 + i)) / real (count_list [0, 0] v)) else NaN)"
    by auto
  have "points_of [0, 0] 0 (length [0, 0::nat]) = [0, 1]" by (simp add: points_of_def)
  then have "out ! 0 = Fin 4" "out ! 1 = NaN" using c'(4) [rule_format, of 0 0] c'(4) [rule_format, of 1 0] by simp_all
  moreover have "out = [out ! 0, out ! 1]" using c'(3) by (auto simp: length_Suc_conv numeral_2_eq_2)
  ultimately show ?thesis using c'(1,2) by auto
qed

text \<open>
  The check of the values replaces the missing ones by the default, reports those that stay
  missing before those out of the limits, and the scaling multiplies every value; both are done only once: a
  later check with other limits and another coefficient changes nothing and reports no error.
\<close>

theorem check_and_scale_once:
  assumes "scale_state c = Scale_None" and "check_and_scale c coef default_val lower upper = (r, c')"
  shows "cache_data c' = map (map (\<lambda>x. (if x = NaN then default_val else x) * coef)) (cache_data c)
    \<and> (r = Check_NaN \<longleftrightarrow> default_val = NaN \<and> NaN \<in> \<Union> (set ` set (cache_data c)))
    \<and> (r = Check_Ok \<longrightarrow> (\<forall>vec \<in> set (cache_data c). \<forall>x \<in> set vec.
         (x \<noteq> NaN \<longrightarrow> \<not> x < lower \<and> \<not> upper < x)))
    \<and> check_and_scale c' coef2 default2 lower2 upper2 = (Check_Ok, c')"
proof -
  have v: "checked_value default_val = (\<lambda>x. if x = NaN then default_val else x)"
    by (auto simp: fun_eq_iff checked_value_def)
  have c': "cache_data c' = map (map (\<lambda>x. checked_value default_val x * coef)) (cache_data c)" "scale_state c' = Scale_Scale"
    using assms by (auto simp: check_and_scale_def check_values_def scale_data_def Let_def o_def)
  have r: "r = (if \<exists>vec \<in> set (cache_data c). \<exists>x \<in> set vec. x = NaN \<and> default_val = NaN then Check_NaN
      else if \<exists>vec \<in> set (map (map (checked_value default_val)) (cache_data c)). \<exists>x \<in> set vec. x < lower \<or> upper < x
      then Check_Limits else Check_Ok)"
    using assms by (simp add: check_and_scale_def check_values_def Let_def)
  have "\<not> x < lower \<and> \<not> upper < x" if "r = Check_Ok" "vec \<in> set (cache_data c)" "x \<in> set vec" "x \<noteq> NaN" for vec x
  proof -
    have "\<forall>y \<in> checked_value default_val ` set vec. \<not> y < lower \<and> \<not> upper < y"
      using that(1,2) unfolding r by (auto split: if_splits)
    moreover have "checked_value default_val x = x" using that(4) by (simp add: checked_value_def)
    ultimately show ?thesis using that(3) by (metis image_eqI)
  qed
  moreover have "r = Check_NaN \<longleftrightarrow> default_val = NaN \<and> NaN \<in> \<Union> (set ` set (cache_data c))" unfolding r by auto
  moreover have "check_and_scale c' coef2 default2 lower2 upper2 = (Check_Ok, c')"
    using c'(2) by (simp add: check_and_scale_def check_values_def scale_data_def)
  ultimately show ?thesis using c'(1) v by simp
qed

text \<open>A missing value replaced by one and scaled by two.\<close>

theorem check_and_scale_once_witness:
  "\<exists>c'. check_and_scale (input_cache NaN ''p'' 0 1 1) (Fin 2) 1 0 (Fin 1) = (Check_Ok, c') \<and> cache_data c' = [[Fin 2]]
    \<and> check_and_scale c' 0 0 0 0 = (Check_Ok, c')"
proof -
  let ?c = "input_cache NaN ''p'' 0 1 1"
  obtain r c' where rc: "check_and_scale ?c (Fin 2) 1 0 (Fin 1) = (r, c')" by fastforce
  have r: "r = Check_Ok"
    using rc by (simp add: check_and_scale_def check_values_def input_cache_def create_data_cache_def checked_value_def
        zero_double_def one_double_def Let_def)
  have st: "scale_state ?c = Scale_None" by (simp add: input_cache_def)
  from check_and_scale_once [OF st rc, of 0 0 0 0] rc r show ?thesis
    by (intro exI [of _ c']) (simp add: input_cache_def create_data_cache_def one_double_def)
qed

end
