(* ===== verification/Gmsh_Reader.thy ===== *)
theory Gmsh_Reader
  imports Mesh_Build Element_Cache
begin

text \<open>
  The reader of GMSH files: \<open>GmshMeshReader\<close> of \<open>src/src/io/msh_gmshreader.cc\<close> and the common part of the readers,
  \<open>BaseMeshReader\<close> of \<open>src/src/io/msh_basereader.cc\<close>. The functions of Boost (trimming and splitting of lines,
  \<open>lexical_cast\<close>) are parameters, collected in a record. The messages and warnings are left out.
\<close>

section \<open>Environment and errors\<close>

record reader_env =
  trim_line :: "string \<Rightarrow> string"
  split_line :: "string \<Rightarrow> string list"
  cast_uint :: "string \<Rightarrow> u32 option"
  cast_double :: "string \<Rightarrow> double option"

datatype reader_error =
    MissingSection string
  | WrongFormat string nat nat
  | ZeroCount string
  | UnsupportedType u32 u32
  | FewTags u32
  | WrongExtension string
  | FieldNameNotFound string
  | ReaderAssert
  | NoLoopEnd
  | TokError token_error
  | MeshError mesh_error
  | CacheError cache_error

section \<open>Tokens and lines\<close>

definition start_position :: tok_position where
  "start_position = \<lparr>file_position = Some 0, line_counter = 0, line_position = 0\<rparr>"

definition advance_line :: "reader_env \<Rightarrow> bool \<Rightarrow> tokenizer \<Rightarrow> (reader_error, tokenizer) res" where
  "advance_line env check t =
     bind_res (map_err TokError (next_line (trim_line env) (split_line env) check t)) (\<lambda>(ok, t'). Inr t')"

definition find_line :: "reader_env \<Rightarrow> string \<Rightarrow> string \<Rightarrow> tokenizer \<Rightarrow> (reader_error, bool \<times> tokenizer) res" where
  "find_line env pattern end_pattern t = map_err TokError (skip_to (trim_line env) (split_line env) pattern end_pattern t)"

definition read_word :: "tokenizer \<Rightarrow> (reader_error, string \<times> tokenizer) res" where
  "read_word t = bind_res (map_err TokError (cur_token t)) (\<lambda>w. Inr (w, next_token t))"

text \<open>A conversion that fails throws \<open>bad_lexical_cast\<close>, which the callers turn to \<open>ExcWrongFormat\<close> with the position of the tokenizer.\<close>

definition peek_uint :: "reader_env \<Rightarrow> string \<Rightarrow> tokenizer \<Rightarrow> (reader_error, u32) res" where
  "peek_uint env what t =
     bind_res (map_err TokError (cur_token t)) (\<lambda>w.
       case cast_uint env w of None \<Rightarrow> Inl (WrongFormat what (line_num t) (pos t)) | Some n \<Rightarrow> Inr n)"

definition read_uint :: "reader_env \<Rightarrow> string \<Rightarrow> tokenizer \<Rightarrow> (reader_error, u32 \<times> tokenizer) res" where
  "read_uint env what t = bind_res (peek_uint env what t) (\<lambda>n. Inr (n, next_token t))"

definition read_double :: "reader_env \<Rightarrow> string \<Rightarrow> tokenizer \<Rightarrow> (reader_error, double \<times> tokenizer) res" where
  "read_double env what t =
     bind_res (map_err TokError (cur_token t)) (\<lambda>w.
       case cast_double env w of None \<Rightarrow> Inl (WrongFormat what (line_num t) (pos t)) | Some x \<Rightarrow> Inr (x, next_token t))"

section \<open>Nodes\<close>

definition read_node ::
  "reader_env \<Rightarrow> tokenizer \<times> mesh_data \<Rightarrow> (reader_error, tokenizer \<times> mesh_data) res" where
  "read_node env tm =
     bind_res (advance_line env True (fst tm)) (\<lambda>t0.
     bind_res (read_uint env ''number'' t0) (\<lambda>(nid, t1).
     bind_res (read_double env ''number'' t1) (\<lambda>(x, t2).
     bind_res (read_double env ''number'' t2) (\<lambda>(y, t3).
     bind_res (read_double env ''number'' t3) (\<lambda>(z, t4).
     bind_res (map_err MeshError (add_node (snd tm) nid [x, y, z])) (\<lambda>m.
       Inr (next_token t4, m)))))))"

definition read_nodes ::
  "reader_env \<Rightarrow> tokenizer \<times> mesh_data \<Rightarrow> (reader_error, tokenizer \<times> mesh_data) res" where
  "read_nodes env tm =
     bind_res (find_line env ''$Nodes'' '''' (set_position (split_line env) (fst tm) start_position)) (\<lambda>(found, t0).
       if \<not> found then Inl (MissingSection ''$Nodes'')
       else bind_res (advance_line env False t0) (\<lambda>t1.
         bind_res (peek_uint env ''number'' t1) (\<lambda>n_nodes.
           let m = init_node_vector (snd tm) in
           if n_nodes = 0 then Inl (ZeroCount ''nodes'')
           else fold_res (\<lambda>tm _. read_node env tm) (next_token t1, m) [0..<unat n_nodes])))"

section \<open>Elements\<close>

definition dim_of_type :: "u32 \<Rightarrow> u32 option" where
  "dim_of_type ty = (if ty = 1 then Some 1 else if ty = 2 then Some 2 else if ty = 4 then Some 3
     else if ty = 15 then Some 0 else None)"

text \<open>The vector of the ids of nodes has four entries and is kept from one element to the next.\<close>

definition read_node_id ::
  "reader_env \<Rightarrow> tokenizer \<times> u32 list \<Rightarrow> nat \<Rightarrow> (reader_error, tokenizer \<times> u32 list) res" where
  "read_node_id env ti ni =
     bind_res (read_uint env ''number'' (fst ti)) (\<lambda>(n, t). Inr (t, (snd ti)[ni := n]))"

definition read_element ::
  "reader_env \<Rightarrow> (tokenizer \<times> mesh_data) \<times> u32 list \<Rightarrow> (reader_error, (tokenizer \<times> mesh_data) \<times> u32 list) res" where
  "read_element env s =
     bind_res (advance_line env True (fst (fst s))) (\<lambda>t0.
     bind_res (read_uint env ''number'' t0) (\<lambda>(eid, t1).
     bind_res (read_uint env ''number'' t1) (\<lambda>(ty, t2).
       case dim_of_type ty of None \<Rightarrow> Inl (UnsupportedType eid ty)
       | Some d \<Rightarrow>
           bind_res (peek_uint env ''number'' t2) (\<lambda>n_tags.
             if n_tags < 2 then Inl (FewTags eid)
             else bind_res (read_uint env ''number'' (next_token t2)) (\<lambda>(region_id, t3).
               bind_res (read_uint env ''number'' t3) (\<lambda>(_, t4).
               bind_res (if 2 < n_tags then read_uint env ''number'' t4 else Inr (0, t4)) (\<lambda>(partition_id, t5).
               bind_res (fold_res (read_node_id env) ((next_token ^^ (unat n_tags - 3)) t5, snd s) [0..<n_nodes_of d]) (\<lambda>(t6, ids).
               bind_res (map_err MeshError (add_element (snd (fst s)) eid d region_id partition_id ids)) (\<lambda>m.
                 Inr ((t6, m), ids))))))))))"

definition read_elements ::
  "reader_env \<Rightarrow> tokenizer \<times> mesh_data \<Rightarrow> (reader_error, tokenizer \<times> mesh_data) res" where
  "read_elements env tm =
     bind_res (find_line env ''$Elements'' '''' (fst tm)) (\<lambda>(found, t0).
       if \<not> found then Inl (MissingSection ''$Elements'')
       else bind_res (advance_line env False t0) (\<lambda>t1.
         bind_res (peek_uint env ''number'' t1) (\<lambda>n_elements.
           if n_elements = 0 then Inl (ZeroCount ''elements'')
           else bind_res (fold_res (\<lambda>s _. read_element env s)
                  ((next_token t1, init_element_vector (snd tm)), replicate 4 0) [0..<unat n_elements]) (\<lambda>((t2, m), ids).
             bind_res (map_err MeshError (create_boundary_elements m)) (\<lambda>m'. Inr (t2, m'))))))"

section \<open>Names of regions\<close>

definition read_physical_name ::
  "reader_env \<Rightarrow> tokenizer \<times> mesh_data \<Rightarrow> (reader_error, tokenizer \<times> mesh_data) res" where
  "read_physical_name env tm =
     bind_res (advance_line env True (fst tm)) (\<lambda>t0.
     bind_res (read_uint env ''number'' t0) (\<lambda>(d, t1).
     bind_res (read_uint env ''number'' t1) (\<lambda>(rid, t2).
     bind_res (read_word t2) (\<lambda>(name, t3).
     bind_res (map_err MeshError (mesh_step (snd tm) (Add_Name d rid name))) (\<lambda>m. Inr (t3, m))))))"

definition read_physical_names ::
  "reader_env \<Rightarrow> tokenizer \<times> mesh_data \<Rightarrow> (reader_error, tokenizer \<times> mesh_data) res" where
  "read_physical_names env tm =
     bind_res (find_line env ''$PhysicalNames'' ''$Nodes'' (fst tm)) (\<lambda>(found, t0).
       if \<not> found then Inr (t0, snd tm)
       else bind_res (advance_line env False t0) (\<lambda>t1.
         bind_res (peek_uint env ''number'' t1) (\<lambda>n_physicals.
           fold_res (\<lambda>tm _. read_physical_name env tm) (next_token t1, snd tm) [0..<unat n_physicals])))"

definition read_raw_mesh ::
  "reader_env \<Rightarrow> tokenizer \<times> mesh_data \<Rightarrow> (reader_error, tokenizer \<times> mesh_data) res" where
  "read_raw_mesh env tm =
     bind_res (read_nodes env (set_position (split_line env) (fst tm) start_position, snd tm)) (read_elements env)"

section \<open>Lines of a file\<close>

text \<open>
  The lines the reader sees: the terminated lines of the rest of the stream, trimmed, without the empty
  ones and the comments.
\<close>

fun lines_acc :: "string \<Rightarrow> string \<Rightarrow> string list" where
  "lines_acc acc [] = []"
| "lines_acc acc (c # cs) = (if c = newline then rev acc # lines_acc [] cs else lines_acc (c # acc) cs)"

definition read_lines :: "reader_env \<Rightarrow> string \<Rightarrow> string list" where
  "read_lines env cs = filter (\<lambda>l. l \<noteq> '''' \<and> take 1 l \<noteq> ''#'') (map (trim_line env) (lines_acc [] cs))"

definition words :: "reader_env \<Rightarrow> string \<Rightarrow> string list" where
  "words env l = filter (\<lambda>w. w \<noteq> []) (split_line env l)"

text \<open>The tokenizer before lines, and in a line before words.\<close>

definition before_lines :: "reader_env \<Rightarrow> tokenizer \<Rightarrow> string list \<Rightarrow> bool" where
  "before_lines env t ls \<longleftrightarrow> good (in_stream t) \<and> comment_pattern t = ''#'' \<and> read_lines env (rest_of (in_stream t)) = ls"

definition before_words :: "reader_env \<Rightarrow> tokenizer \<Rightarrow> string list \<Rightarrow> string \<Rightarrow> string list \<Rightarrow> bool" where
  "before_words env t ws l ls \<longleftrightarrow> before_lines env t ls \<and> cur_line t = l
     \<and> (remaining t = [] \<or> hd (remaining t) \<noteq> []) \<and> filter (\<lambda>w. w \<noteq> []) (remaining t) = ws"

lemma lines_acc_line: "newline \<notin> set l \<Longrightarrow> lines_acc acc (l @ newline # r) = (rev acc @ l) # lines_acc [] r"
  by (induction l arbitrary: acc) auto

lemma lines_acc_none: "newline \<notin> set l \<Longrightarrow> lines_acc acc l = []"
  by (induction l arbitrary: acc) auto

lemma lines_acc_terminated:
  "\<forall>l \<in> set skip. newline \<notin> set l \<Longrightarrow> lines_acc [] (terminated skip @ tail) = skip @ lines_acc [] tail"
  by (induction skip) (simp_all add: terminated_def lines_acc_line)

lemma ignored_iff:
  "comment_pattern t = ''#'' \<Longrightarrow> ignored (trim_line env) t l \<longleftrightarrow> trim_line env l = '''' \<or> take 1 (trim_line env l) = ''#''"
  by (simp add: ignored_def is_comment_def)

lemma read_lines_skip:
  assumes "\<forall>l \<in> set skip. newline \<notin> set l \<and> (trim_line env l = '''' \<or> take 1 (trim_line env l) = ''#'')"
  shows "read_lines env (terminated skip @ tail) = read_lines env tail"
proof -
  have "lines_acc [] (terminated skip @ tail) = skip @ lines_acc [] tail" using assms lines_acc_terminated by blast
  moreover have "filter (\<lambda>l. l \<noteq> '''' \<and> take 1 l \<noteq> ''#'') (map (trim_line env) skip) = []"
    using assms by (auto simp: filter_empty_conv)
  ultimately show ?thesis by (simp add: read_lines_def)
qed

lemma advance_ok:
  assumes "before_lines env t (l # ls)"
  shows "\<exists>t'. advance_line env check t = Inr t' \<and> before_words env t' (words env l) l ls"
proof -
  have g: "good (in_stream t)" "comment_pattern t = ''#''" "read_lines env (rest_of (in_stream t)) = l # ls"
    using assms by (simp_all add: before_lines_def)
  obtain skip tail where r: "rest_of (in_stream t) = terminated skip @ tail"
    "\<forall>l \<in> set skip. newline \<notin> set l \<and> ignored (trim_line env) t l"
    and c: "newline \<notin> set tail \<or> (\<exists>l r. tail = l @ newline # r \<and> newline \<notin> set l \<and> \<not> ignored (trim_line env) t l)"
    using rest_cases [of "rest_of (in_stream t)" "ignored (trim_line env) t"] by blast
  have rl: "read_lines env tail = l # ls"
  proof -
    have "\<forall>l \<in> set skip. newline \<notin> set l \<and> (trim_line env l = '''' \<or> take 1 (trim_line env l) = ''#'')"
      using r(2) unfolding ignored_iff [OF g(2)] .
    from read_lines_skip [OF this, of tail] show ?thesis using g(3) r(1) by simp
  qed
  then have "newline \<in> set tail" using lines_acc_none by (fastforce simp: read_lines_def)
  then obtain k rest where k: "tail = k @ newline # rest" "newline \<notin> set k" "\<not> ignored (trim_line env) t k" using c by blast
  have l: "trim_line env k = l" "read_lines env rest = ls"
    using rl k lines_acc_line [OF k(2), of "[]"] ignored_iff [OF g(2), of env k] by (simp_all add: read_lines_def)
  from next_line_line [OF g(1) r(1) [unfolded k(1)] k(2) r(2) k(3), of "split_line env" check] obtain t' where
    t': "next_line (trim_line env) (split_line env) check t = Inr (True, t')" "cur_line t' = trim_line env k"
      "remaining t' = dropWhile (\<lambda>w. w = []) (split_line env (trim_line env k))" "good (in_stream t')"
      "rest_of (in_stream t') = rest" "comment_pattern t' = comment_pattern t" by blast
  have f: "filter (\<lambda>w. w \<noteq> []) (dropWhile (\<lambda>w. w = []) ws) = filter (\<lambda>w. w \<noteq> []) ws" for ws :: "string list"
    by (induction ws) auto
  have h: "dropWhile (\<lambda>w. w = []) ws = [] \<or> hd (dropWhile (\<lambda>w. w = []) ws) \<noteq> []" for ws :: "string list"
    by (induction ws) auto
  show ?thesis
    using t' l g(2) h by (intro exI [of _ t']) (simp add: advance_line_def before_words_def before_lines_def words_def f)
qed

section \<open>Words of a line\<close>

lemma before_words_line: "before_words env t ws l ls \<Longrightarrow> before_lines env t ls \<and> cur_line t = l"
  by (simp add: before_words_def)

lemma cur_token_ok: "before_words env t (w # ws) l ls \<Longrightarrow> cur_token t = Inr w"
  by (auto simp: before_words_def cur_token_def split: list.splits)

lemma next_token_fields [simp]:
  "in_stream (next_token t) = in_stream t" "cur_line (next_token t) = cur_line t"
  "comment_pattern (next_token t) = comment_pattern t"
  "remaining (next_token t) = dropWhile (\<lambda>w. w = []) (tl (remaining t))"
  by (simp_all add: next_token_def skip_empty_def step_token_def eol_def)

lemma next_token_ok:
  assumes "before_words env t ws l ls"
  shows "before_words env (next_token t) (tl ws) l ls"
proof -
  have d: "(dropWhile (\<lambda>w. w = []) us = [] \<or> hd (dropWhile (\<lambda>w. w = []) us) \<noteq> [])
    \<and> filter (\<lambda>w. w \<noteq> []) (dropWhile (\<lambda>w. w = []) us) = filter (\<lambda>w. w \<noteq> []) us" for us :: "string list"
    by (induction us) auto
  show ?thesis
    using assms d [of "tl (remaining t)"] by (cases "remaining t") (auto simp: before_words_def before_lines_def)
qed

lemma skip_tokens_ok: "before_words env t ws l ls \<Longrightarrow> before_words env ((next_token ^^ n) t) (drop n ws) l ls"
proof (induction n)
  case (Suc n)
  then show ?case using next_token_ok [of env "(next_token ^^ n) t" "drop n ws" l ls] by (simp add: drop_Suc tl_drop)
qed simp

lemma peek_uint_ok: "before_words env t (w # ws) l ls \<Longrightarrow> cast_uint env w = Some n \<Longrightarrow> peek_uint env what t = Inr n"
  by (simp add: peek_uint_def cur_token_ok)

lemma read_uint_ok:
  "before_words env t (w # ws) l ls \<Longrightarrow> cast_uint env w = Some n
   \<Longrightarrow> read_uint env what t = Inr (n, next_token t) \<and> before_words env (next_token t) ws l ls"
  using next_token_ok [of env t "w # ws" l ls] by (simp add: read_uint_def peek_uint_ok)

lemma read_double_ok:
  "before_words env t (w # ws) l ls \<Longrightarrow> cast_double env w = Some x
   \<Longrightarrow> read_double env what t = Inr (x, next_token t) \<and> before_words env (next_token t) ws l ls"
  using next_token_ok [of env t "w # ws" l ls] by (simp add: read_double_def cur_token_ok)

lemma read_word_ok:
  "before_words env t (w # ws) l ls \<Longrightarrow> read_word t = Inr (w, next_token t) \<and> before_words env (next_token t) ws l ls"
  using next_token_ok [of env t "w # ws" l ls] by (simp add: read_word_def cur_token_ok)

section \<open>Sections\<close>

text \<open>The lines behind the section line, searched from the current line on.\<close>

definition after_section :: "string \<Rightarrow> string list \<Rightarrow> string list option" where
  "after_section pat ls = (case dropWhile (\<lambda>l. \<not> sublist pat l) ls of [] \<Rightarrow> None | l # ls' \<Rightarrow> Some ls')"

lemma skip_loop_more:
  assumes "\<not> eof t" and "\<not> sublist pat (cur_line t)" and "ep \<noteq> [] \<longrightarrow> \<not> sublist ep (cur_line t)"
    and "next_line trim split False t = Inr (ok, t')"
  shows "skip_to trim split pat ep t = skip_to trim split pat ep t'"
proof -
  have "\<not> (ep \<noteq> [] \<and> sublist ep (cur_line t))" using assms(3) by blast
  then show ?thesis
    unfolding skip_to_def using assms(1,2,4)
    by (subst while_option_unfold) (simp only: skip_step_def skip_more.simps bind_res_simps prod.case if_False if_True not_False_eq_True simp_thms)
qed

lemma skip_loop_found:
  assumes "\<not> eof t" and "sublist pat (cur_line t)"
  shows "skip_to trim split pat ep t = Inr (True, set_tokenizer split t)"
proof -
  let ?u = "set_tokenizer split t"
  have "while_option skip_more (skip_step trim split pat ep) (Inr (None, t))
      = while_option skip_more (skip_step trim split pat ep) (Inr (Some True, ?u))"
    using assms by (subst while_option_unfold) (simp add: skip_step_def)
  also have "\<dots> = Some (Inr (Some True, ?u))" by (subst while_option_unfold) simp
  finally show ?thesis by (simp add: skip_to_def)
qed

lemma find_line_ok:
  assumes "before_lines env t ls" and "after_section pat (cur_line t # ls) = Some ls'"
    and "\<forall>l \<in> set (takeWhile (\<lambda>l. \<not> sublist pat l) (cur_line t # ls)). ep \<noteq> [] \<longrightarrow> \<not> sublist ep l"
  shows "\<exists>t'. find_line env pat ep t = Inr (True, t') \<and> before_lines env t' ls'"
  using assms
proof (induction ls arbitrary: t)
  case Nil
  have p: "sublist pat (cur_line t)" using Nil.prems(2) by (auto simp: after_section_def split: if_splits)
  then have "ls' = []" using Nil.prems(2) by (simp add: after_section_def)
  moreover have "\<not> eof t" using Nil.prems(1) by (simp add: before_lines_def good_def eof_def)
  ultimately show ?case
    using skip_loop_found [OF _ p, of "trim_line env" "split_line env" ep] Nil.prems(1) by (simp add: find_line_def before_lines_def)
next
  case (Cons l ls)
  have e: "\<not> eof t" using Cons.prems(1) by (simp add: before_lines_def good_def eof_def)
  show ?case
  proof (cases "sublist pat (cur_line t)")
    case True
    then have "ls' = l # ls" using Cons.prems(2) by (simp add: after_section_def)
    then show ?thesis
      using skip_loop_found [OF e True, of "trim_line env" "split_line env" ep] Cons.prems(1) by (simp add: find_line_def before_lines_def)
  next
    case False
    from advance_ok [OF Cons.prems(1), of False] obtain ok t1 where
      n: "next_line (trim_line env) (split_line env) False t = Inr (ok, t1)" and w: "before_words env t1 (words env l) l ls"
      by (auto simp: advance_line_def res_simps)
    note t1 = before_words_line [OF w]
    have c: "after_section pat (cur_line t1 # ls) = Some ls'"
      "\<forall>l \<in> set (takeWhile (\<lambda>l. \<not> sublist pat l) (cur_line t1 # ls)). ep \<noteq> [] \<longrightarrow> \<not> sublist ep l"
      and ep: "ep \<noteq> [] \<longrightarrow> \<not> sublist ep (cur_line t)"
      using Cons.prems(2,3) False t1 by (simp_all add: after_section_def)
    obtain t' where "find_line env pat ep t1 = Inr (True, t')" "before_lines env t' ls'"
      using Cons.IH [of t1] t1 c by blast
    then show ?thesis using skip_loop_more [OF e False ep n] by (simp add: find_line_def)
  qed
qed

section \<open>Commands of a file\<close>

text \<open>What a line with a node, an element or a name says.\<close>

fun node_cmd :: "reader_env \<Rightarrow> string list \<Rightarrow> mesh_cmd option" where
  "node_cmd env (i # x # y # z # ws) =
     (case (cast_uint env i, cast_double env x, cast_double env y, cast_double env z) of
        (Some n, Some a, Some b, Some c) \<Rightarrow> Some (Add_Node n [a, b, c])
      | _ \<Rightarrow> None)"
| "node_cmd env _ = None"

fun name_cmd :: "reader_env \<Rightarrow> string list \<Rightarrow> mesh_cmd option" where
  "name_cmd env (d # i # name # ws) =
     (case (cast_uint env d, cast_uint env i) of (Some k, Some n) \<Rightarrow> Some (Add_Name k n name) | _ \<Rightarrow> None)"
| "name_cmd env _ = None"

text \<open>The tags behind the second one, and the ids of the nodes; the vector of ids keeps its other entries.\<close>

fun partition_tag :: "reader_env \<Rightarrow> u32 \<Rightarrow> string list \<Rightarrow> (u32 \<times> string list) option" where
  "partition_tag env n_tags ws =
     (if n_tags \<le> 2 then Some (0, ws)
      else case ws of [] \<Rightarrow> None
        | w # ws' \<Rightarrow> (case cast_uint env w of None \<Rightarrow> None | Some p \<Rightarrow> Some (p, drop (unat n_tags - 3) ws')))"

fun some_uints :: "reader_env \<Rightarrow> nat \<Rightarrow> string list \<Rightarrow> u32 list option" where
  "some_uints env 0 ws = Some []"
| "some_uints env (Suc n) [] = None"
| "some_uints env (Suc n) (w # ws) =
     (case (cast_uint env w, some_uints env n ws) of (Some x, Some xs) \<Rightarrow> Some (x # xs) | _ \<Rightarrow> None)"

fun element_cmd :: "reader_env \<Rightarrow> u32 list \<Rightarrow> string list \<Rightarrow> (mesh_cmd \<times> u32 list) option" where
  "element_cmd env ids (e # ty # nt # r # g # ws) =
     (case (cast_uint env e, Option.bind (cast_uint env ty) dim_of_type, cast_uint env nt, cast_uint env r, cast_uint env g) of
        (Some eid, Some d, Some n_tags, Some rid, Some _) \<Rightarrow>
          if n_tags < 2 then None
          else (case partition_tag env n_tags ws of None \<Rightarrow> None
            | Some (p, ws') \<Rightarrow>
                (case some_uints env (n_nodes_of d) ws' of None \<Rightarrow> None
                 | Some ns \<Rightarrow> (let ids' = ns @ drop (n_nodes_of d) ids in Some (Add_Element eid d rid p ids', ids'))))
      | _ \<Rightarrow> None)"
| "element_cmd env ids _ = None"

fun element_cmds :: "reader_env \<Rightarrow> u32 list \<Rightarrow> string list \<Rightarrow> mesh_cmd list option" where
  "element_cmds env ids [] = Some []"
| "element_cmds env ids (l # ls) =
     (case element_cmd env ids (words env l) of None \<Rightarrow> None
      | Some (c, ids') \<Rightarrow> map_option (\<lambda>cs. c # cs) (element_cmds env ids' ls))"

text \<open>The reader of a line that gives one command.\<close>

locale line_command =
  fixes env :: reader_env
    and rd :: "tokenizer \<times> mesh_data \<Rightarrow> (reader_error, tokenizer \<times> mesh_data) res"
    and cmd :: "string list \<Rightarrow> mesh_cmd option"
  assumes rd_ok: "before_lines env t (l # ls) \<Longrightarrow> cmd (words env l) = Some c \<Longrightarrow>
    \<exists>t'. rd (t, m) = bind_res (map_err MeshError (mesh_step m c)) (\<lambda>m'. Inr (t', m')) \<and> before_lines env t' ls \<and> cur_line t' = l"
begin

lemma lines_ok:
  assumes "before_lines env t (ls @ rest)" and "those (map (\<lambda>l. cmd (words env l)) ls) = Some cs" and "length is = length ls"
  shows "\<exists>t'. fold_res (\<lambda>tm _. rd tm) (t, m) is = bind_res (map_err MeshError (fold_res mesh_step m cs)) (\<lambda>m'. Inr (t', m'))
    \<and> before_lines env t' rest \<and> cur_line t' = last (cur_line t # ls)"
  using assms
proof (induction ls arbitrary: t m cs "is")
  case Nil
  then show ?case by (intro exI [of _ t]) simp
next
  case (Cons l ls)
  obtain c cs' where c: "cmd (words env l) = Some c" "those (map (\<lambda>l. cmd (words env l)) ls) = Some cs'" "cs = c # cs'"
    using Cons.prems(2) by (auto split: option.splits)
  obtain i is' where i: "is = i # is'" "length is' = length ls" using Cons.prems(3) by (cases "is") auto
  have "before_lines env t (l # ls @ rest)" using Cons.prems(1) by simp
  from rd_ok [OF this c(1), of m] obtain t1 where
    t1: "rd (t, m) = bind_res (map_err MeshError (mesh_step m c)) (\<lambda>m'. Inr (t1, m'))"
      "before_lines env t1 (ls @ rest)" "cur_line t1 = l" by blast
  show ?case
  proof (cases "mesh_step m c")
    case (Inl e)
    from Cons.IH [OF t1(2) c(2) i(2), of m] show ?thesis using t1(1,3) Inl by (auto simp: i(1) c(3))
  next
    case (Inr m1)
    from Cons.IH [OF t1(2) c(2) i(2), of m1] show ?thesis using t1(1,3) Inr by (auto simp: i(1) c(3))
  qed
qed

end

lemma read_node_ok:
  assumes "before_lines env t (l # ls)" and "node_cmd env (words env l) = Some c"
  shows "\<exists>t'. read_node env (t, m) = bind_res (map_err MeshError (mesh_step m c)) (\<lambda>m'. Inr (t', m'))
    \<and> before_lines env t' ls \<and> cur_line t' = l"
proof -
  obtain i x y z ws n a b d where w: "words env l = i # x # y # z # ws" "cast_uint env i = Some n" "cast_double env x = Some a"
    "cast_double env y = Some b" "cast_double env z = Some d" "c = Add_Node n [a, b, d]"
    using assms(2) by (elim node_cmd.elims) (auto split: option.splits)
  obtain t0 where t0: "advance_line env True t = Inr t0" "before_words env t0 (i # x # y # z # ws) l ls"
    using advance_ok [OF assms(1), of True] w(1) by auto
  note r1 = read_uint_ok [OF t0(2) w(2), of "''number''"]
  note r2 = read_double_ok [OF conjunct2 [OF r1] w(3), of "''number''"]
  note r3 = read_double_ok [OF conjunct2 [OF r2] w(4), of "''number''"]
  note r4 = read_double_ok [OF conjunct2 [OF r3] w(5), of "''number''"]
  note r5 = before_words_line [OF next_token_ok [OF conjunct2 [OF r4]]]
  show ?thesis
    using t0(1) r1 r2 r3 r4 r5 by (intro exI conjI) (auto simp: read_node_def w(6))
qed

lemma read_physical_name_ok:
  assumes "before_lines env t (l # ls)" and "name_cmd env (words env l) = Some c"
  shows "\<exists>t'. read_physical_name env (t, m) = bind_res (map_err MeshError (mesh_step m c)) (\<lambda>m'. Inr (t', m'))
    \<and> before_lines env t' ls \<and> cur_line t' = l"
proof -
  obtain d i name ws k n where w: "words env l = d # i # name # ws" "cast_uint env d = Some k" "cast_uint env i = Some n"
    "c = Add_Name k n name"
    using assms(2) by (elim name_cmd.elims) (auto split: option.splits)
  obtain t0 where t0: "advance_line env True t = Inr t0" "before_words env t0 (d # i # name # ws) l ls"
    using advance_ok [OF assms(1), of True] w(1) by auto
  note r1 = read_uint_ok [OF t0(2) w(2), of "''number''"]
  note r2 = read_uint_ok [OF conjunct2 [OF r1] w(3), of "''number''"]
  note r3 = read_word_ok [OF conjunct2 [OF r2]]
  note r4 = before_words_line [OF conjunct2 [OF r3]]
  show ?thesis
    using t0(1) r1 r2 r3 r4 by (intro exI conjI) (auto simp: read_physical_name_def w(4))
qed

interpretation node_line: line_command env "read_node env" "node_cmd env" for env
  by unfold_locales (rule read_node_ok)

interpretation name_line: line_command env "read_physical_name env" "name_cmd env" for env
  by unfold_locales (rule read_physical_name_ok)

lemma read_node_ids_ok:
  assumes "before_words env t ws l ls" and "some_uints env n ws = Some ns" and "n \<le> length ids"
  shows "\<exists>t' ws'. fold_res (read_node_id env) (t, pre @ ids) [length pre..<length pre + n] = Inr (t', pre @ ns @ drop n ids)
    \<and> before_words env t' ws' l ls \<and> length ns = n"
  using assms
proof (induction n arbitrary: t ws ns pre ids)
  case 0
  then show ?case by auto
next
  case (Suc n)
  obtain w ws' x xs where w: "ws = w # ws'" "cast_uint env w = Some x" "some_uints env n ws' = Some xs" "ns = x # xs"
    using Suc.prems(2) by (cases ws) (auto split: option.splits)
  obtain y ids' where ids: "ids = y # ids'" "n \<le> length ids'" using Suc.prems(3) by (cases ids) auto
  note r = read_uint_ok [OF Suc.prems(1) [unfolded w(1)] w(2), of "''number''"]
  have one: "read_node_id env (t, pre @ ids) (length pre) = Inr (next_token t, (pre @ [x]) @ ids')"
    using r by (simp add: read_node_id_def ids(1))
  from Suc.IH [OF conjunct2 [OF r] w(3) ids(2), of "pre @ [x]"] obtain t' ws2 where
    "fold_res (read_node_id env) (next_token t, (pre @ [x]) @ ids') [Suc (length pre)..<Suc (length pre + n)]
      = Inr (t', (pre @ [x]) @ xs @ drop n ids')" "before_words env t' ws2 l ls" "length xs = n" by auto
  then show ?case
    using one by (intro exI [of _ t'] exI [of _ ws2]) (simp add: w(4) ids(1) upt_conv_Cons del: upt_Suc)
qed

lemma dim_of_type_nodes: "dim_of_type ty = Some d \<Longrightarrow> n_nodes_of d \<le> 4"
  by (auto simp: dim_of_type_def n_nodes_of_def split: if_splits)

lemma partition_tag_ok:
  assumes "before_words env t ws l ls" and "partition_tag env n_tags ws = Some (p, ws')" and "2 \<le> n_tags"
  shows "\<exists>t'. (if 2 < n_tags then read_uint env ''number'' t else Inr (0, t)) = Inr (p, t')
    \<and> before_words env ((next_token ^^ (unat n_tags - 3)) t') ws' l ls"
proof (cases "n_tags \<le> 2")
  case True
  then have "n_tags = 2" using assms(3) by simp
  then show ?thesis using assms(1,2) by simp
next
  case False
  then obtain w ws1 where w: "ws = w # ws1" "cast_uint env w = Some p" "ws' = drop (unat n_tags - 3) ws1"
    using assms(2) by (cases ws) (auto split: option.splits)
  note r = read_uint_ok [OF assms(1) [unfolded w(1)] w(2), of "''number''"]
  show ?thesis using r skip_tokens_ok [OF conjunct2 [OF r]] False by (auto simp: w(3))
qed

lemma read_element_ok:
  assumes "before_lines env t (l # ls)" and "element_cmd env ids (words env l) = Some (c, ids')" and "length ids = 4"
  shows "\<exists>t'. read_element env ((t, m), ids) = bind_res (map_err MeshError (mesh_step m c)) (\<lambda>m'. Inr ((t', m'), ids'))
    \<and> before_lines env t' ls \<and> cur_line t' = l \<and> length ids' = 4"
proof -
  obtain e ty nt r g ws eid ty' d n_tags rid g' p ws' ns where w: "words env l = e # ty # nt # r # g # ws"
    "cast_uint env e = Some eid" "cast_uint env ty = Some ty'" "dim_of_type ty' = Some d" "cast_uint env nt = Some n_tags"
    "cast_uint env r = Some rid" "cast_uint env g = Some g'" "\<not> n_tags < 2" "partition_tag env n_tags ws = Some (p, ws')"
    "some_uints env (n_nodes_of d) ws' = Some ns" "ids' = ns @ drop (n_nodes_of d) ids" "c = Add_Element eid d rid p ids'"
    using assms(2) by (elim element_cmd.elims) (auto simp: Let_def split: option.splits if_splits bind_splits)
  obtain t0 where t0: "advance_line env True t = Inr t0" "before_words env t0 (e # ty # nt # r # g # ws) l ls"
    using advance_ok [OF assms(1), of True] w(1) by auto
  note r1 = read_uint_ok [OF t0(2) w(2), of "''number''"]
  note r2 = read_uint_ok [OF conjunct2 [OF r1] w(3), of "''number''"]
  note r3 = peek_uint_ok [OF conjunct2 [OF r2] w(5), of "''number''"] next_token_ok [OF conjunct2 [OF r2], unfolded list.sel]
  note r4 = read_uint_ok [OF r3(2) w(6), of "''number''"]
  note r5 = read_uint_ok [OF conjunct2 [OF r4] w(7), of "''number''"]
  from partition_tag_ok [OF conjunct2 [OF r5] w(9)] w(8) obtain t6 where
    t6: "(if 2 < n_tags then read_uint env ''number'' (next_token (next_token (next_token (next_token (next_token t0)))))
        else Inr (0, next_token (next_token (next_token (next_token (next_token t0)))))) = Inr (p, t6)"
      "before_words env ((next_token ^^ (unat n_tags - 3)) t6) ws' l ls" by fastforce
  have "n_nodes_of d \<le> length ids" using dim_of_type_nodes [OF w(4)] assms(3) by simp
  from read_node_ids_ok [OF t6(2) w(10) this, of "[]"] obtain t7 ws2 where
    t7: "fold_res (read_node_id env) ((next_token ^^ (unat n_tags - 3)) t6, ids) [0..<n_nodes_of d] = Inr (t7, ids')"
      "before_words env t7 ws2 l ls" "length ns = n_nodes_of d" using w(11) by auto
  have "read_element env ((t, m), ids) = bind_res (map_err MeshError (mesh_step m c)) (\<lambda>m'. Inr ((t7, m'), ids'))"
    using t0(1) r1 r2 r3(1) r4 r5 t6(1) t7(1) w(4,8) by (simp add: read_element_def w(12))
  then show ?thesis
    using before_words_line [OF t7(2)] t7(3) w(11) assms(3) dim_of_type_nodes [OF w(4)] by auto
qed

lemma read_elements_ok:
  assumes "before_lines env t (ls @ rest)" and "element_cmds env ids ls = Some cs" and "length is = length ls" and "length ids = 4"
  shows "\<exists>t' ids'. fold_res (\<lambda>s _. read_element env s) ((t, m), ids) is
      = bind_res (map_err MeshError (fold_res mesh_step m cs)) (\<lambda>m'. Inr ((t', m'), ids')) \<and> before_lines env t' rest"
  using assms
proof (induction ls arbitrary: t m cs ids "is")
  case Nil
  then show ?case by (intro exI [of _ t] exI [of _ ids]) simp
next
  case (Cons l ls)
  obtain c ids1 cs' where c: "element_cmd env ids (words env l) = Some (c, ids1)" "element_cmds env ids1 ls = Some cs'" "cs = c # cs'"
    using Cons.prems(2) by (auto split: option.splits)
  obtain i is' where i: "is = i # is'" "length is' = length ls" using Cons.prems(3) by (cases "is") auto
  have "before_lines env t (l # ls @ rest)" using Cons.prems(1) by simp
  from read_element_ok [OF this c(1) Cons.prems(4), of m] obtain t1 where
    t1: "read_element env ((t, m), ids) = bind_res (map_err MeshError (mesh_step m c)) (\<lambda>m'. Inr ((t1, m'), ids1))"
      "before_lines env t1 (ls @ rest)" "length ids1 = 4" by blast
  show ?case
  proof (cases "mesh_step m c")
    case (Inl e)
    from Cons.IH [OF t1(2) c(2) i(2) t1(3), of m] show ?thesis using t1(1) Inl by (auto simp: i(1) c(3))
  next
    case (Inr m1)
    from Cons.IH [OF t1(2) c(2) i(2) t1(3), of m1] show ?thesis using t1(1) Inr by (auto simp: i(1) c(3))
  qed
qed

text \<open>The lines of a section: the first one has the number of those that follow.\<close>

definition counted_lines :: "reader_env \<Rightarrow> string list \<Rightarrow> (string list \<times> string list) option" where
  "counted_lines env ls =
     (case ls of [] \<Rightarrow> None
      | l # ls' \<Rightarrow> (case words env l of [] \<Rightarrow> None
         | w # ws \<Rightarrow> (case cast_uint env w of None \<Rightarrow> None
            | Some n \<Rightarrow> if n = 0 \<or> length ls' < unat n then None else Some (take (unat n) ls', drop (unat n) ls'))))"

definition section_lines :: "reader_env \<Rightarrow> string \<Rightarrow> string list \<Rightarrow> (string list \<times> string list) option" where
  "section_lines env pat ls = Option.bind (after_section pat ls) (counted_lines env)"

text \<open>The commands for the nodes and the elements of a file.\<close>

definition mesh_file :: "reader_env \<Rightarrow> string list \<Rightarrow> (mesh_cmd list \<times> mesh_cmd list) option" where
  "mesh_file env ls =
     Option.bind (section_lines env ''$Nodes'' ls) (\<lambda>(ns, rest).
     Option.bind (those (map (\<lambda>l. node_cmd env (words env l)) ns)) (\<lambda>cs.
     Option.bind (section_lines env ''$Elements'' (last ns # rest)) (\<lambda>(es, rest').
     map_option (\<lambda>ds. (cs, ds)) (element_cmds env (replicate 4 0) es))))"

lemma section_start:
  assumes "before_lines env t ls" and "section_lines env pat (cur_line t # ls) = Some (xs, rest)"
  shows "\<exists>t0 t1 n. find_line env pat '''' t = Inr (True, t0) \<and> advance_line env False t0 = Inr t1 \<and> peek_uint env ''number'' t1 = Inr n
    \<and> before_lines env (next_token t1) (xs @ rest) \<and> n \<noteq> 0 \<and> length xs = unat n"
proof -
  obtain ls' where ls': "after_section pat (cur_line t # ls) = Some ls'" "counted_lines env ls' = Some (xs, rest)"
    using assms(2) by (auto simp: section_lines_def bind_eq_Some_conv)
  obtain l ls2 w ws n where l: "ls' = l # ls2" "words env l = w # ws" "cast_uint env w = Some n" "n \<noteq> 0" "unat n \<le> length ls2"
    "xs = take (unat n) ls2" "rest = drop (unat n) ls2"
    using ls'(2) by (auto simp: counted_lines_def split: list.splits option.splits if_splits)
  obtain t0 where t0: "find_line env pat '''' t = Inr (True, t0)" "before_lines env t0 ls'"
    using find_line_ok [OF assms(1) ls'(1), of "''''"] by auto
  obtain t1 where t1: "advance_line env False t0 = Inr t1" "before_words env t1 (w # ws) l ls2"
    using advance_ok [of env t0 l ls2 False] t0(2) l(1,2) by auto
  show ?thesis
    using t0(1) t1(1) peek_uint_ok [OF t1(2) l(3), of "''number''"] before_words_line [OF next_token_ok [OF t1(2)]] l(4-7)
    by (intro exI conjI) auto
qed

section \<open>Success keeps the mesh well formed\<close>

lemma read_node_add:
  assumes "read_node env tm = Inr tm'"
  shows "\<exists>c. mesh_cmd_allowed c \<and> mesh_step (snd tm) c = Inr (snd tm')"
proof -
  obtain nid p where "add_node (snd tm) nid p = Inr (snd tm')"
    using assms by (auto simp: read_node_def res_simps split: prod.splits)
  then show ?thesis by (intro exI [of _ "Add_Node nid p"]) simp
qed

lemma read_element_add:
  assumes "read_element env s = Inr s'"
  shows "\<exists>c. mesh_cmd_allowed c \<and> mesh_step (snd (fst s)) c = Inr (snd (fst s'))"
proof -
  obtain eid d r p ids where "add_element (snd (fst s)) eid d r p ids = Inr (snd (fst s'))"
    using assms by (auto simp: read_element_def res_simps split: option.splits if_splits prod.splits)
  then show ?thesis by (intro exI [of _ "Add_Element eid d r p ids"]) simp
qed

lemma init_vectors_reading:
  assumes "reading m"
  shows "reading (init_node_vector m)" and "reading (init_element_vector m)"
proof -
  have e: "map_ok empty_map" "vals_vec empty_map = []" by (rule empty_map_ok) (simp add: empty_map_def)
  show "reading (init_node_vector m)" "reading (init_element_vector m)"
    using assms e by (auto simp: reading_def mesh_ok_def init_node_vector_def init_element_vector_def clear_map_def)
qed

lemma read_nodes_reading:
  assumes "reading m" and "read_nodes env (t, m) = Inr (t', m')"
  shows "reading m'"
proof -
  have init: "reading (init_node_vector m)" by (rule init_vectors_reading [OF assms(1)])
  obtain t1 n where f: "fold_res (\<lambda>tm _. read_node env tm) (next_token t1, init_node_vector m) [0..<n] = Inr (t', m')"
    using assms(2) by (auto simp: read_nodes_def Let_def res_simps split: if_splits)
  have "reading (snd (t', m'))"
    by (rule fold_res_invariant [OF f, where I = "\<lambda>tm. reading (snd tm)"])
      (use init read_node_add building.step_keeps in \<open>auto, metis snd_conv\<close>)
  then show ?thesis by simp
qed

lemma read_elements_reading:
  assumes "reading m" and "read_elements env (t, m) = Inr (t', m')"
  shows "\<exists>m1. reading m1 \<and> create_boundary_elements m1 = Inr m'"
proof -
  obtain t1 n t2 m1 ids where f: "fold_res (\<lambda>s _. read_element env s) ((next_token t1, init_element_vector m), replicate 4 0) [0..<n]
      = Inr ((t2, m1), ids)" and c: "create_boundary_elements m1 = Inr m'"
    using assms(2) by (auto simp: read_elements_def Let_def res_simps split: if_splits)
  have "reading (snd (fst ((t2, m1), ids)))"
    by (rule fold_res_invariant [OF f, where I = "\<lambda>s. reading (snd (fst s))"])
      (use init_vectors_reading(2) [OF assms(1)] read_element_add building.step_keeps in \<open>auto, metis fst_conv snd_conv\<close>)
  then show ?thesis using c by auto
qed

lemma raw_mesh_steps:
  assumes "comment_pattern t = ''#''" and parsed: "mesh_file env (read_lines env (content (in_stream t))) = Some (ns, es)"
  shows "\<exists>t'. read_raw_mesh env (t, m) = bind_res (map_err MeshError
      (bind_res (fold_res mesh_step (init_node_vector m) ns) (\<lambda>m1.
       bind_res (fold_res mesh_step (init_element_vector m1) es) create_boundary_elements))) (\<lambda>m'. Inr (t', m'))"
proof -
  define t0 where "t0 = set_position (split_line env) (set_position (split_line env) t start_position) start_position"
  have sp: "before_lines env (set_position (split_line env) u start_position) (read_lines env (content (in_stream u)))
      \<and> content (in_stream (set_position (split_line env) u start_position)) = content (in_stream u)
      \<and> comment_pattern (set_position (split_line env) u start_position) = ''#''" if "comment_pattern u = ''#''" for u
    using set_position_fields(1,2) [of start_position 0 u "split_line env"] that
    by (simp add: before_lines_def good_def rest_of_def start_position_def)
  have t0: "before_lines env t0 (read_lines env (content (in_stream t)))"
    using sp [OF assms(1)] sp [of "set_position (split_line env) t start_position"] by (simp add: t0_def)
  have cur: "cur_line t0 = ''''" by (simp add: t0_def set_position_def)
  obtain nls rest els rest' where s: "section_lines env ''$Nodes'' (read_lines env (content (in_stream t))) = Some (nls, rest)"
    "those (map (\<lambda>l. node_cmd env (words env l)) nls) = Some ns"
    "section_lines env ''$Elements'' (last nls # rest) = Some (els, rest')" "element_cmds env (replicate 4 0) els = Some es"
    using parsed by (auto simp: mesh_file_def bind_eq_Some_conv)
  have s1: "section_lines env ''$Nodes'' (cur_line t0 # read_lines env (content (in_stream t))) = Some (nls, rest)"
    using s(1) by (simp add: section_lines_def after_section_def cur)
  from section_start [OF t0 s1] obtain t1 t2 n where
    a: "find_line env ''$Nodes'' '''' t0 = Inr (True, t1)" "advance_line env False t1 = Inr t2" "peek_uint env ''number'' t2 = Inr n"
      "before_lines env (next_token t2) (nls @ rest)" "n \<noteq> 0" "length nls = unat n" by blast
  obtain t3 where nodes: "fold_res (\<lambda>tm _. read_node env tm) (next_token t2, init_node_vector m) [0..<unat n]
      = bind_res (map_err MeshError (fold_res mesh_step (init_node_vector m) ns)) (\<lambda>m'. Inr (t3, m'))"
    "before_lines env t3 rest" "cur_line t3 = last (cur_line (next_token t2) # nls)"
    using node_line.lines_ok [OF a(4) s(2), of "[0..<unat n]" "init_node_vector m"] a(6) by auto
  have "nls \<noteq> []" using a(5,6) by (auto simp: unat_eq_0)
  then have s2: "section_lines env ''$Elements'' (cur_line t3 # rest) = Some (els, rest')" using nodes(3) s(3) by simp
  from section_start [OF nodes(2) s2] obtain t4 t5 k where
    b: "find_line env ''$Elements'' '''' t3 = Inr (True, t4)" "advance_line env False t4 = Inr t5" "peek_uint env ''number'' t5 = Inr k"
      "before_lines env (next_token t5) (els @ rest')" "k \<noteq> 0" "length els = unat k" by blast
  have len: "length [0..<unat k] = length els" "length (replicate 4 (0::u32)) = 4" using b(6) by simp_all
  have rn: "read_raw_mesh env (t, m) = bind_res (bind_res (map_err MeshError (fold_res mesh_step (init_node_vector m) ns))
      (\<lambda>m'. Inr (t3, m'))) (read_elements env)"
    using a nodes(1) by (simp add: read_raw_mesh_def read_nodes_def Let_def t0_def)
  show ?thesis
  proof (cases "fold_res mesh_step (init_node_vector m) ns")
    case (Inl e)
    then show ?thesis using rn by simp
  next
    case (Inr m1)
    from read_elements_ok [OF b(4) s(4) len, of "init_element_vector m1"] obtain t6 ids' where
      "fold_res (\<lambda>s _. read_element env s) ((next_token t5, init_element_vector m1), replicate 4 0) [0..<unat k]
        = bind_res (map_err MeshError (fold_res mesh_step (init_element_vector m1) es)) (\<lambda>m'. Inr ((t6, m'), ids'))" by blast
    then have "read_elements env (t3, m1) = bind_res (map_err MeshError (bind_res (fold_res mesh_step (init_element_vector m1) es)
        create_boundary_elements)) (\<lambda>m'. Inr (t6, m'))"
      using b by (cases "fold_res mesh_step (init_element_vector m1) es") (simp_all add: read_elements_def)
    then show ?thesis using rn Inr by simp blast
  qed
qed

section \<open>A sample file\<close>

text \<open>Words between blanks, decimal numbers, and the numbers zero and one as coordinates.\<close>

fun split_blanks :: "string \<Rightarrow> string \<Rightarrow> string list" where
  "split_blanks acc [] = [rev acc]"
| "split_blanks acc (c # cs) = (if c = CHR '' '' then rev acc # split_blanks [] cs else split_blanks (c # acc) cs)"

definition decimal :: "string \<Rightarrow> u32 option" where
  "decimal w = (if w \<noteq> [] \<and> list_all (\<lambda>c. c \<in> set ''0123456789'') w
     then Some (foldl (\<lambda>n c. 10 * n + of_nat (length (takeWhile (\<lambda>d. d \<noteq> c) ''0123456789''))) 0 w) else None)"

definition zero_one :: "string \<Rightarrow> double option" where
  "zero_one w = (if w = ''0'' then Some 0 else if w = ''1'' then Some 1 else None)"

definition sample_env :: reader_env where
  "sample_env = \<lparr>trim_line = (\<lambda>l. l), split_line = split_blanks [], cast_uint = decimal, cast_double = zero_one\<rparr>"

definition sample_text :: string where
  "sample_text = terminated [''$MeshFormat'', ''# comment'', ''$Nodes'', ''2'', ''10 0 0 0'', '''', ''11 1 0 0'', ''$EndNodes'',
     ''$Elements'', ''1'', ''7 1 3 5 5 0 10 11'', ''$EndElements'']"

definition sample_tokenizer :: tokenizer where
  "sample_tokenizer = set_comment_pattern (new_tokenizer (open_stream sample_text)) ''#''"

lemma sample_parsed:
  "mesh_file sample_env (read_lines sample_env sample_text)
   = Some ([Add_Node 10 [0, 0, 0], Add_Node 11 [1, 0, 0]], [Add_Element 7 1 5 0 [10, 11, 0, 0]])"
  by code_simp

lemma sample_mesh:
  "case bind_res (fold_res mesh_step (init_node_vector empty_mesh) [Add_Node 10 [0, 0, 0], Add_Node 11 [1, 0, 0]]) (\<lambda>m1.
       bind_res (fold_res mesh_step (init_element_vector m1) [Add_Element 7 1 5 0 [10, 11, 0, 0]]) create_boundary_elements) of
     Inl e \<Rightarrow> False | Inr m \<Rightarrow> length (mesh_nodes m) = 2 \<and> map elem_nodes (element_vec m) = [[0, 1]]"
  by code_simp

lemma sample_tokenizer_fields: "comment_pattern sample_tokenizer = ''#''" "content (in_stream sample_tokenizer) = sample_text"
  by (simp_all add: sample_tokenizer_def set_comment_pattern_def new_tokenizer_def open_stream_def)

lemma sample_read: "\<exists>t' m'. read_raw_mesh sample_env (sample_tokenizer, empty_mesh) = Inr (t', m')"
  using raw_mesh_steps [OF sample_tokenizer_fields(1), unfolded sample_tokenizer_fields(2), OF sample_parsed, of empty_mesh] sample_mesh
  by (auto split: sum.splits)

section \<open>Properties\<close>

text \<open>
  C18. A file with its sections in order is read as it says: when the lines of the file (without
  the empty lines and the comments) have a \<open>$Nodes\<close> and then an \<open>$Elements\<close> section whose lines parse, \<open>read_raw_mesh\<close>
  returns for every state of the tokenizer, and it does exactly what adding these nodes and
  elements one after the other and then the boundary elements does, with the errors of these calls.
\<close>

theorem raw_mesh_reading:
  assumes "comment_pattern t = ''#''" and parsed: "mesh_file env (read_lines env (content (in_stream t))) = Some (ns, es)"
  shows "\<exists>t'. read_raw_mesh env (t, m) = bind_res (map_err MeshError
      (bind_res (fold_res mesh_step (init_node_vector m) ns) (\<lambda>m1.
       bind_res (fold_res mesh_step (init_element_vector m1) es) create_boundary_elements))) (\<lambda>m'. Inr (t', m'))"
  by (rule raw_mesh_steps [OF assms])

text \<open>The sample file, read into an empty mesh.\<close>

theorem raw_mesh_reading_witness:
  "\<exists>t' m'. read_raw_mesh sample_env (sample_tokenizer, empty_mesh) = Inr (t', m') \<and> map elem_nodes (element_vec m') = [[0, 1]]"
  using raw_mesh_reading [OF sample_tokenizer_fields(1), unfolded sample_tokenizer_fields(2), OF sample_parsed, of empty_mesh] sample_mesh
  by (auto split: sum.splits)

text \<open>
  C20. Whatever the file holds: when \<open>read_raw_mesh\<close> succeeds on a mesh that has a sound database of
  regions, the mesh it makes is well formed: ids and positions of nodes and elements correspond,
  bulk elements come before boundary elements and lie in existing regions of their kind, and no boundary element is left
  over.
\<close>

theorem raw_mesh_well_formed:
  assumes "reading m" and "read_raw_mesh env (t, m) = Inr (t', m')"
  shows "mesh_ok m' \<and> bc_element_tmp m' = []"
proof -
  obtain t1 m1 where r: "read_nodes env (set_position (split_line env) t start_position, m) = Inr (t1, m1)"
    "read_elements env (t1, m1) = Inr (t', m')"
    using assms(2) by (auto simp: read_raw_mesh_def res_simps)
  from read_elements_reading [OF read_nodes_reading [OF assms(1) r(1)] r(2)] obtain m2 where
    "reading m2" "create_boundary_elements m2 = Inr m'" by blast
  then show ?thesis using create_boundary_elements_ok [of m2 m'] by blast
qed

text \<open>The mesh of the sample file.\<close>

theorem raw_mesh_well_formed_witness:
  "\<exists>t' m'. read_raw_mesh sample_env (sample_tokenizer, empty_mesh) = Inr (t', m') \<and> mesh_ok m'"
proof -
  obtain t' m' where "read_raw_mesh sample_env (sample_tokenizer, empty_mesh) = Inr (t', m')" using sample_read by blast
  with raw_mesh_well_formed [OF empty_mesh_reading this] show ?thesis by blast
qed

end
