(* ===== verification/Data_Reader.thy ===== *)
theory Data_Reader
  imports Gmsh_Reader
begin

text \<open>
  The element data of GMSH files: the table of the headers of \<open>$ElementData\<close> sections, the search for the header of a field and a
  time, and the reading of the values into caches, from \<open>src/src/io/msh_gmshreader.cc\<close>, \<open>msh_basereader.cc\<close> and
  \<open>msh_basereader.hh\<close>. The members of a header that only the VTK reader uses and the warnings are left out.
\<close>

section \<open>Headers of data\<close>

datatype discrete_space = Node_Data | Corner_Data | Elem_Data | Native_Data | Undefined_Space

record mesh_data_header =
  head_field :: string
  interpolation_scheme :: string
  head_time :: double
  time_index :: u32
  n_components :: u32
  n_entities :: u32
  partition_index :: u32
  head_position :: tok_position
  discretization :: discrete_space

text \<open>One tag, when there is one left; the counter of the tags is returned.\<close>

definition read_tag ::
  "reader_env \<Rightarrow> (tokenizer \<Rightarrow> (reader_error, 'a \<times> tokenizer) res) \<Rightarrow> 'a \<Rightarrow> u32 \<times> tokenizer
   \<Rightarrow> (reader_error, 'a \<times> u32 \<times> tokenizer) res" where
  "read_tag env rd default_value nt =
     (if 0 < fst nt
      then bind_res (advance_line env True (snd nt)) (\<lambda>t. bind_res (rd t) (\<lambda>(x, t'). Inr (x, fst nt - 1, t')))
      else Inr (default_value, nt))"

definition skip_lines :: "reader_env \<Rightarrow> nat \<Rightarrow> tokenizer \<Rightarrow> (reader_error, tokenizer) res" where
  "skip_lines env n t = fold_res (\<lambda>t _. advance_line env False t) t [0..<n]"

definition head_text :: string where
  "head_text = ''$ElementData header''"

definition read_data_header :: "reader_env \<Rightarrow> tokenizer \<Rightarrow> (reader_error, mesh_data_header \<times> tokenizer) res" where
  "read_data_header env t =
     bind_res (advance_line env False t) (\<lambda>t0.
     bind_res (read_uint env head_text t0) (\<lambda>ns0.
     bind_res (read_tag env read_word '''' ns0) (\<lambda>(field_name, ns1).
     bind_res (read_tag env read_word '''' ns1) (\<lambda>(scheme, ns2).
     bind_res (skip_lines env (unat (fst ns2)) (snd ns2)) (\<lambda>t1.
     bind_res (advance_line env True t1) (\<lambda>t2.
     bind_res (read_uint env head_text t2) (\<lambda>nr0.
     bind_res (read_tag env (read_double env head_text) 0 nr0) (\<lambda>(tm, nr1).
     bind_res (skip_lines env (unat (fst nr1)) (snd nr1)) (\<lambda>t3.
     bind_res (advance_line env True t3) (\<lambda>t4.
     bind_res (read_uint env head_text t4) (\<lambda>ni0.
     bind_res (read_tag env (read_uint env head_text) 0 ni0) (\<lambda>(t_index, ni1).
     bind_res (read_tag env (read_uint env head_text) 1 ni1) (\<lambda>(comps, ni2).
     bind_res (read_tag env (read_uint env head_text) 0 ni2) (\<lambda>(entities, ni3).
     bind_res (skip_lines env (unat (fst ni3)) (snd ni3)) (\<lambda>t5.
       let (t6, p) = tokenizer_get_position t5 in
       Inr (\<lparr>head_field = field_name, interpolation_scheme = scheme, head_time = tm, time_index = t_index,
             n_components = comps, n_entities = entities, partition_index = 0, head_position = p,
             discretization = Elem_Data\<rparr>, t6))))))))))))))))"

type_synonym head_map = "string \<Rightarrow> mesh_data_header list option"

definition insert_header :: "head_map \<Rightarrow> mesh_data_header \<Rightarrow> head_map" where
  "insert_header table h =
     (case table (head_field h) of
        None \<Rightarrow> table(head_field h \<mapsto> [h])
      | Some hs \<Rightarrow> (if head_time h \<le> head_time (last hs) then table else table(head_field h \<mapsto> hs @ [h])))"

definition header_step ::
  "reader_env \<Rightarrow> (reader_error, head_map \<times> tokenizer) res \<Rightarrow> (reader_error, head_map \<times> tokenizer) res" where
  "header_step env r =
     bind_res r (\<lambda>(table, t).
     bind_res (find_line env ''$ElementData'' '''' t) (\<lambda>(found, t0).
       if found then bind_res (read_data_header env t0) (\<lambda>(h, t1). Inr (insert_header table h, t1))
       else Inr (table, t0)))"

fun more_headers :: "(reader_error, head_map \<times> tokenizer) res \<Rightarrow> bool" where
  "more_headers (Inr (table, t)) \<longleftrightarrow> \<not> eof t"
| "more_headers (Inl e) \<longleftrightarrow> False"

definition make_header_table :: "reader_env \<Rightarrow> tokenizer \<Rightarrow> (reader_error, head_map \<times> tokenizer) res" where
  "make_header_table env t =
     (case while_option more_headers (header_step env) (Inr (\<lambda>_. None, t)) of
        None \<Rightarrow> Inl NoLoopEnd
      | Some r \<Rightarrow> bind_res r (\<lambda>(table, t'). Inr (table, set_position (split_line env) t' start_position)))"

section \<open>Reader\<close>

record gmsh_reader =
  tok :: tokenizer
  header_table :: head_map
  actual_header :: "mesh_data_header option"
  has_compatible_mesh :: bool
  bulk_elements_id :: "int list"
  boundary_elements_id :: "int list"
  element_data_values :: "string \<Rightarrow> double data_cache option"

record header_query =
  query_field :: string
  query_time :: double
  query_discretization :: discrete_space

definition new_gmsh_reader :: "reader_env \<Rightarrow> tokenizer \<Rightarrow> (reader_error, gmsh_reader) res" where
  "new_gmsh_reader env t =
     bind_res (make_header_table env (set_comment_pattern t ''#'')) (\<lambda>(table, t').
       Inr \<lparr>tok = t', header_table = table, actual_header = None, has_compatible_mesh = False,
            bulk_elements_id = [], boundary_elements_id = [], element_data_values = (\<lambda>_. None)\<rparr>)"

datatype reader_kind = Gmsh_Kind | Vtk_Kind | Pvd_Kind

definition reader_factory :: "string \<Rightarrow> (reader_error, reader_kind) res" where
  "reader_factory extension =
     (if extension = ''.msh'' then Inr Gmsh_Kind
      else if extension = ''.vtu'' then Inr Vtk_Kind
      else if extension = ''.pvd'' then Inr Pvd_Kind
      else Inl (WrongExtension extension))"

text \<open>\<open>std::upper_bound\<close> on headers with increasing times: the first header whose time is after the tolerance.\<close>

definition header_after :: "double \<Rightarrow> mesh_data_header \<Rightarrow> bool" where
  "header_after t h \<longleftrightarrow> t * Fin (1 + 2 * epsilon) < head_time h"

definition find_header ::
  "gmsh_reader \<Rightarrow> header_query \<Rightarrow> (reader_error, mesh_data_header \<times> gmsh_reader \<times> header_query) res" where
  "find_header r q =
     (let q' = q\<lparr>query_discretization := Elem_Data\<rparr> in
      case header_table r (query_field q) of
        None \<Rightarrow> Inl (FieldNameNotFound (query_field q))
      | Some hs \<Rightarrow>
          (let k = length (takeWhile (\<lambda>h. \<not> header_after (query_time q) h) hs) in
           if k = 0 then Inl (FieldNameNotFound (query_field q))
           else Inr (hs ! (k - 1), r\<lparr>actual_header := Some (hs ! (k - 1))\<rparr>, q')))"

definition check_compatible_mesh :: "gmsh_reader \<Rightarrow> mesh_data \<Rightarrow> (reader_error, gmsh_reader) res" where
  "check_compatible_mesh r m =
     bind_res (map_err MeshError (elements_id_maps m [] [])) (\<lambda>(bulk, bc).
       Inr (r\<lparr>bulk_elements_id := bulk, boundary_elements_id := bc, has_compatible_mesh := True\<rparr>))"

definition get_element_vector :: "gmsh_reader \<Rightarrow> bool \<Rightarrow> int list" where
  "get_element_vector r boundary_domain = (if boundary_domain then boundary_elements_id r else bulk_elements_id r)"

section \<open>Element data\<close>

fun row_error :: "cache_error \<Rightarrow> reader_error" where
  "row_error (CacheCast l p) = WrongFormat ''$ElementData line'' l p"
| "row_error (CacheToken e) = TokError e"
| "row_error e = CacheError e"

text \<open>
  The loop over the rows of data; \<open>k\<close> is the place of the iterator \<open>id_iter\<close>. The loop ends early when no id is left.
  The result has the number of rows for which the counter was not increased; these many lines are skipped then.
\<close>

primrec read_rows ::
  "reader_env \<Rightarrow> nat \<Rightarrow> int list \<Rightarrow> nat \<Rightarrow> nat \<Rightarrow> double data_cache \<times> tokenizer
   \<Rightarrow> (reader_error, nat \<times> double data_cache \<times> tokenizer) res" where
  "read_rows env nc ids 0 k ct = Inr (0, ct)"
| "read_rows env nc ids (Suc n) k ct =
     bind_res (advance_line env True (snd ct)) (\<lambda>t0.
     bind_res (read_uint env ''$ElementData line'' t0) (\<lambda>(eid, t1).
       let k' = k + length (takeWhile (\<lambda>i. i < sint eid) (drop k ids)) in
       if k' = length ids then Inr (Suc n, fst ct, t1)
       else if ids ! k' = sint eid
       then bind_res (map_err row_error (read_ascii_data (cast_double env) nc k' (fst ct, t1))) (read_rows env nc ids n k')
       else read_rows env nc ids n k' (fst ct, t1)))"

definition read_element_data ::
  "reader_env \<Rightarrow> gmsh_reader \<Rightarrow> double data_cache \<Rightarrow> mesh_data_header \<Rightarrow> nat \<Rightarrow> bool
   \<Rightarrow> (reader_error, double data_cache \<times> gmsh_reader) res" where
  "read_element_data env r c h nc boundary_domain =
     bind_res (read_rows env nc (get_element_vector r boundary_domain) (unat (n_entities h)) 0
         (c, set_position (split_line env) (tok r) (head_position h))) (\<lambda>(left_rows, c', t).
     bind_res (skip_lines env left_rows t) (\<lambda>t'. Inr (c', r\<lparr>tok := t'\<rparr>)))"

definition get_element_data ::
  "reader_env \<Rightarrow> gmsh_reader \<Rightarrow> nat \<Rightarrow> u32 \<Rightarrow> bool \<Rightarrow> nat option \<Rightarrow> (reader_error, double list \<times> gmsh_reader) res" where
  "get_element_data env r entities comps boundary_domain component_idx =
     (case actual_header r of
        None \<Rightarrow> Inl ReaderAssert
      | Some h \<Rightarrow>
        if \<not> has_compatible_mesh r \<or> head_field h = '''' then Inl ReaderAssert
        else
          let old = (case element_data_values r (head_field h) of None \<Rightarrow> empty_cache | Some c \<Rightarrow> c);
              actual = is_actual old (head_time h) (head_field h);
              size_of_cache = (if comps = 1 then unat (n_components h) else 1);
              h' = (if actual \<or> comps = 1 then h else h\<lparr>n_components := comps\<rparr>) in
          bind_res
            (if actual then Inr (old, r)
             else read_element_data env r (input_cache NaN (head_field h) (head_time h) size_of_cache (unat comps * entities))
               h' (unat comps) boundary_domain)
            (\<lambda>(c, r').
              bind_res (map_err CacheError (get_component_data c (case component_idx of None \<Rightarrow> 0 | Some i \<Rightarrow> i))) (\<lambda>vec.
                Inr (vec, r'\<lparr>element_data_values := (element_data_values r')(head_field h \<mapsto> c),
                             actual_header := Some (h'\<lparr>head_field := ''''\<rparr>)\<rparr>))))"

definition scale_and_check_limits ::
  "gmsh_reader \<Rightarrow> string \<Rightarrow> double \<Rightarrow> double \<Rightarrow> double \<Rightarrow> double \<Rightarrow> (reader_error, check_result \<times> gmsh_reader) res" where
  "scale_and_check_limits r field_name coef default_val lower upper =
     (case element_data_values r field_name of
        None \<Rightarrow> Inl ReaderAssert
      | Some c \<Rightarrow>
          (let (res, c') = check_and_scale c coef default_val lower upper in
           Inr (res, r\<lparr>element_data_values := (element_data_values r)(field_name \<mapsto> c')\<rparr>)))"

section \<open>Every step returns\<close>

text \<open>
  A step from a tokenizer that is at the end of its stream or before more input either throws an exception of the
  reader, or ends in such a state again with no more input left than before.
\<close>

definition stream_ok :: "tokenizer \<Rightarrow> bool" where
  "stream_ok t \<longleftrightarrow> eof t \<or> good (in_stream t)"

definition returns :: "('a \<Rightarrow> tokenizer) \<Rightarrow> nat \<Rightarrow> (reader_error, 'a) res \<Rightarrow> bool" where
  "returns tk n r \<longleftrightarrow> (case r of Inl e \<Rightarrow> e \<noteq> TokError NoReturn \<and> e \<noteq> NoLoopEnd | Inr x \<Rightarrow> stream_ok (tk x) \<and> left (tk x) \<le> n)"

lemma returns_bind:
  assumes "returns tk n r" and "\<And>x. r = Inr x \<Longrightarrow> stream_ok (tk x) \<Longrightarrow> left (tk x) \<le> n \<Longrightarrow> returns tk' n (f x)"
  shows "returns tk' n (bind_res r f)"
  using assms by (cases r) (auto simp: returns_def)

lemma returns_Inr: "stream_ok (tk x) \<Longrightarrow> left (tk x) \<le> n \<Longrightarrow> returns tk n (Inr x)"
  by (simp add: returns_def)

lemma next_line_stream:
  assumes "stream_ok t"
  shows "\<exists>ok t'. next_line trim split c t = Inr (ok, t') \<and> stream_ok t' \<and> left t' \<le> left t \<and> (\<not> eof t \<longrightarrow> left t' < left t)"
proof (cases "eof t")
  case True
  then show ?thesis by (auto simp: next_line_def Let_def stream_ok_def eof_def left_def)
next
  case False
  then have "good (in_stream t)" using assms by (simp add: stream_ok_def)
  from next_line_total [OF this, of trim split c] obtain ok t' where
    "next_line trim split c t = Inr (ok, t')" "eof t' \<or> good (in_stream t')" "left t' < left t" by blast
  then show ?thesis using False by (auto simp: stream_ok_def)
qed

lemma advance_returns: "stream_ok t \<Longrightarrow> left t \<le> n \<Longrightarrow> returns (\<lambda>t. t) n (advance_line env c t)"
  using next_line_stream [of t "trim_line env" "split_line env" c] by (auto simp: advance_line_def returns_def)

lemma next_token_stream [simp]: "stream_ok (next_token t) = stream_ok t" "left (next_token t) = left t"
  by (simp_all add: stream_ok_def left_def eof_def)

lemma cur_token_error: "cur_token t \<noteq> Inl NoReturn"
  by (simp add: cur_token_def split: list.splits)

lemma read_returns:
  assumes "stream_ok t" and "left t \<le> n"
  shows "returns snd n (read_uint env what t)" and "returns snd n (read_double env what t)" and "returns snd n (read_word t)"
  using assms cur_token_error [of t]
  by (cases "cur_token t"; auto simp: returns_def read_uint_def peek_uint_def read_double_def read_word_def split: option.splits)+

lemma read_tag_returns:
  assumes "stream_ok (snd nt)" and "left (snd nt) \<le> n" and "\<And>t. stream_ok t \<Longrightarrow> left t \<le> n \<Longrightarrow> returns snd n (rd t)"
  shows "returns (\<lambda>x. snd (snd x)) n (read_tag env rd d nt)"
  unfolding read_tag_def
proof (split if_split, intro conjI impI)
  show "returns (\<lambda>x. snd (snd x)) n (bind_res (advance_line env True (snd nt)) (\<lambda>t. bind_res (rd t) (\<lambda>(x, t'). Inr (x, fst nt - 1, t'))))"
    by (rule returns_bind [OF advance_returns [OF assms(1,2)]], rule returns_bind [OF assms(3)]) (auto simp: returns_def split: prod.splits)
  show "returns (\<lambda>x. snd (snd x)) n (Inr (d, nt))" using assms(1,2) by (simp add: returns_def)
qed

lemma skip_lines_returns:
  assumes "stream_ok t" and "left t \<le> n"
  shows "returns (\<lambda>t. t) n (skip_lines env k t)"
proof -
  have "returns (\<lambda>t. t) n (fold_res (\<lambda>t _. advance_line env False t) t xs)" for xs :: "nat list"
    using assms
  proof (induction xs arbitrary: t)
    case Nil
    then show ?case by (simp add: returns_def)
  next
    case (Cons x xs)
    show ?case unfolding fold_res.simps by (rule returns_bind [OF advance_returns [OF Cons.prems]]) (rule Cons.IH)
  qed
  then show ?thesis by (simp add: skip_lines_def)
qed

lemma get_position_stream:
  assumes "stream_ok t"
  shows "stream_ok (fst (tokenizer_get_position t)) \<and> left (fst (tokenizer_get_position t)) = left t"
  using assms by (auto simp: tokenizer_get_position_def tellg_def stream_ok_def good_def eof_def left_def rest_of_def Let_def)

lemmas line_returns = advance_returns read_returns skip_lines_returns

lemma get_position_returns:
  "stream_ok t \<Longrightarrow> left t \<le> n \<Longrightarrow> returns snd n (case tokenizer_get_position t of (t', p) \<Rightarrow> Inr (h p, t'))"
  using get_position_stream [of t] by (cases "tokenizer_get_position t") (simp add: returns_def)

lemma read_data_header_returns:
  assumes "advance_line env False t = Inr t'" and "stream_ok t'" and "left t' \<le> n"
  shows "returns snd n (read_data_header env t)"
  unfolding read_data_header_def assms(1) bind_res_simps Let_def using assms(2,3)
  by - ((rule returns_bind,
        ((rule line_returns, simp, simp) | (rule read_tag_returns, simp, simp, rule read_returns, assumption, assumption)),
        clarsimp?)+, rule get_position_returns)

text \<open>The search for a section header ends at it or at the end of the stream.\<close>

lemma find_line_stream:
  assumes "stream_ok t"
  shows "\<exists>found t'. find_line env pat '''' t = Inr (found, t') \<and> stream_ok t' \<and> left t' \<le> left t
    \<and> (if found then \<not> eof t' else eof t')"
  using assms
proof (induction "left t" arbitrary: t rule: less_induct)
  case less
  show ?case
  proof (cases "eof t")
    case True
    have "while_option skip_more (skip_step (trim_line env) (split_line env) pat '''') (Inr (None, t)) = Some (Inr (None, t))"
      using True by (subst while_option_unfold) simp
    then have "find_line env pat '''' t = Inr (False, t)" by (simp add: find_line_def skip_to_def)
    then show ?thesis using less.prems True by auto
  next
    case e: False
    show ?thesis
    proof (cases "sublist pat (cur_line t)")
      case True
      from skip_loop_found [OF e True, of "trim_line env" "split_line env" "''''"]
      have "find_line env pat '''' t = Inr (True, set_tokenizer (split_line env) t)" by (simp add: find_line_def)
      then show ?thesis using less.prems e by (intro exI [of _ True]) (simp add: stream_ok_def left_def)
    next
      case False
      from next_line_stream [OF less.prems, of "trim_line env" "split_line env" False] e obtain ok t1 where
        n: "next_line (trim_line env) (split_line env) False t = Inr (ok, t1)" "stream_ok t1" "left t1 < left t" by blast
      have "find_line env pat '''' t = find_line env pat '''' t1"
        using skip_loop_more [OF e False _ n(1), of "''''"] by (simp add: find_line_def)
      with less.hyps [OF n(3,2)] n(3) show ?thesis by fastforce
    qed
  qed
qed

section \<open>The table of headers\<close>

text \<open>The headers of a field come in increasing times.\<close>

definition headers_ok :: "string \<Rightarrow> mesh_data_header list \<Rightarrow> bool" where
  "headers_ok name hs \<longleftrightarrow> hs \<noteq> [] \<and> (\<forall>h \<in> set hs. head_field h = name \<and> head_time h \<noteq> NaN)
     \<and> sorted_wrt (\<lambda>a b. head_time a < head_time b) hs"

definition header_table_ok :: "head_map \<Rightarrow> bool" where
  "header_table_ok table \<longleftrightarrow> (\<forall>name hs. table name = Some hs \<longrightarrow> headers_ok name hs)"

definition no_nan :: "reader_env \<Rightarrow> bool" where
  "no_nan env \<longleftrightarrow> (\<forall>w x. cast_double env w = Some x \<longrightarrow> x \<noteq> NaN)"

lemma headers_ok_last:
  assumes "headers_ok name hs" and "h \<in> set hs"
  shows "head_time h \<le> head_time (last hs)"
proof -
  have hs: "hs = butlast hs @ [last hs]" using assms(1) by (simp add: headers_ok_def)
  show ?thesis
  proof (cases "h \<in> set (butlast hs)")
    case True
    have "sorted_wrt (\<lambda>a b. head_time a < head_time b) (butlast hs @ [last hs])" using assms(1) hs by (simp add: headers_ok_def)
    then have "head_time h < head_time (last hs)" using True by (simp add: sorted_wrt_append)
    then show ?thesis by (rule less_double_imp_le)
  next
    case False
    then have "h = last hs" using assms(2) hs by (metis Un_iff set_append list.set(1,2) empty_iff insert_iff)
    moreover have "head_time h \<noteq> NaN" using assms by (simp add: headers_ok_def)
    ultimately show ?thesis by (cases "head_time h") simp_all
  qed
qed

lemma not_le_double: "\<not> x \<le> y \<Longrightarrow> x \<noteq> NaN \<Longrightarrow> y \<noteq> NaN \<Longrightarrow> y < (x :: double)"
  by (cases x; cases y) auto

lemma insert_header_ok:
  assumes "header_table_ok table" and "head_time h \<noteq> NaN"
  shows "header_table_ok (insert_header table h)"
proof (cases "table (head_field h)")
  case None
  then show ?thesis using assms by (auto simp: insert_header_def header_table_ok_def headers_ok_def)
next
  case (Some hs)
  have ok: "headers_ok (head_field h) hs" using assms(1) Some by (simp add: header_table_ok_def)
  show ?thesis
  proof (cases "head_time h \<le> head_time (last hs)")
    case True
    then show ?thesis using assms(1) Some by (simp add: insert_header_def)
  next
    case False
    have "last hs \<in> set hs" using ok by (simp add: headers_ok_def)
    then have "head_time (last hs) \<noteq> NaN" using ok by (simp add: headers_ok_def)
    then have lt: "head_time (last hs) < head_time h" using not_le_double [OF False assms(2)] by simp
    have "head_time x < head_time h" if "x \<in> set hs" for x
      using le_less_double_trans [OF headers_ok_last [OF ok that] lt] .
    then have "headers_ok (head_field h) (hs @ [h])"
      using ok assms(2) by (simp add: headers_ok_def sorted_wrt_append)
    then show ?thesis using assms(1) Some False by (simp add: insert_header_def header_table_ok_def)
  qed
qed

lemma read_tag_value:
  "read_tag env rd d nt = Inr (x, nt') \<Longrightarrow> x = d \<or> (\<exists>t t'. rd t = Inr (x, t'))"
  by (auto simp: read_tag_def res_simps split: if_splits)

lemma read_data_header_time:
  assumes "read_data_header env t = Inr (h, t')" and "no_nan env"
  shows "head_time h \<noteq> NaN"
proof -
  obtain nr nr' where "read_tag env (read_double env head_text) 0 nr = Inr (head_time h, nr')"
    using assms(1) by (auto simp: read_data_header_def Let_def res_simps case_prod_unfold)
  from read_tag_value [OF this] show ?thesis
    using assms(2) by (auto simp: read_double_def no_nan_def res_simps zero_double_def split: option.splits)
qed

text \<open>One pass of the loop over the sections.\<close>

fun table_inv :: "reader_env \<Rightarrow> (reader_error, head_map \<times> tokenizer) res \<Rightarrow> bool" where
  "table_inv env (Inr (table, t)) \<longleftrightarrow> stream_ok t \<and> (no_nan env \<longrightarrow> header_table_ok table)"
| "table_inv env (Inl e) \<longleftrightarrow> e \<noteq> TokError NoReturn \<and> e \<noteq> NoLoopEnd"

fun table_measure :: "(reader_error, head_map \<times> tokenizer) res \<Rightarrow> nat" where
  "table_measure (Inr (table, t)) = Suc (left t)"
| "table_measure (Inl e) = 0"

lemma header_step_ok:
  assumes "table_inv env r" and "more_headers r"
  shows "table_inv env (header_step env r) \<and> table_measure (header_step env r) < table_measure r"
proof -
  obtain table t where r: "r = Inr (table, t)" "\<not> eof t" using assms(2) by (cases r rule: more_headers.cases) auto
  have ok: "stream_ok t" "no_nan env \<longrightarrow> header_table_ok table" using assms(1) r by simp_all
  obtain found t0 where f: "find_line env ''$ElementData'' '''' t = Inr (found, t0)" "stream_ok t0" "left t0 \<le> left t"
    "if found then \<not> eof t0 else eof t0" using find_line_stream [OF ok(1)] by blast
  show ?thesis
  proof (cases found)
    case False
    then show ?thesis using f r ok by (simp add: header_step_def left_def)
  next
    case True
    then have e: "\<not> eof t0" using f(4) by simp
    from next_line_stream [OF f(2), of "trim_line env" "split_line env" False] e obtain t1 where
      t1: "advance_line env False t0 = Inr t1" "stream_ok t1" "left t1 < left t0" by (auto simp: advance_line_def)
    note h = read_data_header_returns [OF t1(1,2) order_refl]
    show ?thesis
    proof (cases "read_data_header env t0")
      case (Inl e)
      then show ?thesis using h f True r(1) by (simp add: header_step_def returns_def)
    next
      case (Inr p)
      then obtain hd t2 where p: "read_data_header env t0 = Inr (hd, t2)" by (cases p) auto
      have "stream_ok t2" "left t2 \<le> left t1" using h p by (simp_all add: returns_def)
      moreover have "no_nan env \<longrightarrow> header_table_ok (insert_header table hd)"
        using insert_header_ok read_data_header_time [OF p] ok(2) by blast
      ultimately show ?thesis using f True r(1) p t1(3) by (simp add: header_step_def)
    qed
  qed
qed

lemma make_header_table_total:
  assumes "good (in_stream t)"
  shows "table_inv env (Inr (\<lambda>_. None, t)) \<and> make_header_table env t \<noteq> Inl NoLoopEnd \<and> make_header_table env t \<noteq> Inl (TokError NoReturn)
    \<and> (\<forall>table t'. make_header_table env t = Inr (table, t') \<longrightarrow> (no_nan env \<longrightarrow> header_table_ok table))"
proof -
  have init: "table_inv env (Inr (\<lambda>_. None, t))" using assms by (simp add: stream_ok_def header_table_ok_def)
  obtain r where r: "while_option more_headers (header_step env) (Inr (\<lambda>_. None, t)) = Some r"
    using measure_while_option_Some [where P = "table_inv env" and f = table_measure and b = more_headers
        and c = "header_step env", OF header_step_ok init] by auto
  have inv: "table_inv env r"
    by (rule while_option_rule [where P = "table_inv env", OF _ r init]) (use header_step_ok in blast)
  show ?thesis
    using init inv r by (cases r) (auto simp: make_header_table_def)
qed

section \<open>Rows of data\<close>

fun some_doubles :: "reader_env \<Rightarrow> nat \<Rightarrow> string list \<Rightarrow> double list option" where
  "some_doubles env 0 ws = Some []"
| "some_doubles env (Suc n) [] = None"
| "some_doubles env (Suc n) (w # ws) =
     (case (cast_double env w, some_doubles env n ws) of (Some x, Some xs) \<Rightarrow> Some (x # xs) | _ \<Rightarrow> None)"

lemma some_doubles_length: "some_doubles env n ws = Some xs \<Longrightarrow> length xs = n"
  by (induction n arbitrary: ws xs) (auto elim!: some_doubles.elims split: option.splits)

lemma some_doubles_add:
  "some_doubles env (a + b) ws = Some xs \<Longrightarrow> some_doubles env a ws = Some (take a xs) \<and> some_doubles env b (drop a ws) = Some (drop a xs)"
proof (induction a arbitrary: ws xs)
  case (Suc a)
  then obtain w ws' x xs' where w: "ws = w # ws'" "cast_double env w = Some x" "some_doubles env (a + b) ws' = Some xs'" "xs = x # xs'"
    by (cases ws) (auto split: option.splits)
  show ?case using Suc.IH [OF w(3)] w by simp
qed simp

lemma read_values_ok:
  assumes "before_words env t ws l ls" and "some_doubles env n ws = Some xs" and "a + n \<le> length vec"
  shows "\<exists>vec' t'. fold_res (read_value (cast_double env)) (vec, t) [a..<a + n] = Inr (vec', t')
    \<and> before_words env t' (drop n ws) l ls \<and> length vec' = length vec
    \<and> (\<forall>j < length vec. vec' ! j = (if a \<le> j \<and> j < a + n then xs ! (j - a) else vec ! j))"
  using assms
proof (induction n arbitrary: a t ws xs vec)
  case 0
  then show ?case by (intro exI [of _ vec] exI [of _ t]) auto
next
  case (Suc n)
  obtain w ws' x xs' where w: "ws = w # ws'" "cast_double env w = Some x" "some_doubles env n ws' = Some xs'" "xs = x # xs'"
    using Suc.prems(2) by (cases ws) (auto split: option.splits)
  have t1: "before_words env (next_token t) ws' l ls" using next_token_ok [OF Suc.prems(1)] w(1) by simp
  have one: "read_value (cast_double env) (vec, t) a = Inr (vec[a := x], next_token t)"
    using cur_token_ok [OF Suc.prems(1) [unfolded w(1)]] w(2) Suc.prems(3) by (simp add: read_value_def put_value_def)
  from Suc.IH [OF t1 w(3), of "Suc a" "vec[a := x]"] Suc.prems(3) obtain vec' t' where
    r: "fold_res (read_value (cast_double env)) (vec[a := x], next_token t) [Suc a..<Suc a + n] = Inr (vec', t')"
      "before_words env t' (drop n ws') l ls" "length vec' = length vec"
      "\<forall>j < length vec. vec' ! j = (if Suc a \<le> j \<and> j < Suc a + n then xs' ! (j - Suc a) else vec[a := x] ! j)" by auto
  have "vec' ! j = (if a \<le> j \<and> j < a + Suc n then xs ! (j - a) else vec ! j)" if j: "j < length vec" for j
  proof (cases "j = a")
    case True
    then show ?thesis using r(4) j w(4) by simp
  next
    case False
    then have "Suc a \<le> j \<longleftrightarrow> a \<le> j" by auto
    moreover have "xs ! (j - a) = xs' ! (j - Suc a)" if "Suc a \<le> j" using that w(4) by (simp add: nth_Cons' )
    ultimately show ?thesis using r(4) j False by auto
  qed
  moreover have "[a..<a + Suc n] = a # [Suc a..<Suc a + n]" by (simp add: upt_conv_Cons)
  ultimately show ?case using one r(1-3) w(1) by (intro exI [of _ vec'] exI [of _ t']) simp
qed

lemma read_vecs_ok:
  assumes "before_words env t ws l ls" and "some_doubles env (m * nc) ws = Some xs" and "v + m \<le> length data"
    and "\<forall>vec \<in> set data. length vec = rows * nc" and "k < rows"
  shows "\<exists>data' t' ws'. fold_res (read_ascii_vec (cast_double env) nc k) (data, t) [v..<v + m] = Inr (data', t')
    \<and> before_words env t' ws' l ls \<and> length data' = length data \<and> (\<forall>vec \<in> set data'. length vec = rows * nc)
    \<and> (\<forall>u < length data. \<forall>j i. j < rows \<and> i < nc \<longrightarrow> data' ! u ! (j * nc + i) =
        (if v \<le> u \<and> u < v + m \<and> j = k then xs ! ((u - v) * nc + i) else data ! u ! (j * nc + i)))"
  using assms
proof (induction m arbitrary: v t ws xs data)
  case 0
  then show ?case by (intro exI [of _ data] exI [of _ t] exI [of _ ws]) auto
next
  case (Suc m)
  have "some_doubles env (nc + m * nc) ws = Some xs" using Suc.prems(2) by simp
  note s = some_doubles_add [OF this]
  have v: "v < length data" using Suc.prems(3) by simp
  then have lv: "length (data ! v) = rows * nc" using Suc.prems(4) by simp
  have "(k + 1) * nc \<le> rows * nc" using Suc.prems(5) by (intro mult_right_mono) auto
  then have "k * nc + nc \<le> length (data ! v)" using lv by simp
  from read_values_ok [OF Suc.prems(1) conjunct1 [OF s] this] obtain vec t1 where
    r: "fold_res (read_value (cast_double env)) (data ! v, t) [k * nc..<k * nc + nc] = Inr (vec, t1)"
      "before_words env t1 (drop nc ws) l ls" "length vec = rows * nc"
      "\<forall>j < rows * nc. vec ! j = (if k * nc \<le> j \<and> j < k * nc + nc then take nc xs ! (j - k * nc) else data ! v ! j)"
    using lv by auto
  have vec: "vec ! (j * nc + i) = (if j = k then xs ! i else data ! v ! (j * nc + i))" if "j < rows" "i < nc" for j i
  proof -
    have "k * nc \<le> j * nc + i \<and> j * nc + i < k * nc + nc \<longleftrightarrow> j = k"
    proof
      assume "k * nc \<le> j * nc + i \<and> j * nc + i < k * nc + nc"
      then obtain e where "j * nc + i = k * nc + e" "e < nc" by (metis add_less_cancel_left le_Suc_ex)
      then show "j = k" using row_quotient that(2) by metis
    qed (use that in simp)
    then show ?thesis using r(4) row_bound [OF that] that(2) by (auto simp del: mult_less_cancel2 mult_le_cancel2)
  qed
  define data1 where "data1 = data[v := vec]"
  have one: "read_ascii_vec (cast_double env) nc k (data, t) v = Inr (data1, t1)"
    using r(1) by (simp add: read_ascii_vec_def data1_def)
  have "\<forall>vec \<in> set data1. length vec = rows * nc"
    using Suc.prems(4) r(3) set_update_subset_insert [of data v vec] by (auto simp: data1_def)
  from Suc.IH [OF r(2) conjunct2 [OF s], of "Suc v" data1] this Suc.prems(3,5) obtain data' t' ws' where
    q: "fold_res (read_ascii_vec (cast_double env) nc k) (data1, t1) [Suc v..<Suc v + m] = Inr (data', t')"
      "before_words env t' ws' l ls" "length data' = length data" "\<forall>vec \<in> set data'. length vec = rows * nc"
      "\<forall>u < length data. \<forall>j i. j < rows \<and> i < nc \<longrightarrow> data' ! u ! (j * nc + i) =
        (if Suc v \<le> u \<and> u < Suc v + m \<and> j = k then drop nc xs ! ((u - Suc v) * nc + i) else data1 ! u ! (j * nc + i))"
    by (auto simp: data1_def)
  have lx: "length xs = nc + m * nc" using some_doubles_length [OF Suc.prems(2)] by simp
  have "data' ! u ! (j * nc + i) = (if v \<le> u \<and> u < v + Suc m \<and> j = k then xs ! ((u - v) * nc + i) else data ! u ! (j * nc + i))"
    if u: "u < length data" "j < rows" "i < nc" for u j i
  proof (cases "u = v")
    case True
    then show ?thesis using q(5) u vec by (simp add: data1_def)
  next
    case False
    have "drop nc xs ! ((u - Suc v) * nc + i) = xs ! ((u - v) * nc + i)" if "Suc v \<le> u" "u < Suc v + m"
    proof -
      have "u - v = Suc (u - Suc v)" using that(1) by simp
      then show ?thesis using lx by (simp add: add.assoc)
    qed
    then show ?thesis using q(5) u False by (auto simp: data1_def)
  qed
  moreover have "[v..<v + Suc m] = v # [Suc v..<Suc v + m]" by (simp add: upt_conv_Cons)
  ultimately show ?case using one q(1-4) by (intro exI [of _ data'] exI [of _ t'] exI [of _ ws']) simp
qed

fun data_line :: "reader_env \<Rightarrow> nat \<Rightarrow> string list \<Rightarrow> (int \<times> double list) option" where
  "data_line env n [] = None"
| "data_line env n (w # ws) =
     (case (cast_uint env w, some_doubles env n ws) of (Some e, Some xs) \<Rightarrow> Some (sint e, xs) | _ \<Rightarrow> None)"

definition rows_shape :: "nat \<Rightarrow> nat \<Rightarrow> nat \<Rightarrow> double data_cache \<Rightarrow> bool" where
  "rows_shape m n nc c \<longleftrightarrow> length (cache_data c) = m \<and> (\<forall>vec \<in> set (cache_data c). length vec = n * nc)"

lemma read_ascii_row:
  assumes "before_words env t ws l ls" and "some_doubles env (m * nc) ws = Some xs" and "rows_shape m n nc c" and "k < n"
  shows "\<exists>data t' ws'. read_ascii_data (cast_double env) nc k (c, t) = Inr (c\<lparr>cache_data := data\<rparr>, t')
    \<and> before_words env t' ws' l ls \<and> rows_shape m n nc (c\<lparr>cache_data := data\<rparr>)
    \<and> (\<forall>u j i. u < m \<and> j < n \<and> i < nc \<longrightarrow> data ! u ! (j * nc + i) = (if j = k then xs ! (u * nc + i) else cache_data c ! u ! (j * nc + i)))"
proof -
  have s: "0 + m \<le> length (cache_data c)" "\<forall>vec \<in> set (cache_data c). length vec = n * nc" "length (cache_data c) = m"
    using assms(3) by (simp_all add: rows_shape_def)
  from read_vecs_ok [OF assms(1,2) s(1,2) assms(4)] obtain data t' ws' where
    r: "fold_res (read_ascii_vec (cast_double env) nc k) (cache_data c, t) [0..<0 + m] = Inr (data, t')"
      "before_words env t' ws' l ls" "length data = m" "\<forall>vec \<in> set data. length vec = n * nc"
      "\<forall>u < m. \<forall>j i. j < n \<and> i < nc \<longrightarrow> data ! u ! (j * nc + i) =
        (if 0 \<le> u \<and> u < 0 + m \<and> j = k then xs ! ((u - 0) * nc + i) else cache_data c ! u ! (j * nc + i))"
    unfolding s(3) by blast
  then show ?thesis
    using s(3) by (intro exI [of _ data] exI [of _ t'] exI [of _ ws']) (simp add: read_ascii_data_def rows_shape_def)
qed

text \<open>The place of an id in increasing ids.\<close>

lemma takeWhile_place:
  fixes ids :: "int list"
  assumes "sorted_wrt (<) ids" and "k \<le> length ids" and "\<forall>i < k. ids ! i < e"
    and k': "k' = k + length (takeWhile (\<lambda>i. i < e) (drop k ids))"
  shows "k' \<le> length ids" and "\<forall>i < k'. ids ! i < e" and "\<forall>i < length ids. k' \<le> i \<longrightarrow> e \<le> ids ! i"
    and "k' < length ids \<Longrightarrow> ids ! k' \<noteq> e \<Longrightarrow> \<forall>i < length ids. ids ! i \<noteq> e"
proof -
  let ?tw = "takeWhile (\<lambda>i. i < e) (drop k ids)"
  have "length ?tw \<le> length (drop k ids)" by (rule length_takeWhile_le)
  then show le: "k' \<le> length ids" using assms(2) k' by simp
  show lt: "\<forall>i < k'. ids ! i < e"
  proof (intro allI impI)
    fix i assume i: "i < k'"
    show "ids ! i < e"
    proof (cases "i < k")
      case False
      then have "i - k < length ?tw" using i k' by simp
      then have "?tw ! (i - k) < e" "?tw ! (i - k) = drop k ids ! (i - k)"
        using nth_mem set_takeWhileD takeWhile_nth by metis+
      then show ?thesis using False assms(2) by simp
    qed (use assms(3) in simp)
  qed
  have at: "e \<le> ids ! k'" if "k' < length ids"
    using that nth_length_takeWhile [of "\<lambda>i. i < e" "drop k ids"] assms(2) k' by (simp add: not_less)
  show ge: "\<forall>i < length ids. k' \<le> i \<longrightarrow> e \<le> ids ! i"
  proof (intro allI impI)
    fix i assume i: "i < length ids" "k' \<le> i"
    show "e \<le> ids ! i"
    proof (cases "i = k'")
      case False
      then have "ids ! k' < ids ! i" using sorted_wrt_nth_less [OF assms(1)] i by simp
      then show ?thesis using at i by simp
    qed (use at i in simp)
  qed
  assume k: "k' < length ids" "ids ! k' \<noteq> e"
  show "\<forall>i < length ids. ids ! i \<noteq> e"
  proof (intro allI impI)
    fix i assume i: "i < length ids"
    consider "i < k'" | "i = k'" | "k' < i" by linarith
    then show "ids ! i \<noteq> e"
    proof cases
      case 3
      then have "ids ! k' < ids ! i" using sorted_wrt_nth_less [OF assms(1)] i by simp
      then show ?thesis using at k by simp
    qed (use lt k in auto)
  qed
qed

definition row_values :: "nat \<Rightarrow> nat \<Rightarrow> nat \<Rightarrow> int list \<Rightarrow> (int \<times> double list) list \<Rightarrow> double list list \<Rightarrow> double list list \<Rightarrow> bool" where
  "row_values m n nc ids rows old new \<longleftrightarrow> (\<forall>u j i. u < m \<and> j < n \<and> i < nc \<longrightarrow> new ! u ! (j * nc + i) =
     (case map_of rows (ids ! j) of None \<Rightarrow> old ! u ! (j * nc + i) | Some xs \<Rightarrow> xs ! (u * nc + i)))"

lemma map_of_larger: "\<forall>p \<in> set rows. e < fst p \<Longrightarrow> x \<le> (e :: int) \<Longrightarrow> map_of rows x = None"
  by (induction rows) auto

lemma read_rows_ok:
  assumes ids: "sorted_wrt (<) ids"
    and "before_lines env t (ls @ rest)" and "those (map (\<lambda>l. data_line env (m * nc) (words env l)) ls) = Some rows"
    and "sorted_wrt (<) (map fst rows)" and "k \<le> length ids" and "\<forall>i < k. \<forall>p \<in> set rows. ids ! i < fst p"
    and "rows_shape m (length ids) nc c"
  shows "\<exists>left_rows data t'. read_rows env nc ids (length ls) k (c, t) = Inr (left_rows, c\<lparr>cache_data := data\<rparr>, t') \<and> stream_ok t'
    \<and> rows_shape m (length ids) nc (c\<lparr>cache_data := data\<rparr>) \<and> row_values m (length ids) nc ids rows (cache_data c) data"
  using assms(2-)
proof (induction ls arbitrary: t rows k c)
  case Nil
  have "stream_ok t" using Nil.prems(1) by (simp add: before_lines_def stream_ok_def)
  then show ?case using Nil.prems by (intro exI [of _ 0] exI [of _ "cache_data c"] exI [of _ t]) (simp add: row_values_def)
next
  case (Cons l ls)
  obtain row rows' where rw: "data_line env (m * nc) (words env l) = Some row"
    "those (map (\<lambda>l. data_line env (m * nc) (words env l)) ls) = Some rows'" "rows = row # rows'"
    using Cons.prems(2) by (auto split: option.splits)
  obtain w ws eid xs where w: "words env l = w # ws" "cast_uint env w = Some eid" "some_doubles env (m * nc) ws = Some xs"
    "row = (sint eid, xs)"
    using rw(1) by (cases "words env l") (auto split: option.splits)
  define e where "e = sint eid"
  have later: "\<forall>p \<in> set rows'. e < fst p" and srt: "sorted_wrt (<) (map fst rows')"
    using Cons.prems(3) by (simp_all add: rw(3) w(4) e_def)
  obtain t0 where t0: "advance_line env True t = Inr t0" "before_words env t0 (w # ws) l (ls @ rest)"
    using advance_ok [of env t l "ls @ rest" True] Cons.prems(1) w(1) by auto
  note r = read_uint_ok [OF t0(2) w(2), of "''$ElementData line''"]
  have t1: "before_lines env (next_token t0) (ls @ rest)" using before_words_line r by blast
  define k' where "k' = k + length (takeWhile (\<lambda>i. i < e) (drop k ids))"
  have bef: "\<forall>i < k. ids ! i < e" using Cons.prems(5) by (simp add: rw(3) w(4) e_def)
  note pl = takeWhile_place [OF ids Cons.prems(4) bef k'_def]
  have "ids ! i < fst p" if "i < k'" "p \<in> set rows'" for i p
    using pl(2) that(1) later that(2) by (meson order.strict_trans)
  then have inv: "\<forall>i < k'. \<forall>p \<in> set rows'. ids ! i < fst p" by blast
  have run: "read_rows env nc ids (length (l # ls)) k (c, t) =
      (if k' = length ids then Inr (Suc (length ls), c, next_token t0)
       else if ids ! k' = e
       then bind_res (map_err row_error (read_ascii_data (cast_double env) nc k' (c, next_token t0))) (read_rows env nc ids (length ls) k')
       else read_rows env nc ids (length ls) k' (c, next_token t0))"
    using t0(1) r by (simp add: k'_def e_def Let_def)
  consider "k' = length ids" | "k' < length ids" "ids ! k' = e" | "k' < length ids" "ids ! k' \<noteq> e" using pl(1) by linarith
  then show ?case
  proof cases
    case 1
    have "map_of rows (ids ! j) = None" if "j < length ids" for j
    proof -
      have "ids ! j < e" using pl(2) that 1 by simp
      then show ?thesis using map_of_larger [OF later, of "ids ! j"] by (simp add: rw(3) w(4) e_def)
    qed
    then have rv: "row_values m (length ids) nc ids rows (cache_data c) (cache_data c)" by (simp add: row_values_def)
    have "stream_ok (next_token t0)" using t1 by (simp add: before_lines_def stream_ok_def)
    moreover have "read_rows env nc ids (length (l # ls)) k (c, t) = Inr (Suc (length ls), c, next_token t0)" using run 1 by simp
    ultimately show ?thesis
      using Cons.prems(6) rv by (intro exI [of _ "Suc (length ls)"] exI [of _ "cache_data c"] exI [of _ "next_token t0"]) simp
  next
    case 2
    from read_ascii_row [OF conjunct2 [OF r] w(3) Cons.prems(6) 2(1)] obtain data1 t2 ws' where
      a: "read_ascii_data (cast_double env) nc k' (c, next_token t0) = Inr (c\<lparr>cache_data := data1\<rparr>, t2)"
        "before_words env t2 ws' l (ls @ rest)" "rows_shape m (length ids) nc (c\<lparr>cache_data := data1\<rparr>)"
        "\<forall>u j i. u < m \<and> j < length ids \<and> i < nc \<longrightarrow>
           data1 ! u ! (j * nc + i) = (if j = k' then xs ! (u * nc + i) else cache_data c ! u ! (j * nc + i))" by blast
    from Cons.IH [OF conjunct1 [OF before_words_line [OF a(2)]] rw(2) srt pl(1) inv a(3)] obtain left_rows data t' where
      q: "read_rows env nc ids (length ls) k' (c\<lparr>cache_data := data1\<rparr>, t2) = Inr (left_rows, c\<lparr>cache_data := data\<rparr>, t')" "stream_ok t'"
        "rows_shape m (length ids) nc (c\<lparr>cache_data := data\<rparr>)" "row_values m (length ids) nc ids rows' data1 data" by auto
    have "row_values m (length ids) nc ids rows (cache_data c) data"
      unfolding row_values_def
    proof (intro allI impI)
      fix u j i assume b: "u < m \<and> j < length ids \<and> i < nc"
      have new: "data ! u ! (j * nc + i) = (case map_of rows' (ids ! j) of None \<Rightarrow> data1 ! u ! (j * nc + i) | Some xs \<Rightarrow> xs ! (u * nc + i))"
        using q(4) b by (simp add: row_values_def)
      show "data ! u ! (j * nc + i) = (case map_of rows (ids ! j) of None \<Rightarrow> cache_data c ! u ! (j * nc + i) | Some xs \<Rightarrow> xs ! (u * nc + i))"
      proof (cases "j = k'")
        case True
        have "map_of rows' e = None" by (rule map_of_larger [OF later]) simp
        then show ?thesis using new True 2(2) a(4) b by (simp add: rw(3) w(4) e_def)
      next
        case False
        have "ids ! j \<noteq> e"
          using 2 False b sorted_wrt_nth_less [OF ids, of j k'] sorted_wrt_nth_less [OF ids, of k' j] by (metis less_irrefl linorder_neqE_nat)
        moreover have "data1 ! u ! (j * nc + i) = cache_data c ! u ! (j * nc + i)" using a(4) b False by simp
        ultimately show ?thesis using new by (simp add: rw(3) w(4) e_def split: option.split)
      qed
    qed
    moreover have "read_rows env nc ids (length (l # ls)) k (c, t) = Inr (left_rows, c\<lparr>cache_data := data\<rparr>, t')"
      using run 2 a(1) q(1) by simp
    ultimately show ?thesis using q(2,3) by blast
  next
    case 3
    from Cons.IH [OF t1 rw(2) srt pl(1) inv Cons.prems(6)] obtain left_rows data t' where
      q: "read_rows env nc ids (length ls) k' (c, next_token t0) = Inr (left_rows, c\<lparr>cache_data := data\<rparr>, t')" "stream_ok t'"
        "rows_shape m (length ids) nc (c\<lparr>cache_data := data\<rparr>)" "row_values m (length ids) nc ids rows' (cache_data c) data" by auto
    have "map_of rows (ids ! j) = map_of rows' (ids ! j)" if "j < length ids" for j
      using pl(4) [OF 3] that by (simp add: rw(3) w(4) e_def)
    then have "row_values m (length ids) nc ids rows (cache_data c) data" using q(4) by (simp add: row_values_def)
    moreover have "read_rows env nc ids (length (l # ls)) k (c, t) = Inr (left_rows, c\<lparr>cache_data := data\<rparr>, t')"
      using run 3 q(1) by simp
    ultimately show ?thesis using q(2,3) by blast
  qed
qed

lemma skip_lines_total: "stream_ok t \<Longrightarrow> \<exists>t'. skip_lines env n t = Inr t'"
proof -
  assume t: "stream_ok t"
  have "\<exists>t'. fold_res (\<lambda>t _. advance_line env False t) t [0..<n] = Inr t' \<and> stream_ok t'"
  proof (rule fold_res_total [where I = stream_ok, OF t])
    fix t and x :: nat assume "stream_ok t"
    from next_line_stream [OF this, of "trim_line env" "split_line env" False] show "\<exists>s'. advance_line env False t = Inr s' \<and> stream_ok s'"
      by (auto simp: advance_line_def)
  qed
  then show ?thesis by (auto simp: skip_lines_def)
qed

lemma input_cache_shape:
  "rows_shape m n nc (input_cache NaN name t m (nc * n))"
  "u < m \<Longrightarrow> j < n \<Longrightarrow> i < nc \<Longrightarrow> cache_data (input_cache NaN name t m (nc * n)) ! u ! (j * nc + i) = NaN"
  using row_bound [of j n i nc] by (simp_all add: rows_shape_def input_cache_def create_data_cache_def mult.commute)

text \<open>
  The data that are cached for a field and a time are returned again for the same field and time, whatever
  the number of components and whether bulk or boundary elements are asked for.
\<close>

lemma cached_element_data:
  assumes "actual_header r = Some h" and "has_compatible_mesh r" and "head_field h \<noteq> ''''"
    and "element_data_values r (head_field h) = Some c" and "is_actual c (head_time h) (head_field h)" and "0 < length (cache_data c)"
  shows "\<exists>r'. get_element_data env r entities comps boundary_domain None = Inr (cache_data c ! 0, r')"
  using assms by (simp add: get_element_data_def get_component_data_def)

text \<open>A place in the table of headers that is not after the time stays so for earlier headers.\<close>

lemma header_after_mono: "header_after t a \<Longrightarrow> head_time a < head_time b \<Longrightarrow> header_after t b"
  unfolding header_after_def by (meson less_double_imp_le less_le_double_trans)

lemma find_header_place:
  assumes "headers_ok name hs" and k: "k = length (takeWhile (\<lambda>h. \<not> header_after t h) hs)"
  shows "k \<le> length hs" and "\<forall>i < k. \<not> header_after t (hs ! i)" and "\<forall>i < length hs. k \<le> i \<longrightarrow> header_after t (hs ! i)"
proof -
  let ?tw = "takeWhile (\<lambda>h. \<not> header_after t h) hs"
  show "k \<le> length hs" unfolding k by (rule length_takeWhile_le)
  show "\<forall>i < k. \<not> header_after t (hs ! i)"
    using nth_mem set_takeWhileD takeWhile_nth unfolding k by metis
  have srt: "sorted_wrt (\<lambda>a b. head_time a < head_time b) hs" using assms(1) by (simp add: headers_ok_def)
  show "\<forall>i < length hs. k \<le> i \<longrightarrow> header_after t (hs ! i)"
  proof (intro allI impI)
    fix i assume i: "i < length hs" "k \<le> i"
    then have at: "header_after t (hs ! k)" using nth_length_takeWhile [of "\<lambda>h. \<not> header_after t h" hs] by (simp add: k)
    show "header_after t (hs ! i)"
    proof (cases "i = k")
      case False
      then have "head_time (hs ! k) < head_time (hs ! i)" using sorted_wrt_nth_less [OF srt] i by simp
      then show ?thesis using header_after_mono [OF at] by simp
    qed (use at in simp)
  qed
qed

section \<open>Properties\<close>



text \<open>
  C29. \<open>find_header\<close> gives the latest header of the field that is not after the time of the query
  (up to its tolerance) and makes it the actual one; it throws exactly when the field is not in the file or all its headers are
  later.
\<close>

theorem find_header_correct:
  assumes "header_table_ok (header_table r)"
  shows "case find_header r q of
      Inl e \<Rightarrow> e = FieldNameNotFound (query_field q)
        \<and> (\<forall>hs. header_table r (query_field q) = Some hs \<longrightarrow> (\<forall>h \<in> set hs. header_after (query_time q) h))
    | Inr (h, r', q') \<Rightarrow> (\<exists>hs. header_table r (query_field q) = Some hs \<and> h \<in> set hs \<and> \<not> header_after (query_time q) h
        \<and> (\<forall>h' \<in> set hs. \<not> header_after (query_time q) h' \<longrightarrow> head_time h' \<le> head_time h)
        \<and> r' = r\<lparr>actual_header := Some h\<rparr> \<and> head_field h = query_field q)"
proof (cases "header_table r (query_field q)")
  case None
  then show ?thesis by (simp add: find_header_def)
next
  case (Some hs)
  have ok: "headers_ok (query_field q) hs" using assms Some by (simp add: header_table_ok_def)
  define k where "k = length (takeWhile (\<lambda>h. \<not> header_after (query_time q) h) hs)"
  note pl = find_header_place [OF ok k_def]
  show ?thesis
  proof (cases "k = 0")
    case True
    then have "\<forall>h \<in> set hs. header_after (query_time q) h" using pl(3) by (auto simp: in_set_conv_nth)
    then show ?thesis using True Some by (simp add: find_header_def k_def Let_def)
  next
    case False
    have run: "find_header r q = Inr (hs ! (k - 1), r\<lparr>actual_header := Some (hs ! (k - 1))\<rparr>, q\<lparr>query_discretization := Elem_Data\<rparr>)"
      using False Some by (simp add: find_header_def k_def Let_def)
    have at: "k - 1 < length hs" "hs ! (k - 1) \<in> set hs" using pl(1) False by simp_all
    have "head_time h' \<le> head_time (hs ! (k - 1))" if h': "h' \<in> set hs" "\<not> header_after (query_time q) h'" for h'
    proof -
      obtain i where i: "i < length hs" "h' = hs ! i" using h'(1) by (auto simp: in_set_conv_nth)
      then have "i \<le> k - 1" using pl(3) h'(2) False by (metis One_nat_def Suc_pred' bot_nat_0.not_eq_extremum less_Suc_eq_le not_le)
      then consider "i = k - 1" | "i < k - 1" by linarith
      then show ?thesis
      proof cases
        case 1
        have "head_time h' \<noteq> NaN" using ok h'(1) by (simp add: headers_ok_def)
        then show ?thesis using 1 i(2) le_double_refl by simp
      next
        case 2
        have "sorted_wrt (\<lambda>a b. head_time a < head_time b) hs" using ok by (simp add: headers_ok_def)
        from sorted_wrt_nth_less [OF this 2 at(1)] show ?thesis using i(2) by (simp add: less_double_imp_le)
      qed
    qed
    moreover have "\<not> header_after (query_time q) (hs ! (k - 1))" using pl(2) False by simp
    moreover have "head_field (hs ! (k - 1)) = query_field q" using ok at(2) by (simp add: headers_ok_def)
    ultimately show ?thesis using run Some at(2) by simp
  qed
qed

text \<open>Two headers of a field, at the times zero and one; the query at the time one gives the second.\<close>

definition sample_header :: "double \<Rightarrow> nat \<Rightarrow> mesh_data_header" where
  "sample_header t p = \<lparr>head_field = ''p'', interpolation_scheme = '''', head_time = t, time_index = 0, n_components = 1,
     n_entities = 2, partition_index = 0, head_position = \<lparr>file_position = Some p, line_counter = 0, line_position = 0\<rparr>,
     discretization = Elem_Data\<rparr>"

definition data_text :: string where
  "data_text = terminated [''7 1'', ''8 0'']"

definition sample_reader :: gmsh_reader where
  "sample_reader = \<lparr>tok = set_comment_pattern (new_tokenizer (open_stream data_text)) ''#'',
     header_table = (\<lambda>name. if name = ''p'' then Some [sample_header 0 0, sample_header 1 0] else None),
     actual_header = Some (sample_header 1 0), has_compatible_mesh = True, bulk_elements_id = [3, 7], boundary_elements_id = [],
     element_data_values = (\<lambda>_. None)\<rparr>"

theorem find_header_correct_witness:
  "\<exists>h r' q'. find_header sample_reader \<lparr>query_field = ''p'', query_time = 1, query_discretization = Undefined_Space\<rparr> = Inr (h, r', q')
     \<and> head_time h = 1"
proof -
  let ?q = "\<lparr>query_field = ''p'', query_time = 1, query_discretization = Undefined_Space\<rparr>"
  have ok: "header_table_ok (header_table sample_reader)"
    by (simp add: header_table_ok_def headers_ok_def sample_reader_def sample_header_def zero_double_def one_double_def)
  have e: "\<not> header_after 1 (sample_header 0 0)" "\<not> header_after 1 (sample_header 1 0)"
  proof -
    have "\<not> 1 + 2 * epsilon < 0" "\<not> 1 + 2 * epsilon < 1" using epsilon_pos by linarith+
    then show "\<not> header_after 1 (sample_header 0 0)" "\<not> header_after 1 (sample_header 1 0)"
      unfolding header_after_def sample_header_def zero_double_def one_double_def by simp_all
  qed
  have "\<not> (\<forall>h \<in> set [sample_header 0 0, sample_header 1 0]. header_after 1 h)" using e by simp
  with find_header_correct [OF ok, of ?q] obtain h r' q' where f: "find_header sample_reader ?q = Inr (h, r', q')"
    and h: "h \<in> {sample_header 0 0, sample_header 1 0}" "head_time (sample_header 1 0) \<le> head_time h"
    using e by (auto simp: sample_reader_def split: sum.splits)
  have "head_time h = 1" using h by (auto simp: sample_header_def zero_double_def one_double_def)
  then show ?thesis using f by blast
qed



end
