(* ===== verification/Ref_Element.thy ===== *)
theory Ref_Element
  imports Prelude
begin

text \<open>
  The reference simplices of \<open>src/src/mesh/ref_element.cc\<close> and \<open>ref_element.hh\<close>: the tables of nodes, lines
  and sides, the interface \<open>interact\<close> to them, patterns of zero barycentric coordinates,
  permutations of the nodes of a side, and the projection \<open>clip\<close> onto the simplex. The template parameter
  \<open>dim\<close> is an argument; the coordinates are exact reals. The metric functions (normal
  vectors, measures of sides) are not modelled.
\<close>

unbundle bit_operations_syntax

section \<open>Tables\<close>

datatype ref_error = NotImplemented | RefOutOfRange | UndefinedZeroPattern | PermutationNotFound

type_synonym 'a ref_res = "(ref_error, 'a) res"

definition line_nodes :: "nat \<Rightarrow> nat list list" where
  "line_nodes d =
     (if d = 1 then [[0, 1]]
      else if d = 2 then [[0, 1], [0, 2], [1, 2]]
      else if d = 3 then [[0, 1], [0, 2], [0, 3], [1, 2], [1, 3], [2, 3]]
      else [])"

definition node_lines :: "nat \<Rightarrow> nat list list" where
  "node_lines d =
     (if d = 1 then [[0], [0]]
      else if d = 2 then [[1, 0], [0, 2], [2, 1]]
      else if d = 3 then [[0, 1, 2], [0, 4, 3], [1, 3, 5], [2, 5, 4]]
      else [])"

text \<open>The tables that exist for the tetrahedron only.\<close>

definition side_nodes3 :: "nat list list" where
  "side_nodes3 = [[0, 1, 2], [0, 1, 3], [0, 2, 3], [1, 2, 3]]"

definition node_sides3 :: "nat list list" where
  "node_sides3 = [[2, 1, 0], [3, 0, 1], [3, 2, 0], [3, 1, 2]]"

definition line_sides3 :: "nat list list" where
  "line_sides3 = [[0, 1], [2, 0], [1, 2], [0, 3], [3, 1], [2, 3]]"

definition side_lines3 :: "nat list list" where
  "side_lines3 = [[0, 1, 3], [0, 2, 4], [1, 2, 5], [3, 4, 5]]"

definition side_permutations :: "nat \<Rightarrow> nat list list" where
  "side_permutations d =
     (if d = 0 then [[]]
      else if d = 1 then [[0]]
      else if d = 2 then [[0, 1], [1, 0]]
      else if d = 3 then [[0, 1, 2], [0, 2, 1], [1, 0, 2], [1, 2, 0], [2, 0, 1], [2, 1, 0]]
      else [])"

definition topology_zeros0 :: "u32 list list" where
  "topology_zeros0 = [[push_bit 1 1]]"

definition topology_zeros1 :: "u32 list list" where
  "topology_zeros1 = [[push_bit 1 1, push_bit 0 1], [0, 0]]"

definition topology_zeros2 :: "u32 list list" where
  "topology_zeros2 =
     [[push_bit 1 1 OR push_bit 2 1, push_bit 0 1 OR push_bit 2 1, push_bit 0 1 OR push_bit 1 1],
      [push_bit 2 1, push_bit 1 1, push_bit 0 1],
      [0, 0, 0]]"

definition topology_zeros3 :: "u32 list list" where
  "topology_zeros3 =
     [[push_bit 1 1 OR push_bit 2 1 OR push_bit 3 1, push_bit 0 1 OR push_bit 2 1 OR push_bit 3 1,
       push_bit 0 1 OR push_bit 1 1 OR push_bit 3 1, push_bit 0 1 OR push_bit 1 1 OR push_bit 2 1, 0, 0],
      [push_bit 2 1 OR push_bit 3 1, push_bit 1 1 OR push_bit 3 1, push_bit 1 1 OR push_bit 2 1,
       push_bit 0 1 OR push_bit 3 1, push_bit 0 1 OR push_bit 2 1, push_bit 0 1 OR push_bit 1 1],
      [push_bit 3 1, push_bit 2 1, push_bit 1 1, push_bit 0 1, 0, 0],
      [0, 0, 0, 0, 0, 0]]"

definition topology_zeros :: "nat \<Rightarrow> u32 list list" where
  "topology_zeros d =
     (if d = 0 then topology_zeros0 else if d = 1 then topology_zeros1
      else if d = 2 then topology_zeros2 else if d = 3 then topology_zeros3 else [])"

definition nodes_of_subelements :: "nat \<Rightarrow> nat list list list" where
  "nodes_of_subelements d =
     (if d = 0 then [[[0]]]
      else if d = 1 then [[[0], [1]], line_nodes 1]
      else if d = 2 then [[[0], [1], [2]], line_nodes 2, [[0, 1, 2]]]
      else if d = 3 then [[[0], [1], [2], [3]], line_nodes 3, side_nodes3, [[0, 1, 2, 3]]]
      else [])"

section \<open>Operations\<close>

definition n_lines :: "nat \<Rightarrow> nat" where
  "n_lines d = (d * (d + 1)) div 2"

definition n_side_permutations :: "nat \<Rightarrow> nat" where
  "n_side_permutations d = unat ((of_nat d + 1) * (2 * of_nat d * of_nat d - 5 * of_nat d + 6) div 6 :: u32)"

fun count_subelements :: "nat \<Rightarrow> nat \<Rightarrow> nat" where
  "count_subelements d sub =
     (if sub < d then (if sub = 0 then d + 1 else if sub = 1 then n_lines d else d + 1)
      else if sub = d then 1 else 0)"

definition interact :: "nat \<Rightarrow> nat \<Rightarrow> nat \<Rightarrow> nat \<Rightarrow> nat list ref_res" where
  "interact d out_dim in_dim i =
     (if d = 1 \<and> out_dim = 0 \<and> in_dim = 0 then Inr [i]
      else if d \<in> {1, 2, 3} \<and> out_dim = 0 \<and> in_dim = 1 then vec_at RefOutOfRange (line_nodes d) i
      else if d \<in> {1, 2, 3} \<and> out_dim = 1 \<and> in_dim = 0 then vec_at RefOutOfRange (node_lines d) i
      else if d = 3 \<and> out_dim = 0 \<and> in_dim = 2 then vec_at RefOutOfRange side_nodes3 i
      else if d = 3 \<and> out_dim = 2 \<and> in_dim = 0 then vec_at RefOutOfRange node_sides3 i
      else if d = 3 \<and> out_dim = 2 \<and> in_dim = 1 then vec_at RefOutOfRange line_sides3 i
      else if d = 3 \<and> out_dim = 1 \<and> in_dim = 2 then vec_at RefOutOfRange side_lines3 i
      else Inl NotImplemented)"

definition oposite_node :: "nat \<Rightarrow> nat \<Rightarrow> nat" where
  "oposite_node d sid = (d + 1) - sid - 1"

definition normal_orientation :: "nat \<Rightarrow> nat" where
  "normal_orientation sid = sid mod 2"

text \<open>The two positions only move forward through the sorted lists of lines of both faces.\<close>

fun common_line :: "nat list \<Rightarrow> nat list \<Rightarrow> nat ref_res" where
  "common_line (x # xs) (y # ys) =
     (if x \<noteq> y then (if x < y then common_line xs (y # ys) else common_line (x # xs) ys) else Inr x)"
| "common_line xs ys = Inl RefOutOfRange"

definition line_between_faces :: "nat \<Rightarrow> nat \<Rightarrow> nat ref_res" where
  "line_between_faces f1 f2 =
     bind_res (vec_at RefOutOfRange side_lines3 f1) (\<lambda>l1.
     bind_res (vec_at RefOutOfRange side_lines3 f2) (\<lambda>l2. common_line l1 l2))"

definition permutation_index :: "nat \<Rightarrow> nat list \<Rightarrow> nat ref_res" where
  "permutation_index d p =
     (case find (\<lambda>k. take d p = side_permutations d ! k) [0..<n_side_permutations d] of
        Some k \<Rightarrow> Inr k
      | None \<Rightarrow> Inl PermutationNotFound)"

definition topology_idx :: "nat \<Rightarrow> nat \<Rightarrow> u32 \<Rightarrow> nat ref_res" where
  "topology_idx d sub zeros =
     (case find (\<lambda>i. zeros = topology_zeros d ! sub ! i) [0..<count_subelements d sub] of
        Some i \<Rightarrow> Inr i
      | None \<Rightarrow> Inl UndefinedZeroPattern)"

definition zeros_positions :: "nat \<Rightarrow> real \<Rightarrow> real list \<Rightarrow> nat \<times> u32" where
  "zeros_positions d tolerance b =
     foldl (\<lambda>(n, zeros) i. if \<bar>b ! i\<bar> < tolerance then (n + 1, zeros OR push_bit i 1) else (n, zeros)) (0, 0) [0..<d + 1]"

section \<open>Barycentric coordinates\<close>

definition local_to_bary :: "real list \<Rightarrow> real list" where
  "local_to_bary lp = (1 - sum_list lp) # lp"

definition bary_to_local :: "real list \<Rightarrow> real list" where
  "bary_to_local bp = tl bp"

definition node_coords :: "nat \<Rightarrow> nat \<Rightarrow> real list" where
  "node_coords d nid = (if nid > 0 then (replicate d 0)[nid - 1 := 1] else replicate d 0)"

definition barycentric_on_face :: "nat \<Rightarrow> real list \<Rightarrow> nat \<Rightarrow> real list ref_res" where
  "barycentric_on_face d b i_face =
     bind_res (interact d 0 (d - 1) i_face) (\<lambda>ns. Inr (map (\<lambda>i. b ! (ns ! i)) [0..<d]))"

text \<open>The columns of the matrix \<open>bary_coords\<close>, one for each node of the sub-simplex.\<close>

definition bary_coords :: "nat \<Rightarrow> nat \<Rightarrow> nat \<Rightarrow> real list list ref_res" where
  "bary_coords d sub sid =
     bind_res (interact d 0 sub sid) (\<lambda>ns. Inr (map (\<lambda>i. (replicate (d + 1) 0)[ns ! i := 1]) [0..<sub + 1]))"

definition interpolate :: "nat \<Rightarrow> nat \<Rightarrow> real list \<Rightarrow> nat \<Rightarrow> real list ref_res" where
  "interpolate d sub coord sid =
     bind_res (bary_coords d sub sid) (\<lambda>cols.
       Inr (map (\<lambda>r. \<Sum>c\<leftarrow>[0..<sub + 1]. cols ! c ! r * coord ! c) [0..<d + 1]))"

definition make_bary_unit_vec :: "nat \<Rightarrow> real list list" where
  "make_bary_unit_vec d =
     map (\<lambda>i. (replicate (d + 1) 0)[i := 1, d := -1]) [0..<d] @ [replicate d (- 1 / of_nat d) @ [1]]"

fun clip :: "nat \<Rightarrow> real list \<Rightarrow> real list ref_res" where
  "clip 0 b = Inr b"
| "clip (Suc d) b =
     (case find (\<lambda>i. b ! i < 0) [0..<d + 2] of
        None \<Rightarrow> Inr b
      | Some i_bary \<Rightarrow>
          let i_side = Suc d - i_bary;
              unit_vec = make_bary_unit_vec (Suc d) ! i_bary;
              projection = map (\<lambda>k. b ! k - b ! i_bary * unit_vec ! k) [0..<d + 2]
          in bind_res (barycentric_on_face (Suc d) projection i_side) (\<lambda>bary_on_face.
             bind_res (clip d bary_on_face) (\<lambda>sub_clip. interpolate (Suc d) d sub_clip i_side)))"

definition centers_of_subelements :: "nat \<Rightarrow> nat \<Rightarrow> real list list" where
  "centers_of_subelements d sub =
     map (\<lambda>nodes. map (\<lambda>k. (\<Sum>n\<leftarrow>nodes. node_coords d n ! k) / of_nat (sub + 1)) [0..<d]) (nodes_of_subelements d ! sub)"

definition line_barycentric_interpolation :: "real list \<Rightarrow> real list \<Rightarrow> real \<Rightarrow> real \<Rightarrow> real \<Rightarrow> real list" where
  "line_barycentric_interpolation first_coords second_coords first_theta second_theta theta =
     map2 (\<lambda>a b. ((theta - first_theta) * b + (second_theta - theta) * a) / (second_theta - first_theta))
       first_coords second_coords"


section \<open>Topology\<close>

text \<open>
  The tables are finite: a statement on all their entries is evaluated over the lists of the
  dimensions and indices.
\<close>

text \<open>The nodes of a side are the nodes other than the opposite one, in their order.\<close>

lemma side_nodes_opposite:
  assumes "d \<in> {1, 2, 3}" and "sid \<le> d"
  shows "interact d 0 (d - 1) sid = Inr (filter (\<lambda>k. k \<noteq> oposite_node d sid) [0..<d + 1])"
proof -
  have "\<forall>d \<in> set [1, 2, 3]. \<forall>sid \<in> set [0..<d + 1].
      interact d 0 (d - 1) sid = Inr (filter (\<lambda>k. k \<noteq> oposite_node d sid) [0..<d + 1])"
    by code_simp
  moreover have "d \<in> set [1, 2, 3]" "sid \<in> set [0..<d + 1]" using assms by auto
  ultimately show ?thesis by blast
qed

text \<open>The sub-simplices are numbered lexicographically.\<close>

lemma subelements_lexicographic:
  assumes "d \<in> {1, 2, 3}" and "s \<le> d"
  shows "nodes_of_subelements d ! s = filter (\<lambda>ns. length ns = s + 1) (subseqs [0..<d + 1])"
    and "length (nodes_of_subelements d ! s) = count_subelements d s"
proof -
  have "\<forall>d \<in> set [1, 2, 3]. \<forall>s \<in> set [0..<d + 1].
      nodes_of_subelements d ! s = filter (\<lambda>ns. length ns = s + 1) (subseqs [0..<d + 1])
      \<and> length (nodes_of_subelements d ! s) = count_subelements d s"
    by code_simp
  moreover have "d \<in> set [1, 2, 3]" "s \<in> set [0..<d + 1]" using assms by auto
  ultimately show "nodes_of_subelements d ! s = filter (\<lambda>ns. length ns = s + 1) (subseqs [0..<d + 1])"
    and "length (nodes_of_subelements d ! s) = count_subelements d s"
    by blast+
qed

lemma node_line_incidence:
  assumes "d \<in> {1, 2, 3}" and "n \<le> d" and "l < n_lines d"
  shows "l \<in> set (node_lines d ! n) \<longleftrightarrow> n \<in> set (line_nodes d ! l)"
proof -
  have "\<forall>d \<in> set [1, 2, 3]. \<forall>n \<in> set [0..<d + 1]. \<forall>l \<in> set [0..<n_lines d].
      (l \<in> set (node_lines d ! n)) = (n \<in> set (line_nodes d ! l))"
    by code_simp
  moreover have "d \<in> set [1, 2, 3]" "n \<in> set [0..<d + 1]" "l \<in> set [0..<n_lines d]" using assms by auto
  ultimately show ?thesis by blast
qed

lemma line_between_faces_common:
  assumes "f1 < 4" and "f2 < 4" and "f1 \<noteq> f2"
  shows "\<exists>l < 6. line_between_faces f1 f2 = Inr l \<and> set (line_nodes 3 ! l) = set (side_nodes3 ! f1) \<inter> set (side_nodes3 ! f2)
    \<and> set (line_sides3 ! l) = {f1, f2}"
proof -
  have "\<forall>f1 \<in> set [0..<4]. \<forall>f2 \<in> set [0..<4]. f1 \<noteq> f2 \<longrightarrow>
      (\<exists>l \<in> set [0..<6]. line_between_faces f1 f2 = Inr l \<and> set (line_nodes 3 ! l) = set (side_nodes3 ! f1) \<inter> set (side_nodes3 ! f2)
        \<and> set (line_sides3 ! l) = {f1, f2})"
    by code_simp
  moreover have "f1 \<in> set [0..<4]" "f2 \<in> set [0..<4]" using assms by auto
  ultimately obtain l where "l \<in> set [0..<6]" "line_between_faces f1 f2 = Inr l"
    "set (line_nodes 3 ! l) = set (side_nodes3 ! f1) \<inter> set (side_nodes3 ! f2)" "set (line_sides3 ! l) = {f1, f2}"
    using assms(3) by blast
  then show ?thesis by auto
qed

lemma permutation_index_table:
  assumes "d \<in> {1, 2, 3}" and "k < n_side_permutations d"
  shows "permutation_index d (side_permutations d ! k) = Inr k"
proof -
  have "\<forall>d \<in> set [1, 2, 3]. \<forall>k \<in> set [0..<n_side_permutations d]. permutation_index d (side_permutations d ! k) = Inr k"
    by code_simp
  moreover have "d \<in> set [1, 2, 3]" "k \<in> set [0..<n_side_permutations d]" using assms by auto
  ultimately show ?thesis by blast
qed


text \<open>
  The pattern of zero coordinates of the points inside a sub-simplex and its index. The table of
  dimension 0 has a bit for a coordinate that does not exist and is left out.
\<close>

definition zeros_pattern :: "nat \<Rightarrow> nat list \<Rightarrow> nat \<times> u32" where
  "zeros_pattern d nodes =
     foldl (\<lambda>(n, zeros) i. if i \<notin> set nodes then (n + 1, zeros OR push_bit i 1) else (n, zeros)) (0, 0) [0..<d + 1]"

lemma zeros_pattern_table:
  assumes "d \<in> {1, 2, 3}" and "sub \<le> d" and "k < count_subelements d sub"
  shows "fst (zeros_pattern d (nodes_of_subelements d ! sub ! k)) = d - sub
    \<and> topology_idx d sub (snd (zeros_pattern d (nodes_of_subelements d ! sub ! k))) = Inr k"
proof -
  have "\<forall>d \<in> set [1, 2, 3]. \<forall>sub \<in> set [0..<d + 1]. \<forall>k \<in> set [0..<count_subelements d sub].
      fst (zeros_pattern d (nodes_of_subelements d ! sub ! k)) = d - sub
      \<and> topology_idx d sub (snd (zeros_pattern d (nodes_of_subelements d ! sub ! k))) = Inr k"
    by code_simp
  moreover have "d \<in> set [1, 2, 3]" "sub \<in> set [0..<d + 1]" "k \<in> set [0..<count_subelements d sub]" using assms by auto
  ultimately show ?thesis by blast
qed

lemma zeros_positions_pattern:
  assumes "\<forall>i \<le> d. \<bar>b ! i\<bar> < tolerance \<longleftrightarrow> i \<notin> set nodes"
  shows "zeros_positions d tolerance b = zeros_pattern d nodes"
proof -
  have eq: "foldl (\<lambda>(n, zeros) i. if \<bar>b ! i\<bar> < tolerance then (n + 1, zeros OR push_bit i 1) else (n, zeros)) z is
      = foldl (\<lambda>(n, zeros) i. if i \<notin> set nodes then (n + 1, zeros OR push_bit i 1) else (n, zeros)) z is"
    if "set is \<subseteq> {..d}" for z and "is" :: "nat list"
    using that assms by (induction "is" arbitrary: z) (auto split: prod.splits)
  show ?thesis unfolding zeros_positions_def zeros_pattern_def by (rule eq) auto
qed

section \<open>Projection\<close>

definition in_simplex :: "nat \<Rightarrow> real list \<Rightarrow> bool" where
  "in_simplex d b \<longleftrightarrow> length b = d + 1 \<and> sum_list b = 1 \<and> list_all (\<lambda>x. 0 \<le> x) b"

lemma find_negative_None: "find (\<lambda>i. b ! i < (0::real)) [0..<n] = None \<longleftrightarrow> (\<forall>i < n. 0 \<le> b ! i)"
  by (auto simp: find_None_iff)

lemma sum_list_upto: "(\<Sum>c\<leftarrow>[0..<n]. f c) = (\<Sum>c<n. f c :: real)"
  by (simp add: sum_list_distinct_conv_sum_set atLeast0LessThan)

lemmas ref_tables = line_nodes_def side_nodes3_def

text \<open>Interpolation from the face opposite to a node: the coordinate of the node is zero, the others keep their order.\<close>

lemma interpolate_face:
  assumes "d \<in> {1, 2, 3}" and "i \<le> d" and "length c = d"
  shows "interpolate d (d - 1) c (d - i) = Inr (take i c @ 0 # drop i c)"
proof -
  consider "d = 1" | "d = 2" | "d = 3" using assms(1) by auto
  then show ?thesis
  proof cases
    case 1
    then obtain x where c: "c = [x]" using assms(3) by (auto simp: length_Suc_conv)
    consider "i = 0" | "i = 1" using assms(2) 1 by linarith
    then show ?thesis using 1 c by cases (simp_all add: interpolate_def bary_coords_def interact_def)
  next
    case 2
    then obtain x y where c: "c = [x, y]" using assms(3) by (auto simp: length_Suc_conv numeral_2_eq_2)
    consider "i = 0" | "i = 1" | "i = 2" using assms(2) 2 by linarith
    then show ?thesis using 2 c
      by cases (simp_all add: interpolate_def bary_coords_def interact_def ref_tables upt_rec numeral_2_eq_2)
  next
    case 3
    then obtain x y z where c: "c = [x, y, z]" using assms(3) by (auto simp: length_Suc_conv numeral_3_eq_3)
    consider "i = 0" | "i = 1" | "i = 2" | "i = 3" using assms(2) 3 by linarith
    then show ?thesis using 3 c
      by cases (simp_all add: interpolate_def bary_coords_def interact_def ref_tables upt_rec numeral_nat)
  qed
qed


lemma map_index: "length ns = d \<Longrightarrow> map (\<lambda>k. g (ns ! k)) [0..<d] = map g ns"
  by (intro nth_equalityI) simp_all

lemma face_coords:
  assumes "d \<in> {1, 2, 3}" and "i \<le> d" and "length p = d + 1"
  shows "barycentric_on_face d p (d - i) = Inr (take i p @ drop (Suc i) p)"
proof -
  have "[0..<d + 1] = [0..<i] @ i # [Suc i..<d + 1]"
    using upt_add_eq_append [of 0 i "d + 1 - i"] upt_conv_Cons [of i "d + 1"] assms(2) by (simp del: upt_Suc)
  then have ns: "filter (\<lambda>k. k \<noteq> oposite_node d (d - i)) [0..<d + 1] = [0..<i] @ [Suc i..<d + 1]"
    using assms(2) by (simp add: oposite_node_def)
  have len: "length ([0..<i] @ [Suc i..<d + 1]) = d" using assms(2) by simp
  have "map (\<lambda>k. p ! (([0..<i] @ [Suc i..<d + 1]) ! k)) [0..<d] = map (nth p) ([0..<i] @ [Suc i..<d + 1])"
    by (rule map_index [OF len])
  also have "\<dots> = take i p @ drop (Suc i) p"
    using assms(2,3) by (intro nth_equalityI) (auto simp: nth_append simp del: upt_Suc)
  finally show ?thesis
    using side_nodes_opposite [OF assms(1), of "d - i"] unfolding barycentric_on_face_def ns by simp
qed

lemma sum_list_replace: "k < length xs \<Longrightarrow> sum_list (xs[k := x]) = sum_list xs + x - (xs ! k :: real)"
  by (induction xs arbitrary: k) (auto simp: nth_Cons' algebra_simps split: nat.split)

lemma unit_vec_facts:
  assumes "i \<le> Suc d"
  shows "length (make_bary_unit_vec (Suc d) ! i) = d + 2" and "make_bary_unit_vec (Suc d) ! i ! i = 1"
    and "sum_list (make_bary_unit_vec (Suc d) ! i) = 0"
proof -
  have "i < Suc d \<or> i = Suc d" using assms by auto
  then show "length (make_bary_unit_vec (Suc d) ! i) = d + 2" "make_bary_unit_vec (Suc d) ! i ! i = 1"
    "sum_list (make_bary_unit_vec (Suc d) ! i) = 0"
    by (auto simp: make_bary_unit_vec_def nth_append nth_Cons' sum_list_replace sum_list_replicate simp del: replicate_Suc upt_Suc)
qed

text \<open>The projection along the unit vector of a coordinate makes it zero and keeps the sum.\<close>

lemma projection_facts:
  fixes b u :: "real list"
  assumes "length b = d + 2" and "i < d + 2" and "length u = d + 2" and "u ! i = 1" and "sum_list u = 0"
  defines "p \<equiv> map (\<lambda>k. b ! k - b ! i * u ! k) [0..<d + 2]"
  shows "length p = d + 2" and "p ! i = 0" and "sum_list p = sum_list b"
proof -
  show "length p = d + 2" "p ! i = 0" using assms(2,4) by (simp_all add: p_def del: upt_Suc)
  have "sum_list p = (\<Sum>k<d + 2. b ! k - b ! i * u ! k)" unfolding p_def by (rule sum_list_upto)
  also have "\<dots> = (\<Sum>k<d + 2. b ! k) - b ! i * (\<Sum>k<d + 2. u ! k)" by (simp add: sum_subtractf sum_distrib_left del: sum.lessThan_Suc)
  also have "(\<Sum>k<d + 2. u ! k) = 0" using assms(3,5) by (metis sum_list_sum_nth atLeast0LessThan)
  also have "(\<Sum>k<d + 2. b ! k) = sum_list b" using assms(1) by (metis sum_list_sum_nth atLeast0LessThan)
  finally show "sum_list p = sum_list b" by simp
qed

lemma clip_spec:
  assumes "d \<le> 3" and "length b = d + 1" and "sum_list b = 1"
  shows "\<exists>c. clip d b = Inr c \<and> in_simplex d c \<and> (if in_simplex d b then c = b else 0 \<in> set c)"
  using assms
proof (induction d arbitrary: b)
  case 0
  then show ?case by (auto simp: in_simplex_def length_Suc_conv)
next
  case (Suc d)
  have d: "Suc d \<in> {1, 2, 3}" using Suc.prems(1) by auto
  show ?case
  proof (cases "find (\<lambda>i. b ! i < 0) [0..<d + 2]")
    case None
    then have "in_simplex (Suc d) b"
      using Suc.prems unfolding find_negative_None in_simplex_def by (simp add: list_all_length)
    then show ?thesis using None by simp
  next
    case (Some i)
    then have i: "i < d + 2" "b ! i < 0" by (auto simp: find_Some_iff simp del: upt_Suc)
    then have nin: "\<not> in_simplex (Suc d) b" by (auto simp: in_simplex_def list_all_length)
    define u where "u = make_bary_unit_vec (Suc d) ! i"
    define p where "p = map (\<lambda>k. b ! k - b ! i * u ! k) [0..<d + 2]"
    have u: "length u = d + 2" "u ! i = 1" "sum_list u = 0" using unit_vec_facts [of i d] i(1) by (simp_all add: u_def)
    have lb: "length b = d + 2" using Suc.prems(2) by simp
    note p = projection_facts [OF lb i(1) u, folded p_def]
    define f where "f = take i p @ drop (Suc i) p"
    have face: "barycentric_on_face (Suc d) p (Suc d - i) = Inr f"
      unfolding f_def using face_coords [OF d, of i p] i(1) p(1) by simp
    have "sum_list p = sum_list (take i p) + p ! i + sum_list (drop (Suc i) p)"
      using id_take_nth_drop [of i p] i(1) p(1) by (metis add.assoc sum_list.Cons sum_list_append)
    then have "sum_list f = 1" "length f = d + 1" using p Suc.prems(3) i(1) by (auto simp: f_def)
    from Suc.IH [OF _ this(2,1)] Suc.prems(1) obtain c where c: "clip d f = Inr c" "in_simplex d c" by auto
    define r where "r = take i c @ 0 # drop i c"
    have "interpolate (Suc d) d c (Suc d - i) = Inr r"
      unfolding r_def using interpolate_face [OF d, of i c] i(1) c(2) by (simp add: in_simplex_def)
    moreover have "clip (Suc d) b = bind_res (barycentric_on_face (Suc d) p (Suc d - i)) (\<lambda>f.
        bind_res (clip d f) (\<lambda>c. interpolate (Suc d) d c (Suc d - i)))"
      using Some by (simp add: Let_def u_def p_def del: upt_Suc)
    ultimately have "clip (Suc d) b = Inr r" using face c(1) by simp
    moreover have "sum_list (take i c) + sum_list (drop i c) = sum_list c" by (metis append_take_drop_id sum_list_append)
    then have "in_simplex (Suc d) r" using c(2) i(1)
      by (auto simp: in_simplex_def r_def list_all_iff dest: in_set_takeD in_set_dropD)
    moreover have "0 \<in> set r" by (simp add: r_def)
    ultimately show ?thesis using nin by simp
  qed
qed


section \<open>Properties\<close>



text \<open>
  Projection onto the reference element. Local coordinates go to barycentric ones with sum one and
  back; for such coordinates \<open>clip\<close> returns a point of the simplex: the given one when it is inside,
  else a point on the surface, and clipping again changes nothing.
\<close>

theorem clip_correct:
  assumes "d \<le> 3" and lp: "length lp = d"
  shows "\<exists>c. clip d (local_to_bary lp) = Inr c \<and> in_simplex d c \<and> clip d c = Inr c
    \<and> (if in_simplex d (local_to_bary lp) then bary_to_local c = lp else 0 \<in> set c)"
proof -
  have b: "length (local_to_bary lp) = d + 1" "sum_list (local_to_bary lp) = 1" "bary_to_local (local_to_bary lp) = lp"
    using lp by (simp_all add: local_to_bary_def bary_to_local_def)
  obtain c where c: "clip d (local_to_bary lp) = Inr c" "in_simplex d c"
    "if in_simplex d (local_to_bary lp) then c = local_to_bary lp else 0 \<in> set c"
    using clip_spec [OF assms(1) b(1,2)] by blast
  moreover have "clip d c = Inr c" using clip_spec [OF assms(1), of c] c(2) by (auto simp: in_simplex_def)
  ultimately show ?thesis using b(3) by (auto split: if_splits)
qed

theorem clip_correct_witness: "\<exists>c. clip 2 (local_to_bary [-1 / 2, -1 / 2]) = Inr c \<and> in_simplex 2 c \<and> 0 \<in> set c"
  using clip_correct [of 2 "[-1 / 2, -1 / 2]"] by (auto simp: in_simplex_def local_to_bary_def)

end
