(* ===== verification/Mesh_Topology.thy ===== *)
theory Mesh_Topology
  imports Mesh_Build Ref_Element
begin

text \<open>
  The topology of the mesh, from \<open>src/src/mesh/mesh.cc\<close>, \<open>mesh_data.hh\<close> and the accessors: lists of elements at
  nodes, edges (groups of sides with the same nodes), boundaries and the neighbours
  between elements whose dimensions differ by one.
\<close>

section \<open>Model\<close>

datatype topo_error =
    MeshError mesh_error
  | TmpNotEmpty
  | NodeRange
  | TooMatching nat nat
  | BoundaryMatch nat nat
  | AssertBoundary nat
  | ExcDuplicateBoundary "nat option" nat
  | MissingEdgeSides nat nat

text \<open>A side is an element and the index of the side in it; an edge is the array of its sides.\<close>

type_synonym side = "nat \<times> nat"

record boundary_data =
  bdr_edge_idx :: "nat option"
  bc_ele_idx :: "nat option"

record neighbour =
  ngh_elem_idx :: nat
  ngh_edge_idx :: nat

record topology =
  topo_mesh :: mesh_data
  node_elements :: "nat list list"
  edges :: "side list list"
  boundary_vec :: "boundary_data list"
  vb_neighbours :: "neighbour list"
  max_edge_sides :: "nat list"

definition new_boundary :: boundary_data where
  "new_boundary = \<lparr>bdr_edge_idx = None, bc_ele_idx = None\<rparr>"

definition new_topology :: "mesh_data \<Rightarrow> topology" where
  "new_topology m = \<lparr>topo_mesh = m, node_elements = [], edges = [], boundary_vec = [], vb_neighbours = [], max_edge_sides = [0, 0, 0]\<rparr>"

text \<open>\<open>Mesh::side_nodes\<close> for the three dimensions of sides.\<close>

definition side_nodes_row :: "nat \<Rightarrow> nat list list" where
  "side_nodes_row d =
     map (\<lambda>sid. case interact d 0 (d - 1) sid of Inr ns \<Rightarrow> map (nth ns) [0..<d] | Inl _ \<Rightarrow> []) [0..<d + 1]"

definition mesh_side_nodes :: "nat list list list" where
  "mesh_side_nodes = [side_nodes_row 1, side_nodes_row 2, side_nodes_row 3]"

abbreviation dim_of :: "element \<Rightarrow> nat" where "dim_of e \<equiv> unat (elem_dim e)"
abbreviation elems :: "topology \<Rightarrow> element list" where "elems t \<equiv> element_vec (topo_mesh t)"
abbreviation bulk_of :: "topology \<Rightarrow> nat" where "bulk_of t \<equiv> mesh_bulk_size (topo_mesh t)"

definition node_idxs :: "element \<Rightarrow> nat list" where
  "node_idxs e = map unat (elem_nodes e)"

text \<open>\<open>Side::node\<close> for all nodes of a side of an element of dimension one to three.\<close>

definition side_node_list :: "element list \<Rightarrow> side \<Rightarrow> nat list" where
  "side_node_list es = (\<lambda>(k, s). map (\<lambda>i. node_idxs (es ! k) ! i) (mesh_side_nodes ! (dim_of (es ! k) - 1) ! s))"

text \<open>The vector of lists is not cleared before it is filled.\<close>

definition resize_lists :: "nat \<Rightarrow> 'a list list \<Rightarrow> 'a list list" where
  "resize_lists n xs = take n xs @ replicate (n - length xs) []"

definition push_node_element :: "nat list list \<Rightarrow> nat \<times> nat \<Rightarrow> (topo_error, nat list list) res" where
  "push_node_element ne = (\<lambda>(n, k). if n < length ne then Inr (ne[n := ne ! n @ [k]]) else Inl NodeRange)"

definition create_node_element_lists :: "topology \<Rightarrow> (topo_error, topology) res" where
  "create_node_element_lists t =
     bind_res (fold_res push_node_element (resize_lists (length (mesh_nodes (topo_mesh t))) (node_elements t))
         (concat (map (\<lambda>k. map (\<lambda>n. (n, k)) (node_idxs (elems t ! k))) [0..<bulk_of t]))) (\<lambda>ne.
       Inr (t\<lparr>node_elements := map sort ne\<rparr>))"

fun lists_at :: "nat list list \<Rightarrow> nat list \<Rightarrow> (topo_error, nat list list) res" where
  "lists_at ne [] = Inr []"
| "lists_at ne (n # ns) = bind_res (vec_at NodeRange ne n) (\<lambda>l. bind_res (lists_at ne ns) (\<lambda>ls. Inr (l # ls)))"

text \<open>The list of the second node is intersected twice.\<close>

fun intersect_lists :: "nat list list \<Rightarrow> nat list" where
  "intersect_lists [] = []"
| "intersect_lists [l] = l"
| "intersect_lists (l1 # l2 # ls) = foldl set_intersection (set_intersection l1 l2) (l2 # ls)"

definition intersect_element_lists :: "topology \<Rightarrow> nat list \<Rightarrow> (topo_error, topology \<times> nat list) res" where
  "intersect_element_lists t nodes =
     bind_res (if node_elements t = [] then create_node_element_lists t else Inr t) (\<lambda>t1.
     bind_res (lists_at (node_elements t1) nodes) (\<lambda>ls. Inr (t1, intersect_lists ls)))"

fun find_lower_dim_element ::
  "element list \<Rightarrow> nat list \<Rightarrow> nat \<Rightarrow> nat option \<Rightarrow> (topo_error, nat list \<times> nat option) res" where
  "find_lower_dim_element es [] d ngh = Inr ([], ngh)"
| "find_lower_dim_element es (k # ks) d ngh =
     (if dim_of (es ! k) = d
      then bind_res (find_lower_dim_element es ks d ngh) (\<lambda>(l, r). Inr (k # l, r))
      else if dim_of (es ! k) + 1 = d
      then (case ngh of Some k' \<Rightarrow> Inl (TooMatching k k') | None \<Rightarrow> find_lower_dim_element es ks d (Some k))
      else find_lower_dim_element es ks d ngh)"

definition same_sides :: "element list \<Rightarrow> side \<Rightarrow> nat list \<Rightarrow> bool" where
  "same_sides es si side_nodes \<longleftrightarrow> list_all (\<lambda>n. n \<in> set side_nodes) (side_node_list es si)"

definition update_elem :: "topology \<Rightarrow> nat \<Rightarrow> (element \<Rightarrow> element) \<Rightarrow> topology" where
  "update_elem t k f = t\<lparr>topo_mesh := (topo_mesh t)\<lparr>element_vec := (elems t)[k := f (elems t ! k)]\<rparr>\<rparr>"

text \<open>The side becomes the next side of the edge.\<close>

definition connect_side :: "topology \<Rightarrow> nat \<Rightarrow> side \<Rightarrow> topology" where
  "connect_side t edg = (\<lambda>(k, s).
     update_elem (t\<lparr>edges := (edges t)[edg := edges t ! edg @ [(k, s)]]\<rparr>) k (\<lambda>e. e\<lparr>edge_idx := (edge_idx e)[s := Some edg]\<rparr>))"

definition set_boundary_idx :: "element \<Rightarrow> nat \<Rightarrow> nat \<Rightarrow> element" where
  "set_boundary_idx e s b =
     e\<lparr>boundary_idx_arr := Some ((case boundary_idx_arr e of None \<Rightarrow> replicate (n_nodes_of (elem_dim e)) None | Some a \<Rightarrow> a)[s := Some b])\<rparr>"

definition connect_boundary_side :: "nat \<Rightarrow> nat \<Rightarrow> nat \<Rightarrow> nat list \<Rightarrow> topology \<Rightarrow> nat \<Rightarrow> (topo_error, topology) res" where
  "connect_boundary_side edg bdr i side_nodes t k =
     (case find (\<lambda>s. same_sides (elems t) (k, s) side_nodes) [0..<n_nodes_of (elem_dim (elems t ! k))] of
        None \<Rightarrow> Inr t
      | Some s \<Rightarrow>
          if edge_idx (elems t ! k) ! s \<noteq> None
          then Inl (ExcDuplicateBoundary (case boundary_idx_arr (elems t ! k) of
                      Some a \<Rightarrow> (case a ! s of Some b \<Rightarrow> bc_ele_idx (boundary_vec t ! b) | None \<Rightarrow> None) | None \<Rightarrow> None) i)
          else Inr (update_elem (connect_side t edg (k, s)) k (\<lambda>e. set_boundary_idx e s bdr)))"

definition boundary_edge :: "topology \<Rightarrow> nat \<Rightarrow> (topo_error, topology) res" where
  "boundary_edge t i =
     (if \<not> is_boundary_idx (elem_region (elems t ! i)) then Inl (AssertBoundary i)
      else let side_nodes = node_idxs (elems t ! i) in
        bind_res (intersect_element_lists t side_nodes) (\<lambda>(t1, isect).
        bind_res (find_lower_dim_element (elems t1) isect (dim_of (elems t1 ! i) + 1) None) (\<lambda>(isect', ngh).
          case ngh of
            Some k \<Rightarrow> Inl (BoundaryMatch i k)
          | None \<Rightarrow>
              if isect' = [] then Inr t1
              else fold_res (connect_boundary_side (length (edges t1)) (length (boundary_vec t1)) i side_nodes)
                     (t1\<lparr>edges := edges t1 @ [[]],
                         boundary_vec := boundary_vec t1 @ [\<lparr>bdr_edge_idx = Some (length (edges t1)), bc_ele_idx = Some i\<rparr>]\<rparr>)
                     isect')))"

text \<open>The first side of an element without an edge that has the given nodes.\<close>

definition free_side :: "topology \<Rightarrow> nat \<Rightarrow> nat list \<Rightarrow> nat option" where
  "free_side t k side_nodes =
     find (\<lambda>s. edge_idx (elems t ! k) ! s = None \<and> same_sides (elems t) (k, s) side_nodes)
       [0..<n_nodes_of (elem_dim (elems t ! k))]"

definition connect_neighbour :: "nat \<Rightarrow> nat list \<Rightarrow> topology \<Rightarrow> nat \<Rightarrow> topology" where
  "connect_neighbour ngh side_nodes t k =
     (case free_side t k side_nodes of
        None \<Rightarrow> t
      | Some s \<Rightarrow>
          (connect_side (t\<lparr>edges := edges t @ [[]]\<rparr>) (length (edges t)) (k, s))
            \<lparr>vb_neighbours := vb_neighbours t @ [\<lparr>ngh_elem_idx = ngh, ngh_edge_idx = length (edges t)\<rparr>]\<rparr>)"

definition connect_edge :: "nat \<Rightarrow> nat list \<Rightarrow> topology \<Rightarrow> nat \<Rightarrow> topology" where
  "connect_edge edg side_nodes t k =
     (case free_side t k side_nodes of None \<Rightarrow> t | Some s \<Rightarrow> connect_side t edg (k, s))"

text \<open>
  An edge with one side: the boundary object and the boundary element with the negative id
  are created. The new index is one above the size, so that one empty boundary object precedes it.
\<close>

definition outer_side :: "topology \<Rightarrow> side \<Rightarrow> nat \<Rightarrow> nat list \<Rightarrow> (topo_error, topology) res" where
  "outer_side t = (\<lambda>(k, s) edg side_nodes.
     let bdr = length (boundary_vec t) + 1;
         t1 = update_elem (connect_side t edg (k, s)) k (\<lambda>e. set_boundary_idx e s bdr);
         m1 = topo_mesh t1
     in bind_res (map_err MeshError (add_element_to_vector m1 (- of_nat bdr))) (\<lambda>m2.
        bind_res (map_err (MeshError \<circ> RegionError) (implicit_boundary_region (mesh_regions m2))) (\<lambda>(r, db).
        bind_res (map_err (MeshError \<circ> RegionError) (mark_used_region db r)) (\<lambda>db'.
          let last = length (element_vec m2) - 1;
              bc = (element_init (element_vec m2 ! last) (elem_dim (elems t ! k) - 1) r)\<lparr>elem_nodes := map of_nat side_nodes\<rparr>;
              m3 = m2\<lparr>mesh_regions := db', element_vec := (element_vec m2)[last := bc]\<rparr>;
              p = elem_index m3 (sint (- of_nat bdr :: u32))
          in Inr (t1\<lparr>topo_mesh := m3,
               boundary_vec := boundary_vec t1 @ [new_boundary,
                 \<lparr>bdr_edge_idx = Some edg, bc_ele_idx = (if p < 0 then None else Some (nat p))\<rparr>]\<rparr>)))))"

definition side_edge :: "topology \<Rightarrow> side \<Rightarrow> (topo_error, topology) res" where
  "side_edge t = (\<lambda>(k, s).
     if edge_idx (elems t ! k) ! s \<noteq> None then Inr t
     else let side_nodes = side_node_list (elems t) (k, s); d = dim_of (elems t ! k) in
       bind_res (intersect_element_lists t side_nodes) (\<lambda>(t1, isect).
       bind_res (find_lower_dim_element (elems t1) isect d None) (\<lambda>(isect', ngh).
         case ngh of
           Some l \<Rightarrow> Inr (foldl (connect_neighbour l side_nodes) t1 isect')
         | None \<Rightarrow>
             let edg = length (edges t1);
                 t2 = t1\<lparr>edges := edges t1 @ [[]],
                         max_edge_sides := (max_edge_sides t1)[d - 1 := max (max_edge_sides t1 ! (d - 1)) (length isect')]\<rparr>
             in if length isect' = 1 then outer_side t2 (k, s) edg side_nodes
                else let t3 = foldl (connect_edge edg side_nodes) t2 isect' in
                  if length (edges t3 ! edg) = length isect' then Inr t3 else Inl (MissingEdgeSides k s))))"

definition make_neighbours_and_edges :: "topology \<Rightarrow> (topo_error, topology) res" where
  "make_neighbours_and_edges t =
     (if bc_element_tmp (topo_mesh t) \<noteq> [] then Inl TmpNotEmpty
      else bind_res (create_node_element_lists t) (\<lambda>t1.
           bind_res (fold_res boundary_edge (t1\<lparr>edges := []\<rparr>) [bulk_of t1..<length (elems t1)]) (\<lambda>t2.
             fold_res side_edge t2
               (concat (map (\<lambda>k. map (\<lambda>s. (k, s)) [0..<n_nodes_of (elem_dim (elems t2 ! k))]) [0..<bulk_of t2])))))"


section \<open>Sides of simplices\<close>

text \<open>A bulk element of a mesh with \<open>n\<close> nodes.\<close>

definition simplex_ok :: "nat \<Rightarrow> element \<Rightarrow> bool" where
  "simplex_ok n e \<longleftrightarrow> dim_of e \<in> {1, 2, 3} \<and> length (elem_nodes e) = dim_of e + 1 \<and> distinct (node_idxs e)
     \<and> (\<forall>v \<in> set (node_idxs e). v < n)"

lemma n_nodes_of_dim: "unat d \<in> {1, 2, 3} \<Longrightarrow> n_nodes_of d = unat d + 1"
  by (auto simp: n_nodes_of_def unat_word_ariths)

lemma mesh_side_nodes_at:
  assumes "d \<in> {1, 2, 3}" and "s \<le> d"
  shows "mesh_side_nodes ! (d - 1) ! s = filter (\<lambda>k. k \<noteq> d - s) [0..<d + 1]"
proof -
  have row: "mesh_side_nodes ! (d - 1) = side_nodes_row d" using assms(1) by (auto simp: mesh_side_nodes_def)
  have f: "interact d 0 (d - 1) s = Inr (filter (\<lambda>k. k \<noteq> d - s) [0..<d + 1])"
    using side_nodes_opposite [OF assms] by (simp add: oposite_node_def)
  have "card (set (filter (\<lambda>k. k \<noteq> d - s) [0..<d + 1])) = card ({..<d + 1} - {d - s})"
    by (rule arg_cong [where f = card]) auto
  also have "\<dots> = d" by simp
  finally have len: "length (filter (\<lambda>k. k \<noteq> d - s) [0..<d + 1]) = d"
    by (subst (asm) distinct_card) (auto simp del: upt_Suc)
  have "side_nodes_row d ! s = map (nth (filter (\<lambda>k. k \<noteq> d - s) [0..<d + 1])) [0..<d]"
    using assms(2) f unfolding side_nodes_row_def by (simp add: less_Suc_eq_le del: upt_Suc filter.simps)
  also have "\<dots> = filter (\<lambda>k. k \<noteq> d - s) [0..<d + 1]" using map_nth len by metis
  finally show ?thesis unfolding row .
qed

lemma side_nodes_facts:
  assumes e: "simplex_ok n (es ! k)" and s: "s \<le> dim_of (es ! k)"
  shows "set (side_node_list es (k, s)) = set (node_idxs (es ! k)) - {node_idxs (es ! k) ! (dim_of (es ! k) - s)}"
    and "distinct (side_node_list es (k, s))" and "length (side_node_list es (k, s)) = dim_of (es ! k)"
proof -
  let ?d = "dim_of (es ! k)" and ?N = "node_idxs (es ! k)"
  have d: "?d \<in> {1, 2, 3}" and len: "length ?N = ?d + 1" and dist: "distinct ?N"
    using e by (auto simp: simplex_ok_def node_idxs_def)
  have l: "side_node_list es (k, s) = map (nth ?N) (filter (\<lambda>i. i \<noteq> ?d - s) [0..<?d + 1])"
    unfolding side_node_list_def using mesh_side_nodes_at [OF d s] by simp
  have idx: "\<forall>i < ?d + 1. ?N ! i = ?N ! (?d - s) \<longleftrightarrow> i = ?d - s" using dist len by (simp add: nth_eq_iff_index_eq)
  have "side_node_list es (k, s) = filter (\<lambda>v. v \<noteq> ?N ! (?d - s)) (map (nth ?N) [0..<?d + 1])"
    unfolding l filter_map o_def using idx by (intro arg_cong [where f = "map (nth ?N)"] filter_cong) auto
  also have "map (nth ?N) [0..<?d + 1] = ?N" using len map_nth by metis
  finally have l': "side_node_list es (k, s) = filter (\<lambda>v. v \<noteq> ?N ! (?d - s)) ?N" .
  show "set (side_node_list es (k, s)) = set ?N - {?N ! (?d - s)}" unfolding l' by auto
  show "distinct (side_node_list es (k, s))" unfolding l' using dist by simp
  then have "length (side_node_list es (k, s)) = card (set ?N - {?N ! (?d - s)})"
    using \<open>set (side_node_list es (k, s)) = set ?N - {?N ! (?d - s)}\<close> by (metis distinct_card)
  then show "length (side_node_list es (k, s)) = ?d" using distinct_card [OF dist] len by simp
qed

text \<open>In a simplex that contains \<open>dim\<close> given nodes exactly one side consists of them.\<close>

lemma unique_side:
  assumes e: "simplex_ok n (es ! k)" and ns: "distinct ns" "length ns = dim_of (es ! k)" "set ns \<subseteq> set (node_idxs (es ! k))"
  obtains s where "s \<le> dim_of (es ! k)" and "set (side_node_list es (k, s)) = set ns"
    and "\<And>s'. s' \<le> dim_of (es ! k) \<Longrightarrow> same_sides es (k, s') ns \<longleftrightarrow> s' = s"
proof -
  let ?d = "dim_of (es ! k)" and ?N = "node_idxs (es ! k)"
  have len: "length ?N = ?d + 1" and dist: "distinct ?N" using e by (auto simp: simplex_ok_def node_idxs_def)
  have "card (set ?N - set ns) = 1"
    using ns len dist by (simp add: card_Diff_subset distinct_card)
  then obtain v where v: "set ?N - set ns = {v}" by (auto simp: card_1_singleton_iff)
  then obtain j where j: "j < ?d + 1" "?N ! j = v" using len by (metis Diff_iff in_set_conv_nth insertI1)
  have eq: "set (side_node_list es (k, s')) \<subseteq> set ns \<longleftrightarrow> s' = ?d - j" if "s' \<le> ?d" for s'
  proof -
    have "set (side_node_list es (k, s')) \<subseteq> set ns \<longleftrightarrow> v = ?N ! (?d - s')"
      unfolding side_nodes_facts(1) [OF e that] using v by auto
    also have "\<dots> \<longleftrightarrow> j = ?d - s'" using j len dist by (auto simp: nth_eq_iff_index_eq)
    finally show ?thesis using that j(1) by auto
  qed
  have "set (side_node_list es (k, ?d - j)) = set ns"
    using side_nodes_facts(1) [OF e, of "?d - j"] v j ns(3) by auto
  then show thesis
    using that [of "?d - j"] eq by (simp add: same_sides_def list_all_iff subset_eq)
qed


section \<open>Elements with given nodes\<close>

definition lists_ok :: "nat list list \<Rightarrow> element list \<Rightarrow> nat \<Rightarrow> nat \<Rightarrow> bool" where
  "lists_ok ne es nb nn \<longleftrightarrow> length ne = nn \<and>
     (\<forall>v < nn. sorted (ne ! v) \<and> distinct (ne ! v) \<and> set (ne ! v) = {k. k < nb \<and> v \<in> set (node_idxs (es ! k))})"

lemma fold_push_node_element:
  assumes "\<forall>p \<in> set ps. fst p < length ne"
  shows "\<exists>ne'. fold_res push_node_element ne ps = Inr ne' \<and> length ne' = length ne
    \<and> (\<forall>v < length ne. ne' ! v = ne ! v @ map snd (filter (\<lambda>p. fst p = v) ps))"
  using assms
proof (induction ps arbitrary: ne)
  case (Cons p ps)
  obtain n k where p: "p = (n, k)" by (cases p)
  then have n: "n < length ne" using Cons.prems by simp
  obtain ne' where "fold_res push_node_element (ne[n := ne ! n @ [k]]) ps = Inr ne'" "length ne' = length ne"
    "\<forall>v < length ne. ne' ! v = ne[n := ne ! n @ [k]] ! v @ map snd (filter (\<lambda>p. fst p = v) ps)"
    using Cons.IH [of "ne[n := ne ! n @ [k]]"] Cons.prems by auto
  moreover have "push_node_element ne p = Inr (ne[n := ne ! n @ [k]])" using n by (simp add: p push_node_element_def)
  ultimately show ?case using n by (intro exI [of _ ne']) (auto simp: p nth_list_update)
qed simp

lemma filter_fst_pairs: "distinct ns \<Longrightarrow> map snd (filter (\<lambda>p. fst p = v) (map (\<lambda>n. (n, k)) ns)) = (if v \<in> set ns then [k] else [])"
  by (induction ns) auto

lemma node_element_pairs:
  assumes "\<forall>k < nb. distinct (node_idxs (es ! k))"
  shows "map snd (filter (\<lambda>p. fst p = v) (concat (map (\<lambda>k. map (\<lambda>n. (n, k)) (node_idxs (es ! k))) [0..<nb])))
    = filter (\<lambda>k. v \<in> set (node_idxs (es ! k))) [0..<nb]"
  using assms by (induction nb) (simp_all add: filter_fst_pairs)

lemma create_lists_ok:
  assumes "node_elements t = []" and "\<forall>k < bulk_of t. simplex_ok (length (mesh_nodes (topo_mesh t))) (elems t ! k)"
  obtains ne where "create_node_element_lists t = Inr (t\<lparr>node_elements := ne\<rparr>)"
    and "lists_ok ne (elems t) (bulk_of t) (length (mesh_nodes (topo_mesh t)))"
proof -
  let ?nn = "length (mesh_nodes (topo_mesh t))"
  let ?ps = "concat (map (\<lambda>k. map (\<lambda>n. (n, k)) (node_idxs (elems t ! k))) [0..<bulk_of t])"
  have "\<forall>p \<in> set ?ps. fst p < length (replicate ?nn ([] :: nat list))"
    using assms(2) by (auto simp: simplex_ok_def)
  from fold_push_node_element [OF this] obtain ne where ne: "fold_res push_node_element (replicate ?nn []) ?ps = Inr ne"
    "length ne = ?nn" "\<forall>v < ?nn. ne ! v = map snd (filter (\<lambda>p. fst p = v) ?ps)" by auto
  have "ne ! v = filter (\<lambda>k. v \<in> set (node_idxs (elems t ! k))) [0..<bulk_of t]" if "v < ?nn" for v
    using ne(3) that node_element_pairs [of "bulk_of t" "elems t" v] assms(2) by (simp add: simplex_ok_def)
  then have "lists_ok (map sort ne) (elems t) (bulk_of t) ?nn"
    using ne(2) by (auto simp: lists_ok_def)
  moreover have "create_node_element_lists t = Inr (t\<lparr>node_elements := map sort ne\<rparr>)"
    using assms(1) ne(1) by (simp add: create_node_element_lists_def resize_lists_def)
  ultimately show thesis using that by blast
qed

lemma lists_at_ok: "\<forall>v \<in> set ns. v < length ne \<Longrightarrow> lists_at ne ns = Inr (map (nth ne) ns)"
  by (induction ns) auto

lemma set_intersection_subseq: "set (set_intersection xs ys) \<subseteq> set xs"
  by (induction xs ys rule: set_intersection.induct) auto

lemma set_intersection_props:
  assumes "sorted xs" "distinct xs" "sorted ys" "distinct ys"
  shows "sorted (set_intersection xs ys) \<and> distinct (set_intersection xs ys) \<and> set (set_intersection xs ys) = set xs \<inter> set ys"
proof -
  have "sorted (set_intersection xs ys)"
    using assms
  proof (induction xs ys rule: set_intersection.induct)
    case (1 x xs y ys)
    then show ?case using set_intersection_subseq [of xs ys] by auto
  qed auto
  then show ?thesis using set_intersection_sorted [of xs ys] assms by simp
qed

lemma fold_intersection_props:
  assumes "sorted l" "distinct l" "\<forall>m \<in> set ls. sorted m \<and> distinct m"
  shows "sorted (foldl set_intersection l ls) \<and> distinct (foldl set_intersection l ls)
    \<and> set (foldl set_intersection l ls) = set l \<inter> (\<Inter>m \<in> set ls. set m)"
  using assms
proof (induction ls arbitrary: l)
  case (Cons m ls)
  then show ?case using set_intersection_props [of l m] by auto
qed simp

lemma intersect_lists_props:
  assumes "ls \<noteq> []" "\<forall>m \<in> set ls. sorted m \<and> distinct m"
  shows "sorted (intersect_lists ls) \<and> distinct (intersect_lists ls) \<and> set (intersect_lists ls) = (\<Inter>m \<in> set ls. set m)"
proof (cases ls rule: intersect_lists.cases)
  case (3 l1 l2 ls')
  then have "sorted (set_intersection l1 l2)" "distinct (set_intersection l1 l2)" "\<forall>m \<in> set (l2 # ls'). sorted m \<and> distinct m"
    "set (set_intersection l1 l2) = set l1 \<inter> set l2"
    using assms(2) set_intersection_props [of l1 l2] by auto
  from fold_intersection_props [OF this(1-3)] this(4) show ?thesis using 3 by auto
qed (use assms in auto)

text \<open>The elements that contain all given nodes, in increasing order.\<close>

lemma intersect_element_lists_ok:
  assumes ok: "lists_ok (node_elements t) es nb nn" and ns: "ns \<noteq> []" "\<forall>v \<in> set ns. v < nn"
  shows "intersect_element_lists t ns = Inr (t, filter (\<lambda>k. set ns \<subseteq> set (node_idxs (es ! k))) [0..<nb])"
proof -
  have ne: "node_elements t \<noteq> []" "\<forall>v \<in> set ns. v < length (node_elements t)"
    using ok ns by (cases ns; auto simp: lists_ok_def)+
  let ?ls = "map (nth (node_elements t)) ns"
  have "sorted (intersect_lists ?ls) \<and> distinct (intersect_lists ?ls)
      \<and> set (intersect_lists ?ls) = (\<Inter>m \<in> set ?ls. set m)"
    using ok ns by (intro intersect_lists_props) (auto simp: lists_ok_def)
  moreover have "(\<Inter>m \<in> set ?ls. set m) = set (filter (\<lambda>k. set ns \<subseteq> set (node_idxs (es ! k))) [0..<nb])"
    using ok ns by (cases ns) (auto simp: lists_ok_def)
  ultimately have "intersect_lists ?ls = filter (\<lambda>k. set ns \<subseteq> set (node_idxs (es ! k))) [0..<nb]"
    by (intro sorted_distinct_set_unique) (simp_all add: sorted_wrt_filter)
  then show ?thesis using ne(1) lists_at_ok [OF ne(2)] by (simp add: intersect_element_lists_def)
qed

lemma find_lower_dim_element_Some:
  "find_lower_dim_element es ks d (Some a) = Inr (l, r) \<Longrightarrow>
     l = filter (\<lambda>k. dim_of (es ! k) = d) ks \<and> r = Some a \<and> filter (\<lambda>k. dim_of (es ! k) + 1 = d) ks = []"
  by (induction ks arbitrary: l r) (auto simp: res_simps split: if_splits)

lemma find_lower_dim_element_None:
  "find_lower_dim_element es ks d None = Inr (l, r) \<Longrightarrow>
     l = filter (\<lambda>k. dim_of (es ! k) = d) ks
     \<and> filter (\<lambda>k. dim_of (es ! k) + 1 = d) ks = (case r of None \<Rightarrow> [] | Some k \<Rightarrow> [k])"
proof (induction ks arbitrary: l r)
  case (Cons k ks)
  show ?case
  proof (cases "dim_of (es ! k) + 1 = d")
    case True
    then have "dim_of (es ! k) \<noteq> d" "find_lower_dim_element es ks d (Some k) = Inr (l, r)" using Cons.prems by auto
    with find_lower_dim_element_Some [OF this(2)] True show ?thesis by simp
  next
    case False
    then show ?thesis using Cons by (auto simp: res_simps split: if_splits)
  qed
qed simp

lemma find_lower_dim_element_Inl: "find_lower_dim_element es ks d ngh = Inl e \<Longrightarrow> \<exists>a b. e = TooMatching a b"
  by (induction ks arbitrary: ngh) (auto simp: res_simps split: if_splits option.splits)


section \<open>Edges as groups of sides\<close>

text \<open>
  What the edges promise, for the sides \<open>X\<close> with their keys (dimension and set of nodes), the lower
  elements of a key, the edge of every side, the edges and the neighbours: a side with an edge is listed in it
  and only there, sides with the same key get their edges together, they share one edge unless
  there is a lower element, and then each has an edge of its own and a neighbour to the lower element.
\<close>

definition edges_inv ::
  "side set \<Rightarrow> (side \<Rightarrow> 'k) \<Rightarrow> ('k \<Rightarrow> nat \<Rightarrow> bool) \<Rightarrow> (side \<Rightarrow> nat option) \<Rightarrow> side list list \<Rightarrow> neighbour list \<Rightarrow> bool" where
  "edges_inv X key lower eo E V \<longleftrightarrow>
     (\<forall>x \<in> X. \<forall>k. eo x = Some k \<longrightarrow> k < length E \<and> x \<in> set (E ! k))
   \<and> (\<forall>k < length E. E ! k \<noteq> [] \<and> distinct (E ! k) \<and> (\<forall>x \<in> set (E ! k). x \<in> X \<and> eo x = Some k))
   \<and> (\<forall>x \<in> X. \<forall>y \<in> X. key x = key y \<longrightarrow> (eo x = None \<longleftrightarrow> eo y = None))
   \<and> (\<forall>x \<in> X. \<forall>y \<in> X. x \<noteq> y \<longrightarrow> eo x \<noteq> None \<longrightarrow> (eo x = eo y \<longleftrightarrow> key x = key y \<and> (\<nexists>l. lower (key x) l)))
   \<and> (\<forall>n. n \<in> set V \<longleftrightarrow> (\<exists>x \<in> X. eo x = Some (ngh_edge_idx n) \<and> lower (key x) (ngh_elem_idx n)))
   \<and> distinct V"

lemma edges_invD:
  assumes "edges_inv X key lower eo E V"
  shows "x \<in> X \<Longrightarrow> eo x = Some k \<Longrightarrow> k < length E \<and> x \<in> set (E ! k)"
    and "k < length E \<Longrightarrow> E ! k \<noteq> [] \<and> distinct (E ! k)"
    and "k < length E \<Longrightarrow> x \<in> set (E ! k) \<Longrightarrow> x \<in> X \<and> eo x = Some k"
    and "x \<in> X \<Longrightarrow> y \<in> X \<Longrightarrow> key x = key y \<Longrightarrow> eo x = None \<longleftrightarrow> eo y = None"
    and "x \<in> X \<Longrightarrow> y \<in> X \<Longrightarrow> x \<noteq> y \<Longrightarrow> eo x \<noteq> None \<Longrightarrow> eo x = eo y \<longleftrightarrow> key x = key y \<and> (\<nexists>l. lower (key x) l)"
    and "n \<in> set V \<longleftrightarrow> (\<exists>x \<in> X. eo x = Some (ngh_edge_idx n) \<and> lower (key x) (ngh_elem_idx n))"
    and "distinct V"
  using assms unfolding edges_inv_def by blast+

lemma edges_inv_empty: "(\<forall>x \<in> X. eo x = None) \<Longrightarrow> edges_inv X key lower eo [] []"
  by (auto simp: edges_inv_def)

text \<open>A complete group becomes one edge.\<close>

lemma edges_inv_group:
  assumes inv: "edges_inv X key lower eo E V"
    and G: "set G = {x \<in> X. key x = \<kappa>}" "distinct G" "G \<noteq> []"
    and free: "\<And>x. x \<in> set G \<Longrightarrow> eo x = None" and low: "\<nexists>l. lower \<kappa> l"
    and eo': "\<And>x. x \<in> X \<Longrightarrow> eo' x = (if x \<in> set G then Some (length E) else eo x)"
  shows "edges_inv X key lower eo' (E @ [G]) V"
proof -
  note I = edges_invD [OF inv]
  have lt: "eo x \<noteq> Some (length E)" if "x \<in> X" for x using I(1) [OF that] by fastforce
  have old: "x \<notin> set G" if "k < length E" "x \<in> set (E ! k)" for k x using I(3) [OF that] free by fastforce
  show ?thesis
    unfolding edges_inv_def
  proof (intro conjI ballI allI impI)
    fix x k assume "x \<in> X" "eo' x = Some k"
    then show "k < length (E @ [G])" "x \<in> set ((E @ [G]) ! k)"
      using I(1) [of x k] eo' [of x] by (cases "x \<in> set G"; simp add: nth_append)+
  next
    fix k assume "k < length (E @ [G])"
    then show "(E @ [G]) ! k \<noteq> []" "distinct ((E @ [G]) ! k)"
      using I(2) [of k] G by (auto simp: nth_append less_Suc_eq)
  next
    fix k x assume k: "k < length (E @ [G])" and x: "x \<in> set ((E @ [G]) ! k)"
    consider "k < length E" "x \<in> set (E ! k)" | "k = length E" "x \<in> set G"
      using k x by (cases "k < length E") (simp_all add: nth_append)
    then have "x \<in> X \<and> eo' x = Some k"
    proof cases
      case 1
      then show ?thesis using I(3) [OF 1] old [OF 1] eo' [of x] by simp
    next
      case 2
      then show ?thesis using G(1) eo' [of x] by auto
    qed
    then show "x \<in> X" "eo' x = Some k" by blast+
  next
    fix x y assume "x \<in> X" "y \<in> X" "key x = key y"
    then show "(eo' x = None) = (eo' y = None)" using I(4) [of x y] eo' G(1) by auto
  next
    fix x y assume x: "x \<in> X" "y \<in> X" "x \<noteq> y" "eo' x \<noteq> None"
    show "(eo' x = eo' y) = (key x = key y \<and> (\<nexists>l. lower (key x) l))"
    proof (cases "x \<in> set G \<or> y \<in> set G")
      case True
      then show ?thesis using x eo' [of x] eo' [of y] lt [of x] lt [of y] G(1) low I(4) [of x y] by auto
    next
      case False
      then show ?thesis using x eo' [of x] eo' [of y] I(5) [of x y] by simp
    qed
  next
    fix n :: neighbour
    have "(\<exists>x \<in> X. eo' x = Some (ngh_edge_idx n) \<and> lower (key x) (ngh_elem_idx n))
        \<longleftrightarrow> (\<exists>x \<in> X. eo x = Some (ngh_edge_idx n) \<and> lower (key x) (ngh_elem_idx n))"
    proof (intro bex_cong refl)
      fix x assume "x \<in> X"
      then show "(eo' x = Some (ngh_edge_idx n) \<and> lower (key x) (ngh_elem_idx n))
          = (eo x = Some (ngh_edge_idx n) \<and> lower (key x) (ngh_elem_idx n))"
        using eo' [of x] G(1) low free [of x] by auto
    qed
    then show "(n \<in> set V) = (\<exists>x \<in> X. eo' x = Some (ngh_edge_idx n) \<and> lower (key x) (ngh_elem_idx n))"
      using I(6) [of n] by simp
  next
    show "distinct V" by (rule I(7))
  qed
qed

text \<open>A complete group with a lower element becomes edges of single sides with neighbours.\<close>

lemma edges_inv_neighbours:
  assumes inv: "edges_inv X key lower eo E V"
    and G: "set G = {x \<in> X. key x = \<kappa>}" "distinct G"
    and free: "\<And>x. x \<in> set G \<Longrightarrow> eo x = None" and low: "\<And>l'. lower \<kappa> l' \<longleftrightarrow> l' = l"
    and old: "\<And>x. x \<in> X \<Longrightarrow> x \<notin> set G \<Longrightarrow> eo' x = eo x"
    and new: "\<And>i. i < length G \<Longrightarrow> eo' (G ! i) = Some (length E + i)"
  shows "edges_inv X key lower eo' (E @ map (\<lambda>x. [x]) G)
    (V @ map (\<lambda>i. \<lparr>ngh_elem_idx = l, ngh_edge_idx = length E + i\<rparr>) [0..<length G])"
    (is "edges_inv X key lower eo' ?E (V @ ?V)")
proof -
  note I = edges_invD [OF inv]
  have E: "k < length ?E \<longleftrightarrow> k < length E + length G"
    "?E ! k = (if k < length E then E ! k else [G ! (k - length E)])" if "k < length ?E" for k
    using that by (auto simp: nth_append)
  have lt: "k < length E" if "x \<in> X" "x \<notin> set G" "eo' x = Some k" for x k using I(1) [of x k] old [of x] that by auto
  have inG: "\<exists>i < length G. x = G ! i \<and> eo' x = Some (length E + i)" if "x \<in> set G" for x
    using that new by (auto simp: in_set_conv_nth)
  have notG: "x \<notin> set G" if "k < length E" "x \<in> set (E ! k)" for k x using I(3) [OF that] free by fastforce
  show ?thesis
    unfolding edges_inv_def
  proof (intro conjI ballI allI impI)
    fix x k assume x: "x \<in> X" "eo' x = Some k"
    show "k < length ?E" "x \<in> set (?E ! k)"
      using x I(1) [of x k] old [of x] inG [of x] by (cases "x \<in> set G"; fastforce simp: nth_append)+
  next
    fix k assume "k < length ?E"
    then show "?E ! k \<noteq> []" "distinct (?E ! k)" using I(2) [of k] E(2) [of k] by auto
  next
    fix k x assume k: "k < length ?E" and x: "x \<in> set (?E ! k)"
    show "x \<in> X"
      using k x E [of k] I(3) [of k x] G(1) nth_mem [of "k - length E" G] by (auto split: if_splits)
    then show "eo' x = Some k"
      using k x E [of k] I(3) [of k x] notG [of k x] old [of x] new [of "k - length E"] by (auto split: if_splits)
  next
    fix x y assume x: "x \<in> X" "y \<in> X" "key x = key y"
    show "(eo' x = None) = (eo' y = None)"
    proof (cases "x \<in> set G")
      case True
      then have "y \<in> set G" using x G(1) by auto
      then show ?thesis using inG [OF True] inG [of y] by auto
    next
      case False
      then have "y \<notin> set G" using x G(1) by auto
      then show ?thesis using False x I(4) [of x y] old by simp
    qed
  next
    fix x y assume x: "x \<in> X" "y \<in> X" "x \<noteq> y" "eo' x \<noteq> None"
    show "(eo' x = eo' y) = (key x = key y \<and> (\<nexists>l. lower (key x) l))"
    proof (cases "x \<in> set G \<or> y \<in> set G")
      case True
      have "eo' x \<noteq> eo' y"
      proof
        assume eq: "eo' x = eo' y"
        obtain k where k: "eo' x = Some k" using x(4) by auto
        have G': "z \<in> set G" if "z \<in> X" "eo' z = Some k" "w \<in> set G" "eo' w = Some k" for z w
          using lt [OF that(1) _ that(2)] inG [OF that(3)] that(4) by (cases "z \<in> set G") auto
        have ky: "eo' y = Some k" using eq k by simp
        have "x \<in> set G" "y \<in> set G" using True G' [OF x(1) k _ ky] G' [OF x(2) ky _ k] by blast+
        then obtain i j where "x = G ! i" "eo' x = Some (length E + i)" "y = G ! j" "eo' y = Some (length E + j)"
          using inG by meson
        then have "x = y" using eq by simp
        then show False using x(3) by simp
      qed
      moreover have "key x = key y \<longrightarrow> lower (key x) l" using True x G(1) low by auto
      ultimately show ?thesis by blast
    next
      case False
      then have "eo' x = eo x" "eo' y = eo y" using x(1,2) old by blast+
      then show ?thesis using x I(5) [of x y] by simp
    qed
  next
    fix n :: neighbour
    show "(n \<in> set (V @ ?V)) = (\<exists>x \<in> X. eo' x = Some (ngh_edge_idx n) \<and> lower (key x) (ngh_elem_idx n))"
    proof
      assume "n \<in> set (V @ ?V)"
      then show "\<exists>x \<in> X. eo' x = Some (ngh_edge_idx n) \<and> lower (key x) (ngh_elem_idx n)"
      proof (elim UnE [OF iffD1 [OF set_append [THEN eqset_imp_iff]]])
        assume "n \<in> set V"
        then obtain x where "x \<in> X" "eo x = Some (ngh_edge_idx n)" "lower (key x) (ngh_elem_idx n)" using I(6) by blast
        moreover have "x \<notin> set G" using free [of x] \<open>eo x = Some (ngh_edge_idx n)\<close> by auto
        ultimately show ?thesis using old by metis
      next
        assume "n \<in> set ?V"
        then obtain i where "i < length G" "n = \<lparr>ngh_elem_idx = l, ngh_edge_idx = length E + i\<rparr>" by auto
        then show ?thesis using new [of i] G(1) low nth_mem [of i G] by (intro bexI [of _ "G ! i"]) auto
      qed
    next
      assume "\<exists>x \<in> X. eo' x = Some (ngh_edge_idx n) \<and> lower (key x) (ngh_elem_idx n)"
      then obtain x where x: "x \<in> X" "eo' x = Some (ngh_edge_idx n)" "lower (key x) (ngh_elem_idx n)" by blast
      show "n \<in> set (V @ ?V)"
      proof (cases "x \<in> set G")
        case True
        then obtain i where "i < length G" "eo' x = Some (length E + i)" using inG by blast
        moreover have "ngh_elem_idx n = l" using x(3) low True G(1) by auto
        ultimately have "n = \<lparr>ngh_elem_idx = l, ngh_edge_idx = length E + i\<rparr>" using x(2) by simp
        then show ?thesis using \<open>i < length G\<close> by auto
      next
        case False
        then show ?thesis using x old I(6) [of n] by auto
      qed
    qed
  next
    have "ngh_edge_idx n < length E" if "n \<in> set V" for n using that I(6) [of n] I(1) by blast
    then show "distinct (V @ ?V)" using I(7) by (force simp: distinct_map inj_on_def)
  qed
qed


section \<open>Connecting a group\<close>

definition edge_of :: "topology \<Rightarrow> side \<Rightarrow> nat option" where
  "edge_of t = (\<lambda>(k, s). edge_idx (elems t ! k) ! s)"

definition boundary_of :: "topology \<Rightarrow> side \<Rightarrow> nat option" where
  "boundary_of t = (\<lambda>(k, s). case boundary_idx_arr (elems t ! k) of None \<Rightarrow> None | Some a \<Rightarrow> if s < length a then a ! s else None)"

definition arr_ok :: "element \<Rightarrow> bool" where
  "arr_ok e \<longleftrightarrow> (case boundary_idx_arr e of None \<Rightarrow> True | Some a \<Rightarrow> length a = n_nodes_of (elem_dim e))"

text \<open>What connecting sides never changes in an element.\<close>

definition elem_shape :: "element \<Rightarrow> u32 \<times> u32 list \<times> region_idx \<times> nat \<times> nat \<times> bool" where
  "elem_shape e = (elem_dim e, elem_nodes e, elem_region e, length (edge_idx e), length (permutation_idx e), arr_ok e)"

definition frame :: "nat set \<Rightarrow> topology \<Rightarrow> topology \<Rightarrow> bool" where
  "frame K t t' \<longleftrightarrow> (topo_mesh t')\<lparr>element_vec := []\<rparr> = (topo_mesh t)\<lparr>element_vec := []\<rparr> \<and> node_elements t' = node_elements t
     \<and> map elem_shape (elems t') = map elem_shape (elems t) \<and> (\<forall>j. j \<notin> K \<longrightarrow> elems t' ! j = elems t ! j)"

lemma frame_refl: "frame K t t"
  by (simp add: frame_def)

lemma frame_trans: "frame K t t1 \<Longrightarrow> frame L t1 t2 \<Longrightarrow> frame (K \<union> L) t t2"
  by (auto simp: frame_def)

lemma frame_mesh:
  assumes "frame K t t'"
  shows "bulk_of t' = bulk_of t" "mesh_nodes (topo_mesh t') = mesh_nodes (topo_mesh t)"
    "node_ids (topo_mesh t') = node_ids (topo_mesh t)" "element_ids (topo_mesh t') = element_ids (topo_mesh t)"
    "mesh_regions (topo_mesh t') = mesh_regions (topo_mesh t)" "bc_element_tmp (topo_mesh t') = bc_element_tmp (topo_mesh t)"
    "node_elements t' = node_elements t"
proof -
  have eq: "(topo_mesh t')\<lparr>element_vec := []\<rparr> = (topo_mesh t)\<lparr>element_vec := []\<rparr>" using assms by (simp add: frame_def)
  show "bulk_of t' = bulk_of t" "mesh_nodes (topo_mesh t') = mesh_nodes (topo_mesh t)"
    "node_ids (topo_mesh t') = node_ids (topo_mesh t)" "element_ids (topo_mesh t') = element_ids (topo_mesh t)"
    "mesh_regions (topo_mesh t') = mesh_regions (topo_mesh t)" "bc_element_tmp (topo_mesh t') = bc_element_tmp (topo_mesh t)"
    using arg_cong [OF eq, of mesh_bulk_size] arg_cong [OF eq, of mesh_nodes] arg_cong [OF eq, of node_ids]
      arg_cong [OF eq, of element_ids] arg_cong [OF eq, of mesh_regions] arg_cong [OF eq, of bc_element_tmp] by simp_all
  show "node_elements t' = node_elements t" using assms by (simp add: frame_def)
qed

lemma frame_length: "frame K t t' \<Longrightarrow> length (elems t') = length (elems t)"
  unfolding frame_def by (metis length_map)

lemma frame_shape: "frame K t t' \<Longrightarrow> k < length (elems t) \<Longrightarrow> elem_shape (elems t' ! k) = elem_shape (elems t ! k)"
  unfolding frame_def by (metis length_map nth_map)

lemma elem_shapeD:
  assumes "elem_shape e' = elem_shape e"
  shows "elem_dim e' = elem_dim e" "elem_nodes e' = elem_nodes e" "elem_region e' = elem_region e"
    "length (edge_idx e') = length (edge_idx e)" "arr_ok e' = arr_ok e" "node_idxs e' = node_idxs e"
    "simplex_ok n e' = simplex_ok n e" "length (permutation_idx e') = length (permutation_idx e)"
  using assms by (simp_all add: elem_shape_def node_idxs_def simplex_ok_def)

lemma side_node_list_shape:
  "elem_shape (es' ! k) = elem_shape (es ! k) \<Longrightarrow> side_node_list es' (k, s) = side_node_list es (k, s)"
  using elem_shapeD(1,6) [of "es' ! k" "es ! k"] unfolding side_node_list_def prod.case by metis

lemma same_sides_shape:
  "elem_shape (es' ! k) = elem_shape (es ! k) \<Longrightarrow> same_sides es' (k, s) ns = same_sides es (k, s) ns"
  unfolding same_sides_def by (drule side_node_list_shape [of es' k es s]) (simp only:)

lemma update_elem_sel [simp]:
  "elems (update_elem t k f) = (elems t)[k := f (elems t ! k)]"
  "topo_mesh (update_elem t k f) = (topo_mesh t)\<lparr>element_vec := (elems t)[k := f (elems t ! k)]\<rparr>"
  "node_elements (update_elem t k f) = node_elements t" "edges (update_elem t k f) = edges t"
  "boundary_vec (update_elem t k f) = boundary_vec t" "vb_neighbours (update_elem t k f) = vb_neighbours t"
  "max_edge_sides (update_elem t k f) = max_edge_sides t"
  by (simp_all add: update_elem_def)

lemma update_elem_frame:
  assumes "elem_shape (f (elems t ! k)) = elem_shape (elems t ! k)"
  shows "frame {k} t (update_elem t k f)"
proof -
  have "map elem_shape ((elems t)[k := f (elems t ! k)]) = map elem_shape (elems t)"
    using assms by (metis list_update_id map_update)
  then show ?thesis by (simp add: frame_def)
qed

lemma connect_side_facts:
  assumes "k < length (elems t)" and "s < length (edge_idx (elems t ! k))"
  shows "frame {k} t (connect_side t edg (k, s))"
    and "edge_of (connect_side t edg (k, s)) = (edge_of t)((k, s) := Some edg)"
    and "boundary_of (connect_side t edg (k, s)) = boundary_of t"
    and "edges (connect_side t edg (k, s)) = (edges t)[edg := edges t ! edg @ [(k, s)]]"
    and "boundary_vec (connect_side t edg (k, s)) = boundary_vec t"
    and "vb_neighbours (connect_side t edg (k, s)) = vb_neighbours t"
    and "max_edge_sides (connect_side t edg (k, s)) = max_edge_sides t"
proof -
  have "frame {k} (t\<lparr>edges := (edges t)[edg := edges t ! edg @ [(k, s)]]\<rparr>) (connect_side t edg (k, s))"
    unfolding connect_side_def prod.case by (rule update_elem_frame) (simp add: elem_shape_def arr_ok_def split: option.split)
  then show "frame {k} t (connect_side t edg (k, s))" by (simp add: frame_def)
  show "edge_of (connect_side t edg (k, s)) = (edge_of t)((k, s) := Some edg)"
    using assms by (auto simp: connect_side_def edge_of_def fun_eq_iff nth_list_update)
  show "boundary_of (connect_side t edg (k, s)) = boundary_of t"
    using assms by (auto simp: connect_side_def boundary_of_def fun_eq_iff nth_list_update)
qed (simp_all add: connect_side_def)

text \<open>The elements of a group with their sides, all of them free.\<close>

definition matches :: "topology \<Rightarrow> nat list \<Rightarrow> (nat \<Rightarrow> nat) \<Rightarrow> nat list \<Rightarrow> bool" where
  "matches t ns \<sigma> ks \<longleftrightarrow> (\<forall>k \<in> set ks. k < length (elems t)
     \<and> n_nodes_of (elem_dim (elems t ! k)) = length (edge_idx (elems t ! k)) \<and> \<sigma> k < length (edge_idx (elems t ! k))
     \<and> (\<forall>s < length (edge_idx (elems t ! k)). same_sides (elems t) (k, s) ns \<longleftrightarrow> s = \<sigma> k))"

lemma find_upt_unique: "i < n \<Longrightarrow> P i \<Longrightarrow> (\<And>j. j < n \<Longrightarrow> P j \<Longrightarrow> j = i) \<Longrightarrow> find P [0..<n] = Some i"
proof -
  assume i: "i < n" "P i" and u: "\<And>j. j < n \<Longrightarrow> P j \<Longrightarrow> j = i"
  have "\<not> P ([0..<n] ! j)" if "j < i" for j using u [of j] that i(1) by auto
  then show ?thesis using i unfolding find_Some_iff by (intro exI [of _ i]) simp
qed

lemma free_side_matches:
  "matches t ns \<sigma> ks \<Longrightarrow> k \<in> set ks \<Longrightarrow> edge_of t (k, \<sigma> k) = None \<Longrightarrow> free_side t k ns = Some (\<sigma> k)"
  unfolding free_side_def by (intro find_upt_unique) (auto simp: matches_def edge_of_def)

lemma matches_frame:
  assumes "matches t ns \<sigma> ks" and f: "frame K t t'" and "set ls \<subseteq> set ks"
  shows "matches t' ns \<sigma> ls"
  unfolding matches_def
proof (intro ballI)
  fix k assume "k \<in> set ls"
  then have k: "k < length (elems t)" "n_nodes_of (elem_dim (elems t ! k)) = length (edge_idx (elems t ! k))"
    "\<sigma> k < length (edge_idx (elems t ! k))" "\<forall>s < length (edge_idx (elems t ! k)). same_sides (elems t) (k, s) ns \<longleftrightarrow> s = \<sigma> k"
    using assms(1,3) by (auto simp: matches_def)
  note sh = frame_shape [OF f k(1)]
  show "k < length (elems t') \<and> n_nodes_of (elem_dim (elems t' ! k)) = length (edge_idx (elems t' ! k))
      \<and> \<sigma> k < length (edge_idx (elems t' ! k)) \<and> (\<forall>s < length (edge_idx (elems t' ! k)). same_sides (elems t') (k, s) ns \<longleftrightarrow> s = \<sigma> k)"
    using k frame_length [OF f] elem_shapeD [OF sh] same_sides_shape [OF sh] by simp
qed

lemma fold_connect_edge:
  assumes "matches t ns \<sigma> ks" and "distinct ks" and "\<forall>k \<in> set ks. edge_of t (k, \<sigma> k) = None" and "edg < length (edges t)"
    and "t' = foldl (connect_edge edg ns) t ks"
  shows "frame (set ks) t t' \<and> edge_of t' = (\<lambda>x. if x \<in> set (map (\<lambda>k. (k, \<sigma> k)) ks) then Some edg else edge_of t x)
    \<and> edges t' = (edges t)[edg := edges t ! edg @ map (\<lambda>k. (k, \<sigma> k)) ks]
    \<and> boundary_of t' = boundary_of t \<and> boundary_vec t' = boundary_vec t \<and> vb_neighbours t' = vb_neighbours t"
  using assms
proof (induction ks arbitrary: t)
  case Nil
  then show ?case by (simp add: frame_refl)
next
  case (Cons k ks)
  have k: "k < length (elems t)" "\<sigma> k < length (edge_idx (elems t ! k))" using Cons.prems(1) by (auto simp: matches_def)
  define t1 where "t1 = connect_side t edg (k, \<sigma> k)"
  note c = connect_side_facts [OF k, of edg, folded t1_def]
  have step: "connect_edge edg ns t k = t1"
    using free_side_matches [OF Cons.prems(1), of k] Cons.prems(3) by (simp add: connect_edge_def t1_def)
  have "matches t1 ns \<sigma> ks" by (rule matches_frame [OF Cons.prems(1) c(1)]) auto
  moreover have "\<forall>j \<in> set ks. edge_of t1 (j, \<sigma> j) = None" using Cons.prems(2,3) c(2) by auto
  ultimately have ih: "frame (set ks) t1 t'"
    "edge_of t' = (\<lambda>x. if x \<in> set (map (\<lambda>k. (k, \<sigma> k)) ks) then Some edg else edge_of t1 x)"
    "edges t' = (edges t1)[edg := edges t1 ! edg @ map (\<lambda>k. (k, \<sigma> k)) ks]" "boundary_of t' = boundary_of t1"
    "boundary_vec t' = boundary_vec t1" "vb_neighbours t' = vb_neighbours t1"
    using Cons.IH [of t1] Cons.prems(2,4,5) c(4) step by simp_all
  have "edges t1 ! edg = edges t ! edg @ [(k, \<sigma> k)]" "edges t1 = (edges t)[edg := edges t ! edg @ [(k, \<sigma> k)]]"
    using c(4) Cons.prems(4) by simp_all
  moreover have "frame (set (k # ks)) t t'" using frame_trans [OF c(1) ih(1)] by simp
  moreover have "edge_of t' = (\<lambda>x. if x \<in> set (map (\<lambda>k. (k, \<sigma> k)) (k # ks)) then Some edg else edge_of t x)"
    unfolding ih(2) c(2) by (auto simp: fun_eq_iff)
  ultimately show ?case using ih(3-6) c(3,5,6) by simp
qed


text \<open>The same with the boundary object of the side.\<close>

definition connect_both :: "topology \<Rightarrow> nat \<Rightarrow> nat \<Rightarrow> side \<Rightarrow> topology" where
  "connect_both t edg bdr = (\<lambda>(k, s). update_elem (connect_side t edg (k, s)) k (\<lambda>e. set_boundary_idx e s bdr))"

lemma connect_both_facts:
  assumes "k < length (elems t)" and s: "s < length (edge_idx (elems t ! k))"
    and arr: "arr_ok (elems t ! k)" "n_nodes_of (elem_dim (elems t ! k)) = length (edge_idx (elems t ! k))"
  shows "frame {k} t (connect_both t edg bdr (k, s))"
    and "edge_of (connect_both t edg bdr (k, s)) = (edge_of t)((k, s) := Some edg)"
    and "boundary_of (connect_both t edg bdr (k, s)) = (boundary_of t)((k, s) := Some bdr)"
    and "edges (connect_both t edg bdr (k, s)) = (edges t)[edg := edges t ! edg @ [(k, s)]]"
    and "boundary_vec (connect_both t edg bdr (k, s)) = boundary_vec t"
    and "vb_neighbours (connect_both t edg bdr (k, s)) = vb_neighbours t"
proof -
  define t1 where "t1 = connect_side t edg (k, s)"
  note c = connect_side_facts [OF assms(1,2), of edg, folded t1_def]
  have sh: "elem_shape (elems t1 ! k) = elem_shape (elems t ! k)" by (rule frame_shape [OF c(1) assms(1)])
  have k: "k < length (elems t1)" using frame_length [OF c(1)] assms(1) by simp
  have both: "connect_both t edg bdr (k, s) = update_elem t1 k (\<lambda>e. set_boundary_idx e s bdr)"
    by (simp add: connect_both_def t1_def)
  have "frame {k} t1 (connect_both t edg bdr (k, s))"
    unfolding both
    by (rule update_elem_frame) (auto simp: elem_shape_def set_boundary_idx_def arr_ok_def split: option.split)
  from frame_trans [OF c(1) this] show "frame {k} t (connect_both t edg bdr (k, s))" by simp
  have "edge_of (connect_both t edg bdr (k, s)) = edge_of t1"
    using k by (auto simp: both edge_of_def fun_eq_iff nth_list_update set_boundary_idx_def)
  then show "edge_of (connect_both t edg bdr (k, s)) = (edge_of t)((k, s) := Some edg)" by (simp add: c(2))
  have "arr_ok (elems t1 ! k)" "n_nodes_of (elem_dim (elems t1 ! k)) = length (edge_idx (elems t ! k))"
    using elem_shapeD [OF sh] arr by simp_all
  then have "boundary_of (connect_both t edg bdr (k, s)) = (boundary_of t1)((k, s) := Some bdr)"
    using k s by (auto simp: both boundary_of_def fun_eq_iff nth_list_update set_boundary_idx_def arr_ok_def split: option.split)
  then show "boundary_of (connect_both t edg bdr (k, s)) = (boundary_of t)((k, s) := Some bdr)" by (simp add: c(3))
  show "edges (connect_both t edg bdr (k, s)) = (edges t)[edg := edges t ! edg @ [(k, s)]]"
    "boundary_vec (connect_both t edg bdr (k, s)) = boundary_vec t"
    "vb_neighbours (connect_both t edg bdr (k, s)) = vb_neighbours t"
    using c(4-6) by (simp_all add: both)
qed

lemma connect_boundary_side_eq:
  assumes m: "matches t ns \<sigma> ks" and k: "k \<in> set ks"
  shows "connect_boundary_side edg bdr i ns t k =
    (if edge_of t (k, \<sigma> k) = None then Inr (connect_both t edg bdr (k, \<sigma> k))
     else Inl (ExcDuplicateBoundary (case boundary_idx_arr (elems t ! k) of
                 Some a \<Rightarrow> (case a ! \<sigma> k of Some b \<Rightarrow> bc_ele_idx (boundary_vec t ! b) | None \<Rightarrow> None) | None \<Rightarrow> None) i))"
proof -
  have "find (\<lambda>s. same_sides (elems t) (k, s) ns) [0..<n_nodes_of (elem_dim (elems t ! k))] = Some (\<sigma> k)"
    using m k by (intro find_upt_unique) (auto simp: matches_def)
  then show ?thesis by (simp add: connect_boundary_side_def edge_of_def connect_both_def)
qed

lemma fold_connect_boundary:
  assumes "matches t ns \<sigma> ks" and "distinct ks" and "edg < length (edges t)"
    and "\<forall>k \<in> set ks. arr_ok (elems t ! k)"
    and "fold_res (connect_boundary_side edg bdr i ns) t ks = Inr t'"
  shows "(\<forall>k \<in> set ks. edge_of t (k, \<sigma> k) = None) \<and> frame (set ks) t t'
    \<and> edge_of t' = (\<lambda>x. if x \<in> set (map (\<lambda>k. (k, \<sigma> k)) ks) then Some edg else edge_of t x)
    \<and> edges t' = (edges t)[edg := edges t ! edg @ map (\<lambda>k. (k, \<sigma> k)) ks]
    \<and> boundary_of t' = (\<lambda>x. if x \<in> set (map (\<lambda>k. (k, \<sigma> k)) ks) then Some bdr else boundary_of t x)
    \<and> boundary_vec t' = boundary_vec t \<and> vb_neighbours t' = vb_neighbours t"
  using assms
proof (induction ks arbitrary: t)
  case Nil
  then show ?case by (simp add: frame_refl)
next
  case (Cons k ks)
  have k: "k < length (elems t)" "\<sigma> k < length (edge_idx (elems t ! k))" "arr_ok (elems t ! k)"
    "n_nodes_of (elem_dim (elems t ! k)) = length (edge_idx (elems t ! k))"
    using Cons.prems(1,4) by (auto simp: matches_def)
  define t1 where "t1 = connect_both t edg bdr (k, \<sigma> k)"
  note c = connect_both_facts [OF k, of edg bdr, folded t1_def]
  have free: "edge_of t (k, \<sigma> k) = None" and rest: "fold_res (connect_boundary_side edg bdr i ns) t1 ks = Inr t'"
    using Cons.prems(5) connect_boundary_side_eq [OF Cons.prems(1), of k]
    by (auto simp: res_simps t1_def split: if_splits)
  have "matches t1 ns \<sigma> ks" by (rule matches_frame [OF Cons.prems(1) c(1)]) auto
  moreover have "\<forall>j \<in> set ks. elems t1 ! j = elems t ! j" using c(1) Cons.prems(2) by (auto simp: frame_def)
  then have "\<forall>j \<in> set ks. arr_ok (elems t1 ! j)" using Cons.prems(4) by simp
  ultimately have ih: "\<forall>k \<in> set ks. edge_of t1 (k, \<sigma> k) = None" "frame (set ks) t1 t'"
    "edge_of t' = (\<lambda>x. if x \<in> set (map (\<lambda>k. (k, \<sigma> k)) ks) then Some edg else edge_of t1 x)"
    "edges t' = (edges t1)[edg := edges t1 ! edg @ map (\<lambda>k. (k, \<sigma> k)) ks]"
    "boundary_of t' = (\<lambda>x. if x \<in> set (map (\<lambda>k. (k, \<sigma> k)) ks) then Some bdr else boundary_of t1 x)"
    "boundary_vec t' = boundary_vec t1" "vb_neighbours t' = vb_neighbours t1"
    using Cons.IH [of t1] Cons.prems(2,3) c(4) rest by simp_all
  have "edges t1 ! edg = edges t ! edg @ [(k, \<sigma> k)]" "edges t1 = (edges t)[edg := edges t ! edg @ [(k, \<sigma> k)]]"
    using c(4) Cons.prems(3) by simp_all
  moreover have "frame (set (k # ks)) t t'" using frame_trans [OF c(1) ih(2)] by simp
  moreover have "edge_of t' = (\<lambda>x. if x \<in> set (map (\<lambda>k. (k, \<sigma> k)) (k # ks)) then Some edg else edge_of t x)"
    "boundary_of t' = (\<lambda>x. if x \<in> set (map (\<lambda>k. (k, \<sigma> k)) (k # ks)) then Some bdr else boundary_of t x)"
    unfolding ih(3,5) c(2,3) by (auto simp: fun_eq_iff)
  moreover have "\<forall>k \<in> set (k # ks). edge_of t (k, \<sigma> k) = None" using free ih(1) c(2) Cons.prems(2) by (auto split: if_splits)
  ultimately show ?case using ih(4,6,7) c(5,6) by simp
qed

lemma fold_connect_neighbour:
  assumes "matches t ns \<sigma> ks" and "distinct ks" and "\<forall>k \<in> set ks. edge_of t (k, \<sigma> k) = None"
    and "t' = foldl (connect_neighbour l ns) t ks"
  shows "frame (set ks) t t' \<and> (\<forall>x. x \<notin> set (map (\<lambda>k. (k, \<sigma> k)) ks) \<longrightarrow> edge_of t' x = edge_of t x)
    \<and> (\<forall>i < length ks. edge_of t' (ks ! i, \<sigma> (ks ! i)) = Some (length (edges t) + i))
    \<and> edges t' = edges t @ map (\<lambda>x. [x]) (map (\<lambda>k. (k, \<sigma> k)) ks)
    \<and> vb_neighbours t' = vb_neighbours t @ map (\<lambda>i. \<lparr>ngh_elem_idx = l, ngh_edge_idx = length (edges t) + i\<rparr>) [0..<length ks]
    \<and> boundary_of t' = boundary_of t \<and> boundary_vec t' = boundary_vec t"
  using assms
proof (induction ks arbitrary: t)
  case Nil
  then show ?case by (simp add: frame_refl)
next
  case (Cons k ks)
  define t0 where "t0 = t\<lparr>edges := edges t @ [[]]\<rparr>"
  define n where "n = \<lparr>ngh_elem_idx = l, ngh_edge_idx = length (edges t)\<rparr>"
  define t1 where "t1 = (connect_side t0 (length (edges t)) (k, \<sigma> k))\<lparr>vb_neighbours := vb_neighbours t @ [n]\<rparr>"
  have k: "k < length (elems t0)" "\<sigma> k < length (edge_idx (elems t0 ! k))"
    using Cons.prems(1) by (auto simp: matches_def t0_def)
  note c0 = connect_side_facts [OF k, of "length (edges t)"]
  have c: "frame {k} t t1" "edge_of t1 = (edge_of t)((k, \<sigma> k) := Some (length (edges t)))" "boundary_of t1 = boundary_of t"
    "edges t1 = edges t @ [[(k, \<sigma> k)]]" "boundary_vec t1 = boundary_vec t" "vb_neighbours t1 = vb_neighbours t @ [n]"
    using c0 by (simp_all add: t1_def t0_def frame_def edge_of_def boundary_of_def)
  have step: "connect_neighbour l ns t k = t1"
    using free_side_matches [OF Cons.prems(1), of k] Cons.prems(3)
    by (simp add: connect_neighbour_def t1_def t0_def n_def)
  have "matches t1 ns \<sigma> ks" by (rule matches_frame [OF Cons.prems(1) c(1)]) auto
  moreover have "\<forall>j \<in> set ks. edge_of t1 (j, \<sigma> j) = None" using Cons.prems(2,3) c(2) by auto
  moreover have "t' = foldl (connect_neighbour l ns) t1 ks" using Cons.prems(4) step by simp
  ultimately have ih: "frame (set ks) t1 t'" "\<forall>x. x \<notin> set (map (\<lambda>k. (k, \<sigma> k)) ks) \<longrightarrow> edge_of t' x = edge_of t1 x"
    "\<forall>i < length ks. edge_of t' (ks ! i, \<sigma> (ks ! i)) = Some (length (edges t1) + i)"
    "edges t' = edges t1 @ map (\<lambda>x. [x]) (map (\<lambda>k. (k, \<sigma> k)) ks)"
    "vb_neighbours t' = vb_neighbours t1 @ map (\<lambda>i. \<lparr>ngh_elem_idx = l, ngh_edge_idx = length (edges t1) + i\<rparr>) [0..<length ks]"
    "boundary_of t' = boundary_of t1" "boundary_vec t' = boundary_vec t1"
    using Cons.IH [of t1] Cons.prems(2) by simp_all
  have "(k, \<sigma> k) \<notin> set (map (\<lambda>k. (k, \<sigma> k)) ks)" using Cons.prems(2) by auto
  then have ek: "edge_of t' (k, \<sigma> k) = Some (length (edges t))" using ih(2) c(2) by simp
  have "frame (set (k # ks)) t t'" using frame_trans [OF c(1) ih(1)] by simp
  moreover have "\<forall>x. x \<notin> set (map (\<lambda>k. (k, \<sigma> k)) (k # ks)) \<longrightarrow> edge_of t' x = edge_of t x" using ih(2) c(2) by auto
  moreover have "\<forall>i < length (k # ks). edge_of t' ((k # ks) ! i, \<sigma> ((k # ks) ! i)) = Some (length (edges t) + i)"
    using ek ih(3) c(4) by (auto simp: nth_Cons' less_Suc_eq_0_disj)
  moreover have "vb_neighbours t' = vb_neighbours t @ map (\<lambda>i. \<lparr>ngh_elem_idx = l, ngh_edge_idx = length (edges t) + i\<rparr>) [0..<length (k # ks)]"
    unfolding ih(5) c(6) c(4) length_append n_def by (simp add: map_upt_Suc del: upt_Suc)
  ultimately show ?case using ih(4,6,7) c(3,4,5) by simp
qed


section \<open>The invariant of the construction\<close>

definition sides_of :: "element list \<Rightarrow> nat \<Rightarrow> side set" where
  "sides_of es nb = {(k, s). k < nb \<and> s \<le> dim_of (es ! k)}"

definition side_key :: "element list \<Rightarrow> side \<Rightarrow> nat \<times> nat set" where
  "side_key es x = (dim_of (es ! fst x), set (side_node_list es x))"

definition lower_elem :: "element list \<Rightarrow> nat \<Rightarrow> nat \<times> nat set \<Rightarrow> nat \<Rightarrow> bool" where
  "lower_elem es nb \<kappa> l \<longleftrightarrow> l < nb \<and> dim_of (es ! l) + 1 = fst \<kappa> \<and> set (node_idxs (es ! l)) = snd \<kappa>"

text \<open>
  A side with a boundary object lies on its edge and on its boundary element; a side that shares its
  nodes with no other element has one.
\<close>

definition boundary_inv :: "element list \<Rightarrow> nat \<Rightarrow> topology \<Rightarrow> bool" where
  "boundary_inv es nb t \<longleftrightarrow>
     (\<forall>x \<in> sides_of es nb. \<forall>b. boundary_of t x = Some b \<longrightarrow>
        b < length (boundary_vec t) \<and> edge_of t x \<noteq> None \<and> bdr_edge_idx (boundary_vec t ! b) = edge_of t x
        \<and> (\<exists>i. bc_ele_idx (boundary_vec t ! b) = Some i \<and> nb \<le> i \<and> i < length (elems t)
              \<and> set (node_idxs (elems t ! i)) = set (side_node_list es x)))
   \<and> (\<forall>x \<in> sides_of es nb. edge_of t x \<noteq> None \<longrightarrow> (\<nexists>l. lower_elem es nb (side_key es x) l) \<longrightarrow>
        (\<forall>y \<in> sides_of es nb. side_key es y = side_key es x \<longrightarrow> y = x) \<longrightarrow> boundary_of t x \<noteq> None)"

definition topo_inv :: "element list \<Rightarrow> nat \<Rightarrow> nat \<Rightarrow> topology \<Rightarrow> bool" where
  "topo_inv es nb nn t \<longleftrightarrow>
     (\<forall>k < nb. simplex_ok nn (es ! k) \<and> length (edge_idx (es ! k)) = dim_of (es ! k) + 1
        \<and> length (permutation_idx (es ! k)) = dim_of (es ! k) + 1 \<and> arr_ok (es ! k))
   \<and> nb \<le> length (elems t) \<and> (\<forall>k < nb. elem_shape (elems t ! k) = elem_shape (es ! k))
   \<and> bulk_of t = nb \<and> lists_ok (node_elements t) es nb nn
   \<and> length (vals_vec (element_ids (topo_mesh t))) = length (elems t)
   \<and> edges_inv (sides_of es nb) (side_key es) (lower_elem es nb) (edge_of t) (edges t) (vb_neighbours t)
   \<and> boundary_inv es nb t"

lemma topo_invD:
  assumes "topo_inv es nb nn t"
  shows "k < nb \<Longrightarrow> simplex_ok nn (es ! k)" and "k < nb \<Longrightarrow> length (edge_idx (es ! k)) = dim_of (es ! k) + 1"
    and "k < nb \<Longrightarrow> arr_ok (es ! k)" and "nb \<le> length (elems t)"
    and "k < nb \<Longrightarrow> elem_shape (elems t ! k) = elem_shape (es ! k)" and "bulk_of t = nb"
    and "lists_ok (node_elements t) es nb nn" and "length (vals_vec (element_ids (topo_mesh t))) = length (elems t)"
    and "edges_inv (sides_of es nb) (side_key es) (lower_elem es nb) (edge_of t) (edges t) (vb_neighbours t)"
    and "boundary_inv es nb t" and "k < nb \<Longrightarrow> length (permutation_idx (es ! k)) = dim_of (es ! k) + 1"
  using assms by (simp_all add: topo_inv_def)

text \<open>The elements of a key and their sides.\<close>

lemma group_of_key:
  assumes inv: "topo_inv es nb nn t" and ns: "distinct ns" "length ns \<in> {1, 2, 3}"
  defines "ks \<equiv> filter (\<lambda>k. dim_of (es ! k) = length ns) (filter (\<lambda>k. set ns \<subseteq> set (node_idxs (es ! k))) [0..<nb])"
  obtains \<sigma> where "matches t ns \<sigma> ks" and "distinct ks" and "\<forall>k \<in> set ks. k < nb"
    and "set (map (\<lambda>k. (k, \<sigma> k)) ks) = {x \<in> sides_of es nb. side_key es x = (length ns, set ns)}"
    and "distinct (map (\<lambda>k. (k, \<sigma> k)) ks)"
proof -
  note I = topo_invD [OF inv]
  have "\<exists>\<sigma>. \<forall>k \<in> set ks. \<sigma> k \<le> dim_of (es ! k) \<and> set (side_node_list es (k, \<sigma> k)) = set ns
      \<and> (\<forall>s' \<le> dim_of (es ! k). same_sides es (k, s') ns \<longleftrightarrow> s' = \<sigma> k)"
  proof (intro bchoice ballI)
    fix k assume k: "k \<in> set ks"
    then have "k < nb" by (simp add: ks_def)
    from unique_side [OF I(1) [OF this] ns(1)] k obtain s where "s \<le> dim_of (es ! k)"
      "set (side_node_list es (k, s)) = set ns" "\<And>s'. s' \<le> dim_of (es ! k) \<Longrightarrow> same_sides es (k, s') ns \<longleftrightarrow> s' = s"
      by (auto simp: ks_def)
    then show "\<exists>s. s \<le> dim_of (es ! k) \<and> set (side_node_list es (k, s)) = set ns
      \<and> (\<forall>s' \<le> dim_of (es ! k). same_sides es (k, s') ns \<longleftrightarrow> s' = s)" by blast
  qed
  then obtain \<sigma> where \<sigma>: "\<And>k. k \<in> set ks \<Longrightarrow> \<sigma> k \<le> dim_of (es ! k)" "\<And>k. k \<in> set ks \<Longrightarrow> set (side_node_list es (k, \<sigma> k)) = set ns"
    "\<And>k s'. k \<in> set ks \<Longrightarrow> s' \<le> dim_of (es ! k) \<Longrightarrow> same_sides es (k, s') ns \<longleftrightarrow> s' = \<sigma> k" by blast
  have lt: "\<forall>k \<in> set ks. k < nb" by (simp add: ks_def)
  have "matches t ns \<sigma> ks"
    unfolding matches_def
  proof (intro ballI)
    fix k assume k: "k \<in> set ks"
    then have nb: "k < nb" using lt by simp
    note sh = I(5) [OF nb]
    have "n_nodes_of (elem_dim (es ! k)) = dim_of (es ! k) + 1"
      using I(1) [OF nb] by (intro n_nodes_of_dim) (simp add: simplex_ok_def)
    then show "k < length (elems t) \<and> n_nodes_of (elem_dim (elems t ! k)) = length (edge_idx (elems t ! k))
        \<and> \<sigma> k < length (edge_idx (elems t ! k)) \<and> (\<forall>s < length (edge_idx (elems t ! k)). same_sides (elems t) (k, s) ns \<longleftrightarrow> s = \<sigma> k)"
      using nb I(2) [OF nb] I(4) \<sigma>(1,3) [OF k] unfolding elem_shapeD(1,4) [OF sh] same_sides_shape [OF sh]
      by (simp add: less_Suc_eq_le)
  qed
  moreover have "set (map (\<lambda>k. (k, \<sigma> k)) ks) = {x \<in> sides_of es nb. side_key es x = (length ns, set ns)}"
  proof (intro equalityI subsetI)
    fix x assume "x \<in> set (map (\<lambda>k. (k, \<sigma> k)) ks)"
    then obtain k where k: "k \<in> set ks" and x: "x = (k, \<sigma> k)" by auto
    have "k < nb" "dim_of (es ! k) = length ns" using k by (simp_all add: ks_def)
    then show "x \<in> {x \<in> sides_of es nb. side_key es x = (length ns, set ns)}"
      using \<sigma>(1,2) [OF k] by (simp add: x sides_of_def side_key_def)
  next
    fix x assume "x \<in> {x \<in> sides_of es nb. side_key es x = (length ns, set ns)}"
    then obtain k s where x: "x = (k, s)" "k < nb" "s \<le> dim_of (es ! k)" "dim_of (es ! k) = length ns"
      "set (side_node_list es (k, s)) = set ns"
      by (cases x) (auto simp: sides_of_def side_key_def)
    then have "set ns \<subseteq> set (node_idxs (es ! k))" using side_nodes_facts(1) [OF I(1) [OF x(2)] x(3)] by auto
    then have k: "k \<in> set ks" using x by (simp add: ks_def)
    have "same_sides es (k, s) ns" using x(5) by (simp add: same_sides_def list_all_iff)
    then show "x \<in> set (map (\<lambda>k. (k, \<sigma> k)) ks)" using \<sigma>(3) [OF k x(3)] x(1) k by simp
  qed
  moreover have "distinct ks" by (simp add: ks_def)
  moreover have "distinct (map (\<lambda>k. (k, \<sigma> k)) ks)" using \<open>distinct ks\<close> by (simp add: distinct_map inj_on_def)
  ultimately show thesis using that lt by blast
qed

text \<open>The searches of a step: the group of the nodes and its lower element.\<close>

lemma search_group:
  assumes inv: "topo_inv es nb nn t" and ns: "distinct ns" "length ns \<in> {1, 2, 3}" "\<forall>v \<in> set ns. v < nn"
  defines "isect \<equiv> filter (\<lambda>k. set ns \<subseteq> set (node_idxs (es ! k))) [0..<nb]"
  defines "ks \<equiv> filter (\<lambda>k. dim_of (es ! k) = length ns) isect"
  shows "intersect_element_lists t ns = Inr (t, isect)"
    and "find_lower_dim_element (elems t) isect (length ns) None = Inl e \<Longrightarrow> \<exists>a b. e = TooMatching a b"
    and "find_lower_dim_element (elems t) isect (length ns) None = Inr (l, r) \<Longrightarrow>
      l = ks \<and> (case r of None \<Rightarrow> \<nexists>l. lower_elem es nb (length ns, set ns) l
                  | Some k \<Rightarrow> \<forall>l. lower_elem es nb (length ns, set ns) l \<longleftrightarrow> l = k)"
proof -
  note I = topo_invD [OF inv]
  have "ns \<noteq> []" using ns(2) by auto
  from intersect_element_lists_ok [OF I(7) this ns(3)]
  show "intersect_element_lists t ns = Inr (t, isect)" by (simp add: isect_def)
  show "find_lower_dim_element (elems t) isect (length ns) None = Inl e \<Longrightarrow> \<exists>a b. e = TooMatching a b"
    by (rule find_lower_dim_element_Inl)
  assume f: "find_lower_dim_element (elems t) isect (length ns) None = Inr (l, r)"
  have dim: "dim_of (elems t ! k) = dim_of (es ! k)" if "k \<in> set isect" for k
    using that elem_shapeD(1) [OF I(5)] by (simp add: isect_def)
  have low: "lower_elem es nb (length ns, set ns) k \<longleftrightarrow> k \<in> set (filter (\<lambda>k. dim_of (elems t ! k) + 1 = length ns) isect)" for k
  proof
    assume "lower_elem es nb (length ns, set ns) k"
    then show "k \<in> set (filter (\<lambda>k. dim_of (elems t ! k) + 1 = length ns) isect)"
      using dim [of k] by (auto simp: lower_elem_def isect_def)
  next
    assume k: "k \<in> set (filter (\<lambda>k. dim_of (elems t ! k) + 1 = length ns) isect)"
    then have k': "k < nb" "dim_of (es ! k) + 1 = length ns" "set ns \<subseteq> set (node_idxs (es ! k))"
      using dim [of k] by (auto simp: isect_def)
    have "card (set (node_idxs (es ! k))) = length ns"
      using I(1) [OF k'(1)] k'(2) distinct_card [of "node_idxs (es ! k)"] by (simp add: simplex_ok_def node_idxs_def)
    then have "set ns = set (node_idxs (es ! k))"
      using k'(3) distinct_card [OF ns(1)] by (intro card_subset_eq) simp_all
    then show "lower_elem es nb (length ns, set ns) k" using k' by (simp add: lower_elem_def)
  qed
  have "filter (\<lambda>k. dim_of (elems t ! k) = length ns) isect = ks"
    unfolding ks_def using dim by (intro filter_cong) simp_all
  then show "l = ks \<and> (case r of None \<Rightarrow> \<nexists>l. lower_elem es nb (length ns, set ns) l
                  | Some k \<Rightarrow> \<forall>l. lower_elem es nb (length ns, set ns) l \<longleftrightarrow> l = k)"
    using find_lower_dim_element_None [OF f] low by (auto split: option.splits)
qed


section \<open>The steps keep the invariant\<close>

lemma frame_fields: "frame K (t\<lparr>edges := E, boundary_vec := B, max_edge_sides := M\<rparr>) t' \<longleftrightarrow> frame K t t'"
  "frame K (t\<lparr>edges := E, boundary_vec := B\<rparr>) t' \<longleftrightarrow> frame K t t'" "frame K (t\<lparr>edges := E, max_edge_sides := M\<rparr>) t' \<longleftrightarrow> frame K t t'"
  by (simp_all add: frame_def)

lemma fields_of: "edge_of (t\<lparr>edges := E, boundary_vec := B\<rparr>) = edge_of t" "boundary_of (t\<lparr>edges := E, boundary_vec := B\<rparr>) = boundary_of t"
  "edge_of (t\<lparr>edges := E, max_edge_sides := M\<rparr>) = edge_of t" "boundary_of (t\<lparr>edges := E, max_edge_sides := M\<rparr>) = boundary_of t"
  by (simp_all add: edge_of_def boundary_of_def fun_eq_iff)

lemma topo_inv_frame:
  assumes inv: "topo_inv es nb nn t" and fr: "frame K t t'" and "K \<subseteq> {..<nb}"
    and "edges_inv (sides_of es nb) (side_key es) (lower_elem es nb) (edge_of t') (edges t') (vb_neighbours t')"
    and "boundary_inv es nb t'"
  shows "topo_inv es nb nn t'"
proof -
  note I = topo_invD [OF inv]
  have "elem_shape (elems t' ! k) = elem_shape (es ! k)" if "k < nb" for k
    using frame_shape [OF fr, of k] I(4) I(5) [OF that] that by simp
  then show ?thesis
    using I frame_length [OF fr] frame_mesh [OF fr] assms(4,5) by (simp add: topo_inv_def)
qed

text \<open>A group gets its edges: what remains to show for the boundaries.\<close>

lemma boundary_inv_group:
  assumes inv: "boundary_inv es nb t"
    and old: "\<And>x. x \<in> sides_of es nb \<Longrightarrow> x \<notin> G \<Longrightarrow> edge_of t' x = edge_of t x \<and> boundary_of t' x = boundary_of t x"
    and vec: "boundary_vec t' = boundary_vec t @ bs"
    and el: "length (elems t) \<le> length (elems t')" "\<And>i. nb \<le> i \<Longrightarrow> i < length (elems t) \<Longrightarrow> elems t' ! i = elems t ! i"
    and new1: "\<And>x b. x \<in> G \<Longrightarrow> x \<in> sides_of es nb \<Longrightarrow> boundary_of t' x = Some b \<Longrightarrow>
        b < length (boundary_vec t') \<and> edge_of t' x \<noteq> None \<and> bdr_edge_idx (boundary_vec t' ! b) = edge_of t' x
        \<and> (\<exists>i. bc_ele_idx (boundary_vec t' ! b) = Some i \<and> nb \<le> i \<and> i < length (elems t')
              \<and> set (node_idxs (elems t' ! i)) = set (side_node_list es x))"
    and new2: "\<And>x. x \<in> G \<Longrightarrow> x \<in> sides_of es nb \<Longrightarrow> (\<nexists>l. lower_elem es nb (side_key es x) l) \<Longrightarrow>
        (\<forall>y \<in> sides_of es nb. side_key es y = side_key es x \<longrightarrow> y = x) \<Longrightarrow> boundary_of t' x \<noteq> None"
  shows "boundary_inv es nb t'"
  unfolding boundary_inv_def
proof (intro conjI ballI allI impI)
  fix x b assume x: "x \<in> sides_of es nb" "boundary_of t' x = Some b"
  have "b < length (boundary_vec t') \<and> edge_of t' x \<noteq> None \<and> bdr_edge_idx (boundary_vec t' ! b) = edge_of t' x
      \<and> (\<exists>i. bc_ele_idx (boundary_vec t' ! b) = Some i \<and> nb \<le> i \<and> i < length (elems t')
            \<and> set (node_idxs (elems t' ! i)) = set (side_node_list es x))"
  proof (cases "x \<in> G")
    case False
    then have b: "boundary_of t x = Some b" "edge_of t' x = edge_of t x" using old [OF x(1)] x(2) by simp_all
    then obtain i where "b < length (boundary_vec t)" "edge_of t x \<noteq> None" "bdr_edge_idx (boundary_vec t ! b) = edge_of t x"
      "bc_ele_idx (boundary_vec t ! b) = Some i" "nb \<le> i" "i < length (elems t)" "set (node_idxs (elems t ! i)) = set (side_node_list es x)"
      using inv x(1) unfolding boundary_inv_def by blast
    then show ?thesis using b(2) el vec by (auto simp: nth_append)
  qed (rule new1 [OF _ x])
  then show "b < length (boundary_vec t')" "edge_of t' x \<noteq> None" "bdr_edge_idx (boundary_vec t' ! b) = edge_of t' x"
    "\<exists>i. bc_ele_idx (boundary_vec t' ! b) = Some i \<and> nb \<le> i \<and> i < length (elems t')
       \<and> set (node_idxs (elems t' ! i)) = set (side_node_list es x)" by blast+
next
  fix x assume x: "x \<in> sides_of es nb" "edge_of t' x \<noteq> None" "\<nexists>l. lower_elem es nb (side_key es x) l"
    "\<forall>y \<in> sides_of es nb. side_key es y = side_key es x \<longrightarrow> y = x"
  show "boundary_of t' x \<noteq> None"
  proof (cases "x \<in> G")
    case False
    then show ?thesis using old [OF x(1)] x inv unfolding boundary_inv_def by simp
  qed (use new2 x in blast)
qed

definition user_error :: "topo_error \<Rightarrow> bool" where
  "user_error e \<longleftrightarrow> (\<exists>a b. e = TooMatching a b \<or> e = BoundaryMatch a b) \<or> (\<exists>a b. e = ExcDuplicateBoundary a b) \<or> (\<exists>m. e = MeshError m)"

lemma fold_res_error:
  "(\<And>s x e. f s x = Inl e \<Longrightarrow> P e) \<Longrightarrow> fold_res f s xs = Inl e \<Longrightarrow> P e"
  by (induction xs arbitrary: s) (auto simp: res_simps)

lemma connect_boundary_side_error: "connect_boundary_side edg bdr i ns t k = Inl e \<Longrightarrow> user_error e"
  by (auto simp: connect_boundary_side_def user_error_def split: option.splits if_splits)

text \<open>The group of a key with the edges of its sides, for the elements behind the bulk elements unchanged.\<close>

abbreviation group_elems :: "element list \<Rightarrow> nat \<Rightarrow> nat list \<Rightarrow> nat list" where
  "group_elems es nb ns \<equiv> filter (\<lambda>k. dim_of (es ! k) = length ns) (filter (\<lambda>k. set ns \<subseteq> set (node_idxs (es ! k))) [0..<nb])"

lemma boundary_group_step:
  assumes inv: "topo_inv es nb nn t" and i: "nb \<le> i" "i < length (elems t)"
    and ns: "distinct ns" "length ns \<in> {1, 2, 3}" "ns = node_idxs (elems t ! i)" and ks: "group_elems es nb ns = ks" "ks \<noteq> []"
    and nl: "\<nexists>l. lower_elem es nb (length ns, set ns) l"
    and run: "fold_res (connect_boundary_side (length (edges t)) (length (boundary_vec t)) i ns)
      (t\<lparr>edges := edges t @ [[]], boundary_vec := boundary_vec t @ [\<lparr>bdr_edge_idx = Some (length (edges t)), bc_ele_idx = Some i\<rparr>]\<rparr>) ks = Inr t'"
  shows "topo_inv es nb nn t' \<and> length (elems t') = length (elems t) \<and> (\<forall>j \<ge> nb. elems t' ! j = elems t ! j)
    \<and> topo_mesh t'\<lparr>element_vec := []\<rparr> = topo_mesh t\<lparr>element_vec := []\<rparr>"
proof -
  note I = topo_invD [OF inv]
  define \<kappa> where "\<kappa> = (length ns, set ns)"
  obtain \<sigma> where \<sigma>: "matches t ns \<sigma> ks" "distinct ks" "\<forall>k \<in> set ks. k < nb"
    "set (map (\<lambda>k. (k, \<sigma> k)) ks) = {x \<in> sides_of es nb. side_key es x = \<kappa>}" "distinct (map (\<lambda>k. (k, \<sigma> k)) ks)"
    using group_of_key [OF inv ns(1,2)] unfolding ks(1) \<kappa>_def by blast
  define G where "G = map (\<lambda>k. (k, \<sigma> k)) ks"
  define t1 where "t1 = t\<lparr>edges := edges t @ [[]],
      boundary_vec := boundary_vec t @ [\<lparr>bdr_edge_idx = Some (length (edges t)), bc_ele_idx = Some i\<rparr>]\<rparr>"
  have "matches t1 ns \<sigma> ks" using matches_frame [OF \<sigma>(1), of "{}" t1] by (simp add: t1_def frame_def)
  moreover have "\<forall>k \<in> set ks. arr_ok (elems t1 ! k)" using \<sigma>(3) I(3) elem_shapeD(5) [OF I(5)] by (simp add: t1_def)
  moreover have "length (edges t) < length (edges t1)" by (simp add: t1_def)
  ultimately have "(\<forall>k \<in> set ks. edge_of t1 (k, \<sigma> k) = None) \<and> frame (set ks) t1 t'
      \<and> edge_of t' = (\<lambda>x. if x \<in> set G then Some (length (edges t)) else edge_of t1 x)
      \<and> edges t' = (edges t1)[length (edges t) := edges t1 ! length (edges t) @ G]
      \<and> boundary_of t' = (\<lambda>x. if x \<in> set G then Some (length (boundary_vec t)) else boundary_of t1 x)
      \<and> boundary_vec t' = boundary_vec t1 \<and> vb_neighbours t' = vb_neighbours t1"
    unfolding G_def by (intro fold_connect_boundary [OF _ \<sigma>(2) _ _ run [folded t1_def]])
  then have r: "\<forall>k \<in> set ks. edge_of t (k, \<sigma> k) = None" "frame (set ks) t t'"
    "edge_of t' = (\<lambda>x. if x \<in> set G then Some (length (edges t)) else edge_of t x)" "edges t' = edges t @ [G]"
    "boundary_of t' = (\<lambda>x. if x \<in> set G then Some (length (boundary_vec t)) else boundary_of t x)"
    "boundary_vec t' = boundary_vec t @ [\<lparr>bdr_edge_idx = Some (length (edges t)), bc_ele_idx = Some i\<rparr>]" "vb_neighbours t' = vb_neighbours t"
    unfolding t1_def frame_fields fields_of by simp_all
  have up: "elems t' ! j = elems t ! j" if "nb \<le> j" for j using r(2) \<sigma>(3) that by (meson frame_def not_le)
  have "edges_inv (sides_of es nb) (side_key es) (lower_elem es nb) (edge_of t') (edges t') (vb_neighbours t')"
    unfolding r(4,7) by (rule edges_inv_group [OF I(9) \<sigma>(4,5) [folded G_def]])
      (use ks(2) nl r(1,3) in \<open>auto simp: G_def \<kappa>_def\<close>)
  moreover have "boundary_inv es nb t'"
  proof (rule boundary_inv_group [OF I(10), where G = "set G"])
    fix x b assume "x \<in> set G" "boundary_of t' x = Some b"
    moreover from this(1) have "set (side_node_list es x) = set ns" unfolding G_def \<sigma>(4) by (simp add: \<kappa>_def side_key_def)
    ultimately show "b < length (boundary_vec t') \<and> edge_of t' x \<noteq> None \<and> bdr_edge_idx (boundary_vec t' ! b) = edge_of t' x
        \<and> (\<exists>i. bc_ele_idx (boundary_vec t' ! b) = Some i \<and> nb \<le> i \<and> i < length (elems t')
              \<and> set (node_idxs (elems t' ! i)) = set (side_node_list es x))"
      using r(3,5,6) i up frame_length [OF r(2)] by (auto simp: ns(3))
  qed (use r up frame_length [OF r(2)] in auto)
  ultimately have "topo_inv es nb nn t'" using topo_inv_frame [OF inv r(2)] \<sigma>(3) by auto
  then show ?thesis using up frame_length [OF r(2)] r(2) by (simp add: frame_def)
qed

text \<open>A boundary element.\<close>

lemma boundary_edge_step:
  assumes inv: "topo_inv es nb nn t" and i: "nb \<le> i" "i < length (elems t)"
    and bc: "is_boundary_idx (elem_region (elems t ! i))" "distinct (node_idxs (elems t ! i))"
      "length (node_idxs (elems t ! i)) = dim_of (elems t ! i) + 1" "dim_of (elems t ! i) \<le> 2" "\<forall>v \<in> set (node_idxs (elems t ! i)). v < nn"
  shows "case boundary_edge t i of Inl e \<Rightarrow> user_error e
    | Inr t' \<Rightarrow> topo_inv es nb nn t' \<and> length (elems t') = length (elems t) \<and> (\<forall>j \<ge> nb. elems t' ! j = elems t ! j)
        \<and> topo_mesh t'\<lparr>element_vec := []\<rparr> = topo_mesh t\<lparr>element_vec := []\<rparr>"
proof -
  define ns where "ns = node_idxs (elems t ! i)"
  have ns: "distinct ns" "length ns \<in> {1, 2, 3}" "\<forall>v \<in> set ns. v < nn" "length ns = dim_of (elems t ! i) + 1"
    using bc by (auto simp: ns_def)
  define isect where "isect = filter (\<lambda>k. set ns \<subseteq> set (node_idxs (es ! k))) [0..<nb]"
  define t1 where "t1 = t\<lparr>edges := edges t @ [[]],
      boundary_vec := boundary_vec t @ [\<lparr>bdr_edge_idx = Some (length (edges t)), bc_ele_idx = Some i\<rparr>]\<rparr>"
  note sg = search_group [OF inv ns(1-3)]
  have run: "boundary_edge t i = bind_res (find_lower_dim_element (elems t) isect (length ns) None) (\<lambda>(l, r).
      case r of Some k \<Rightarrow> Inl (BoundaryMatch i k)
      | None \<Rightarrow> if l = [] then Inr t else fold_res (connect_boundary_side (length (edges t)) (length (boundary_vec t)) i ns) t1 l)"
    using bc(1) sg(1) ns(4) unfolding boundary_edge_def Let_def t1_def ns_def [symmetric] isect_def by simp
  show ?thesis
  proof (cases "boundary_edge t i")
    case (Inl e)
    then consider "find_lower_dim_element (elems t) isect (length ns) None = Inl e" | k where "e = BoundaryMatch i k"
      | l where "fold_res (connect_boundary_side (length (edges t)) (length (boundary_vec t)) i ns) t1 l = Inl e"
      using run by (auto simp: res_simps split: option.splits if_splits)
    then have "user_error e"
    proof cases
      case 1
      then show ?thesis using sg(2) by (auto simp: user_error_def isect_def)
    next
      case (3 l)
      show ?thesis by (rule fold_res_error [OF connect_boundary_side_error 3])
    qed (simp add: user_error_def)
    then show ?thesis using Inl by simp
  next
    case (Inr t')
    then obtain l where l: "find_lower_dim_element (elems t) isect (length ns) None = Inr (l, None)"
      "l = [] \<and> t' = t \<or> fold_res (connect_boundary_side (length (edges t)) (length (boundary_vec t)) i ns) t1 l = Inr t'"
      using run by (auto simp: res_simps split: option.splits if_splits)
    note low = sg(3) [OF l(1) [unfolded isect_def]]
    show ?thesis
    proof (cases "l = []")
      case True
      then have "t' = t \<or> t' = t1" using l(2) by auto
      then show ?thesis using Inr run l(1) True inv by simp
    next
      case False
      then show ?thesis
        using boundary_group_step [OF inv i ns(1,2) ns_def _ False, of t'] low l(2) Inr by (simp add: t1_def)
    qed
  qed
qed


text \<open>What a step on the side \<open>x\<close> gives besides the invariant.\<close>

definition step_done :: "element list \<Rightarrow> nat \<Rightarrow> nat \<Rightarrow> topology \<Rightarrow> side \<Rightarrow> topology \<Rightarrow> bool" where
  "step_done es nb nn t x t' \<longleftrightarrow> topo_inv es nb nn t' \<and> edge_of t' x \<noteq> None
     \<and> (\<forall>y \<in> sides_of es nb. edge_of t y \<noteq> None \<longrightarrow> edge_of t' y \<noteq> None)"

text \<open>The nodes of a side and its group when the side has no edge yet.\<close>

lemma free_group:
  assumes inv: "topo_inv es nb nn t" and x: "x \<in> sides_of es nb" "edge_of t x = None"
  defines "ns \<equiv> side_node_list es x"
  obtains \<sigma> where "distinct ns" and "length ns \<in> {1, 2, 3}" and "length ns = dim_of (es ! fst x)" and "\<forall>v \<in> set ns. v < nn"
    and "side_node_list (elems t) x = ns" and "side_key es x = (length ns, set ns)"
    and "matches t ns \<sigma> (group_elems es nb ns)" and "distinct (group_elems es nb ns)" and "\<forall>k \<in> set (group_elems es nb ns). k < nb"
    and "set (map (\<lambda>k. (k, \<sigma> k)) (group_elems es nb ns)) = {y \<in> sides_of es nb. side_key es y = (length ns, set ns)}"
    and "distinct (map (\<lambda>k. (k, \<sigma> k)) (group_elems es nb ns))"
    and "\<forall>k \<in> set (group_elems es nb ns). edge_of t (k, \<sigma> k) = None"
    and "\<forall>y \<in> sides_of es nb. side_key es y = (length ns, set ns) \<longrightarrow> boundary_of t y = None"
proof -
  note I = topo_invD [OF inv]
  obtain k s where ks: "x = (k, s)" "k < nb" "s \<le> dim_of (es ! k)" using x(1) by (auto simp: sides_of_def)
  note so = I(1) [OF ks(2)]
  note sn = side_nodes_facts [OF so ks(3)]
  have ns: "distinct ns" "length ns = dim_of (es ! fst x)" "\<forall>v \<in> set ns. v < nn" "length ns \<in> {1, 2, 3}"
    using sn so by (auto simp: ns_def ks(1) simplex_ok_def)
  have key: "side_key es x = (length ns, set ns)" using ns(2) by (simp add: side_key_def ns_def)
  have nl: "side_node_list (elems t) x = ns" using side_node_list_shape [OF I(5) [OF ks(2)]] by (simp add: ns_def ks(1))
  obtain \<sigma> where \<sigma>: "matches t ns \<sigma> (group_elems es nb ns)" "distinct (group_elems es nb ns)" "\<forall>k \<in> set (group_elems es nb ns). k < nb"
    "set (map (\<lambda>k. (k, \<sigma> k)) (group_elems es nb ns)) = {y \<in> sides_of es nb. side_key es y = (length ns, set ns)}"
    "distinct (map (\<lambda>k. (k, \<sigma> k)) (group_elems es nb ns))"
    using group_of_key [OF inv ns(1,4)] by blast
  have free: "edge_of t y = None" if "y \<in> sides_of es nb" "side_key es y = (length ns, set ns)" for y
    using edges_invD(4) [OF I(9) x(1) that(1)] key that(2) x(2) by simp
  then have "\<forall>k \<in> set (group_elems es nb ns). edge_of t (k, \<sigma> k) = None" using \<sigma>(4) by (auto simp: set_eq_iff image_iff)
  moreover have "boundary_of t y = None" if "y \<in> sides_of es nb" "side_key es y = (length ns, set ns)" for y
    using free [OF that] I(10) that(1) unfolding boundary_inv_def by (cases "boundary_of t y") blast+
  ultimately show thesis using that \<sigma> ns key nl by blast
qed

lemma neighbour_step:
  assumes inv: "topo_inv es nb nn t" and x: "x \<in> sides_of es nb" "edge_of t x = None"
  defines "ns \<equiv> side_node_list es x"
  assumes low: "\<forall>l'. lower_elem es nb (length ns, set ns) l' \<longleftrightarrow> l' = l"
  shows "step_done es nb nn t x (foldl (connect_neighbour l ns) t (group_elems es nb ns))"
proof -
  note I = topo_invD [OF inv]
  obtain \<sigma> where "distinct ns" "length ns \<in> {1, 2, 3}" "length ns = dim_of (es ! fst x)" "\<forall>v \<in> set ns. v < nn"
      "side_node_list (elems t) x = ns" and f: "side_key es x = (length ns, set ns)"
    and \<sigma>: "matches t ns \<sigma> (group_elems es nb ns)" "distinct (group_elems es nb ns)" "\<forall>k \<in> set (group_elems es nb ns). k < nb"
      "set (map (\<lambda>k. (k, \<sigma> k)) (group_elems es nb ns)) = {y \<in> sides_of es nb. side_key es y = (length ns, set ns)}"
      "distinct (map (\<lambda>k. (k, \<sigma> k)) (group_elems es nb ns))" "\<forall>k \<in> set (group_elems es nb ns). edge_of t (k, \<sigma> k) = None"
    and bnd: "\<forall>y \<in> sides_of es nb. side_key es y = (length ns, set ns) \<longrightarrow> boundary_of t y = None"
    by (rule free_group [OF inv x, folded ns_def])
  define ks where "ks = group_elems es nb ns"
  define G where "G = map (\<lambda>k. (k, \<sigma> k)) ks"
  define t' where "t' = foldl (connect_neighbour l ns) t ks"
  note S = \<sigma> [folded ks_def]
  have r: "frame (set ks) t t'" "\<forall>x. x \<notin> set G \<longrightarrow> edge_of t' x = edge_of t x"
    "\<forall>i < length ks. edge_of t' (ks ! i, \<sigma> (ks ! i)) = Some (length (edges t) + i)"
    "edges t' = edges t @ map (\<lambda>x. [x]) G" "boundary_of t' = boundary_of t" "boundary_vec t' = boundary_vec t @ []"
    "vb_neighbours t' = vb_neighbours t @ map (\<lambda>i. \<lparr>ngh_elem_idx = l, ngh_edge_idx = length (edges t) + i\<rparr>) [0..<length G]"
    using fold_connect_neighbour [OF S(1,2,6) t'_def] by (simp_all add: G_def)
  have up: "elems t' ! j = elems t ! j" if "nb \<le> j" for j using r(1) S(3) that by (meson frame_def not_le)
  have new: "edge_of t' (G ! i) = Some (length (edges t) + i)" if "i < length G" for i using r(3) that by (simp add: G_def)
  have G: "y \<in> sides_of es nb \<and> side_key es y = (length ns, set ns) \<and> boundary_of t' y = None" if "y \<in> set G" for y
    using that bnd r(5) unfolding G_def S(4) by simp
  have free: "edge_of t y = None" if "y \<in> set G" for y using that S(6) by (auto simp: G_def)
  have "edges_inv (sides_of es nb) (side_key es) (lower_elem es nb) (edge_of t') (edges t') (vb_neighbours t')"
    unfolding r(4,7) using low r(2) new
    by (intro edges_inv_neighbours [OF I(9) S(4,5) [folded G_def] free]) blast+
  moreover have "boundary_inv es nb t'"
  proof (rule boundary_inv_group [OF I(10), where G = "set G"])
    fix y assume "y \<in> set G" "\<nexists>l. lower_elem es nb (side_key es y) l"
    then show "boundary_of t' y \<noteq> None" using G low by metis
  next
    fix y assume "y \<notin> set G"
    then show "edge_of t' y = edge_of t y \<and> boundary_of t' y = boundary_of t y" using spec [OF r(2), of y] r(5) by simp
  qed (use r(6) up frame_length [OF r(1)] G in simp_all)
  ultimately have inv': "topo_inv es nb nn t'" using topo_inv_frame [OF inv r(1)] S(3) by auto
  have set_G: "edge_of t' y \<noteq> None" if "y \<in> set G" for y using that new by (auto simp: in_set_conv_nth)
  have "x \<in> set G" using x(1) f S(4) [folded G_def] by simp
  then show ?thesis using inv' set_G r(2) unfolding step_done_def t'_def ks_def by metis
qed

lemma edge_step:
  assumes inv: "topo_inv es nb nn t" and x: "x \<in> sides_of es nb" "edge_of t x = None"
  defines "ns \<equiv> side_node_list es x"
  assumes low: "\<nexists>l. lower_elem es nb (length ns, set ns) l" and more: "length (group_elems es nb ns) \<noteq> 1"
  shows "step_done es nb nn t x (foldl (connect_edge (length (edges t)) ns) (t\<lparr>edges := edges t @ [[]], max_edge_sides := M\<rparr>) (group_elems es nb ns))"
    and "length (edges (foldl (connect_edge (length (edges t)) ns) (t\<lparr>edges := edges t @ [[]], max_edge_sides := M\<rparr>) (group_elems es nb ns)) ! length (edges t))
      = length (group_elems es nb ns)"
proof -
  note I = topo_invD [OF inv]
  obtain \<sigma> where "distinct ns" "length ns \<in> {1, 2, 3}" "length ns = dim_of (es ! fst x)" "\<forall>v \<in> set ns. v < nn"
      "side_node_list (elems t) x = ns" and f: "side_key es x = (length ns, set ns)"
    and \<sigma>: "matches t ns \<sigma> (group_elems es nb ns)" "distinct (group_elems es nb ns)" "\<forall>k \<in> set (group_elems es nb ns). k < nb"
      "set (map (\<lambda>k. (k, \<sigma> k)) (group_elems es nb ns)) = {y \<in> sides_of es nb. side_key es y = (length ns, set ns)}"
      "distinct (map (\<lambda>k. (k, \<sigma> k)) (group_elems es nb ns))" "\<forall>k \<in> set (group_elems es nb ns). edge_of t (k, \<sigma> k) = None"
    and bnd: "\<forall>y \<in> sides_of es nb. side_key es y = (length ns, set ns) \<longrightarrow> boundary_of t y = None"
    by (rule free_group [OF inv x, folded ns_def])
  define ks where "ks = group_elems es nb ns"
  define G where "G = map (\<lambda>k. (k, \<sigma> k)) ks"
  define t1 where "t1 = t\<lparr>edges := edges t @ [[]], max_edge_sides := M\<rparr>"
  define t' where "t' = foldl (connect_edge (length (edges t)) ns) t1 ks"
  note S = \<sigma> [folded ks_def]
  have "matches t1 ns \<sigma> ks" using matches_frame [OF S(1), of "{}" t1] by (simp add: t1_def frame_def)
  moreover have "\<forall>k \<in> set ks. edge_of t1 (k, \<sigma> k) = None" using S(6) by (simp add: t1_def fields_of)
  moreover have "length (edges t) < length (edges t1)" by (simp add: t1_def)
  ultimately have "frame (set ks) t1 t' \<and> edge_of t' = (\<lambda>x. if x \<in> set G then Some (length (edges t)) else edge_of t1 x)
      \<and> edges t' = (edges t1)[length (edges t) := edges t1 ! length (edges t) @ G]
      \<and> boundary_of t' = boundary_of t1 \<and> boundary_vec t' = boundary_vec t1 \<and> vb_neighbours t' = vb_neighbours t1"
    unfolding G_def by (intro fold_connect_edge [OF _ S(2) _ _ t'_def])
  then have r: "frame (set ks) t t'" "edge_of t' = (\<lambda>x. if x \<in> set G then Some (length (edges t)) else edge_of t x)"
    "edges t' = edges t @ [G]" "boundary_of t' = boundary_of t" "boundary_vec t' = boundary_vec t @ []" "vb_neighbours t' = vb_neighbours t"
    unfolding t1_def frame_fields fields_of by simp_all
  have up: "elems t' ! j = elems t ! j" if "nb \<le> j" for j using r(1) S(3) that by (meson frame_def not_le)
  have xG: "x \<in> set G" using x(1) f S(4) [folded G_def] by simp
  then have "length G \<noteq> 0" by auto
  moreover have "length G \<noteq> 1" using more by (simp add: G_def ks_def)
  ultimately have len: "1 < length G" by linarith
  have "edges_inv (sides_of es nb) (side_key es) (lower_elem es nb) (edge_of t') (edges t') (vb_neighbours t')"
    unfolding r(3,6) by (rule edges_inv_group [OF I(9) S(4,5) [folded G_def]])
      (use xG low r(2) S(6) in \<open>auto simp: G_def\<close>)
  moreover have "boundary_inv es nb t'"
  proof (rule boundary_inv_group [OF I(10), where G = "set G"])
    fix y assume y: "y \<in> set G" "\<forall>z \<in> sides_of es nb. side_key es z = side_key es y \<longrightarrow> z = y"
    then have "set G \<subseteq> {y}" using S(4) [folded G_def] by auto
    then have "length G \<le> 1" using distinct_card [OF S(5) [folded G_def]] card_mono [of "{y}" "set G"] by simp
    then show "boundary_of t' y \<noteq> None" using len by simp
  next
    fix y b assume "y \<in> set G" "boundary_of t' y = Some b"
    then have False using bnd r(4) unfolding G_def S(4) by simp
    then show "b < length (boundary_vec t') \<and> edge_of t' y \<noteq> None \<and> bdr_edge_idx (boundary_vec t' ! b) = edge_of t' y
        \<and> (\<exists>i. bc_ele_idx (boundary_vec t' ! b) = Some i \<and> nb \<le> i \<and> i < length (elems t')
              \<and> set (node_idxs (elems t' ! i)) = set (side_node_list es y))" ..
  qed (use r(2,4,5) up frame_length [OF r(1)] in simp_all)
  ultimately have inv': "topo_inv es nb nn t'" using topo_inv_frame [OF inv r(1)] S(3) by auto
  then show "step_done es nb nn t x (foldl (connect_edge (length (edges t)) ns) (t\<lparr>edges := edges t @ [[]], max_edge_sides := M\<rparr>) (group_elems es nb ns))"
    using xG r(2) unfolding step_done_def t'_def t1_def ks_def by auto
  show "length (edges (foldl (connect_edge (length (edges t)) ns) (t\<lparr>edges := edges t @ [[]], max_edge_sides := M\<rparr>) (group_elems es nb ns)) ! length (edges t))
      = length (group_elems es nb ns)"
    using r(3) unfolding t'_def t1_def ks_def G_def by simp
qed


lemma map_err_eq_Inl: "map_err f m = Inl e \<longleftrightarrow> (\<exists>e'. m = Inl e' \<and> e = f e')"
  by (cases m) auto

lemma outer_side_error: "outer_side t x edg ns = Inl e \<Longrightarrow> user_error e"
  unfolding outer_side_def Let_def user_error_def by (cases x) (auto simp: bind_res_eq_Inl map_err_eq_Inl)

text \<open>A boundary element is appended and found at its position.\<close>

lemma outer_side_Inr:
  assumes "outer_side t (k, s) edg ns = Inr t'"
  defines "bdr \<equiv> length (boundary_vec t) + 1"
  defines "t2 \<equiv> connect_both t edg bdr (k, s)"
  obtains bc where "elems t' = elems t2 @ [bc]" and "elem_nodes bc = map of_nat ns"
    and "length (vals_vec (element_ids (topo_mesh t'))) = length (vals_vec (element_ids (topo_mesh t2))) + 1"
    and "bulk_of t' = bulk_of t2" and "node_elements t' = node_elements t2" and "edges t' = edges t2"
    and "vb_neighbours t' = vb_neighbours t2"
    and "boundary_vec t' = boundary_vec t2 @ [new_boundary,
      \<lparr>bdr_edge_idx = Some edg, bc_ele_idx = Some (length (vals_vec (element_ids (topo_mesh t2))))\<rparr>]"
    and "bc_element_tmp (topo_mesh t') = bc_element_tmp (topo_mesh t2)" and "mesh_nodes (topo_mesh t') = mesh_nodes (topo_mesh t2)"
proof -
  define eid :: u32 where "eid = - of_nat bdr"
  obtain m2 r db db' where m2: "add_element_to_vector (topo_mesh t2) eid = Inr m2"
    and r: "implicit_boundary_region (mesh_regions m2) = Inr (r, db)" "mark_used_region db r = Inr db'"
    and t': "t' = (let last = length (element_vec m2) - 1;
              bc = (element_init (element_vec m2 ! last) (elem_dim (elems t ! k) - 1) r)\<lparr>elem_nodes := map of_nat ns\<rparr>;
              m3 = m2\<lparr>mesh_regions := db', element_vec := (element_vec m2)[last := bc]\<rparr>;
              p = elem_index m3 (sint eid)
          in t2\<lparr>topo_mesh := m3,
               boundary_vec := boundary_vec t2 @ [new_boundary,
                 \<lparr>bdr_edge_idx = Some edg, bc_ele_idx = (if p < 0 then None else Some (nat p))\<rparr>]\<rparr>)"
    using assms(1) unfolding outer_side_def bdr_def t2_def eid_def connect_both_def Let_def prod.case
    by (elim bind_res_InrE) (auto simp: res_simps)
  obtain i ids where a: "add_item (element_ids (topo_mesh t2)) (sint eid) = Inr (i, ids)"
    and m2': "m2 = (topo_mesh t2)\<lparr>element_vec := elems t2 @ [new_element], element_ids := ids\<rparr>"
    using m2 by (auto simp: add_element_to_vector_def res_simps)
  have ids: "vals_map ids (sint eid) = Some (length (vals_vec (element_ids (topo_mesh t2))))"
    "length (vals_vec ids) = length (vals_vec (element_ids (topo_mesh t2))) + 1"
    using a by (auto simp: add_item_def split: if_splits)
  show thesis
    by (rule that [of "(element_init new_element (elem_dim (elems t ! k) - 1) r)\<lparr>elem_nodes := map of_nat ns\<rparr>"]) (simp_all add: t' m2' Let_def elem_index_def get_position_def ids)
qed


lemma outer_step:
  assumes inv: "topo_inv es nb nn t" and x: "x \<in> sides_of es nb" "edge_of t x = None"
  defines "ns \<equiv> side_node_list es x"
  assumes low: "\<nexists>l. lower_elem es nb (length ns, set ns) l" and one: "length (group_elems es nb ns) = 1"
    and run: "outer_side (t\<lparr>edges := edges t @ [[]], max_edge_sides := M\<rparr>) x (length (edges t)) ns = Inr t'"
  shows "step_done es nb nn t x t'"
proof -
  note I = topo_invD [OF inv]
  obtain \<sigma> where "distinct ns" "length ns \<in> {1, 2, 3}" "length ns = dim_of (es ! fst x)" "\<forall>v \<in> set ns. v < nn"
      "side_node_list (elems t) x = ns" and f: "side_key es x = (length ns, set ns)"
    and "matches t ns \<sigma> (group_elems es nb ns)" "distinct (group_elems es nb ns)" "\<forall>k \<in> set (group_elems es nb ns). k < nb"
    and sG: "set (map (\<lambda>k. (k, \<sigma> k)) (group_elems es nb ns)) = {y \<in> sides_of es nb. side_key es y = (length ns, set ns)}"
    and dG: "distinct (map (\<lambda>k. (k, \<sigma> k)) (group_elems es nb ns))" and "\<forall>k \<in> set (group_elems es nb ns). edge_of t (k, \<sigma> k) = None"
      "\<forall>y \<in> sides_of es nb. side_key es y = (length ns, set ns) \<longrightarrow> boundary_of t y = None"
    by (rule free_group [OF inv x, folded ns_def])
  have "card {y \<in> sides_of es nb. side_key es y = (length ns, set ns)} = 1"
    using distinct_card [OF dG] one unfolding sG by simp
  then obtain z where z: "{y \<in> sides_of es nb. side_key es y = (length ns, set ns)} = {z}" by (rule card_1_singletonE)
  then have "x \<in> {z}" using x(1) f by blast
  then have G: "{y \<in> sides_of es nb. side_key es y = (length ns, set ns)} = {x}" using z by simp
  obtain k s where ks: "x = (k, s)" "k < nb" "s \<le> dim_of (es ! k)" using x(1) by (auto simp: sides_of_def)
  note sh = elem_shapeD [OF I(5) [OF ks(2)]]
  define t1 where "t1 = t\<lparr>edges := edges t @ [[]], max_edge_sides := M\<rparr>"
  define t2 where "t2 = connect_both t1 (length (edges t)) (length (boundary_vec t1) + 1) (k, s)"
  have nno: "n_nodes_of (elem_dim (es ! k)) = dim_of (es ! k) + 1"
    using I(1) [OF ks(2)] by (intro n_nodes_of_dim) (simp add: simplex_ok_def)
  have k: "k < length (elems t1)" "s < length (edge_idx (elems t1 ! k))" "arr_ok (elems t1 ! k)"
    "n_nodes_of (elem_dim (elems t1 ! k)) = length (edge_idx (elems t1 ! k))"
    using ks I(2,3) [OF ks(2)] I(4) nno sh(1,4,5) by (simp_all add: t1_def less_Suc_eq_le)
  note c = connect_both_facts [OF k, of "length (edges t)" "length (boundary_vec t1) + 1", folded t2_def]
  have fr: "frame {k} t t2" using c(1) unfolding t1_def frame_fields .
  obtain bc where o: "elems t' = elems t2 @ [bc]" "elem_nodes bc = map of_nat ns"
    "length (vals_vec (element_ids (topo_mesh t'))) = length (vals_vec (element_ids (topo_mesh t2))) + 1"
    "bulk_of t' = bulk_of t2" "node_elements t' = node_elements t2" "edges t' = edges t2" "vb_neighbours t' = vb_neighbours t2"
    "boundary_vec t' = boundary_vec t2 @ [new_boundary,
      \<lparr>bdr_edge_idx = Some (length (edges t)), bc_ele_idx = Some (length (vals_vec (element_ids (topo_mesh t2))))\<rparr>]"
    "bc_element_tmp (topo_mesh t') = bc_element_tmp (topo_mesh t2)" "mesh_nodes (topo_mesh t') = mesh_nodes (topo_mesh t2)"
    by (rule outer_side_Inr [OF run [unfolded ks(1), folded t1_def], folded t2_def])
  have ids: "length (vals_vec (element_ids (topo_mesh t2))) = length (elems t)" using frame_mesh(4) [OF fr] I(8) by simp
  have len: "length (elems t2) = length (elems t)" by (rule frame_length [OF fr])
  have el: "elems t' ! j = elems t2 ! j" if "j < length (elems t)" for j using o(1) len that by (simp add: nth_append)
  have e': "edge_of t' y = (if y = x then Some (length (edges t)) else edge_of t y)"
    and b': "boundary_of t' y = (if y = x then Some (length (boundary_vec t) + 1) else boundary_of t y)" if "y \<in> sides_of es nb" for y
  proof -
    have "fst y < length (elems t)" using that I(4) by (auto simp: sides_of_def)
    then have "edge_of t' y = edge_of t2 y" "boundary_of t' y = boundary_of t2 y"
      using el by (cases y; simp add: edge_of_def boundary_of_def)+
    then show "edge_of t' y = (if y = x then Some (length (edges t)) else edge_of t y)"
      "boundary_of t' y = (if y = x then Some (length (boundary_vec t) + 1) else boundary_of t y)"
      using c(2,3) by (simp_all add: t1_def fields_of ks(1))
  qed
  have ed: "edges t' = edges t @ [[x]]" "vb_neighbours t' = vb_neighbours t"
    using o(6,7) c(4,6) by (simp_all add: t1_def ks(1))
  have "set ns \<subseteq> set (node_idxs (es ! k))" using side_nodes_facts(1) [OF I(1) [OF ks(2)] ks(3)] by (auto simp: ns_def ks(1))
  then have "map (\<lambda>v. unat (of_nat v :: u32)) ns = map id ns" by (intro map_cong) (auto simp: node_idxs_def)
  then have bcn: "node_idxs bc = ns" by (simp add: node_idxs_def o(2) comp_def)
  have "edges_inv (sides_of es nb) (side_key es) (lower_elem es nb) (edge_of t') (edges t') (vb_neighbours t')"
    unfolding ed by (rule edges_inv_group [OF I(9), of "[x]" "(length ns, set ns)"])
      (use G x(2) low e' in simp_all)
  moreover have "boundary_inv es nb t'"
  proof (rule boundary_inv_group [OF I(10), where G = "{x}"])
    fix i assume "nb \<le> i" "i < length (elems t)"
    then show "elems t' ! i = elems t ! i" using el fr ks(2) by (auto simp: frame_def)
  next
    fix y b assume "y \<in> {x}" "boundary_of t' y = Some b"
    then show "b < length (boundary_vec t') \<and> edge_of t' y \<noteq> None \<and> bdr_edge_idx (boundary_vec t' ! b) = edge_of t' y
        \<and> (\<exists>i. bc_ele_idx (boundary_vec t' ! b) = Some i \<and> nb \<le> i \<and> i < length (elems t')
              \<and> set (node_idxs (elems t' ! i)) = set (side_node_list es y))"
      using e' [OF x(1)] b' [OF x(1)] o(1,8) c(5) ids len I(4) bcn by (auto simp: t1_def nth_append ns_def)
  qed (use e' b' o(1,8) c(5) len in \<open>auto simp: t1_def\<close>)
  moreover have "elem_shape (elems t' ! j) = elem_shape (es ! j)" if "j < nb" for j
    using frame_shape [OF fr, of j] I(4) I(5) [OF that] el [of j] that by simp
  ultimately have "topo_inv es nb nn t'"
    using I(1-4,6-8,11) o(1,3-5) len ids frame_mesh [OF fr] by (simp add: topo_inv_def)
  then show ?thesis using e' x(1) by (simp add: step_done_def)
qed

lemma side_edge_step:
  assumes inv: "topo_inv es nb nn t" and x: "x \<in> sides_of es nb"
  shows "case side_edge t x of Inl e \<Rightarrow> user_error e | Inr t' \<Rightarrow> step_done es nb nn t x t'"
proof (cases "edge_of t x = None")
  case False
  then show ?thesis using inv by (cases x) (simp add: side_edge_def step_done_def edge_of_def)
next
  case True
  define ns where "ns = side_node_list es x"
  note I = topo_invD [OF inv]
  obtain k s where ks: "x = (k, s)" "k < nb" using x by (auto simp: sides_of_def)
  obtain \<sigma> where f: "distinct ns" "length ns \<in> {1, 2, 3}" "length ns = dim_of (es ! fst x)" "\<forall>v \<in> set ns. v < nn"
      "side_node_list (elems t) x = ns" "side_key es x = (length ns, set ns)"
    and "matches t ns \<sigma> (group_elems es nb ns)" "distinct (group_elems es nb ns)" "\<forall>k \<in> set (group_elems es nb ns). k < nb"
      "set (map (\<lambda>k. (k, \<sigma> k)) (group_elems es nb ns)) = {y \<in> sides_of es nb. side_key es y = (length ns, set ns)}"
      "distinct (map (\<lambda>k. (k, \<sigma> k)) (group_elems es nb ns))" "\<forall>k \<in> set (group_elems es nb ns). edge_of t (k, \<sigma> k) = None"
      "\<forall>y \<in> sides_of es nb. side_key es y = (length ns, set ns) \<longrightarrow> boundary_of t y = None"
    by (rule free_group [OF inv x True, folded ns_def])
  have d: "dim_of (elems t ! k) = length ns" using f(3) elem_shapeD(1) [OF I(5) [OF ks(2)]] by (simp add: ks(1))
  define isect where "isect = filter (\<lambda>k. set ns \<subseteq> set (node_idxs (es ! k))) [0..<nb]"
  note sg = search_group [OF inv f(1,2,4), folded isect_def]
  define M where "M l = (max_edge_sides t)[length ns - 1 := max (max_edge_sides t ! (length ns - 1)) (length l)]" for l :: "nat list"
  define t2 where "t2 l = t\<lparr>edges := edges t @ [[]], max_edge_sides := M l\<rparr>" for l
  define t3 where "t3 l = foldl (connect_edge (length (edges t)) ns) (t2 l) l" for l
  have run: "side_edge t x = bind_res (find_lower_dim_element (elems t) isect (length ns) None) (\<lambda>(l, r).
      case r of Some l' \<Rightarrow> Inr (foldl (connect_neighbour l' ns) t l)
      | None \<Rightarrow> if length l = 1 then outer_side (t2 l) x (length (edges t)) ns
          else if length (edges (t3 l) ! length (edges t)) = length l then Inr (t3 l) else Inl (MissingEdgeSides k s))"
    using True sg(1) d f(5) unfolding side_edge_def Let_def ks(1) t2_def t3_def M_def
    by (simp add: edge_of_def cong: option.case_cong if_cong)
  show ?thesis
  proof (cases "find_lower_dim_element (elems t) isect (length ns) None")
    case (Inl e)
    then show ?thesis using run sg(2) by (auto simp: user_error_def)
  next
    case (Inr lr)
    obtain l r where lr: "lr = (l, r)" by (cases lr)
    note low = sg(3) [OF Inr [unfolded lr]]
    have l: "l = group_elems es nb ns" using low by (simp add: isect_def)
    note fold_ns = ns_def [symmetric]
    show ?thesis
    proof (cases r)
      case (Some l')
      then show ?thesis using run Inr lr low neighbour_step [OF inv x True, unfolded fold_ns, of l'] l by simp
    next
      case None
      then have nl: "\<nexists>l. lower_elem es nb (length ns, set ns) l" using low by simp
      show ?thesis
      proof (cases "length l = 1")
        case False
        then show ?thesis
          using run Inr lr None edge_step [OF inv x True, unfolded fold_ns, OF nl, of "M l"] unfolding l t3_def t2_def by simp
      next
        case one: True
        then have "side_edge t x = outer_side (t2 l) x (length (edges t)) ns" using run Inr lr None by simp
        then show ?thesis
          using outer_side_error [of "t2 l" x "length (edges t)" ns] outer_step [OF inv x True, unfolded fold_ns, OF nl, of "M l"] one
          unfolding l t2_def by (auto split: sum.split)
      qed
    qed
  qed
qed


section \<open>The whole construction\<close>

lemma side_edge_fold:
  assumes "topo_inv es nb nn t" and "set xs \<subseteq> sides_of es nb"
  shows "case fold_res side_edge t xs of Inl e \<Rightarrow> user_error e
    | Inr t' \<Rightarrow> topo_inv es nb nn t' \<and> (\<forall>y \<in> sides_of es nb. y \<in> set xs \<or> edge_of t y \<noteq> None \<longrightarrow> edge_of t' y \<noteq> None)"
  using assms
proof (induction xs arbitrary: t)
  case (Cons x xs)
  have x: "x \<in> sides_of es nb" using Cons.prems(2) by simp
  show ?case
  proof (cases "side_edge t x")
    case (Inl e)
    then show ?thesis using side_edge_step [OF Cons.prems(1) x] by simp
  next
    case (Inr t1)
    then have "step_done es nb nn t x t1" using side_edge_step [OF Cons.prems(1) x] by simp
    then have s: "topo_inv es nb nn t1" "edge_of t1 x \<noteq> None" "\<forall>y \<in> sides_of es nb. edge_of t y \<noteq> None \<longrightarrow> edge_of t1 y \<noteq> None"
      by (simp_all add: step_done_def)
    have "case fold_res side_edge t1 xs of Inl e \<Rightarrow> user_error e
      | Inr t' \<Rightarrow> topo_inv es nb nn t' \<and> (\<forall>y \<in> sides_of es nb. y \<in> set xs \<or> edge_of t1 y \<noteq> None \<longrightarrow> edge_of t' y \<noteq> None)"
      using Cons.IH [OF s(1)] Cons.prems(2) by simp
    then show ?thesis using Inr s(2,3) by (auto split: sum.splits)
  qed
qed simp

definition bc_element_ok :: "nat \<Rightarrow> element \<Rightarrow> bool" where
  "bc_element_ok n e \<longleftrightarrow> is_boundary_idx (elem_region e) \<and> distinct (node_idxs e) \<and> length (node_idxs e) = dim_of e + 1
     \<and> dim_of e \<le> 2 \<and> (\<forall>v \<in> set (node_idxs e). v < n)"

lemma boundary_edge_fold:
  assumes "topo_inv es nb nn t" and "\<forall>i \<in> set is. nb \<le> i \<and> i < length (elems t) \<and> bc_element_ok nn (elems t ! i)"
  shows "case fold_res boundary_edge t is of Inl e \<Rightarrow> user_error e
    | Inr t' \<Rightarrow> topo_inv es nb nn t'"
  using assms
proof (induction "is" arbitrary: t)
  case (Cons i "is")
  have i: "nb \<le> i" "i < length (elems t)" "bc_element_ok nn (elems t ! i)" using Cons.prems(2) by auto
  note step = boundary_edge_step [OF Cons.prems(1) i(1,2)]
  show ?case
  proof (cases "boundary_edge t i")
    case (Inl e)
    then show ?thesis using step i(3) by (simp add: bc_element_ok_def)
  next
    case (Inr t1)
    then have "topo_inv es nb nn t1" "length (elems t1) = length (elems t)" "\<forall>j \<ge> nb. elems t1 ! j = elems t ! j"
      using step i(3) by (simp_all add: bc_element_ok_def)
    then show ?thesis using Cons.IH [of t1] Cons.prems(2) Inr by simp
  qed
qed simp

text \<open>A mesh as the readers leave it, with simplices of distinct existing nodes.\<close>

definition fresh_element :: "nat \<Rightarrow> element \<Rightarrow> bool" where
  "fresh_element n e \<longleftrightarrow> simplex_ok n e \<and> edge_idx e = replicate (dim_of e + 1) None
     \<and> length (permutation_idx e) = dim_of e + 1 \<and> boundary_idx_arr e = None"

definition simplices_ok :: "mesh_data \<Rightarrow> bool" where
  "simplices_ok m \<longleftrightarrow> bc_element_tmp m = [] \<and> mesh_bulk_size m \<le> length (element_vec m)
     \<and> list_all (fresh_element (length (mesh_nodes m))) (take (mesh_bulk_size m) (element_vec m))
     \<and> list_all (bc_element_ok (length (mesh_nodes m))) (drop (mesh_bulk_size m) (element_vec m))"

lemma topo_inv_init:
  assumes ok: "simplices_ok m" and ids: "length (vals_vec (element_ids m)) = length (element_vec m)"
  obtains t where "create_node_element_lists (new_topology m) = Inr t" and "topo_inv (element_vec m) (mesh_bulk_size m) (length (mesh_nodes m)) t"
    and "t\<lparr>edges := []\<rparr> = t" and "elems t = element_vec m" and "bulk_of t = mesh_bulk_size m"
proof -
  let ?es = "element_vec m" and ?nb = "mesh_bulk_size m" and ?nn = "length (mesh_nodes m)"
  have bulk: "fresh_element ?nn (?es ! k)" if "k < ?nb" for k
    using ok that by (simp add: simplices_ok_def list_all_length)
  then have "\<forall>k < bulk_of (new_topology m). simplex_ok (length (mesh_nodes (topo_mesh (new_topology m)))) (elems (new_topology m) ! k)"
    by (simp add: new_topology_def fresh_element_def)
  then obtain ne where ne: "create_node_element_lists (new_topology m) = Inr ((new_topology m)\<lparr>node_elements := ne\<rparr>)"
    "lists_ok ne ?es ?nb ?nn"
    using create_lists_ok [of "new_topology m"] by (auto simp: new_topology_def)
  let ?t = "(new_topology m)\<lparr>node_elements := ne\<rparr>"
  have none: "edge_of ?t x = None" "boundary_of ?t x = None" if x: "x \<in> sides_of ?es ?nb" for x
  proof -
    obtain k s where "x = (k, s)" "k < ?nb" "s \<le> dim_of (?es ! k)" using x by (auto simp: sides_of_def)
    then show "edge_of ?t x = None" "boundary_of ?t x = None"
      using bulk [of k] by (simp_all add: edge_of_def boundary_of_def new_topology_def fresh_element_def nth_replicate less_Suc_eq_le del: replicate_Suc)
  qed
  have "edges_inv (sides_of ?es ?nb) (side_key ?es) (lower_elem ?es ?nb) (edge_of ?t) [] []"
    by (rule edges_inv_empty) (simp add: none)
  moreover have "boundary_inv ?es ?nb ?t" using none by (simp add: boundary_inv_def)
  ultimately have "topo_inv ?es ?nb ?nn ?t"
    using bulk ne(2) ids ok by (simp add: topo_inv_def new_topology_def fresh_element_def arr_ok_def simplices_ok_def)
  then show thesis by (intro that [OF ne(1)]) (simp_all add: new_topology_def)
qed

lemma make_neighbours_and_edges_spec:
  assumes ok: "simplices_ok m" and ids: "length (vals_vec (element_ids m)) = length (element_vec m)"
  shows "case make_neighbours_and_edges (new_topology m) of Inl e \<Rightarrow> user_error e
    | Inr t \<Rightarrow> topo_inv (element_vec m) (mesh_bulk_size m) (length (mesh_nodes m)) t
        \<and> (\<forall>x \<in> sides_of (element_vec m) (mesh_bulk_size m). edge_of t x \<noteq> None)"
proof -
  let ?es = "element_vec m" and ?nb = "mesh_bulk_size m" and ?nn = "length (mesh_nodes m)"
  let ?sides = "\<lambda>t. concat (map (\<lambda>k. map (\<lambda>s. (k, s)) [0..<n_nodes_of (elem_dim (elems t ! k))]) [0..<bulk_of t])"
  obtain t1 where t1: "create_node_element_lists (new_topology m) = Inr t1" "topo_inv ?es ?nb ?nn t1" "t1\<lparr>edges := []\<rparr> = t1"
    "elems t1 = ?es" "bulk_of t1 = ?nb"
    by (rule topo_inv_init [OF ok ids])
  have run: "make_neighbours_and_edges (new_topology m) =
      bind_res (fold_res boundary_edge t1 [?nb..<length ?es]) (\<lambda>t2. fold_res side_edge t2 (?sides t2))"
    using ok t1(1,3-5) by (simp add: make_neighbours_and_edges_def new_topology_def simplices_ok_def)
  have "bc_element_ok ?nn (?es ! i)" if "?nb \<le> i" "i < length ?es" for i
  proof -
    have "?es ! i \<in> set (drop ?nb ?es)" using that by (auto simp: in_set_drop_nth)
    then show ?thesis using ok by (simp add: simplices_ok_def list_all_iff)
  qed
  then have "\<forall>i \<in> set [?nb..<length ?es]. ?nb \<le> i \<and> i < length (elems t1) \<and> bc_element_ok ?nn (elems t1 ! i)"
    by (simp add: t1(4))
  note phase1 = boundary_edge_fold [OF t1(2) this]
  show ?thesis
  proof (cases "fold_res boundary_edge t1 [?nb..<length ?es]")
    case (Inl e)
    then show ?thesis using run phase1 by simp
  next
    case (Inr t2)
    then have t2: "topo_inv ?es ?nb ?nn t2" using phase1 by simp
    note I = topo_invD [OF t2]
    have "n_nodes_of (elem_dim (elems t2 ! k)) = dim_of (?es ! k) + 1" if "k < ?nb" for k
      using I(1) [OF that] elem_shapeD(1) [OF I(5) [OF that]] n_nodes_of_dim by (simp add: simplex_ok_def)
    then have sides: "set (?sides t2) = sides_of ?es ?nb" by (auto simp: I(6) sides_of_def image_iff less_Suc_eq_le simp del: upt_Suc)
    then show ?thesis using side_edge_fold [OF t2, of "?sides t2"] run Inr by (auto split: sum.splits)
  qed
qed


section \<open>Properties\<close>

text \<open>
  C8. Edges, neighbours and boundaries. For a mesh of simplices with distinct existing nodes
  \<open>make_neighbours_and_edges\<close> fails only with an error of the input (two lower elements
  on one side, a boundary element equal to a bulk element, two boundary elements on one side, an id or region
  that cannot be added); the assertion that sides of an edge are missing never fails. Otherwise
  every side has exactly one edge and is listed in it; two sides share an edge exactly when they belong
  to elements of the same dimension, have the same nodes and no element of the lower dimension
  lies on these nodes; the neighbours are exactly the pairs of such a lower element and the edge of a side;
  and a side that no other element shares has a boundary object on its edge whose boundary element has
  the nodes of the side.
\<close>

theorem topology_correct:
  assumes ok: "simplices_ok m" "mesh_ok m"
  defines "es \<equiv> element_vec m" and "nb \<equiv> mesh_bulk_size m" and "X \<equiv> sides_of (element_vec m) (mesh_bulk_size m)"
  shows "case make_neighbours_and_edges (new_topology m) of Inl e \<Rightarrow> user_error e
    | Inr t \<Rightarrow> (\<forall>x \<in> X. \<exists>k < length (edges t). edge_of t x = Some k \<and> x \<in> set (edges t ! k))
      \<and> (\<forall>k < length (edges t). edges t ! k \<noteq> [] \<and> distinct (edges t ! k) \<and> (\<forall>x \<in> set (edges t ! k). x \<in> X \<and> edge_of t x = Some k))
      \<and> (\<forall>x \<in> X. \<forall>y \<in> X. x \<noteq> y \<longrightarrow>
           (edge_of t x = edge_of t y \<longleftrightarrow> side_key es x = side_key es y \<and> (\<nexists>l. lower_elem es nb (side_key es x) l)))
      \<and> (\<forall>n. n \<in> set (vb_neighbours t) \<longleftrightarrow> (\<exists>x \<in> X. edge_of t x = Some (ngh_edge_idx n) \<and> lower_elem es nb (side_key es x) (ngh_elem_idx n)))
      \<and> distinct (vb_neighbours t) \<and> boundary_inv es nb t"
proof (cases "make_neighbours_and_edges (new_topology m)")
  case (Inl e)
  then show ?thesis using make_neighbours_and_edges_spec [OF ok(1)] ok(2) by (simp add: mesh_ok_def)
next
  case (Inr t)
  then have t: "topo_inv es nb (length (mesh_nodes m)) t" "\<forall>x \<in> X. edge_of t x \<noteq> None"
    using make_neighbours_and_edges_spec [OF ok(1)] ok(2) by (simp_all add: mesh_ok_def es_def nb_def X_def)
  note I = edges_invD [OF topo_invD(9) [OF t(1)]]
  have X: "sides_of es nb = X" by (simp add: X_def es_def nb_def)
  have 1: "\<forall>x \<in> X. \<exists>k < length (edges t). edge_of t x = Some k \<and> x \<in> set (edges t ! k)"
    using I(1) [unfolded X] t(2) by blast
  have 2: "\<forall>k < length (edges t). edges t ! k \<noteq> [] \<and> distinct (edges t ! k) \<and> (\<forall>x \<in> set (edges t ! k). x \<in> X \<and> edge_of t x = Some k)"
    using I(2,3) [unfolded X] by blast
  have 3: "\<forall>x \<in> X. \<forall>y \<in> X. x \<noteq> y \<longrightarrow>
      (edge_of t x = edge_of t y \<longleftrightarrow> side_key es x = side_key es y \<and> (\<nexists>l. lower_elem es nb (side_key es x) l))"
    using I(5) [unfolded X] t(2) by blast
  show ?thesis unfolding Inr sum.case
    by (intro conjI 1 2 3 allI I(6) [unfolded X] I(7) topo_invD(10) [OF t(1)])
qed

text \<open>
  Three triangles in a row; a line lies on the first common side, the second is an edge of two sides, and
  there is a boundary line.
\<close>

definition topo_cmds :: "mesh_cmd list" where
  "topo_cmds = [Add_Name 1 9 ''.side'', Add_Node 1 [0, 0, 0], Add_Node 2 [1, 0, 0], Add_Node 3 [0, 1, 0], Add_Node 4 [1, 1, 0],
     Add_Node 5 [1, 1, 1], Add_Element 1 1 5 0 [2, 3], Add_Element 2 2 6 0 [1, 2, 3], Add_Element 3 2 6 0 [2, 4, 3],
     Add_Element 4 2 6 0 [2, 5, 4], Add_Element 5 1 9 0 [1, 2]]"

lemma topo_sample_eval:
  "case fold_res mesh_step empty_mesh topo_cmds of Inl e \<Rightarrow> False
   | Inr m1 \<Rightarrow> case create_boundary_elements m1 of Inl e \<Rightarrow> False
   | Inr m \<Rightarrow> simplices_ok m \<and> (case make_neighbours_and_edges (new_topology m) of Inl e \<Rightarrow> False
       | Inr t \<Rightarrow> map length (edges t) = [1, 1, 1, 1, 1, 1, 2, 1, 1, 1] \<and> length (vb_neighbours t) = 2)"
  by code_simp

theorem topology_correct_witness:
  "\<exists>m t. mesh_ok m \<and> make_neighbours_and_edges (new_topology m) = Inr t \<and> length (edges t) = 10
    \<and> distinct (vb_neighbours t) \<and> boundary_inv (element_vec m) (mesh_bulk_size m) t"
proof -
  obtain m1 m t where m: "fold_res mesh_step empty_mesh topo_cmds = Inr m1" "create_boundary_elements m1 = Inr m" "simplices_ok m"
    and t: "make_neighbours_and_edges (new_topology m) = Inr t" "map length (edges t) = [1, 1, 1, 1, 1, 1, 2, 1, 1, 1]"
    using topo_sample_eval by (auto split: sum.splits)
  have "list_all mesh_cmd_allowed topo_cmds" by (simp add: topo_cmds_def reserved_def)
  from create_boundary_elements_ok(1) [OF building.run_keeps [OF empty_mesh_reading this m(1)] m(2)]
  have ok: "mesh_ok m" .
  have "length (edges t) = 10" using arg_cong [OF t(2), of length] by simp
  moreover from topology_correct [OF m(3) ok] have "distinct (vb_neighbours t)" "boundary_inv (element_vec m) (mesh_bulk_size m) t"
    unfolding t(1) sum.case by blast+
  ultimately show ?thesis using ok t(1) by blast
qed

end
