(* ===== verification/Mesh_Setup.thy ===== *)
theory Mesh_Setup
  imports Mesh_Topology
begin

text \<open>
  The steps of \<open>Mesh::setup_topology\<close> around the edges (\<open>src/src/mesh/mesh.cc\<close>): nodes that no element uses are
  removed before, the elements learn their neighbours and the sides their permutations after. The
  quality of elements, which only decides about a warning, is not modelled.
\<close>

section \<open>Model\<close>

datatype setup_error = SetupTopo topo_error | SetupNodeRange | SetupIdError map_error | NoSide nat | UninitPermutation | PermError ref_error

type_synonym 'a setup_res = "(setup_error, 'a) res"

text \<open>\<open>Mesh::count_element_types\<close> adds to the counters of the mesh.\<close>

record type_counts =
  cnt_lines :: nat
  cnt_triangles :: nat
  cnt_tetrahedras :: nat

definition count_element_types :: "topology \<Rightarrow> type_counts \<Rightarrow> type_counts" where
  "count_element_types t c =
     foldl (\<lambda>c k. if dim_of (elems t ! k) = 1 then c\<lparr>cnt_lines := cnt_lines c + 1\<rparr>
                  else if dim_of (elems t ! k) = 2 then c\<lparr>cnt_triangles := cnt_triangles c + 1\<rparr>
                  else if dim_of (elems t ! k) = 3 then c\<lparr>cnt_tetrahedras := cnt_tetrahedras c + 1\<rparr>
                  else c) c [0..<bulk_of t]"

definition n_sides_of_mesh :: "topology \<Rightarrow> nat" where
  "n_sides_of_mesh t = foldl (\<lambda>n k. n + n_nodes_of (elem_dim (elems t ! k))) 0 [0..<bulk_of t]"

definition n_corners :: "topology \<Rightarrow> nat" where
  "n_corners t = foldl (\<lambda>n k. n + n_nodes_of (elem_dim (elems t ! k))) 0 [0..<bulk_of t]"

text \<open>Removal of unused nodes.\<close>

definition flag_node :: "nat option list \<Rightarrow> nat \<Rightarrow> nat option list setup_res" where
  "flag_node new_idx n = (if n < length new_idx then Inr (new_idx[n := Some n]) else Inl SetupNodeRange)"

definition flag_used_nodes :: "mesh_data \<Rightarrow> nat option list setup_res" where
  "flag_used_nodes m =
     fold_res flag_node (replicate (length (mesh_nodes m)) None)
       (concat (map (\<lambda>k. node_idxs (element_vec m ! k)) [0..<mesh_bulk_size m]))"

record renumbering =
  rn_idx :: "nat option list"
  rn_nodes :: "point list"
  rn_ids :: "int bidirectional_map"
  rn_count :: nat

text \<open>The nodes move to the front of the vector in their order.\<close>

definition renumber_node :: "int bidirectional_map \<Rightarrow> renumbering \<Rightarrow> nat \<Rightarrow> renumbering setup_res" where
  "renumber_node ids r n =
     (case rn_idx r ! n of
        None \<Rightarrow> Inr r
      | Some _ \<Rightarrow>
          bind_res (map_err SetupIdError (value_at ids n)) (\<lambda>v.
          bind_res (map_err SetupIdError (add_item (rn_ids r) v)) (\<lambda>(_, new_ids).
            Inr \<lparr>rn_idx = (rn_idx r)[n := Some (rn_count r)], rn_nodes = (rn_nodes r)[rn_count r := rn_nodes r ! n],
                 rn_ids = new_ids, rn_count = rn_count r + 1\<rparr>)))"

definition renumber_element :: "nat option list \<Rightarrow> element \<Rightarrow> element" where
  "renumber_element new_idx e =
     e\<lparr>elem_nodes := map (\<lambda>v. case new_idx ! unat v of Some n \<Rightarrow> of_nat n | None \<Rightarrow> - 1) (elem_nodes e)\<rparr>"

definition check_mesh_on_read :: "mesh_data \<Rightarrow> mesh_data setup_res" where
  "check_mesh_on_read m =
     bind_res (flag_used_nodes m) (\<lambda>used.
     bind_res (fold_res (renumber_node (node_ids m)) \<lparr>rn_idx = used, rn_nodes = mesh_nodes m, rn_ids = empty_map, rn_count = 0\<rparr>
        [0..<length used]) (\<lambda>r.
       if rn_count r < length used
       then Inr (m\<lparr>mesh_nodes := take (rn_count r) (rn_nodes r), node_ids := rn_ids r,
              element_vec := map (renumber_element (rn_idx r)) (take (mesh_bulk_size m) (element_vec m)) @ drop (mesh_bulk_size m) (element_vec m)\<rparr>)
       else Inr (m\<lparr>mesh_nodes := rn_nodes r\<rparr>)))"

text \<open>The neighbours of the elements of lower dimension.\<close>

definition count_neighbour :: "topology \<Rightarrow> neighbour \<Rightarrow> topology" where
  "count_neighbour t n = update_elem t (ngh_elem_idx n) (\<lambda>e. e\<lparr>n_neighs_vb := n_neighs_vb e + 1\<rparr>)"

definition alloc_neighbours :: "topology \<Rightarrow> nat \<Rightarrow> topology" where
  "alloc_neighbours t k =
     (if n_neighs_vb (elems t ! k) > 0
      then update_elem t k (\<lambda>e. e\<lparr>neigh_vb := Some (replicate (n_neighs_vb e) None), n_neighs_vb := 0\<rparr>)
      else t)"

definition store_neighbour :: "topology \<Rightarrow> nat \<Rightarrow> topology" where
  "store_neighbour t i =
     update_elem t (ngh_elem_idx (vb_neighbours t ! i)) (\<lambda>e.
       e\<lparr>neigh_vb := map_option (\<lambda>a. a[n_neighs_vb e := Some i]) (neigh_vb e), n_neighs_vb := n_neighs_vb e + 1\<rparr>)"

definition element_to_neigh_vb :: "topology \<Rightarrow> topology" where
  "element_to_neigh_vb t =
     (let t0 = foldl (\<lambda>t k. update_elem t k (\<lambda>e. e\<lparr>n_neighs_vb := 0\<rparr>)) t [0..<bulk_of t];
          t1 = foldl count_neighbour t0 (vb_neighbours t);
          t2 = foldl alloc_neighbours t1 [0..<bulk_of t]
      in foldl store_neighbour t2 [0..<length (vb_neighbours t)])"

text \<open>
  Permutations of side nodes. \<open>node_numbers\<close> is an \<open>unordered_map\<close> whose index operator gives 0 for a missing key;
  the array of the permutation is not initialized.
\<close>

definition node_numbers :: "nat list \<Rightarrow> nat \<Rightarrow> nat" where
  "node_numbers ref = foldl (\<lambda>m i. m(ref ! i := i)) (\<lambda>_. 0) [0..<length ref]"

definition fill_permutation :: "nat list \<Rightarrow> nat option list \<Rightarrow> nat list \<Rightarrow> nat option list" where
  "fill_permutation ref p ns = foldl (\<lambda>p i. p[node_numbers ref (ns ! i) := Some i]) p [0..<length ref]"

definition permutation_of_side :: "nat list \<Rightarrow> nat option list \<Rightarrow> nat list \<Rightarrow> (nat option list \<times> nat) setup_res" where
  "permutation_of_side ref p ns =
     (let p' = fill_permutation ref p ns in
      case those p' of
        None \<Rightarrow> Inl UninitPermutation
      | Some q \<Rightarrow> bind_res (map_err PermError (permutation_index (length ref) q)) (\<lambda>k. Inr (p', k)))"

definition set_permutation :: "topology \<Rightarrow> side \<Rightarrow> nat \<Rightarrow> topology" where
  "set_permutation t = (\<lambda>(k, s) p. update_elem t k (\<lambda>e. e\<lparr>permutation_idx := (permutation_idx e)[s := Some p]\<rparr>))"

definition permute_side :: "nat list \<Rightarrow> topology \<times> nat option list \<Rightarrow> side \<Rightarrow> (topology \<times> nat option list) setup_res" where
  "permute_side ref = (\<lambda>(t, p) x.
     bind_res (permutation_of_side ref p (side_node_list (elems t) x)) (\<lambda>(p', k). Inr (set_permutation t x k, p')))"

text \<open>One array serves all the sides of an edge.\<close>

definition permute_edge :: "topology \<Rightarrow> nat \<Rightarrow> topology setup_res" where
  "permute_edge t k =
     (case edges t ! k of
        [] \<Rightarrow> Inl (NoSide k)
      | x # xs \<Rightarrow>
          let ref = side_node_list (elems t) x in
          bind_res (fold_res (permute_side ref) (set_permutation t x 0, replicate (length ref) None) xs) (\<lambda>(t', p). Inr t'))"

definition permute_neighbour :: "topology \<Rightarrow> neighbour \<Rightarrow> topology setup_res" where
  "permute_neighbour t n =
     (case edges t ! ngh_edge_idx n of
        [] \<Rightarrow> Inl (NoSide (ngh_edge_idx n))
      | x # xs \<Rightarrow>
          let ref = node_idxs (elems t ! ngh_elem_idx n) in
          bind_res (permute_side ref (t, replicate (length ref) None) x) (\<lambda>(t', p). Inr t'))"

definition make_edge_permutations :: "topology \<Rightarrow> topology setup_res" where
  "make_edge_permutations t =
     bind_res (fold_res permute_edge t [0..<length (edges t)]) (\<lambda>t1. fold_res permute_neighbour t1 (vb_neighbours t))"

definition is_external :: "topology \<Rightarrow> side \<Rightarrow> bool" where
  "is_external t x = (case edge_idx (elems t ! fst x) ! snd x of Some k \<Rightarrow> length (edges t ! k) = 1 | None \<Rightarrow> False)"

definition count_side_types :: "topology \<Rightarrow> nat \<times> nat" where
  "count_side_types t =
     foldl (\<lambda>(n_insides, n_exsides) x. if is_external t x then (n_insides, n_exsides + 1) else (n_insides + 1, n_exsides)) (0, 0)
       (concat (map (\<lambda>k. map (\<lambda>s. (k, s)) [0..<n_nodes_of (elem_dim (elems t ! k))]) [0..<bulk_of t]))"

text \<open>The steps of \<open>setup_topology\<close> up to the counters of sides; duplicated nodes and partitioning follow.\<close>

definition setup_topology :: "mesh_data \<Rightarrow> type_counts \<Rightarrow> (topology \<times> type_counts \<times> nat \<times> nat) setup_res" where
  "setup_topology m c =
     (let c' = count_element_types (new_topology m) c in
      bind_res (check_mesh_on_read m) (\<lambda>m'.
      bind_res (map_err SetupTopo (make_neighbours_and_edges (new_topology m'))) (\<lambda>t.
      bind_res (make_edge_permutations (element_to_neigh_vb t)) (\<lambda>t'.
        Inr (t', c', count_side_types t')))))"

definition permute_nodes :: "mesh_data \<Rightarrow> nat \<Rightarrow> nat list \<Rightarrow> mesh_data" where
  "permute_nodes m k p =
     m\<lparr>element_vec := (element_vec m)[k := (element_vec m ! k)
        \<lparr>elem_nodes := map (\<lambda>i. elem_nodes (element_vec m ! k) ! (p ! i)) [0..<n_nodes_of (elem_dim (element_vec m ! k))]\<rparr>]\<rparr>"


section \<open>Unused nodes\<close>

lemma flag_nodes:
  assumes "\<forall>n \<in> set ns. n < length new_idx" and "\<forall>i < length new_idx. new_idx ! i = (if i \<in> U then Some i else None)"
  shows "\<exists>used. fold_res flag_node new_idx ns = Inr used \<and> length used = length new_idx
    \<and> (\<forall>i < length new_idx. used ! i = (if i \<in> U \<union> set ns then Some i else None))"
  using assms
proof (induction ns arbitrary: new_idx U)
  case (Cons n ns)
  then have "\<forall>i < length (new_idx[n := Some n]). new_idx[n := Some n] ! i = (if i \<in> insert n U then Some i else None)"
    by (auto simp: nth_list_update)
  from Cons.IH [OF _ this] Cons.prems(1) show ?case by (auto simp: flag_node_def)
qed auto

text \<open>The used nodes below \<open>j\<close> in their order; the new index of a node is the number of used nodes before it.\<close>

abbreviation used_below :: "nat set \<Rightarrow> nat \<Rightarrow> nat list" where
  "used_below U j \<equiv> filter (\<lambda>i. i \<in> U) [0..<j]"

lemma used_below_nth:
  assumes "i \<in> U" and "i < n"
  shows "length (used_below U i) < length (used_below U n)" and "used_below U n ! length (used_below U i) = i"
proof -
  have "[0..<n] = [0..<i] @ i # [Suc i..<n]"
    using upt_add_eq_append [of 0 i "n - i"] upt_conv_Cons [of i n] assms(2) by simp
  then have "used_below U n = used_below U i @ i # filter (\<lambda>i. i \<in> U) [Suc i..<n]" using assms(1) by simp
  then show "length (used_below U i) < length (used_below U n)" "used_below U n ! length (used_below U i) = i" by simp_all
qed

definition renumbered :: "mesh_data \<Rightarrow> nat set \<Rightarrow> nat \<Rightarrow> renumbering \<Rightarrow> bool" where
  "renumbered m U j r \<longleftrightarrow>
     rn_count r = length (used_below U j) \<and> length (rn_idx r) = length (mesh_nodes m)
   \<and> (\<forall>i < length (mesh_nodes m). rn_idx r ! i = (if i \<notin> U then None else if i < j then Some (length (used_below U i)) else Some i))
   \<and> length (rn_nodes r) = length (mesh_nodes m) \<and> take (rn_count r) (rn_nodes r) = map (nth (mesh_nodes m)) (used_below U j)
   \<and> drop j (rn_nodes r) = drop j (mesh_nodes m)
   \<and> map_ok (rn_ids r) \<and> vals_vec (rn_ids r) = map (nth (vals_vec (node_ids m))) (used_below U j)"

lemma length_used_below: "length (used_below U j) \<le> j"
  by (metis length_filter_le length_upt diff_zero)

lemma renumber_node_step:
  assumes ids: "map_ok (node_ids m)" "length (vals_vec (node_ids m)) = length (mesh_nodes m)"
    and r: "renumbered m U j r" and j: "j < length (mesh_nodes m)"
  shows "\<exists>r'. renumber_node (node_ids m) r j = Inr r' \<and> renumbered m U (Suc j) r'"
proof (cases "j \<in> U")
  case False
  then have "rn_idx r ! j = None" using r j by (simp add: renumbered_def)
  moreover have "drop (Suc j) (rn_nodes r) = drop (Suc j) (mesh_nodes m)" using r
    unfolding renumbered_def by (metis drop_drop plus_1_eq_Suc)
  ultimately show ?thesis using r False by (auto simp: renumber_node_def renumbered_def less_Suc_eq)
next
  case True
  let ?c = "rn_count r" and ?vals = "vals_vec (node_ids m)"
  have idx: "rn_idx r ! j = Some j" using r j True by (simp add: renumbered_def)
  have c: "?c \<le> j" "?c < length (rn_nodes r)" using r j length_used_below [of U j] by (simp_all add: renumbered_def)
  have nj: "rn_nodes r ! j = mesh_nodes m ! j"
  proof -
    have "hd (drop j (rn_nodes r)) = hd (drop j (mesh_nodes m))" using r by (simp add: renumbered_def)
    moreover have "j < length (rn_nodes r)" using r j by (simp add: renumbered_def)
    ultimately show ?thesis using j by (simp add: hd_drop_conv_nth)
  qed
  have val: "value_at (node_ids m) j = Inr (?vals ! j)" using j ids(2) by (simp add: value_at_def)
  have "distinct ?vals" using ids(1) by (simp add: map_ok_def)
  then have ne: "?vals ! i \<noteq> ?vals ! j" if "i < j" for i using that j ids(2) by (simp add: nth_eq_iff_index_eq)
  have new: "?vals ! j \<notin> set (vals_vec (rn_ids r))"
  proof
    assume "?vals ! j \<in> set (vals_vec (rn_ids r))"
    then obtain i where "i \<in> set (used_below U j)" "?vals ! j = ?vals ! i" using r by (auto simp: renumbered_def)
    then show False using ne [of i] by simp
  qed
  have "map_ok (rn_ids r)" using r by (simp add: renumbered_def)
  from add_item_ok [OF this new] obtain new_ids where ni: "add_item (rn_ids r) (?vals ! j) = Inr (length (vals_vec (rn_ids r)), new_ids)"
    "map_ok new_ids" "vals_vec new_ids = vals_vec (rn_ids r) @ [?vals ! j]"
    by blast
  define r' where "r' = \<lparr>rn_idx = (rn_idx r)[j := Some ?c], rn_nodes = (rn_nodes r)[?c := rn_nodes r ! j], rn_ids = new_ids, rn_count = ?c + 1\<rparr>"
  have "renumber_node (node_ids m) r j = Inr r'" using idx val ni(1) by (simp add: renumber_node_def r'_def)
  moreover have "take (?c + 1) ((rn_nodes r)[?c := rn_nodes r ! j]) = take ?c (rn_nodes r) @ [rn_nodes r ! j]"
    using c(2) by (simp add: take_Suc_conv_app_nth)
  moreover have "drop (Suc j) ((rn_nodes r)[?c := rn_nodes r ! j]) = drop (Suc j) (mesh_nodes m)"
  proof -
    have "drop (Suc j) (rn_nodes r) = drop (Suc j) (mesh_nodes m)" using r unfolding renumbered_def by (metis drop_drop plus_1_eq_Suc)
    then show ?thesis using c(1) by simp
  qed
  ultimately show ?thesis
    using r True ni(2,3) nj by (intro exI [of _ r']) (auto simp: renumbered_def r'_def nth_list_update less_Suc_eq)
qed

lemma renumber_nodes:
  assumes ids: "map_ok (node_ids m)" "length (vals_vec (node_ids m)) = length (mesh_nodes m)"
    and "renumbered m U j r" and "j \<le> length (mesh_nodes m)"
  shows "\<exists>r'. fold_res (renumber_node (node_ids m)) r [j..<length (mesh_nodes m)] = Inr r' \<and> renumbered m U (length (mesh_nodes m)) r'"
  using assms(3,4)
proof (induction "length (mesh_nodes m) - j" arbitrary: j r)
  case (Suc n)
  then have j: "j < length (mesh_nodes m)" by simp
  from renumber_node_step [OF ids Suc.prems(1) j] obtain r1 where r1: "renumber_node (node_ids m) r j = Inr r1" "renumbered m U (Suc j) r1"
    by blast
  have "n = length (mesh_nodes m) - Suc j" "Suc j \<le> length (mesh_nodes m)" using Suc.hyps(2) j by simp_all
  from Suc.hyps(1) [OF this(1) r1(2) this(2)] show ?case using r1(1) j by (simp add: upt_conv_Cons)
qed simp

lemma renumber_element_nodes:
  assumes idx: "\<forall>i < n. new_idx ! i = (if i \<in> U then Some (length (used_below U i)) else None)"
    and e: "\<forall>v \<in> set (node_idxs e). v < n \<and> v \<in> U"
  shows "node_idxs (renumber_element new_idx e) = map (\<lambda>v. length (used_below U v)) (node_idxs e)"
proof -
  have "unat (of_nat (length (used_below U (unat v))) :: u32) = length (used_below U (unat v))" for v :: u32
    using length_used_below [of U "unat v"] unat_u32_less [of v] by (simp add: unat_of_nat)
  then show ?thesis using idx e by (auto simp: renumber_element_def node_idxs_def)
qed


text \<open>The nodes of the bulk elements exist.\<close>

definition bulk_nodes :: "mesh_data \<Rightarrow> nat set" where
  "bulk_nodes m = (\<Union>k < mesh_bulk_size m. set (node_idxs (element_vec m ! k)))"

definition nodes_exist :: "mesh_data \<Rightarrow> bool" where
  "nodes_exist m \<longleftrightarrow> list_all (\<lambda>e. list_all (\<lambda>v. v < length (mesh_nodes m)) (node_idxs e)) (take (mesh_bulk_size m) (element_vec m))
     \<and> mesh_bulk_size m \<le> length (element_vec m)"

lemma nodes_exist_nth:
  assumes "nodes_exist m" "k < mesh_bulk_size m"
  shows "\<forall>v \<in> set (node_idxs (element_vec m ! k)). v < length (mesh_nodes m)"
proof -
  have "element_vec m ! k \<in> set (take (mesh_bulk_size m) (element_vec m))" using assms
    unfolding in_set_take_nth nodes_exist_def by (intro exI [of _ k]) simp
  then show ?thesis using assms(1) by (auto simp: nodes_exist_def list_all_iff)
qed

text \<open>What the removal returns: the new nodes \<open>L\<close> in terms of the old ones.\<close>

lemma check_mesh_on_read_spec:
  assumes ids: "map_ok (node_ids m)" "length (vals_vec (node_ids m)) = length (mesh_nodes m)" and ex: "nodes_exist m"
  defines "U \<equiv> bulk_nodes m" and "n \<equiv> length (mesh_nodes m)"
  shows "\<exists>m'. check_mesh_on_read m = Inr m' \<and> mesh_nodes m' = map (nth (mesh_nodes m)) (used_below U n)
    \<and> vals_vec (node_ids m') = map (nth (vals_vec (node_ids m))) (used_below U n) \<and> map_ok (node_ids m')
    \<and> length (element_vec m') = length (element_vec m) \<and> mesh_bulk_size m' = mesh_bulk_size m
    \<and> drop (mesh_bulk_size m) (element_vec m') = drop (mesh_bulk_size m) (element_vec m)
    \<and> (\<forall>k < mesh_bulk_size m. node_idxs (element_vec m' ! k) = map (\<lambda>v. length (used_below U v)) (node_idxs (element_vec m ! k)))
    \<and> (used_below U n = [0..<n] \<longrightarrow> m' = m)"
proof -
  let ?nb = "mesh_bulk_size m" and ?L = "used_below U n"
  have nb: "?nb \<le> length (element_vec m)" using ex by (simp add: nodes_exist_def)
  have nodes: "\<forall>v \<in> set (node_idxs (element_vec m ! k)). v < n \<and> v \<in> U" if "k < ?nb" for k
    using nodes_exist_nth [OF ex that] that by (auto simp: n_def U_def bulk_nodes_def)
  let ?ns = "concat (map (\<lambda>k. node_idxs (element_vec m ! k)) [0..<?nb])"
  have U: "set ?ns = U" by (auto simp: U_def bulk_nodes_def)
  have "\<forall>v \<in> set ?ns. v < length (replicate n (None :: nat option))"
    using nodes unfolding set_concat set_map by auto
  from flag_nodes [OF this, of "{}"] obtain used where used: "fold_res flag_node (replicate n None) ?ns = Inr used" "length used = n"
    "\<forall>i < n. used ! i = (if i \<in> U then Some i else None)"
    unfolding U by auto
  let ?r0 = "\<lparr>rn_idx = used, rn_nodes = mesh_nodes m, rn_ids = empty_map :: int bidirectional_map, rn_count = 0\<rparr>"
  have "renumbered m U 0 ?r0" using used(2,3) empty_map_ok by (auto simp: renumbered_def n_def) (simp add: empty_map_def)
  from renumber_nodes [OF ids this] obtain r where r: "fold_res (renumber_node (node_ids m)) ?r0 [0..<n] = Inr r" "renumbered m U n r"
    by (auto simp: n_def)
  have rc: "rn_count r = length ?L" "take (rn_count r) (rn_nodes r) = map (nth (mesh_nodes m)) ?L"
    "map_ok (rn_ids r)" "vals_vec (rn_ids r) = map (nth (vals_vec (node_ids m))) ?L"
    "\<forall>i < n. rn_idx r ! i = (if i \<in> U then Some (length (used_below U i)) else None)" "length (rn_nodes r) = n"
    using r(2) by (auto simp: renumbered_def n_def)
  have run: "check_mesh_on_read m = (if rn_count r < n
       then Inr (m\<lparr>mesh_nodes := take (rn_count r) (rn_nodes r), node_ids := rn_ids r,
              element_vec := map (renumber_element (rn_idx r)) (take ?nb (element_vec m)) @ drop ?nb (element_vec m)\<rparr>)
       else Inr (m\<lparr>mesh_nodes := rn_nodes r\<rparr>))"
    using used(1,2) r(1) by (simp add: check_mesh_on_read_def flag_used_nodes_def n_def)
  show ?thesis
  proof (cases "rn_count r < n")
    case True
    then have "used_below U n \<noteq> [0..<n]" using rc(1) by auto
    then show ?thesis
      using True run rc(2-4) nb renumber_element_nodes [OF rc(5)] nodes by (auto simp: nth_append)
  next
    case False
    then have "length ?L = length [0..<n]" using rc(1) length_used_below [of U n] by simp
    then have L: "?L = [0..<n]" by (metis filter_id_conv length_filter_less less_irrefl)
    have same: "length (used_below U v) = v" if "v < n" "v \<in> U" for v
      using used_below_nth [OF that(2,1)] that L by simp
    have "map (\<lambda>v. length (used_below U v)) (node_idxs (element_vec m ! k)) = node_idxs (element_vec m ! k)" if "k < ?nb" for k
      using nodes [OF that] same by (intro map_idI) auto
    moreover have "map (nth (mesh_nodes m)) ?L = mesh_nodes m" unfolding L unfolding n_def by (rule map_nth)
    moreover have "map (nth (vals_vec (node_ids m))) ?L = vals_vec (node_ids m)"
      unfolding L unfolding n_def ids(2) [symmetric] by (rule map_nth)
    ultimately show ?thesis using False run rc ids(1) by simp
  qed
qed

lemma used_below_index:
  assumes "j < length (used_below U n)"
  shows "\<exists>i. i \<in> U \<and> i < n \<and> j = length (used_below U i)"
proof (intro exI conjI)
  let ?i = "used_below U n ! j"
  have "?i \<in> set (used_below U n)" using assms by (rule nth_mem)
  then show i: "?i \<in> U" "?i < n" by simp_all
  have "used_below U n ! length (used_below U ?i) = used_below U n ! j" using used_below_nth(2) [OF i] .
  then show "j = length (used_below U ?i)"
    using nth_eq_iff_index_eq [of "used_below U n" "length (used_below U ?i)" j] used_below_nth(1) [OF i] assms by simp
qed

text \<open>
  C10. \<open>check_mesh_on_read\<close> removes the unused nodes and nothing else: it does not fail on a mesh whose
  elements have existing nodes and whose node ids are unique, every bulk element keeps the points and the ids
  of its nodes in their order, afterwards every node is used by a bulk element and has an id, and the boundary part
  of the element vector is as before.
\<close>

theorem unused_nodes_removed:
  assumes "map_ok (node_ids m)" "length (vals_vec (node_ids m)) = length (mesh_nodes m)" and ex: "nodes_exist m"
  shows "\<exists>m'. check_mesh_on_read m = Inr m'
    \<and> (\<forall>k < mesh_bulk_size m.
          map (nth (mesh_nodes m')) (node_idxs (element_vec m' ! k)) = map (nth (mesh_nodes m)) (node_idxs (element_vec m ! k))
        \<and> map (nth (vals_vec (node_ids m'))) (node_idxs (element_vec m' ! k)) = map (nth (vals_vec (node_ids m))) (node_idxs (element_vec m ! k)))
    \<and> bulk_nodes m' = {..<length (mesh_nodes m')} \<and> length (vals_vec (node_ids m')) = length (mesh_nodes m') \<and> map_ok (node_ids m')
    \<and> mesh_bulk_size m' = mesh_bulk_size m \<and> length (element_vec m') = length (element_vec m)
    \<and> drop (mesh_bulk_size m) (element_vec m') = drop (mesh_bulk_size m) (element_vec m)"
proof -
  let ?U = "bulk_nodes m" and ?n = "length (mesh_nodes m)"
  obtain m' where m': "check_mesh_on_read m = Inr m'" "mesh_nodes m' = map (nth (mesh_nodes m)) (used_below ?U ?n)"
    "vals_vec (node_ids m') = map (nth (vals_vec (node_ids m))) (used_below ?U ?n)" "map_ok (node_ids m')"
    "length (element_vec m') = length (element_vec m)" "mesh_bulk_size m' = mesh_bulk_size m"
    "drop (mesh_bulk_size m) (element_vec m') = drop (mesh_bulk_size m) (element_vec m)"
    "\<forall>k < mesh_bulk_size m. node_idxs (element_vec m' ! k) = map (\<lambda>v. length (used_below ?U v)) (node_idxs (element_vec m ! k))"
    using check_mesh_on_read_spec [OF assms] by blast
  have node: "v \<in> ?U \<and> v < ?n" if "k < mesh_bulk_size m" "v \<in> set (node_idxs (element_vec m ! k))" for k v
    using that nodes_exist_nth [OF ex that(1)] by (auto simp: bulk_nodes_def)
  have keep: "map (nth (map (nth xs) (used_below ?U ?n))) (map (\<lambda>v. length (used_below ?U v)) (node_idxs (element_vec m ! k)))
      = map (nth xs) (node_idxs (element_vec m ! k))" if "k < mesh_bulk_size m" for k and xs :: "'x list"
    using node [OF that] used_below_nth by auto
  have "bulk_nodes m' = (\<lambda>v. length (used_below ?U v)) ` ?U" using m'(6,8) by (auto simp: bulk_nodes_def)
  also have "\<dots> = {..<length (used_below ?U ?n)}"
  proof
    have "?U \<subseteq> {..<?n}" using node by (auto simp: bulk_nodes_def)
    then show "(\<lambda>v. length (used_below ?U v)) ` ?U \<subseteq> {..<length (used_below ?U ?n)}" using used_below_nth(1) by blast
    show "{..<length (used_below ?U ?n)} \<subseteq> (\<lambda>v. length (used_below ?U v)) ` ?U" using used_below_index by fastforce
  qed
  finally have "bulk_nodes m' = {..<length (mesh_nodes m')}" using m'(2) by simp
  moreover have "\<forall>k < mesh_bulk_size m.
          map (nth (mesh_nodes m')) (node_idxs (element_vec m' ! k)) = map (nth (mesh_nodes m)) (node_idxs (element_vec m ! k))
        \<and> map (nth (vals_vec (node_ids m'))) (node_idxs (element_vec m' ! k)) = map (nth (vals_vec (node_ids m))) (node_idxs (element_vec m ! k))"
  proof (intro allI impI)
    fix k assume k: "k < mesh_bulk_size m"
    show "map (nth (mesh_nodes m')) (node_idxs (element_vec m' ! k)) = map (nth (mesh_nodes m)) (node_idxs (element_vec m ! k))
        \<and> map (nth (vals_vec (node_ids m'))) (node_idxs (element_vec m' ! k)) = map (nth (vals_vec (node_ids m))) (node_idxs (element_vec m ! k))"
      unfolding spec [OF m'(8), of k, rule_format, OF k] m'(2,3) keep [OF k] by simp
  qed
  moreover have "length (vals_vec (node_ids m')) = length (mesh_nodes m')" unfolding m'(2,3) by simp
  ultimately show ?thesis using m'(1,4-7) by blast
qed


text \<open>
  A triangle on the nodes 2, 3 and 4 with a boundary line on 3 and 4, and a first node that nothing uses. The boundary line keeps
  the positions of its nodes in the old vector, one of which no longer exists.
\<close>

definition unused_cmds :: "mesh_cmd list" where
  "unused_cmds = [Add_Name 1 9 ''.side'', Add_Node 1 [1, 1, 1], Add_Node 2 [0, 0, 0], Add_Node 3 [1, 0, 0], Add_Node 4 [0, 1, 0],
     Add_Element 1 2 6 0 [2, 3, 4], Add_Element 2 1 9 0 [3, 4]]"

definition unused_sample :: "mesh_data option" where
  "unused_sample = (case fold_res mesh_step empty_mesh unused_cmds of Inl e \<Rightarrow> None
     | Inr m \<Rightarrow> case create_boundary_elements m of Inl e \<Rightarrow> None | Inr m' \<Rightarrow> Some m')"

lemma unused_sample_eval:
  "case unused_sample of None \<Rightarrow> False
   | Some m \<Rightarrow> nodes_exist m \<and> length (vals_vec (node_ids m)) = length (mesh_nodes m)
      \<and> mesh_bulk_size m = 1 \<and> length (mesh_nodes m) = 4
      \<and> (case check_mesh_on_read m of Inl e \<Rightarrow> False
         | Inr m' \<Rightarrow> length (mesh_nodes m') = 3 \<and> node_idxs (element_vec m ! 1) = [2, 3] \<and> node_idxs (element_vec m' ! 1) = [2, 3]
             \<and> node_idxs (element_vec m ! 0) = [1, 2, 3] \<and> node_idxs (element_vec m' ! 0) = [0, 1, 2])"
  by code_simp

lemma stale_boundary_nodes:
  "\<exists>m m'. mesh_ok m \<and> nodes_exist m \<and> check_mesh_on_read m = Inr m'
    \<and> node_idxs (element_vec m' ! 1) = node_idxs (element_vec m ! 1) \<and> length (mesh_nodes m') \<le> last (node_idxs (element_vec m' ! 1))"
proof -
  obtain m1 m where m: "fold_res mesh_step empty_mesh unused_cmds = Inr m1" "create_boundary_elements m1 = Inr m" "unused_sample = Some m"
    using unused_sample_eval unfolding unused_sample_def by (auto split: sum.splits)
  have "list_all mesh_cmd_allowed unused_cmds" by (simp add: unused_cmds_def reserved_def)
  from create_boundary_elements_ok(1) [OF building.run_keeps [OF empty_mesh_reading this m(1)] m(2)] have "mesh_ok m" .
  moreover have "nodes_exist m" using unused_sample_eval unfolding m(3) by simp
  moreover have "\<exists>m'. check_mesh_on_read m = Inr m' \<and> node_idxs (element_vec m' ! 1) = node_idxs (element_vec m ! 1)
      \<and> length (mesh_nodes m') \<le> last (node_idxs (element_vec m' ! 1))"
    using unused_sample_eval unfolding m(3) by (auto split: sum.splits)
  ultimately show ?thesis by blast
qed

theorem unused_nodes_removed_witness:
  "\<exists>m m'. unused_sample = Some m \<and> check_mesh_on_read m = Inr m' \<and> length (mesh_nodes m) = 4 \<and> length (mesh_nodes m') = 3
    \<and> bulk_nodes m' = {..<3} \<and> map_ok (node_ids m')"
proof -
  obtain m1 m where m: "fold_res mesh_step empty_mesh unused_cmds = Inr m1" "create_boundary_elements m1 = Inr m" "unused_sample = Some m"
    using unused_sample_eval unfolding unused_sample_def by (auto split: sum.splits)
  have "list_all mesh_cmd_allowed unused_cmds" by (simp add: unused_cmds_def reserved_def)
  from create_boundary_elements_ok(1) [OF building.run_keeps [OF empty_mesh_reading this m(1)] m(2)]
  have ids: "map_ok (node_ids m)" "length (vals_vec (node_ids m)) = length (mesh_nodes m)" by (simp_all add: mesh_ok_def)
  have ev: "nodes_exist m" "length (mesh_nodes m) = 4" "\<forall>m'. check_mesh_on_read m = Inr m' \<longrightarrow> length (mesh_nodes m') = 3"
    using unused_sample_eval unfolding m(3) by (auto split: sum.splits)
  from unused_nodes_removed [OF ids ev(1)] obtain m' where "check_mesh_on_read m = Inr m'" "bulk_nodes m' = {..<length (mesh_nodes m')}"
    "map_ok (node_ids m')" by blast
  then show ?thesis using m(3) ev by auto
qed

end
