(* ===== verification/Mesh_Sides.thy ===== *)
theory Mesh_Sides
  imports Mesh_Setup
begin

text \<open>
  The last steps of the setup of the topology: \<open>element_to_neigh_vb\<close> gives every element its neighbours,
  \<open>make_edge_permutations\<close> every side the permutation of its nodes, and the theorem about the whole sequence of steps.
\<close>

section \<open>Neighbours of elements\<close>

text \<open>A fold of updates changes every element by its own updates in their order.\<close>

lemma fold_update_elem:
  assumes "t' = foldl (\<lambda>t c. update_elem t (tgt c) (f c)) t cs"
  shows "t' = t\<lparr>topo_mesh := (topo_mesh t)\<lparr>element_vec := elems t'\<rparr>\<rparr>" and "length (elems t') = length (elems t)"
    and "k < length (elems t) \<Longrightarrow> elems t' ! k = foldl (\<lambda>e c. f c e) (elems t ! k) (filter (\<lambda>c. tgt c = k) cs)"
proof -
  have "t' = t\<lparr>topo_mesh := (topo_mesh t)\<lparr>element_vec := elems t'\<rparr>\<rparr> \<and> length (elems t') = length (elems t)
    \<and> (\<forall>k < length (elems t). elems t' ! k = foldl (\<lambda>e c. f c e) (elems t ! k) (filter (\<lambda>c. tgt c = k) cs))"
    using assms
  proof (induction cs arbitrary: t)
    case (Cons c cs)
    then have "t' = foldl (\<lambda>t c. update_elem t (tgt c) (f c)) (update_elem t (tgt c) (f c)) cs" by simp
    from Cons.IH [OF this] show ?case by (auto simp: update_elem_def nth_list_update)
  qed simp
  then show "t' = t\<lparr>topo_mesh := (topo_mesh t)\<lparr>element_vec := elems t'\<rparr>\<rparr>" "length (elems t') = length (elems t)"
    "k < length (elems t) \<Longrightarrow> elems t' ! k = foldl (\<lambda>e c. f c e) (elems t ! k) (filter (\<lambda>c. tgt c = k) cs)"
    by blast+
qed

lemma same_vec_trans:
  "s = t\<lparr>topo_mesh := (topo_mesh t)\<lparr>element_vec := a\<rparr>\<rparr> \<Longrightarrow> s' = s\<lparr>topo_mesh := (topo_mesh s)\<lparr>element_vec := b\<rparr>\<rparr>
    \<Longrightarrow> s' = t\<lparr>topo_mesh := (topo_mesh t)\<lparr>element_vec := b\<rparr>\<rparr>"
  by simp

lemma filter_eq_upt: "filter (\<lambda>c. c = k) [0..<n] = (if k < n then [k] else [])"
  by (induction n) (auto simp: less_Suc_eq)

lemma fold_count: "foldl (\<lambda>e c. e\<lparr>n_neighs_vb := Suc (n_neighs_vb e)\<rparr>) e cs = e\<lparr>n_neighs_vb := n_neighs_vb e + length cs\<rparr>"
  by (induction cs arbitrary: e) simp_all

lemma fold_store:
  assumes "neigh_vb e = Some (map Some xs @ replicate (length cs) None)" and "n_neighs_vb e = length xs"
  shows "foldl (\<lambda>e i. e\<lparr>neigh_vb := map_option (\<lambda>a. a[n_neighs_vb e := Some i]) (neigh_vb e), n_neighs_vb := n_neighs_vb e + 1\<rparr>) e cs
    = e\<lparr>neigh_vb := Some (map Some (xs @ cs)), n_neighs_vb := length (xs @ cs)\<rparr>"
  using assms
proof (induction cs arbitrary: e xs)
  case (Cons c cs)
  let ?e = "e\<lparr>neigh_vb := map_option (\<lambda>a. a[n_neighs_vb e := Some c]) (neigh_vb e), n_neighs_vb := n_neighs_vb e + 1\<rparr>"
  have "neigh_vb ?e = Some (map Some (xs @ [c]) @ replicate (length cs) None)" "n_neighs_vb ?e = length (xs @ [c])"
    using Cons.prems by (simp_all add: list_update_append)
  from Cons.IH [OF this] show ?case by simp
qed simp

abbreviation neighbours_at :: "topology \<Rightarrow> nat \<Rightarrow> nat list" where
  "neighbours_at t k \<equiv> filter (\<lambda>i. ngh_elem_idx (vb_neighbours t ! i) = k) [0..<length (vb_neighbours t)]"

lemma length_neighbours_at: "length (filter (\<lambda>n. ngh_elem_idx n = k) (vb_neighbours t)) = length (neighbours_at t k)"
proof -
  have "filter (\<lambda>n. ngh_elem_idx n = k) (vb_neighbours t) = filter (\<lambda>n. ngh_elem_idx n = k) (map (nth (vb_neighbours t)) [0..<length (vb_neighbours t)])"
    by (simp add: map_nth)
  then show ?thesis by (simp add: filter_map comp_def)
qed

definition with_neighbours :: "nat list \<Rightarrow> element \<Rightarrow> element" where
  "with_neighbours is e = e\<lparr>n_neighs_vb := length is, neigh_vb := (if is = [] then neigh_vb e else Some (map Some is))\<rparr>"

lemma element_to_neigh_vb_spec:
  assumes nb: "bulk_of t \<le> length (elems t)" and ng: "\<forall>n \<in> set (vb_neighbours t). ngh_elem_idx n < bulk_of t"
  shows "element_to_neigh_vb t = t\<lparr>topo_mesh := (topo_mesh t)\<lparr>element_vec := elems (element_to_neigh_vb t)\<rparr>\<rparr>"
    and "length (elems (element_to_neigh_vb t)) = length (elems t)"
    and "k < bulk_of t \<Longrightarrow> elems (element_to_neigh_vb t) ! k = with_neighbours (neighbours_at t k) (elems t ! k)"
    and "bulk_of t \<le> k \<Longrightarrow> k < length (elems t) \<Longrightarrow> elems (element_to_neigh_vb t) ! k = elems t ! k"
proof -
  define alloc where "alloc = (\<lambda>e :: element. if n_neighs_vb e > 0 then e\<lparr>neigh_vb := Some (replicate (n_neighs_vb e) None), n_neighs_vb := 0\<rparr> else e)"
  define store where "store = (\<lambda>i (e :: element). e\<lparr>neigh_vb := map_option (\<lambda>a. a[n_neighs_vb e := Some i]) (neigh_vb e), n_neighs_vb := n_neighs_vb e + 1\<rparr>)"
  have alloc: "alloc_neighbours = (\<lambda>t k. update_elem t k alloc)"
    by (auto simp: fun_eq_iff alloc_neighbours_def alloc_def update_elem_def)
  have store: "foldl store_neighbour s xs = foldl (\<lambda>s i. update_elem s (ngh_elem_idx (vb_neighbours t ! i)) (store i)) s xs"
    if "vb_neighbours s = vb_neighbours t" for s xs
    using that by (induction xs arbitrary: s) (simp_all add: store_neighbour_def store_def)
  define t0 where t0: "t0 = foldl (\<lambda>t k. update_elem t k (\<lambda>e. e\<lparr>n_neighs_vb := 0\<rparr>)) t [0..<bulk_of t]"
  define t1 where t1: "t1 = foldl (\<lambda>t n. update_elem t (ngh_elem_idx n) (\<lambda>e. e\<lparr>n_neighs_vb := n_neighs_vb e + 1\<rparr>)) t0 (vb_neighbours t)"
  define t2 where t2: "t2 = foldl (\<lambda>t k. update_elem t k alloc) t1 [0..<bulk_of t]"
  define t3 where t3: "t3 = foldl (\<lambda>s i. update_elem s (ngh_elem_idx (vb_neighbours t ! i)) (store i)) t2 [0..<length (vb_neighbours t)]"
  note s0 = fold_update_elem [OF t0] and s1 = fold_update_elem [OF t1] and s2 = fold_update_elem [OF t2] and s3 = fold_update_elem [OF t3]
  have r0: "t0 = t\<lparr>topo_mesh := (topo_mesh t)\<lparr>element_vec := elems t0\<rparr>\<rparr>" by (rule s0(1))
  have r1: "t1 = t\<lparr>topo_mesh := (topo_mesh t)\<lparr>element_vec := elems t1\<rparr>\<rparr>" by (rule same_vec_trans [OF r0 s1(1)])
  have r2: "t2 = t\<lparr>topo_mesh := (topo_mesh t)\<lparr>element_vec := elems t2\<rparr>\<rparr>" by (rule same_vec_trans [OF r1 s2(1)])
  have r3: "t3 = t\<lparr>topo_mesh := (topo_mesh t)\<lparr>element_vec := elems t3\<rparr>\<rparr>" by (rule same_vec_trans [OF r2 s3(1)])
  have vb: "vb_neighbours t0 = vb_neighbours t" "vb_neighbours t2 = vb_neighbours t" by (subst r0, simp) (subst r2, simp)
  have bulk: "bulk_of t1 = bulk_of t" by (subst r1) simp
  have c1: "foldl count_neighbour t0 (vb_neighbours t) = t1" unfolding t1 count_neighbour_def [abs_def] ..
  have c2: "foldl alloc_neighbours t1 [0..<bulk_of t] = t2" unfolding t2 alloc ..
  have c3: "foldl store_neighbour t2 [0..<length (vb_neighbours t)] = t3" unfolding t3 by (rule store [OF vb(2)])
  have run: "element_to_neigh_vb t = t3"
    unfolding element_to_neigh_vb_def Let_def t0 [symmetric] c1 c2 c3 ..
  have len: "length (elems t0) = length (elems t)" "length (elems t1) = length (elems t)" "length (elems t2) = length (elems t)"
    "length (elems t3) = length (elems t)" using s0(2) s1(2) s2(2) s3(2) by simp_all
  show "element_to_neigh_vb t = t\<lparr>topo_mesh := (topo_mesh t)\<lparr>element_vec := elems (element_to_neigh_vb t)\<rparr>\<rparr>"
    unfolding run by (rule r3)
  show "length (elems (element_to_neigh_vb t)) = length (elems t)" unfolding run by (rule len(4))
  show "elems (element_to_neigh_vb t) ! k = elems t ! k" if "bulk_of t \<le> k" "k < length (elems t)"
  proof -
    have "filter (\<lambda>n. ngh_elem_idx n = k) (vb_neighbours t) = []" "neighbours_at t k = []"
      using ng that(1) by (auto simp: filter_empty_conv) (metis nth_mem leD)
    then show ?thesis unfolding run using s0(3) [of k] s1(3) [of k] s2(3) [of k] s3(3) [of k] len that
      by (simp add: filter_eq_upt)
  qed
  show "elems (element_to_neigh_vb t) ! k = with_neighbours (neighbours_at t k) (elems t ! k)" if k: "k < bulk_of t"
  proof -
    let ?e = "elems t ! k" and ?n = "length (neighbours_at t k)"
    have k': "k < length (elems t)" using k nb by simp
    have "elems t0 ! k = ?e\<lparr>n_neighs_vb := 0\<rparr>" using s0(3) [OF k'] k by (simp add: filter_eq_upt)
    then have 1: "elems t1 ! k = ?e\<lparr>n_neighs_vb := ?n\<rparr>"
      using s1(3) [of k] k' len(1) by (simp add: fold_count length_neighbours_at)
    have 2: "elems t2 ! k = alloc (elems t1 ! k)" using s2(3) [of k] k' len(2) k by (simp add: filter_eq_upt)
    have 3: "elems t3 ! k = foldl (\<lambda>e i. store i e) (elems t2 ! k) (neighbours_at t k)"
      using s3(3) [of k] k' len(3) by simp
    show ?thesis
    proof (cases "neighbours_at t k = []")
      case True
      then show ?thesis unfolding run 3 2 1 by (simp add: alloc_def with_neighbours_def)
    next
      case False
      then have e2: "elems t2 ! k = ?e\<lparr>neigh_vb := Some (replicate ?n None), n_neighs_vb := 0\<rparr>" unfolding 2 1 by (simp add: alloc_def)
      have "neigh_vb (elems t2 ! k) = Some (map Some [] @ replicate ?n None)" "n_neighs_vb (elems t2 ! k) = length ([] :: nat list)"
        unfolding e2 by simp_all
      from fold_store [OF this] show ?thesis using False unfolding run 3 store_def e2 by (simp add: with_neighbours_def)
    qed
  qed
qed


section \<open>Permutations of sides\<close>

lemma node_numbers_nth:
  assumes "distinct ref" and "i < length ref"
  shows "node_numbers ref (ref ! i) = i"
proof -
  have "i < n \<Longrightarrow> n \<le> length ref \<Longrightarrow> foldl (\<lambda>m i. m(ref ! i := i)) (\<lambda>_. 0) [0..<n] (ref ! i) = i" for n
  proof (induction n)
    case (Suc n)
    then show ?case using nth_eq_iff_index_eq [OF assms(1), of i n] assms(2) by (cases "i = n") simp_all
  qed simp
  from this [OF assms(2)] show ?thesis by (simp add: node_numbers_def)
qed

lemma fold_update_inj:
  assumes "inj_on \<sigma> {..<n}" and "\<forall>i < n. \<sigma> i < length p"
  shows "length (foldl (\<lambda>p i. p[\<sigma> i := Some i]) p [0..<n]) = length p
    \<and> (\<forall>i < n. foldl (\<lambda>p i. p[\<sigma> i := Some i]) p [0..<n] ! \<sigma> i = Some i)"
  using assms
proof (induction n)
  case (Suc n)
  have "inj_on \<sigma> {..<n}" using Suc.prems(1) by (rule inj_on_subset) auto
  moreover have "\<forall>i < n. \<sigma> n \<noteq> \<sigma> i" using Suc.prems(1) unfolding inj_on_def by (metis lessI lessThan_iff less_SucI less_irrefl)
  moreover have "\<sigma> n < length p" using Suc.prems(2) by simp
  ultimately show ?case using Suc.IH Suc.prems(2) by (simp add: less_Suc_eq all_conj_distrib)
qed simp

text \<open>The filled array is the permutation that sends the nodes of the side to the reference nodes.\<close>

lemma fill_permutation_spec:
  assumes ref: "distinct ref" and ns: "distinct ns" "set ns = set ref" and p: "length p = length ref"
  obtains q where "fill_permutation ref p ns = map Some q" and "length q = length ref" and "map (nth ns) q = ref"
    and "set q \<subseteq> {..<length ref}"
proof -
  let ?d = "length ref" and ?\<sigma> = "\<lambda>i. node_numbers ref (ns ! i)"
  have d: "length ns = ?d" using distinct_card [OF ref] distinct_card [OF ns(1)] ns(2) by simp
  have \<sigma>: "?\<sigma> i < ?d \<and> ref ! ?\<sigma> i = ns ! i" if i: "i < ?d" for i
  proof -
    have "ns ! i \<in> set ref" using i d ns(2) nth_mem [of i ns] by simp
    then obtain j where "j < ?d" "ref ! j = ns ! i" by (auto simp: in_set_conv_nth)
    then show ?thesis using node_numbers_nth [OF ref, of j] by simp
  qed
  have "inj_on ?\<sigma> {..<?d}"
  proof (rule inj_onI)
    fix i j assume "i \<in> {..<?d}" "j \<in> {..<?d}" "?\<sigma> i = ?\<sigma> j"
    then have "ns ! i = ns ! j" "i < length ns" "j < length ns" using \<sigma> [of i] \<sigma> [of j] d by (metis lessThan_iff)+
    then show "i = j" using nth_eq_iff_index_eq [OF ns(1)] by simp
  qed
  from fold_update_inj [OF this, of p] \<sigma> p
  have f: "length (fill_permutation ref p ns) = ?d" "\<forall>i < ?d. fill_permutation ref p ns ! ?\<sigma> i = Some i"
    by (simp_all add: fill_permutation_def)
  have j: "\<exists>i < ?d. fill_permutation ref p ns ! j = Some i \<and> ns ! i = ref ! j" if "j < ?d" for j
  proof -
    have "ref ! j \<in> set ns" using that ns(2) by simp
    then obtain i where i: "i < ?d" "ns ! i = ref ! j" using d by (auto simp: in_set_conv_nth)
    then show ?thesis using f(2) node_numbers_nth [OF ref that] by (intro exI [of _ i]) auto
  qed
  define q where "q = map (\<lambda>j. the (fill_permutation ref p ns ! j)) [0..<?d]"
  have q: "q ! j < ?d" "fill_permutation ref p ns ! j = Some (q ! j)" "ns ! (q ! j) = ref ! j" if "j < ?d" for j
    using j [OF that] that by (auto simp: q_def)
  have "length q = ?d" by (simp add: q_def)
  moreover have "fill_permutation ref p ns = map Some q" using f(1) q(2) \<open>length q = ?d\<close> by (intro nth_equalityI) auto
  moreover have "map (nth ns) q = ref" using q(3) \<open>length q = ?d\<close> by (intro nth_equalityI) auto
  moreover have "set q \<subseteq> {..<?d}" using q(1) \<open>length q = ?d\<close> by (auto simp: in_set_conv_nth)
  ultimately show thesis using that by blast
qed

lemma permutation_found:
  assumes d: "length q \<in> {1, 2, 3}" and "distinct q" "set q \<subseteq> {..<length q}"
  obtains k where "permutation_index (length q) q = Inr k" and "k < n_side_permutations (length q)" and "side_permutations (length q) ! k = q"
proof -
  have "\<forall>d \<in> set [1, 2, 3]. \<forall>q \<in> set (product_lists (replicate d [0..<d])). distinct q \<longrightarrow>
      (case permutation_index d q of Inr k \<Rightarrow> k < n_side_permutations d \<and> side_permutations d ! k = q | Inl e \<Rightarrow> False)"
    by code_simp
  moreover have "length q \<in> set [1, 2, 3]" using d by simp
  moreover have "q \<in> set (product_lists (replicate (length q) [0..<length q]))"
    using subsetD [OF assms(3) nth_mem] by (auto simp: product_lists_set list_all2_conv_all_nth)
  ultimately have "case permutation_index (length q) q of Inr k \<Rightarrow> k < n_side_permutations (length q) \<and> side_permutations (length q) ! k = q | Inl e \<Rightarrow> False"
    using assms(2) by blast
  then show thesis using that by (cases "permutation_index (length q) q") simp_all
qed

lemma those_map_Some: "those (map Some q) = Some q"
  by (induction q) simp_all

definition aligned :: "nat list \<Rightarrow> nat list \<Rightarrow> nat option \<Rightarrow> bool" where
  "aligned ref ns po \<longleftrightarrow> (\<exists>p < n_side_permutations (length ref). po = Some p \<and> map (nth ns) (side_permutations (length ref) ! p) = ref)"

lemma permutation_of_side_ok:
  assumes ref: "distinct ref" "length ref \<in> {1, 2, 3}" and ns: "distinct ns" "set ns = set ref" and p: "length p = length ref"
  shows "\<exists>p' k. permutation_of_side ref p ns = Inr (p', k) \<and> length p' = length ref \<and> aligned ref ns (Some k)"
proof -
  from fill_permutation_spec [OF ref(1) ns p] obtain q where q: "fill_permutation ref p ns = map Some q" "length q = length ref"
    "map (nth ns) q = ref" "set q \<subseteq> {..<length ref}" .
  have "distinct q" using distinct_map [of "nth ns" q] q(3) ref(1) by simp
  from permutation_found [OF _ this] q ref(2) obtain k where "permutation_index (length ref) q = Inr k"
    "k < n_side_permutations (length ref)" "side_permutations (length ref) ! k = q" by auto
  then show ?thesis using q by (auto simp: permutation_of_side_def those_map_Some aligned_def)
qed

lemma aligned_zero:
  assumes "length ref \<in> {1, 2, 3}"
  shows "aligned ref ref (Some 0)"
proof -
  have "\<forall>d \<in> set [1, 2, 3]. 0 < n_side_permutations d \<and> side_permutations d ! 0 = [0..<d]" by code_simp
  moreover have "length ref \<in> set [1, 2, 3]" using assms by simp
  ultimately have "0 < n_side_permutations (length ref)" "side_permutations (length ref) ! 0 = [0..<length ref]" by blast+
  then show ?thesis by (simp add: aligned_def map_nth)
qed


text \<open>The topology changes in the permutations only.\<close>

definition perm_of :: "topology \<Rightarrow> side \<Rightarrow> nat option" where
  "perm_of t x = permutation_idx (elems t ! fst x) ! snd x"

definition no_perms :: "element \<Rightarrow> element" where
  "no_perms e = e\<lparr>permutation_idx := replicate (length (permutation_idx e)) None\<rparr>"

definition perms_only :: "topology \<Rightarrow> topology \<Rightarrow> bool" where
  "perms_only t t' \<longleftrightarrow> t' = t\<lparr>topo_mesh := (topo_mesh t)\<lparr>element_vec := elems t'\<rparr>\<rparr> \<and> map no_perms (elems t') = map no_perms (elems t)"

lemma perms_only_refl: "perms_only t t"
  by (simp add: perms_only_def)

lemma perms_only_trans: "perms_only t t1 \<Longrightarrow> perms_only t1 t2 \<Longrightarrow> perms_only t t2"
  unfolding perms_only_def using same_vec_trans by auto

lemma perms_only_fields:
  assumes "perms_only t t'"
  shows "edges t' = edges t" "vb_neighbours t' = vb_neighbours t" "bulk_of t' = bulk_of t" "length (elems t') = length (elems t)"
proof -
  have t': "t' = t\<lparr>topo_mesh := (topo_mesh t)\<lparr>element_vec := elems t'\<rparr>\<rparr>" using assms by (simp add: perms_only_def)
  show "edges t' = edges t" "vb_neighbours t' = vb_neighbours t" "bulk_of t' = bulk_of t" by (subst t', simp)+
  show "length (elems t') = length (elems t)" using assms unfolding perms_only_def by (metis length_map)
qed

lemma perms_only_elem:
  assumes "perms_only t t'" and "k < length (elems t)"
  shows "no_perms (elems t' ! k) = no_perms (elems t ! k)"
proof -
  have "map no_perms (elems t') ! k = map no_perms (elems t) ! k" using assms(1) by (simp add: perms_only_def)
  then show ?thesis using assms perms_only_fields(4) [OF assms(1)] by simp
qed

lemma no_permsD:
  assumes "no_perms e' = no_perms e"
  shows "elem_dim e' = elem_dim e" "node_idxs e' = node_idxs e" "edge_idx e' = edge_idx e" "length (permutation_idx e') = length (permutation_idx e)"
    "n_neighs_vb e' = n_neighs_vb e" "neigh_vb e' = neigh_vb e"
  using arg_cong [OF assms, of elem_dim] arg_cong [OF assms, of elem_nodes] arg_cong [OF assms, of edge_idx]
    arg_cong [OF assms, of "\<lambda>e. length (permutation_idx e)"] arg_cong [OF assms, of n_neighs_vb] arg_cong [OF assms, of neigh_vb]
  by (simp_all add: no_perms_def node_idxs_def)

definition side_in :: "topology \<Rightarrow> side \<Rightarrow> bool" where
  "side_in t x \<longleftrightarrow> fst x < length (elems t) \<and> snd x < length (permutation_idx (elems t ! fst x))"

lemma side_shape:
  assumes "map elem_shape (elems t') = map elem_shape (elems t)" and "side_in t x"
  shows "side_in t' x" "side_node_list (elems t') x = side_node_list (elems t) x"
proof -
  have len: "length (elems t') = length (elems t)" using assms(1) by (metis length_map)
  have k: "fst x < length (elems t)" using assms(2) by (simp add: side_in_def)
  have e: "elem_shape (elems t' ! fst x) = elem_shape (elems t ! fst x)" using assms(1) k len by (metis nth_map)
  show "side_in t' x" using elem_shapeD(8) [OF e] assms(2) len by (simp add: side_in_def)
  show "side_node_list (elems t') x = side_node_list (elems t) x" using side_node_list_shape [OF e, of "snd x"] by simp
qed

lemma perms_only_shape: "perms_only t t' \<Longrightarrow> map elem_shape (elems t') = map elem_shape (elems t)"
proof -
  assume "perms_only t t'"
  then have "map elem_shape (map no_perms (elems t')) = map elem_shape (map no_perms (elems t))" by (simp add: perms_only_def)
  moreover have "elem_shape (no_perms e) = elem_shape e" for e
    by (simp add: elem_shape_def no_perms_def arr_ok_def split: option.split)
  ultimately show ?thesis by (simp add: comp_def)
qed

lemma perms_only_sides:
  assumes "perms_only t t'" and "side_in t x"
  shows "side_in t' x" "side_node_list (elems t') x = side_node_list (elems t) x" "edge_of t' x = edge_of t x"
proof -
  show "side_in t' x" "side_node_list (elems t') x = side_node_list (elems t) x"
    using side_shape [OF perms_only_shape [OF assms(1)] assms(2)] by blast+
  have "edge_idx (elems t' ! fst x) = edge_idx (elems t ! fst x)"
    using no_permsD(3) [OF perms_only_elem [OF assms(1)]] assms(2) by (simp add: side_in_def)
  then show "edge_of t' x = edge_of t x" by (simp add: edge_of_def split_def)
qed

lemma set_permutation_facts:
  assumes "side_in t x"
  shows "perms_only t (set_permutation t x p)" and "perm_of (set_permutation t x p) = (perm_of t)(x := Some p)"
proof -
  obtain k s where x: "x = (k, s)" by (cases x)
  have k: "k < length (elems t)" "s < length (permutation_idx (elems t ! k))" using assms by (simp_all add: x side_in_def)
  have "map no_perms ((elems t)[k := (elems t ! k)\<lparr>permutation_idx := (permutation_idx (elems t ! k))[s := Some p]\<rparr>]) = map no_perms (elems t)"
    using k by (simp add: map_update no_perms_def list_update_same_conv)
  then show "perms_only t (set_permutation t x p)"
    by (simp add: perms_only_def set_permutation_def x update_elem_def)
  show "perm_of (set_permutation t x p) = (perm_of t)(x := Some p)"
    using k by (auto simp: fun_eq_iff perm_of_def set_permutation_def x nth_list_update)
qed


text \<open>The sides of an edge, relative to the reference nodes.\<close>

lemma permute_side_step:
  assumes ref: "distinct ref" "length ref \<in> {1, 2, 3}" and x: "side_in t x"
    and ns: "distinct (side_node_list (elems t) x)" "set (side_node_list (elems t) x) = set ref" and p: "length p = length ref"
  shows "\<exists>t' p'. permute_side ref (t, p) x = Inr (t', p') \<and> perms_only t t' \<and> length p' = length ref
    \<and> aligned ref (side_node_list (elems t) x) (perm_of t' x) \<and> (\<forall>y. y \<noteq> x \<longrightarrow> perm_of t' y = perm_of t y)"
proof -
  from permutation_of_side_ok [OF ref ns p] obtain p' k where
    "permutation_of_side ref p (side_node_list (elems t) x) = Inr (p', k)" "length p' = length ref" "aligned ref (side_node_list (elems t) x) (Some k)"
    by blast
  then show ?thesis using set_permutation_facts [OF x, of k] by (simp add: permute_side_def)
qed

lemma permute_sides:
  assumes ref: "distinct ref" "length ref \<in> {1, 2, 3}" and "length p = length ref"
    and "\<forall>x \<in> set xs. side_in t x \<and> distinct (side_node_list (elems t) x) \<and> set (side_node_list (elems t) x) = set ref"
    and "distinct xs"
  shows "\<exists>t' p'. fold_res (permute_side ref) (t, p) xs = Inr (t', p') \<and> perms_only t t'
    \<and> (\<forall>x \<in> set xs. aligned ref (side_node_list (elems t) x) (perm_of t' x)) \<and> (\<forall>y. y \<notin> set xs \<longrightarrow> perm_of t' y = perm_of t y)"
  using assms(3-5)
proof (induction xs arbitrary: t p)
  case Nil
  then show ?case by (simp add: perms_only_refl)
next
  case (Cons x xs)
  from Cons.prems(2) have x: "side_in t x" "distinct (side_node_list (elems t) x)" "set (side_node_list (elems t) x) = set ref" by simp_all
  from permute_side_step [OF ref x Cons.prems(1)] obtain t1 p1 where
    s: "permute_side ref (t, p) x = Inr (t1, p1)" "perms_only t t1" "length p1 = length ref"
      "aligned ref (side_node_list (elems t) x) (perm_of t1 x)" "\<forall>y. y \<noteq> x \<longrightarrow> perm_of t1 y = perm_of t y"
    by blast
  have same: "side_in t1 y" "side_node_list (elems t1) y = side_node_list (elems t) y" if "y \<in> set xs" for y
    using perms_only_sides [OF s(2)] Cons.prems(2) that by simp_all
  have "\<forall>y \<in> set xs. side_in t1 y \<and> distinct (side_node_list (elems t1) y) \<and> set (side_node_list (elems t1) y) = set ref"
    using same Cons.prems(2) by simp
  from Cons.IH [OF s(3) this] Cons.prems(3) obtain t2 p2 where r: "fold_res (permute_side ref) (t1, p1) xs = Inr (t2, p2)" "perms_only t1 t2"
    "\<forall>y \<in> set xs. aligned ref (side_node_list (elems t1) y) (perm_of t2 y)" "\<forall>y. y \<notin> set xs \<longrightarrow> perm_of t2 y = perm_of t1 y"
    by auto
  have "perms_only t t2" by (rule perms_only_trans [OF s(2) r(2)])
  moreover have "\<forall>y \<in> set (x # xs). aligned ref (side_node_list (elems t) y) (perm_of t2 y)"
    using r(3) spec [OF r(4), of x] s(4) same(2) Cons.prems(3) by simp
  moreover have "\<forall>y. y \<notin> set (x # xs) \<longrightarrow> perm_of t2 y = perm_of t y" using r(4) s(5) by simp
  ultimately show ?case using s(1) r(1) by simp
qed

text \<open>All sides of an edge have the nodes of its first side.\<close>

definition edge_ok :: "topology \<Rightarrow> nat \<Rightarrow> bool" where
  "edge_ok t k \<longleftrightarrow> edges t ! k \<noteq> [] \<and> distinct (edges t ! k)
     \<and> (\<forall>x \<in> set (edges t ! k). side_in t x \<and> distinct (side_node_list (elems t) x) \<and> length (side_node_list (elems t) x) \<in> {1, 2, 3}
          \<and> set (side_node_list (elems t) x) = set (side_node_list (elems t) (hd (edges t ! k))))"

text \<open>It depends on the shapes of the elements only, which neither the neighbours nor the permutations change.\<close>

lemma edge_ok_shape:
  assumes sh: "map elem_shape (elems t') = map elem_shape (elems t)" and E: "edges t' = edges t" and ok: "edge_ok t k"
  shows "edge_ok t' k"
proof -
  have x: "side_in t x" if "x \<in> set (edges t ! k)" for x using that ok by (simp add: edge_ok_def)
  have "hd (edges t ! k) \<in> set (edges t ! k)" using ok by (simp add: edge_ok_def)
  note hd = side_shape(2) [OF sh x [OF this]]
  have "\<forall>y \<in> set (edges t ! k). side_in t' y \<and> distinct (side_node_list (elems t') y) \<and> length (side_node_list (elems t') y) \<in> {1, 2, 3}
      \<and> set (side_node_list (elems t') y) = set (side_node_list (elems t') (hd (edges t ! k)))"
  proof (rule ballI)
    fix y assume y: "y \<in> set (edges t ! k)"
    show "side_in t' y \<and> distinct (side_node_list (elems t') y) \<and> length (side_node_list (elems t') y) \<in> {1, 2, 3}
      \<and> set (side_node_list (elems t') y) = set (side_node_list (elems t') (hd (edges t ! k)))"
      unfolding side_shape(2) [OF sh x [OF y]] hd using side_shape(1) [OF sh x [OF y]] ok y unfolding edge_ok_def by blast
  qed
  then show ?thesis using ok unfolding edge_ok_def E by blast
qed

lemma permute_edge_step:
  assumes k: "edge_ok t k"
  defines "ref \<equiv> side_node_list (elems t) (hd (edges t ! k))"
  shows "\<exists>t'. permute_edge t k = Inr t' \<and> perms_only t t'
    \<and> (\<forall>x \<in> set (edges t ! k). aligned ref (side_node_list (elems t) x) (perm_of t' x))
    \<and> (\<forall>y. y \<notin> set (edges t ! k) \<longrightarrow> perm_of t' y = perm_of t y)"
proof -
  obtain x xs where xs: "edges t ! k = x # xs" using k by (cases "edges t ! k") (auto simp: edge_ok_def)
  have x: "side_in t x" "distinct ref" "length ref \<in> {1, 2, 3}" "x \<notin> set xs" "distinct xs"
    using k xs by (simp_all add: edge_ok_def ref_def)
  let ?t = "set_permutation t x 0"
  note s = set_permutation_facts [OF x(1), of 0]
  have same: "side_in ?t y" "side_node_list (elems ?t) y = side_node_list (elems t) y" if "y \<in> set xs" for y
    using perms_only_sides [OF s(1)] k xs that by (simp_all add: edge_ok_def)
  have "\<forall>y \<in> set xs. side_in ?t y \<and> distinct (side_node_list (elems ?t) y) \<and> set (side_node_list (elems ?t) y) = set ref"
    using same k xs by (simp add: edge_ok_def ref_def)
  from permute_sides [OF x(2,3) _ this x(5), of "replicate (length ref) None"] obtain t' p' where
    r: "fold_res (permute_side ref) (?t, replicate (length ref) None) xs = Inr (t', p')" "perms_only ?t t'"
      "\<forall>y \<in> set xs. aligned ref (side_node_list (elems ?t) y) (perm_of t' y)" "\<forall>y. y \<notin> set xs \<longrightarrow> perm_of t' y = perm_of ?t y"
    by auto
  have "permute_edge t k = Inr t'" using r(1) xs by (simp add: permute_edge_def ref_def)
  moreover have "perms_only t t'" by (rule perms_only_trans [OF s(1) r(2)])
  moreover have "aligned ref (side_node_list (elems t) x) (perm_of t' x)"
    using spec [OF r(4), of x] x(4) aligned_zero [OF x(3)] xs by (simp add: s(2) ref_def)
  moreover have "\<forall>y \<in> set xs. aligned ref (side_node_list (elems t) y) (perm_of t' y)" using r(3) same(2) by simp
  moreover have "\<forall>y. y \<notin> set (x # xs) \<longrightarrow> perm_of t' y = perm_of t y" using r(4) by (simp add: s(2))
  ultimately show ?thesis unfolding xs by auto
qed


lemma permute_edges:
  assumes ok: "\<forall>k < length (edges t). edge_ok t k"
    and dj: "\<forall>k < length (edges t). \<forall>j < length (edges t). k \<noteq> j \<longrightarrow> set (edges t ! k) \<inter> set (edges t ! j) = {}"
    and "j \<le> length (edges t)"
  shows "\<exists>t'. fold_res permute_edge t [0..<j] = Inr t' \<and> perms_only t t'
    \<and> (\<forall>k < j. \<forall>x \<in> set (edges t ! k). aligned (side_node_list (elems t) (hd (edges t ! k))) (side_node_list (elems t) x) (perm_of t' x))"
  using assms(3)
proof (induction j)
  case 0
  then show ?case by (simp add: perms_only_refl)
next
  case (Suc j)
  then obtain t1 where t1: "fold_res permute_edge t [0..<j] = Inr t1" "perms_only t t1"
    "\<forall>k < j. \<forall>x \<in> set (edges t ! k). aligned (side_node_list (elems t) (hd (edges t ! k))) (side_node_list (elems t) x) (perm_of t1 x)"
    by auto
  have j: "edge_ok t j" "j < length (edges t)" using ok Suc.prems by simp_all
  note E = perms_only_fields(1) [OF t1(2)]
  from permute_edge_step [OF edge_ok_shape [OF perms_only_shape [OF t1(2)] E j(1)]] obtain t2 where t2: "permute_edge t1 j = Inr t2" "perms_only t1 t2"
    "\<forall>x \<in> set (edges t ! j). aligned (side_node_list (elems t1) (hd (edges t ! j))) (side_node_list (elems t1) x) (perm_of t2 x)"
    "\<forall>y. y \<notin> set (edges t ! j) \<longrightarrow> perm_of t2 y = perm_of t1 y"
    unfolding E by blast
  have same: "side_node_list (elems t1) x = side_node_list (elems t) x" if "x \<in> set (edges t ! j)" for x
    using perms_only_sides(2) [OF t1(2)] that j(1) by (simp add: edge_ok_def)
  have hd: "hd (edges t ! j) \<in> set (edges t ! j)" using j(1) by (simp add: edge_ok_def)
  have "aligned (side_node_list (elems t) (hd (edges t ! k))) (side_node_list (elems t) x) (perm_of t2 x)"
    if k: "k < Suc j" "x \<in> set (edges t ! k)" for k x
  proof (cases "k = j")
    case True
    then show ?thesis using t2(3) k(2) same hd by auto
  next
    case False
    then have "k < j" "set (edges t ! k) \<inter> set (edges t ! j) = {}" using dj k(1) j(2) by simp_all
    then have "k < j" "x \<notin> set (edges t ! j)" using k(2) by blast+
    then show ?thesis using t1(3) spec [OF t2(4), of x] k(2) by simp
  qed
  moreover have "perms_only t t2" by (rule perms_only_trans [OF t1(2) t2(2)])
  ultimately show ?case using t1(1) t2(1) by (auto simp: fold_res_append)
qed

text \<open>A neighbour whose edge has one side.\<close>

definition neighbour_ok :: "topology \<Rightarrow> neighbour \<Rightarrow> bool" where
  "neighbour_ok t n \<longleftrightarrow> (\<exists>x. edges t ! ngh_edge_idx n = [x] \<and> side_in t x \<and> distinct (side_node_list (elems t) x)
     \<and> set (side_node_list (elems t) x) = set (node_idxs (elems t ! ngh_elem_idx n)))
   \<and> ngh_elem_idx n < length (elems t) \<and> distinct (node_idxs (elems t ! ngh_elem_idx n))
   \<and> length (node_idxs (elems t ! ngh_elem_idx n)) \<in> {1, 2, 3}"

abbreviation ngh_side :: "topology \<Rightarrow> neighbour \<Rightarrow> side" where
  "ngh_side t n \<equiv> hd (edges t ! ngh_edge_idx n)"

lemma permute_neighbour_step:
  assumes po: "perms_only t t1" and n: "neighbour_ok t n"
  shows "\<exists>t2. permute_neighbour t1 n = Inr t2 \<and> perms_only t t2
    \<and> aligned (node_idxs (elems t ! ngh_elem_idx n)) (side_node_list (elems t) (ngh_side t n)) (perm_of t2 (ngh_side t n))
    \<and> (\<forall>y. y \<noteq> ngh_side t n \<longrightarrow> perm_of t2 y = perm_of t1 y)"
proof -
  let ?ref = "node_idxs (elems t ! ngh_elem_idx n)"
  obtain x where x: "edges t ! ngh_edge_idx n = [x]" "side_in t x" "distinct (side_node_list (elems t) x)"
    "set (side_node_list (elems t) x) = set ?ref" and l: "ngh_elem_idx n < length (elems t)" and ref: "distinct ?ref" "length ?ref \<in> {1, 2, 3}"
    using n by (auto simp: neighbour_ok_def)
  have same: "side_in t1 x" "side_node_list (elems t1) x = side_node_list (elems t) x"
    using perms_only_sides [OF po x(2)] by simp_all
  have ref1: "node_idxs (elems t1 ! ngh_elem_idx n) = ?ref" using no_permsD(2) [OF perms_only_elem [OF po l]] .
  from permute_side_step [OF ref same(1), of "replicate (length ?ref) None", unfolded same(2), OF x(3,4)] obtain t2 p2 where
    t2: "permute_side ?ref (t1, replicate (length ?ref) None) x = Inr (t2, p2)" "perms_only t1 t2"
      "aligned ?ref (side_node_list (elems t) x) (perm_of t2 x)" "\<forall>y. y \<noteq> x \<longrightarrow> perm_of t2 y = perm_of t1 y"
    by auto
  have "permute_neighbour t1 n = Inr t2" using t2(1) x(1) ref1 by (simp add: permute_neighbour_def perms_only_fields(1) [OF po])
  then show ?thesis using t2(3,4) perms_only_trans [OF po t2(2)] by (intro exI [of _ t2]) (simp add: x(1))
qed

lemma permute_neighbours:
  assumes "\<forall>n \<in> set ns. neighbour_ok t n"
  shows "\<exists>t'. fold_res permute_neighbour t ns = Inr t' \<and> perms_only t t'
    \<and> (\<forall>x. (\<exists>n \<in> set ns. ngh_side t n = x) \<longrightarrow> (\<exists>n \<in> set ns. ngh_side t n = x
          \<and> aligned (node_idxs (elems t ! ngh_elem_idx n)) (side_node_list (elems t) x) (perm_of t' x)))
    \<and> (\<forall>x. (\<forall>n \<in> set ns. ngh_side t n \<noteq> x) \<longrightarrow> perm_of t' x = perm_of t x)"
  using assms
proof (induction ns rule: rev_induct)
  case Nil
  then show ?case by (simp add: perms_only_refl)
next
  case (snoc n ns)
  then obtain t1 where t1: "fold_res permute_neighbour t ns = Inr t1" "perms_only t t1"
    and old: "\<And>x. \<exists>n \<in> set ns. ngh_side t n = x \<Longrightarrow> \<exists>n \<in> set ns. ngh_side t n = x
          \<and> aligned (node_idxs (elems t ! ngh_elem_idx n)) (side_node_list (elems t) x) (perm_of t1 x)"
    and free: "\<And>x. \<forall>n \<in> set ns. ngh_side t n \<noteq> x \<Longrightarrow> perm_of t1 x = perm_of t x"
    by auto
  from snoc.prems have "neighbour_ok t n" by simp
  from permute_neighbour_step [OF t1(2) this] obtain t2 where t2: "permute_neighbour t1 n = Inr t2" "perms_only t t2"
    and new: "aligned (node_idxs (elems t ! ngh_elem_idx n)) (side_node_list (elems t) (ngh_side t n)) (perm_of t2 (ngh_side t n))"
    and keep: "\<And>y. y \<noteq> ngh_side t n \<Longrightarrow> perm_of t2 y = perm_of t1 y"
    by blast
  have "\<exists>n' \<in> set (ns @ [n]). ngh_side t n' = x \<and> aligned (node_idxs (elems t ! ngh_elem_idx n')) (side_node_list (elems t) x) (perm_of t2 x)"
    if x: "\<exists>n' \<in> set (ns @ [n]). ngh_side t n' = x" for x
  proof (cases "x = ngh_side t n")
    case True
    then show ?thesis using new by (intro bexI [of _ n]) simp_all
  next
    case False
    then have "\<exists>n \<in> set ns. ngh_side t n = x" using x by auto
    from old [OF this] show ?thesis unfolding keep [OF False] by auto
  qed
  moreover have "perm_of t2 x = perm_of t x" if "\<forall>n' \<in> set (ns @ [n]). ngh_side t n' \<noteq> x" for x
    using free [of x] keep [of x] that by auto
  ultimately show ?case using t1(1) t2(1,2) by (auto simp: fold_res_append)
qed


section \<open>The setup of the topology\<close>

lemma with_neighbours_sel:
  "elem_shape (with_neighbours is e) = elem_shape e" "edge_idx (with_neighbours is e) = edge_idx e"
  "permutation_idx (with_neighbours is e) = permutation_idx e" "node_idxs (with_neighbours is e) = node_idxs e"
  by (simp_all add: with_neighbours_def elem_shape_def arr_ok_def node_idxs_def split: option.split)

text \<open>What the steps after the edges need.\<close>

lemma topo_sides:
  assumes inv: "topo_inv es nb nn t" and x: "x \<in> sides_of es nb"
  shows "side_in t x" "side_node_list (elems t) x = side_node_list es x" "distinct (side_node_list es x)"
    "length (side_node_list es x) = dim_of (es ! fst x)" "dim_of (es ! fst x) \<in> {1, 2, 3}"
proof -
  note I = topo_invD [OF inv]
  obtain k s where ks: "x = (k, s)" "k < nb" "s \<le> dim_of (es ! k)" using x by (auto simp: sides_of_def)
  note sh = elem_shapeD [OF I(5) [OF ks(2)]]
  show "side_in t x" using I(4) I(11) [OF ks(2)] sh(8) ks by (simp add: side_in_def)
  show "side_node_list (elems t) x = side_node_list es x" unfolding ks(1) by (rule side_node_list_shape [OF I(5) [OF ks(2)]])
  show "distinct (side_node_list es x)" "length (side_node_list es x) = dim_of (es ! fst x)"
    using side_nodes_facts(2,3) [OF I(1) [OF ks(2)] ks(3)] by (simp_all add: ks(1))
  show "dim_of (es ! fst x) \<in> {1, 2, 3}" using I(1) [OF ks(2)] by (simp add: ks(1) simplex_ok_def)
qed

lemma topo_edge_ok:
  assumes inv: "topo_inv es nb nn t" and k: "k < length (edges t)"
  shows "edge_ok t k"
proof -
  note I = edges_invD [OF topo_invD(9) [OF inv]]
  have ne: "edges t ! k \<noteq> []" "distinct (edges t ! k)" using I(2) [OF k] by simp_all
  then have hd: "hd (edges t ! k) \<in> set (edges t ! k)" by simp
  have "side_in t x \<and> distinct (side_node_list (elems t) x) \<and> length (side_node_list (elems t) x) \<in> {1, 2, 3}
      \<and> set (side_node_list (elems t) x) = set (side_node_list (elems t) (hd (edges t ! k)))" if x: "x \<in> set (edges t ! k)" for x
  proof -
    note X = I(3) [OF k x] and H = I(3) [OF k hd]
    note S = topo_sides [OF inv conjunct1 [OF X]] and T = topo_sides [OF inv conjunct1 [OF H]]
    have "side_key es x = side_key es (hd (edges t ! k))"
      using I(5) [OF conjunct1 [OF X] conjunct1 [OF H]] X H by (cases "x = hd (edges t ! k)") auto
    then have "set (side_node_list es x) = set (side_node_list es (hd (edges t ! k)))" by (simp add: side_key_def)
    then show ?thesis unfolding S(2) T(2) S(4) by (intro conjI S(1,3,5))
  qed
  then show ?thesis unfolding edge_ok_def using ne by blast
qed

lemma topo_edges_disjoint:
  assumes inv: "topo_inv es nb nn t" and "k < length (edges t)" "j < length (edges t)" "k \<noteq> j"
  shows "set (edges t ! k) \<inter> set (edges t ! j) = {}"
proof -
  note I = edges_invD [OF topo_invD(9) [OF inv]]
  have False if "x \<in> set (edges t ! k)" "x \<in> set (edges t ! j)" for x
    using I(3) [OF assms(2) that(1)] I(3) [OF assms(3) that(2)] assms(4) by simp
  then show ?thesis by blast
qed

lemma topo_neighbour_ok:
  assumes inv: "topo_inv es nb nn t" and n: "n \<in> set (vb_neighbours t)"
  shows "neighbour_ok t n" and "ngh_elem_idx n < nb"
proof -
  note I = edges_invD [OF topo_invD(9) [OF inv]] and D = topo_invD [OF inv]
  obtain x where x: "x \<in> sides_of es nb" "edge_of t x = Some (ngh_edge_idx n)" "lower_elem es nb (side_key es x) (ngh_elem_idx n)"
    using n I(6) by blast
  let ?E = "edges t ! ngh_edge_idx n"
  have k: "ngh_edge_idx n < length (edges t)" "x \<in> set ?E" using I(1) [OF x(1,2)] by simp_all
  have "y = x" if y: "y \<in> set ?E" for y
  proof (rule ccontr)
    assume "y \<noteq> x"
    have "edge_of t x = edge_of t y" "y \<in> sides_of es nb" using I(3) [OF k(1) y] x(2) by simp_all
    then show False using I(5) [OF x(1) _ \<open>y \<noteq> x\<close> [symmetric]] x(2,3) by fastforce
  qed
  then have "set ?E = {x}" using k(2) by blast
  then have E: "?E = [x]" using I(2) [OF k(1)] by (cases ?E) (auto simp: subset_singleton_iff)
  from x(3) show l: "ngh_elem_idx n < nb" by (simp add: lower_elem_def)
  note S = topo_sides [OF inv x(1)]
  have low: "set (node_idxs (es ! ngh_elem_idx n)) = set (side_node_list es x)" using x(3) by (simp add: lower_elem_def side_key_def)
  have ln: "distinct (node_idxs (es ! ngh_elem_idx n))" using D(1) [OF l] by (simp add: simplex_ok_def)
  then have len: "length (node_idxs (es ! ngh_elem_idx n)) = length (side_node_list es x)"
    using distinct_card [OF ln] distinct_card [OF S(3)] low by simp
  then show "neighbour_ok t n"
    unfolding neighbour_ok_def elem_shapeD(6) [OF D(5) [OF l]]
  proof (intro conjI exI [of _ x])
    show "?E = [x]" by (rule E)
    show "side_in t x" "distinct (side_node_list (elems t) x)" unfolding S(2) by (rule S(1), rule S(3))
    show "set (side_node_list (elems t) x) = set (node_idxs (es ! ngh_elem_idx n))" unfolding S(2) low ..
    show "ngh_elem_idx n < length (elems t)" using l D(4) by simp
    show "distinct (node_idxs (es ! ngh_elem_idx n))" by (rule ln)
    show "length (node_idxs (es ! ngh_elem_idx n)) \<in> {1, 2, 3}" unfolding len S(4) by (rule S(5))
  qed
qed


lemma neighbour_ok_shape:
  assumes sh: "map elem_shape (elems t') = map elem_shape (elems t)" and E: "edges t' = edges t" and ok: "neighbour_ok t n"
  shows "neighbour_ok t' n"
proof -
  obtain x where x: "edges t ! ngh_edge_idx n = [x]" "side_in t x" "distinct (side_node_list (elems t) x)"
    "set (side_node_list (elems t) x) = set (node_idxs (elems t ! ngh_elem_idx n))" and l: "ngh_elem_idx n < length (elems t)"
    using ok by (auto simp: neighbour_ok_def)
  have "length (elems t') = length (elems t)" using sh by (metis length_map)
  moreover have "elem_shape (elems t' ! ngh_elem_idx n) = elem_shape (elems t ! ngh_elem_idx n)" using sh l calculation by (metis nth_map)
  note ref = elem_shapeD(6) [OF this]
  ultimately show ?thesis using ok l unfolding neighbour_ok_def E ref
  proof (intro conjI exI [of _ x])
    show "side_in t' x" "distinct (side_node_list (elems t') x)" using side_shape [OF sh x(2)] x(3) by simp_all
    show "set (side_node_list (elems t') x) = set (node_idxs (elems t ! ngh_elem_idx n))" unfolding side_shape(2) [OF sh x(2)] by (rule x(4))
  qed (use x(1) in simp_all)
qed

text \<open>The permutations of all sides, on any topology whose edges and neighbours are as \<open>make_neighbours_and_edges\<close> leaves them.\<close>

definition side_aligned :: "topology \<Rightarrow> topology \<Rightarrow> side \<Rightarrow> bool" where
  "side_aligned t t' x \<longleftrightarrow> (\<exists>k ref. edge_of t x = Some k \<and> aligned ref (side_node_list (elems t) x) (perm_of t' x)
     \<and> (if \<exists>n \<in> set (vb_neighbours t). ngh_edge_idx n = k
        then \<exists>n \<in> set (vb_neighbours t). ngh_edge_idx n = k \<and> ref = node_idxs (elems t ! ngh_elem_idx n)
        else ref = side_node_list (elems t) (hd (edges t ! k))))"

lemma make_edge_permutations_ok:
  assumes E: "\<forall>k < length (edges t). edge_ok t k"
    and dj: "\<forall>k < length (edges t). \<forall>j < length (edges t). k \<noteq> j \<longrightarrow> set (edges t ! k) \<inter> set (edges t ! j) = {}"
    and N: "\<forall>n \<in> set (vb_neighbours t). neighbour_ok t n \<and> ngh_edge_idx n < length (edges t)"
  shows "\<exists>t'. make_edge_permutations t = Inr t' \<and> perms_only t t'
    \<and> (\<forall>k < length (edges t). \<forall>x \<in> set (edges t ! k). edge_of t x = Some k \<longrightarrow> side_aligned t t' x)"
proof -
  from permute_edges [OF E dj order_refl] obtain t1 where t1: "fold_res permute_edge t [0..<length (edges t)] = Inr t1" "perms_only t t1"
    "\<forall>k < length (edges t). \<forall>x \<in> set (edges t ! k). aligned (side_node_list (elems t) (hd (edges t ! k))) (side_node_list (elems t) x) (perm_of t1 x)"
    by blast
  note F = perms_only_fields [OF t1(2)] and sh = perms_only_shape [OF t1(2)]
  have N1: "\<forall>n \<in> set (vb_neighbours t). neighbour_ok t1 n" using neighbour_ok_shape [OF sh F(1)] N by blast
  from permute_neighbours [OF N1] obtain t2 where t2: "fold_res permute_neighbour t1 (vb_neighbours t) = Inr t2" "perms_only t1 t2"
    and own: "\<And>x. \<exists>n \<in> set (vb_neighbours t). ngh_side t1 n = x \<Longrightarrow> \<exists>n \<in> set (vb_neighbours t). ngh_side t1 n = x
          \<and> aligned (node_idxs (elems t1 ! ngh_elem_idx n)) (side_node_list (elems t1) x) (perm_of t2 x)"
    and free: "\<And>x. \<forall>n \<in> set (vb_neighbours t). ngh_side t1 n \<noteq> x \<Longrightarrow> perm_of t2 x = perm_of t1 x"
    by blast
  have "side_aligned t t2 x" if k: "k < length (edges t)" and x: "x \<in> set (edges t ! k)" and eo: "edge_of t x = Some k" for k x
  proof -
    have "side_in t x" using E k x by (simp add: edge_ok_def)
    note same = perms_only_sides(2) [OF t1(2) this]
    have side: "ngh_side t1 n = x \<longleftrightarrow> ngh_edge_idx n = k" if n: "n \<in> set (vb_neighbours t)" for n
    proof
      obtain y where y: "edges t ! ngh_edge_idx n = [y]" using N n by (auto simp: neighbour_ok_def)
      { assume "ngh_edge_idx n = k"
        then show "ngh_side t1 n = x" using x y F(1) by simp }
      assume "ngh_side t1 n = x"
      then have "x \<in> set (edges t ! ngh_edge_idx n)" using y F(1) by simp
      then show "ngh_edge_idx n = k" using dj N n k x by blast
    qed
    show ?thesis
    proof (cases "\<exists>n \<in> set (vb_neighbours t). ngh_edge_idx n = k")
      case True
      then obtain n where n: "n \<in> set (vb_neighbours t)" "ngh_edge_idx n = k"
        "aligned (node_idxs (elems t1 ! ngh_elem_idx n)) (side_node_list (elems t) x) (perm_of t2 x)"
        using own [of x] side unfolding same by blast
      have "node_idxs (elems t1 ! ngh_elem_idx n) = node_idxs (elems t ! ngh_elem_idx n)"
        using no_permsD(2) [OF perms_only_elem [OF t1(2)]] N n(1) by (auto simp: neighbour_ok_def)
      then show ?thesis using n eo True unfolding side_aligned_def by auto
    next
      case False
      then have "perm_of t2 x = perm_of t1 x" using free [of x] side by blast
      then show ?thesis using t1(3) k x eo False unfolding side_aligned_def by auto
    qed
  qed
  moreover have "make_edge_permutations t = Inr t2" using t1(1) t2(1) F(2) by (simp add: make_edge_permutations_def)
  ultimately show ?thesis using perms_only_trans [OF t1(2) t2(2)] by blast
qed

text \<open>The counters of sides.\<close>

lemma count_sides_fold:
  "foldl (\<lambda>(a, b) x. if P x then (a, b + 1) else (a + 1, b)) (a, b) xs = (a + length (filter (\<lambda>x. \<not> P x) xs), b + length (filter P xs))"
  by (induction xs arbitrary: a b) auto

lemma sides_list:
  assumes "\<forall>k < nb. dim_of (es ! k) \<in> {1, 2, 3}"
  defines "L \<equiv> concat (map (\<lambda>k. map (\<lambda>s. (k, s)) [0..<n_nodes_of (elem_dim (es ! k))]) [0..<nb])"
  shows "set L = sides_of es nb" and "distinct L"
proof -
  show "set L = sides_of es nb" 
  proof (rule set_eqI)
    fix x :: side
    obtain k s where x: "x = (k, s)" by (cases x)
    have "x \<in> set L \<longleftrightarrow> k < nb \<and> s < n_nodes_of (elem_dim (es ! k))"
      unfolding L_def x by (force simp: image_iff)
    then show "x \<in> set L \<longleftrightarrow> x \<in> sides_of es nb" using assms(1) by (auto simp: x sides_of_def n_nodes_of_dim)
  qed
  have "inj_on (\<lambda>k. map (\<lambda>s. (k, s)) [0..<n_nodes_of (elem_dim (es ! k))]) {..<nb}"
  proof (rule inj_onI)
    fix k j assume k: "k \<in> {..<nb}" and "map (\<lambda>s. (k, s)) [0..<n_nodes_of (elem_dim (es ! k))] = map (\<lambda>s. (j, s)) [0..<n_nodes_of (elem_dim (es ! j))]"
    then have "(k, 0 :: nat) \<in> set (map (\<lambda>s. (j, s)) [0..<n_nodes_of (elem_dim (es ! j))])"
      using assms(1) by (metis (no_types, lifting) add_gr_0 atLeastLessThan_iff imageI le0 lessThan_iff less_one list.set_map n_nodes_of_dim set_upt)
    then show "k = j" by auto
  qed
  then have "distinct (map (\<lambda>k. map (\<lambda>s. (k, s)) [0..<n_nodes_of (elem_dim (es ! k))]) [0..<nb])"
    by (simp add: distinct_map atLeast0LessThan)
  then show "distinct L" unfolding L_def by (rule distinct_concat) (auto simp: distinct_map inj_on_def)
qed


lemma count_side_types_ok:
  assumes dims: "\<forall>k < bulk_of t. dim_of (elems t ! k) \<in> {1, 2, 3}" and c: "count_side_types t = (n_in, n_ex)"
  shows "n_in + n_ex = card (sides_of (elems t) (bulk_of t))" and "n_ex = card {x \<in> sides_of (elems t) (bulk_of t). is_external t x}"
proof -
  let ?L = "concat (map (\<lambda>k. map (\<lambda>s. (k, s)) [0..<n_nodes_of (elem_dim (elems t ! k))]) [0..<bulk_of t])"
  note L = sides_list [OF dims]
  have "n_in = length (filter (\<lambda>x. \<not> is_external t x) ?L)" "n_ex = length (filter (is_external t) ?L)"
    using c unfolding count_side_types_def count_sides_fold by simp_all
  moreover have "length (filter (is_external t) ?L) + length (filter (\<lambda>x. \<not> is_external t x) ?L) = length ?L"
    by (rule sum_length_filter_compl)
  ultimately show "n_in + n_ex = card (sides_of (elems t) (bulk_of t))" using distinct_card [OF L(2)] L(1) by simp
  have "card (set (filter (is_external t) ?L)) = length (filter (is_external t) ?L)" by (rule distinct_card) (rule distinct_filter [OF L(2)])
  then show "n_ex = card {x \<in> sides_of (elems t) (bulk_of t). is_external t x}"
    using \<open>n_ex = _\<close> L(1) by (simp only: set_filter)
qed

lemma check_mesh_on_read_all_used:
  assumes "map_ok (node_ids m)" "length (vals_vec (node_ids m)) = length (mesh_nodes m)" "nodes_exist m"
    and used: "bulk_nodes m = {..<length (mesh_nodes m)}"
  shows "check_mesh_on_read m = Inr m"
proof -
  have "used_below (bulk_nodes m) (length (mesh_nodes m)) = [0..<length (mesh_nodes m)]" unfolding used by simp
  with check_mesh_on_read_spec [OF assms(1-3)] show ?thesis by auto
qed

lemma simplices_nodes_exist:
  assumes "simplices_ok m"
  shows "nodes_exist m"
proof -
  have "list_all (\<lambda>v. v < length (mesh_nodes m)) (node_idxs e)" if "fresh_element (length (mesh_nodes m)) e" for e
    using that by (simp add: fresh_element_def simplex_ok_def list_all_iff)
  then show ?thesis using assms unfolding simplices_ok_def nodes_exist_def list_all_iff by blast
qed


text \<open>What the final topology \<open>t\<close> has.\<close>

definition neighbours_listed :: "topology \<Rightarrow> bool" where
  "neighbours_listed t \<longleftrightarrow> (\<forall>k < bulk_of t. n_neighs_vb (elems t ! k) = length (neighbours_at t k)
     \<and> (neighbours_at t k \<noteq> [] \<longrightarrow> neigh_vb (elems t ! k) = Some (map Some (neighbours_at t k))))"

lemma setup_steps:
  assumes inv: "topo_inv es nb nn t" and eo: "\<forall>x \<in> sides_of es nb. edge_of t x \<noteq> None"
  shows "\<exists>t'. make_edge_permutations (element_to_neigh_vb t) = Inr t' \<and> neighbours_listed t'
    \<and> (\<forall>x \<in> sides_of es nb. side_aligned t' t' x) \<and> edges t' = edges t \<and> vb_neighbours t' = vb_neighbours t \<and> bulk_of t' = nb
    \<and> map elem_shape (elems t') = map elem_shape (elems t) \<and> (\<forall>x \<in> sides_of es nb. edge_of t' x = edge_of t x)"
proof -
  let ?t1 = "element_to_neigh_vb t"
  note D = topo_invD [OF inv] and I = edges_invD [OF topo_invD(9) [OF inv]]
  have "\<forall>n \<in> set (vb_neighbours t). ngh_elem_idx n < bulk_of t" "bulk_of t \<le> length (elems t)"
    using topo_neighbour_ok(2) [OF inv] D(4,6) by simp_all
  note N = element_to_neigh_vb_spec [OF this(2,1)]
  have F: "edges ?t1 = edges t" "vb_neighbours ?t1 = vb_neighbours t" "bulk_of ?t1 = bulk_of t" by (subst N(1), simp)+
  have el: "elem_shape (elems ?t1 ! k) = elem_shape (elems t ! k) \<and> edge_idx (elems ?t1 ! k) = edge_idx (elems t ! k)" if "k < length (elems t)" for k
    using N(3) [of k] N(4) [of k] that by (cases "k < bulk_of t") (simp_all add: with_neighbours_sel)
  have sh: "map elem_shape (elems ?t1) = map elem_shape (elems t)" by (rule nth_equalityI) (simp_all add: N(2) el)
  have eo1: "edge_of ?t1 x = edge_of t x" if "x \<in> sides_of es nb" for x
    using el [of "fst x"] that D(4) by (auto simp: edge_of_def sides_of_def)
  have "\<forall>k < length (edges ?t1). edge_ok ?t1 k" unfolding F using edge_ok_shape [OF sh F(1) topo_edge_ok [OF inv]] by blast
  moreover have "\<forall>k < length (edges ?t1). \<forall>j < length (edges ?t1). k \<noteq> j \<longrightarrow> set (edges ?t1 ! k) \<inter> set (edges ?t1 ! j) = {}"
    unfolding F using topo_edges_disjoint [OF inv] by blast
  moreover have "\<forall>n \<in> set (vb_neighbours ?t1). neighbour_ok ?t1 n \<and> ngh_edge_idx n < length (edges ?t1)"
    unfolding F
  proof (intro ballI conjI)
    fix n assume n: "n \<in> set (vb_neighbours t)"
    show "neighbour_ok ?t1 n" by (rule neighbour_ok_shape [OF sh F(1) topo_neighbour_ok(1) [OF inv n]])
    from n I(6) obtain x where "x \<in> sides_of es nb" "edge_of t x = Some (ngh_edge_idx n)" by blast
    then show "ngh_edge_idx n < length (edges t)" using I(1) by blast
  qed
  ultimately obtain t' where t': "make_edge_permutations ?t1 = Inr t'" "perms_only ?t1 t'"
    and al: "\<And>k x. k < length (edges t) \<Longrightarrow> x \<in> set (edges t ! k) \<Longrightarrow> edge_of ?t1 x = Some k \<Longrightarrow> side_aligned ?t1 t' x"
    using make_edge_permutations_ok [of ?t1] unfolding F by blast
  note P = perms_only_fields [OF t'(2)]
  have in1: "side_in ?t1 x" if "x \<in> sides_of es nb" for x using side_shape(1) [OF sh topo_sides(1) [OF inv that]] .
  note S = perms_only_sides [OF t'(2) in1]
  have nodes: "node_idxs (elems t' ! ngh_elem_idx n) = node_idxs (elems ?t1 ! ngh_elem_idx n)" if "n \<in> set (vb_neighbours t)" for n
    using no_permsD(2) [OF perms_only_elem [OF t'(2)]] topo_neighbour_ok(2) [OF inv that] D(4) N(2) by simp
  have "side_aligned t' t' x" if x: "x \<in> sides_of es nb" for x
  proof -
    obtain k where k: "edge_of t x = Some k" using eo x by blast
    note kx = I(1) [OF x k]
    have "side_aligned ?t1 t' x" by (rule al [of k]) (use kx eo1 [OF x] k in simp_all)
    have hd: "hd (edges t ! k) \<in> sides_of es nb" using I(2,3) [of k] kx by auto
    have cond: "(\<exists>n \<in> set (vb_neighbours t). ngh_edge_idx n = k \<and> ref = node_idxs (elems t' ! ngh_elem_idx n))
        \<longleftrightarrow> (\<exists>n \<in> set (vb_neighbours t). ngh_edge_idx n = k \<and> ref = node_idxs (elems ?t1 ! ngh_elem_idx n))" for ref
      using nodes by (intro bex_cong) auto
    obtain ref where "aligned ref (side_node_list (elems ?t1) x) (perm_of t' x)"
      "if \<exists>n \<in> set (vb_neighbours t). ngh_edge_idx n = k
       then \<exists>n \<in> set (vb_neighbours t). ngh_edge_idx n = k \<and> ref = node_idxs (elems ?t1 ! ngh_elem_idx n)
       else ref = side_node_list (elems ?t1) (hd (edges t ! k))"
      using \<open>side_aligned ?t1 t' x\<close> k unfolding side_aligned_def eo1 [OF x] F by fastforce
    then show ?thesis
      unfolding side_aligned_def S(3) [OF x] eo1 [OF x] k S(2) [OF x] P F cond [symmetric] S(2) [OF hd, symmetric] by blast
  qed
  moreover have "neighbours_listed t'"
    unfolding neighbours_listed_def P F
  proof (intro allI impI)
    fix k assume k: "k < bulk_of t"
    then have "n_neighs_vb (elems t' ! k) = n_neighs_vb (elems ?t1 ! k)" "neigh_vb (elems t' ! k) = neigh_vb (elems ?t1 ! k)"
      using no_permsD(5,6) [OF perms_only_elem [OF t'(2)]] N(2) D(4,6) by simp_all
    then show "n_neighs_vb (elems t' ! k) = length (neighbours_at t k)
        \<and> (neighbours_at t k \<noteq> [] \<longrightarrow> neigh_vb (elems t' ! k) = Some (map Some (neighbours_at t k)))"
      using N(3) [OF k] by (simp add: with_neighbours_def)
  qed
  moreover have "bulk_of t' = nb" using P(3) F(3) D(6) by simp
  moreover have "map elem_shape (elems t') = map elem_shape (elems t)" using perms_only_shape [OF t'(2)] sh by simp
  ultimately show ?thesis using t'(1) P(1,2) F(1,2) S(3) eo1 by (intro exI [of _ t']) simp
qed


text \<open>The whole sequence, when all nodes are used.\<close>

definition set_up :: "mesh_data \<Rightarrow> topology \<Rightarrow> topology \<Rightarrow> bool" where
  "set_up m t0 t \<longleftrightarrow> topo_inv (element_vec m) (mesh_bulk_size m) (length (mesh_nodes m)) t0
     \<and> (\<forall>x \<in> sides_of (element_vec m) (mesh_bulk_size m). edge_of t0 x \<noteq> None \<and> edge_of t x = edge_of t0 x \<and> side_aligned t t x)
     \<and> edges t = edges t0 \<and> vb_neighbours t = vb_neighbours t0 \<and> bulk_of t = mesh_bulk_size m \<and> neighbours_listed t
     \<and> map elem_shape (elems t) = map elem_shape (elems t0)"

lemma setup_topology_steps:
  assumes ok: "simplices_ok m" "mesh_ok m" and used: "bulk_nodes m = {..<length (mesh_nodes m)}"
  shows "case setup_topology m c of Inl e \<Rightarrow> \<exists>e'. e = SetupTopo e' \<and> user_error e'
    | Inr (t, c', n) \<Rightarrow> count_side_types t = n \<and> (\<exists>t0. set_up m t0 t)"
proof -
  let ?es = "element_vec m" and ?nb = "mesh_bulk_size m"
  have "check_mesh_on_read m = Inr m"
    using check_mesh_on_read_all_used [OF _ _ simplices_nodes_exist [OF ok(1)] used] ok(2) by (simp add: mesh_ok_def)
  then have run: "setup_topology m c = bind_res (map_err SetupTopo (make_neighbours_and_edges (new_topology m))) (\<lambda>t.
      bind_res (make_edge_permutations (element_to_neigh_vb t)) (\<lambda>t'. Inr (t', count_element_types (new_topology m) c, count_side_types t')))"
    by (simp add: setup_topology_def)
  have spec: "case make_neighbours_and_edges (new_topology m) of Inl e \<Rightarrow> user_error e
    | Inr t \<Rightarrow> topo_inv ?es ?nb (length (mesh_nodes m)) t \<and> (\<forall>x \<in> sides_of ?es ?nb. edge_of t x \<noteq> None)"
    using make_neighbours_and_edges_spec [OF ok(1)] ok(2) by (simp add: mesh_ok_def)
  show ?thesis
  proof (cases "make_neighbours_and_edges (new_topology m)")
    case (Inl e)
    then show ?thesis using spec run by simp
  next
    case (Inr t)
    then have t: "topo_inv ?es ?nb (length (mesh_nodes m)) t" "\<forall>x \<in> sides_of ?es ?nb. edge_of t x \<noteq> None" using spec by simp_all
    from setup_steps [OF t] obtain t' where t': "make_edge_permutations (element_to_neigh_vb t) = Inr t'" "set_up m t t'"
      using t unfolding set_up_def by blast
    then show ?thesis using run Inr by auto
  qed
qed

lemma set_up_elem:
  assumes "set_up m t0 t" and "k < mesh_bulk_size m"
  shows "elem_shape (elems t ! k) = elem_shape (element_vec m ! k)" and "dim_of (elems t ! k) = dim_of (element_vec m ! k)"
    and "dim_of (element_vec m ! k) \<in> {1, 2, 3}"
proof -
  have inv: "topo_inv (element_vec m) (mesh_bulk_size m) (length (mesh_nodes m)) t0" and sh: "map elem_shape (elems t) = map elem_shape (elems t0)"
    using assms(1) by (simp_all add: set_up_def)
  have len: "k < length (elems t0)" "length (elems t) = length (elems t0)"
    using assms(2) topo_invD(4) [OF inv] map_eq_imp_length_eq [OF sh] by simp_all
  then have "elem_shape (elems t ! k) = elem_shape (elems t0 ! k)" using sh by (metis nth_map)
  then show e: "elem_shape (elems t ! k) = elem_shape (element_vec m ! k)" using topo_invD(5) [OF inv assms(2)] by simp
  show "dim_of (elems t ! k) = dim_of (element_vec m ! k)" using elem_shapeD(1) [OF e] by simp
  show "dim_of (element_vec m ! k) \<in> {1, 2, 3}" using topo_invD(1) [OF inv assms(2)] by (simp add: simplex_ok_def)
qed

lemma set_up_external:
  assumes su: "set_up m t0 t" and x: "x \<in> sides_of (element_vec m) (mesh_bulk_size m)"
  shows "is_external t x \<longleftrightarrow> (\<exists>k. edge_of t x = Some k \<and> edges t ! k = [x])"
proof -
  have su': "topo_inv (element_vec m) (mesh_bulk_size m) (length (mesh_nodes m)) t0" "edge_of t x = edge_of t0 x" "edge_of t0 x \<noteq> None" "edges t = edges t0"
    using su x by (simp_all add: set_up_def)
  obtain k where k: "edge_of t0 x = Some k" using su'(3) by blast
  have "x \<in> set (edges t ! k)" using edges_invD(1) [OF topo_invD(9) [OF su'(1)] x k] su'(4) by simp
  then have "length (edges t ! k) = 1 \<longleftrightarrow> edges t ! k = [x]" by (auto simp: length_Suc_conv)
  moreover have "is_external t x \<longleftrightarrow> length (edges t ! k) = 1" using su'(2) k by (auto simp: is_external_def edge_of_def split_def)
  ultimately show ?thesis using su'(2) k by simp
qed

section \<open>Properties\<close>


text \<open>The three triangles with a line, whose last node is used.\<close>

lemma setup_sample_eval:
  "case fold_res mesh_step empty_mesh topo_cmds of Inl e \<Rightarrow> False
   | Inr m1 \<Rightarrow> case create_boundary_elements m1 of Inl e \<Rightarrow> False
   | Inr m \<Rightarrow> simplices_ok m \<and> list_all (\<lambda>v. list_ex (\<lambda>k. v \<in> set (node_idxs (element_vec m ! k))) [0..<mesh_bulk_size m]) [0..<length (mesh_nodes m)]
      \<and> mesh_bulk_size m = 4 \<and> length (mesh_nodes m) = 5
      \<and> (case setup_topology m \<lparr>cnt_lines = 0, cnt_triangles = 0, cnt_tetrahedras = 0\<rparr> of Inl e \<Rightarrow> False
         | Inr (t, c, n_in, n_ex) \<Rightarrow> (cnt_lines c, cnt_triangles c, cnt_tetrahedras c) = (1, 3, 0) \<and> (n_in, n_ex) = (2, 9))"
  by code_simp

lemma setup_sample:
  "\<exists>m t c. simplices_ok m \<and> mesh_ok m \<and> bulk_nodes m = {..<length (mesh_nodes m)} \<and> mesh_bulk_size m = 4 \<and> length (mesh_nodes m) = 5
    \<and> setup_topology m \<lparr>cnt_lines = 0, cnt_triangles = 0, cnt_tetrahedras = 0\<rparr> = Inr (t, c, 2, 9)"
proof -
  let ?c = "\<lparr>cnt_lines = 0, cnt_triangles = 0, cnt_tetrahedras = 0\<rparr>"
  obtain m1 m t c where m: "fold_res mesh_step empty_mesh topo_cmds = Inr m1" "create_boundary_elements m1 = Inr m" "simplices_ok m"
    and u: "list_all (\<lambda>v. list_ex (\<lambda>k. v \<in> set (node_idxs (element_vec m ! k))) [0..<mesh_bulk_size m]) [0..<length (mesh_nodes m)]"
    and n: "mesh_bulk_size m = 4" "length (mesh_nodes m) = 5" and t: "setup_topology m ?c = Inr (t, c, 2, 9)"
    using setup_sample_eval by (auto split: sum.splits)
  have "list_all mesh_cmd_allowed topo_cmds" by (simp add: topo_cmds_def reserved_def)
  from create_boundary_elements_ok(1) [OF building.run_keeps [OF empty_mesh_reading this m(1)] m(2)] have ok: "mesh_ok m" .
  have "bulk_nodes m = {..<length (mesh_nodes m)}"
  proof
    show "bulk_nodes m \<subseteq> {..<length (mesh_nodes m)}" using nodes_exist_nth [OF simplices_nodes_exist [OF m(3)]] by (auto simp: bulk_nodes_def)
    show "{..<length (mesh_nodes m)} \<subseteq> bulk_nodes m" using u by (fastforce simp: bulk_nodes_def list_all_iff list_ex_iff)
  qed
  then show ?thesis using m(3) ok n t by blast
qed


end
