(* ===== verification/Sparse_Graph.thy ===== *)
theory Sparse_Graph
  imports Distribution "HOL-Library.Product_Lexorder" "HOL-Library.Multiset"
begin

text \<open>
  The distributed graph that the partitioning of the mesh works on, \<open>SparseGraph\<close> of \<open>src/src/la/sparse_graph.hh\<close> and
  \<open>sparse_graph.cc\<close>. The graphs of all processors are a list in the order of their ranks; \<open>MPI_Alltoallv\<close> hands every
  processor what the others hold for it, in that order. The arrays \<open>rows\<close>, \<open>adj\<close> and \<open>adj_weights\<close> are allocated and not
  initialized: \<open>None\<close> is such an entry. Positions of vertices serve ParMETIS only and the graphs of PETSc and
  METIS differ in allocation and in the library that makes the partition, which is a parameter elsewhere.
\<close>

section \<open>Model\<close>

datatype graph_error = GraphNoProc int | GraphOutOfRange nat | GraphUninit nat | GraphFuel

type_synonym 'a graph_res = "(graph_error, 'a) res"

record graph_edge =
  ge_from :: int
  ge_to :: int
  ge_weight :: int

record sparse_graph =
  vtx_distr :: distribution
  adj_of_proc :: "graph_edge list list"
  graph_rows :: "nat option list"
  graph_adj :: "int option list"
  graph_weights :: "int option list"

definition new_graph :: "distribution \<Rightarrow> sparse_graph" where
  "new_graph d = \<lparr>vtx_distr = d, adj_of_proc = replicate (num_of_procs d) [], graph_rows = [], graph_adj = [], graph_weights = []\<rparr>"

text \<open>The stack of a processor has its top in front. An owner that does not exist is a read outside the vector of stacks.\<close>

definition set_edge :: "sparse_graph \<Rightarrow> int \<times> int \<times> int \<Rightarrow> sparse_graph graph_res" where
  "set_edge g = (\<lambda>(a, b, w).
     let p = unat (get_proc (vtx_distr g) (word_of_int a)) in
     if p < length (adj_of_proc g)
     then Inr (g\<lparr>adj_of_proc := (adj_of_proc g)[p := \<lparr>ge_from = a, ge_to = b, ge_weight = w\<rparr> # adj_of_proc g ! p]\<rparr>)
     else Inl (GraphNoProc a))"

definition edge_less :: "graph_edge \<Rightarrow> graph_edge \<Rightarrow> bool" where
  "edge_less a b \<longleftrightarrow> ge_from a < ge_from b \<or> (ge_from a = ge_from b \<and> ge_to a < ge_to b)"

definition received :: "sparse_graph list \<Rightarrow> nat \<Rightarrow> graph_edge list" where
  "received gs p = concat (map (\<lambda>g. adj_of_proc g ! p) gs)"

text \<open>
  \<open>std::sort\<close> by the order of edges; of edges with the same ends it may put any first, here it is the first received.
\<close>

definition sort_edges :: "graph_edge list \<Rightarrow> graph_edge list" where
  "sort_edges = sort_key (\<lambda>e. (ge_from e, ge_to e))"

definition vec_put :: "nat \<Rightarrow> 'a \<Rightarrow> 'a option list \<Rightarrow> 'a option list graph_res" where
  "vec_put k v xs = (if k < length xs then Inr (xs[k := Some v]) else Inl (GraphOutOfRange k))"

record csr =
  csr_row :: nat
  csr_iadj :: nat
  csr_rows :: "nat option list"
  csr_adj :: "int option list"
  csr_weights :: "int option list"
  csr_last :: graph_edge

text \<open>One turn of the loop: position \<open>i\<close> in the sorted edges, \<open>b\<close> the first vertex of this processor.\<close>

definition store_edge :: "int \<Rightarrow> csr \<Rightarrow> nat \<times> graph_edge \<Rightarrow> csr graph_res" where
  "store_edge b s = (\<lambda>(i, e).
     if \<not> edge_less (csr_last s) e then Inr s
     else let loc_from = nat (ge_from e - b) in
       bind_res (fold_res (\<lambda>r k. vec_put k i r) (csr_rows s) [csr_row s + 1..<loc_from + 1]) (\<lambda>rows.
       bind_res (vec_put (csr_iadj s) (ge_to e) (csr_adj s)) (\<lambda>adj.
       bind_res (vec_put (csr_iadj s) (ge_weight e) (csr_weights s)) (\<lambda>wts.
         Inr \<lparr>csr_row = max (csr_row s) loc_from, csr_iadj = csr_iadj s + 1, csr_rows = rows, csr_adj = adj,
              csr_weights = wts, csr_last = e\<rparr>))))"

definition build_csr :: "int \<Rightarrow> nat \<Rightarrow> graph_edge list \<Rightarrow> (nat option list \<times> int option list \<times> int option list) graph_res" where
  "build_csr b lsize es =
     (let size = length es; rows = Some 0 # replicate lsize None; adj = replicate (size + 1) None in
      if size = 0 then Inr (rows, adj, adj)
      else bind_res (fold_res (store_edge b)
             \<lparr>csr_row = 0, csr_iadj = 0, csr_rows = rows, csr_adj = adj, csr_weights = adj,
              csr_last = \<lparr>ge_from = - 1, ge_to = - 1, ge_weight = 0\<rparr>\<rparr> (enumerate 0 es)) (\<lambda>s.
           bind_res (vec_put (csr_row s + 1) size (csr_rows s)) (\<lambda>rows'.
             Inr (rows', csr_adj s, csr_weights s))))"

definition finalize_graph :: "sparse_graph list \<Rightarrow> nat \<Rightarrow> sparse_graph graph_res" where
  "finalize_graph gs p =
     (let g = gs ! p; d = vtx_distr g in
      bind_res (build_csr (uint (begin_of d (my_proc d))) (unat (lsize_of d (my_proc d))) (sort_edges (received gs p))) (\<lambda>(r, a, w).
        Inr (g\<lparr>adj_of_proc := replicate (num_of_procs d) [], graph_rows := r, graph_adj := a, graph_weights := w\<rparr>)))"

text \<open>The entries of a row, as every reader of the graph walks over them.\<close>

definition row_of :: "sparse_graph \<Rightarrow> nat \<Rightarrow> int list graph_res" where
  "row_of g v =
     (case (graph_rows g ! v, graph_rows g ! (v + 1)) of
        (Some i, Some j) \<Rightarrow>
          (case those (map (\<lambda>k. graph_adj g ! k) [i..<j]) of Some ns \<Rightarrow> Inr ns | None \<Rightarrow> Inl (GraphUninit v))
      | _ \<Rightarrow> Inl (GraphUninit v))"

text \<open>
  \<open>is_symmetric\<close>. When the inner loop finds nothing, the code still compares the entry behind the row of the column.
\<close>

definition row_has :: "sparse_graph \<Rightarrow> nat \<Rightarrow> int \<Rightarrow> bool graph_res" where
  "row_has g c row =
     (case (graph_rows g ! c, graph_rows g ! (c + 1)) of
        (Some i, Some j) \<Rightarrow>
          (let k = (case find (\<lambda>k. graph_adj g ! k = Some row) [i..<j] of Some k \<Rightarrow> k | None \<Rightarrow> max i j)
           in if k < length (graph_adj g) then Inr (graph_adj g ! k = Some row) else Inl (GraphOutOfRange k))
      | _ \<Rightarrow> Inl (GraphUninit c))"

definition entry_symmetric :: "sparse_graph \<Rightarrow> nat \<Rightarrow> bool \<Rightarrow> int \<Rightarrow> bool graph_res" where
  "entry_symmetric g v acc col =
     (let b = uint (begin_of (vtx_distr g) (my_proc (vtx_distr g))) in
      if \<not> acc then Inr False
      else if is_local (vtx_distr g) (word_of_int col) then row_has g (nat (col - b)) (int v + b)
      else Inr True)"

definition is_symmetric :: "sparse_graph \<Rightarrow> bool graph_res" where
  "is_symmetric g =
     fold_res (\<lambda>acc v. if \<not> acc then Inr False else bind_res (row_of g v) (\<lambda>ns. fold_res (entry_symmetric g v) True ns)) True
       [0..<unat (lsize_of (vtx_distr g) (my_proc (vtx_distr g)))]"

text \<open>
  The search through the part of a vertex, with the colours 0, 1 and 2. One unit of fuel for every vertex is enough, since a
  vertex is entered only when it is white and is then marked.
\<close>

fun DFS :: "nat \<Rightarrow> sparse_graph \<Rightarrow> (nat \<Rightarrow> int) \<Rightarrow> int \<Rightarrow> (nat \<Rightarrow> nat) \<Rightarrow> nat \<Rightarrow> (nat \<Rightarrow> nat) graph_res" where
  "DFS 0 g part proc col v = Inl GraphFuel"
| "DFS (Suc fuel) g part proc col v =
     bind_res (row_of g v) (\<lambda>ns.
     bind_res (fold_res (\<lambda>col n.
         if part (nat n) = proc \<and> col (nat n) = 0 then DFS fuel g part proc (col(nat n := 1)) (nat n) else Inr col) col ns) (\<lambda>col.
       Inr (col(v := 2))))"

record connectivity =
  checked_vtx :: "nat \<Rightarrow> nat"
  checked_proc :: "int set"
  n_proc :: nat
  disconnected :: "(int \<times> nat) list"

definition check_vertex :: "sparse_graph \<Rightarrow> (nat \<Rightarrow> int) \<Rightarrow> connectivity \<Rightarrow> nat \<Rightarrow> connectivity graph_res" where
  "check_vertex g part s v =
     (if \<not> n_proc s < num_of_procs (vtx_distr g) \<or> checked_vtx s v = 2 then Inr s
      else bind_res (DFS (unat (dist_size (vtx_distr g))) g part (part v) ((checked_vtx s)(v := 1)) v) (\<lambda>col.
        Inr (s\<lparr>checked_vtx := col, checked_proc := insert (part v) (checked_proc s), n_proc := n_proc s + 1,
               disconnected := disconnected s @ (if part v \<in> checked_proc s then [(part v, v)] else [])\<rparr>)))"

definition check_subgraph_connectivity :: "sparse_graph \<Rightarrow> (nat \<Rightarrow> int) \<Rightarrow> (int \<times> nat) list graph_res" where
  "check_subgraph_connectivity g part =
     bind_res (fold_res (check_vertex g part)
       \<lparr>checked_vtx = (\<lambda>_. 0), checked_proc = {}, n_proc = 0, disconnected = []\<rparr> [0..<unat (dist_size (vtx_distr g))]) (\<lambda>s.
       Inr (disconnected s))"


section \<open>The rows of the graph\<close>

lemma fold_put:
  assumes "c \<le> length xs"
  shows "\<exists>ys. fold_res (\<lambda>r k. vec_put k i r) xs [a..<c] = Inr ys \<and> length ys = length xs
    \<and> (\<forall>k. ys ! k = (if a \<le> k \<and> k < c then Some i else xs ! k))"
  using assms
proof (induction c)
  case (Suc c)
  then obtain ys where ys: "fold_res (\<lambda>r k. vec_put k i r) xs [a..<c] = Inr ys" "length ys = length xs"
    "\<forall>k. ys ! k = (if a \<le> k \<and> k < c then Some i else xs ! k)"
    by auto
  show ?case
  proof (cases "a \<le> c")
    case True
    then have "fold_res (\<lambda>r k. vec_put k i r) xs [a..<Suc c] = Inr (ys[c := Some i])"
      using ys(1,2) Suc.prems by (simp add: fold_res_append vec_put_def)
    then show ?thesis using ys(2,3) Suc.prems True by (auto simp: nth_list_update less_Suc_eq)
  next
    case False
    then show ?thesis by (intro exI [of _ xs]) auto
  qed
qed simp

text \<open>In a list sorted by edges, those that start before a vertex come first.\<close>

abbreviation starts_before :: "int \<Rightarrow> graph_edge list \<Rightarrow> nat" where
  "starts_before c es \<equiv> length (filter (\<lambda>e. ge_from e < c) es)"

lemma filter_split:
  assumes "j \<le> length xs" "\<forall>k < j. P (xs ! k)" "\<forall>k. j \<le> k \<longrightarrow> k < length xs \<longrightarrow> \<not> P (xs ! k)"
  shows "filter P xs = take j xs"
proof -
  have "filter P (take j xs) = take j xs" "filter P (drop j xs) = []"
    using assms by (auto simp: filter_id_conv filter_empty_conv in_set_take_nth in_set_drop_nth)
  then show ?thesis using filter_append [of P "take j xs" "drop j xs"] by simp
qed

lemma sorted_edges_from:
  assumes "sorted_wrt edge_less es" and "i \<le> j" "j < length es"
  shows "ge_from (es ! i) \<le> ge_from (es ! j)"
  using sorted_wrt_nth_less [OF assms(1), of i j] assms(2,3) by (cases "i = j") (auto simp: edge_less_def)

lemma sorted_edges_before:
  assumes es: "sorted_wrt edge_less es"
  shows "filter (\<lambda>e. ge_from e < c) es = take (starts_before c es) es"
    and "k < length es \<Longrightarrow> ge_from (es ! k) < c \<longleftrightarrow> k < starts_before c es"
proof -
  let ?P = "\<lambda>e. ge_from e < c"
  let ?j = "length (takeWhile ?P es)"
  have j: "?j \<le> length es" by (rule length_takeWhile_le)
  have before: "?P (es ! k)" if "k < ?j" for k using nth_mem [OF that] set_takeWhileD takeWhile_nth [OF that] by metis
  have after: "\<not> ?P (es ! k)" if "?j \<le> k" "k < length es" for k
  proof -
    have "?j < length es" using that by simp
    then have "\<not> ?P (es ! ?j)" by (rule nth_length_takeWhile)
    then show ?thesis using sorted_edges_from [OF es that] by simp
  qed
  have f: "filter ?P es = take ?j es" by (rule filter_split [OF j]) (use before after in blast)+
  then have "starts_before c es = ?j" using j by simp
  then show "filter ?P es = take (starts_before c es) es" "k < length es \<Longrightarrow> ?P (es ! k) \<longleftrightarrow> k < starts_before c es"
    using f before [of k] after [of k] by (simp, metis not_le)
qed

lemma drop_take_nth: "j \<le> length xs \<Longrightarrow> drop i (take j xs) = map (nth xs) [i..<j]"
  by (rule nth_equalityI) auto

lemma sorted_edges_row:
  assumes es: "sorted_wrt edge_less es"
  shows "map (nth es) [starts_before c es..<starts_before (c + 1) es] = filter (\<lambda>e. ge_from e = c) es"
proof -
  let ?i = "starts_before c es" and ?j = "starts_before (c + 1) es"
  note F = sorted_edges_before(1) [OF es] and lt = sorted_edges_before(2) [OF es]
  have len: "?i \<le> length es" "?j \<le> length es" by simp_all
  have "filter (\<lambda>e. ge_from e = c) es = filter (\<lambda>e. \<not> ge_from e < c) (filter (\<lambda>e. ge_from e < c + 1) es)"
    unfolding filter_filter by (rule filter_cong) auto
  also have "\<dots> = filter (\<lambda>e. \<not> ge_from e < c) (take ?j es)" by (rule arg_cong [OF F])
  also have "\<dots> = drop ?i (take ?j es)"
  proof -
    have "take ?j es = take ?i (take ?j es) @ drop ?i (take ?j es)"
      by (rule append_take_drop_id [symmetric])
    moreover have "filter (\<lambda>e. \<not> ge_from e < c) (take ?i (take ?j es)) = []"
      using lt len by (auto simp: filter_empty_conv in_set_take_nth)
    moreover have "filter (\<lambda>e. \<not> ge_from e < c) (drop ?i (take ?j es)) = drop ?i (take ?j es)"
    proof -
      have "\<not> ge_from e < c" if "e \<in> set (drop ?i (take ?j es))" for e
      proof -
        from in_set_drop_nth [THEN iffD1, OF that] obtain k where "?i \<le> k" "k < length (take ?j es)" "take ?j es ! k = e"
          by (elim exE conjE)
        then have "k < length es" "es ! k = e" using len(2) by (simp_all only: length_take nth_take min_less_iff_conj)
        from lt [OF this(1), of c] show ?thesis unfolding \<open>es ! k = e\<close> using \<open>?i \<le> k\<close> by linarith
      qed
      then show ?thesis by (intro filter_True ballI)
    qed
    ultimately show ?thesis by (metis append_Nil filter_append)
  qed
  also have "\<dots> = map (nth es) [?i..<?j]"
    by (rule drop_take_nth [OF len(2)])
  finally show ?thesis ..
qed


text \<open>After \<open>j\<close> edges of the sorted list: the rows up to the current one are complete.\<close>

definition csr_done :: "int \<Rightarrow> nat \<Rightarrow> graph_edge list \<Rightarrow> nat \<Rightarrow> csr \<Rightarrow> bool" where
  "csr_done b n es j s \<longleftrightarrow>
     csr_iadj s = j \<and> csr_row s = (if j = 0 then 0 else nat (ge_from (es ! (j - 1)) - b))
   \<and> (if j = 0 then csr_last s = \<lparr>ge_from = - 1, ge_to = - 1, ge_weight = 0\<rparr> else csr_last s = es ! (j - 1))
   \<and> length (csr_rows s) = n + 1 \<and> (\<forall>v \<le> csr_row s. csr_rows s ! v = Some (starts_before (b + int v) es))
   \<and> csr_adj s = map (Some \<circ> ge_to) (take j es) @ replicate (length es + 1 - j) None
   \<and> csr_weights s = map (Some \<circ> ge_weight) (take j es) @ replicate (length es + 1 - j) None"

lemma put_next:
  assumes "j < length es"
  shows "vec_put j (f (es ! j)) (map (Some \<circ> f) (take j es) @ replicate (length es + 1 - j) None)
    = Inr (map (Some \<circ> f) (take (Suc j) es) @ replicate (length es + 1 - Suc j) None)"
proof -
  have "replicate (length es + 1 - j) None = None # replicate (length es + 1 - Suc j) None"
    using assms by (metis Suc_diff_Suc add.commute less_Suc_eq plus_1_eq_Suc replicate_Suc)
  then show ?thesis unfolding \<open>replicate _ _ = _\<close> using assms by (simp add: vec_put_def list_update_append take_Suc_conv_app_nth)
qed

lemma store_edge_step:
  assumes es: "sorted_wrt edge_less es" and rng: "\<forall>e \<in> set es. b \<le> ge_from e \<and> ge_from e < b + int n" and b: "0 \<le> b"
    and s: "csr_done b n es j s" and j: "j < length es"
  shows "\<exists>s'. store_edge b s (j, es ! j) = Inr s' \<and> csr_done b n es (Suc j) s'"
proof -
  let ?e = "es ! j" and ?loc = "nat (ge_from (es ! j) - b)"
  have e: "b \<le> ge_from ?e" "ge_from ?e < b + int n" using rng j by simp_all
  have new: "edge_less (csr_last s) ?e"
  proof (cases "j = 0")
    case True
    then show ?thesis using s e(1) b by (simp add: csr_done_def edge_less_def)
  next
    case False
    then show ?thesis using s sorted_wrt_nth_less [OF es, of "j - 1" j] j by (simp add: csr_done_def)
  qed
  have row: "csr_row s \<le> ?loc"
    using s sorted_edges_from [OF es, of "j - 1" j] j by (auto simp: csr_done_def)
  have "?loc + 1 \<le> length (csr_rows s)" using s e by (simp add: csr_done_def)
  from fold_put [OF this, of j "csr_row s + 1"] obtain rows where rows:
    "fold_res (\<lambda>r k. vec_put k j r) (csr_rows s) [csr_row s + 1..<?loc + 1] = Inr rows" "length rows = length (csr_rows s)"
    "\<forall>k. rows ! k = (if csr_row s + 1 \<le> k \<and> k < ?loc + 1 then Some j else csr_rows s ! k)"
    by blast
  have count: "starts_before (b + int v) es = j" if v: "csr_row s < v" "v \<le> ?loc" for v
  proof -
    have "\<not> ge_from ?e < b + int v" using v(2) e(1) by simp
    then have "starts_before (b + int v) es \<le> j" using sorted_edges_before(2) [OF es j] by simp
    moreover have "j \<le> starts_before (b + int v) es"
    proof (cases j)
      case (Suc i)
      then have "ge_from (es ! i) < b + int v" using s v(1) j rng by (simp add: csr_done_def)
      then show ?thesis using sorted_edges_before(2) [OF es, of i] j Suc by simp
    qed simp
    ultimately show ?thesis by simp
  qed
  have adj: "vec_put (csr_iadj s) (ge_to ?e) (csr_adj s) = Inr (map (Some \<circ> ge_to) (take (Suc j) es) @ replicate (length es + 1 - Suc j) None)"
    and wts: "vec_put (csr_iadj s) (ge_weight ?e) (csr_weights s) = Inr (map (Some \<circ> ge_weight) (take (Suc j) es) @ replicate (length es + 1 - Suc j) None)"
    using s put_next [OF j] by (simp_all only: csr_done_def)
  define s' where "s' = \<lparr>csr_row = max (csr_row s) ?loc, csr_iadj = csr_iadj s + 1, csr_rows = rows,
    csr_adj = map (Some \<circ> ge_to) (take (Suc j) es) @ replicate (length es + 1 - Suc j) None,
    csr_weights = map (Some \<circ> ge_weight) (take (Suc j) es) @ replicate (length es + 1 - Suc j) None, csr_last = ?e\<rparr>"
  have "store_edge b s (j, ?e) = Inr s'"
    unfolding store_edge_def prod.case Let_def rows(1) bind_res_simps adj wts s'_def using new by simp
  moreover have "rows ! v = Some (starts_before (b + int v) es)" if "v \<le> ?loc" for v
    using rows(3) count [of v] that s by (auto simp: csr_done_def)
  ultimately show ?thesis
    using s rows(2) row by (intro exI [of _ s']) (simp add: csr_done_def s'_def max_absorb2)
qed

lemma store_edges:
  assumes es: "sorted_wrt edge_less es" and rng: "\<forall>e \<in> set es. b \<le> ge_from e \<and> ge_from e < b + int n" and b: "0 \<le> b"
    and "csr_done b n es j s" and "j \<le> length es"
  shows "\<exists>s'. fold_res (store_edge b) s (enumerate j (drop j es)) = Inr s' \<and> csr_done b n es (length es) s'"
  using assms(4,5)
proof (induction "length es - j" arbitrary: j s)
  case (Suc m)
  then have j: "j < length es" by simp
  from store_edge_step [OF es rng b Suc.prems(1) j] obtain s1 where s1: "store_edge b s (j, es ! j) = Inr s1" "csr_done b n es (Suc j) s1"
    by blast
  have "m = length es - Suc j" "Suc j \<le> length es" using Suc.hyps(2) j by simp_all
  from Suc.hyps(1) [OF this(1) s1(2) this(2)] show ?case
    using s1(1) by (simp add: Cons_nth_drop_Suc [OF j, symmetric])
qed simp

text \<open>The arrays, when the last vertex of the processor has an edge.\<close>

lemma build_csr_ok:
  assumes es: "sorted_wrt edge_less es" and rng: "\<forall>e \<in> set es. b \<le> ge_from e \<and> ge_from e < b + int n" and b: "0 \<le> b"
    and last: "\<exists>e \<in> set es. ge_from e = b + int n - 1"
  shows "\<exists>rows. build_csr b n es = Inr (rows, map (Some \<circ> ge_to) es @ [None], map (Some \<circ> ge_weight) es @ [None])
    \<and> length rows = n + 1 \<and> (\<forall>v \<le> n. rows ! v = Some (starts_before (b + int v) es))"
proof -
  have ne: "es \<noteq> []" using last by auto
  let ?adj = "replicate (length es + 1) None"
  let ?s0 = "\<lparr>csr_row = 0, csr_iadj = 0, csr_rows = Some 0 # replicate n None, csr_adj = ?adj, csr_weights = ?adj,
    csr_last = \<lparr>ge_from = - 1, ge_to = - 1, ge_weight = 0\<rparr>\<rparr>"
  have "starts_before b es = 0" using rng by (auto simp: filter_empty_conv)
  then have "csr_done b n es 0 ?s0" by (simp add: csr_done_def)
  from store_edges [OF es rng b this] obtain s where s: "fold_res (store_edge b) ?s0 (enumerate 0 es) = Inr s" "csr_done b n es (length es) s"
    by auto
  obtain i where i: "i < length es" "ge_from (es ! i) = b + int n - 1" using last by (auto simp: in_set_conv_nth)
  have "ge_from (es ! i) \<le> ge_from (es ! (length es - 1))" using sorted_edges_from [OF es, of i "length es - 1"] i(1) by simp
  moreover have "es ! (length es - 1) \<in> set es" using ne by simp
  ultimately have lst: "ge_from (es ! (length es - 1)) = b + int n - 1" using rng i(2) by fastforce
  have n: "0 < n" using rng ne by (cases es) auto
  have row: "csr_row s = n - 1" using s(2) ne lst n by (simp add: csr_done_def nat_diff_distrib')
  have all: "starts_before (b + int n) es = length es" using rng by simp
  have fin: "length (csr_rows s) = n + 1" "csr_adj s = map (Some \<circ> ge_to) es @ [None]" "csr_weights s = map (Some \<circ> ge_weight) es @ [None]"
    using s(2) by (simp_all add: csr_done_def)
  have put: "vec_put (Suc (csr_row s)) (length es) (csr_rows s) = Inr ((csr_rows s)[n := Some (length es)])"
    using fin(1) row n by (simp add: vec_put_def)
  let ?rows = "(csr_rows s)[n := Some (length es)]"
  have "build_csr b n es = Inr (?rows, map (Some \<circ> ge_to) es @ [None], map (Some \<circ> ge_weight) es @ [None])"
    using ne s(1) put fin(2,3) by (simp add: build_csr_def Let_def)
  moreover have "?rows ! v = Some (starts_before (b + int v) es)" if "v \<le> n" for v
  proof (cases "v = n")
    case False
    then have "v \<le> csr_row s" using that row by simp
    then show ?thesis using s(2) False by (simp add: csr_done_def)
  qed (use all fin(1) in simp)
  moreover have "length ?rows = n + 1" using s(2) by (simp add: csr_done_def)
  ultimately show ?thesis by blast
qed


section \<open>The edges of all processors\<close>

lemma sort_edges_sorted:
  assumes "distinct (map (\<lambda>e. (ge_from e, ge_to e)) es)"
  shows "sorted_wrt edge_less (sort_edges es)"
proof -
  let ?key = "\<lambda>e. (ge_from e, ge_to e)"
  have "mset (map ?key (sort_edges es)) = mset (map ?key es)" by (simp add: sort_edges_def)
  then have "distinct (map ?key (sort_edges es))" using assms mset_eq_imp_distinct_iff by blast
  moreover have "sorted (map ?key (sort_edges es))" by (simp add: sort_edges_def)
  ultimately have "sorted_wrt (<) (map ?key (sort_edges es))" by (simp add: strict_sorted_iff)
  moreover have "edge_less = (\<lambda>x y. ?key x < ?key y)" by (auto simp: fun_eq_iff edge_less_def)
  ultimately show ?thesis by (simp add: sorted_wrt_map)
qed

text \<open>What one processor holds for another, after its calls of \<open>set_edge\<close>.\<close>

definition owner :: "distribution \<Rightarrow> int \<Rightarrow> nat" where
  "owner d a = unat (get_proc d (word_of_int a))"

abbreviation edge_of_call :: "int \<times> int \<times> int \<Rightarrow> graph_edge" where
  "edge_of_call c \<equiv> \<lparr>ge_from = fst c, ge_to = fst (snd c), ge_weight = snd (snd c)\<rparr>"

lemma set_edges:
  assumes "fold_res set_edge g cs = Inr g'"
  shows "vtx_distr g' = vtx_distr g \<and> length (adj_of_proc g') = length (adj_of_proc g)
    \<and> (\<forall>p < length (adj_of_proc g). adj_of_proc g' ! p =
        rev (map edge_of_call (filter (\<lambda>c. owner (vtx_distr g) (fst c) = p) cs)) @ adj_of_proc g ! p)"
  using assms
proof (induction cs arbitrary: g)
  case (Cons c cs)
  obtain a b w where c: "c = (a, b, w)" by (cases c)
  let ?p = "unat (get_proc (vtx_distr g) (word_of_int a))"
  let ?g1 = "g\<lparr>adj_of_proc := (adj_of_proc g)[?p := edge_of_call c # adj_of_proc g ! ?p]\<rparr>"
  have step: "set_edge g c = (if ?p < length (adj_of_proc g) then Inr ?g1 else Inl (GraphNoProc a))"
    by (simp add: c set_edge_def Let_def)
  then have p: "?p < length (adj_of_proc g)" using Cons.prems by (cases "?p < length (adj_of_proc g)") simp_all
  then have g1: "fold_res set_edge ?g1 cs = Inr g'" using Cons.prems step by simp
  show ?case using Cons.IH [OF g1] p by (auto simp: owner_def c nth_list_update)
qed simp

lemma owner_local:
  assumes d: "dist_ok d" and a: "0 \<le> a" "a < uint (dist_size d)" and p: "p < num_of_procs d"
  shows "owner d a = p \<longleftrightarrow> uint (begin_of d p) \<le> a \<and> a < uint (end_of d p)"
proof -
  let ?w = "word_of_int a :: u32"
  have "a < 2 ^ 32" using a(2) uint_lt2p [of "dist_size d"] by simp
  then have w: "uint ?w = a" using a(1) by (simp add: uint_word_of_int)
  have "?w < dist_size d" using a(2) w by (simp add: word_less_alt)
  then obtain q where q: "q < num_of_procs d" "get_proc d ?w = word_of_nat q" "is_on_proc d ?w q"
    "\<forall>r < num_of_procs d. is_on_proc d ?w r \<longrightarrow> r = q"
    using get_proc_spec [OF d] by blast
  have "q < 2 ^ 32" using q(1) d by (simp add: dist_ok_def)
  then have "owner d a = q" using q(2) by (simp add: owner_def unat_of_nat)
  moreover have "is_on_proc d ?w p \<longleftrightarrow> uint (begin_of d p) \<le> a \<and> a < uint (end_of d p)"
    by (simp add: is_on_proc_def word_le_def word_less_alt w)
  ultimately show ?thesis using q(3,4) p by auto
qed


lemma mset_map_sort_edges: "mset (map f (filter P (sort_edges es))) = mset (map f (filter P es))"
  by (simp add: sort_edges_def mset_filter)

text \<open>The received edges of a vertex, in order.\<close>

lemma sorted_targets:
  assumes "sorted_wrt edge_less (sort_edges es)"
  shows "map ge_to (filter (\<lambda>e. ge_from e = a) (sort_edges es)) = sort (map ge_to (filter (\<lambda>e. ge_from e = a) es))"
proof -
  have "sorted_wrt edge_less (filter (\<lambda>e. ge_from e = a) (sort_edges es))" by (rule sorted_wrt_filter [OF assms])
  then have "sorted_wrt (\<lambda>x y. ge_to x \<le> ge_to y) (filter (\<lambda>e. ge_from e = a) (sort_edges es))"
    by (rule sorted_wrt_mono_rel [rotated]) (auto simp: edge_less_def)
  then have "sorted (map ge_to (filter (\<lambda>e. ge_from e = a) (sort_edges es)))" by (simp add: sorted_wrt_map)
  from properties_for_sort [OF mset_map_sort_edges this] show ?thesis ..
qed

text \<open>A row of the built arrays.\<close>

lemma row_of_built:
  assumes es: "sorted_wrt edge_less (sort_edges es)"
    and g: "graph_rows g ! v = Some (starts_before a (sort_edges es))" "graph_rows g ! Suc v = Some (starts_before (a + 1) (sort_edges es))"
      "graph_adj g = map (Some \<circ> ge_to) (sort_edges es) @ [None]"
  shows "row_of g v = Inr (sort (map ge_to (filter (\<lambda>e. ge_from e = a) es)))"
proof -
  let ?S = "sort_edges es"
  have "starts_before (a + 1) ?S \<le> length ?S" by simp
  then have "map (\<lambda>k. graph_adj g ! k) [starts_before a ?S..<starts_before (a + 1) ?S]
      = map (\<lambda>k. Some (ge_to (?S ! k))) [starts_before a ?S..<starts_before (a + 1) ?S]"
    by (intro map_cong) (auto simp: g(3) nth_append simp del: length_filter_le)
  also have "\<dots> = map Some (map ge_to (map (nth ?S) [starts_before a ?S..<starts_before (a + 1) ?S]))" by simp
  also have "\<dots> = map Some (map ge_to (filter (\<lambda>e. ge_from e = a) ?S))" unfolding sorted_edges_row [OF es] ..
  also have "\<dots> = map Some (sort (map ge_to (filter (\<lambda>e. ge_from e = a) es)))" unfolding sorted_targets [OF es] ..
  finally have "map (\<lambda>k. graph_adj g ! k) [starts_before a ?S..<starts_before (a + 1) ?S] = \<dots>" .
  moreover have "those (map Some xs) = Some xs" for xs :: "int list" by (induction xs) simp_all
  ultimately show ?thesis by (simp only: row_of_def g(1,2) Suc_eq_plus1 [symmetric] prod.case option.case)
qed


lemma sort_mset_cong: "mset xs = mset ys \<Longrightarrow> sort xs = sort (ys :: int list)"
  by (rule properties_for_sort) simp_all

lemma received_mset:
  assumes gs: "length gs = length calls" "\<forall>q < length calls. fold_res set_edge (new_graph (d\<lparr>my_proc := q\<rparr>)) (calls ! q) = Inr (gs ! q)"
    and p: "p < num_of_procs d"
  shows "mset (received gs p) = image_mset edge_of_call (filter_mset (\<lambda>c. owner d (fst c) = p) (mset (concat calls)))"
proof -
  have own: "owner (d\<lparr>my_proc := q\<rparr>) a = owner d a" for q a
    by (simp add: owner_def get_proc_def is_on_proc_def [abs_def] begin_of_def end_of_def)
  have "adj_of_proc (gs ! q) ! p = rev (map edge_of_call (filter (\<lambda>c. owner d (fst c) = p) (calls ! q)))" if "q < length calls" for q
    using set_edges [OF gs(2) [rule_format, OF that]] p by (simp add: new_graph_def own)
  then have "map (\<lambda>g. adj_of_proc g ! p) gs = map (\<lambda>cs. rev (map edge_of_call (filter (\<lambda>c. owner d (fst c) = p) cs))) calls"
    using gs(1) by (intro nth_equalityI) simp_all
  then have "received gs p = concat (map (\<lambda>cs. rev (map edge_of_call (filter (\<lambda>c. owner d (fst c) = p) cs))) calls)"
    by (simp add: received_def)
  moreover have "mset (concat (map (\<lambda>cs. rev (map edge_of_call (filter P cs))) calls)) = image_mset edge_of_call (filter_mset P (mset (concat calls)))" for P
    by (induction calls) (simp_all add: mset_filter)
  ultimately show ?thesis by simp
qed

section \<open>Properties\<close>

text \<open>
  C11. The finished graph. When the processors have inserted pairwise different edges between existing vertices and the last
  vertex of a processor has an edge, \<open>finalize\<close> of that processor returns, and the row of every local vertex
  holds exactly the targets of the edges that any processor has inserted from it, in ascending order.
\<close>

theorem graph_rows_correct:
  assumes d: "dist_ok d" and p: "p < num_of_procs d"
    and gs: "length gs = length calls" "\<forall>q < length calls. fold_res set_edge (new_graph (d\<lparr>my_proc := q\<rparr>)) (calls ! q) = Inr (gs ! q)"
    and np: "length calls = num_of_procs d"
    and rng: "\<forall>c \<in> set (concat calls). 0 \<le> fst c \<and> fst c < uint (dist_size d)"
    and new: "distinct (map (\<lambda>c. (fst c, fst (snd c))) (concat calls))"
    and last: "begin_of d p < end_of d p" "\<exists>c \<in> set (concat calls). fst c = uint (end_of d p) - 1"
  shows "\<exists>g. finalize_graph gs p = Inr g \<and> (\<forall>v < unat (lsize_of d p).
    row_of g v = Inr (sort (map (\<lambda>c. fst (snd c)) (filter (\<lambda>c. fst c = uint (begin_of d p) + int v) (concat calls)))))"
proof -
  let ?R = "received gs p" and ?b = "uint (begin_of d p)" and ?n = "unat (lsize_of d p)"
  note R = received_mset [OF gs p]
  have n: "?b + int ?n = uint (end_of d p)"
    using last(1) by (simp add: lsize_of_def uint_sub_if' word_less_alt flip: uint_nat)
  have own: "owner d (fst c) = p \<longleftrightarrow> ?b \<le> fst c \<and> fst c < ?b + int ?n" if "c \<in> set (concat calls)" for c
    unfolding n using bspec [OF rng that] by (intro owner_local [OF d _ _ p]) simp_all
  have "mset (map (\<lambda>e. (ge_from e, ge_to e)) ?R) = mset (map (\<lambda>c. (fst c, fst (snd c))) (filter (\<lambda>c. owner d (fst c) = p) (concat calls)))"
    by (simp add: R mset_filter image_mset.compositionality comp_def)
  then have "distinct (map (\<lambda>e. (ge_from e, ge_to e)) ?R)"
    using new mset_eq_imp_distinct_iff distinct_map_filter by blast
  note S = sort_edges_sorted [OF this]
  have set: "set (sort_edges ?R) = edge_of_call ` {c \<in> set (concat calls). owner d (fst c) = p}"
    using arg_cong [OF R, of set_mset] by (simp add: sort_edges_def)
  have "?b \<le> ge_from e \<and> ge_from e < ?b + int ?n" if e: "e \<in> set (sort_edges ?R)" for e
  proof -
    obtain c where "c \<in> set (concat calls)" "owner d (fst c) = p" "e = edge_of_call c" using e [unfolded set] by blast
    then show ?thesis using own [of c] by simp
  qed
  then have "\<forall>e \<in> set (sort_edges ?R). ?b \<le> ge_from e \<and> ge_from e < ?b + int ?n" by blast
  moreover have "\<exists>e \<in> set (sort_edges ?R). ge_from e = ?b + int ?n - 1"
    unfolding set using last(2) own n last(1) by (fastforce simp: word_less_alt)
  ultimately obtain rows where rows: "build_csr ?b ?n (sort_edges ?R)
      = Inr (rows, map (Some \<circ> ge_to) (sort_edges ?R) @ [None], map (Some \<circ> ge_weight) (sort_edges ?R) @ [None])"
    "\<forall>v \<le> ?n. rows ! v = Some (starts_before (?b + int v) (sort_edges ?R))"
    using build_csr_ok [OF S, of ?b ?n] by auto
  have "vtx_distr (gs ! p) = d\<lparr>my_proc := p\<rparr>" using set_edges [OF gs(2) [rule_format, of p]] p np by (simp add: new_graph_def)
  then obtain g where g: "finalize_graph gs p = Inr g" "graph_rows g = rows" "graph_adj g = map (Some \<circ> ge_to) (sort_edges ?R) @ [None]"
    using rows(1) by (simp add: finalize_graph_def begin_of_def lsize_of_def end_of_def)
  have "row_of g v = Inr (sort (map (\<lambda>c. fst (snd c)) (filter (\<lambda>c. fst c = ?b + int v) (concat calls))))" if v: "v < ?n" for v
  proof -
    have "row_of g v = Inr (sort (map ge_to (filter (\<lambda>e. ge_from e = ?b + int v) ?R)))"
      using rows(2) v by (intro row_of_built [OF S]) (simp_all add: g(2,3) ac_simps)
    moreover have "mset (map ge_to (filter (\<lambda>e. ge_from e = ?b + int v) ?R)) = mset (map (\<lambda>c. fst (snd c)) (filter (\<lambda>c. fst c = ?b + int v) (concat calls)))"
    proof -
      have "filter (\<lambda>c. owner d (fst c) = p \<and> fst c = ?b + int v) (concat calls) = filter (\<lambda>c. fst c = ?b + int v) (concat calls)"
      proof (rule filter_cong [OF refl])
        fix c assume c: "c \<in> set (concat calls)"
        have "owner d (fst c) = p" if "fst c = ?b + int v" unfolding own [OF c] using that v by linarith
        then show "(owner d (fst c) = p \<and> fst c = ?b + int v) = (fst c = ?b + int v)" by blast
      qed
      then have "filter_mset (\<lambda>c. owner d (fst c) = p \<and> fst c = ?b + int v) (mset (concat calls)) = filter_mset (\<lambda>c. fst c = ?b + int v) (mset (concat calls))"
        unfolding mset_filter [symmetric] by (rule arg_cong)
      then show ?thesis
        by (simp add: mset_filter R filter_mset_image_mset filter_filter_mset image_mset.compositionality comp_def)
    qed
    ultimately show ?thesis using sort_mset_cong by metis
  qed
  then show ?thesis using g(1) by blast
qed


definition sample_calls :: "(int \<times> int \<times> int) list list" where
  "sample_calls = [[(0, 3, 1), (2, 3, 1)], [(4, 0, 1), (0, 4, 1), (3, 0, 1), (3, 2, 1)]]"

lemma sample_graphs:
  "\<forall>q < length sample_calls. \<exists>g. fold_res set_edge (new_graph (sample_dist\<lparr>my_proc := q\<rparr>)) (sample_calls ! q) = Inr g"
proof -
  have "\<forall>q \<in> set [0, 1]. \<not> isl (fold_res set_edge (new_graph (sample_dist\<lparr>my_proc := q\<rparr>)) (sample_calls ! q))" by code_simp
  moreover have "length sample_calls = 2" by (simp add: sample_calls_def)
  moreover have "\<exists>y. x = Inr y" if "\<not> isl x" for x :: "sparse_graph graph_res" using that by (cases x) simp_all
  ultimately show ?thesis by (auto simp: less_2_cases_iff)
qed

theorem graph_rows_correct_witness:
  "\<exists>gs g. length gs = 2 \<and> finalize_graph gs 0 = Inr g \<and> row_of g 0 = Inr [3, 4]"
proof -
  obtain f where f: "\<forall>q < length sample_calls. fold_res set_edge (new_graph (sample_dist\<lparr>my_proc := q\<rparr>)) (sample_calls ! q) = Inr (f q)"
    using sample_graphs by metis
  define gs where "gs = map f [0..<length sample_calls]"
  have gs: "length gs = length sample_calls"
    "\<forall>q < length sample_calls. fold_res set_edge (new_graph (sample_dist\<lparr>my_proc := q\<rparr>)) (sample_calls ! q) = Inr (gs ! q)"
    using f by (simp_all add: gs_def)
  have "\<exists>g. finalize_graph gs 0 = Inr g \<and> (\<forall>v < unat (lsize_of sample_dist 0). row_of g v
      = Inr (sort (map (\<lambda>c. fst (snd c)) (filter (\<lambda>c. fst c = uint (begin_of sample_dist 0) + int v) (concat sample_calls)))))"
    by (rule graph_rows_correct [OF sample_dist_ok _ gs])
      (auto simp: sample_calls_def sample_dist_def dist_size_def begin_of_def end_of_def)
  then obtain g where g: "finalize_graph gs 0 = Inr g"
    "row_of g 0 = Inr (sort (map (\<lambda>c. fst (snd c)) (filter (\<lambda>c. fst c = uint (begin_of sample_dist 0) + int 0) (concat sample_calls))))"
    by (auto simp: sample_dist_def lsize_of_def begin_of_def end_of_def)
  have "sort (map (\<lambda>c. fst (snd c)) (filter (\<lambda>c. fst c = uint (begin_of sample_dist 0) + int 0) (concat sample_calls))) = [3, 4]"
    by (simp add: sample_calls_def sample_dist_def begin_of_def)
  then have "row_of g 0 = Inr [3, 4]" using g(2) by (simp only:)
  moreover have "length gs = 2" using gs(1) by (simp add: sample_calls_def)
  ultimately show ?thesis using g(1) by blast
qed

text \<open>
  Without the two conditions the arrays are wrong. A repeated edge is skipped in \<open>adj\<close> but the starts of rows count it, so
  that the row of vertex 1 lies behind its entry; and the end of the row of a last vertex without edges is
  never written, which makes that row unreadable.
\<close>

lemma repeated_edge_shifts_rows:
  "case build_csr 0 2 [\<lparr>ge_from = 0, ge_to = 1, ge_weight = 1\<rparr>, \<lparr>ge_from = 0, ge_to = 1, ge_weight = 1\<rparr>, \<lparr>ge_from = 1, ge_to = 0, ge_weight = 1\<rparr>] of
     Inl e \<Rightarrow> False
   | Inr (rows, adj, w) \<Rightarrow> rows = [Some 0, Some 2, Some 3] \<and> adj = [Some 1, Some 0, None, None]"
  by code_simp

lemma isolated_last_vertex:
  "case build_csr 0 3 [\<lparr>ge_from = 0, ge_to = 1, ge_weight = 1\<rparr>, \<lparr>ge_from = 1, ge_to = 0, ge_weight = 1\<rparr>] of
     Inl e \<Rightarrow> False
   | Inr (rows, adj, w) \<Rightarrow> rows = [Some 0, Some 1, Some 2, None]"
  by code_simp


text \<open>
  The check of connectivity ends after as many components as there are processors. Here both parts consist of two separate
  vertices; the loop ends after the first vertex of each part and reports nothing.
\<close>

definition scattered_graph :: sparse_graph where
  "scattered_graph = \<lparr>vtx_distr = \<lparr>num_of_procs = 2, my_proc = 0, starts = [0, 4, 4]\<rparr>, adj_of_proc = [[], []],
     graph_rows = replicate 5 (Some 0), graph_adj = [None], graph_weights = [None]\<rparr>"

lemma scattered_parts_missed:
  "check_subgraph_connectivity scattered_graph (\<lambda>v. if v < 2 then int v else int v - 2) = Inr []"
  by code_simp

end
