(* ===== verification/Mesh_Partition.thy ===== *)
theory Mesh_Partition
  imports Mesh_Sides Sparse_Graph
begin

text \<open>
  The distribution of the mesh to processors: the graph of connected elements, the partition and the new numbering of
  elements (\<open>src/src/mesh/partitioning.cc\<close>), the owners and local numbers of nodes (\<open>Mesh::distribute_nodes\<close> of
  \<open>src/src/mesh/mesh.cc\<close>). The partition itself comes from METIS or PETSc and is a parameter, as are the three operations of
  PETSc that the numbering of elements calls.
\<close>

section \<open>Model\<close>

datatype part_error =
    DecomposeMesh nat nat
  | PartGraph graph_error
  | PartRange nat
  | NodeWithoutElement nat

type_synonym 'a part_res = "(part_error, 'a) res"

datatype partition_tool = PETSc | METIS
datatype graph_type = Any_neighboring | Any_weight_lower_dim_cuts | Same_dimension_neighboring

text \<open>The calls of \<open>set_edge\<close> for one element: over its sides, then over the neighbours that it has as lower element.\<close>

definition side_calls :: "topology \<Rightarrow> side \<Rightarrow> (int \<times> int \<times> int) list part_res" where
  "side_calls t x =
     (case edge_of t x of
        Some e \<Rightarrow> bind_res (vec_at (PartRange e) (edges t) e) (\<lambda>ys.
          Inr (map (\<lambda>y. (int (fst x), int (fst y), 1)) (filter (\<lambda>y. fst y \<noteq> fst x) ys)))
      | None \<Rightarrow> Inl (PartRange (length (edges t))))"

definition neighbour_calls :: "topology \<Rightarrow> nat \<Rightarrow> nat \<Rightarrow> (int \<times> int \<times> int) list part_res" where
  "neighbour_calls t k i =
     (case neigh_vb (elems t ! k) of
        Some a \<Rightarrow> bind_res (vec_at (PartRange i) a i) (\<lambda>p.
          case p of
            Some j \<Rightarrow> bind_res (vec_at (PartRange j) (vb_neighbours t) j) (\<lambda>n.
              bind_res (vec_at (PartRange j) (edges t) (ngh_edge_idx n)) (\<lambda>ys.
                Inr (concat (map (\<lambda>y. [(int k, int (fst y), 1), (int (fst y), int k, 1)]) ys))))
          | None \<Rightarrow> Inl (PartRange i))
      | None \<Rightarrow> Inl (PartRange i))"

definition collect :: "('a \<Rightarrow> 'b list part_res) \<Rightarrow> 'a list \<Rightarrow> 'b list part_res" where
  "collect f xs = fold_res (\<lambda>cs x. bind_res (f x) (\<lambda>ds. Inr (cs @ ds))) [] xs"

definition element_calls :: "graph_type \<Rightarrow> topology \<Rightarrow> nat \<Rightarrow> (int \<times> int \<times> int) list part_res" where
  "element_calls ty t k =
     bind_res (collect (\<lambda>s. side_calls t (k, s)) [0..<n_nodes_of (elem_dim (elems t ! k))]) (\<lambda>cs.
     bind_res (if ty \<noteq> Same_dimension_neighboring then collect (neighbour_calls t k) [0..<n_neighs_vb (elems t ! k)] else Inr []) (\<lambda>ds.
       Inr (cs @ ds)))"

definition connect_element :: "graph_type \<Rightarrow> topology \<Rightarrow> sparse_graph \<Rightarrow> nat \<Rightarrow> sparse_graph part_res" where
  "connect_element ty t g k =
     (if \<not> is_local (vtx_distr g) (of_nat k) then Inr g
      else bind_res (element_calls ty t k) (\<lambda>cs. map_err PartGraph (fold_res set_edge g cs)))"

text \<open>Before the graph is finished, on one processor.\<close>

definition make_element_connection_graph :: "graph_type \<Rightarrow> topology \<Rightarrow> sparse_graph \<Rightarrow> sparse_graph part_res" where
  "make_element_connection_graph ty t g = fold_res (connect_element ty t) g [0..<bulk_of t]"

definition init_distribution :: "partition_tool \<Rightarrow> nat \<Rightarrow> nat \<Rightarrow> nat \<Rightarrow> distribution" where
  "init_distribution tool np rank n = distribution_of (case tool of PETSc \<Rightarrow> Block | METIS \<Rightarrow> Localized) np rank (of_nat n)"

text \<open>
  \<open>make_partition\<close> of all processors. The argument \<open>partition_of\<close> is the library: from the finished graphs it gives
  the part of every vertex. On one processor the METIS graph does not call it.
\<close>

definition make_partition ::
  "(sparse_graph list \<Rightarrow> nat list) \<Rightarrow> partition_tool \<Rightarrow> graph_type \<Rightarrow> nat \<Rightarrow> topology \<Rightarrow> nat list part_res" where
  "make_partition partition_of tool ty np t =
     (if bulk_of t < np then Inl (DecomposeMesh (bulk_of t) np)
      else bind_res (fold_res (\<lambda>gs q. bind_res (make_element_connection_graph ty t (new_graph (init_distribution tool np q (bulk_of t)))) (\<lambda>g.
             Inr (gs @ [g]))) [] [0..<np]) (\<lambda>gs.
           bind_res (fold_res (\<lambda>fs p. bind_res (map_err PartGraph (finalize_graph gs p)) (\<lambda>g. Inr (fs @ [g]))) [] [0..<np]) (\<lambda>fs.
             Inr (if tool = METIS \<and> np = 1 then replicate (bulk_of t) 0 else partition_of fs))))"

text \<open>
  The operations of PETSc in \<open>id_maps\<close>: the number of indices in every part, the new numbers of the
  indices, and the translation of new numbers to old ones.
\<close>

record petsc_is =
  partitioning_count :: "nat list \<Rightarrow> nat \<Rightarrow> u32 list"
  partitioning_to_numbering :: "nat list \<Rightarrow> nat list"
  application_to_petsc :: "nat list \<Rightarrow> nat list \<Rightarrow> nat list"

record id_map =
  new_ds :: distribution
  id_4_loc :: "int list"
  new_4_id :: "int list"

definition store_id :: "int list \<Rightarrow> nat list \<Rightarrow> int list \<Rightarrow> nat \<Rightarrow> int list part_res" where
  "store_id id_4_old old_4_new a i =
     (let k = id_4_old ! (old_4_new ! i) in
      if 0 \<le> k \<and> nat k < length a then Inr (a[nat k := int i]) else Inl (PartRange i))"

definition id_maps :: "petsc_is \<Rightarrow> nat \<Rightarrow> int list \<Rightarrow> nat list \<Rightarrow> nat \<Rightarrow> nat \<Rightarrow> id_map part_res" where
  "id_maps P n_ids id_4_old part np rank =
     (let size = length part;
          ds = distribution_from_sizes rank (partitioning_count P part np);
          old_4_new = application_to_petsc P (partitioning_to_numbering P part) [0..<size];
          loc = map (\<lambda>i. id_4_old ! (old_4_new ! i)) [unat (begin_of ds rank)..<unat (end_of ds rank)]
      in bind_res (fold_res (store_id id_4_old old_4_new) (replicate (n_ids + 1) (- 1)) [0..<size]) (\<lambda>a.
           Inr \<lparr>new_ds = ds, id_4_loc = loc, new_4_id = a\<rparr>))"

text \<open>The processor of an element, \<open>ElementAccessor::proc\<close>.\<close>

definition element_proc :: "id_map \<Rightarrow> nat \<Rightarrow> nat" where
  "element_proc im k = unat (get_proc (new_ds im) (word_of_int (new_4_id im ! k)))"

text \<open>The distribution of nodes.\<close>

definition flag_owner :: "nat \<Rightarrow> nat list \<times> bool list \<Rightarrow> nat \<times> nat \<Rightarrow> (nat list \<times> bool list) part_res" where
  "flag_owner my_p = (\<lambda>(node_proc, flags) (i_proc, i_node).
     if i_node < length node_proc
     then Inr (if i_proc < node_proc ! i_node then node_proc[i_node := i_proc] else node_proc,
               if i_proc = my_p then flags[i_node := True] else flags)
     else Inl (PartRange i_node))"

record node_distr =
  node_4_loc :: "nat list"
  n_own_nodes :: nat
  n_local_nodes :: nat

definition store_node :: "nat \<Rightarrow> nat list \<Rightarrow> bool list \<Rightarrow> nat list \<times> nat \<times> nat \<Rightarrow> nat \<Rightarrow> (nat list \<times> nat \<times> nat) part_res" where
  "store_node my_p node_proc flags = (\<lambda>(a, i_node, i_ghost) i.
     if \<not> flags ! i then Inr (a, i_node, i_ghost)
     else if node_proc ! i = my_p
       then (if i_node < length a then Inr (a[i_node := i], i_node + 1, i_ghost) else Inl (PartRange i))
     else (if i_ghost < length a then Inr (a[i_ghost := i], i_node, i_ghost + 1) else Inl (PartRange i)))"

definition distribute_nodes :: "nat \<Rightarrow> nat \<Rightarrow> (nat \<Rightarrow> nat) \<Rightarrow> mesh_data \<Rightarrow> node_distr part_res" where
  "distribute_nodes my_p np proc_of m =
     (let n = length (mesh_nodes m);
          uses = concat (map (\<lambda>k. map (\<lambda>v. (proc_of k, v)) (node_idxs (element_vec m ! k))) [0..<mesh_bulk_size m])
      in bind_res (fold_res (flag_owner my_p) (replicate n np, replicate n False) uses) (\<lambda>(node_proc, flags).
         let n_local = length (filter id flags);
             n_own = length (filter (\<lambda>p. p = my_p) node_proc)
         in if np \<in> set node_proc then Inl (NodeWithoutElement (length (filter (\<lambda>p. p = my_p) (takeWhile (\<lambda>p. p \<noteq> np) node_proc))))
            else bind_res (fold_res (store_node my_p node_proc flags) (replicate n_local 0, 0, n_own) [0..<n]) (\<lambda>(a, _, _).
              Inr \<lparr>node_4_loc = a, n_own_nodes = n_own, n_local_nodes = n_local\<rparr>)))"

section \<open>The distribution of nodes\<close>

text \<open>The uses of a node are pairs of a processor and the node.\<close>

lemma flag_owners:
  assumes "\<forall>u \<in> set us. snd u < n" and "length node_proc = n" "length flags = n"
  shows "\<exists>np' fl'. fold_res (flag_owner my_p) (node_proc, flags) us = Inr (np', fl') \<and> length np' = n \<and> length fl' = n
    \<and> (\<forall>v < n. np' ! v = Min (insert (node_proc ! v) {p. (p, v) \<in> set us}) \<and> (fl' ! v \<longleftrightarrow> flags ! v \<or> (my_p, v) \<in> set us))"
  using assms
proof (induction us arbitrary: node_proc flags)
  case (Cons u us)
  obtain q w where u: "u = (q, w)" by (cases u)
  have w: "w < n" using Cons.prems(1) u by simp
  let ?np1 = "if q < node_proc ! w then node_proc[w := q] else node_proc" and ?fl1 = "if q = my_p then flags[w := True] else flags"
  have "flag_owner my_p (node_proc, flags) u = Inr (?np1, ?fl1)" using w Cons.prems(2) by (simp add: flag_owner_def u)
  moreover
  have "\<forall>u \<in> set us. snd u < n" "length ?np1 = n" "length ?fl1 = n" using Cons.prems by simp_all
  from Cons.IH [OF this] obtain np' fl' where r: "fold_res (flag_owner my_p) (?np1, ?fl1) us = Inr (np', fl')" "length np' = n" "length fl' = n"
    "\<forall>v < n. np' ! v = Min (insert (?np1 ! v) {p. (p, v) \<in> set us}) \<and> (fl' ! v \<longleftrightarrow> ?fl1 ! v \<or> (my_p, v) \<in> set us)"
    by blast
  moreover have "Min (insert (?np1 ! v) {p. (p, v) \<in> set us}) = Min (insert (node_proc ! v) {p. (p, v) \<in> set (u # us)})" if "v < n" for v
  proof -
    have fin: "finite {p. (p, v) \<in> set us}" by (rule finite_subset [of _ "fst ` set us"]) force+
    show ?thesis
    proof (cases "v = w")
      case True
      then have "{p. (p, v) \<in> set (u # us)} = insert q {p. (p, v) \<in> set us}" by (auto simp: u)
      moreover have "?np1 ! v = min (node_proc ! v) q" using True w Cons.prems(2) by simp
      moreover have "Min (insert (min a q) S) = Min (insert a (insert q S))" if "finite S" for a :: nat and S
        using that by (cases "S = {}") (simp_all add: min.assoc)
      ultimately show ?thesis using fin by simp
    next
      case False
      then have "{p. (p, v) \<in> set (u # us)} = {p. (p, v) \<in> set us}" "?np1 ! v = node_proc ! v" by (auto simp: u)
      then show ?thesis by simp
    qed
  qed
  moreover have "?fl1 ! v \<or> (my_p, v) \<in> set us \<longleftrightarrow> flags ! v \<or> (my_p, v) \<in> set (u # us)" if "v < n" for v
    using w Cons.prems(3) by (auto simp: u nth_list_update)
  ultimately show ?case by (intro exI [of _ np'] exI [of _ fl']) simp
qed simp

text \<open>Two counters fill the array from its start and from behind the own nodes.\<close>

lemma store_nodes:
  assumes own: "length (filter (\<lambda>i. flags ! i \<and> node_proc ! i = my_p) [0..<n]) = n_own"
    and loc: "length a = length (filter (\<lambda>i. flags ! i) [0..<n])" and "j \<le> n"
  shows "\<exists>a'. fold_res (store_node my_p node_proc flags) (a, 0, n_own) [0..<j]
      = Inr (a', length (filter (\<lambda>i. flags ! i \<and> node_proc ! i = my_p) [0..<j]), n_own + length (filter (\<lambda>i. flags ! i \<and> node_proc ! i \<noteq> my_p) [0..<j]))
    \<and> length a' = length a
    \<and> take (length (filter (\<lambda>i. flags ! i \<and> node_proc ! i = my_p) [0..<j])) a' = filter (\<lambda>i. flags ! i \<and> node_proc ! i = my_p) [0..<j]
    \<and> take (length (filter (\<lambda>i. flags ! i \<and> node_proc ! i \<noteq> my_p) [0..<j])) (drop n_own a') = filter (\<lambda>i. flags ! i \<and> node_proc ! i \<noteq> my_p) [0..<j]"
  using assms(3)
proof (induction j)
  case (Suc j)
  let ?O = "\<lambda>j. filter (\<lambda>i. flags ! i \<and> node_proc ! i = my_p) [0..<j]" and ?G = "\<lambda>j. filter (\<lambda>i. flags ! i \<and> node_proc ! i \<noteq> my_p) [0..<j]"
  from Suc obtain a' where a': "fold_res (store_node my_p node_proc flags) (a, 0, n_own) [0..<j] = Inr (a', length (?O j), n_own + length (?G j))"
    "length a' = length a" "take (length (?O j)) a' = ?O j" "take (length (?G j)) (drop n_own a') = ?G j"
    by auto
  have mono: "length (filter P [0..<j]) + (if P j then 1 else 0) \<le> length (filter P [0..<n])" for P
  proof -
    have "[0..<n] = [0..<Suc j] @ [Suc j..<n]" using Suc.prems by (metis le_add_diff_inverse upt_add_eq_append zero_le)
    then show ?thesis by simp
  qed
  have split: "length (?O n) + length (?G n) = length (filter (\<lambda>i. flags ! i) [0..<n])"
    using sum_length_filter_compl [of "\<lambda>i. node_proc ! i = my_p" "filter (\<lambda>i. flags ! i) [0..<n]"] by (simp add: conj_commute)
  have run: "fold_res (store_node my_p node_proc flags) (a, 0, n_own) [0..<Suc j] = store_node my_p node_proc flags (a', length (?O j), n_own + length (?G j)) j"
    by (simp add: fold_res_append a'(1) bind_res_def split: sum.splits)
  consider "\<not> flags ! j" | "flags ! j" "node_proc ! j = my_p" | "flags ! j" "node_proc ! j \<noteq> my_p" by blast
  then show ?case
  proof cases
    case 1
    then show ?thesis using run a' by (simp add: store_node_def)
  next
    case 2
    then have "length (?O j) < n_own" "length (?O j) < length a'" using mono [of "\<lambda>i. flags ! i \<and> node_proc ! i = my_p"] own loc split a'(2) by simp_all
    then show ?thesis using run a' 2 by (simp add: store_node_def take_Suc_conv_app_nth)
  next
    case 3
    then have "n_own + length (?G j) < length a'" using mono [of "\<lambda>i. flags ! i \<and> node_proc ! i \<noteq> my_p"] own loc split a'(2) by simp
    moreover have "length (?O j) \<le> n_own" using mono [of "\<lambda>i. flags ! i \<and> node_proc ! i = my_p"] own by simp
    ultimately show ?thesis using run a' 3
      by (simp add: store_node_def take_Suc_conv_app_nth drop_update_swap)
  qed
qed simp

lemma store_all_nodes:
  assumes "length (filter (\<lambda>i. flags ! i \<and> node_proc ! i = my_p) [0..<n]) = n_own"
    and loc: "length a = length (filter (\<lambda>i. flags ! i) [0..<n])"
  shows "\<exists>i g. fold_res (store_node my_p node_proc flags) (a, 0, n_own) [0..<n]
    = Inr (filter (\<lambda>i. flags ! i \<and> node_proc ! i = my_p) [0..<n] @ filter (\<lambda>i. flags ! i \<and> node_proc ! i \<noteq> my_p) [0..<n], i, g)"
proof -
  let ?O = "filter (\<lambda>i. flags ! i \<and> node_proc ! i = my_p) [0..<n]" and ?G = "filter (\<lambda>i. flags ! i \<and> node_proc ! i \<noteq> my_p) [0..<n]"
  from store_nodes [OF assms order_refl] obtain a' where a': "fold_res (store_node my_p node_proc flags) (a, 0, n_own) [0..<n] = Inr (a', length ?O, n_own + length ?G)"
    "length a' = length a" "take (length ?O) a' = ?O" "take (length ?G) (drop n_own a') = ?G"
    by blast
  have "length ?O + length ?G = length (filter (\<lambda>i. flags ! i) [0..<n])"
    using sum_length_filter_compl [of "\<lambda>i. node_proc ! i = my_p" "filter (\<lambda>i. flags ! i) [0..<n]"] by (simp add: conj_commute)
  then have "drop n_own a' = ?G" using a'(2,4) assms by simp
  moreover have "take n_own a' = ?O" using a'(3) assms(1) by simp
  ultimately have "a' = ?O @ ?G" by (metis append_take_drop_id)
  then show ?thesis using a'(1) by blast
qed

text \<open>The owner of a node is the least processor with an element at the node.\<close>

definition node_procs :: "(nat \<Rightarrow> nat) \<Rightarrow> mesh_data \<Rightarrow> nat \<Rightarrow> nat set" where
  "node_procs proc_of m v = {proc_of k | k. k < mesh_bulk_size m \<and> v \<in> set (node_idxs (element_vec m ! k))}"

definition node_owner :: "(nat \<Rightarrow> nat) \<Rightarrow> mesh_data \<Rightarrow> nat \<Rightarrow> nat" where
  "node_owner proc_of m v = Min (node_procs proc_of m v)"

lemma filter_map_upt: "length xs = n \<Longrightarrow> length (filter P xs) = length (filter (\<lambda>i. P (xs ! i)) [0..<n])"
proof -
  assume "length xs = n"
  then have "filter P xs = filter P (map (nth xs) [0..<n])" using map_nth [of xs] by simp
  then show ?thesis by (simp add: filter_map comp_def)
qed

text \<open>
  C13. The distribution of nodes. On a mesh whose nodes are all used and whose elements are on existing processors,
  \<open>distribute_nodes\<close> succeeds on every processor; its local nodes are first those it owns, in ascending order, and
  then the other nodes of its elements, in ascending order, where the owner of a node is the least processor with an
  element at it; the counts are the numbers of own and of all local nodes.
\<close>

theorem nodes_distributed:
  assumes ex: "nodes_exist m" and used: "bulk_nodes m = {..<length (mesh_nodes m)}" and np: "\<forall>k < mesh_bulk_size m. proc_of k < np"
  shows "\<exists>r. distribute_nodes my_p np proc_of m = Inr r
    \<and> node_4_loc r = filter (\<lambda>v. node_owner proc_of m v = my_p) [0..<length (mesh_nodes m)]
        @ filter (\<lambda>v. my_p \<in> node_procs proc_of m v \<and> node_owner proc_of m v \<noteq> my_p) [0..<length (mesh_nodes m)]
    \<and> n_own_nodes r = length (filter (\<lambda>v. node_owner proc_of m v = my_p) [0..<length (mesh_nodes m)])
    \<and> n_local_nodes r = length (node_4_loc r)"
proof -
  let ?n = "length (mesh_nodes m)" and ?own = "node_owner proc_of m" and ?nb = "mesh_bulk_size m"
  let ?us = "concat (map (\<lambda>k. map (\<lambda>v. (proc_of k, v)) (node_idxs (element_vec m ! k))) [0..<?nb])"
  have us: "{p. (p, v) \<in> set ?us} = node_procs proc_of m v" for v by (auto simp: node_procs_def)
  have us': "(my_p, v) \<in> set ?us \<longleftrightarrow> my_p \<in> node_procs proc_of m v" for v unfolding us [symmetric] by simp
  have "\<forall>u \<in> set ?us. snd u < ?n" using nodes_exist_nth [OF ex] by auto
  from flag_owners [OF this, of "replicate ?n np" "replicate ?n False" my_p] obtain nps fl where
    f: "fold_res (flag_owner my_p) (replicate ?n np, replicate ?n False) ?us = Inr (nps, fl)" "length nps = ?n" "length fl = ?n"
      "\<forall>v < ?n. nps ! v = Min (insert np (node_procs proc_of m v)) \<and> (fl ! v \<longleftrightarrow> my_p \<in> node_procs proc_of m v)"
    unfolding us us' by auto
  have own: "nps ! v = ?own v \<and> ?own v \<in> node_procs proc_of m v \<and> ?own v < np" if v: "v < ?n" for v
  proof -
    have fin: "finite (node_procs proc_of m v)" unfolding node_procs_def by simp
    have "v \<in> bulk_nodes m" using used v by simp
    then have ne: "node_procs proc_of m v \<noteq> {}" by (auto simp: bulk_nodes_def node_procs_def)
    have mem: "?own v \<in> node_procs proc_of m v" unfolding node_owner_def by (rule Min_in [OF fin ne])
    then have "?own v < np" using np by (auto simp: node_procs_def)
    moreover have "Min (insert np (node_procs proc_of m v)) = min np (?own v)" using fin ne by (simp add: node_owner_def)
    ultimately show ?thesis using f(4) v mem by simp
  qed
  have np_notin: "np \<notin> set nps" using own f(2) by (auto simp: in_set_conv_nth)
  have O: "filter (\<lambda>i. fl ! i \<and> nps ! i = my_p) [0..<?n] = filter (\<lambda>v. ?own v = my_p) [0..<?n]"
    using f(4) own by (intro filter_cong) auto
  have G: "filter (\<lambda>i. fl ! i \<and> nps ! i \<noteq> my_p) [0..<?n] = filter (\<lambda>v. my_p \<in> node_procs proc_of m v \<and> ?own v \<noteq> my_p) [0..<?n]"
    using f(4) own by (intro filter_cong) auto
  have n_own: "length (filter (\<lambda>p. p = my_p) nps) = length (filter (\<lambda>v. ?own v = my_p) [0..<?n])"
    unfolding filter_map_upt [OF f(2)] using own by (intro arg_cong [of _ _ length] filter_cong) auto
  have n_loc: "length (filter id fl) = length (filter (\<lambda>i. fl ! i) [0..<?n])" unfolding filter_map_upt [OF f(3)] by simp
  have "length (filter (\<lambda>i. fl ! i \<and> nps ! i = my_p) [0..<?n]) = length (filter (\<lambda>p. p = my_p) nps)" unfolding O n_own ..
  from store_all_nodes [OF this, of "replicate (length (filter id fl)) 0"] obtain i g where
    "fold_res (store_node my_p nps fl) (replicate (length (filter id fl)) 0, 0, length (filter (\<lambda>p. p = my_p) nps)) [0..<?n]
      = Inr (filter (\<lambda>v. ?own v = my_p) [0..<?n] @ filter (\<lambda>v. my_p \<in> node_procs proc_of m v \<and> ?own v \<noteq> my_p) [0..<?n], i, g)"
    unfolding O G n_loc by auto
  note stored = this
  have "length (filter id fl) = length (filter (\<lambda>i. fl ! i \<and> nps ! i = my_p) [0..<?n]) + length (filter (\<lambda>i. fl ! i \<and> nps ! i \<noteq> my_p) [0..<?n])"
    using sum_length_filter_compl [of "\<lambda>i. nps ! i = my_p" "filter (\<lambda>i. fl ! i) [0..<?n]"] by (simp add: n_loc conj_commute)
  note len = this [unfolded O G]
  show ?thesis unfolding distribute_nodes_def Let_def f(1) bind_res_simps prod.case if_not_P [OF np_notin] stored
    using n_own len by simp
qed


theorem nodes_distributed_witness:
  "\<exists>m r. distribute_nodes 0 2 (\<lambda>k. k mod 2) m = Inr r \<and> length (mesh_nodes m) = 5 \<and> n_local_nodes r = length (node_4_loc r)"
proof -
  obtain m where m: "simplices_ok m" "bulk_nodes m = {..<length (mesh_nodes m)}" "length (mesh_nodes m) = 5" using setup_sample by blast
  show ?thesis using nodes_distributed [OF simplices_nodes_exist [OF m(1)] m(2), of "\<lambda>k. k mod 2" 2 0] m(3) by auto
qed

section \<open>The numbering of elements\<close>

text \<open>Indices in parts below the given one: the first new number of the part.\<close>

definition part_start :: "nat list \<Rightarrow> nat \<Rightarrow> nat" where
  "part_start part p = length (filter (\<lambda>q. q < p) part)"

text \<open>
  What PETSc documents: the counts of the parts, new numbers that go through the parts in their order, and the
  translation of new numbers into the indices that have them.
\<close>

definition petsc_ok :: "petsc_is \<Rightarrow> nat list \<Rightarrow> nat \<Rightarrow> bool" where
  "petsc_ok P part np \<longleftrightarrow>
     (let num = partitioning_to_numbering P part in
      partitioning_count P part np = map (\<lambda>p. of_nat (length (filter (\<lambda>q. q = p) part))) [0..<np]
    \<and> length num = length part \<and> distinct num
    \<and> list_all (\<lambda>i. part_start part (part ! i) \<le> num ! i \<and> num ! i < part_start part (Suc (part ! i))) [0..<length part]
    \<and> length (application_to_petsc P num [0..<length part]) = length part
    \<and> list_all (\<lambda>j. application_to_petsc P num [0..<length part] ! j < length part
          \<and> num ! (application_to_petsc P num [0..<length part] ! j) = j) [0..<length part])"

lemma part_start_Suc: "part_start part (Suc p) = part_start part p + length (filter (\<lambda>q. q = p) part)"
  by (induction part) (auto simp: part_start_def less_Suc_eq)

lemma part_start_0: "part_start part 0 = 0"
  by (simp add: part_start_def)

lemma part_start_mono: "p \<le> q \<Longrightarrow> part_start part p \<le> part_start part q"
  by (induction q) (auto simp: part_start_Suc le_Suc_eq)

lemma part_start_all: "\<forall>q \<in> set part. q < np \<Longrightarrow> part_start part np = length part"
  by (simp add: part_start_def)

lemma part_sizes_sum:
  "p \<le> np \<Longrightarrow> sum_list (take p (map (\<lambda>p. of_nat (length (filter (\<lambda>q. q = p) part)) :: u32) [0..<np])) = of_nat (part_start part p)"
  by (induction p) (simp_all add: take_Suc_conv_app_nth part_start_Suc part_start_0)

lemma part_distribution:
  fixes rank :: nat
  assumes "np < 2 ^ 32" and "length part < 2 ^ 32" and all: "\<forall>q \<in> set part. q < np"
  defines "d \<equiv> distribution_from_sizes rank (map (\<lambda>p. of_nat (length (filter (\<lambda>q. q = p) part))) [0..<np])"
  shows "p \<le> np \<Longrightarrow> unat (starts d ! p) = part_start part p" and "dist_ok d" and "num_of_procs d = np"
proof -
  have le: "part_start part p \<le> length part" for p by (simp add: part_start_def)
  show st: "unat (starts d ! p) = part_start part p" if "p \<le> np" for p
  proof -
    have "starts d ! p = of_nat (part_start part p)"
      using that by (simp add: d_def distribution_from_sizes_def scan_sizes_nth part_sizes_sum)
    moreover have "part_start part p < 2 ^ 32" using le [of p] assms(2) by linarith
    ultimately show ?thesis by (simp add: unat_of_nat)
  qed
  have n: "num_of_procs d = np" "length (starts d) = Suc np" by (simp_all add: d_def distribution_from_sizes_def)
  have "starts d ! i \<le> starts d ! Suc i" if "i < np" for i
    using st [of i] st [of "Suc i"] that part_start_mono [of i "Suc i" part] by (simp add: word_le_nat_alt)
  moreover have "starts d ! 0 = 0" using st [of 0] by (simp add: part_start_def unat_eq_0)
  ultimately show "dist_ok d" using n assms(1) by (simp add: dist_ok_def list_all_iff)
  show "num_of_procs d = np" by (rule n(1))
qed

text \<open>The array of new numbers.\<close>

lemma store_ids:
  assumes ids: "distinct ids" "\<forall>k \<in> set ids. 0 \<le> k \<and> k \<le> int n" and o4n: "length o4n = length ids" "\<forall>j < length ids. o4n ! j < length ids" "distinct o4n"
    and "j \<le> length ids"
  shows "\<exists>a. fold_res (store_id ids o4n) (replicate (n + 1) (- 1)) [0..<j] = Inr a \<and> length a = n + 1
    \<and> (\<forall>i < j. a ! nat (ids ! (o4n ! i)) = int i) \<and> (\<forall>k \<le> n. int k \<notin> (\<lambda>i. ids ! (o4n ! i)) ` {..<j} \<longrightarrow> a ! k = - 1)"
  using assms(6)
proof (induction j)
  case (Suc j)
  then obtain a where a: "fold_res (store_id ids o4n) (replicate (n + 1) (- 1)) [0..<j] = Inr a" "length a = n + 1"
    "\<forall>i < j. a ! nat (ids ! (o4n ! i)) = int i" "\<forall>k \<le> n. int k \<notin> (\<lambda>i. ids ! (o4n ! i)) ` {..<j} \<longrightarrow> a ! k = - 1"
    by auto
  let ?k = "ids ! (o4n ! j)"
  have k: "0 \<le> ?k" "?k \<le> int n" using ids(2) o4n(2) Suc.prems by simp_all
  have ne: "nat (ids ! (o4n ! i)) \<noteq> nat ?k" if "i < j" for i
  proof -
    have "o4n ! i \<noteq> o4n ! j" using that Suc.prems o4n(1,3) by (simp add: nth_eq_iff_index_eq)
    then have "ids ! (o4n ! i) \<noteq> ?k" using that Suc.prems o4n(2) ids(1) by (simp add: nth_eq_iff_index_eq)
    then show ?thesis using k(1) ids(2) o4n(2) that Suc.prems by (simp add: eq_nat_nat_iff)
  qed
  have "fold_res (store_id ids o4n) (replicate (n + 1) (- 1)) [0..<Suc j] = Inr (a[nat ?k := int j])"
    using a(1,2) k by (simp add: fold_res_append store_id_def Let_def)
  moreover have "a[nat ?k := int j] ! nat (ids ! (o4n ! i)) = int i" if "i < Suc j" for i
    using that a(2,3) k ne [of i] by (cases "i = j") simp_all
  moreover have "a[nat ?k := int j] ! q = - 1" if "q \<le> n" "int q \<notin> (\<lambda>i. ids ! (o4n ! i)) ` {..<Suc j}" for q
  proof -
    have "nat ?k \<noteq> q" using that(2) k(1) by (auto simp: lessThan_Suc)
    then show ?thesis using a(4) that by (simp add: lessThan_Suc)
  qed
  ultimately show ?case using a(2) by simp
qed (auto simp: nth_Cons split: nat.split)


text \<open>The numbering goes through the parts, and \<open>old_4_new\<close> is its inverse.\<close>

abbreviation old_4_new :: "petsc_is \<Rightarrow> nat list \<Rightarrow> nat list" where
  "old_4_new P part \<equiv> application_to_petsc P (partitioning_to_numbering P part) [0..<length part]"

lemma numbering_facts:
  assumes P: "petsc_ok P part np" and np: "\<forall>q \<in> set part. q < np"
  shows "length (old_4_new P part) = length part" and "distinct (old_4_new P part)"
    and "j < length part \<Longrightarrow> old_4_new P part ! j < length part \<and> partitioning_to_numbering P part ! (old_4_new P part ! j) = j"
    and "i < length part \<Longrightarrow> partitioning_to_numbering P part ! i < length part"
    and "i < length part \<Longrightarrow> old_4_new P part ! (partitioning_to_numbering P part ! i) = i"
    and "i < length part \<Longrightarrow> part ! i = p \<longleftrightarrow>
      part_start part p \<le> partitioning_to_numbering P part ! i \<and> partitioning_to_numbering P part ! i < part_start part (Suc p)"
proof -
  let ?s = "length part" and ?num = "partitioning_to_numbering P part" and ?o = "old_4_new P part"
  have num: "length ?num = ?s" "distinct ?num" "length ?o = ?s"
    and blk: "\<And>i. i < ?s \<Longrightarrow> part_start part (part ! i) \<le> ?num ! i \<and> ?num ! i < part_start part (Suc (part ! i))"
    and o: "\<And>j. j < ?s \<Longrightarrow> ?o ! j < ?s \<and> ?num ! (?o ! j) = j"
    using P by (simp_all add: petsc_ok_def Let_def list_all_iff)
  show "length ?o = ?s" by (rule num(3))
  show "distinct ?o" using o num(3) by (metis distinct_conv_nth)
  show "j < ?s \<Longrightarrow> ?o ! j < ?s \<and> ?num ! (?o ! j) = j" by (rule o)
  show num_lt: "?num ! i < ?s" if "i < ?s" for i
    using blk [OF that] part_start_mono [of "Suc (part ! i)" np part] np that part_start_all [OF np] by (fastforce simp: Suc_le_eq)
  show "?o ! (?num ! i) = i" if "i < ?s"
    using o [OF num_lt [OF that]] nth_eq_iff_index_eq [OF num(2), of "?o ! (?num ! i)" i] num(1) that by auto
  show "part ! i = p \<longleftrightarrow> part_start part p \<le> ?num ! i \<and> ?num ! i < part_start part (Suc p)" if i: "i < ?s"
  proof
    assume k: "part_start part p \<le> ?num ! i \<and> ?num ! i < part_start part (Suc p)"
    show "part ! i = p"
    proof (rule ccontr)
      assume "part ! i \<noteq> p"
      then consider "Suc (part ! i) \<le> p" | "Suc p \<le> part ! i" by linarith
      then show False using part_start_mono [of _ _ part] blk [OF i] k by cases (meson leD le_trans)+
    qed
  qed (use blk [OF i] in blast)
qed

lemma local_ids:
  assumes P: "petsc_ok P part np" and np: "\<forall>q \<in> set part. q < np" and p: "p < np"
    and ids: "length ids = length part" "distinct ids"
  defines "loc \<equiv> map (\<lambda>i. ids ! (old_4_new P part ! i)) [part_start part p..<part_start part (Suc p)]"
  shows "set loc = {ids ! i | i. i < length part \<and> part ! i = p}" and "distinct loc"
proof -
  let ?s = "length part" and ?num = "partitioning_to_numbering P part" and ?o = "old_4_new P part"
  note N = numbering_facts [OF P np]
  have end_le: "part_start part (Suc p) \<le> ?s" using part_start_mono [of "Suc p" np part] p part_start_all [OF np] by simp
  show "set loc = {ids ! i | i. i < ?s \<and> part ! i = p}"
  proof (intro set_eqI iffI)
    fix v assume "v \<in> set loc"
    then obtain j where j: "part_start part p \<le> j" "j < part_start part (Suc p)" "v = ids ! (?o ! j)" unfolding loc_def by auto
    then show "v \<in> {ids ! i | i. i < ?s \<and> part ! i = p}" using N(3) [of j] N(6) [of "?o ! j" p] end_le by auto
  next
    fix v assume "v \<in> {ids ! i | i. i < ?s \<and> part ! i = p}"
    then obtain i where i: "i < ?s" "part ! i = p" "v = ids ! i" by auto
    then have "?num ! i \<in> set [part_start part p..<part_start part (Suc p)]" using N(6) [OF i(1), of p] by simp
    then show "v \<in> set loc" unfolding loc_def set_map i(3) using N(5) [OF i(1)] by (intro image_eqI [of _ _ "?num ! i"]) simp_all
  qed
  show "distinct loc"
    unfolding loc_def
  proof (subst distinct_map, intro conjI distinct_upt inj_onI)
    fix i j assume ij: "i \<in> set [part_start part p..<part_start part (Suc p)]" "j \<in> set [part_start part p..<part_start part (Suc p)]"
      and eq: "ids ! (?o ! i) = ids ! (?o ! j)"
    have lt: "i < ?s" "j < ?s" using ij end_le by simp_all
    then have "?o ! i = ?o ! j" using eq ids N(3) by (simp add: nth_eq_iff_index_eq)
    then show "i = j" using N(3) [OF lt(1)] N(3) [OF lt(2)] by metis
  qed
qed

lemma new_owner:
  fixes rank :: nat
  assumes P: "petsc_ok P part np" and np: "np < 2 ^ 32" "length part < 2 ^ 32" "\<forall>q \<in> set part. q < np" and i: "i < length part"
  shows "get_proc (distribution_from_sizes rank (partitioning_count P part np)) (word_of_int (int (partitioning_to_numbering P part ! i))) = of_nat (part ! i)"
proof -
  let ?d = "distribution_from_sizes rank (map (\<lambda>p. of_nat (length (filter (\<lambda>q. q = p) part))) [0..<np])"
  let ?num = "partitioning_to_numbering P part"
  let ?w = "word_of_int (int (?num ! i)) :: u32"
  note D = part_distribution [OF np, where rank = rank] and N = numbering_facts [OF P np(3)]
  have cnt: "partitioning_count P part np = map (\<lambda>p. of_nat (length (filter (\<lambda>q. q = p) part))) [0..<np]"
    using P by (simp add: petsc_ok_def Let_def)
  have w: "unat ?w = ?num ! i" using N(4) [OF i] np(2) by (simp add: unat_of_nat)
  have p: "part ! i < np" using np(3) i by simp
  have on: "is_on_proc ?d ?w (part ! i)" unfolding is_on_proc_iff w using D(1) p N(6) [OF i, of "part ! i"] by simp
  have "?w < dist_size ?d" using N(4) [OF i] D(1) [of np] part_start_all [OF np(3)] w D(3) by (simp add: dist_size_def word_less_nat_alt)
  then show ?thesis unfolding cnt using get_proc_spec [OF D(2), of ?w] on p D(3) by auto
qed

lemma id_maps_run:
  assumes P: "petsc_ok P part np" and np: "np < 2 ^ 32" "length part < 2 ^ 32" "\<forall>q \<in> set part. q < np" and rank: "rank < np"
    and ids: "length ids = length part" "distinct ids" "\<forall>k \<in> set ids. 0 \<le> k \<and> k \<le> int n"
  shows "\<exists>a. id_maps P n ids part np rank = Inr \<lparr>new_ds = distribution_from_sizes rank (partitioning_count P part np),
      id_4_loc = map (\<lambda>i. ids ! (old_4_new P part ! i)) [part_start part rank..<part_start part (Suc rank)], new_4_id = a\<rparr>
    \<and> (\<forall>i < length part. a ! nat (ids ! i) = int (partitioning_to_numbering P part ! i)) \<and> (\<forall>k \<le> n. int k \<notin> set ids \<longrightarrow> a ! k = - 1)"
proof -
  let ?s = "length part" and ?num = "partitioning_to_numbering P part" and ?o = "old_4_new P part"
  let ?d = "distribution_from_sizes rank (partitioning_count P part np)"
  note N = numbering_facts [OF P np(3)] and D = part_distribution [OF np, where rank = rank]
  obtain a where a: "fold_res (store_id ids ?o) (replicate (n + 1) (- 1)) [0..<?s] = Inr a"
    "\<forall>i < ?s. a ! nat (ids ! (?o ! i)) = int i" "\<forall>k \<le> n. int k \<notin> (\<lambda>i. ids ! (?o ! i)) ` {..<?s} \<longrightarrow> a ! k = - 1"
    using store_ids [OF ids(2,3) _ _ N(2), of ?s] ids(1) N(1,3) by auto
  have cnt: "partitioning_count P part np = map (\<lambda>p. of_nat (length (filter (\<lambda>q. q = p) part))) [0..<np]"
    using P by (simp add: petsc_ok_def Let_def)
  have "[unat (begin_of ?d rank)..<unat (end_of ?d rank)] = [part_start part rank..<part_start part (Suc rank)]"
    using D(1) rank by (simp add: begin_of_def end_of_def cnt)
  then have run: "id_maps P n ids part np rank = Inr \<lparr>new_ds = ?d,
      id_4_loc = map (\<lambda>i. ids ! (?o ! i)) [part_start part rank..<part_start part (Suc rank)], new_4_id = a\<rparr>"
    using a(1) by (simp add: id_maps_def Let_def)
  have "a ! nat (ids ! i) = int (?num ! i)" if "i < ?s" for i
    using a(2) [rule_format, OF N(4) [OF that]] N(5) [OF that] by simp
  moreover have "int k \<notin> set ids \<longrightarrow> a ! k = - 1" if "k \<le> n" for k
  proof -
    have "(\<lambda>i. ids ! (?o ! i)) ` {..<?s} \<subseteq> set ids" using N(3) ids(1) by auto
    then show ?thesis using a(3) that by blast
  qed
  ultimately show ?thesis using run by blast
qed

text \<open>
  C12. The numbering of elements. When PETSc does what it documents, \<open>id_maps\<close> never fails for different ids up to
  the given maximum: the new number of the id at an old index is the number that PETSc gives this index, other ids have -1, the
  processor that owns the new number in the new distribution is the part of the index, and the local ids are
  exactly those of the indices in the part of this processor, without repetition.
\<close>

theorem id_maps_correct:
  assumes P: "petsc_ok P part np" and np: "np < 2 ^ 32" "length part < 2 ^ 32" "\<forall>q \<in> set part. q < np" and rank: "rank < np"
    and ids: "length ids = length part" "distinct ids" "\<forall>k \<in> set ids. 0 \<le> k \<and> k \<le> int n"
  shows "\<exists>im. id_maps P n ids part np rank = Inr im
    \<and> (\<forall>i < length part. new_4_id im ! nat (ids ! i) = int (partitioning_to_numbering P part ! i)
        \<and> get_proc (new_ds im) (word_of_int (new_4_id im ! nat (ids ! i))) = of_nat (part ! i))
    \<and> (\<forall>k \<le> n. int k \<notin> set ids \<longrightarrow> new_4_id im ! k = - 1)
    \<and> distinct (id_4_loc im) \<and> set (id_4_loc im) = {ids ! i | i. i < length part \<and> part ! i = rank}"
proof -
  note L = local_ids [OF P np(3) rank ids(1,2)] and O = new_owner [OF P np, where rank = rank]
  obtain a where a: "id_maps P n ids part np rank = Inr \<lparr>new_ds = distribution_from_sizes rank (partitioning_count P part np),
      id_4_loc = map (\<lambda>i. ids ! (old_4_new P part ! i)) [part_start part rank..<part_start part (Suc rank)], new_4_id = a\<rparr>"
    "\<forall>i < length part. a ! nat (ids ! i) = int (partitioning_to_numbering P part ! i)" "\<forall>k \<le> n. int k \<notin> set ids \<longrightarrow> a ! k = - 1"
    using id_maps_run [OF P np rank ids] by blast
  show ?thesis unfolding a(1) using a(2,3) O L by auto
qed

text \<open>Three elements on two processors.\<close>

definition sample_petsc :: petsc_is where
  "sample_petsc = \<lparr>partitioning_count = (\<lambda>part np. map (\<lambda>p. of_nat (length (filter (\<lambda>q. q = p) part))) [0..<np]),
     partitioning_to_numbering = (\<lambda>part. map (\<lambda>i. part_start part (part ! i) + length (filter (\<lambda>q. q = part ! i) (take i part))) [0..<length part]),
     application_to_petsc = (\<lambda>num xs. map (\<lambda>x. length (takeWhile (\<lambda>y. y \<noteq> x) num)) xs)\<rparr>"

theorem id_maps_correct_witness:
  "\<exists>im. id_maps sample_petsc 3 [0, 1, 2] [1, 0, 1] 2 1 = Inr im \<and> distinct (id_4_loc im) \<and> new_4_id im ! 0 = 1 \<and> new_4_id im ! 3 = - 1"
proof -
  have "petsc_ok sample_petsc [1, 0, 1] 2" by code_simp
  moreover have "partitioning_to_numbering sample_petsc [1, 0, 1] ! 0 = 1" by code_simp
  ultimately show ?thesis using id_maps_correct [of sample_petsc "[1, 0, 1]" 2 1 "[0, 1, 2]" 3] by force
qed


section \<open>The graph of elements\<close>

lemma collect_Inr:
  assumes "\<forall>x \<in> set xs. f x = Inr (g x)"
  shows "collect f xs = Inr (concat (map g xs))"
proof -
  have "fold_res (\<lambda>cs x. bind_res (f x) (\<lambda>ds. Inr (cs @ ds))) cs xs = Inr (cs @ concat (map g xs))" for cs
    using assms by (induction xs arbitrary: cs) simp_all
  then show ?thesis by (simp add: collect_def)
qed

abbreviation unit_call :: "nat \<Rightarrow> nat \<Rightarrow> int \<times> int \<times> int" where
  "unit_call a b \<equiv> (int a, int b, 1)"

abbreviation side_list :: "topology \<Rightarrow> nat \<Rightarrow> nat \<Rightarrow> (int \<times> int \<times> int) list" where
  "side_list t k s \<equiv> map (\<lambda>y. unit_call k (fst y)) (filter (\<lambda>y. fst y \<noteq> k) (edges t ! the (edge_of t (k, s))))"

abbreviation neighbour_list :: "topology \<Rightarrow> nat \<Rightarrow> nat \<Rightarrow> (int \<times> int \<times> int) list" where
  "neighbour_list t k i \<equiv> concat (map (\<lambda>y. [unit_call k (fst y), unit_call (fst y) k]) (edges t ! ngh_edge_idx (vb_neighbours t ! (neighbours_at t k ! i))))"

lemma element_calls_eq:
  assumes su: "set_up m t0 t" and k: "k < mesh_bulk_size m"
  shows "element_calls ty t k = Inr (concat (map (side_list t k) [0..<dim_of (element_vec m ! k) + 1])
    @ (if ty \<noteq> Same_dimension_neighboring then concat (map (neighbour_list t k) [0..<length (neighbours_at t k)]) else []))"
proof -
  let ?es = "element_vec m" and ?nb = "mesh_bulk_size m"
  have inv: "topo_inv ?es ?nb (length (mesh_nodes m)) t0" and E: "edges t = edges t0" "vb_neighbours t = vb_neighbours t0"
    and eo: "\<And>x. x \<in> sides_of ?es ?nb \<Longrightarrow> edge_of t0 x \<noteq> None \<and> edge_of t x = edge_of t0 x"
    and nl: "neighbours_listed t" "bulk_of t = ?nb"
    using su by (simp_all add: set_up_def)
  note I = edges_invD [OF topo_invD(9) [OF inv]]
  have n: "n_nodes_of (elem_dim (elems t ! k)) = dim_of (?es ! k) + 1"
    using set_up_elem(2,3) [OF su k] n_nodes_of_dim [of "elem_dim (elems t ! k)"] by simp
  have "side_calls t (k, s) = Inr (side_list t k s)" if s: "s < dim_of (?es ! k) + 1" for s
  proof -
    have x: "(k, s) \<in> sides_of ?es ?nb" using k s by (simp add: sides_of_def)
    obtain e where e: "edge_of t0 (k, s) = Some e" "edge_of t (k, s) = Some e" using eo [OF x] by auto
    have "e < length (edges t)" using I(1) [OF x e(1)] E by simp
    then show ?thesis using e(2) by (simp add: side_calls_def)
  qed
  then have 1: "collect (\<lambda>s. side_calls t (k, s)) [0..<n_nodes_of (elem_dim (elems t ! k))] = Inr (concat (map (side_list t k) [0..<dim_of (?es ! k) + 1]))"
    unfolding n by (intro collect_Inr) simp
  have cnt: "n_neighs_vb (elems t ! k) = length (neighbours_at t k)"
    "neighbours_at t k \<noteq> [] \<Longrightarrow> neigh_vb (elems t ! k) = Some (map Some (neighbours_at t k))"
    using nl k by (simp_all add: neighbours_listed_def)
  have "neighbour_calls t k i = Inr (neighbour_list t k i)" if i: "i < length (neighbours_at t k)" for i
  proof -
    let ?j = "neighbours_at t k ! i"
    have "?j \<in> set (neighbours_at t k)" using i by (rule nth_mem)
    then have j: "?j < length (vb_neighbours t)" by simp
    then have "vb_neighbours t ! ?j \<in> set (vb_neighbours t0)" using E by simp
    then obtain x where "x \<in> sides_of ?es ?nb" "edge_of t0 x = Some (ngh_edge_idx (vb_neighbours t ! ?j))" using I(6) by blast
    then have "ngh_edge_idx (vb_neighbours t ! ?j) < length (edges t)" using I(1) E by simp
    moreover have "neigh_vb (elems t ! k) = Some (map Some (neighbours_at t k))" using cnt(2) i by (cases "neighbours_at t k") simp_all
    ultimately show ?thesis using i j by (simp add: neighbour_calls_def)
  qed
  then have 2: "collect (neighbour_calls t k) [0..<n_neighs_vb (elems t ! k)] = Inr (concat (map (neighbour_list t k) [0..<length (neighbours_at t k)]))"
    unfolding cnt(1) by (intro collect_Inr) simp
  show ?thesis unfolding element_calls_def 1 2 by simp
qed

text \<open>
  Two elements are joined when a side of one has the nodes of a side of the other and no lower element; an element is below another
  when it has the nodes of a side of it.
\<close>

definition joined :: "mesh_data \<Rightarrow> nat \<Rightarrow> nat \<Rightarrow> bool" where
  "joined m i j \<longleftrightarrow> i \<noteq> j \<and> (\<exists>x \<in> sides_of (element_vec m) (mesh_bulk_size m). \<exists>y \<in> sides_of (element_vec m) (mesh_bulk_size m).
     fst x = i \<and> fst y = j \<and> side_key (element_vec m) x = side_key (element_vec m) y
     \<and> (\<nexists>l. lower_elem (element_vec m) (mesh_bulk_size m) (side_key (element_vec m) x) l))"

definition below :: "mesh_data \<Rightarrow> nat \<Rightarrow> nat \<Rightarrow> bool" where
  "below m i j \<longleftrightarrow> (\<exists>y \<in> sides_of (element_vec m) (mesh_bulk_size m). fst y = j
     \<and> lower_elem (element_vec m) (mesh_bulk_size m) (side_key (element_vec m) y) i)"

lemma side_list_joined:
  assumes su: "set_up m t0 t" and k: "k < mesh_bulk_size m"
  shows "set (concat (map (side_list t k) [0..<dim_of (element_vec m ! k) + 1])) = {unit_call k j | j. joined m k j}"
proof -
  let ?es = "element_vec m" and ?nb = "mesh_bulk_size m"
  let ?X = "sides_of ?es ?nb"
  have inv: "topo_inv ?es ?nb (length (mesh_nodes m)) t0" and E: "edges t = edges t0"
    and eo: "\<And>x. x \<in> ?X \<Longrightarrow> edge_of t0 x \<noteq> None \<and> edge_of t x = edge_of t0 x"
    using su by (simp_all add: set_up_def)
  note I = edges_invD [OF topo_invD(9) [OF inv]]
  have on: "y \<in> set (edges t ! the (edge_of t x)) \<longleftrightarrow> y \<in> ?X \<and> edge_of t0 y = edge_of t0 x" if x: "x \<in> ?X" for x y
  proof -
    obtain e where e: "edge_of t0 x = Some e" "edge_of t x = Some e" using eo [OF x] by auto
    then show ?thesis using I(1) [OF x e(1)] I(1) [of y e] I(3) [of e y] E by auto
  qed
  have "c \<in> set (concat (map (side_list t k) [0..<dim_of (?es ! k) + 1])) \<longleftrightarrow> (\<exists>j. c = unit_call k j \<and> joined m k j)" for c
  proof
    assume "c \<in> set (concat (map (side_list t k) [0..<dim_of (?es ! k) + 1]))"
    then obtain s y where s: "s < dim_of (?es ! k) + 1" "y \<in> set (edges t ! the (edge_of t (k, s)))" "fst y \<noteq> k" "c = unit_call k (fst y)"
      by (auto simp del: upt_Suc)
    have x: "(k, s) \<in> ?X" using s(1) k by (simp add: sides_of_def)
    have y: "y \<in> ?X" "edge_of t0 y = edge_of t0 (k, s)" using on [OF x] s(2) by simp_all
    have "(k, s) \<noteq> y" using s(3) by auto
    from I(5) [OF x y(1) this] eo [OF x] y(2) have "side_key ?es (k, s) = side_key ?es y \<and> (\<nexists>l. lower_elem ?es ?nb (side_key ?es (k, s)) l)"
      by auto
    then have "joined m k (fst y)" using x y(1) s(3) unfolding joined_def by (metis fst_conv)
    then show "\<exists>j. c = unit_call k j \<and> joined m k j" using s(4) by blast
  next
    assume "\<exists>j. c = unit_call k j \<and> joined m k j"
    then obtain x y where x: "x \<in> ?X" "y \<in> ?X" "fst x = k" "fst y \<noteq> k" "side_key ?es x = side_key ?es y"
      "\<nexists>l. lower_elem ?es ?nb (side_key ?es x) l" "c = unit_call k (fst y)"
      unfolding joined_def by auto
    have "x \<noteq> y" using x(3,4) by auto
    from I(5) [OF x(1,2) this] x(5,6) eo [OF x(1)] have "edge_of t0 y = edge_of t0 x" by metis
    then have "y \<in> set (edges t ! the (edge_of t x))" using on [OF x(1)] x(2) by simp
    then have "c \<in> set (side_list t k (snd x))" using x(3,4,7) by (cases x) auto
    moreover have "snd x < dim_of (?es ! k) + 1" using x(1,3) by (auto simp: sides_of_def)
    ultimately show "c \<in> set (concat (map (side_list t k) [0..<dim_of (?es ! k) + 1]))" by (auto simp del: upt_Suc)
  qed
  then show ?thesis by blast
qed


lemma in_concat_upt: "c \<in> set (concat (map f [0..<n])) \<longleftrightarrow> (\<exists>i < n. c \<in> set (f i))"
  by auto

lemma neighbour_list_below:
  assumes su: "set_up m t0 t"
  shows "set (concat (map (neighbour_list t k) [0..<length (neighbours_at t k)]))
    = {unit_call k j | j. below m k j} \<union> {unit_call j k | j. below m k j}"
proof -
  let ?es = "element_vec m" and ?nb = "mesh_bulk_size m"
  let ?X = "sides_of ?es ?nb" and ?V = "vb_neighbours t"
  have inv: "topo_inv ?es ?nb (length (mesh_nodes m)) t0" and E: "edges t = edges t0" "?V = vb_neighbours t0"
    and eo: "\<And>x. x \<in> ?X \<Longrightarrow> edge_of t0 x \<noteq> None"
    using su by (simp_all add: set_up_def)
  note I = edges_invD [OF topo_invD(9) [OF inv]]
  have at: "(\<exists>i < length (neighbours_at t k). c \<in> set (neighbour_list t k i))
      \<longleftrightarrow> (\<exists>n \<in> set ?V. ngh_elem_idx n = k \<and> (\<exists>y \<in> set (edges t ! ngh_edge_idx n). c = unit_call k (fst y) \<or> c = unit_call (fst y) k))" for c
  proof
    assume "\<exists>i < length (neighbours_at t k). c \<in> set (neighbour_list t k i)"
    then obtain i where i: "i < length (neighbours_at t k)" "c \<in> set (neighbour_list t k i)" by blast
    have "neighbours_at t k ! i \<in> set (neighbours_at t k)" using i(1) by (rule nth_mem)
    then show "\<exists>n \<in> set ?V. ngh_elem_idx n = k \<and> (\<exists>y \<in> set (edges t ! ngh_edge_idx n). c = unit_call k (fst y) \<or> c = unit_call (fst y) k)"
      using i(2) by (intro bexI [of _ "?V ! (neighbours_at t k ! i)"]) auto
  next
    assume "\<exists>n \<in> set ?V. ngh_elem_idx n = k \<and> (\<exists>y \<in> set (edges t ! ngh_edge_idx n). c = unit_call k (fst y) \<or> c = unit_call (fst y) k)"
    then obtain n where n: "n \<in> set ?V" "ngh_elem_idx n = k" "\<exists>y \<in> set (edges t ! ngh_edge_idx n). c = unit_call k (fst y) \<or> c = unit_call (fst y) k"
      by blast
    from n(1) obtain j where "j < length ?V" "?V ! j = n" unfolding in_set_conv_nth by blast
    with n have j: "j < length ?V" "ngh_elem_idx (?V ! j) = k"
      "\<exists>y \<in> set (edges t ! ngh_edge_idx (?V ! j)). c = unit_call k (fst y) \<or> c = unit_call (fst y) k"
      by simp_all
    then have "j \<in> set (neighbours_at t k)" by simp
    then obtain i where "i < length (neighbours_at t k)" "neighbours_at t k ! i = j" by (auto simp: in_set_conv_nth simp del: set_filter)
    then show "\<exists>i < length (neighbours_at t k). c \<in> set (neighbour_list t k i)" using j(3) by (intro exI [of _ i]) auto
  qed
  have sides: "(\<exists>n \<in> set ?V. ngh_elem_idx n = k \<and> (\<exists>y \<in> set (edges t ! ngh_edge_idx n). Q (fst y))) \<longleftrightarrow> (\<exists>j. below m k j \<and> Q j)" for Q
  proof
    assume "\<exists>n \<in> set ?V. ngh_elem_idx n = k \<and> (\<exists>y \<in> set (edges t ! ngh_edge_idx n). Q (fst y))"
    then obtain n y where n: "n \<in> set ?V" "ngh_elem_idx n = k" "y \<in> set (edges t ! ngh_edge_idx n)" "Q (fst y)" by blast
    have "n \<in> set (vb_neighbours t0)" using n(1) E(2) by simp
    with I(6) [of n] obtain x where x: "x \<in> ?X" "edge_of t0 x = Some (ngh_edge_idx n)" "lower_elem ?es ?nb (side_key ?es x) k"
      unfolding n(2) by blast
    have y: "y \<in> ?X \<and> edge_of t0 y = Some (ngh_edge_idx n)" using I(3) [OF conjunct1 [OF I(1) [OF x(1,2)]]] n(3) E by simp
    have "x = y"
    proof (rule ccontr)
      assume "x \<noteq> y"
      from I(5) [OF x(1) conjunct1 [OF y] this] x(2,3) y show False by fastforce
    qed
    then show "\<exists>j. below m k j \<and> Q j" using x(1,3) n(4) unfolding below_def by blast
  next
    assume "\<exists>j. below m k j \<and> Q j"
    then obtain y where y: "y \<in> ?X" "lower_elem ?es ?nb (side_key ?es y) k" "Q (fst y)" unfolding below_def by blast
    obtain e where e: "edge_of t0 y = Some e" using eo [OF y(1)] by blast
    have "\<lparr>ngh_elem_idx = k, ngh_edge_idx = e\<rparr> \<in> set ?V" using I(6) y(1,2) e E by (metis neighbour.select_convs)
    moreover have "y \<in> set (edges t ! e)" using I(1) [OF y(1) e] E by simp
    ultimately show "\<exists>n \<in> set ?V. ngh_elem_idx n = k \<and> (\<exists>y \<in> set (edges t ! ngh_edge_idx n). Q (fst y))" using y(3) by force
  qed
  have "c \<in> set (concat (map (neighbour_list t k) [0..<length (neighbours_at t k)])) \<longleftrightarrow> (\<exists>j. below m k j \<and> (c = unit_call k j \<or> c = unit_call j k))" for c
    unfolding sides [symmetric, of "\<lambda>j. c = unit_call k j \<or> c = unit_call j k"] at [symmetric]
    by (rule in_concat_upt)
  then show ?thesis by blast
qed

text \<open>
  C14. The connections of an element. After the setup of a mesh whose nodes are all used, the loop of
  \<open>make_element_connection_graph\<close> over one bulk element reads only sides and neighbours that exist, and inserts exactly the
  edges of weight one from it to the elements joined with it and, for the graph types with neighbours, both edges
  between it and every element that it lies below.
\<close>

theorem element_connections:
  assumes ok: "simplices_ok m" "mesh_ok m" "bulk_nodes m = {..<length (mesh_nodes m)}"
    and t: "setup_topology m c = Inr (t, r)" and k: "k < mesh_bulk_size m"
  shows "\<exists>cs. element_calls ty t k = Inr cs
    \<and> set cs = {unit_call k j | j. joined m k j}
        \<union> (if ty = Same_dimension_neighboring then {} else {unit_call k j | j. below m k j} \<union> {unit_call j k | j. below m k j})"
proof -
  obtain t0 where su: "set_up m t0 t" using setup_topology_steps [OF ok, of c] t by (cases r) auto
  show ?thesis unfolding element_calls_eq [OF su k] using side_list_joined [OF su k] neighbour_list_below [OF su, of k]
    by (cases "ty = Same_dimension_neighboring") (simp_all del: upt_Suc)
qed

theorem element_connections_witness:
  "\<exists>m t r cs. setup_topology m \<lparr>cnt_lines = 0, cnt_triangles = 0, cnt_tetrahedras = 0\<rparr> = Inr (t, r)
    \<and> element_calls Same_dimension_neighboring t 1 = Inr cs \<and> set cs = {unit_call 1 j | j. joined m 1 j}"
proof -
  obtain m t c where m: "simplices_ok m" "mesh_ok m" "bulk_nodes m = {..<length (mesh_nodes m)}" "mesh_bulk_size m = 4"
    and t: "setup_topology m \<lparr>cnt_lines = 0, cnt_triangles = 0, cnt_tetrahedras = 0\<rparr> = Inr (t, c, 2, 9)"
    using setup_sample by blast
  from element_connections [OF m(1-3) t, of 1 Same_dimension_neighboring] m(4)
  have "\<exists>cs. element_calls Same_dimension_neighboring t 1 = Inr cs \<and> set cs = {unit_call 1 j | j. joined m 1 j}" by simp
  then show ?thesis using t by blast
qed

end
