(* ===== verification/Duplicate_Nodes.thy ===== *)
theory Duplicate_Nodes
  imports Mesh_Topology
begin

text \<open>
  The nodes duplicated at fractures, \<open>DuplicateNodes\<close> of \<open>src/src/mesh/duplicate_nodes.cc\<close>: objects for edges and
  elements, the components of the elements at a node that are connected by edges, and a new node for each further component.
  The pointers to the faces of an object are positions in the array of the objects of the lower dimension.
\<close>

section \<open>Model\<close>

record mesh_object =
  obj_dim :: nat
  obj_nodes :: "nat list"
  obj_faces :: "nat list"

record dup_nodes =
  n_duplicated_nodes :: nat
  node_dim :: "nat list"
  objects :: "mesh_object list list"
  obj_4_el :: "nat list"
  obj_4_edg :: "nat list"

datatype dup_error = EmptyEdge nat | NoEdge nat nat | PointElement nat

definition init_nodes :: "topology \<Rightarrow> dup_nodes" where
  "init_nodes t = \<lparr>n_duplicated_nodes = length (mesh_nodes (topo_mesh t)), node_dim = replicate (length (mesh_nodes (topo_mesh t))) 0,
     objects = [[], [], [], []], obj_4_el = [], obj_4_edg = []\<rparr>"

definition push_object :: "dup_nodes \<Rightarrow> nat \<Rightarrow> mesh_object \<Rightarrow> dup_nodes" where
  "push_object d k ob = d\<lparr>objects := (objects d)[k := objects d ! k @ [ob]]\<rparr>"

definition init_edge :: "topology \<Rightarrow> dup_nodes \<Rightarrow> nat \<Rightarrow> (dup_error, dup_nodes) res" where
  "init_edge t d g =
     (case edges t ! g of [] \<Rightarrow> Inl (EmptyEdge g)
      | x # xs \<Rightarrow> (let k = dim_of (elems t ! fst x) - 1 in
          Inr (push_object (d\<lparr>obj_4_edg := obj_4_edg d @ [length (objects d ! k)]\<rparr>) k
                 \<lparr>obj_dim = k, obj_nodes = side_node_list (elems t) x, obj_faces = []\<rparr>)))"

definition init_from_edges :: "topology \<Rightarrow> dup_nodes \<Rightarrow> (dup_error, dup_nodes) res" where
  "init_from_edges t d = fold_res (init_edge t) d [0..<length (edges t)]"

definition element_edges :: "topology \<Rightarrow> nat \<Rightarrow> nat list" where
  "element_edges t e = map (\<lambda>s. the (edge_idx (elems t ! e) ! s)) [0..<dim_of (elems t ! e) + 1]"

definition init_element_object :: "topology \<Rightarrow> dup_nodes \<Rightarrow> nat \<Rightarrow> (dup_error, dup_nodes) res" where
  "init_element_object t d e =
     (let k = dim_of (elems t ! e) in
      if k = 0 then Inl (PointElement e)
      else case find (\<lambda>s. edge_idx (elems t ! e) ! s = None) [0..<k + 1] of Some s \<Rightarrow> Inl (NoEdge e s)
      | None \<Rightarrow>
          Inr (push_object (d\<lparr>obj_4_el := obj_4_el d @ [length (objects d ! k)]\<rparr>) k
                 \<lparr>obj_dim = k, obj_nodes = map (\<lambda>i. node_idxs (elems t ! e) ! i) [0..<k + 1],
                  obj_faces = map (\<lambda>g. obj_4_edg d ! g) (element_edges t e)\<rparr>))"

definition init_from_elements :: "topology \<Rightarrow> dup_nodes \<Rightarrow> (dup_error, dup_nodes) res" where
  "init_from_elements t d = fold_res (init_element_object t) d [0..<bulk_of t]"

text \<open>The elements on the sides of the edges of an element, in the order of the loops.\<close>

definition adjacent_elems :: "topology \<Rightarrow> nat \<Rightarrow> nat list" where
  "adjacent_elems t e = concat (map (\<lambda>g. map fst (edges t ! g)) (element_edges t e))"

definition take_adjacent :: "nat \<Rightarrow> nat \<Rightarrow> nat list \<times> nat list \<Rightarrow> nat list \<times> nat list" where
  "take_adjacent e a = (\<lambda>(q, ne). if a \<noteq> e \<and> a \<in> set ne then (q @ [a], remove1 a ne) else (q, ne))"

lemma take_adjacent_simps:
  "a \<noteq> e \<and> a \<in> set ne \<Longrightarrow> take_adjacent e a (q, ne) = (q @ [a], remove1 a ne)"
  "\<not> (a \<noteq> e \<and> a \<in> set ne) \<Longrightarrow> take_adjacent e a (q, ne) = (q, ne)"
  by (auto simp: take_adjacent_def)

lemma length_remove1_Suc: "a \<in> set xs \<Longrightarrow> Suc (length (remove1 a xs)) = length xs"
  by (simp add: length_remove1) (metis Suc_pred length_pos_if_in_set)

lemma fold_take_adjacent:
  assumes "distinct ne"
  shows "\<exists>ms ne'. fold (take_adjacent e) as (q, ne) = (q @ ms, ne') \<and> set ms = {a \<in> set as. a \<noteq> e \<and> a \<in> set ne}
    \<and> distinct ne' \<and> set ne' = set ne - set ms \<and> length ms + length ne' = length ne"
  using assms
proof (induction "as" arbitrary: q ne)
  case Nil
  then show ?case by simp
next
  case (Cons a "as")
  show ?case
  proof (cases "a \<noteq> e \<and> a \<in> set ne")
    case True
    obtain ms ne' where r: "fold (take_adjacent e) as (q @ [a], remove1 a ne) = ((q @ [a]) @ ms, ne')"
      "set ms = {b \<in> set as. b \<noteq> e \<and> b \<in> set (remove1 a ne)}" "distinct ne'" "set ne' = set (remove1 a ne) - set ms"
      "length ms + length ne' = length (remove1 a ne)"
      using Cons.IH [of "remove1 a ne" "q @ [a]"] Cons.prems by auto
    have st: "take_adjacent e a (q, ne) = (q @ [a], remove1 a ne)" by (rule take_adjacent_simps(1) [OF True])
    have len: "Suc (length (remove1 a ne)) = length ne" by (rule length_remove1_Suc) (simp add: True)
    have "set ms \<union> {a} = {b \<in> set (a # as). b \<noteq> e \<and> b \<in> set ne}" "set ne' = set ne - set (a # ms)"
      using r(2,4) True Cons.prems by (auto simp: set_remove1_eq)
    then show ?thesis
      using r(1,3,5) st len by (intro exI [of _ "a # ms"] exI [of _ ne'] conjI) (simp_all del: length_remove1)
  next
    case False
    obtain ms ne' where r: "fold (take_adjacent e) as (q, ne) = (q @ ms, ne')"
      "set ms = {b \<in> set as. b \<noteq> e \<and> b \<in> set ne}" "distinct ne'" "set ne' = set ne - set ms" "length ms + length ne' = length ne"
      using Cons.IH [of ne q] Cons.prems by auto
    have "{b \<in> set (a # as). b \<noteq> e \<and> b \<in> set ne} = {b \<in> set as. b \<noteq> e \<and> b \<in> set ne}" using False by auto
    then show ?thesis using r take_adjacent_simps(2) [OF False] by (intro exI [of _ ms] exI [of _ ne']) simp
  qed
qed

lemma take_adjacent_lengths:
  "fold (take_adjacent e) as (q, ne) = (q', ne') \<Longrightarrow> length q' + length ne' = length q + length ne"
proof (induction "as" arbitrary: q ne)
  case (Cons a "as")
  show ?case
  proof (cases "a \<noteq> e \<and> a \<in> set ne")
    case True
    then show ?thesis
      using Cons.IH [of "q @ [a]" "remove1 a ne"] Cons.prems take_adjacent_simps(1) [OF True] length_remove1_Suc [of a ne] by simp
  next
    case False
    then show ?thesis using Cons.IH [of q ne] Cons.prems take_adjacent_simps(2) [OF False] by simp
  qed
qed simp

text \<open>
  The search through the component of the elements in the queue; a component is a set in increasing order. The
  first argument gives the adjacent elements.
\<close>

function component_from :: "(nat \<Rightarrow> nat list) \<Rightarrow> nat list \<Rightarrow> nat list \<Rightarrow> nat list \<Rightarrow> nat list \<times> nat list" where
  "component_from adj [] ne c = (c, ne)"
| "component_from adj (e # q) ne c =
     component_from adj (fst (fold (take_adjacent e) (adj e) (q, ne))) (snd (fold (take_adjacent e) (adj e) (q, ne))) (insort_insert e c)"
  by pat_completeness auto

termination
proof (relation "measure (\<lambda>(adj, q, ne, c). length q + length ne)")
  fix adj :: "nat \<Rightarrow> nat list" and e q ne c
  have "length (fst (fold (take_adjacent e) (adj e) (q, ne))) + length (snd (fold (take_adjacent e) (adj e) (q, ne))) = length q + length ne"
    by (rule take_adjacent_lengths) simp
  then show "((adj, fst (fold (take_adjacent e) (adj e) (q, ne)), snd (fold (take_adjacent e) (adj e) (q, ne)), insort_insert e c),
      adj, e # q, ne, c) \<in> measure (\<lambda>(adj, q, ne, c). length q + length ne)" by simp
qed simp

lemma take_adjacent_shrinks: "length (snd (fold (take_adjacent e) as (q, ne))) \<le> length ne"
proof (induction "as" arbitrary: q ne)
  case (Cons a "as")
  show ?case
  proof (cases "a \<noteq> e \<and> a \<in> set ne")
    case True
    show ?thesis using Cons [of "q @ [a]" "remove1 a ne"] take_adjacent_simps(1) [OF True] length_remove1_Suc [of a ne] True by simp
  next
    case False
    then show ?thesis using Cons [of q ne] take_adjacent_simps(2) [OF False] by simp
  qed
qed simp

lemma component_from_length: "length (snd (component_from adj q ne c)) \<le> length ne"
proof (induction adj q ne c rule: component_from.induct)
  case (2 adj e q ne c)
  then show ?case unfolding component_from.simps(2) using take_adjacent_shrinks order_trans by blast
qed simp

function split_components :: "(nat \<Rightarrow> nat list) \<Rightarrow> nat list \<Rightarrow> nat list list" where
  "split_components adj [] = []"
| "split_components adj (e # ne) =
     fst (component_from adj [e] ne []) # split_components adj (snd (component_from adj [e] ne []))"
  by pat_completeness auto

termination
proof (relation "measure (\<lambda>(adj, ne). length ne)")
  fix adj :: "nat \<Rightarrow> nat list" and e ne
  show "((adj, snd (component_from adj [e] ne [])), adj, e # ne) \<in> measure (\<lambda>(adj, ne). length ne)"
    using component_from_length [of adj "[e]" ne "[]"] by simp
qed simp

definition replace_node :: "nat \<Rightarrow> nat \<Rightarrow> mesh_object \<Rightarrow> mesh_object" where
  "replace_node n new_nid ob = ob\<lparr>obj_nodes := map (\<lambda>v. if v = n then new_nid else v) (obj_nodes ob)\<rparr>"

definition update_object :: "(mesh_object \<Rightarrow> mesh_object) \<Rightarrow> nat \<Rightarrow> nat \<Rightarrow> dup_nodes \<Rightarrow> dup_nodes" where
  "update_object f k i d = d\<lparr>objects := (objects d)[k := (objects d ! k)[i := f (objects d ! k ! i)]]\<rparr>"

text \<open>The object of an element and those of its faces.\<close>

definition update_element :: "topology \<Rightarrow> nat \<Rightarrow> nat \<Rightarrow> nat \<Rightarrow> dup_nodes \<Rightarrow> dup_nodes" where
  "update_element t n new_nid e d =
     (let k = dim_of (elems t ! e); d1 = update_object (replace_node n new_nid) k (obj_4_el d ! e) d in
      fold (\<lambda>fi d'. update_object (replace_node n new_nid) (k - 1) (obj_faces (objects d1 ! k ! (obj_4_el d ! e)) ! fi) d') [0..<k + 1] d1)"

definition duplicate_component :: "topology \<Rightarrow> nat \<Rightarrow> nat list \<Rightarrow> dup_nodes \<Rightarrow> dup_nodes" where
  "duplicate_component t n c d =
     fold (update_element t n (n_duplicated_nodes d)) c
       (d\<lparr>n_duplicated_nodes := n_duplicated_nodes d + 1, node_dim := node_dim d @ [dim_of (elems t ! hd c)]\<rparr>)"

definition duplicate_node :: "topology \<Rightarrow> nat \<Rightarrow> dup_nodes \<Rightarrow> dup_nodes" where
  "duplicate_node t n d =
     (case split_components (adjacent_elems t) (node_elements t ! n) of
        [] \<Rightarrow> d
      | c # cs \<Rightarrow> fold (duplicate_component t n) cs (d\<lparr>node_dim := (node_dim d)[n := dim_of (elems t ! hd c)]\<rparr>))"

definition duplicate_nodes :: "topology \<Rightarrow> (dup_error, dup_nodes) res" where
  "duplicate_nodes t =
     bind_res (init_from_edges t (init_nodes t)) (\<lambda>d1.
     bind_res (init_from_elements t d1) (\<lambda>d2.
       Inr (fold (duplicate_node t) [0..<length (mesh_nodes (topo_mesh t))] d2)))"

section \<open>Components\<close>

text \<open>Two elements of a set are connected when a path of adjacent elements of the set leads from one to the other.\<close>

definition linked :: "(nat \<Rightarrow> nat list) \<Rightarrow> nat set \<Rightarrow> (nat \<times> nat) set" where
  "linked adj V = {(a, b). a \<in> V \<and> b \<in> V \<and> b \<in> set (adj a)}"

definition connected_in :: "(nat \<Rightarrow> nat list) \<Rightarrow> nat set \<Rightarrow> nat \<Rightarrow> nat \<Rightarrow> bool" where
  "connected_in adj V a b \<longleftrightarrow> (a, b) \<in> (linked adj V)\<^sup>*"

lemma component_from_spec:
  assumes "distinct ne" and "set ne \<inter> (set q \<union> set c) = {}" and "sorted c" and "distinct c"
    and "\<forall>a \<in> set c. set (adj a) \<inter> set ne = {}" and "set q \<union> set c \<union> set ne \<subseteq> V"
  shows "\<exists>c' ne'. component_from adj q ne c = (c', ne') \<and> set c \<union> set q \<subseteq> set c' \<and> set c' \<union> set ne' = set c \<union> set q \<union> set ne
    \<and> set c' \<inter> set ne' = {} \<and> distinct ne' \<and> sorted c' \<and> distinct c' \<and> (\<forall>a \<in> set c'. set (adj a) \<inter> set ne' = {})
    \<and> (\<forall>b \<in> set c'. \<exists>a \<in> set c \<union> set q. connected_in adj V a b)"
  using assms
proof (induction adj q ne c rule: component_from.induct)
  case (1 adj ne c)
  then show ?case by (auto simp: connected_in_def)
next
  case (2 adj e q ne c)
  obtain ms ne1 where f: "fold (take_adjacent e) (adj e) (q, ne) = (q @ ms, ne1)"
    "set ms = {a \<in> set (adj e). a \<noteq> e \<and> a \<in> set ne}" "distinct ne1" "set ne1 = set ne - set ms"
    using fold_take_adjacent [OF 2(2), of e "adj e" q] by blast
  have e: "e \<notin> set ne" using 2(3) by auto
  have sc: "set (insort_insert e c) = insert e (set c)" "sorted (insort_insert e c)" "distinct (insort_insert e c)"
    using 2(4,5) by (simp_all add: set_insort_insert sorted_insort_insert distinct_insort_insert)
  have closed: "\<forall>a \<in> insert e (set c). set (adj a) \<inter> set ne1 = {}" using 2(6) f(2,4) e by auto
  have "\<exists>c' ne'. component_from adj (q @ ms) ne1 (insort_insert e c) = (c', ne') \<and> set (insort_insert e c) \<union> set (q @ ms) \<subseteq> set c'
    \<and> set c' \<union> set ne' = set (insort_insert e c) \<union> set (q @ ms) \<union> set ne1 \<and> set c' \<inter> set ne' = {} \<and> distinct ne' \<and> sorted c' \<and> distinct c'
    \<and> (\<forall>a \<in> set c'. set (adj a) \<inter> set ne' = {}) \<and> (\<forall>b \<in> set c'. \<exists>a \<in> set (insort_insert e c) \<union> set (q @ ms). connected_in adj V a b)"
  proof (rule 2(1) [unfolded f(1) fst_conv snd_conv])
    show "distinct ne1" by (rule f(3))
    show "set ne1 \<inter> (set (q @ ms) \<union> set (insort_insert e c)) = {}" using 2(3) f(4) e by (auto simp: sc(1))
    show "\<forall>a \<in> set (insort_insert e c). set (adj a) \<inter> set ne1 = {}" unfolding sc(1) by (rule closed)
    show "set (q @ ms) \<union> set (insort_insert e c) \<union> set ne1 \<subseteq> V" using 2(7) f(2,4) by (auto simp: sc(1))
  qed (rule sc(2), rule sc(3))
  then obtain c' ne' where r: "component_from adj (q @ ms) ne1 (insort_insert e c) = (c', ne')"
    "insert e (set c) \<union> (set q \<union> set ms) \<subseteq> set c'" "set c' \<union> set ne' = insert e (set c) \<union> (set q \<union> (set ms \<union> set ne1))"
    "set c' \<inter> set ne' = {}" "distinct ne'" "sorted c'" "distinct c'" "\<forall>a \<in> set c'. set (adj a) \<inter> set ne' = {}"
    "\<forall>b \<in> set c'. \<exists>a \<in> insert e (set c) \<union> (set q \<union> set ms). connected_in adj V a b"
    unfolding sc(1) set_append Un_assoc by blast
  have "connected_in adj V e a" if "a \<in> set ms" for a
    using that f(2) 2(7) by (auto simp: connected_in_def linked_def)
  then have "\<exists>a \<in> set c \<union> set (e # q). connected_in adj V a b" if "b \<in> set c'" for b
    using r(9) that unfolding connected_in_def by (metis (no_types, lifting) Un_iff insert_iff list.set(2) rtrancl_trans)
  moreover have "set c' \<union> set ne' = set c \<union> set (e # q) \<union> set ne" using r(3) f(2,4) by auto
  moreover have "component_from adj (e # q) ne c = (c', ne')" using r(1) f(1) by simp
  ultimately show ?case using r(2,4-8) by (intro exI [of _ c'] exI [of _ ne']) auto
qed

text \<open>The components of a set: they divide it, and two elements are in the same one exactly when they are connected.\<close>

definition components_of :: "(nat \<Rightarrow> nat list) \<Rightarrow> nat set \<Rightarrow> nat list list \<Rightarrow> bool" where
  "components_of adj V cs \<longleftrightarrow> (\<Union>c \<in> set cs. set c) = V \<and> (\<forall>c \<in> set cs. c \<noteq> [] \<and> distinct c)
     \<and> (\<forall>i < length cs. \<forall>j < length cs. i \<noteq> j \<longrightarrow> set (cs ! i) \<inter> set (cs ! j) = {})
     \<and> (\<forall>c \<in> set cs. \<forall>a \<in> set c. \<forall>b \<in> V. connected_in adj V a b \<longleftrightarrow> b \<in> set c)"

lemma connected_in_sym:
  assumes "\<forall>a \<in> V. \<forall>b \<in> V. b \<in> set (adj a) \<longrightarrow> a \<in> set (adj b)" and "connected_in adj V a b"
  shows "connected_in adj V b a"
proof -
  have "sym (linked adj V)" using assms(1) by (auto simp: sym_def linked_def)
  then have "sym ((linked adj V)\<^sup>*)" by (rule sym_rtrancl)
  then show ?thesis using assms(2) by (auto simp: connected_in_def dest: symD)
qed

lemma split_components_spec:
  assumes sym: "\<forall>a \<in> V. \<forall>b \<in> V. b \<in> set (adj a) \<longrightarrow> a \<in> set (adj b)" and "distinct ne" and "set ne \<subseteq> V"
    and "\<forall>a \<in> V - set ne. set (adj a) \<inter> set ne = {}"
  shows "(\<Union>c \<in> set (split_components adj ne). set c) = set ne \<and> (\<forall>c \<in> set (split_components adj ne). c \<noteq> [] \<and> distinct c)
    \<and> (\<forall>i < length (split_components adj ne). \<forall>j < length (split_components adj ne). i \<noteq> j \<longrightarrow>
         set (split_components adj ne ! i) \<inter> set (split_components adj ne ! j) = {})
    \<and> (\<forall>c \<in> set (split_components adj ne). \<forall>a \<in> set c. \<forall>b \<in> V. connected_in adj V a b \<longleftrightarrow> b \<in> set c)"
  using assms(2-)
proof (induction "length ne" arbitrary: ne rule: less_induct)
  case less
  show ?case
  proof (cases ne)
    case Nil
    then show ?thesis by simp
  next
    case (Cons e ne0)
    obtain c ne' where s: "component_from adj [e] ne0 [] = (c, ne')" "{e} \<subseteq> set c" "set c \<union> set ne' = insert e (set ne0)"
      "set c \<inter> set ne' = {}" "distinct ne'" "sorted c" "distinct c" "\<forall>a \<in> set c. set (adj a) \<inter> set ne' = {}"
      "\<forall>b \<in> set c. connected_in adj V e b"
      using component_from_spec [of ne0 "[e]" "[]" adj V] less.prems by (auto simp: Cons)
    have shorter: "length ne' < length ne"
      using component_from_length [of adj "[e]" ne0 "[]"] unfolding s(1) by (simp add: Cons)
    have sub: "set ne' \<subseteq> V" using s(3) less.prems(2) by (auto simp: Cons)
    have "e \<in> set c" using s(2) by simp
    then have ne': "set ne' \<subseteq> set ne0" using s(3,4) by auto
    have out: "\<forall>a \<in> V - set ne'. set (adj a) \<inter> set ne' = {}"
    proof
      fix a assume a: "a \<in> V - set ne'"
      show "set (adj a) \<inter> set ne' = {}"
      proof (cases "a \<in> set c")
        case False
        then have "a \<in> V - set ne" using a s(3) by (auto simp: Cons)
        then have "set (adj a) \<inter> set ne = {}" using less.prems(3) by blast
        then show ?thesis using ne' unfolding Cons by auto
      qed (use s(8) in simp)
    qed
    note IH = less.hyps [OF shorter s(5) sub out]
    have eq: "split_components adj ne = c # split_components adj ne'" unfolding Cons split_components.simps(2) s(1) fst_conv snd_conv ..
    have closed: "b \<in> set c" if "a \<in> set c" "connected_in adj V a b" for a b
      using that(2,1) unfolding connected_in_def
    proof (induction rule: rtrancl_induct)
      case (step x y)
      have x: "x \<in> set c" "y \<in> V" "y \<in> set (adj x)" using step by (auto simp: linked_def)
      have "y \<notin> set ne'" using s(8) x by auto
      moreover have "y \<in> set ne"
      proof (rule ccontr)
        assume "y \<notin> set ne"
        then have "set (adj y) \<inter> set ne = {}" using less.prems(3) x(2) by simp
        moreover have "x \<in> set ne" using x(1) s(3) unfolding Cons by auto
        moreover have "x \<in> set (adj y)" using sym x less.prems(2) \<open>x \<in> set ne\<close> by blast
        ultimately show False by blast
      qed
      ultimately show ?case using s(3) by (auto simp: Cons)
    qed
    have conn: "connected_in adj V a b \<longleftrightarrow> b \<in> set c" if "a \<in> set c" for a b
    proof
      assume b: "b \<in> set c"
      have "connected_in adj V a e" using connected_in_sym [OF sym] s(9) that by blast
      moreover have "connected_in adj V e b" using s(9) b by blast
      ultimately show "connected_in adj V a b" unfolding connected_in_def by (rule rtrancl_trans)
    qed (rule closed [OF that])
    have rest: "set c' \<subseteq> set ne'" if "c' \<in> set (split_components adj ne')" for c' using IH that by blast
    have "set (split_components adj ne ! i) \<inter> set (split_components adj ne ! j) = {}"
      if ij: "i < length (split_components adj ne)" "j < length (split_components adj ne)" "i \<noteq> j" for i j
    proof -
      have d: "set c \<inter> set (split_components adj ne' ! k) = {}" if "k < length (split_components adj ne')" for k
        using rest [OF nth_mem [OF that]] s(4) by blast
      show ?thesis
        using ij d IH unfolding eq by (cases i; cases j) (auto simp: Int_commute)
    qed
    moreover have "(\<Union>c \<in> set (split_components adj ne). set c) = set ne"
      using IH s(3) unfolding eq by (simp add: Cons)
    moreover have "\<forall>c \<in> set (split_components adj ne). c \<noteq> [] \<and> distinct c" using IH s(2,7) unfolding eq by auto
    moreover have "\<forall>c \<in> set (split_components adj ne). \<forall>a \<in> set c. \<forall>b \<in> V. connected_in adj V a b \<longleftrightarrow> b \<in> set c"
      using IH conn unfolding eq by simp
    ultimately show ?thesis by blast
  qed
qed

lemma split_components_ok:
  assumes "\<forall>a \<in> set ne. \<forall>b \<in> set ne. b \<in> set (adj a) \<longrightarrow> a \<in> set (adj b)" and "distinct ne"
  shows "components_of adj (set ne) (split_components adj ne)"
  unfolding components_of_def using split_components_spec [OF assms(1,2)] by blast

section \<open>Objects\<close>

text \<open>The place of an object: the dimension and the position in the array of that dimension.\<close>

abbreviation obj_at :: "dup_nodes \<Rightarrow> nat \<times> nat \<Rightarrow> mesh_object" where "obj_at d l \<equiv> objects d ! fst l ! snd l"

definition valid_loc :: "dup_nodes \<Rightarrow> nat \<times> nat \<Rightarrow> bool" where
  "valid_loc d l \<longleftrightarrow> fst l < length (objects d) \<and> snd l < length (objects d ! fst l)"

definition el_loc :: "topology \<Rightarrow> dup_nodes \<Rightarrow> nat \<Rightarrow> nat \<times> nat" where
  "el_loc t d e = (dim_of (elems t ! e), obj_4_el d ! e)"

definition edg_loc :: "topology \<Rightarrow> dup_nodes \<Rightarrow> nat \<Rightarrow> nat \<times> nat" where
  "edg_loc t d g = (dim_of (elems t ! fst (hd (edges t ! g))) - 1, obj_4_edg d ! g)"

definition elem_locs :: "topology \<Rightarrow> dup_nodes \<Rightarrow> nat \<Rightarrow> (nat \<times> nat) list" where
  "elem_locs t d e = el_loc t d e # map (edg_loc t d) (element_edges t e)"

definition update_locs :: "(mesh_object \<Rightarrow> mesh_object) \<Rightarrow> (nat \<times> nat) list \<Rightarrow> dup_nodes \<Rightarrow> dup_nodes" where
  "update_locs f ls d = fold (\<lambda>l. update_object f (fst l) (snd l)) ls d"

lemma update_object_fields [simp]:
  "n_duplicated_nodes (update_object f k i d) = n_duplicated_nodes d" "node_dim (update_object f k i d) = node_dim d"
  "obj_4_el (update_object f k i d) = obj_4_el d" "obj_4_edg (update_object f k i d) = obj_4_edg d"
  by (simp_all add: update_object_def)

lemma update_object_valid: "valid_loc (update_object f k i d) m \<longleftrightarrow> valid_loc d m"
  by (cases "fst m = k") (auto simp: valid_loc_def update_object_def)

lemma update_object_at:
  "valid_loc d l \<Longrightarrow> obj_at (update_object f (fst l) (snd l) d) m = (if m = l then f (obj_at d m) else obj_at d m)"
  by (cases m; cases l) (auto simp: update_object_def valid_loc_def nth_list_update)

lemma update_locs_fields [simp]:
  "n_duplicated_nodes (update_locs f ls d) = n_duplicated_nodes d" "node_dim (update_locs f ls d) = node_dim d"
  "obj_4_el (update_locs f ls d) = obj_4_el d" "obj_4_edg (update_locs f ls d) = obj_4_edg d"
  "valid_loc (update_locs f ls d) m \<longleftrightarrow> valid_loc d m"
  by (induction ls arbitrary: d) (simp_all add: update_locs_def update_object_valid)

lemma update_locs_locs [simp]: "el_loc t (update_locs f ls d) = el_loc t d" "edg_loc t (update_locs f ls d) = edg_loc t d"
  "elem_locs t (update_locs f ls d) = elem_locs t d"
  by (simp_all add: fun_eq_iff el_loc_def edg_loc_def elem_locs_def)

lemma update_locs_append: "update_locs f (ls @ ms) d = update_locs f ms (update_locs f ls d)"
  by (simp add: update_locs_def)

lemma update_locs_at:
  assumes "\<And>ob. f (f ob) = f ob" and "\<forall>l \<in> set ls. valid_loc d l"
  shows "obj_at (update_locs f ls d) m = (if m \<in> set ls then f (obj_at d m) else obj_at d m)"
  using assms(2)
proof (induction ls arbitrary: d)
  case (Cons l ls)
  have "obj_at (update_locs f ls (update_object f (fst l) (snd l) d)) m =
      (if m \<in> set ls then f (obj_at (update_object f (fst l) (snd l) d) m) else obj_at (update_object f (fst l) (snd l) d) m)"
    using Cons by (simp add: update_object_valid)
  also have "obj_at (update_object f (fst l) (snd l) d) m = (if m = l then f (obj_at d m) else obj_at d m)"
    using Cons.prems by (intro update_object_at) simp
  finally show ?case by (simp add: update_locs_def assms(1))
qed (simp add: update_locs_def)

lemma replace_node_idem: "replace_node n m (replace_node n m ob) = replace_node n m ob"
  by (simp add: replace_node_def)

lemma update_locs_replace:
  "\<forall>l \<in> set ls. valid_loc d l \<Longrightarrow> obj_at (update_locs (replace_node n m) ls d) x =
     (if x \<in> set ls then replace_node n m (obj_at d x) else obj_at d x)"
  by (rule update_locs_at [OF replace_node_idem])

lemma replace_node_sel [simp]: "obj_faces (replace_node n m ob) = obj_faces ob" "obj_dim (replace_node n m ob) = obj_dim ob"
  by (simp_all add: replace_node_def)

section \<open>The mesh with its edges\<close>

text \<open>What the construction of the edges leaves.\<close>

abbreviation n_nodes_of_mesh :: "topology \<Rightarrow> nat" where "n_nodes_of_mesh t \<equiv> length (mesh_nodes (topo_mesh t))"

definition split_ready :: "topology \<Rightarrow> bool" where
  "split_ready t \<longleftrightarrow>
     (\<forall>e < bulk_of t. simplex_ok (n_nodes_of_mesh t) (elems t ! e)
        \<and> (\<forall>s \<le> dim_of (elems t ! e). \<exists>g < length (edges t). edge_idx (elems t ! e) ! s = Some g \<and> (e, s) \<in> set (edges t ! g)))
   \<and> (\<forall>g < length (edges t). edges t ! g \<noteq> [] \<and> (\<forall>x \<in> set (edges t ! g). x \<in> sides_of (elems t) (bulk_of t)
        \<and> edge_of t x = Some g \<and> side_key (elems t) x = side_key (elems t) (hd (edges t ! g))))
   \<and> lists_ok (node_elements t) (elems t) (bulk_of t) (n_nodes_of_mesh t)"

lemma split_readyD:
  assumes "split_ready t"
  shows "e < bulk_of t \<Longrightarrow> s \<le> dim_of (elems t ! e) \<Longrightarrow>
      \<exists>g < length (edges t). edge_idx (elems t ! e) ! s = Some g \<and> (e, s) \<in> set (edges t ! g)"
    and "g < length (edges t) \<Longrightarrow> edges t ! g \<noteq> []"
    and "g < length (edges t) \<Longrightarrow> x \<in> set (edges t ! g) \<Longrightarrow> x \<in> sides_of (elems t) (bulk_of t)"
    and "g < length (edges t) \<Longrightarrow> x \<in> set (edges t ! g) \<Longrightarrow> edge_of t x = Some g"
    and "g < length (edges t) \<Longrightarrow> x \<in> set (edges t ! g) \<Longrightarrow> side_key (elems t) x = side_key (elems t) (hd (edges t ! g))"
    and "lists_ok (node_elements t) (elems t) (bulk_of t) (n_nodes_of_mesh t)"
  using assms unfolding split_ready_def by blast+

abbreviation first_elem :: "topology \<Rightarrow> nat \<Rightarrow> nat" where "first_elem t g \<equiv> fst (hd (edges t ! g))"

lemma element_edges_set: "set (element_edges t e) = (\<lambda>s. the (edge_idx (elems t ! e) ! s)) ` {..dim_of (elems t ! e)}"
  by (auto simp: element_edges_def less_Suc_eq_le simp del: upt_Suc)

lemma split_ready_simplex:
  assumes "split_ready t" and "e < bulk_of t"
  shows "simplex_ok (n_nodes_of_mesh t) (elems t ! e)" and "dim_of (elems t ! e) \<in> {1, 2, 3}"
    and "length (node_idxs (elems t ! e)) = dim_of (elems t ! e) + 1" and "distinct (node_idxs (elems t ! e))"
    and "v \<in> set (node_idxs (elems t ! e)) \<Longrightarrow> v < n_nodes_of_mesh t"
    and "s \<le> dim_of (elems t ! e) \<Longrightarrow> edge_idx (elems t ! e) ! s \<noteq> None"
proof -
  show s: "simplex_ok (n_nodes_of_mesh t) (elems t ! e)" using assms by (simp add: split_ready_def)
  show "dim_of (elems t ! e) \<in> {1, 2, 3}" "length (node_idxs (elems t ! e)) = dim_of (elems t ! e) + 1"
    "distinct (node_idxs (elems t ! e))" "v \<in> set (node_idxs (elems t ! e)) \<Longrightarrow> v < n_nodes_of_mesh t"
    using s by (auto simp: simplex_ok_def node_idxs_def)
  show "edge_idx (elems t ! e) ! s \<noteq> None" if "s \<le> dim_of (elems t ! e)"
    using split_readyD(1) [OF assms that] by auto
qed

text \<open>An edge belongs to an element exactly when a side of the element is in the edge.\<close>

lemma element_edges_iff:
  assumes r: "split_ready t" and e: "e < bulk_of t"
  shows "g \<in> set (element_edges t e) \<longleftrightarrow> g < length (edges t) \<and> e \<in> fst ` set (edges t ! g)"
proof
  assume "g \<in> set (element_edges t e)"
  then obtain s where s: "s \<le> dim_of (elems t ! e)" "g = the (edge_idx (elems t ! e) ! s)" by (auto simp: element_edges_set)
  then have "g < length (edges t) \<and> (e, s) \<in> set (edges t ! g)" using split_readyD(1) [OF r e s(1)] by auto
  then show "g < length (edges t) \<and> e \<in> fst ` set (edges t ! g)" by force
next
  assume g: "g < length (edges t) \<and> e \<in> fst ` set (edges t ! g)"
  then obtain s where s: "(e, s) \<in> set (edges t ! g)" by auto
  then have "s \<le> dim_of (elems t ! e)" "edge_idx (elems t ! e) ! s = Some g"
    using split_readyD(3,4) [OF r _ s] g by (simp_all add: sides_of_def edge_of_def)
  then show "g \<in> set (element_edges t e)" unfolding element_edges_set by (intro image_eqI [of _ _ s]) simp_all
qed

lemma first_elem_facts:
  assumes r: "split_ready t" and g: "g < length (edges t)"
  shows "first_elem t g < bulk_of t" and "g \<in> set (element_edges t (first_elem t g))"
    and "e \<in> fst ` set (edges t ! g) \<Longrightarrow> e < bulk_of t"
    and "e \<in> fst ` set (edges t ! g) \<Longrightarrow> dim_of (elems t ! e) = dim_of (elems t ! first_elem t g)"
    and "e \<in> fst ` set (edges t ! g) \<Longrightarrow> set (side_node_list (elems t) (hd (edges t ! g))) \<subseteq> set (node_idxs (elems t ! e))"
proof -
  have ne: "hd (edges t ! g) \<in> set (edges t ! g)" using split_readyD(2) [OF r g] by simp
  note in_sides = split_readyD(3,5) [OF r g]
  show lt: "e < bulk_of t" if "e \<in> fst ` set (edges t ! g)" for e using in_sides(1) that by (auto simp: sides_of_def)
  show first: "first_elem t g < bulk_of t" by (rule lt) (use ne in simp)
  show "g \<in> set (element_edges t (first_elem t g))" using element_edges_iff [OF r first] g ne by auto
  show "dim_of (elems t ! e) = dim_of (elems t ! first_elem t g)" if "e \<in> fst ` set (edges t ! g)"
    using in_sides(2) that by (auto simp: side_key_def)
  show "set (side_node_list (elems t) (hd (edges t ! g))) \<subseteq> set (node_idxs (elems t ! e))" if e: "e \<in> fst ` set (edges t ! g)"
  proof -
    obtain s where s: "(e, s) \<in> set (edges t ! g)" using e by auto
    have "s \<le> dim_of (elems t ! e)" using in_sides(1) [OF s] by (simp add: sides_of_def)
    then have "set (side_node_list (elems t) (e, s)) \<subseteq> set (node_idxs (elems t ! e))"
      using side_nodes_facts(1) [OF split_ready_simplex(1) [OF r lt [OF e]]] by blast
    then show ?thesis using in_sides(2) [OF s] by (simp add: side_key_def)
  qed
qed

lemma adjacent_elems_iff:
  assumes r: "split_ready t" and e: "e < bulk_of t"
  shows "b \<in> set (adjacent_elems t e) \<longleftrightarrow> (\<exists>g < length (edges t). e \<in> fst ` set (edges t ! g) \<and> b \<in> fst ` set (edges t ! g))"
  using element_edges_iff [OF r e] by (auto simp: adjacent_elems_def)

section \<open>Labels\<close>

text \<open>
  The objects carry the nodes of the elements and edges through a label for every pair of a node and an element; an edge has
  the labels of its first element.
\<close>

definition labelled :: "topology \<Rightarrow> (nat \<Rightarrow> nat \<Rightarrow> nat) \<Rightarrow> dup_nodes \<Rightarrow> bool" where
  "labelled t L d \<longleftrightarrow>
     (\<forall>e < bulk_of t. valid_loc d (el_loc t d e) \<and> obj_at d (el_loc t d e) =
        \<lparr>obj_dim = dim_of (elems t ! e), obj_nodes = map (\<lambda>v. L v e) (node_idxs (elems t ! e)),
         obj_faces = map (nth (obj_4_edg d)) (element_edges t e)\<rparr>)
   \<and> (\<forall>g < length (edges t). valid_loc d (edg_loc t d g) \<and> obj_at d (edg_loc t d g) =
        \<lparr>obj_dim = dim_of (elems t ! first_elem t g) - 1,
         obj_nodes = map (\<lambda>v. L v (first_elem t g)) (side_node_list (elems t) (hd (edges t ! g))), obj_faces = []\<rparr>)
   \<and> inj_on (el_loc t d) {..<bulk_of t} \<and> inj_on (edg_loc t d) {..<length (edges t)}
   \<and> el_loc t d ` {..<bulk_of t} \<inter> edg_loc t d ` {..<length (edges t)} = {}"

lemma labelledD:
  assumes "labelled t L d"
  shows "e < bulk_of t \<Longrightarrow> valid_loc d (el_loc t d e)"
    and "e < bulk_of t \<Longrightarrow> obj_at d (el_loc t d e) =
        \<lparr>obj_dim = dim_of (elems t ! e), obj_nodes = map (\<lambda>v. L v e) (node_idxs (elems t ! e)),
         obj_faces = map (nth (obj_4_edg d)) (element_edges t e)\<rparr>"
    and "g < length (edges t) \<Longrightarrow> valid_loc d (edg_loc t d g)"
    and "g < length (edges t) \<Longrightarrow> obj_at d (edg_loc t d g) =
        \<lparr>obj_dim = dim_of (elems t ! first_elem t g) - 1,
         obj_nodes = map (\<lambda>v. L v (first_elem t g)) (side_node_list (elems t) (hd (edges t ! g))), obj_faces = []\<rparr>"
    and "inj_on (el_loc t d) {..<bulk_of t}" and "inj_on (edg_loc t d) {..<length (edges t)}"
    and "el_loc t d ` {..<bulk_of t} \<inter> edg_loc t d ` {..<length (edges t)} = {}"
  using assms unfolding labelled_def by blast+

text \<open>Only the labels of the nodes of an element matter.\<close>

lemma labelled_cong:
  assumes r: "split_ready t" and l: "labelled t L d"
    and eq: "\<And>e v. e < bulk_of t \<Longrightarrow> v \<in> set (node_idxs (elems t ! e)) \<Longrightarrow> L' v e = L v e"
  shows "labelled t L' d"
proof -
  note D = labelledD [OF l]
  have "map (\<lambda>v. L' v e) (node_idxs (elems t ! e)) = map (\<lambda>v. L v e) (node_idxs (elems t ! e))" if "e < bulk_of t" for e
    using eq [OF that] by simp
  moreover have "map (\<lambda>v. L' v (first_elem t g)) (side_node_list (elems t) (hd (edges t ! g))) =
      map (\<lambda>v. L v (first_elem t g)) (side_node_list (elems t) (hd (edges t ! g)))" if g: "g < length (edges t)" for g
    using eq [OF first_elem_facts(1) [OF r g]] first_elem_facts(5) [OF r g, of "first_elem t g"] split_readyD(2) [OF r g] by fastforce
  ultimately show ?thesis using D unfolding labelled_def by simp
qed

text \<open>Updating an element is updating its places, which stay the same.\<close>

definition faces_kept :: "topology \<Rightarrow> dup_nodes \<Rightarrow> bool" where
  "faces_kept t d \<longleftrightarrow> (\<forall>e < bulk_of t. valid_loc d (el_loc t d e)
        \<and> obj_faces (obj_at d (el_loc t d e)) = map (nth (obj_4_edg d)) (element_edges t e))
   \<and> (\<forall>g < length (edges t). valid_loc d (edg_loc t d g))"

lemma labelled_faces_kept: "labelled t L d \<Longrightarrow> faces_kept t d"
  by (simp add: labelled_def faces_kept_def)

lemma elem_locs_valid:
  assumes r: "split_ready t" and k: "faces_kept t d" and e: "e < bulk_of t"
  shows "\<forall>l \<in> set (elem_locs t d e). valid_loc d l"
  using k e element_edges_iff [OF r e] by (auto simp: elem_locs_def faces_kept_def)

lemma update_locs_faces_kept:
  assumes "faces_kept t d" and "\<forall>l \<in> set ls. valid_loc d l"
  shows "faces_kept t (update_locs (replace_node n m) ls d)"
  using assms(1) update_locs_replace [OF assms(2)] by (simp add: faces_kept_def)

lemma update_element_locs:
  assumes r: "split_ready t" and k: "faces_kept t d" and e: "e < bulk_of t"
  shows "update_element t n m e d = update_locs (replace_node n m) (elem_locs t d e) d"
proof -
  let ?k = "dim_of (elems t ! e)" and ?E = "element_edges t e"
  let ?d1 = "update_object (replace_node n m) ?k (obj_4_el d ! e) d"
  have v: "valid_loc d (el_loc t d e)" using k e by (simp add: faces_kept_def)
  have "obj_faces (obj_at ?d1 (el_loc t d e)) = obj_faces (obj_at d (el_loc t d e))"
    using update_object_at [OF v, of "replace_node n m" "el_loc t d e"] by (simp add: el_loc_def)
  then have f: "obj_faces (objects ?d1 ! ?k ! (obj_4_el d ! e)) = map (nth (obj_4_edg d)) ?E"
    using k e by (simp add: faces_kept_def el_loc_def)
  have len: "length ?E = ?k + 1" by (simp add: element_edges_def)
  have l: "edg_loc t d (?E ! i) = (?k - 1, obj_4_edg d ! (?E ! i))" if i: "i < ?k + 1" for i
  proof -
    have "?E ! i \<in> set ?E" using i len by simp
    then have "?E ! i < length (edges t) \<and> e \<in> fst ` set (edges t ! (?E ! i))" using element_edges_iff [OF r e] by blast
    then have "dim_of (elems t ! e) = dim_of (elems t ! first_elem t (?E ! i))" using first_elem_facts(4) [OF r] by blast
    then show ?thesis by (simp add: edg_loc_def)
  qed
  have eq: "map (edg_loc t d) ?E = map (\<lambda>i. (?k - 1, obj_faces (objects ?d1 ! ?k ! (obj_4_el d ! e)) ! i)) [0..<?k + 1]"
    unfolding f by (rule nth_equalityI) (simp_all add: len l del: upt_Suc)
  have "update_locs (replace_node n m) (elem_locs t d e) d = update_locs (replace_node n m) (map (edg_loc t d) ?E) ?d1"
    by (simp add: elem_locs_def update_locs_def el_loc_def)
  also have "\<dots> = update_element t n m e d"
    unfolding eq update_element_def Let_def update_locs_def fold_map o_def by simp
  finally show ?thesis by simp
qed

lemma fold_update_element:
  assumes r: "split_ready t" and "faces_kept t d" and "\<forall>e \<in> set c. e < bulk_of t"
  shows "fold (update_element t n m) c d = update_locs (replace_node n m) (concat (map (elem_locs t d) c)) d"
  using assms(2,3)
proof (induction c arbitrary: d)
  case (Cons e c)
  have "update_element t n m e d = update_locs (replace_node n m) (elem_locs t d e) d"
    using Cons.prems by (intro update_element_locs [OF r]) simp_all
  moreover have "faces_kept t (update_locs (replace_node n m) (elem_locs t d e) d)"
    using Cons.prems by (intro update_locs_faces_kept elem_locs_valid [OF r]) simp_all
  ultimately show ?case using Cons by (simp add: update_locs_append)
qed (simp add: update_locs_def)

text \<open>A component of the elements at a node gets a new label.\<close>

lemma labelled_component:
  assumes r: "split_ready t" and l: "labelled t L d" and c: "\<forall>e \<in> set c. e < bulk_of t"
    and whole: "\<And>g e. g < length (edges t) \<Longrightarrow> n \<in> set (side_node_list (elems t) (hd (edges t ! g))) \<Longrightarrow> e \<in> set c \<Longrightarrow>
      e \<in> fst ` set (edges t ! g) \<Longrightarrow> first_elem t g \<in> set c"
    and other: "\<And>e v. e < bulk_of t \<Longrightarrow> v \<in> set (node_idxs (elems t ! e)) \<Longrightarrow> v \<noteq> n \<Longrightarrow> L v e \<noteq> n"
    and old: "\<And>e. e \<in> set c \<Longrightarrow> L n e = n"
  shows "labelled t (\<lambda>v e. if v = n \<and> e \<in> set c then m else L v e) (fold (update_element t n m) c d)"
proof -
  let ?ls = "concat (map (elem_locs t d) c)" and ?L = "\<lambda>v e. if v = n \<and> e \<in> set c then m else L v e"
  let ?d = "update_locs (replace_node n m) ?ls d"
  note D = labelledD [OF l] and k = labelled_faces_kept [OF l]
  have run: "fold (update_element t n m) c d = ?d" by (rule fold_update_element [OF r k c])
  have "\<forall>x \<in> set ?ls. valid_loc d x" using elem_locs_valid [OF r k] c by auto
  note at = update_locs_replace [OF this, of n m]
  have ls: "set ?ls = el_loc t d ` set c \<union> edg_loc t d ` {g. g < length (edges t) \<and> (\<exists>e \<in> set c. e \<in> fst ` set (edges t ! g))}"
  proof -
    have "(\<Union>e \<in> set c. set (element_edges t e)) = {g. g < length (edges t) \<and> (\<exists>e \<in> set c. e \<in> fst ` set (edges t ! g))}"
      using element_edges_iff [OF r] c by blast
    moreover have "set ?ls = el_loc t d ` set c \<union> edg_loc t d ` (\<Union>e \<in> set c. set (element_edges t e))"
      by (auto simp: elem_locs_def)
    ultimately show ?thesis by simp
  qed
  have rep: "map (\<lambda>v. if v = n then m else v) (map (\<lambda>v. L v e) ns) = map (\<lambda>v. ?L v e) ns"
    if "e \<in> set c" "e < bulk_of t" "set ns \<subseteq> set (node_idxs (elems t ! e))" for e ns
    using that other old by auto
  have elem: "obj_at ?d (el_loc t d e) = \<lparr>obj_dim = dim_of (elems t ! e), obj_nodes = map (\<lambda>v. ?L v e) (node_idxs (elems t ! e)),
      obj_faces = map (nth (obj_4_edg d)) (element_edges t e)\<rparr>" if e: "e < bulk_of t" for e
  proof -
    have "el_loc t d e \<in> set ?ls \<longleftrightarrow> e \<in> set c"
      unfolding ls using e c D(7) inj_onD [OF D(5)] by fastforce
    then show ?thesis using at [of "el_loc t d e"] D(2) [OF e] rep [of e "node_idxs (elems t ! e)"] e by (simp add: replace_node_def)
  qed
  have edge: "obj_at ?d (edg_loc t d g) = \<lparr>obj_dim = dim_of (elems t ! first_elem t g) - 1,
      obj_nodes = map (\<lambda>v. ?L v (first_elem t g)) (side_node_list (elems t) (hd (edges t ! g))), obj_faces = []\<rparr>"
    if g: "g < length (edges t)" for g
  proof -
    let ?h = "first_elem t g" and ?ns = "side_node_list (elems t) (hd (edges t ! g))"
    have h: "?h \<in> fst ` set (edges t ! g)" using split_readyD(2) [OF r g] by simp
    have sub: "set ?ns \<subseteq> set (node_idxs (elems t ! ?h))" by (rule first_elem_facts(5) [OF r g h])
    have iff: "edg_loc t d g \<in> set ?ls \<longleftrightarrow> (\<exists>e \<in> set c. e \<in> fst ` set (edges t ! g))"
      unfolding ls using g c D(7) inj_onD [OF D(6)] by fastforce
    show ?thesis
    proof (cases "?h \<in> set c")
      case True
      then show ?thesis
        using at [of "edg_loc t d g"] iff h D(4) [OF g] rep [OF True first_elem_facts(1) [OF r g] sub] by (auto simp: replace_node_def)
    next
      case False
      have same: "map (\<lambda>v. if v = n then m else v) (map (\<lambda>v. L v ?h) ?ns) = map (\<lambda>v. L v ?h) ?ns"
        if "e \<in> set c" "e \<in> fst ` set (edges t ! g)" for e
      proof -
        have "n \<notin> set ?ns" using whole [OF g _ that] False by blast
        then have "L v ?h \<noteq> n" if "v \<in> set ?ns" for v
          using other [OF first_elem_facts(1) [OF r g], of v] sub that by (cases "v = n") auto
        then show ?thesis by simp
      qed
      have "obj_at ?d (edg_loc t d g) = obj_at d (edg_loc t d g)"
      proof (cases "\<exists>e \<in> set c. e \<in> fst ` set (edges t ! g)")
        case True
        then obtain e where "e \<in> set c" "e \<in> fst ` set (edges t ! g)" by blast
        from same [OF this] show ?thesis using at [of "edg_loc t d g"] by (simp add: replace_node_def D(4) [OF g])
      qed (use at [of "edg_loc t d g"] iff in simp)
      then show ?thesis using D(4) [OF g] False by simp
    qed
  qed
  show ?thesis unfolding run labelled_def update_locs_fields update_locs_locs using D(1,3,5,6,7) elem edge by blast
qed

text \<open>The position of the component of an element.\<close>

definition comp_index :: "nat list list \<Rightarrow> nat \<Rightarrow> nat" where
  "comp_index cs e = length (takeWhile (\<lambda>c. e \<notin> set c) cs)"

lemma comp_index_Cons: "comp_index (c # cs) e = (if e \<in> set c then 0 else Suc (comp_index cs e))"
  by (simp add: comp_index_def)

lemma comp_index_nth: "e \<in> (\<Union>c \<in> set cs. set c) \<Longrightarrow> comp_index cs e < length cs \<and> e \<in> set (cs ! comp_index cs e)"
  by (induction cs) (auto simp: comp_index_Cons)

lemma duplicate_component_fields:
  assumes r: "split_ready t" and "labelled t L d" and "\<forall>e \<in> set c. e < bulk_of t"
  shows "n_duplicated_nodes (duplicate_component t n c d) = n_duplicated_nodes d + 1"
    and "node_dim (duplicate_component t n c d) = node_dim d @ [dim_of (elems t ! hd c)]"
proof -
  let ?d = "d\<lparr>n_duplicated_nodes := n_duplicated_nodes d + 1, node_dim := node_dim d @ [dim_of (elems t ! hd c)]\<rparr>"
  have "faces_kept t ?d" using labelled_faces_kept [OF assms(2)] by (simp add: faces_kept_def valid_loc_def el_loc_def edg_loc_def)
  note run = fold_update_element [OF r this assms(3)]
  show "n_duplicated_nodes (duplicate_component t n c d) = n_duplicated_nodes d + 1"
    "node_dim (duplicate_component t n c d) = node_dim d @ [dim_of (elems t ! hd c)]"
    unfolding duplicate_component_def run by simp_all
qed

lemma labelled_fields:
  "labelled t L (d\<lparr>n_duplicated_nodes := a\<rparr>) \<longleftrightarrow> labelled t L d" "labelled t L (d\<lparr>node_dim := b\<rparr>) \<longleftrightarrow> labelled t L d"
  by (simp_all add: labelled_def valid_loc_def el_loc_def edg_loc_def inj_on_def)

text \<open>The components of the elements at a node: together with one element of an edge at the node they have all of them.\<close>

definition whole_components :: "topology \<Rightarrow> nat \<Rightarrow> nat list list \<Rightarrow> bool" where
  "whole_components t n cs \<longleftrightarrow> (\<forall>c \<in> set cs. \<forall>e \<in> set c. e < bulk_of t)
     \<and> (\<forall>c \<in> set cs. \<forall>g < length (edges t). n \<in> set (side_node_list (elems t) (hd (edges t ! g))) \<longrightarrow>
          (\<exists>e \<in> set c. e \<in> fst ` set (edges t ! g)) \<longrightarrow> first_elem t g \<in> set c)
     \<and> (\<forall>i < length cs. \<forall>j < length cs. i \<noteq> j \<longrightarrow> set (cs ! i) \<inter> set (cs ! j) = {})"

lemma whole_components_Cons:
  assumes "whole_components t n (c # cs)"
  shows "whole_components t n cs" and "\<forall>e \<in> set c. e < bulk_of t" and "\<And>c'. c' \<in> set cs \<Longrightarrow> set c \<inter> set c' = {}"
    and "\<And>g e. g < length (edges t) \<Longrightarrow> n \<in> set (side_node_list (elems t) (hd (edges t ! g))) \<Longrightarrow> e \<in> set c \<Longrightarrow>
      e \<in> fst ` set (edges t ! g) \<Longrightarrow> first_elem t g \<in> set c"
proof -
  have disj: "set ((c # cs) ! i) \<inter> set ((c # cs) ! j) = {}" if "i < Suc (length cs)" "j < Suc (length cs)" "i \<noteq> j" for i j
    using assms that by (simp add: whole_components_def)
  have "set (cs ! i) \<inter> set (cs ! j) = {}" if "i < length cs" "j < length cs" "i \<noteq> j" for i j
    using disj [of "Suc i" "Suc j"] that by simp
  then show "whole_components t n cs" using assms unfolding whole_components_def by simp
  show "set c \<inter> set c' = {}" if c': "c' \<in> set cs" for c'
  proof -
    obtain j where "j < length cs" "c' = cs ! j" using c' by (auto simp: in_set_conv_nth)
    then show ?thesis using disj [of 0 "Suc j"] by simp
  qed
  have "c \<in> set (c # cs)" by simp
  then show "\<forall>e \<in> set c. e < bulk_of t" "\<And>g e. g < length (edges t) \<Longrightarrow> n \<in> set (side_node_list (elems t) (hd (edges t ! g))) \<Longrightarrow>
      e \<in> set c \<Longrightarrow> e \<in> fst ` set (edges t ! g) \<Longrightarrow> first_elem t g \<in> set c"
    using assms unfolding whole_components_def by blast+
qed

lemma fold_duplicate_component:
  assumes r: "split_ready t" and "labelled t L d" and "whole_components t n cs"
    and "\<And>e v. e < bulk_of t \<Longrightarrow> v \<in> set (node_idxs (elems t ! e)) \<Longrightarrow> v \<noteq> n \<Longrightarrow> L v e \<noteq> n"
    and "\<And>e c. c \<in> set cs \<Longrightarrow> e \<in> set c \<Longrightarrow> L n e = n"
  shows "labelled t (\<lambda>v e. if v = n \<and> e \<in> (\<Union>c \<in> set cs. set c) then n_duplicated_nodes d + comp_index cs e else L v e)
      (fold (duplicate_component t n) cs d)"
    and "n_duplicated_nodes (fold (duplicate_component t n) cs d) = n_duplicated_nodes d + length cs"
    and "node_dim (fold (duplicate_component t n) cs d) = node_dim d @ map (\<lambda>c. dim_of (elems t ! hd c)) cs"
  using assms(2-)
proof (induction cs arbitrary: d L)
  case Nil
  { case 1 then show ?case by simp next
    case 2 show ?case by simp next
    case 3 show ?case by simp }
next
  case (Cons c cs)
  { fix L d
    assume l: "labelled t L d" and w: "whole_components t n (c # cs)"
      and o: "\<And>e v. e < bulk_of t \<Longrightarrow> v \<in> set (node_idxs (elems t ! e)) \<Longrightarrow> v \<noteq> n \<Longrightarrow> L v e \<noteq> n"
      and old: "\<And>e c'. c' \<in> set (c # cs) \<Longrightarrow> e \<in> set c' \<Longrightarrow> L n e = n"
    let ?N = "n_duplicated_nodes d" and ?d = "duplicate_component t n c d"
    let ?L = "\<lambda>v e. if v = n \<and> e \<in> set c then ?N else L v e"
    note W = whole_components_Cons [OF w]
    note F = duplicate_component_fields [OF r l W(2), of n]
    have l': "labelled t ?L ?d"
      unfolding duplicate_component_def
    proof (rule labelled_component [OF r _ W(2)])
      show "first_elem t g \<in> set c" if "g < length (edges t)" "n \<in> set (side_node_list (elems t) (hd (edges t ! g)))" "e \<in> set c"
        "e \<in> fst ` set (edges t ! g)" for g e
        by (rule W(4) [OF that])
      show "L n e = n" if "e \<in> set c" for e using old [of c e] that by simp
    qed (simp_all add: labelled_fields l o)
    have o': "?L v e \<noteq> n" if "e < bulk_of t" "v \<in> set (node_idxs (elems t ! e))" "v \<noteq> n" for e v
      using o [OF that] that(3) by simp
    have old': "?L n e = n" if "c' \<in> set cs" "e \<in> set c'" for e c'
      using old [of c' e] W(3) [OF that(1)] that by auto
    note IH = Cons.IH [OF l' W(1) o' old', simplified]
    have "labelled t (\<lambda>v e. if v = n \<and> e \<in> (\<Union>c' \<in> set (c # cs). set c') then ?N + comp_index (c # cs) e else L v e)
        (fold (duplicate_component t n) cs ?d)"
    proof (rule labelled_cong [OF r IH(1)])
      fix e v
      show "(if v = n \<and> e \<in> (\<Union>c' \<in> set (c # cs). set c') then ?N + comp_index (c # cs) e else L v e) =
          (if v = n \<and> (\<exists>x \<in> set cs. e \<in> set x) then n_duplicated_nodes ?d + comp_index cs e else ?L v e)"
        using W(3) by (auto simp: comp_index_Cons F(1))
    qed
    note this IH(2,3) F }
  note step = this
  { case 1
    then show ?case using step(1) by simp
  next
    case 2
    then show ?case using step(2,4) by simp
  next
    case 3
    then show ?case using step(3,5) by simp }
qed

section \<open>All nodes\<close>

text \<open>The components at a node, the first new label of a node and the label of a node in an element.\<close>

definition node_components :: "topology \<Rightarrow> nat \<Rightarrow> nat list list" where
  "node_components t v = split_components (adjacent_elems t) (node_elements t ! v)"

definition first_label :: "topology \<Rightarrow> nat \<Rightarrow> nat" where
  "first_label t v = n_nodes_of_mesh t + (\<Sum>w \<leftarrow> [0..<v]. length (node_components t w) - 1)"

definition node_label :: "topology \<Rightarrow> nat \<Rightarrow> nat \<Rightarrow> nat" where
  "node_label t v e = (let j = comp_index (node_components t v) e in if j = 0 then v else first_label t v + (j - 1))"

lemma first_label_Suc: "first_label t (Suc v) = first_label t v + (length (node_components t v) - 1)"
  by (simp add: first_label_def)

lemma first_label_ge: "n_nodes_of_mesh t \<le> first_label t v"
  by (simp add: first_label_def)

lemma first_label_mono: "v \<le> w \<Longrightarrow> first_label t v \<le> first_label t w"
  by (rule lift_Suc_mono_le) (simp_all add: first_label_Suc)

lemma node_elements_set:
  assumes "split_ready t" and "v < n_nodes_of_mesh t"
  shows "distinct (node_elements t ! v)" and "set (node_elements t ! v) = {e. e < bulk_of t \<and> v \<in> set (node_idxs (elems t ! e))}"
  using split_readyD(6) [OF assms(1)] assms(2) by (simp_all add: lists_ok_def)

lemma node_components_of:
  assumes r: "split_ready t" and v: "v < n_nodes_of_mesh t"
  shows "components_of (adjacent_elems t) (set (node_elements t ! v)) (node_components t v)"
  unfolding node_components_def
proof (rule split_components_ok [OF _ node_elements_set(1) [OF r v]], intro ballI impI)
  fix a b assume "a \<in> set (node_elements t ! v)" "b \<in> set (node_elements t ! v)" and b: "b \<in> set (adjacent_elems t a)"
  then have "a < bulk_of t" "b < bulk_of t" by (simp_all add: node_elements_set(2) [OF r v])
  then show "a \<in> set (adjacent_elems t b)" using b adjacent_elems_iff [OF r] by blast
qed

lemma components_ofD:
  assumes "components_of adj V cs"
  shows "(\<Union>c \<in> set cs. set c) = V" and "c \<in> set cs \<Longrightarrow> c \<noteq> []"
    and "i < length cs \<Longrightarrow> j < length cs \<Longrightarrow> i \<noteq> j \<Longrightarrow> set (cs ! i) \<inter> set (cs ! j) = {}"
    and "c \<in> set cs \<Longrightarrow> a \<in> set c \<Longrightarrow> b \<in> V \<Longrightarrow> connected_in adj V a b \<longleftrightarrow> b \<in> set c"
  using assms unfolding components_of_def by blast+

lemma comp_index_connected:
  assumes c: "components_of adj V cs" and a: "a \<in> V" and b: "b \<in> V"
  shows "comp_index cs a = comp_index cs b \<longleftrightarrow> connected_in adj V a b"
proof -
  note D = components_ofD [OF c]
  have i: "comp_index cs a < length cs \<and> a \<in> set (cs ! comp_index cs a)" "comp_index cs b < length cs \<and> b \<in> set (cs ! comp_index cs b)"
    using comp_index_nth a b unfolding D(1) [symmetric] by blast+
  have "connected_in adj V a b \<longleftrightarrow> b \<in> set (cs ! comp_index cs a)" using D(4) [of "cs ! comp_index cs a" a b] i b by simp
  also have "\<dots> \<longleftrightarrow> comp_index cs a = comp_index cs b" using i D(3) [of "comp_index cs a" "comp_index cs b"] by auto
  finally show ?thesis by simp
qed

lemma node_components_whole:
  assumes r: "split_ready t" and v: "v < n_nodes_of_mesh t"
  shows "whole_components t v (node_components t v)"
proof -
  let ?cs = "node_components t v" and ?V = "set (node_elements t ! v)"
  note D = components_ofD [OF node_components_of [OF r v]]
  have sub: "e \<in> ?V" if "c \<in> set ?cs" "e \<in> set c" for c e using D(1) that by blast
  have "first_elem t g \<in> set c"
    if c: "c \<in> set ?cs" and g: "g < length (edges t)" and n: "v \<in> set (side_node_list (elems t) (hd (edges t ! g)))"
      and e: "e \<in> set c" "e \<in> fst ` set (edges t ! g)" for c g e
  proof -
    let ?h = "first_elem t g"
    have h: "?h \<in> fst ` set (edges t ! g)" using split_readyD(2) [OF r g] by simp
    have "v \<in> set (node_idxs (elems t ! ?h))" using first_elem_facts(5) [OF r g h] n by auto
    then have V: "?h \<in> ?V" using first_elem_facts(1) [OF r g] by (simp add: node_elements_set(2) [OF r v])
    have "?h \<in> set (adjacent_elems t e)" using adjacent_elems_iff [OF r first_elem_facts(3) [OF r g e(2)]] g e(2) h by blast
    then have "connected_in (adjacent_elems t) ?V e ?h"
      using sub [OF c e(1)] V by (auto simp: connected_in_def linked_def)
    then show ?thesis using D(4) [OF c e(1) V] by simp
  qed
  then show ?thesis
    using sub node_elements_set(2) [OF r v] D(3) unfolding whole_components_def by blast
qed

text \<open>The elements of a component have the same dimension.\<close>

lemma connected_dim:
  assumes r: "split_ready t" and v: "v < n_nodes_of_mesh t" and c: "connected_in (adjacent_elems t) (set (node_elements t ! v)) a b"
  shows "dim_of (elems t ! b) = dim_of (elems t ! a)"
  using c unfolding connected_in_def
proof (induction rule: rtrancl_induct)
  case (step x y)
  then have "x < bulk_of t" "y \<in> set (adjacent_elems t x)"
    by (simp_all add: linked_def node_elements_set(2) [OF r v])
  then obtain g where "g < length (edges t)" "x \<in> fst ` set (edges t ! g)" "y \<in> fst ` set (edges t ! g)"
    using adjacent_elems_iff [OF r] by blast
  then have "dim_of (elems t ! y) = dim_of (elems t ! x)" using first_elem_facts(4) [OF r] by metis
  then show ?case using step.IH by simp
qed simp

lemma component_dim:
  assumes r: "split_ready t" and v: "v < n_nodes_of_mesh t" and c: "c \<in> set (node_components t v)" and e: "e \<in> set c"
  shows "dim_of (elems t ! hd c) = dim_of (elems t ! e)"
proof -
  note D = components_ofD [OF node_components_of [OF r v]]
  have h: "hd c \<in> set c" using D(2) [OF c] by simp
  then have "hd c \<in> set (node_elements t ! v)" using D(1) c by blast
  then show ?thesis using connected_dim [OF r v] D(4) [OF c e] h by blast
qed

definition dup_inv :: "topology \<Rightarrow> nat \<Rightarrow> dup_nodes \<Rightarrow> bool" where
  "dup_inv t n d \<longleftrightarrow> labelled t (\<lambda>v e. if v < n then node_label t v e else v) d \<and> n_duplicated_nodes d = first_label t n
     \<and> length (node_dim d) = first_label t n
     \<and> (\<forall>v < n. \<forall>e \<in> set (node_elements t ! v). node_dim d ! node_label t v e = dim_of (elems t ! e))"

lemma node_label_bounds:
  assumes r: "split_ready t" and v: "v < n_nodes_of_mesh t" and e: "e \<in> set (node_elements t ! v)"
  shows "node_label t v e = v \<or> first_label t v \<le> node_label t v e \<and> node_label t v e < first_label t (Suc v)"
proof -
  have "comp_index (node_components t v) e < length (node_components t v)"
    using comp_index_nth [of e "node_components t v"] e components_ofD(1) [OF node_components_of [OF r v]] by blast
  then show ?thesis by (auto simp: node_label_def Let_def first_label_Suc)
qed

lemma node_label_less:
  assumes "split_ready t" and "v < n_nodes_of_mesh t" and "e \<in> set (node_elements t ! v)" and "v < n"
  shows "node_label t v e < first_label t n"
  using node_label_bounds [OF assms(1-3)] first_label_ge [of t n] first_label_mono [of "Suc v" n t] assms(2,4) by auto

lemma duplicate_node_step:
  assumes r: "split_ready t" and n: "n < n_nodes_of_mesh t" and inv: "dup_inv t n d"
  shows "dup_inv t (Suc n) (duplicate_node t n d)"
proof -
  let ?L = "\<lambda>v e. if v < n then node_label t v e else v"
  have I: "labelled t ?L d" "n_duplicated_nodes d = first_label t n" "length (node_dim d) = first_label t n"
    "\<And>v e. v < n \<Longrightarrow> e \<in> set (node_elements t ! v) \<Longrightarrow> node_dim d ! node_label t v e = dim_of (elems t ! e)"
    using inv by (simp_all add: dup_inv_def)
  note V = node_elements_set(2) [OF r n] and D = components_ofD [OF node_components_of [OF r n]]
  have ge: "n < first_label t n" using first_label_ge [of t n] n by simp
  have old: "node_label t v e \<noteq> n \<and> node_label t v e < first_label t n" if "v < n" "e \<in> set (node_elements t ! v)" for v e
    using node_label_bounds [OF r _ that(2)] node_label_less [OF r _ that(2,1)] first_label_ge [of t v] that(1) n by fastforce
  show ?thesis
  proof (cases "node_components t n")
    case Nil
    then have e: "e \<notin> set (node_elements t ! n)" for e using D(1) by auto
    have "labelled t (\<lambda>v e. if v < Suc n then node_label t v e else v) d"
      by (rule labelled_cong [OF r I(1)]) (use e in \<open>auto simp: less_Suc_eq V\<close>)
    moreover have "first_label t (Suc n) = first_label t n" by (simp add: first_label_Suc Nil)
    moreover have "duplicate_node t n d = d" using Nil by (simp add: duplicate_node_def node_components_def)
    ultimately show ?thesis using I e by (auto simp: dup_inv_def less_Suc_eq)
  next
    case (Cons c cs)
    let ?d = "d\<lparr>node_dim := (node_dim d)[n := dim_of (elems t ! hd c)]\<rparr>" and ?U = "\<Union>c' \<in> set cs. set c'"
    have run: "duplicate_node t n d = fold (duplicate_component t n) cs ?d"
      using Cons by (simp add: duplicate_node_def node_components_def)
    note W = whole_components_Cons [OF node_components_whole [OF r n, unfolded Cons]]
    have "labelled t ?L ?d" using I(1) by (simp add: labelled_fields)
    moreover have "?L v e \<noteq> n" if e: "e < bulk_of t" "v \<in> set (node_idxs (elems t ! e))" "v \<noteq> n" for v e
    proof (cases "v < n")
      case True
      then have "e \<in> set (node_elements t ! v)" using node_elements_set(2) [OF r, of v] n e by simp
      then show ?thesis using old [OF True] True by simp
    qed (use e in simp)
    ultimately have F: "labelled t (\<lambda>v e. if v = n \<and> e \<in> ?U then n_duplicated_nodes ?d + comp_index cs e else ?L v e) (duplicate_node t n d)"
      "n_duplicated_nodes (duplicate_node t n d) = n_duplicated_nodes ?d + length cs"
      "node_dim (duplicate_node t n d) = node_dim ?d @ map (\<lambda>c. dim_of (elems t ! hd c)) cs"
      unfolding run by (rule fold_duplicate_component [OF r _ W(1)]; simp)+
    have split: "e \<in> set c \<and> e \<notin> ?U \<and> node_label t n e = n \<or>
        e \<notin> set c \<and> e \<in> ?U \<and> node_label t n e = first_label t n + comp_index cs e" if e: "e \<in> set (node_elements t ! n)" for e
    proof (cases "e \<in> set c")
      case True
      then have "e \<notin> ?U" using W(3) by blast
      then show ?thesis using True by (simp add: node_label_def Cons comp_index_Cons)
    next
      case False
      then have "e \<in> ?U" using e D(1) unfolding Cons by auto
      then show ?thesis using False by (simp add: node_label_def Cons comp_index_Cons)
    qed
    have "labelled t (\<lambda>v e. if v < Suc n then node_label t v e else v) (duplicate_node t n d)"
    proof (rule labelled_cong [OF r F(1)])
      fix e v assume e: "e < bulk_of t" "v \<in> set (node_idxs (elems t ! e))"
      show "(if v < Suc n then node_label t v e else v) =
          (if v = n \<and> e \<in> ?U then n_duplicated_nodes ?d + comp_index cs e else ?L v e)"
        using split [of e] e V I(2) by (cases "v = n") auto
    qed
    moreover have "first_label t (Suc n) = first_label t n + length cs" by (simp add: first_label_Suc Cons)
    moreover have "node_dim (duplicate_node t n d) ! node_label t v e = dim_of (elems t ! e)"
      if v: "v < Suc n" and e: "e \<in> set (node_elements t ! v)" for v e
    proof (cases "v = n")
      case False
      then have "v < n" using v by simp
      then show ?thesis using old [OF _ e] I(3,4) e by (simp add: F(3) nth_append)
    next
      case True
      have dims: "c' \<in> set (c # cs) \<Longrightarrow> e \<in> set c' \<Longrightarrow> dim_of (elems t ! hd c') = dim_of (elems t ! e)" for c'
        using component_dim [OF r n] unfolding Cons by blast
      from split [of e] e True consider (first) "e \<in> set c" "node_label t n e = n"
        | (later) "e \<in> ?U" "node_label t n e = first_label t n + comp_index cs e" by blast
      then show ?thesis
      proof cases
        case first
        then show ?thesis using ge I(3) dims [of c] True by (simp add: F(3) nth_append)
      next
        case later
        then have "comp_index cs e < length cs" "e \<in> set (cs ! comp_index cs e)" using comp_index_nth by blast+
        then show ?thesis using later I(3) dims [of "cs ! comp_index cs e"] True by (simp add: F(3) nth_append)
      qed
    qed
    ultimately show ?thesis using F(2,3) I(2,3) by (simp add: dup_inv_def)
  qed
qed

lemma duplicate_all_nodes:
  assumes r: "split_ready t" and "dup_inv t 0 d" and "n \<le> n_nodes_of_mesh t"
  shows "dup_inv t n (fold (duplicate_node t) [0..<n] d)"
  using assms(3)
proof (induction n)
  case (Suc n)
  then show ?case using duplicate_node_step [OF r _ Suc.IH] by simp
qed (simp add: assms(2))

section \<open>The objects of the edges and elements\<close>

text \<open>The objects after the first edges and elements.\<close>

definition objects_built :: "topology \<Rightarrow> nat \<Rightarrow> nat \<Rightarrow> dup_nodes \<Rightarrow> bool" where
  "objects_built t G E d \<longleftrightarrow> length (objects d) = 4 \<and> length (obj_4_edg d) = G \<and> length (obj_4_el d) = E
   \<and> n_duplicated_nodes d = n_nodes_of_mesh t \<and> length (node_dim d) = n_nodes_of_mesh t
   \<and> (\<forall>e < E. valid_loc d (el_loc t d e) \<and> obj_at d (el_loc t d e) =
        \<lparr>obj_dim = dim_of (elems t ! e), obj_nodes = node_idxs (elems t ! e), obj_faces = map (nth (obj_4_edg d)) (element_edges t e)\<rparr>)
   \<and> (\<forall>g < G. valid_loc d (edg_loc t d g) \<and> obj_at d (edg_loc t d g) =
        \<lparr>obj_dim = dim_of (elems t ! first_elem t g) - 1, obj_nodes = side_node_list (elems t) (hd (edges t ! g)), obj_faces = []\<rparr>)
   \<and> inj_on (el_loc t d) {..<E} \<and> inj_on (edg_loc t d) {..<G} \<and> el_loc t d ` {..<E} \<inter> edg_loc t d ` {..<G} = {}"

lemma push_object_fields [simp]:
  "n_duplicated_nodes (push_object d k ob) = n_duplicated_nodes d" "node_dim (push_object d k ob) = node_dim d"
  "obj_4_el (push_object d k ob) = obj_4_el d" "obj_4_edg (push_object d k ob) = obj_4_edg d"
  "length (objects (push_object d k ob)) = length (objects d)"
  by (simp_all add: push_object_def)

lemma push_object_at:
  assumes "objects d' = objects d" and "k < length (objects d)"
  shows "valid_loc d m \<Longrightarrow> valid_loc (push_object d' k ob) m \<and> obj_at (push_object d' k ob) m = obj_at d m"
    and "valid_loc (push_object d' k ob) (k, length (objects d ! k)) \<and> obj_at (push_object d' k ob) (k, length (objects d ! k)) = ob"
    and "\<not> valid_loc d (k, length (objects d ! k))"
  using assms by (cases "fst m = k"; simp add: valid_loc_def push_object_def nth_append)
    (simp_all add: assms valid_loc_def push_object_def)

lemma init_edge_step:
  assumes r: "split_ready t" and b: "objects_built t g 0 d" and g: "g < length (edges t)"
  shows "\<exists>d'. init_edge t d g = Inr d' \<and> objects_built t (Suc g) 0 d'"
proof -
  let ?k = "dim_of (elems t ! first_elem t g) - 1"
  let ?ob = "\<lparr>obj_dim = ?k, obj_nodes = side_node_list (elems t) (hd (edges t ! g)), obj_faces = []\<rparr>"
  let ?d = "push_object (d\<lparr>obj_4_edg := obj_4_edg d @ [length (objects d ! ?k)]\<rparr>) ?k ?ob"
  have B: "length (objects d) = 4" "length (obj_4_edg d) = g" "obj_4_el d = []"
    "\<And>i. i < g \<Longrightarrow> valid_loc d (edg_loc t d i)"
    "\<And>i. i < g \<Longrightarrow> obj_at d (edg_loc t d i) = \<lparr>obj_dim = dim_of (elems t ! first_elem t i) - 1,
       obj_nodes = side_node_list (elems t) (hd (edges t ! i)), obj_faces = []\<rparr>"
    "inj_on (edg_loc t d) {..<g}"
    using b by (auto simp: objects_built_def)
  have k: "?k < length (objects d)"
    using split_ready_simplex(2) [OF r first_elem_facts(1) [OF r g]] B(1) by auto
  have "objects (d\<lparr>obj_4_edg := obj_4_edg d @ [length (objects d ! ?k)]\<rparr>) = objects d" by simp
  note P = push_object_at [OF this k]
  have new: "edg_loc t ?d g = (?k, length (objects d ! ?k))" by (simp add: edg_loc_def nth_append B(2))
  have old: "edg_loc t ?d i = edg_loc t d i" if "i < g" for i using that by (simp add: edg_loc_def nth_append B(2))
  have "edg_loc t ?d g \<noteq> edg_loc t ?d i" if "i < g" for i using P(3) B(4) [OF that] unfolding new old [OF that] by metis
  moreover have "inj_on (edg_loc t ?d) {..<g}" using B(6) old by (simp add: inj_on_def)
  ultimately have inj: "inj_on (edg_loc t ?d) {..<Suc g}" by (auto simp: lessThan_Suc image_iff)
  have "init_edge t d g = Inr ?d"
    using split_readyD(2) [OF r g] by (cases "edges t ! g") (simp_all add: init_edge_def Let_def)
  moreover have "objects_built t (Suc g) 0 ?d"
    unfolding objects_built_def
  proof (intro conjI)
    show "\<forall>i < Suc g. valid_loc ?d (edg_loc t ?d i) \<and> obj_at ?d (edg_loc t ?d i) = \<lparr>obj_dim = dim_of (elems t ! first_elem t i) - 1,
        obj_nodes = side_node_list (elems t) (hd (edges t ! i)), obj_faces = []\<rparr>"
    proof (intro allI impI)
      fix i assume i: "i < Suc g"
      show "valid_loc ?d (edg_loc t ?d i) \<and> obj_at ?d (edg_loc t ?d i) = \<lparr>obj_dim = dim_of (elems t ! first_elem t i) - 1,
          obj_nodes = side_node_list (elems t) (hd (edges t ! i)), obj_faces = []\<rparr>"
      proof (cases "i = g")
        case True
        show ?thesis unfolding True new using P(2) by simp
      next
        case False
        then have lt: "i < g" using i by simp
        show ?thesis unfolding old [OF lt] using P(1) [OF B(4) [OF lt]] B(5) [OF lt] by simp
      qed
    qed
  qed (use b inj in \<open>simp_all add: objects_built_def\<close>)
  ultimately show ?thesis by blast
qed

lemma init_element_step:
  assumes r: "split_ready t" and b: "objects_built t (length (edges t)) e d" and e: "e < bulk_of t"
  shows "\<exists>d'. init_element_object t d e = Inr d' \<and> objects_built t (length (edges t)) (Suc e) d'"
proof -
  let ?k = "dim_of (elems t ! e)" and ?G = "length (edges t)"
  let ?ob = "\<lparr>obj_dim = ?k, obj_nodes = node_idxs (elems t ! e), obj_faces = map (nth (obj_4_edg d)) (element_edges t e)\<rparr>"
  let ?d = "push_object (d\<lparr>obj_4_el := obj_4_el d @ [length (objects d ! ?k)]\<rparr>) ?k ?ob"
  note S = split_ready_simplex [OF r e]
  have B: "length (objects d) = 4" "length (obj_4_el d) = e"
    "\<And>i. i < e \<Longrightarrow> valid_loc d (el_loc t d i)"
    "\<And>i. i < e \<Longrightarrow> obj_at d (el_loc t d i) = \<lparr>obj_dim = dim_of (elems t ! i), obj_nodes = node_idxs (elems t ! i),
       obj_faces = map (nth (obj_4_edg d)) (element_edges t i)\<rparr>"
    "\<And>g. g < ?G \<Longrightarrow> valid_loc d (edg_loc t d g)"
    "\<And>g. g < ?G \<Longrightarrow> obj_at d (edg_loc t d g) = \<lparr>obj_dim = dim_of (elems t ! first_elem t g) - 1,
       obj_nodes = side_node_list (elems t) (hd (edges t ! g)), obj_faces = []\<rparr>"
    "inj_on (el_loc t d) {..<e}" "inj_on (edg_loc t d) {..<?G}" "el_loc t d ` {..<e} \<inter> edg_loc t d ` {..<?G} = {}"
    using b by (auto simp: objects_built_def)
  have k: "?k < length (objects d)" using S(2) B(1) by auto
  have "objects (d\<lparr>obj_4_el := obj_4_el d @ [length (objects d ! ?k)]\<rparr>) = objects d" by simp
  note P = push_object_at [OF this k]
  have new: "el_loc t ?d e = (?k, length (objects d ! ?k))" by (simp add: el_loc_def nth_append B(2))
  have old: "el_loc t ?d i = el_loc t d i" if "i < e" for i using that by (simp add: el_loc_def nth_append B(2))
  have edg: "edg_loc t ?d = edg_loc t d" by (simp add: edg_loc_def fun_eq_iff)
  have "el_loc t ?d e \<noteq> el_loc t ?d i" if "i < e" for i using P(3) B(3) [OF that] unfolding new old [OF that] by metis
  moreover have "inj_on (el_loc t ?d) {..<e}" using B(7) old by (simp add: inj_on_def)
  ultimately have inj: "inj_on (el_loc t ?d) {..<Suc e}" by (auto simp: lessThan_Suc image_iff)
  have "el_loc t ?d e \<noteq> edg_loc t d g" if "g < ?G" for g using P(3) B(5) [OF that] unfolding new by metis
  then have "el_loc t ?d e \<notin> edg_loc t d ` {..<?G}" by (simp add: image_iff Bex_def)
  moreover have "el_loc t ?d ` {..<e} = el_loc t d ` {..<e}" using old by (intro image_cong) simp_all
  ultimately have disj: "el_loc t ?d ` {..<Suc e} \<inter> edg_loc t ?d ` {..<?G} = {}"
    using B(9) unfolding edg lessThan_Suc image_insert by blast
  have none: "find (\<lambda>s. edge_idx (elems t ! e) ! s = None) [0..<?k + 1] = None"
    unfolding find_None_iff using S(6) by (auto simp: less_Suc_eq_le simp del: upt_Suc)
  have nodes: "map (\<lambda>i. node_idxs (elems t ! e) ! i) [0..<?k + 1] = node_idxs (elems t ! e)" using S(3) map_nth by metis
  have "init_element_object t d e = Inr ?d"
    using S(2) unfolding init_element_object_def Let_def none nodes by auto
  moreover have "objects_built t ?G (Suc e) ?d"
    unfolding objects_built_def
  proof (intro conjI)
    show "\<forall>i < Suc e. valid_loc ?d (el_loc t ?d i) \<and> obj_at ?d (el_loc t ?d i) = \<lparr>obj_dim = dim_of (elems t ! i),
        obj_nodes = node_idxs (elems t ! i), obj_faces = map (nth (obj_4_edg ?d)) (element_edges t i)\<rparr>"
    proof (intro allI impI)
      fix i assume i: "i < Suc e"
      show "valid_loc ?d (el_loc t ?d i) \<and> obj_at ?d (el_loc t ?d i) = \<lparr>obj_dim = dim_of (elems t ! i),
          obj_nodes = node_idxs (elems t ! i), obj_faces = map (nth (obj_4_edg ?d)) (element_edges t i)\<rparr>"
      proof (cases "i = e")
        case True
        show ?thesis unfolding True new using P(2) by simp
      next
        case False
        then have lt: "i < e" using i by simp
        show ?thesis unfolding old [OF lt] using P(1) [OF B(3) [OF lt]] B(4) [OF lt] by simp
      qed
    qed
    show "\<forall>g < ?G. valid_loc ?d (edg_loc t ?d g) \<and> obj_at ?d (edg_loc t ?d g) = \<lparr>obj_dim = dim_of (elems t ! first_elem t g) - 1,
        obj_nodes = side_node_list (elems t) (hd (edges t ! g)), obj_faces = []\<rparr>"
      unfolding edg using P(1) [OF B(5)] B(6) by simp
  qed (use b inj disj B(8) in \<open>simp_all add: objects_built_def edg\<close>)
  ultimately show ?thesis by blast
qed

lemma init_objects:
  assumes r: "split_ready t"
  shows "\<exists>d1 d2. init_from_edges t (init_nodes t) = Inr d1 \<and> init_from_elements t d1 = Inr d2 \<and> dup_inv t 0 d2"
proof -
  have "\<exists>d. fold_res (init_edge t) (init_nodes t) [0..<g] = Inr d \<and> objects_built t g 0 d" if "g \<le> length (edges t)" for g
    using that
  proof (induction g)
    case 0
    then show ?case by (simp add: objects_built_def init_nodes_def)
  next
    case (Suc g)
    then obtain d where "fold_res (init_edge t) (init_nodes t) [0..<g] = Inr d" "objects_built t g 0 d" by auto
    then show ?case using init_edge_step [OF r, of g d] Suc.prems by (auto simp: fold_res_append)
  qed
  then obtain d1 where d1: "init_from_edges t (init_nodes t) = Inr d1" "objects_built t (length (edges t)) 0 d1"
    unfolding init_from_edges_def by blast
  have "\<exists>d. fold_res (init_element_object t) d1 [0..<e] = Inr d \<and> objects_built t (length (edges t)) e d" if "e \<le> bulk_of t" for e
    using that
  proof (induction e)
    case (Suc e)
    then obtain d where "fold_res (init_element_object t) d1 [0..<e] = Inr d" "objects_built t (length (edges t)) e d" by auto
    then show ?case using init_element_step [OF r, of e d] Suc.prems by (auto simp: fold_res_append)
  qed (simp add: d1(2))
  then obtain d2 where d2: "init_from_elements t d1 = Inr d2" "objects_built t (length (edges t)) (bulk_of t) d2"
    unfolding init_from_elements_def by blast
  have "labelled t (\<lambda>v e. v) d2" using d2(2) by (simp add: objects_built_def labelled_def)
  then have "dup_inv t 0 d2" using d2(2) by (simp add: dup_inv_def objects_built_def first_label_def)
  then show ?thesis using d1(1) d2(1) by blast
qed

section \<open>The mesh of the edges\<close>

text \<open>The construction of the edges does not change the nodes of the mesh.\<close>

abbreviation nodes_of :: "topology \<Rightarrow> double list list" where "nodes_of t \<equiv> mesh_nodes (topo_mesh t)"

lemma connect_side_nodes: "nodes_of (connect_side t edg x) = nodes_of t"
  by (simp add: connect_side_def case_prod_beta)

lemma connect_steps_nodes:
  "nodes_of (connect_neighbour l ns t k) = nodes_of t" "nodes_of (connect_edge edg ns t k) = nodes_of t"
  "connect_boundary_side edg b i ns t k = Inr t' \<Longrightarrow> nodes_of t' = nodes_of t"
  by (auto simp: connect_neighbour_def connect_edge_def connect_boundary_side_def connect_side_nodes split: option.splits if_splits)

lemma foldl_connect_nodes:
  "nodes_of (foldl (connect_neighbour l ns) t ks) = nodes_of t" "nodes_of (foldl (connect_edge edg ns) t ks) = nodes_of t"
  by (induction ks arbitrary: t) (simp_all add: connect_steps_nodes)

lemma create_lists_nodes: "create_node_element_lists t = Inr t' \<Longrightarrow> nodes_of t' = nodes_of t"
  by (auto simp: create_node_element_lists_def bind_res_eq_Inr)

lemma intersect_lists_nodes: "intersect_element_lists t ns = Inr (t', l) \<Longrightarrow> nodes_of t' = nodes_of t"
  by (auto simp: intersect_element_lists_def bind_res_eq_Inr create_lists_nodes split: if_splits)

lemma boundary_edge_nodes: "boundary_edge t i = Inr t' \<Longrightarrow> nodes_of t' = nodes_of t"
  unfolding boundary_edge_def Let_def
  by (auto simp: bind_res_eq_Inr intersect_lists_nodes connect_steps_nodes split: if_splits option.splits
      dest!: fold_res_invariant [where I = "\<lambda>t1. nodes_of t1 = nodes_of t"])

lemma outer_side_nodes: "outer_side t x edg ns = Inr t' \<Longrightarrow> nodes_of t' = nodes_of t"
  by (auto simp: outer_side_def Let_def bind_res_eq_Inr add_element_to_vector_def map_err_eq_Inr connect_side_nodes split: prod.splits)

lemma side_edge_nodes:
  assumes "side_edge t x = Inr t'"
  shows "nodes_of t' = nodes_of t"
  using assms unfolding side_edge_def Let_def
  by (auto simp: bind_res_eq_Inr foldl_connect_nodes split: if_splits option.splits prod.splits dest!: outer_side_nodes intersect_lists_nodes)

lemma make_neighbours_and_edges_nodes:
  assumes "make_neighbours_and_edges t = Inr t'"
  shows "nodes_of t' = nodes_of t"
proof -
  obtain t1 t2 xs ys where t: "create_node_element_lists t = Inr t1" "fold_res boundary_edge (t1\<lparr>edges := []\<rparr>) xs = Inr t2"
    "fold_res side_edge t2 ys = Inr t'"
    using assms by (auto simp: make_neighbours_and_edges_def bind_res_eq_Inr split: if_splits)
  have "nodes_of t2 = nodes_of t"
    by (rule fold_res_invariant [OF t(2)]) (use create_lists_nodes [OF t(1)] boundary_edge_nodes in auto)
  then show ?thesis by (intro fold_res_invariant [OF t(3), where I = "\<lambda>s. nodes_of s = nodes_of t"]) (use side_edge_nodes in auto)
qed

lemma make_neighbours_and_edges_ready:
  assumes ok: "simplices_ok m" "mesh_ok m" and run: "make_neighbours_and_edges (new_topology m) = Inr t"
  shows "split_ready t"
proof -
  let ?es = "element_vec m" and ?nb = "mesh_bulk_size m" and ?nn = "length (mesh_nodes m)"
  have t: "topo_inv ?es ?nb ?nn t" "\<forall>x \<in> sides_of ?es ?nb. edge_of t x \<noteq> None"
    using make_neighbours_and_edges_spec [OF ok(1)] ok(2) run by (simp_all add: mesh_ok_def)
  have nn: "n_nodes_of_mesh t = ?nn" using make_neighbours_and_edges_nodes [OF run] by (simp add: new_topology_def)
  note T = topo_invD [OF t(1)] and E = edges_invD [OF topo_invD(9) [OF t(1)]]
  have shape: "elem_dim (elems t ! e) = elem_dim (?es ! e)" "node_idxs (elems t ! e) = node_idxs (?es ! e)"
    "elem_nodes (elems t ! e) = elem_nodes (?es ! e)" if "e < ?nb" for e
    using T(5) [OF that] by (simp_all add: elem_shape_def node_idxs_def)
  have sides: "sides_of (elems t) ?nb = sides_of ?es ?nb" by (auto simp: sides_of_def shape)
  have key: "side_key (elems t) x = side_key ?es x" if "x \<in> sides_of ?es ?nb" for x
    using that by (cases x) (simp add: side_key_def sides_of_def side_node_list_def shape)
  have "simplex_ok ?nn (elems t ! e)" if "e < ?nb" for e using T(1) [OF that] by (simp add: simplex_ok_def shape [OF that])
  moreover have "\<exists>g < length (edges t). edge_idx (elems t ! e) ! s = Some g \<and> (e, s) \<in> set (edges t ! g)"
    if e: "e < ?nb" "s \<le> dim_of (elems t ! e)" for e s
  proof -
    have x: "(e, s) \<in> sides_of ?es ?nb" using e by (simp add: sides_of_def shape)
    then obtain g where "edge_of t (e, s) = Some g" using t(2) by auto
    then show ?thesis using E(1) [OF x] by (auto simp: edge_of_def)
  qed
  moreover have "side_key (elems t) x = side_key (elems t) (hd (edges t ! g))" if g: "g < length (edges t)" "x \<in> set (edges t ! g)" for g x
  proof (cases "x = hd (edges t ! g)")
    case False
    have h: "hd (edges t ! g) \<in> set (edges t ! g)" using E(2) [OF g(1)] by simp
    have "edge_of t x = edge_of t (hd (edges t ! g))" "edge_of t x \<noteq> None" using E(3) [OF g(1)] g(2) h by auto
    then have "side_key ?es x = side_key ?es (hd (edges t ! g))"
      using E(5) [of x "hd (edges t ! g)"] E(3) [OF g(1)] g(2) h False by blast
    then show ?thesis using key E(3) [OF g(1)] g(2) h by simp
  qed simp
  moreover have "lists_ok (node_elements t) (elems t) ?nb ?nn"
    using T(7) by (auto simp: lists_ok_def shape)
  ultimately show ?thesis
    unfolding split_ready_def T(6) nn sides using E(2,3) by blast
qed

section \<open>Properties\<close>

text \<open>The nodes of the object of an element and of its face, read through the pointers of the object.\<close>

definition element_nodes :: "topology \<Rightarrow> dup_nodes \<Rightarrow> nat \<Rightarrow> nat list" where
  "element_nodes t d e = obj_nodes (objects d ! dim_of (elems t ! e) ! (obj_4_el d ! e))"

definition face_nodes :: "topology \<Rightarrow> dup_nodes \<Rightarrow> nat \<Rightarrow> nat \<Rightarrow> nat list" where
  "face_nodes t d e s =
     (let k = dim_of (elems t ! e) in obj_nodes (objects d ! (k - 1) ! (obj_faces (objects d ! k ! (obj_4_el d ! e)) ! s)))"

lemma duplicate_nodes_total:
  assumes r: "split_ready t"
  shows "\<exists>d. duplicate_nodes t = Inr d \<and> dup_inv t (n_nodes_of_mesh t) d"
proof -
  obtain d1 d2 where "init_from_edges t (init_nodes t) = Inr d1" "init_from_elements t d1 = Inr d2" "dup_inv t 0 d2"
    using init_objects [OF r] by blast
  then show ?thesis using duplicate_all_nodes [OF r, of d2 "n_nodes_of_mesh t"] by (simp add: duplicate_nodes_def)
qed

lemma labelled_views:
  assumes r: "split_ready t" and inv: "dup_inv t (n_nodes_of_mesh t) d" and e: "e < bulk_of t"
  shows "element_nodes t d e = map (\<lambda>v. node_label t v e) (node_idxs (elems t ! e))"
    and "s \<le> dim_of (elems t ! e) \<Longrightarrow> \<exists>g < length (edges t). (e, s) \<in> set (edges t ! g)
      \<and> face_nodes t d e s = map (\<lambda>v. node_label t v (first_elem t g)) (side_node_list (elems t) (hd (edges t ! g)))"
proof -
  have l: "labelled t (\<lambda>v e. if v < n_nodes_of_mesh t then node_label t v e else v) d" using inv by (simp add: dup_inv_def)
  have "labelled t (node_label t) d" by (rule labelled_cong [OF r l]) (use split_ready_simplex(5) [OF r] in simp)
  note D = labelledD [OF this]
  show "element_nodes t d e = map (\<lambda>v. node_label t v e) (node_idxs (elems t ! e))"
    using D(2) [OF e] by (simp add: element_nodes_def el_loc_def)
  show "\<exists>g < length (edges t). (e, s) \<in> set (edges t ! g)
      \<and> face_nodes t d e s = map (\<lambda>v. node_label t v (first_elem t g)) (side_node_list (elems t) (hd (edges t ! g)))"
    if s: "s \<le> dim_of (elems t ! e)"
  proof -
    obtain g where g: "g < length (edges t)" "edge_idx (elems t ! e) ! s = Some g" "(e, s) \<in> set (edges t ! g)"
      using split_readyD(1) [OF r e s] by blast
    have "element_edges t e ! s = g" "s < length (element_edges t e)"
      using s g(2) by (simp_all add: element_edges_def less_Suc_eq_le del: upt_Suc)
    then have "obj_faces (objects d ! dim_of (elems t ! e) ! (obj_4_el d ! e)) ! s = obj_4_edg d ! g"
      using D(2) [OF e] by (simp add: el_loc_def)
    moreover have "dim_of (elems t ! e) = dim_of (elems t ! first_elem t g)"
      using first_elem_facts(4) [OF r g(1), of e] g(3) by force
    ultimately show ?thesis using D(4) [OF g(1)] g by (auto simp: face_nodes_def edg_loc_def Let_def)
  qed
qed

lemma same_label:
  assumes r: "split_ready t" and v: "v < n_nodes_of_mesh t" "a \<in> set (node_elements t ! v)"
    and w: "w < n_nodes_of_mesh t" "b \<in> set (node_elements t ! w)"
  shows "node_label t v a = node_label t w b \<longleftrightarrow> v = w \<and> connected_in (adjacent_elems t) (set (node_elements t ! v)) a b"
proof (cases "v = w")
  case True
  have "first_label t v > v" using first_label_ge [of t v] v(1) by simp
  then have "node_label t v a = node_label t v b \<longleftrightarrow> comp_index (node_components t v) a = comp_index (node_components t v) b"
    by (auto simp: node_label_def Let_def)
  then show ?thesis using comp_index_connected [OF node_components_of [OF r v(1)]] v w True by simp
next
  case False
  have "node_label t v a \<noteq> node_label t w b" if "v < w" "v < n_nodes_of_mesh t" "w < n_nodes_of_mesh t"
    "a \<in> set (node_elements t ! v)" "b \<in> set (node_elements t ! w)" for v w a b
    using node_label_bounds [OF r that(2,4)] node_label_bounds [OF r that(3,5)] first_label_mono [of "Suc v" w t]
      first_label_ge [of t v] first_label_ge [of t w] that(1-3) by auto
  from this [of v w a b] this [of w v b a] show ?thesis using False v w by (metis linorder_neqE_nat)
qed


text \<open>
  The line between the first two triangles is a fracture: these triangles share no duplicated node, the second and
  the third one share theirs.
\<close>

lemma duplicate_sample_eval:
  "case fold_res mesh_step empty_mesh topo_cmds of Inl e \<Rightarrow> False
   | Inr m1 \<Rightarrow> case create_boundary_elements m1 of Inl e \<Rightarrow> False
   | Inr m \<Rightarrow> simplices_ok m \<and> (case make_neighbours_and_edges (new_topology m) of Inl e \<Rightarrow> False
       | Inr t \<Rightarrow> bulk_of t = 4 \<and> map (adjacent_elems t) [0..<4] = [[0, 0], [1, 1, 1], [2, 3, 2, 2], [3, 2, 3, 3]]
          \<and> map (\<lambda>e. (dim_of (elems t ! e), node_idxs (elems t ! e))) [1..<4] = [(2, [0, 1, 2]), (2, [1, 3, 2]), (2, [1, 4, 3])])"
  by code_simp


end
