(* ===== verification/Dof_Handler.thy ===== *)
theory Dof_Handler
  imports Mesh_Partition Duplicate_Nodes
begin

text \<open>
  The numbering of degrees of freedom on all processors, \<open>DOFHandlerMultiDim\<close> of \<open>src/src/fem/dofhandler.cc\<close> with the
  discrete space of \<open>src/src/fem/discrete_space.hh\<close>: local and ghost cells, the distribution of the dofs of nodes, edges and
  cells, and the exchange with the neighbouring processors. A finite element is the list of its dofs. A message is
  the list it carries; the two rounds of messages are written as what every processor computes from what it receives.
\<close>

section \<open>Model\<close>

text \<open>A dof of a finite element: the dimension and the index of the face of the cell it belongs to.\<close>

type_synonym fe_dof = "nat \<times> nat"

record equal_order_space =
  fe :: "fe_dof list list"
  space_elem_dofs :: "nat list"
  space_edge_dofs :: "nat list"
  space_node_dofs :: "nat list"

definition init_n_dofs :: "fe_dof list list \<Rightarrow> (nat \<Rightarrow> fe_dof \<Rightarrow> bool) \<Rightarrow> nat list" where
  "init_n_dofs fes P = map (\<lambda>k. length (filter (P k) (fes ! k))) [0..<4]"

definition new_space :: "fe_dof list list \<Rightarrow> equal_order_space" where
  "new_space fes = \<lparr>fe = fes, space_elem_dofs = init_n_dofs fes (\<lambda>k (d, f). d = 0),
     space_edge_dofs = init_n_dofs fes (\<lambda>k (d, f). Suc d = k \<and> f = 0), space_node_dofs = init_n_dofs fes (\<lambda>k (d, f). d = 0 \<and> f = 0)\<rparr>"

text \<open>What one processor sees of the mesh.\<close>

record dof_mesh =
  dm_topo :: topology
  dm_tree :: dup_nodes
  dm_ids :: id_map

definition my_rank :: "dof_mesh \<Rightarrow> nat" where "my_rank M = my_proc (new_ds (dm_ids M))"

definition own_size :: "dof_mesh \<Rightarrow> nat" where "own_size M = unat (lsize_of (new_ds (dm_ids M)) (my_rank M))"

definition proc_of :: "dof_mesh \<Rightarrow> nat \<Rightarrow> nat" where "proc_of M k = element_proc (dm_ids M) k"

definition el_is_local :: "dof_mesh \<Rightarrow> nat \<Rightarrow> bool" where
  "el_is_local M k \<longleftrightarrow> is_local (new_ds (dm_ids M)) (word_of_int (new_4_id (dm_ids M) ! k))"

abbreviation cell_nodes :: "dof_mesh \<Rightarrow> nat \<Rightarrow> nat list" where "cell_nodes M k \<equiv> element_nodes (dm_topo M) (dm_tree M) k"

abbreviation cell_edges :: "dof_mesh \<Rightarrow> nat \<Rightarrow> nat list" where "cell_edges M k \<equiv> element_edges (dm_topo M) k"

datatype nface_status = Invalid_NFace | Valid_NFace | Assigned_NFace

record face_table =
  face_starts :: "nat list"
  face_dofs :: "int list"
  face_status :: "nface_status list"

text \<open>The object and, in the last five fields, the local variables of \<open>distribute_dofs\<close>.\<close>

record dof_handler =
  n_global_dofs :: nat
  lsize :: nat
  loffset :: nat
  max_elem_dofs :: nat
  cell_starts :: "nat list"
  dof_indices :: "int list"
  local_to_global_dof_idx :: "int list"
  global_to_local_el_idx :: "nat \<Rightarrow> nat option"
  edg_4_loc :: "nat list"
  nb_4_loc :: "nat list"
  ghost_4_loc :: "nat list"
  ghost_proc :: "nat list"
  ghost_proc_el :: "nat \<Rightarrow> nat list"
  node_table :: face_table
  edge_table :: face_table
  update_cells :: "bool list"
  next_free_dof :: nat

datatype dof_error = UnsupportedFace nat nat | NotLocalCell nat | UnsetDof nat nat | MessageSize

type_synonym 'a dof_res = "(dof_error, 'a) res"

definition new_handler :: dof_handler where
  "new_handler = \<lparr>n_global_dofs = 0, lsize = 0, loffset = 0, max_elem_dofs = 0, cell_starts = [], dof_indices = [],
     local_to_global_dof_idx = [], global_to_local_el_idx = (\<lambda>_. None), edg_4_loc = [], nb_4_loc = [], ghost_4_loc = [], ghost_proc = [],
     ghost_proc_el = (\<lambda>_. []), node_table = \<lparr>face_starts = [], face_dofs = [], face_status = []\<rparr>,
     edge_table = \<lparr>face_starts = [], face_dofs = [], face_status = []\<rparr>, update_cells = [], next_free_dof = 0\<rparr>"

text \<open>\<open>make_elem_partitioning\<close>: local edges and neighbours, own cells, then the ghost cells with a local node or neighbour.\<close>

definition own_cells :: "dof_mesh \<Rightarrow> nat list" where "own_cells M = map (\<lambda>l. nat (id_4_loc (dm_ids M) ! l)) [0..<own_size M]"

definition local_edges :: "dof_mesh \<Rightarrow> nat list" where
  "local_edges M = filter (\<lambda>g. list_ex (\<lambda>x. el_is_local M (fst x)) (edges (dm_topo M) ! g)) [0..<length (edges (dm_topo M))]"

definition neighbour_elems :: "dof_mesh \<Rightarrow> nat \<Rightarrow> nat \<times> nat" where
  "neighbour_elems M i =
     (let n = vb_neighbours (dm_topo M) ! i in (ngh_elem_idx n, fst (hd (edges (dm_topo M) ! ngh_edge_idx n))))"

definition local_neighbours :: "dof_mesh \<Rightarrow> nat list" where
  "local_neighbours M = filter (\<lambda>i. el_is_local M (fst (neighbour_elems M i)) \<or> el_is_local M (snd (neighbour_elems M i)))
     [0..<length (vb_neighbours (dm_topo M))]"

definition node_is_local :: "dof_mesh \<Rightarrow> bool list" where
  "node_is_local M = fold (\<lambda>k fl. fold (\<lambda>v fl. fl[v := True]) (cell_nodes M k) fl) (own_cells M)
     (replicate (n_duplicated_nodes (dm_tree M)) False)"

definition add_ghost :: "dof_mesh \<Rightarrow> nat \<Rightarrow> dof_handler \<Rightarrow> dof_handler" where
  "add_ghost M k h =
     (let p = proc_of M k; h1 = h\<lparr>ghost_4_loc := ghost_4_loc h @ [k], ghost_proc := insort_insert p (ghost_proc h),
        ghost_proc_el := (ghost_proc_el h)(p := ghost_proc_el h p @ [k])\<rparr>
      in h1\<lparr>global_to_local_el_idx := (global_to_local_el_idx h1)(k \<mapsto> own_size M + length (ghost_4_loc h1) - 1)\<rparr>)"

definition ghost_by_node :: "dof_mesh \<Rightarrow> nat \<Rightarrow> dof_handler \<Rightarrow> dof_handler" where
  "ghost_by_node M k h =
     (if proc_of M k \<noteq> my_rank M \<and> list_ex (\<lambda>v. node_is_local M ! v) (cell_nodes M k) then add_ghost M k h else h)"

definition ghost_by_neighbour :: "dof_mesh \<Rightarrow> nat \<Rightarrow> dof_handler \<Rightarrow> dof_handler" where
  "ghost_by_neighbour M k h = (if \<not> el_is_local M k \<and> k \<notin> set (ghost_4_loc h) then add_ghost M k h else h)"

definition make_elem_partitioning :: "dof_mesh \<Rightarrow> dof_handler" where
  "make_elem_partitioning M =
     (let h1 = new_handler\<lparr>edg_4_loc := local_edges M, nb_4_loc := local_neighbours M,
            global_to_local_el_idx := fold (\<lambda>l m. m(own_cells M ! l \<mapsto> l)) [0..<own_size M] (\<lambda>_. None)\<rparr>;
          h2 = fold (ghost_by_node M) [0..<bulk_of (dm_topo M)] h1
      in fold (\<lambda>i h. ghost_by_neighbour M (snd (neighbour_elems M i)) (ghost_by_neighbour M (fst (neighbour_elems M i)) h)) (nb_4_loc h2) h2)"

text \<open>Cells by their local index: own cells, then ghost cells.\<close>

definition elm_idx :: "dof_mesh \<Rightarrow> dof_handler \<Rightarrow> nat \<Rightarrow> nat" where
  "elm_idx M h l = (if l < own_size M then nat (id_4_loc (dm_ids M) ! l) else ghost_4_loc h ! (l - own_size M))"

definition local_size :: "dof_mesh \<Rightarrow> dof_handler \<Rightarrow> nat" where "local_size M h = own_size M + length (ghost_4_loc h)"

definition cell_dofs :: "topology \<Rightarrow> equal_order_space \<Rightarrow> nat \<Rightarrow> fe_dof list" where "cell_dofs t s k = fe s ! dim_of (elems t ! k)"

text \<open>Where the sums of counts begin.\<close>

fun running :: "nat \<Rightarrow> nat list \<Rightarrow> nat list" where
  "running a [] = [a]"
| "running a (n # ns) = a # running (a + n) ns"

definition init_cell_starts :: "dof_mesh \<Rightarrow> equal_order_space \<Rightarrow> dof_handler \<Rightarrow> dof_handler" where
  "init_cell_starts M s h =
     (let ns = map (\<lambda>l. length (cell_dofs (dm_topo M) s (elm_idx M h l))) [0..<local_size M h]
      in h\<lparr>cell_starts := running 0 ns, max_elem_dofs := fold max ns (max_elem_dofs h)\<rparr>)"

definition n_node_dofs :: "dup_nodes \<Rightarrow> equal_order_space \<Rightarrow> nat \<Rightarrow> nat" where
  "n_node_dofs tr s v = space_node_dofs s ! (node_dim tr ! v)"

definition n_edge_dofs :: "topology \<Rightarrow> equal_order_space \<Rightarrow> nat \<Rightarrow> nat" where
  "n_edge_dofs t s g = space_edge_dofs s ! (dim_of (elems t ! fst (hd (edges t ! g))) - 1 + 1)"

definition node_starts :: "dof_mesh \<Rightarrow> equal_order_space \<Rightarrow> nat list" where
  "node_starts M s = running 0 (map (n_node_dofs (dm_tree M) s) [0..<n_duplicated_nodes (dm_tree M)])"

definition edge_starts :: "dof_mesh \<Rightarrow> equal_order_space \<Rightarrow> nat list" where
  "edge_starts M s = running 0 (map (n_edge_dofs (dm_topo M) s) [0..<length (edges (dm_topo M))])"

definition set_status :: "nface_status \<Rightarrow> nat list \<Rightarrow> nface_status list \<Rightarrow> nface_status list" where
  "set_status x vs st = fold (\<lambda>v st. st[v := x]) vs st"

definition lower_ghosts :: "dof_mesh \<Rightarrow> dof_handler \<Rightarrow> nat list" where
  "lower_ghosts M h = filter (\<lambda>k. proc_of M k < my_rank M) (ghost_4_loc h)"

definition init_node_status :: "dof_mesh \<Rightarrow> dof_handler \<Rightarrow> nface_status list" where
  "init_node_status M h = fold (\<lambda>k. set_status Invalid_NFace (cell_nodes M k)) (lower_ghosts M h)
     (fold (\<lambda>k. set_status Valid_NFace (cell_nodes M k)) (own_cells M) (replicate (n_duplicated_nodes (dm_tree M)) Invalid_NFace))"

definition init_edge_status :: "dof_mesh \<Rightarrow> dof_handler \<Rightarrow> nface_status list" where
  "init_edge_status M h = fold (\<lambda>k. set_status Invalid_NFace (cell_edges M k)) (lower_ghosts M h)
     (set_status Valid_NFace (edg_4_loc h) (replicate (length (edges (dm_topo M))) Invalid_NFace))"

text \<open>The place of a dof of a cell and its number among the dofs of the cell at this place (the counters of the loops).\<close>

datatype dof_place = AtNode nat | AtEdge nat | InCell | NoPlace

definition place_of :: "topology \<Rightarrow> dup_nodes \<Rightarrow> nat \<Rightarrow> fe_dof \<Rightarrow> dof_place" where
  "place_of t tr k = (\<lambda>(d, f).
     if d = 0 then AtNode (element_nodes t tr k ! f) else if d = dim_of (elems t ! k) - 1 then AtEdge (element_edges t k ! f)
     else if d = dim_of (elems t ! k) then InCell else NoPlace)"

definition dof_count :: "fe_dof list \<Rightarrow> nat \<Rightarrow> nat" where
  "dof_count ds i = length (filter (\<lambda>x. x = ds ! i) (take i ds))"

text \<open>Nodes and edges are treated alike; the flag chooses the table of the edges.\<close>

definition table :: "bool \<Rightarrow> dof_handler \<Rightarrow> face_table" where "table e h = (if e then edge_table h else node_table h)"

definition set_table :: "bool \<Rightarrow> face_table \<Rightarrow> dof_handler \<Rightarrow> dof_handler" where
  "set_table e t h = (if e then h\<lparr>edge_table := t\<rparr> else h\<lparr>node_table := t\<rparr>)"

definition assign_face :: "nat \<Rightarrow> nat \<Rightarrow> nat \<Rightarrow> face_table \<Rightarrow> face_table" where
  "assign_face v n next t =
     t\<lparr>face_dofs := fold (\<lambda>i ds. ds[face_starts t ! v + i := int (next + i)]) [0..<n] (face_dofs t), face_status := (face_status t)[v := Assigned_NFace]\<rparr>"

definition visit_face :: "bool \<Rightarrow> nat \<Rightarrow> nat \<Rightarrow> nat \<Rightarrow> dof_handler \<Rightarrow> dof_handler" where
  "visit_face e v c l h =
     (let t = table e h; n = face_starts t ! (v + 1) - face_starts t ! v in
      case face_status t ! v of
        Valid_NFace \<Rightarrow> set_table e (assign_face v n (next_free_dof h) t)
            (h\<lparr>local_to_global_dof_idx := local_to_global_dof_idx h @ map int [next_free_dof h..<next_free_dof h + n],
               next_free_dof := next_free_dof h + n\<rparr>)
      | Invalid_NFace \<Rightarrow> set_table e (t\<lparr>face_dofs := (face_dofs t)[face_starts t ! v + c := - 1]\<rparr>) (h\<lparr>update_cells := (update_cells h)[l := True]\<rparr>)
      | Assigned_NFace \<Rightarrow> h)"

definition store_dof :: "nat \<Rightarrow> nat \<Rightarrow> int \<Rightarrow> dof_handler \<Rightarrow> dof_handler" where
  "store_dof l i x h = h\<lparr>dof_indices := (dof_indices h)[cell_starts h ! l + i := x]\<rparr>"

abbreviation face_dof :: "bool \<Rightarrow> nat \<Rightarrow> nat \<Rightarrow> dof_handler \<Rightarrow> int" where
  "face_dof e v c h \<equiv> face_dofs (table e h) ! (face_starts (table e h) ! v + c)"

definition distribute_dof :: "dof_mesh \<Rightarrow> equal_order_space \<Rightarrow> dof_handler \<Rightarrow> nat \<times> nat \<Rightarrow> dof_handler dof_res" where
  "distribute_dof M s h = (\<lambda>(l, i).
     let k = elm_idx M h l; ds = cell_dofs (dm_topo M) s k; c = dof_count ds i in
     case place_of (dm_topo M) (dm_tree M) k (ds ! i) of
       AtNode v \<Rightarrow> (let h1 = visit_face False v c l h in Inr (store_dof l i (face_dof False v c h1) h1))
     | AtEdge g \<Rightarrow> (let h1 = visit_face True g c l h in Inr (store_dof l i (face_dof True g c h1) h1))
     | InCell \<Rightarrow> Inr (store_dof l i (int (next_free_dof h))
         (h\<lparr>local_to_global_dof_idx := local_to_global_dof_idx h @ [int (next_free_dof h)], next_free_dof := next_free_dof h + 1\<rparr>))
     | NoPlace \<Rightarrow> Inl (UnsupportedFace k i))"

definition dofs_of_cells :: "dof_mesh \<Rightarrow> equal_order_space \<Rightarrow> dof_handler \<Rightarrow> nat list \<Rightarrow> (nat \<times> nat) list" where
  "dofs_of_cells M s h ls = concat (map (\<lambda>l. map (\<lambda>i. (l, i)) [0..<length (cell_dofs (dm_topo M) s (elm_idx M h l))]) ls)"

text \<open>\<open>distribute_dofs\<close> before the processors communicate.\<close>

definition init_tables :: "dof_mesh \<Rightarrow> equal_order_space \<Rightarrow> dof_handler \<Rightarrow> dof_handler" where
  "init_tables M s h =
     h\<lparr>update_cells := replicate (own_size M) False, next_free_dof := 0,
       node_table := \<lparr>face_starts = node_starts M s, face_dofs = replicate (last (node_starts M s)) (- 1), face_status = init_node_status M h\<rparr>,
       edge_table := \<lparr>face_starts = edge_starts M s, face_dofs = replicate (last (edge_starts M s)) (- 1), face_status = init_edge_status M h\<rparr>,
       dof_indices := replicate (last (cell_starts h)) 0\<rparr>"

definition distribute_own :: "dof_mesh \<Rightarrow> equal_order_space \<Rightarrow> dof_handler \<Rightarrow> dof_handler dof_res" where
  "distribute_own M s h =
     (let h1 = init_tables M s (init_cell_starts M s h) in
      bind_res (fold_res (distribute_dof M s) h1 (dofs_of_cells M s h1 [0..<own_size M])) (\<lambda>h2. Inr (h2\<lparr>lsize := next_free_dof h2\<rparr>)))"

text \<open>The offset of a processor from the local sizes of all of them.\<close>

definition shift_dofs :: "nat list \<Rightarrow> nat \<Rightarrow> dof_handler \<Rightarrow> dof_handler" where
  "shift_dofs sizes p h =
     (let d = distribution_from_sizes p (map of_nat sizes); off = unat (begin_of d p)
      in h\<lparr>n_global_dofs := unat (dist_size d), loffset := off,
           local_to_global_dof_idx := (if off > 0 then map (\<lambda>x. x + int off) (local_to_global_dof_idx h) else local_to_global_dof_idx h)\<rparr>)"

text \<open>The message with the dofs of the required elements.\<close>

definition global_dof :: "nat \<Rightarrow> nat \<Rightarrow> dof_handler \<Rightarrow> int dof_res" where
  "global_dof l j h =
     (let x = dof_indices h ! j in
      if 0 \<le> x \<and> nat x < length (local_to_global_dof_idx h) then Inr (local_to_global_dof_idx h ! nat x) else Inl (UnsetDof l j))"

definition send_element :: "dof_handler \<Rightarrow> int list \<Rightarrow> nat \<Rightarrow> int list dof_res" where
  "send_element h xs k =
     (case global_to_local_el_idx h k of
        None \<Rightarrow> Inl (NotLocalCell k)
      | Some l \<Rightarrow> fold_res (\<lambda>xs j. bind_res (global_dof l j h) (\<lambda>x. Inr (xs @ [x]))) xs [cell_starts h ! l..<cell_starts h ! (l + 1)])"

definition send_ghost_dofs :: "dof_handler \<Rightarrow> nat list \<Rightarrow> int list dof_res" where
  "send_ghost_dofs h ks = fold_res (send_element h) [] ks"

text \<open>\<open>update_local_dofs\<close>: first the ghost cells of the sender, then the own cells.\<close>

definition learn_face :: "bool \<Rightarrow> nat \<Rightarrow> nat \<Rightarrow> int \<Rightarrow> dof_handler \<Rightarrow> dof_handler" where
  "learn_face e v c x h =
     (let t = table e h; j = face_starts t ! v + c in
      if face_dofs t ! j = - 1
      then set_table e (t\<lparr>face_dofs := (face_dofs t)[j := int (length (local_to_global_dof_idx h))]\<rparr>)
             (h\<lparr>local_to_global_dof_idx := local_to_global_dof_idx h @ [x]\<rparr>)
      else h)"

definition update_ghost_dof :: "dof_mesh \<Rightarrow> equal_order_space \<Rightarrow> dof_handler \<Rightarrow> (nat \<times> nat) \<times> int \<Rightarrow> dof_handler" where
  "update_ghost_dof M s h = (\<lambda>((l, i), x).
     let k = elm_idx M h l; ds = cell_dofs (dm_topo M) s k; c = dof_count ds i in
     case place_of (dm_topo M) (dm_tree M) k (ds ! i) of
       AtNode v \<Rightarrow> (let h1 = learn_face False v c x h in store_dof l i (face_dof False v c h1) h1)
     | AtEdge g \<Rightarrow> (let h1 = learn_face True g c x h in store_dof l i (face_dof True g c h1) h1)
     | InCell \<Rightarrow> store_dof l i (int (length (local_to_global_dof_idx h))) (h\<lparr>local_to_global_dof_idx := local_to_global_dof_idx h @ [x]\<rparr>)
     | NoPlace \<Rightarrow> h)"

definition update_own_dof :: "dof_mesh \<Rightarrow> equal_order_space \<Rightarrow> dof_handler \<Rightarrow> nat \<times> nat \<Rightarrow> dof_handler" where
  "update_own_dof M s h = (\<lambda>(l, i).
     let k = elm_idx M h l; ds = cell_dofs (dm_topo M) s k; c = dof_count ds i in
     if dof_indices h ! (cell_starts h ! l + i) = - 1
     then (case place_of (dm_topo M) (dm_tree M) k (ds ! i) of
             AtNode v \<Rightarrow> store_dof l i (face_dof False v c h) h
           | AtEdge g \<Rightarrow> store_dof l i (face_dof True g c h) h
           | _ \<Rightarrow> h)
     else h)"

definition local_cell :: "dof_handler \<Rightarrow> nat \<Rightarrow> nat dof_res" where
  "local_cell h k = (case global_to_local_el_idx h k of None \<Rightarrow> Inl (NotLocalCell k) | Some l \<Rightarrow> Inr l)"

definition update_local_dofs :: "dof_mesh \<Rightarrow> equal_order_space \<Rightarrow> nat \<Rightarrow> int list \<Rightarrow> dof_handler \<Rightarrow> dof_handler dof_res" where
  "update_local_dofs M s q xs h =
     bind_res (fold_res (\<lambda>ls k. bind_res (local_cell h k) (\<lambda>l. Inr (ls @ [l]))) [] (ghost_proc_el h q)) (\<lambda>ls.
       let js = dofs_of_cells M s h ls in
       if length js \<noteq> length xs then Inl MessageSize
       else let h1 = foldl (update_ghost_dof M s) h (zip js xs) in
         Inr (foldl (update_own_dof M s) h1 (dofs_of_cells M s h1 (filter (\<lambda>l. update_cells h1 ! l) [0..<own_size M]))))"

text \<open>
  All processors. In the first round every processor receives from the lower ones before it sends to the higher ones, in the
  second round it sends to the lower ones before it receives from the higher ones.
\<close>

definition receive_from :: "dof_mesh \<Rightarrow> equal_order_space \<Rightarrow> (nat \<Rightarrow> dof_handler) \<Rightarrow> dof_handler \<Rightarrow> nat \<Rightarrow> dof_handler dof_res" where
  "receive_from M s senders h q = bind_res (send_ghost_dofs (senders q) (ghost_proc_el h q)) (\<lambda>xs. update_local_dofs M s q xs h)"

definition lower_round :: "(nat \<Rightarrow> dof_mesh) \<Rightarrow> equal_order_space \<Rightarrow> dof_handler list \<Rightarrow> nat \<Rightarrow> dof_handler list dof_res" where
  "lower_round Ms s hs p =
     bind_res (fold_res (receive_from (Ms p) s (nth hs)) (hs ! p) (filter (\<lambda>q. q < p) (ghost_proc (hs ! p)))) (\<lambda>h. Inr (hs[p := h]))"

definition higher_round :: "(nat \<Rightarrow> dof_mesh) \<Rightarrow> equal_order_space \<Rightarrow> dof_handler list \<Rightarrow> nat \<Rightarrow> dof_handler dof_res" where
  "higher_round Ms s hs p = fold_res (receive_from (Ms p) s (nth hs)) (hs ! p) (filter (\<lambda>q. q > p) (ghost_proc (hs ! p)))"

definition collect_res :: "(nat \<Rightarrow> 'a dof_res) \<Rightarrow> nat \<Rightarrow> 'a list dof_res" where
  "collect_res f n = fold_res (\<lambda>xs p. bind_res (f p) (\<lambda>x. Inr (xs @ [x]))) [] [0..<n]"

definition distribute_dofs :: "(nat \<Rightarrow> dof_mesh) \<Rightarrow> nat \<Rightarrow> equal_order_space \<Rightarrow> dof_handler list dof_res" where
  "distribute_dofs Ms np s =
     bind_res (collect_res (\<lambda>p. distribute_own (Ms p) s (make_elem_partitioning (Ms p))) np) (\<lambda>hs.
     let hs1 = map (\<lambda>p. shift_dofs (map lsize hs) p (hs ! p)) [0..<np] in
     bind_res (fold_res (lower_round Ms s) hs1 [0..<np]) (\<lambda>hs2. collect_res (higher_round Ms s hs2) np))"

definition get_dof_indices :: "dof_handler \<Rightarrow> nat \<Rightarrow> int list" where
  "get_dof_indices h l = map (\<lambda>j. local_to_global_dof_idx h ! nat (dof_indices h ! (cell_starts h ! l + j)))
     [0..<cell_starts h ! (l + 1) - cell_starts h ! l]"

section \<open>Arrays of blocks\<close>

lemma running_length [simp]: "length (running a ns) = Suc (length ns)"
  by (induction ns arbitrary: a) simp_all

lemma running_nth: "i \<le> length ns \<Longrightarrow> running a ns ! i = a + sum_list (take i ns)"
  by (induction ns arbitrary: a i) (auto simp: nth_Cons take_Cons split: nat.splits)

lemma running_last: "last (running a ns) = a + sum_list ns"
proof -
  have "running a ns \<noteq> []" by (cases ns) simp_all
  then show ?thesis using running_nth [of "length ns" ns a] by (simp add: last_conv_nth)
qed

lemma running_step: "i < length ns \<Longrightarrow> running a ns ! Suc i = running a ns ! i + ns ! i"
  by (simp add: running_nth take_Suc_conv_app_nth)

lemma running_mono: "i \<le> j \<Longrightarrow> j \<le> length ns \<Longrightarrow> running a ns ! i \<le> running a ns ! j"
proof (induction j)
  case (Suc j)
  then show ?case using running_step [of j ns a] by (cases "i = Suc j") auto
qed simp

lemma block_less: "i < length ns \<Longrightarrow> c < ns ! i \<Longrightarrow> running 0 ns ! i + c < sum_list ns"
  using running_step [of i ns 0] running_mono [of "Suc i" "length ns" ns 0] running_nth [of "length ns" ns 0] by simp

text \<open>Places in different blocks are different.\<close>

lemma block_eq:
  assumes "i < length ns" "c < ns ! i" and "j < length ns" "d < ns ! j"
  shows "running 0 ns ! i + c = running 0 ns ! j + d \<longleftrightarrow> i = j \<and> c = d"
proof -
  have "running 0 ns ! i + c < running 0 ns ! j" if "i < j" "i < length ns" "c < ns ! i" "j < length ns" for i j c
    using running_step [of i ns 0] running_mono [of "Suc i" j ns 0] that by simp
  from this [of i j c] this [of j i d] show ?thesis using assms by (cases i j rule: linorder_cases) auto
qed

lemma block_cell:
  assumes "j < sum_list ns"
  shows "\<exists>i c. i < length ns \<and> c < ns ! i \<and> running 0 ns ! i + c = j"
  using assms
proof (induction ns rule: rev_induct)
  case (snoc n ns)
  show ?case
  proof (cases "j < sum_list ns")
    case True
    then obtain i c where "i < length ns" "c < ns ! i" "running 0 ns ! i + c = j" using snoc.IH by blast
    then show ?thesis by (intro exI [of _ i] exI [of _ c]) (simp add: nth_append running_nth)
  next
    case False
    then show ?thesis
      using snoc.prems by (intro exI [of _ "length ns"] exI [of _ "j - sum_list ns"]) (simp add: running_nth)
  qed
qed simp

lemma fold_set_list:
  "length (fold (\<lambda>v xs. xs[v := x]) vs xs) = length xs"
  "v < length xs \<Longrightarrow> fold (\<lambda>v xs. xs[v := x]) vs xs ! v = (if v \<in> set vs then x else xs ! v)"
  by (induction vs arbitrary: xs) (auto simp: nth_list_update)

lemma set_status_facts [simp]:
  "length (set_status x vs st) = length st" "v < length st \<Longrightarrow> set_status x vs st ! v = (if v \<in> set vs then x else st ! v)"
  by (simp_all add: set_status_def fold_set_list)

lemma fold_set_status:
  "length (fold (\<lambda>k. set_status x (f k)) ks st) = length st"
  "v < length st \<Longrightarrow> fold (\<lambda>k. set_status x (f k)) ks st ! v = (if \<exists>k \<in> set ks. v \<in> set (f k) then x else st ! v)"
  by (induction ks arbitrary: st) auto

section \<open>Finite elements\<close>

text \<open>
  A finite element of dimension \<open>k\<close>: every dof belongs to a node, a side or the cell, all nodes have the same number of dofs
  and all sides too.
\<close>

abbreviation fe_count :: "fe_dof list \<Rightarrow> fe_dof \<Rightarrow> nat" where "fe_count ds x \<equiv> length (filter (\<lambda>y. y = x) ds)"

definition fe_ok :: "nat \<Rightarrow> fe_dof list \<Rightarrow> bool" where
  "fe_ok k ds \<longleftrightarrow> list_all (\<lambda>(d, f). (d = 0 \<or> d = k - 1) \<and> f \<le> k \<or> d = k) ds
     \<and> list_all (\<lambda>f. fe_count ds (0, f) = fe_count ds (0, 0) \<and> fe_count ds (k - 1, f) = fe_count ds (k - 1, 0)) [0..<k + 1]"

definition space_ok :: "equal_order_space \<Rightarrow> bool" where
  "space_ok s \<longleftrightarrow> (\<exists>fes. s = new_space fes \<and> (\<forall>k \<in> {1, 2, 3}. fe_ok k (fes ! k)))"

lemma space_counts:
  assumes "space_ok s" and "k \<in> {1, 2, 3}"
  shows "fe_ok k (fe s ! k)" and "f \<le> k \<Longrightarrow> fe_count (fe s ! k) (0, f) = space_node_dofs s ! k"
    and "f \<le> k \<Longrightarrow> fe_count (fe s ! k) (k - 1, f) = space_edge_dofs s ! k"
proof -
  obtain fes where s: "s = new_space fes" "\<And>k. k \<in> {1, 2, 3} \<Longrightarrow> fe_ok k (fes ! k)" using assms(1) by (auto simp: space_ok_def)
  have k: "k < 4" "k \<noteq> 0" using assms(2) by auto
  show ok: "fe_ok k (fe s ! k)" using s(2) [OF assms(2)] by (simp add: s(1) new_space_def)
  have at: "init_n_dofs fes P ! k = length (filter (P k) (fes ! k))" for P using k(1) by (simp add: init_n_dofs_def)
  have "(\<lambda>(d :: nat, f :: nat). d = 0 \<and> f = 0) = (\<lambda>x. x = (0, 0))" "(\<lambda>(d, f :: nat). Suc d = k \<and> f = 0) = (\<lambda>x. x = (k - 1, 0))"
    using k(2) by (auto simp: fun_eq_iff)
  then have n: "space_node_dofs s ! k = fe_count (fe s ! k) (0, 0)" "space_edge_dofs s ! k = fe_count (fe s ! k) (k - 1, 0)"
    by (simp_all add: s(1) new_space_def at)
  have "\<forall>f \<in> set [0..<k + 1]. fe_count (fe s ! k) (0, f) = fe_count (fe s ! k) (0, 0)
      \<and> fe_count (fe s ! k) (k - 1, f) = fe_count (fe s ! k) (k - 1, 0)"
    using ok unfolding fe_ok_def list_all_iff by blast
  moreover have "f \<in> set [0..<k + 1]" if "f \<le> k" using that by (simp add: less_Suc_eq_le del: upt_Suc)
  ultimately show "f \<le> k \<Longrightarrow> fe_count (fe s ! k) (0, f) = space_node_dofs s ! k"
    "f \<le> k \<Longrightarrow> fe_count (fe s ! k) (k - 1, f) = space_edge_dofs s ! k"
    unfolding n by blast+
qed

lemma dof_count_less:
  assumes "i < length ds"
  shows "dof_count ds i < fe_count ds (ds ! i)"
proof -
  have "ds = take i ds @ ds ! i # drop (Suc i) ds" using assms by (rule id_take_nth_drop)
  then have "filter (\<lambda>y. y = ds ! i) ds = filter (\<lambda>y. y = ds ! i) (take i ds) @ ds ! i # filter (\<lambda>y. y = ds ! i) (drop (Suc i) ds)"
    by (metis (mono_tags, lifting) filter.simps(2) filter_append)
  then show ?thesis by (simp add: dof_count_def)
qed

text \<open>The dofs at a place are counted through.\<close>

lemma dof_count_onto: "c < fe_count ds x \<Longrightarrow> \<exists>i < length ds. ds ! i = x \<and> dof_count ds i = c"
proof (induction ds rule: rev_induct)
  case (snoc y ds)
  have old: "dof_count (ds @ [y]) i = dof_count ds i" if "i < length ds" for i using that by (simp add: dof_count_def nth_append)
  show ?case
  proof (cases "c < fe_count ds x")
    case True
    then obtain i where "i < length ds" "ds ! i = x" "dof_count ds i = c" using snoc.IH by blast
    then show ?thesis using old by (intro exI [of _ i]) (simp add: nth_append)
  next
    case False
    then have "y = x" "c = fe_count ds x" using snoc.prems by (auto split: if_splits)
    then show ?thesis by (intro exI [of _ "length ds"]) (simp add: dof_count_def)
  qed
qed simp

lemma dof_count_inj:
  assumes "i < length ds" and "j < length ds" and "ds ! i = ds ! j" and "dof_count ds i = dof_count ds j"
  shows "i = j"
proof -
  have "dof_count ds i < dof_count ds j" if "i < j" "j < length ds" "ds ! i = ds ! j" for i j
  proof -
    have "dof_count (take j ds) i < fe_count (take j ds) (take j ds ! i)" using that by (intro dof_count_less) simp
    then show ?thesis using that by (simp add: dof_count_def min_def)
  qed
  from this [of i j] this [of j i] show ?thesis using assms by (cases i j rule: linorder_cases) auto
qed

section \<open>Slots\<close>

text \<open>
  The nodes or edges of a cell, their numbers of dofs, and the slot of a dof: its node or edge with its number there, or the cell
  itself. Dofs of different cells are the same exactly when they have the same slot.
\<close>

datatype slot = FaceSlot bool nat nat | CellSlot nat nat

definition faces :: "topology \<Rightarrow> dup_nodes \<Rightarrow> bool \<Rightarrow> nat \<Rightarrow> nat list" where
  "faces t tr e k = (if e then element_edges t k else element_nodes t tr k)"

definition n_faces :: "topology \<Rightarrow> dup_nodes \<Rightarrow> bool \<Rightarrow> nat" where
  "n_faces t tr e = (if e then length (edges t) else n_duplicated_nodes tr)"

definition face_size :: "topology \<Rightarrow> dup_nodes \<Rightarrow> equal_order_space \<Rightarrow> bool \<Rightarrow> nat \<Rightarrow> nat" where
  "face_size t tr s e v = (if e then n_edge_dofs t s v else n_node_dofs tr s v)"

abbreviation n_dofs :: "topology \<Rightarrow> equal_order_space \<Rightarrow> nat \<Rightarrow> nat" where "n_dofs t s k \<equiv> length (cell_dofs t s k)"

definition slot_of :: "topology \<Rightarrow> dup_nodes \<Rightarrow> equal_order_space \<Rightarrow> nat \<Rightarrow> nat \<Rightarrow> slot" where
  "slot_of t tr s k i =
     (let ds = cell_dofs t s k in
      case place_of t tr k (ds ! i) of AtNode v \<Rightarrow> FaceSlot False v (dof_count ds i) | AtEdge g \<Rightarrow> FaceSlot True g (dof_count ds i)
      | _ \<Rightarrow> CellSlot k i)"

definition slots :: "topology \<Rightarrow> dup_nodes \<Rightarrow> equal_order_space \<Rightarrow> nat \<Rightarrow> slot set" where
  "slots t tr s k = slot_of t tr s k ` {..<n_dofs t s k}"

lemma slotsD: "x \<in> slots t tr s k \<Longrightarrow> \<exists>i < n_dofs t s k. slot_of t tr s k i = x"
  by (auto simp: slots_def)

lemma slotsI: "i < n_dofs t s k \<Longrightarrow> slot_of t tr s k i \<in> slots t tr s k"
  by (simp add: slots_def)

text \<open>The mesh with its tree.\<close>

definition tree_ok :: "topology \<Rightarrow> dup_nodes \<Rightarrow> bool" where
  "tree_ok t tr \<longleftrightarrow> split_ready t \<and> dup_inv t (n_nodes_of_mesh t) tr"

lemma cell_nodes_facts:
  assumes T: "tree_ok t tr" and k: "k < bulk_of t"
  shows "length (element_nodes t tr k) = dim_of (elems t ! k) + 1" and "distinct (element_nodes t tr k)"
    and "v \<in> set (element_nodes t tr k) \<Longrightarrow> v < n_duplicated_nodes tr \<and> node_dim tr ! v = dim_of (elems t ! k)"
proof -
  have r: "split_ready t" and inv: "dup_inv t (n_nodes_of_mesh t) tr" using T by (simp_all add: tree_ok_def)
  note S = split_ready_simplex [OF r k] and V = labelled_views(1) [OF r inv k]
  have at: "v < n_nodes_of_mesh t" "k \<in> set (node_elements t ! v)" if "v \<in> set (node_idxs (elems t ! k))" for v
    using S(5) [OF that] that k by (simp_all add: node_elements_set(2) [OF r])
  show "length (element_nodes t tr k) = dim_of (elems t ! k) + 1" using V S(3) by simp
  have "inj_on (\<lambda>v. node_label t v k) (set (node_idxs (elems t ! k)))"
    using same_label [OF r at at] by (auto intro!: inj_onI)
  then show "distinct (element_nodes t tr k)" using V S(4) by (simp add: distinct_map)
  show "v < n_duplicated_nodes tr \<and> node_dim tr ! v = dim_of (elems t ! k)" if v: "v \<in> set (element_nodes t tr k)"
  proof -
    obtain w where w: "w \<in> set (node_idxs (elems t ! k))" "v = node_label t w k" using v V by auto
    then show ?thesis using at [OF w(1)] node_label_less [OF r at [OF w(1)] at(1) [OF w(1)]] inv by (simp add: dup_inv_def)
  qed
qed

lemma cell_edges_facts:
  assumes T: "tree_ok t tr" and k: "k < bulk_of t"
  shows "length (element_edges t k) = dim_of (elems t ! k) + 1" and "distinct (element_edges t k)"
    and "g \<in> set (element_edges t k) \<Longrightarrow> g < length (edges t) \<and> dim_of (elems t ! first_elem t g) = dim_of (elems t ! k)"
proof -
  have r: "split_ready t" using T by (simp add: tree_ok_def)
  note S = split_ready_simplex [OF r k]
  show len: "length (element_edges t k) = dim_of (elems t ! k) + 1" by (simp add: element_edges_def)
  show "g < length (edges t) \<and> dim_of (elems t ! first_elem t g) = dim_of (elems t ! k)" if "g \<in> set (element_edges t k)"
    using that element_edges_iff [OF r k] first_elem_facts(4) [OF r, of g k] by auto
  let ?N = "node_idxs (elems t ! k)" and ?d = "dim_of (elems t ! k)"
  have one: "a = b" if ab: "a \<le> ?d" "b \<le> ?d" "element_edges t k ! a = element_edges t k ! b" for a b
  proof -
    obtain g where g: "g < length (edges t)" "edge_idx (elems t ! k) ! a = Some g" "(k, a) \<in> set (edges t ! g)"
      using split_readyD(1) [OF r k ab(1)] by blast
    obtain g' where g': "edge_idx (elems t ! k) ! b = Some g'" "(k, b) \<in> set (edges t ! g')"
      using split_readyD(1) [OF r k ab(2)] by blast
    have "g' = g" using ab g(2) g'(1) by (simp add: element_edges_def less_Suc_eq_le del: upt_Suc)
    then have "side_key (elems t) (k, a) = side_key (elems t) (k, b)"
      using split_readyD(5) [OF r g(1) g(3)] split_readyD(5) [OF r g(1), of "(k, b)"] g'(2) by simp
    then have "set ?N - {?N ! (?d - a)} = set ?N - {?N ! (?d - b)}"
      using side_nodes_facts(1) [OF S(1) ab(1)] side_nodes_facts(1) [OF S(1) ab(2)] by (simp add: side_key_def)
    moreover have "?N ! (?d - a) \<in> set ?N" "?N ! (?d - b) \<in> set ?N" using S(3) by simp_all
    ultimately have "?N ! (?d - a) = ?N ! (?d - b)" by auto
    then show ?thesis using S(3,4) ab(1,2) by (simp add: nth_eq_iff_index_eq)
  qed
  then show "distinct (element_edges t k)" using len by (simp add: distinct_conv_nth less_Suc_eq_le) blast
qed

text \<open>Cells on a common edge have a common node.\<close>

lemma common_node:
  assumes T: "tree_ok t tr" and a: "a < bulk_of t" and b: "b < bulk_of t"
    and g: "g \<in> set (element_edges t a)" "g \<in> set (element_edges t b)"
  shows "\<exists>v. v \<in> set (element_nodes t tr a) \<and> v \<in> set (element_nodes t tr b)"
proof -
  have r: "split_ready t" and inv: "dup_inv t (n_nodes_of_mesh t) tr" using T by (simp_all add: tree_ok_def)
  have ga: "g < length (edges t)" "a \<in> fst ` set (edges t ! g)" "b \<in> fst ` set (edges t ! g)"
    using g element_edges_iff [OF r a] element_edges_iff [OF r b] by auto
  let ?h = "hd (edges t ! g)"
  have h: "fst ?h < bulk_of t" "?h \<in> set (edges t ! g)" using first_elem_facts(1) [OF r ga(1)] split_readyD(2) [OF r ga(1)] by simp_all
  have "length (side_node_list (elems t) ?h) = dim_of (elems t ! fst ?h)"
    using side_nodes_facts(3) [OF split_ready_simplex(1) [OF r h(1)], of "snd ?h"] split_readyD(3) [OF r ga(1) h(2)]
    by (cases ?h) (simp add: sides_of_def)
  then obtain v where v: "v \<in> set (side_node_list (elems t) ?h)"
    using split_ready_simplex(2) [OF r h(1)] by (cases "side_node_list (elems t) ?h") auto
  have va: "v \<in> set (node_idxs (elems t ! a))" using first_elem_facts(5) [OF r ga(1,2)] v by blast
  have vb: "v \<in> set (node_idxs (elems t ! b))" using first_elem_facts(5) [OF r ga(1,3)] v by blast
  note at = split_ready_simplex(5) [OF r a va]
  have m: "a \<in> set (node_elements t ! v)" "b \<in> set (node_elements t ! v)" using a b va vb by (simp_all add: node_elements_set(2) [OF r at])
  have "b \<in> set (adjacent_elems t a)" using adjacent_elems_iff [OF r a] ga by blast
  then have "connected_in (adjacent_elems t) (set (node_elements t ! v)) a b" using m by (auto simp: connected_in_def linked_def)
  then have "node_label t v a = node_label t v b" using same_label [OF r at m(1) at m(2)] by simp
  moreover have "node_label t v a \<in> set (element_nodes t tr a)" "node_label t v b \<in> set (element_nodes t tr b)"
    using labelled_views(1) [OF r inv a] labelled_views(1) [OF r inv b] va vb by simp_all
  ultimately show ?thesis by auto
qed

lemma faces_facts:
  assumes T: "tree_ok t tr" and k: "k < bulk_of t"
  shows "length (faces t tr e k) = dim_of (elems t ! k) + 1" and "distinct (faces t tr e k)"
    and "v \<in> set (faces t tr e k) \<Longrightarrow> v < n_faces t tr e"
    and "v \<in> set (faces t tr e k) \<Longrightarrow> face_size t tr s e v = (if e then space_edge_dofs s else space_node_dofs s) ! dim_of (elems t ! k)"
    and "v \<in> set (faces t tr e k) \<Longrightarrow> j < bulk_of t \<Longrightarrow> v \<in> set (faces t tr e j) \<Longrightarrow> dim_of (elems t ! j) = dim_of (elems t ! k)"
proof -
  have k0: "dim_of (elems t ! k) \<noteq> 0" using split_ready_simplex(2) [OF _ k] T by (auto simp: tree_ok_def)
  note N = cell_nodes_facts [OF T k] and E = cell_edges_facts [OF T k]
  show "length (faces t tr e k) = dim_of (elems t ! k) + 1" "distinct (faces t tr e k)"
    using N(1,2) E(1,2) by (simp_all add: faces_def)
  show "v \<in> set (faces t tr e k) \<Longrightarrow> v < n_faces t tr e" using N(3) E(3) by (auto simp: faces_def n_faces_def split: if_splits)
  show "v \<in> set (faces t tr e k) \<Longrightarrow> face_size t tr s e v = (if e then space_edge_dofs s else space_node_dofs s) ! dim_of (elems t ! k)"
    using N(3) E(3) k0 by (auto simp: faces_def face_size_def n_edge_dofs_def n_node_dofs_def split: if_splits)
  show "v \<in> set (faces t tr e k) \<Longrightarrow> j < bulk_of t \<Longrightarrow> v \<in> set (faces t tr e j) \<Longrightarrow> dim_of (elems t ! j) = dim_of (elems t ! k)"
    using N(3) [of v] E(3) [of v] cell_nodes_facts(3) [OF T, of j v] cell_edges_facts(3) [OF T, of j v]
    by (auto simp: faces_def split: if_splits)
qed

text \<open>The slot of a dof.\<close>

lemma slot_cases:
  assumes T: "tree_ok t tr" and S: "space_ok s" and k: "k < bulk_of t" and i: "i < n_dofs t s k"
  defines "ds \<equiv> cell_dofs t s k"
  obtains (face) e f where "place_of t tr k (ds ! i) = (if e then AtEdge else AtNode) (faces t tr e k ! f)" and "f \<le> dim_of (elems t ! k)"
      and "slot_of t tr s k i = FaceSlot e (faces t tr e k ! f) (dof_count ds i)" and "ds ! i = (if e then dim_of (elems t ! k) - 1 else 0, f)"
      and "dof_count ds i < face_size t tr s e (faces t tr e k ! f)" and "e \<longrightarrow> dim_of (elems t ! k) \<noteq> 1"
    | (cell) "place_of t tr k (ds ! i) = InCell" and "slot_of t tr s k i = CellSlot k i" and "fst (ds ! i) = dim_of (elems t ! k)"
proof -
  let ?d = "dim_of (elems t ! k)"
  obtain d f where df: "ds ! i = (d, f)" by (cases "ds ! i")
  have dim: "?d \<in> {1, 2, 3}" using split_ready_simplex(2) [OF _ k] T by (simp add: tree_ok_def)
  note C = space_counts [OF S dim]
  have ds: "ds = fe s ! ?d" by (simp add: ds_def cell_dofs_def)
  have "(d, f) \<in> set ds" using i df unfolding ds_def by (metis nth_mem)
  then have ok: "(d = 0 \<or> d = ?d - 1) \<and> f \<le> ?d \<or> d = ?d" using C(1) unfolding ds fe_ok_def list_all_iff by fastforce
  have cnt: "dof_count ds i < fe_count ds (d, f)" using dof_count_less [of i ds] i df by (simp add: ds_def)
  have n: "faces t tr e k ! f \<in> set (faces t tr e k)" if "f \<le> ?d" for e using faces_facts(1) [OF T k] that by simp
  consider "d = 0" "f \<le> ?d" | "d \<noteq> 0" "d = ?d - 1" "f \<le> ?d" | "d \<noteq> 0" "d \<noteq> ?d - 1" "d = ?d" using ok dim by auto
  then show thesis
  proof cases
    case 1
    show thesis
    proof (rule face [of False f])
      show "dof_count ds i < face_size t tr s False (faces t tr False k ! f)"
        using cnt 1 C(2) [OF 1(2)] faces_facts(4) [OF T k n [OF 1(2)]] by (simp add: ds)
    qed (use 1 df in \<open>simp_all add: place_of_def faces_def slot_of_def Let_def ds_def\<close>)
  next
    case 2
    show thesis
    proof (rule face [of True f])
      show "dof_count ds i < face_size t tr s True (faces t tr True k ! f)"
        using cnt 2 C(3) [OF 2(3)] faces_facts(4) [OF T k n [OF 2(3)]] by (simp add: ds)
    qed (use 2 df in \<open>auto simp: place_of_def faces_def slot_of_def Let_def ds_def\<close>)
  next
    case 3
    then show thesis using df by (intro cell) (simp_all add: place_of_def slot_of_def Let_def ds_def)
  qed
qed

lemma face_slots:
  assumes T: "tree_ok t tr" and S: "space_ok s" and k: "k < bulk_of t"
  shows "FaceSlot e v c \<in> slots t tr s k \<longleftrightarrow> v \<in> set (faces t tr e k) \<and> c < face_size t tr s e v \<and> (e \<longrightarrow> dim_of (elems t ! k) \<noteq> 1)"
proof
  let ?d = "dim_of (elems t ! k)"
  note F = faces_facts [OF T k]
  assume "FaceSlot e v c \<in> slots t tr s k"
  then obtain i where i: "i < n_dofs t s k" "slot_of t tr s k i = FaceSlot e v c" by (auto simp: slots_def)
  show "v \<in> set (faces t tr e k) \<and> c < face_size t tr s e v \<and> (e \<longrightarrow> ?d \<noteq> 1)"
    by (rule slot_cases [OF T S k i(1)]) (use i(2) F(1) in auto)
next
  let ?d = "dim_of (elems t ! k)" and ?ds = "cell_dofs t s k"
  note F = faces_facts [OF T k]
  assume v: "v \<in> set (faces t tr e k) \<and> c < face_size t tr s e v \<and> (e \<longrightarrow> ?d \<noteq> 1)"
  have dim: "?d \<in> {1, 2, 3}" using split_ready_simplex(2) [OF _ k] T by (simp add: tree_ok_def)
  obtain f where f: "f \<le> ?d" "faces t tr e k ! f = v" using v F(1) by (auto simp: in_set_conv_nth less_Suc_eq_le)
  have "c < fe_count ?ds (if e then ?d - 1 else 0, f)"
    using v F(4) [of v e s] space_counts(2,3) [OF S dim f(1)] by (auto simp: cell_dofs_def split: if_splits)
  then obtain i where i: "i < length ?ds" "?ds ! i = (if e then ?d - 1 else 0, f)" "dof_count ?ds i = c" using dof_count_onto by blast
  have "slot_of t tr s k i = FaceSlot e v c"
    using i(2,3) v f(2) dim by (auto simp: slot_of_def place_of_def faces_def Let_def)
  then show "FaceSlot e v c \<in> slots t tr s k" unfolding slots_def using i(1) by (intro image_eqI [of _ _ i]) simp_all
qed

lemma cell_slot:
  assumes "tree_ok t tr" and "space_ok s" and "k < bulk_of t" and "i < n_dofs t s k" and "slot_of t tr s k i = CellSlot j i'"
  shows "j = k \<and> i' = i"
  by (rule slot_cases [OF assms(1-4)]) (use assms(5) in auto)

lemma slot_inj:
  assumes T: "tree_ok t tr" and S: "space_ok s" and k: "k < bulk_of t"
  shows "inj_on (slot_of t tr s k) {..<n_dofs t s k}"
proof (rule inj_onI)
  fix i j assume "i \<in> {..<n_dofs t s k}" "j \<in> {..<n_dofs t s k}" and eq: "slot_of t tr s k i = slot_of t tr s k j"
  then have ij: "i < n_dofs t s k" "j < n_dofs t s k" by simp_all
  note F = faces_facts [OF T k]
  show "i = j"
  proof (cases rule: slot_cases [OF T S k ij(1)])
    case i: (1 e f)
    show ?thesis
    proof (cases rule: slot_cases [OF T S k ij(2)])
      case j: (1 e' f')
      have "e = e'" "faces t tr e k ! f = faces t tr e k ! f'" using i(3) j(3) eq by auto
      then have "f = f'" using F(1,2) [of e] i(2) j(2) by (simp add: nth_eq_iff_index_eq)
      then show ?thesis using dof_count_inj [OF ij] i(3,4) j(3,4) eq \<open>e = e'\<close> by simp
    qed (use i(3) eq in simp)
  next
    case i: 2
    then show ?thesis using cell_slot [OF T S k ij(2)] eq by simp
  qed
qed

lemma slots_disjoint_cells:
  assumes "tree_ok t tr" and "space_ok s" and "k < bulk_of t" and "CellSlot j i \<in> slots t tr s k"
  shows "j = k \<and> i < n_dofs t s k \<and> slot_of t tr s k i = CellSlot k i"
proof -
  obtain i' where "i' < n_dofs t s k" "slot_of t tr s k i' = CellSlot j i" using assms(4) by (auto simp: slots_def)
  then show ?thesis using cell_slot [OF assms(1-3)] by auto
qed

section \<open>Local and ghost cells\<close>

text \<open>The mesh as processor \<open>p\<close> sees it, when element \<open>k\<close> is on processor \<open>pr k\<close>.\<close>

definition view_ok :: "topology \<Rightarrow> dup_nodes \<Rightarrow> (nat \<Rightarrow> nat) \<Rightarrow> nat \<Rightarrow> dof_mesh \<Rightarrow> bool" where
  "view_ok t tr pr p M \<longleftrightarrow> dm_topo M = t \<and> dm_tree M = tr \<and> my_rank M = p \<and> length (own_cells M) = own_size M
     \<and> distinct (own_cells M) \<and> set (own_cells M) = {k. k < bulk_of t \<and> pr k = p}
     \<and> (\<forall>k < bulk_of t. proc_of M k = pr k \<and> (el_is_local M k \<longleftrightarrow> pr k = p))"

lemma view_okD:
  assumes "view_ok t tr pr p M"
  shows "dm_topo M = t" and "dm_tree M = tr" and "my_rank M = p" and "length (own_cells M) = own_size M" and "distinct (own_cells M)"
    and "set (own_cells M) = {k. k < bulk_of t \<and> pr k = p}" and "k < bulk_of t \<Longrightarrow> proc_of M k = pr k"
    and "k < bulk_of t \<Longrightarrow> el_is_local M k \<longleftrightarrow> pr k = p"
  using assms by (simp_all add: view_ok_def)

text \<open>The elements of the neighbours exist.\<close>

definition neighbours_ok :: "topology \<Rightarrow> bool" where
  "neighbours_ok t \<longleftrightarrow> (\<forall>n \<in> set (vb_neighbours t). ngh_elem_idx n < bulk_of t \<and> ngh_edge_idx n < length (edges t))"

text \<open>The ghost cells collected so far, with their places and processors.\<close>

definition ghosts_ok :: "topology \<Rightarrow> (nat \<Rightarrow> nat) \<Rightarrow> nat \<Rightarrow> dof_mesh \<Rightarrow> dof_handler \<Rightarrow> bool" where
  "ghosts_ok t pr p M h \<longleftrightarrow> distinct (ghost_4_loc h) \<and> set (ghost_4_loc h) \<subseteq> {k. k < bulk_of t \<and> pr k \<noteq> p}
     \<and> sorted (ghost_proc h) \<and> distinct (ghost_proc h) \<and> set (ghost_proc h) = pr ` set (ghost_4_loc h)
     \<and> (\<forall>q. ghost_proc_el h q = filter (\<lambda>k. pr k = q) (ghost_4_loc h))
     \<and> (\<forall>l < own_size M. global_to_local_el_idx h (own_cells M ! l) = Some l)
     \<and> (\<forall>j < length (ghost_4_loc h). global_to_local_el_idx h (ghost_4_loc h ! j) = Some (own_size M + j))
     \<and> edg_4_loc h = local_edges M \<and> nb_4_loc h = local_neighbours M \<and> local_to_global_dof_idx h = []"

lemma add_ghost_ok:
  assumes V: "view_ok t tr pr p M" and g: "ghosts_ok t pr p M h" and k: "k < bulk_of t" "pr k \<noteq> p" "k \<notin> set (ghost_4_loc h)"
  shows "ghosts_ok t pr p M (add_ghost M k h)" and "ghost_4_loc (add_ghost M k h) = ghost_4_loc h @ [k]"
proof -
  let ?h = "add_ghost M k h"
  note G = g [unfolded ghosts_ok_def]
  have p: "proc_of M k = pr k" by (rule view_okD(7) [OF V k(1)])
  show gh: "ghost_4_loc ?h = ghost_4_loc h @ [k]" by (simp add: add_ghost_def Let_def)
  have fields: "ghost_proc ?h = insort_insert (pr k) (ghost_proc h)" "ghost_proc_el ?h = (ghost_proc_el h)(pr k := ghost_proc_el h (pr k) @ [k])"
    "global_to_local_el_idx ?h = (global_to_local_el_idx h)(k \<mapsto> own_size M + length (ghost_4_loc h))" "edg_4_loc ?h = edg_4_loc h"
    "nb_4_loc ?h = nb_4_loc h" "local_to_global_dof_idx ?h = local_to_global_dof_idx h"
    by (simp_all add: add_ghost_def Let_def p)
  have own: "own_cells M ! l \<noteq> k" if "l < own_size M" for l
  proof -
    have "own_cells M ! l \<in> set (own_cells M)" using that view_okD(4) [OF V] by simp
    then show ?thesis using view_okD(6) [OF V] k(2) by auto
  qed
  have old: "ghost_4_loc h ! j \<noteq> k" if "j < length (ghost_4_loc h)" for j using k(3) that by (metis nth_mem)
  show "ghosts_ok t pr p M ?h"
    unfolding ghosts_ok_def gh fields
  proof (intro conjI allI impI)
    fix j assume "j < length (ghost_4_loc h @ [k])"
    then show "((global_to_local_el_idx h)(k \<mapsto> own_size M + length (ghost_4_loc h))) ((ghost_4_loc h @ [k]) ! j) = Some (own_size M + j)"
      using G old by (cases "j = length (ghost_4_loc h)") (auto simp: nth_append)
  qed (use G k own in \<open>auto simp: set_insort_insert sorted_insort_insert distinct_insort_insert\<close>)
qed

lemma local_nodes:
  assumes V: "view_ok t tr pr p M" and T: "tree_ok t tr" and v: "v < n_duplicated_nodes tr"
  shows "node_is_local M ! v \<longleftrightarrow> (\<exists>a < bulk_of t. pr a = p \<and> v \<in> set (element_nodes t tr a))"
proof -
  note D = view_okD [OF V]
  have "length (fold (\<lambda>k fl. fold (\<lambda>v fl. fl[v := True]) (cell_nodes M k) fl) ks fl) = length fl
      \<and> (fold (\<lambda>k fl. fold (\<lambda>v fl. fl[v := True]) (cell_nodes M k) fl) ks fl ! v \<longleftrightarrow> fl ! v \<or> (\<exists>k \<in> set ks. v \<in> set (cell_nodes M k)))"
    if "v < length fl" for ks fl
    using that by (induction ks arbitrary: fl) (auto simp: fold_set_list)
  then show ?thesis unfolding node_is_local_def using v D by auto
qed

lemma ghosts_by_node:
  assumes V: "view_ok t tr pr p M" and T: "tree_ok t tr" and h: "ghosts_ok t pr p M h" "ghost_4_loc h = []" and n: "n \<le> bulk_of t"
  shows "ghosts_ok t pr p M (fold (ghost_by_node M) [0..<n] h)
    \<and> set (ghost_4_loc (fold (ghost_by_node M) [0..<n] h)) =
        {k. k < n \<and> pr k \<noteq> p \<and> (\<exists>a < bulk_of t. pr a = p \<and> (\<exists>v. v \<in> set (element_nodes t tr a) \<and> v \<in> set (element_nodes t tr k)))}"
  using n
proof (induction n)
  case 0
  then show ?case using h by simp
next
  case (Suc n)
  let ?h = "fold (ghost_by_node M) [0..<n] h"
  note D = view_okD [OF V]
  have n: "n < bulk_of t" using Suc.prems by simp
  from Suc have IH: "ghosts_ok t pr p M ?h" "set (ghost_4_loc ?h) =
        {k. k < n \<and> pr k \<noteq> p \<and> (\<exists>a < bulk_of t. pr a = p \<and> (\<exists>v. v \<in> set (element_nodes t tr a) \<and> v \<in> set (element_nodes t tr k)))}"
    by simp_all
  have "list_ex (\<lambda>v. node_is_local M ! v) (element_nodes t tr n) \<longleftrightarrow>
      (\<exists>a < bulk_of t. pr a = p \<and> (\<exists>v. v \<in> set (element_nodes t tr a) \<and> v \<in> set (element_nodes t tr n)))"
    using local_nodes [OF V T] cell_nodes_facts(3) [OF T n] by (auto simp: list_ex_iff)
  then have step: "ghost_by_node M n ?h = (if pr n \<noteq> p
      \<and> (\<exists>a < bulk_of t. pr a = p \<and> (\<exists>v. v \<in> set (element_nodes t tr a) \<and> v \<in> set (element_nodes t tr n))) then add_ghost M n ?h else ?h)"
    using D(1-3) D(7) [OF n] by (simp add: ghost_by_node_def)
  have "n \<notin> set (ghost_4_loc ?h)" using IH(2) by simp
  note A = add_ghost_ok [OF V IH(1) n _ this]
  have run: "fold (ghost_by_node M) [0..<Suc n] h = ghost_by_node M n ?h" by simp
  show ?case unfolding run step using A IH by (auto simp: less_Suc_eq)
qed

definition neighbour_pair :: "topology \<Rightarrow> nat \<Rightarrow> nat \<Rightarrow> bool" where
  "neighbour_pair t a b \<longleftrightarrow> (\<exists>n \<in> set (vb_neighbours t). (a = ngh_elem_idx n \<and> b = first_elem t (ngh_edge_idx n))
     \<or> (b = ngh_elem_idx n \<and> a = first_elem t (ngh_edge_idx n)))"

text \<open>Cells of different processors that are in each other's ghost cells.\<close>

definition touching :: "topology \<Rightarrow> dup_nodes \<Rightarrow> nat \<Rightarrow> nat \<Rightarrow> bool" where
  "touching t tr a b \<longleftrightarrow> (\<exists>v. v \<in> set (element_nodes t tr a) \<and> v \<in> set (element_nodes t tr b)) \<or> neighbour_pair t a b"

lemma touching_sym: "touching t tr a b \<longleftrightarrow> touching t tr b a"
  by (auto simp: touching_def neighbour_pair_def)

lemma ghost_by_neighbour_ok:
  assumes V: "view_ok t tr pr p M" and h: "ghosts_ok t pr p M h" and k: "k < bulk_of t"
  shows "ghosts_ok t pr p M (ghost_by_neighbour M k h)"
    and "set (ghost_4_loc (ghost_by_neighbour M k h)) = set (ghost_4_loc h) \<union> (if pr k \<noteq> p then {k} else {})"
  using add_ghost_ok [OF V h k] h view_okD(8) [OF V k] by (auto simp: ghost_by_neighbour_def)

lemma ghosts_by_neighbours:
  assumes V: "view_ok t tr pr p M" and h: "ghosts_ok t pr p M h"
    and "\<forall>i \<in> set is. fst (neighbour_elems M i) < bulk_of t \<and> snd (neighbour_elems M i) < bulk_of t"
  defines "step \<equiv> \<lambda>i h. ghost_by_neighbour M (snd (neighbour_elems M i)) (ghost_by_neighbour M (fst (neighbour_elems M i)) h)"
  shows "ghosts_ok t pr p M (fold step is h) \<and> set (ghost_4_loc (fold step is h)) = set (ghost_4_loc h)
    \<union> {k. pr k \<noteq> p \<and> (\<exists>i \<in> set is. k = fst (neighbour_elems M i) \<or> k = snd (neighbour_elems M i))}"
  using h assms(3)
proof (induction "is" arbitrary: h)
  case (Cons i "is")
  let ?a = "fst (neighbour_elems M i)" and ?b = "snd (neighbour_elems M i)"
  note A = ghost_by_neighbour_ok [OF V Cons.prems(1), of ?a]
  note B = ghost_by_neighbour_ok [OF V A(1), of ?b]
  have ok: "ghosts_ok t pr p M (step i h)" using B Cons.prems by (simp add: step_def)
  have gh: "set (ghost_4_loc (step i h)) = set (ghost_4_loc h) \<union> {k. pr k \<noteq> p \<and> (k = ?a \<or> k = ?b)}"
    using A B Cons.prems(2) by (auto simp: step_def)
  show ?case using Cons.IH [OF ok] Cons.prems(2) gh by auto
qed simp

lemma make_elem_partitioning_ok:
  assumes V: "view_ok t tr pr p M" and T: "tree_ok t tr" and N: "neighbours_ok t"
  shows "ghosts_ok t pr p M (make_elem_partitioning M)"
    and "set (ghost_4_loc (make_elem_partitioning M)) = {k. k < bulk_of t \<and> pr k \<noteq> p \<and> (\<exists>a < bulk_of t. pr a = p \<and> touching t tr a k)}"
proof -
  let ?g = "fold (\<lambda>l m. m(own_cells M ! l \<mapsto> l)) [0..<own_size M] (\<lambda>_. None)"
  let ?h1 = "new_handler\<lparr>edg_4_loc := local_edges M, nb_4_loc := local_neighbours M, global_to_local_el_idx := ?g\<rparr>"
  let ?h2 = "fold (ghost_by_node M) [0..<bulk_of t] ?h1"
  let ?step = "\<lambda>i h. ghost_by_neighbour M (snd (neighbour_elems M i)) (ghost_by_neighbour M (fst (neighbour_elems M i)) h)"
  note D = view_okD [OF V]
  have r: "split_ready t" using T by (simp add: tree_ok_def)
  have g: "l < n \<Longrightarrow> n \<le> own_size M \<Longrightarrow> fold (\<lambda>l m. m(own_cells M ! l \<mapsto> l)) [0..<n] (\<lambda>_. None) (own_cells M ! l) = Some l" for l n
  proof (induction n)
    case (Suc n)
    then show ?case using D(4,5) by (cases "l = n") (auto simp: nth_eq_iff_index_eq)
  qed simp
  have h1: "ghosts_ok t pr p M ?h1" "ghost_4_loc ?h1 = []" using g by (simp_all add: ghosts_ok_def new_handler_def)
  note h2 = ghosts_by_node [OF V T h1 order_refl]
  have nb: "fst (neighbour_elems M i) = ngh_elem_idx (vb_neighbours t ! i)" "snd (neighbour_elems M i) = first_elem t (ngh_edge_idx (vb_neighbours t ! i))" for i
    by (simp_all add: neighbour_elems_def Let_def D(1))
  have lt: "fst (neighbour_elems M i) < bulk_of t \<and> snd (neighbour_elems M i) < bulk_of t" if "i < length (vb_neighbours t)" for i
    using N first_elem_facts(1) [OF r] that unfolding nb neighbours_ok_def by simp
  have loc: "nb_4_loc ?h2 = local_neighbours M" using h2 by (simp add: ghosts_ok_def)
  have set_loc: "set (local_neighbours M) = {i. i < length (vb_neighbours t) \<and> (pr (fst (neighbour_elems M i)) = p \<or> pr (snd (neighbour_elems M i)) = p)}"
    using D(8) lt by (auto simp: local_neighbours_def D(1))
  then have "\<forall>i \<in> set (local_neighbours M). fst (neighbour_elems M i) < bulk_of t \<and> snd (neighbour_elems M i) < bulk_of t" using lt by simp
  note h3 = ghosts_by_neighbours [OF V conjunct1 [OF h2] this]
  have run: "make_elem_partitioning M = fold ?step (local_neighbours M) ?h2"
    unfolding make_elem_partitioning_def Let_def D(1) loc ..
  show "ghosts_ok t pr p M (make_elem_partitioning M)" unfolding run using h3 by simp
  have pairs: "(pr k \<noteq> p \<and> (\<exists>i \<in> set (local_neighbours M). k = fst (neighbour_elems M i) \<or> k = snd (neighbour_elems M i))) \<longleftrightarrow>
      k < bulk_of t \<and> pr k \<noteq> p \<and> (\<exists>a < bulk_of t. pr a = p \<and> neighbour_pair t a k)" for k
  proof
    assume "pr k \<noteq> p \<and> (\<exists>i \<in> set (local_neighbours M). k = fst (neighbour_elems M i) \<or> k = snd (neighbour_elems M i))"
    then obtain i where i: "pr k \<noteq> p" "i < length (vb_neighbours t)" "pr (fst (neighbour_elems M i)) = p \<or> pr (snd (neighbour_elems M i)) = p"
      "k = fst (neighbour_elems M i) \<or> k = snd (neighbour_elems M i)" unfolding set_loc by blast
    have "vb_neighbours t ! i \<in> set (vb_neighbours t)" using i(2) by simp
    then show "k < bulk_of t \<and> pr k \<noteq> p \<and> (\<exists>a < bulk_of t. pr a = p \<and> neighbour_pair t a k)"
      using i lt [OF i(2)] unfolding neighbour_pair_def nb by blast
  next
    assume "k < bulk_of t \<and> pr k \<noteq> p \<and> (\<exists>a < bulk_of t. pr a = p \<and> neighbour_pair t a k)"
    then obtain a n where a: "pr k \<noteq> p" "pr a = p" "n \<in> set (vb_neighbours t)" "(a = ngh_elem_idx n \<and> k = first_elem t (ngh_edge_idx n))
     \<or> (k = ngh_elem_idx n \<and> a = first_elem t (ngh_edge_idx n))" unfolding neighbour_pair_def by blast
    then obtain i where "i < length (vb_neighbours t)" "vb_neighbours t ! i = n" unfolding in_set_conv_nth by blast
    then show "pr k \<noteq> p \<and> (\<exists>i \<in> set (local_neighbours M). k = fst (neighbour_elems M i) \<or> k = snd (neighbour_elems M i))"
      using a unfolding set_loc nb by blast
  qed
  show "set (ghost_4_loc (make_elem_partitioning M)) = {k. k < bulk_of t \<and> pr k \<noteq> p \<and> (\<exists>a < bulk_of t. pr a = p \<and> touching t tr a k)}"
    unfolding run conjunct2 [OF h3] conjunct2 [OF h2] pairs touching_def by blast
qed

section \<open>The arrays of dofs\<close>

text \<open>What no step changes: the cells, the starts of all blocks and the lengths of the arrays.\<close>

definition dof_frame :: "topology \<Rightarrow> dup_nodes \<Rightarrow> equal_order_space \<Rightarrow> nat list \<Rightarrow> dof_handler \<Rightarrow> bool" where
  "dof_frame t tr s C h \<longleftrightarrow> cell_starts h = running 0 (map (n_dofs t s) C) \<and> length (dof_indices h) = sum_list (map (n_dofs t s) C)
     \<and> (\<forall>e. face_starts (table e h) = running 0 (map (face_size t tr s e) [0..<n_faces t tr e])
          \<and> length (face_dofs (table e h)) = sum_list (map (face_size t tr s e) [0..<n_faces t tr e])
          \<and> length (face_status (table e h)) = n_faces t tr e)"

lemma dof_frameD:
  assumes "dof_frame t tr s C h"
  shows "cell_starts h = running 0 (map (n_dofs t s) C)" and "length (dof_indices h) = sum_list (map (n_dofs t s) C)"
    and "face_starts (table e h) = running 0 (map (face_size t tr s e) [0..<n_faces t tr e])"
    and "length (face_dofs (table e h)) = sum_list (map (face_size t tr s e) [0..<n_faces t tr e])"
    and "length (face_status (table e h)) = n_faces t tr e"
  using assms by (simp_all add: dof_frame_def)

lemma set_table_sel [simp]:
  "table e (set_table e' x h) = (if e = e' then x else table e h)"
  "n_global_dofs (set_table e x h) = n_global_dofs h" "lsize (set_table e x h) = lsize h" "loffset (set_table e x h) = loffset h"
  "cell_starts (set_table e x h) = cell_starts h" "dof_indices (set_table e x h) = dof_indices h"
  "local_to_global_dof_idx (set_table e x h) = local_to_global_dof_idx h" "global_to_local_el_idx (set_table e x h) = global_to_local_el_idx h"
  "edg_4_loc (set_table e x h) = edg_4_loc h" "nb_4_loc (set_table e x h) = nb_4_loc h" "ghost_4_loc (set_table e x h) = ghost_4_loc h"
  "ghost_proc (set_table e x h) = ghost_proc h" "ghost_proc_el (set_table e x h) = ghost_proc_el h"
  "update_cells (set_table e x h) = update_cells h" "next_free_dof (set_table e x h) = next_free_dof h"
  by (simp_all add: set_table_def table_def)

lemma table_fields [simp]:
  "table e (h\<lparr>local_to_global_dof_idx := a\<rparr>) = table e h" "table e (h\<lparr>next_free_dof := b\<rparr>) = table e h"
  "table e (h\<lparr>update_cells := c\<rparr>) = table e h" "table e (h\<lparr>dof_indices := d\<rparr>) = table e h" "table e (h\<lparr>lsize := n\<rparr>) = table e h"
  "table e (h\<lparr>n_global_dofs := n\<rparr>) = table e h" "table e (h\<lparr>loffset := n\<rparr>) = table e h"
  by (simp_all add: table_def)

lemma store_dof_sel [simp]:
  "table e (store_dof l i x h) = table e h" "cell_starts (store_dof l i x h) = cell_starts h"
  "local_to_global_dof_idx (store_dof l i x h) = local_to_global_dof_idx h" "global_to_local_el_idx (store_dof l i x h) = global_to_local_el_idx h"
  "edg_4_loc (store_dof l i x h) = edg_4_loc h" "nb_4_loc (store_dof l i x h) = nb_4_loc h" "ghost_4_loc (store_dof l i x h) = ghost_4_loc h"
  "ghost_proc (store_dof l i x h) = ghost_proc h" "ghost_proc_el (store_dof l i x h) = ghost_proc_el h"
  "update_cells (store_dof l i x h) = update_cells h" "next_free_dof (store_dof l i x h) = next_free_dof h"
  "loffset (store_dof l i x h) = loffset h" "n_global_dofs (store_dof l i x h) = n_global_dofs h" "lsize (store_dof l i x h) = lsize h"
  by (simp_all add: store_dof_def)

abbreviation ind :: "dof_handler \<Rightarrow> nat \<Rightarrow> nat \<Rightarrow> int" where "ind h l i \<equiv> dof_indices h ! (cell_starts h ! l + i)"

lemma store_dof_frame: "dof_frame t tr s C h \<Longrightarrow> dof_frame t tr s C (store_dof l i x h)"
  by (simp add: dof_frame_def) (simp add: store_dof_def)

lemma store_dof_ind:
  assumes f: "dof_frame t tr s C h" and "l < length C" "i < n_dofs t s (C ! l)" and "m < length C" "j < n_dofs t s (C ! m)"
  shows "ind (store_dof l i x h) m j = (if m = l \<and> j = i then x else ind h m j)"
proof -
  let ?ns = "map (n_dofs t s) C"
  note D = dof_frameD [OF f]
  have "running 0 ?ns ! l + i < sum_list ?ns" using block_less [of l ?ns i] assms by simp
  moreover have "running 0 ?ns ! l + i = running 0 ?ns ! m + j \<longleftrightarrow> l = m \<and> i = j" using block_eq [of l ?ns i m j] assms by simp
  ultimately show ?thesis using D(1,2) by (auto simp: store_dof_def)
qed

lemma face_place:
  assumes f: "dof_frame t tr s C h" and "v < n_faces t tr e" "c < face_size t tr s e v"
  shows "face_starts (table e h) ! v + c < length (face_dofs (table e h))"
    and "w < n_faces t tr e \<Longrightarrow> d < face_size t tr s e w \<Longrightarrow>
      face_starts (table e h) ! v + c = face_starts (table e h) ! w + d \<longleftrightarrow> v = w \<and> c = d"
    and "face_starts (table e h) ! (v + 1) - face_starts (table e h) ! v = face_size t tr s e v"
proof -
  let ?ns = "map (face_size t tr s e) [0..<n_faces t tr e]"
  note D = dof_frameD [OF f]
  show "face_starts (table e h) ! v + c < length (face_dofs (table e h))"
    using block_less [of v ?ns c] assms D(3,4) by simp
  show "w < n_faces t tr e \<Longrightarrow> d < face_size t tr s e w \<Longrightarrow>
      face_starts (table e h) ! v + c = face_starts (table e h) ! w + d \<longleftrightarrow> v = w \<and> c = d"
    using block_eq [of v ?ns c w d] assms D(3) by simp
  show "face_starts (table e h) ! (v + 1) - face_starts (table e h) ! v = face_size t tr s e v"
    using running_step [of v ?ns 0] assms D(3) by simp
qed

lemma face_end:
  assumes f: "dof_frame t tr s C h" and v: "v < n_faces t tr e"
  shows "face_starts (table e h) ! v + face_size t tr s e v \<le> length (face_dofs (table e h))"
    and "face_starts (table e h) ! (v + 1) - face_starts (table e h) ! v = face_size t tr s e v"
proof -
  let ?ns = "map (face_size t tr s e) [0..<n_faces t tr e]"
  note D = dof_frameD [OF f]
  have "running 0 ?ns ! Suc v = running 0 ?ns ! v + face_size t tr s e v" using running_step [of v ?ns 0] v by simp
  moreover have "running 0 ?ns ! Suc v \<le> sum_list ?ns"
    using running_mono [of "Suc v" "length ?ns" ?ns 0] running_nth [of "length ?ns" ?ns 0] v by simp
  ultimately show "face_starts (table e h) ! v + face_size t tr s e v \<le> length (face_dofs (table e h))"
    "face_starts (table e h) ! (v + 1) - face_starts (table e h) ! v = face_size t tr s e v"
    using D(3,4) by simp_all
qed

lemma fold_fill:
  "b + n \<le> length ds \<Longrightarrow> length (fold (\<lambda>i ds. ds[b + i := f i]) [0..<n] ds) = length ds
     \<and> (\<forall>j < length ds. fold (\<lambda>i ds. ds[b + i := f i]) [0..<n] ds ! j = (if b \<le> j \<and> j < b + n then f (j - b) else ds ! j))"
  by (induction n) (auto simp: nth_list_update)

text \<open>A face is visited: assigned, noted for an update, or known already.\<close>

lemma visit_face_facts:
  fixes l :: nat
  assumes f: "dof_frame t tr s C h" and v: "v < n_faces t tr e" "c < face_size t tr s e v"
  defines "h1 \<equiv> visit_face e v c l h" and "st \<equiv> face_status (table e h) ! v" and "n \<equiv> face_size t tr s e v"
  shows "dof_frame t tr s C h1"
    and "w < n_faces t tr e' \<Longrightarrow> d < face_size t tr s e' w \<Longrightarrow> face_dof e' w d h1 =
      (if e' = e \<and> w = v then (if st = Valid_NFace then int (next_free_dof h + d) else if st = Invalid_NFace \<and> d = c then - 1 else face_dof e' w d h)
       else face_dof e' w d h)"
    and "w < n_faces t tr e' \<Longrightarrow> face_status (table e' h1) ! w =
      (if e' = e \<and> w = v \<and> st = Valid_NFace then Assigned_NFace else face_status (table e' h) ! w)"
    and "local_to_global_dof_idx h1 = local_to_global_dof_idx h @ (if st = Valid_NFace then map int [next_free_dof h..<next_free_dof h + n] else [])"
    and "next_free_dof h1 = next_free_dof h + (if st = Valid_NFace then n else 0)"
    and "update_cells h1 = (if st = Invalid_NFace then (update_cells h)[l := True] else update_cells h)"
    and "dof_indices h1 = dof_indices h" and "cell_starts h1 = cell_starts h"
    and "ghost_4_loc h1 = ghost_4_loc h" and "ghost_proc h1 = ghost_proc h" and "ghost_proc_el h1 = ghost_proc_el h"
    and "global_to_local_el_idx h1 = global_to_local_el_idx h" and "edg_4_loc h1 = edg_4_loc h" and "nb_4_loc h1 = nb_4_loc h"
proof -
  note D = dof_frameD [OF f] and P = face_place [OF f v] and E = face_end [OF f v(1)]
  let ?b = "face_starts (table e h) ! v" and ?ds = "face_dofs (table e h)"
  have nf: "face_starts (table e h) ! (v + 1) - ?b = n" using E(2) by (simp add: n_def)
  note F = fold_fill [OF E(1), of "\<lambda>i. int (next_free_dof h + i)", folded n_def]
  show "dof_frame t tr s C h1"
    using f F P(1) unfolding dof_frame_def h1_def visit_face_def Let_def nf
    by (auto simp: assign_face_def split: nface_status.splits)
  show "local_to_global_dof_idx h1 = local_to_global_dof_idx h @ (if st = Valid_NFace then map int [next_free_dof h..<next_free_dof h + n] else [])"
    "next_free_dof h1 = next_free_dof h + (if st = Valid_NFace then n else 0)"
    "update_cells h1 = (if st = Invalid_NFace then (update_cells h)[l := True] else update_cells h)"
    "dof_indices h1 = dof_indices h" "cell_starts h1 = cell_starts h"
    "ghost_4_loc h1 = ghost_4_loc h" "ghost_proc h1 = ghost_proc h" "ghost_proc_el h1 = ghost_proc_el h"
    "global_to_local_el_idx h1 = global_to_local_el_idx h" "edg_4_loc h1 = edg_4_loc h" "nb_4_loc h1 = nb_4_loc h"
    unfolding h1_def visit_face_def Let_def nf st_def by (simp_all split: nface_status.splits)
  show "face_status (table e' h1) ! w = (if e' = e \<and> w = v \<and> st = Valid_NFace then Assigned_NFace else face_status (table e' h) ! w)"
    if "w < n_faces t tr e'"
    using that D(5) [of e] v(1) unfolding h1_def visit_face_def Let_def nf st_def
    by (auto simp: assign_face_def nth_list_update split: nface_status.splits)
  show "face_dof e' w d h1 =
      (if e' = e \<and> w = v then (if st = Valid_NFace then int (next_free_dof h + d) else if st = Invalid_NFace \<and> d = c then - 1 else face_dof e' w d h)
       else face_dof e' w d h)" if w: "w < n_faces t tr e'" "d < face_size t tr s e' w"
  proof (cases "e' = e")
    case False
    then show ?thesis unfolding h1_def visit_face_def Let_def by (auto split: nface_status.splits)
  next
    case True
    have in_block: "?b \<le> face_starts (table e h) ! w + d \<and> face_starts (table e h) ! w + d < ?b + n \<longleftrightarrow> w = v"
    proof
      assume b: "?b \<le> face_starts (table e h) ! w + d \<and> face_starts (table e h) ! w + d < ?b + n"
      then have "?b + (face_starts (table e h) ! w + d - ?b) = face_starts (table e h) ! w + d" "face_starts (table e h) ! w + d - ?b < face_size t tr s e v"
        unfolding n_def by linarith+
      then show "w = v" using face_place(2) [OF f v(1) _ _, of "face_starts (table e h) ! w + d - ?b" w d] w True by simp
    qed (use w True in \<open>simp add: n_def\<close>)
    have lt: "face_starts (table e h) ! w + d < length ?ds" using face_place(1) [OF f w] True by simp
    show ?thesis
    proof (cases st)
      case Invalid_NFace
      then show ?thesis using True P(2) [of w d] w lt unfolding h1_def visit_face_def Let_def st_def by (auto simp: nth_list_update)
    next
      case Valid_NFace
      then show ?thesis using True in_block lt F w unfolding h1_def visit_face_def Let_def st_def nf by (auto simp: assign_face_def)
    next
      case Assigned_NFace
      then show ?thesis using True unfolding h1_def visit_face_def Let_def st_def by simp
    qed
  qed
qed

section \<open>The own cells\<close>

text \<open>The number that a state gives to a slot.\<close>

definition num :: "dof_handler \<Rightarrow> slot \<Rightarrow> int" where
  "num h x = (case x of FaceSlot e v c \<Rightarrow> face_dof e v c h | CellSlot k i \<Rightarrow> ind h (the (global_to_local_el_idx h k)) i)"

lemma num_simps [simp]: "num h (FaceSlot e v c) = face_dof e v c h" "num h (CellSlot k i) = ind h (the (global_to_local_el_idx h k)) i"
  by (simp_all add: num_def)

definition cells_at :: "nat list \<Rightarrow> dof_handler \<Rightarrow> bool" where
  "cells_at C h \<longleftrightarrow> (\<forall>l < length C. global_to_local_el_idx h (C ! l) = Some l)"

text \<open>The slots that have got numbers after the dofs \<open>P\<close> (local cells and indices), when \<open>val\<close> says which faces this processor numbers.\<close>

definition visited :: "topology \<Rightarrow> dup_nodes \<Rightarrow> equal_order_space \<Rightarrow> nat list \<Rightarrow> (nat \<times> nat) set \<Rightarrow> bool \<Rightarrow> nat \<Rightarrow> bool" where
  "visited t tr s C P e v \<longleftrightarrow> (\<exists>x \<in> P. \<exists>c. slot_of t tr s (C ! fst x) (snd x) = FaceSlot e v c)"

definition assigned_slots :: "topology \<Rightarrow> dup_nodes \<Rightarrow> equal_order_space \<Rightarrow> nat list \<Rightarrow> (bool \<Rightarrow> nat \<Rightarrow> bool) \<Rightarrow> (nat \<times> nat) set \<Rightarrow> slot set" where
  "assigned_slots t tr s C val P =
     {FaceSlot e v c | e v c. v < n_faces t tr e \<and> c < face_size t tr s e v \<and> val e v \<and> visited t tr s C P e v}
   \<union> {CellSlot (C ! l) i | l i. (l, i) \<in> P \<and> slot_of t tr s (C ! l) i = CellSlot (C ! l) i}"

definition own_inv :: "topology \<Rightarrow> dup_nodes \<Rightarrow> equal_order_space \<Rightarrow> nat list \<Rightarrow> (bool \<Rightarrow> nat \<Rightarrow> bool) \<Rightarrow> (nat \<times> nat) set \<Rightarrow> dof_handler \<Rightarrow> bool" where
  "own_inv t tr s C val P h \<longleftrightarrow> dof_frame t tr s C h \<and> cells_at C h
   \<and> (\<forall>e v. v < n_faces t tr e \<longrightarrow> face_status (table e h) ! v =
        (if val e v then if visited t tr s C P e v then Assigned_NFace else Valid_NFace else Invalid_NFace))
   \<and> (\<forall>e v c. v < n_faces t tr e \<longrightarrow> c < face_size t tr s e v \<longrightarrow> face_status (table e h) ! v \<noteq> Assigned_NFace \<longrightarrow> face_dof e v c h = - 1)
   \<and> bij_betw (num h) (assigned_slots t tr s C val P) (int ` {..<next_free_dof h})
   \<and> local_to_global_dof_idx h = map int [0..<next_free_dof h]
   \<and> (\<forall>x \<in> P. ind h (fst x) (snd x) = num h (slot_of t tr s (C ! fst x) (snd x)))
   \<and> (\<forall>x \<in> P. ind h (fst x) (snd x) = - 1 \<longrightarrow> update_cells h ! fst x)"

lemma own_invD:
  assumes "own_inv t tr s C val P h"
  shows "dof_frame t tr s C h" and "cells_at C h"
    and "v < n_faces t tr e \<Longrightarrow> face_status (table e h) ! v =
        (if val e v then if visited t tr s C P e v then Assigned_NFace else Valid_NFace else Invalid_NFace)"
    and "v < n_faces t tr e \<Longrightarrow> c < face_size t tr s e v \<Longrightarrow> face_status (table e h) ! v \<noteq> Assigned_NFace \<Longrightarrow> face_dof e v c h = - 1"
    and "bij_betw (num h) (assigned_slots t tr s C val P) (int ` {..<next_free_dof h})"
    and "local_to_global_dof_idx h = map int [0..<next_free_dof h]"
    and "x \<in> P \<Longrightarrow> ind h (fst x) (snd x) = num h (slot_of t tr s (C ! fst x) (snd x))"
    and "x \<in> P \<Longrightarrow> ind h (fst x) (snd x) = - 1 \<Longrightarrow> update_cells h ! fst x"
  using assms unfolding own_inv_def by blast+

lemma bij_extend:
  assumes b: "bij_betw f A (int ` {..<n})" and eq: "\<And>x. x \<in> A \<Longrightarrow> g x = f x" and new: "bij_betw g B (int ` {n..<m})" and "n \<le> m"
  shows "bij_betw g (A \<union> B) (int ` {..<m})"
proof -
  have "bij_betw g A (int ` {..<n})" using b eq by (simp cong: bij_betw_cong)
  moreover have "int ` {..<n} \<inter> int ` {n..<m} = {}" by auto
  moreover have "int ` {..<n} \<union> int ` {n..<m} = int ` {..<m}" using assms(4) by (auto simp flip: image_Un)
  ultimately show ?thesis using bij_betw_combine [OF _ new] by metis
qed

lemma bij_new:
  fixes g :: "'a \<Rightarrow> int"
  assumes "\<And>d. d < n \<Longrightarrow> g (F d) = int (a + d)"
  shows "bij_betw g {F d | d. d < n} (int ` {a..<a + n})"
  unfolding bij_betw_def
proof
  show "inj_on g {F d | d. d < n}" using assms by (auto intro!: inj_onI)
  have "int x \<in> g ` {F d | d. d < n}" if x: "a \<le> x" "x < a + n" for x
  proof (rule image_eqI)
    show "int x = g (F (x - a))" using assms [of "x - a"] x by simp
    show "F (x - a) \<in> {F d | d. d < n}" using x by auto
  qed
  moreover have "g (F d) \<in> int ` {a..<a + n}" if "d < n" for d using assms [OF that] that by (intro image_eqI [of _ _ "a + d"]) simp_all
  ultimately show "g ` {F d | d. d < n} = int ` {a..<a + n}" by auto
qed

lemma visited_insert: "visited t tr s C (insert x P) e v \<longleftrightarrow> visited t tr s C P e v \<or> (\<exists>c. slot_of t tr s (C ! fst x) (snd x) = FaceSlot e v c)"
  by (auto simp: visited_def)

lemma visited_empty [simp]: "visited t tr s C {} e v \<longleftrightarrow> False" "assigned_slots t tr s C val {} = {}"
  by (simp_all add: assigned_slots_def visited_def)

text \<open>The pairs of the dofs of cells.\<close>

definition pairs_ok :: "topology \<Rightarrow> equal_order_space \<Rightarrow> nat list \<Rightarrow> (nat \<times> nat) set \<Rightarrow> bool" where
  "pairs_ok t s C P \<longleftrightarrow> (\<forall>x \<in> P. fst x < length C \<and> snd x < n_dofs t s (C ! fst x))"

lemma distribute_cell_dof:
  assumes T: "tree_ok t tr" and S: "space_ok s" and C: "distinct C" "\<forall>k \<in> set C. k < bulk_of t"
    and I: "own_inv t tr s C val P h" and P: "pairs_ok t s C P" and l: "l < length C" "i < n_dofs t s (C ! l)" "(l, i) \<notin> P"
    and x: "slot_of t tr s (C ! l) i = CellSlot (C ! l) i"
  defines "h' \<equiv> store_dof l i (int (next_free_dof h))
         (h\<lparr>local_to_global_dof_idx := local_to_global_dof_idx h @ [int (next_free_dof h)], next_free_dof := next_free_dof h + 1\<rparr>)"
  shows "own_inv t tr s C val (insert (l, i) P) h'"
proof -
  let ?h1 = "h\<lparr>local_to_global_dof_idx := local_to_global_dof_idx h @ [int (next_free_dof h)], next_free_dof := next_free_dof h + 1\<rparr>"
  note D = own_invD [OF I]
  have f1: "dof_frame t tr s C ?h1" using D(1) by (simp add: dof_frame_def)
  have at: "\<And>m. m < length C \<Longrightarrow> global_to_local_el_idx h (C ! m) = Some m" using D(2) by (simp add: cells_at_def)
  have ind: "ind h' m j = (if m = l \<and> j = i then int (next_free_dof h) else ind h m j)" if "m < length C" "j < n_dofs t s (C ! m)" for m j
    using store_dof_ind [OF f1 l(1,2) that, of "int (next_free_dof h)"] by (simp add: h'_def)
  have vis: "visited t tr s C (insert (l, i) P) e v = visited t tr s C P e v" for e v by (simp add: visited_insert x)
  have tab: "table e h' = table e h" for e by (simp add: h'_def)
  have A: "assigned_slots t tr s C val (insert (l, i) P) = assigned_slots t tr s C val P \<union> {CellSlot (C ! l) i}"
    unfolding assigned_slots_def vis using x by auto
  have num: "num h' y = num h y" if "y \<in> assigned_slots t tr s C val P" for y
  proof -
    from that consider (f) e v c where "y = FaceSlot e v c" | (c) m j where "y = CellSlot (C ! m) j" "(m, j) \<in> P"
      by (auto simp: assigned_slots_def)
    then show ?thesis
    proof cases
      case c
      then have "m < length C" "j < n_dofs t s (C ! m)" "(m, j) \<noteq> (l, i)" using P l(3) by (auto simp: pairs_ok_def)
      then show ?thesis using c(1) ind [of m j] at [of m] by (auto simp: h'_def)
    qed (simp add: tab)
  qed
  have "bij_betw (num h') {CellSlot (C ! l) i} (int ` {next_free_dof h..<Suc (next_free_dof h)})"
    using ind [OF l(1,2)] at [OF l(1)] by (simp add: bij_betw_def h'_def)
  from bij_extend [OF D(5) num this] have bij: "bij_betw (num h') (assigned_slots t tr s C val (insert (l, i) P)) (int ` {..<next_free_dof h'})"
    unfolding A by (simp add: h'_def)
  have pairs: "ind h' (fst y) (snd y) = num h' (slot_of t tr s (C ! fst y) (snd y)) \<and> (ind h' (fst y) (snd y) = - 1 \<longrightarrow> update_cells h' ! fst y)"
    if y: "y \<in> insert (l, i) P" for y
  proof (cases "y = (l, i)")
    case True
    then show ?thesis using ind [OF l(1,2)] at [OF l(1)] by (simp add: x h'_def)
  next
    case False
    then have yP: "y \<in> P" using y by simp
    then have lt: "fst y < length C" "snd y < n_dofs t s (C ! fst y)" using P by (auto simp: pairs_ok_def)
    have ne: "\<not> (fst y = l \<and> snd y = i)" using False by (cases y) simp
    have "num h' (slot_of t tr s (C ! fst y) (snd y)) = num h (slot_of t tr s (C ! fst y) (snd y))"
    proof (cases "slot_of t tr s (C ! fst y) (snd y)")
      case (CellSlot k j)
      then have "k = C ! fst y" "j = snd y" using cell_slot [OF T S _ lt(2)] C(2) lt(1) by auto
      then show ?thesis using CellSlot ind [OF lt] ne at [OF lt(1)] by (simp add: h'_def)
    qed (simp add: tab)
    then show ?thesis using ind [OF lt] ne D(7,8) [OF yP] by (simp add: h'_def)
  qed
  have "dof_frame t tr s C h'" unfolding h'_def by (rule store_dof_frame [OF f1])
  moreover have "cells_at C h'" using D(2) by (simp add: cells_at_def h'_def)
  moreover have "local_to_global_dof_idx h' = map int [0..<next_free_dof h']" using D(6) by (simp add: h'_def)
  ultimately show ?thesis
    unfolding own_inv_def vis tab using D(3,4) bij pairs by blast
qed

lemma distribute_face_dof:
  assumes T: "tree_ok t tr" and S: "space_ok s" and C: "distinct C" "\<forall>k \<in> set C. k < bulk_of t"
    and I: "own_inv t tr s C val P h" and P: "pairs_ok t s C P" and l: "l < length C" "i < n_dofs t s (C ! l)" "(l, i) \<notin> P"
    and x: "slot_of t tr s (C ! l) i = FaceSlot e v c" and up: "l < length (update_cells h)"
  defines "h' \<equiv> store_dof l i (face_dof e v c (visit_face e v c l h)) (visit_face e v c l h)"
  shows "own_inv t tr s C val (insert (l, i) P) h'"
proof -
  let ?h1 = "visit_face e v c l h"
  note D = own_invD [OF I]
  have k: "C ! l < bulk_of t" using C(2) l(1) by simp
  have "FaceSlot e v c \<in> slots t tr s (C ! l)" using x l(2) by (force simp: slots_def)
  then have fs: "v \<in> set (faces t tr e (C ! l))" "c < face_size t tr s e v" using face_slots [OF T S k] by blast+
  have v: "v < n_faces t tr e" using faces_facts(3) [OF T k fs(1)] .
  note F = visit_face_facts [OF D(1) v fs(2), where l = l]
  have at: "\<And>m. m < length C \<Longrightarrow> global_to_local_el_idx h (C ! m) = Some m" using D(2) by (simp add: cells_at_def)
  have ind: "ind h' m j = (if m = l \<and> j = i then face_dof e v c ?h1 else ind h m j)" if "m < length C" "j < n_dofs t s (C ! m)" for m j
    using store_dof_ind [OF F(1) l(1,2) that, of "face_dof e v c ?h1"] F(7,8) by (simp add: h'_def)
  have vis: "visited t tr s C (insert (l, i) P) e' w \<longleftrightarrow> visited t tr s C P e' w \<or> e' = e \<and> w = v" for e' w by (auto simp: visited_insert x)
  have tab: "table e' h' = table e' ?h1" for e' by (simp add: h'_def)
  let ?st = "face_status (table e h) ! v"
  note st = D(3) [OF v]
  have fd: "face_dof e' w d h' = (if e' = e \<and> w = v \<and> ?st = Valid_NFace then int (next_free_dof h + d) else face_dof e' w d h)"
    if "w < n_faces t tr e'" "d < face_size t tr s e' w" for e' w d
    unfolding tab using F(2) [OF that] D(4) [OF v fs(2)] by auto
  have A: "assigned_slots t tr s C val (insert (l, i) P) = assigned_slots t tr s C val P
      \<union> (if ?st = Valid_NFace then {FaceSlot e v d | d. d < face_size t tr s e v} else {})"
  proof -
    have "CellSlot k j \<in> assigned_slots t tr s C val (insert (l, i) P) \<longleftrightarrow> CellSlot k j \<in> assigned_slots t tr s C val P" for k j
      using x by (auto simp: assigned_slots_def)
    moreover have "FaceSlot e' w d \<in> assigned_slots t tr s C val (insert (l, i) P) \<longleftrightarrow> FaceSlot e' w d \<in> assigned_slots t tr s C val P
        \<or> ?st = Valid_NFace \<and> e' = e \<and> w = v \<and> d < face_size t tr s e v" for e' w d
      using v st by (auto simp: assigned_slots_def vis split: if_splits)
    ultimately have "y \<in> assigned_slots t tr s C val (insert (l, i) P) \<longleftrightarrow> y \<in> assigned_slots t tr s C val P
      \<union> (if ?st = Valid_NFace then {FaceSlot e v d | d. d < face_size t tr s e v} else {})" for y
      by (cases y) auto
    then show ?thesis by blast
  qed
  have same: "num h' y = num h y" if "y \<in> assigned_slots t tr s C val P" for y
  proof -
    from that consider (f) e' w d where "y = FaceSlot e' w d" "w < n_faces t tr e'" "d < face_size t tr s e' w" "val e' w" "visited t tr s C P e' w"
      | (c) m j where "y = CellSlot (C ! m) j" "(m, j) \<in> P"
      by (auto simp: assigned_slots_def)
    then show ?thesis
    proof cases
      case f
      have "\<not> (e' = e \<and> w = v \<and> ?st = Valid_NFace)"
      proof
        assume "e' = e \<and> w = v \<and> ?st = Valid_NFace"
        then show False using st f(4,5) by simp
      qed
      then show ?thesis unfolding f(1) num_simps fd [OF f(2,3)] by (rule if_not_P)
    next
      case c
      then have "m < length C" "j < n_dofs t s (C ! m)" "(m, j) \<noteq> (l, i)" using P l(3) by (auto simp: pairs_ok_def)
      then show ?thesis using c(1) ind [of m j] at [of m] F(12) by (auto simp: h'_def)
    qed
  qed
  have bij: "bij_betw (num h') (assigned_slots t tr s C val (insert (l, i) P)) (int ` {..<next_free_dof h'})"
  proof (cases "?st = Valid_NFace")
    case True
    let ?n = "face_size t tr s e v"
    have "num h' (FaceSlot e v d) = int (next_free_dof h + d)" if "d < ?n" for d using fd [OF v that] True by simp
    then have "bij_betw (num h') {FaceSlot e v d | d. d < ?n} (int ` {next_free_dof h..<next_free_dof h + ?n})" by (rule bij_new)
    from bij_extend [OF D(5) same this] show ?thesis unfolding A using True F(5) by (simp add: h'_def)
  next
    case False
    have "bij_betw (num h') (assigned_slots t tr s C val P) (int ` {..<next_free_dof h})" using D(5) same by (simp cong: bij_betw_cong)
    then show ?thesis unfolding A using False F(5) by (simp add: h'_def)
  qed
  have pairs: "ind h' (fst y) (snd y) = num h' (slot_of t tr s (C ! fst y) (snd y)) \<and> (ind h' (fst y) (snd y) = - 1 \<longrightarrow> update_cells h' ! fst y)"
    if y: "y \<in> insert (l, i) P" for y
  proof (cases "y = (l, i)")
    case True
    have "update_cells h' ! l" if "face_dof e v c ?h1 = - 1"
    proof -
      have "?st = Invalid_NFace"
      proof (rule ccontr)
        assume n: "?st \<noteq> Invalid_NFace"
        then have val: "val e v" using st by (auto split: if_splits)
        have "FaceSlot e v c \<in> assigned_slots t tr s C val (insert (l, i) P)" using v fs(2) val vis by (simp add: assigned_slots_def)
        then have "num h' (FaceSlot e v c) \<in> int ` {..<next_free_dof h'}" using bij by (metis bij_betwE)
        then show False using that by (auto simp: tab)
      qed
      then show ?thesis using F(6) up by (simp add: h'_def)
    qed
    then show ?thesis using True ind [OF l(1,2)] by (simp add: x tab)
  next
    case False
    then have yP: "y \<in> P" using y by simp
    then have lt: "fst y < length C" "snd y < n_dofs t s (C ! fst y)" using P by (auto simp: pairs_ok_def)
    have ky: "C ! fst y < bulk_of t" using C(2) lt(1) by simp
    have ne: "\<not> (fst y = l \<and> snd y = i)" using False by (cases y) simp
    have "num h' (slot_of t tr s (C ! fst y) (snd y)) = num h (slot_of t tr s (C ! fst y) (snd y))"
    proof (cases "slot_of t tr s (C ! fst y) (snd y)")
      case (CellSlot k j)
      then have "k = C ! fst y" "j = snd y" using cell_slot [OF T S ky lt(2)] by auto
      then show ?thesis using CellSlot ind [OF lt] ne at [OF lt(1)] F(12) by (simp add: h'_def)
    next
      case (FaceSlot e' w d)
      then have "FaceSlot e' w d \<in> slots t tr s (C ! fst y)" using lt(2) by (force simp: slots_def)
      then have w: "w < n_faces t tr e'" "d < face_size t tr s e' w"
        using face_slots [OF T S ky] faces_facts(3) [OF T ky] by blast+
      have "visited t tr s C P e' w" using FaceSlot yP by (auto simp: visited_def)
      have "\<not> (e' = e \<and> w = v \<and> ?st = Valid_NFace)"
      proof
        assume "e' = e \<and> w = v \<and> ?st = Valid_NFace"
        then show False using st \<open>visited t tr s C P e' w\<close> by (simp split: if_splits)
      qed
      then show ?thesis unfolding FaceSlot num_simps fd [OF w] by (rule if_not_P)
    qed
    moreover have "update_cells h' ! fst y" if "update_cells h ! fst y"
      using that F(6) up by (cases "fst y = l") (simp_all add: h'_def)
    ultimately show ?thesis using ind [OF lt] ne D(7,8) [OF yP] by auto
  qed
  have "face_status (table e' h') ! w =
      (if val e' w then if visited t tr s C (insert (l, i) P) e' w then Assigned_NFace else Valid_NFace else Invalid_NFace)"
    if "w < n_faces t tr e'" for e' w
    unfolding tab F(3) [OF that] vis using D(3) [OF that] st by (auto split: if_splits)
  moreover have "face_dof e' w d h' = - 1" if "w < n_faces t tr e'" "d < face_size t tr s e' w" "face_status (table e' h') ! w \<noteq> Assigned_NFace" for e' w d
    using that fd [OF that(1,2)] F(3) [OF that(1)] D(4) [OF that(1,2)] unfolding tab by (auto split: if_splits)
  moreover have "dof_frame t tr s C h'" unfolding h'_def by (rule store_dof_frame [OF F(1)])
  moreover have "cells_at C h'" using D(2) F(12) by (simp add: cells_at_def h'_def)
  moreover have "local_to_global_dof_idx h' = map int [0..<next_free_dof h']"
    using D(6) F(4,5) by (simp add: h'_def upt_add_eq_append [of 0] del: map_append flip: map_append)
  ultimately show ?thesis unfolding own_inv_def using bij pairs by blast
qed

text \<open>The least processor with a cell at a face numbers it.\<close>

definition owns :: "topology \<Rightarrow> dup_nodes \<Rightarrow> (nat \<Rightarrow> nat) \<Rightarrow> nat \<Rightarrow> bool \<Rightarrow> nat \<Rightarrow> bool" where
  "owns t tr pr p e v \<longleftrightarrow> (\<exists>k < bulk_of t. pr k = p \<and> v \<in> set (faces t tr e k)) \<and> (\<forall>k < bulk_of t. v \<in> set (faces t tr e k) \<longrightarrow> p \<le> pr k)"

definition same_cells :: "dof_handler \<Rightarrow> dof_handler \<Rightarrow> bool" where
  "same_cells h h' \<longleftrightarrow> ghost_4_loc h' = ghost_4_loc h \<and> ghost_proc h' = ghost_proc h \<and> ghost_proc_el h' = ghost_proc_el h
     \<and> global_to_local_el_idx h' = global_to_local_el_idx h \<and> edg_4_loc h' = edg_4_loc h \<and> nb_4_loc h' = nb_4_loc h"

lemma same_cellsD:
  assumes "same_cells h h'"
  shows "ghost_4_loc h' = ghost_4_loc h" and "ghost_proc h' = ghost_proc h" and "ghost_proc_el h' = ghost_proc_el h"
    and "global_to_local_el_idx h' = global_to_local_el_idx h" and "edg_4_loc h' = edg_4_loc h" and "nb_4_loc h' = nb_4_loc h"
  using assms by (simp_all add: same_cells_def)

lemma same_cells_refl: "same_cells h h"
  by (simp add: same_cells_def)

lemma same_cells_trans: "same_cells a b \<Longrightarrow> same_cells b c \<Longrightarrow> same_cells a c"
  by (simp add: same_cells_def)

text \<open>The ghost cells contain all cells of other processors with a face of an own cell.\<close>

definition ghosts_all :: "topology \<Rightarrow> dup_nodes \<Rightarrow> (nat \<Rightarrow> nat) \<Rightarrow> nat \<Rightarrow> nat list \<Rightarrow> bool" where
  "ghosts_all t tr pr p G \<longleftrightarrow> set G = {k. k < bulk_of t \<and> pr k \<noteq> p \<and> (\<exists>a < bulk_of t. pr a = p \<and> touching t tr a k)}"

lemma face_touching:
  assumes T: "tree_ok t tr" and "a < bulk_of t" "b < bulk_of t" and "v \<in> set (faces t tr e a)" "v \<in> set (faces t tr e b)"
  shows "touching t tr a b"
  using common_node [OF T assms(2,3)] assms(4,5) by (cases e) (auto simp: faces_def touching_def)

lemma owns_iff:
  assumes T: "tree_ok t tr" and G: "ghosts_all t tr pr p G"
  shows "owns t tr pr p e v \<longleftrightarrow> (\<exists>k < bulk_of t. pr k = p \<and> v \<in> set (faces t tr e k)) \<and> \<not> (\<exists>k \<in> set G. pr k < p \<and> v \<in> set (faces t tr e k))"
    (is "_ \<longleftrightarrow> ?own \<and> \<not> ?low")
proof
  assume "owns t tr pr p e v"
  then show "?own \<and> \<not> ?low" using G by (auto simp: owns_def ghosts_all_def)
next
  assume h: "?own \<and> \<not> ?low"
  then obtain a where a: "a < bulk_of t" "pr a = p" "v \<in> set (faces t tr e a)" by blast
  have "p \<le> pr k" if k: "k < bulk_of t" "v \<in> set (faces t tr e k)" for k
  proof (rule ccontr)
    assume "\<not> p \<le> pr k"
    then have "k \<in> set G" using G a k face_touching [OF T a(1) k(1) a(3) k(2)] by (auto simp: ghosts_all_def)
    then show False using h k \<open>\<not> p \<le> pr k\<close> by auto
  qed
  then show "owns t tr pr p e v" using h by (simp add: owns_def)
qed

lemma init_status:
  assumes V: "view_ok t tr pr p M" and T: "tree_ok t tr" and G: "ghosts_ok t pr p M h" "ghosts_all t tr pr p (ghost_4_loc h)"
  shows "length (if e then init_edge_status M h else init_node_status M h) = n_faces t tr e"
    and "v < n_faces t tr e \<Longrightarrow> (if e then init_edge_status M h else init_node_status M h) ! v = (if owns t tr pr p e v then Valid_NFace else Invalid_NFace)"
proof -
  note D = view_okD [OF V]
  have r: "split_ready t" using T by (simp add: tree_ok_def)
  let ?G = "ghost_4_loc h"
  have low: "set (lower_ghosts M h) = {k \<in> set ?G. pr k < p}"
    using G(1) D(3,7) by (auto simp: lower_ghosts_def ghosts_ok_def)
  have edg: "edg_4_loc h = local_edges M" using G(1) by (simp add: ghosts_ok_def)
  have sides: "fst x < bulk_of t" if "x \<in> set (edges t ! g)" "g < length (edges t)" for x g
    using first_elem_facts(3) [OF r that(2)] that(1) by simp
  have loc: "g \<in> set (local_edges M) \<longleftrightarrow> g < length (edges t) \<and> (\<exists>k < bulk_of t. pr k = p \<and> g \<in> set (element_edges t k))" for g
  proof -
    have "(\<exists>x \<in> set (edges t ! g). el_is_local M (fst x)) \<longleftrightarrow> (\<exists>k < bulk_of t. pr k = p \<and> k \<in> fst ` set (edges t ! g))" if g: "g < length (edges t)"
    proof
      assume "\<exists>x \<in> set (edges t ! g). el_is_local M (fst x)"
      then obtain x where x: "x \<in> set (edges t ! g)" "el_is_local M (fst x)" by blast
      then show "\<exists>k < bulk_of t. pr k = p \<and> k \<in> fst ` set (edges t ! g)" using D(8) [OF sides [OF x(1) g]] sides [OF x(1) g] by blast
    next
      assume "\<exists>k < bulk_of t. pr k = p \<and> k \<in> fst ` set (edges t ! g)"
      then obtain x where x: "x \<in> set (edges t ! g)" "pr (fst x) = p" by blast
      then show "\<exists>x \<in> set (edges t ! g). el_is_local M (fst x)" using D(8) [OF sides [OF x(1) g]] by blast
    qed
    moreover have "(\<exists>k < bulk_of t. pr k = p \<and> g \<in> set (element_edges t k)) \<longleftrightarrow>
        g < length (edges t) \<and> (\<exists>k < bulk_of t. pr k = p \<and> k \<in> fst ` set (edges t ! g))"
      using element_edges_iff [OF r] by blast
    moreover have "g \<in> set (local_edges M) \<longleftrightarrow> g < length (edges t) \<and> (\<exists>x \<in> set (edges t ! g). el_is_local M (fst x))"
      by (auto simp: local_edges_def D(1) list_ex_iff)
    ultimately show ?thesis by blast
  qed
  show "length (if e then init_edge_status M h else init_node_status M h) = n_faces t tr e"
    by (simp add: init_edge_status_def init_node_status_def fold_set_status n_faces_def D(1,2))
  show "(if e then init_edge_status M h else init_node_status M h) ! v = (if owns t tr pr p e v then Valid_NFace else Invalid_NFace)"
    if v: "v < n_faces t tr e"
  proof (cases e)
    case True
    then have "init_edge_status M h ! v = (if \<exists>k \<in> set (lower_ghosts M h). v \<in> set (element_edges t k) then Invalid_NFace
        else if v \<in> set (local_edges M) then Valid_NFace else Invalid_NFace)"
      using v unfolding init_edge_status_def by (subst fold_set_status(2)) (simp_all add: D(1) n_faces_def edg)
    then show ?thesis using v unfolding owns_iff [OF T G(2)] low loc by (simp add: True faces_def n_faces_def) blast
  next
    case False
    then have "init_node_status M h ! v = (if \<exists>k \<in> set (lower_ghosts M h). v \<in> set (element_nodes t tr k) then Invalid_NFace
        else if \<exists>k \<in> set (own_cells M). v \<in> set (element_nodes t tr k) then Valid_NFace else Invalid_NFace)"
      using v unfolding init_node_status_def by (subst fold_set_status(2)) (simp_all add: D(1,2) n_faces_def fold_set_status)
    then show ?thesis unfolding owns_iff [OF T G(2)] low D(6) by (simp add: False faces_def) blast
  qed
qed

lemma elm_idx_nth:
  assumes "length (own_cells M) = own_size M" and "l < own_size M + length (ghost_4_loc h)"
  shows "elm_idx M h l = (own_cells M @ ghost_4_loc h) ! l"
proof (cases "l < own_size M")
  case True
  then show ?thesis using assms(1) by (simp add: elm_idx_def nth_append) (simp add: own_cells_def)
qed (use assms in \<open>simp add: elm_idx_def nth_append\<close>)

lemma dofs_of_cells_set:
  assumes "dm_topo M = t" and "\<forall>l \<in> set ls. elm_idx M h l = C ! l"
  shows "set (dofs_of_cells M s h ls) = {(l, i). l \<in> set ls \<and> i < n_dofs t s (C ! l)}"
    and "distinct ls \<Longrightarrow> distinct (dofs_of_cells M s h ls)"
proof -
  show "set (dofs_of_cells M s h ls) = {(l, i). l \<in> set ls \<and> i < n_dofs t s (C ! l)}"
    using assms by (auto simp: dofs_of_cells_def)
  show "distinct (dofs_of_cells M s h ls)" if "distinct ls"
    using that assms(2) by (induction ls) (auto simp: dofs_of_cells_def distinct_map inj_on_def)
qed

lemma distribute_dof_step:
  assumes V: "view_ok t tr pr p M" and T: "tree_ok t tr" and S: "space_ok s" and C: "C = own_cells M @ ghost_4_loc h"
    and Cd: "distinct C" "\<forall>k \<in> set C. k < bulk_of t" and I: "own_inv t tr s C val P h" and P: "pairs_ok t s C P"
    and l: "l < own_size M" "i < n_dofs t s (C ! l)" "(l, i) \<notin> P" and up: "length (update_cells h) = own_size M"
  shows "\<exists>h'. distribute_dof M s h (l, i) = Inr h' \<and> own_inv t tr s C val (insert (l, i) P) h' \<and> same_cells h h'
    \<and> length (update_cells h') = own_size M"
proof -
  note D = view_okD [OF V]
  have lC: "l < length C" using l(1) D(4) by (simp add: C)
  have k: "C ! l < bulk_of t" using Cd(2) lC by simp
  have elm: "elm_idx M h l = C ! l" using elm_idx_nth [OF D(4)] l(1) C by simp
  show ?thesis
  proof (cases rule: slot_cases [OF T S k l(2)])
    case (1 e f)
    let ?v = "faces t tr e (C ! l) ! f" and ?c = "dof_count (cell_dofs t s (C ! l)) i"
    let ?h1 = "visit_face e ?v ?c l h"
    have run: "distribute_dof M s h (l, i) = Inr (store_dof l i (face_dof e ?v ?c ?h1) ?h1)"
      using 1(1) by (cases e) (simp_all add: distribute_dof_def elm D(1,2) Let_def)
    have up': "l < length (update_cells h)" using up l(1) by simp
    have v: "?v \<in> set (faces t tr e (C ! l))" using 1(2) faces_facts(1) [OF T k] by simp
    note F = visit_face_facts [OF own_invD(1) [OF I] faces_facts(3) [OF T k v] 1(5), where l = l]
    have "same_cells h ?h1" "length (update_cells ?h1) = own_size M" using F(6,9-14) up by (simp_all add: same_cells_def)
    then show ?thesis unfolding run
      using distribute_face_dof [OF T S Cd I P lC l(2,3) 1(3) up'] by (simp add: same_cells_def)
  next
    case 2
    let ?h1 = "h\<lparr>local_to_global_dof_idx := local_to_global_dof_idx h @ [int (next_free_dof h)], next_free_dof := next_free_dof h + 1\<rparr>"
    have run: "distribute_dof M s h (l, i) = Inr (store_dof l i (int (next_free_dof h)) ?h1)"
      using 2(1) by (simp add: distribute_dof_def elm D(1,2) Let_def)
    show ?thesis unfolding run
      using distribute_cell_dof [OF T S Cd I P lC l(2,3) 2(2)] up by (simp add: same_cells_def)
  qed
qed

lemma distribute_dof_fold:
  assumes V: "view_ok t tr pr p M" and T: "tree_ok t tr" and S: "space_ok s" and C: "C = own_cells M @ ghost_4_loc h"
    and Cd: "distinct C" "\<forall>k \<in> set C. k < bulk_of t" and I: "own_inv t tr s C val P h" and P: "pairs_ok t s C P"
    and js: "distinct js" "\<forall>x \<in> set js. fst x < own_size M \<and> snd x < n_dofs t s (C ! fst x) \<and> x \<notin> P"
    and up: "length (update_cells h) = own_size M"
  shows "\<exists>h'. fold_res (distribute_dof M s) h js = Inr h' \<and> own_inv t tr s C val (P \<union> set js) h' \<and> same_cells h h'
    \<and> length (update_cells h') = own_size M"
  using C I P js up
proof (induction js arbitrary: h P)
  case Nil
  then show ?case by (simp add: same_cells_refl)
next
  case (Cons x js)
  obtain l i where x: "x = (l, i)" by (cases x)
  have l: "l < own_size M" "i < n_dofs t s (C ! l)" "(l, i) \<notin> P" using Cons.prems(5) by (simp_all add: x)
  obtain h1 where h1: "distribute_dof M s h (l, i) = Inr h1" "own_inv t tr s C val (insert (l, i) P) h1" "same_cells h h1"
    "length (update_cells h1) = own_size M"
    using distribute_dof_step [OF V T S Cons.prems(1) Cd Cons.prems(2,3) l Cons.prems(6)] by blast
  have "C = own_cells M @ ghost_4_loc h1" using Cons.prems(1) same_cellsD(1) [OF h1(3)] by simp
  moreover have "pairs_ok t s C (insert (l, i) P)"
    using Cons.prems(1,3) l view_okD(4) [OF V] by (simp add: pairs_ok_def)
  moreover have "\<forall>y \<in> set js. fst y < own_size M \<and> snd y < n_dofs t s (C ! fst y) \<and> y \<notin> insert (l, i) P"
    using Cons.prems(4,5) by (auto simp: x)
  ultimately obtain h2 where "fold_res (distribute_dof M s) h1 js = Inr h2" "own_inv t tr s C val (insert (l, i) P \<union> set js) h2" "same_cells h1 h2"
    "length (update_cells h2) = own_size M"
    using Cons.IH [OF _ h1(2) _ _ _ h1(4)] Cons.prems(4) by auto
  then show ?case using h1(1,3) same_cells_trans by (auto simp: x)
qed

lemma own_inv_lsize: "own_inv t tr s C val P (h\<lparr>lsize := n\<rparr>) \<longleftrightarrow> own_inv t tr s C val P h"
proof -
  have "num (h\<lparr>lsize := n\<rparr>) = num h" by (simp add: num_def fun_eq_iff split: slot.split)
  then show ?thesis by (simp add: own_inv_def dof_frame_def cells_at_def)
qed

text \<open>What every processor has before the communication.\<close>

abbreviation own_pairs :: "topology \<Rightarrow> equal_order_space \<Rightarrow> dof_mesh \<Rightarrow> nat list \<Rightarrow> (nat \<times> nat) set" where
  "own_pairs t s M C \<equiv> {(l, i). l < own_size M \<and> i < n_dofs t s (C ! l)}"

lemma distribute_own_spec:
  assumes V: "view_ok t tr pr p M" and T: "tree_ok t tr" and S: "space_ok s" and G: "ghosts_ok t pr p M h" "ghosts_all t tr pr p (ghost_4_loc h)"
    and C: "C = own_cells M @ ghost_4_loc h"
  shows "\<exists>h'. distribute_own M s h = Inr h' \<and> own_inv t tr s C (owns t tr pr p) (own_pairs t s M C) h' \<and> same_cells h h'
    \<and> length (update_cells h') = own_size M \<and> lsize h' = next_free_dof h'"
proof -
  note D = view_okD [OF V]
  have Cd: "distinct C" "\<forall>k \<in> set C. k < bulk_of t"
    using G(1) D(5,6) by (auto simp: C ghosts_ok_def)
  have len: "length C = own_size M + length (ghost_4_loc h)" by (simp add: C D(4))
  have elm: "elm_idx M h l = C ! l" if "l < length C" for l using elm_idx_nth [OF D(4)] that len C by simp
  let ?h0 = "init_cell_starts M s h"
  let ?h1 = "init_tables M s ?h0"
  have cs: "map (\<lambda>l. n_dofs t s (elm_idx M h l)) [0..<local_size M h] = map (n_dofs t s) C"
    by (rule nth_equalityI) (simp_all add: local_size_def len elm)
  have same: "same_cells h ?h0" "same_cells h ?h1" by (simp_all add: same_cells_def init_cell_starts_def init_tables_def Let_def)
  have tab: "table e ?h1 = \<lparr>face_starts = running 0 (map (face_size t tr s e) [0..<n_faces t tr e]),
      face_dofs = replicate (sum_list (map (face_size t tr s e) [0..<n_faces t tr e])) (- 1),
      face_status = (if e then init_edge_status M h else init_node_status M h)\<rparr>" for e
    by (simp add: init_tables_def init_cell_starts_def Let_def table_def node_starts_def edge_starts_def running_last D(1,2)
        face_size_def [abs_def] n_faces_def init_edge_status_def init_node_status_def lower_ghosts_def)
  have starts: "cell_starts ?h1 = running 0 (map (n_dofs t s) C)" "dof_indices ?h1 = replicate (sum_list (map (n_dofs t s) C)) 0"
    "update_cells ?h1 = replicate (own_size M) False" "next_free_dof ?h1 = 0" "local_to_global_dof_idx ?h1 = local_to_global_dof_idx h"
    using cs by (simp_all add: init_tables_def init_cell_starts_def Let_def running_last D(1))
  note st = init_status [OF V T G]
  have frame: "dof_frame t tr s C ?h1" by (simp add: dof_frame_def starts tab st(1))
  have "cells_at C ?h1"
    using G(1) len D(4) same_cellsD(4) [OF same(2)] by (auto simp: cells_at_def ghosts_ok_def C nth_append)
  moreover have "face_status (table e ?h1) ! v = (if owns t tr pr p e v then Valid_NFace else Invalid_NFace)" if "v < n_faces t tr e" for e v
    using st(2) [OF that] by (simp add: tab)
  moreover have "face_dof e v c ?h1 = - 1" if "v < n_faces t tr e" "c < face_size t tr s e v" for e v c
    using face_place(1) [OF frame that] by (simp add: tab)
  moreover have "local_to_global_dof_idx h = []" using G(1) by (simp add: ghosts_ok_def)
  ultimately have I: "own_inv t tr s C (owns t tr pr p) {} ?h1"
    using frame starts by (simp add: own_inv_def bij_betw_def)
  let ?js = "dofs_of_cells M s ?h1 [0..<own_size M]"
  have C1: "C = own_cells M @ ghost_4_loc ?h1" using C same_cellsD(1) [OF same(2)] by simp
  have "\<forall>l \<in> set [0..<own_size M]. elm_idx M ?h1 l = C ! l"
    using elm_idx_nth [OF D(4), of _ ?h1] C1 by simp
  note js = dofs_of_cells_set [OF D(1) this]
  have js_set: "set ?js = own_pairs t s M C" unfolding js(1) by auto
  obtain h2 where h2: "fold_res (distribute_dof M s) ?h1 ?js = Inr h2" "own_inv t tr s C (owns t tr pr p) ({} \<union> set ?js) h2"
    "same_cells ?h1 h2" "length (update_cells h2) = own_size M"
    using distribute_dof_fold [OF V T S C1 Cd I, of ?js] js js_set starts(3) by (auto simp: pairs_ok_def)
  have run: "distribute_own M s h = Inr (h2\<lparr>lsize := next_free_dof h2\<rparr>)"
    unfolding distribute_own_def Let_def h2(1) by simp
  have "own_inv t tr s C (owns t tr pr p) (own_pairs t s M C) (h2\<lparr>lsize := next_free_dof h2\<rparr>)"
    using h2(2) unfolding js_set by (simp add: own_inv_lsize)
  then show ?thesis unfolding run using h2(3,4) same_cells_trans [OF same(2) h2(3)] by (simp add: same_cells_def)
qed

end
