(* ===== verification/Dof_Exchange.thy ===== *)
theory Dof_Exchange
  imports Dof_Handler
begin

text \<open>
  The exchange of dof numbers between the processors (\<open>send_ghost_dofs\<close>, \<open>update_local_dofs\<close> and the two rounds of
  \<open>DOFHandlerMultiDim::distribute_dofs\<close>, \<open>src/src/fem/dofhandler.cc\<close>), over the model of \<open>Dof_Handler\<close>: who numbers a dof, what
  every processor knows while the messages are read, and that at the end all processors agree on the number of every dof of their
  own and ghost cells.
\<close>

section \<open>Global numbers\<close>

text \<open>
  All processors: the element \<open>k\<close> is on \<open>pr k\<close>, every processor sees the same mesh, and the number of dofs fits into \<open>int\<close>.
\<close>

definition machine_ok :: "topology \<Rightarrow> dup_nodes \<Rightarrow> equal_order_space \<Rightarrow> (nat \<Rightarrow> nat) \<Rightarrow> nat \<Rightarrow> (nat \<Rightarrow> dof_mesh) \<Rightarrow> bool" where
  "machine_ok t tr s pr np Ms \<longleftrightarrow> tree_ok t tr \<and> space_ok s \<and> neighbours_ok t \<and> (\<forall>k < bulk_of t. pr k < np)
     \<and> (\<forall>p < np. view_ok t tr pr p (Ms p)) \<and> (\<Sum>k < bulk_of t. n_dofs t s k) < 2 ^ 31"

lemma machine_okD:
  assumes "machine_ok t tr s pr np Ms"
  shows "tree_ok t tr" and "space_ok s" and "neighbours_ok t" and "k < bulk_of t \<Longrightarrow> pr k < np" and "p < np \<Longrightarrow> view_ok t tr pr p (Ms p)"
    and "(\<Sum>k < bulk_of t. n_dofs t s k) < 2 ^ 31"
  using assms by (simp_all add: machine_ok_def)

definition local_cells :: "dof_mesh \<Rightarrow> nat list" where
  "local_cells M = own_cells M @ ghost_4_loc (make_elem_partitioning M)"

definition slot_owner :: "topology \<Rightarrow> dup_nodes \<Rightarrow> equal_order_space \<Rightarrow> (nat \<Rightarrow> nat) \<Rightarrow> slot \<Rightarrow> nat" where
  "slot_owner t tr s pr x = Min (pr ` {k. k < bulk_of t \<and> x \<in> slots t tr s k})"

lemma slot_owner_facts:
  assumes "k < bulk_of t" and "x \<in> slots t tr s k"
  shows "slot_owner t tr s pr x \<le> pr k" and "\<exists>j < bulk_of t. x \<in> slots t tr s j \<and> pr j = slot_owner t tr s pr x"
proof -
  have fin: "finite (pr ` {k. k < bulk_of t \<and> x \<in> slots t tr s k})" by simp
  show "slot_owner t tr s pr x \<le> pr k" unfolding slot_owner_def by (rule Min_le [OF fin]) (use assms in auto)
  have "slot_owner t tr s pr x \<in> pr ` {k. k < bulk_of t \<and> x \<in> slots t tr s k}"
    unfolding slot_owner_def by (rule Min_in [OF fin]) (use assms in auto)
  then show "\<exists>j < bulk_of t. x \<in> slots t tr s j \<and> pr j = slot_owner t tr s pr x" by auto
qed

text \<open>The slots of the own cells and what \<open>distribute_own\<close> numbers.\<close>

lemma local_cells_facts:
  assumes V: "view_ok t tr pr p M" and T: "tree_ok t tr" and N: "neighbours_ok t"
  shows "distinct (local_cells M)" and "\<forall>k \<in> set (local_cells M). k < bulk_of t" and "length (local_cells M) = own_size M + length (ghost_4_loc (make_elem_partitioning M))"
    and "l < own_size M \<Longrightarrow> local_cells M ! l < bulk_of t \<and> pr (local_cells M ! l) = p"
    and "k < bulk_of t \<Longrightarrow> pr k = p \<Longrightarrow> \<exists>l < own_size M. local_cells M ! l = k"
    and "ghosts_all t tr pr p (ghost_4_loc (make_elem_partitioning M))"
proof -
  note D = view_okD [OF V] and G = make_elem_partitioning_ok [OF V T N]
  show "distinct (local_cells M)" "\<forall>k \<in> set (local_cells M). k < bulk_of t" "length (local_cells M) = own_size M + length (ghost_4_loc (make_elem_partitioning M))"
    using G(1) D(4-6) by (auto simp: local_cells_def ghosts_ok_def)
  show "local_cells M ! l < bulk_of t \<and> pr (local_cells M ! l) = p" if "l < own_size M"
  proof -
    have "local_cells M ! l \<in> set (own_cells M)" using that D(4) by (simp add: local_cells_def nth_append)
    then show ?thesis using D(6) by simp
  qed
  show "\<exists>l < own_size M. local_cells M ! l = k" if "k < bulk_of t" "pr k = p"
  proof -
    have "k \<in> set (own_cells M)" using that D(6) by simp
    then obtain l where "l < length (own_cells M)" "own_cells M ! l = k" unfolding in_set_conv_nth by blast
    then show ?thesis using D(4) by (intro exI [of _ l]) (simp add: local_cells_def nth_append)
  qed
  show "ghosts_all t tr pr p (ghost_4_loc (make_elem_partitioning M))" using G(2) by (simp add: ghosts_all_def)
qed

lemma assigned_own:
  assumes V: "view_ok t tr pr p M" and T: "tree_ok t tr" and S: "space_ok s" and N: "neighbours_ok t"
  shows "assigned_slots t tr s (local_cells M) (owns t tr pr p) (own_pairs t s M (local_cells M))
    = {x. \<exists>k < bulk_of t. pr k = p \<and> x \<in> slots t tr s k \<and> slot_owner t tr s pr x = p}"
proof -
  let ?C = "local_cells M" and ?P = "own_pairs t s M (local_cells M)"
  note L = local_cells_facts [OF V T N]
  have vis: "visited t tr s ?C ?P e v \<longleftrightarrow> (\<exists>k < bulk_of t. pr k = p \<and> (\<exists>c. FaceSlot e v c \<in> slots t tr s k))" for e v
  proof
    assume "visited t tr s ?C ?P e v"
    then obtain l i c where "l < own_size M" "i < n_dofs t s (?C ! l)" "slot_of t tr s (?C ! l) i = FaceSlot e v c" by (auto simp: visited_def)
    then show "\<exists>k < bulk_of t. pr k = p \<and> (\<exists>c. FaceSlot e v c \<in> slots t tr s k)"
      using L(4) by (intro exI [of _ "?C ! l"]) (force simp: slots_def)
  next
    assume "\<exists>k < bulk_of t. pr k = p \<and> (\<exists>c. FaceSlot e v c \<in> slots t tr s k)"
    then obtain k c i where k: "k < bulk_of t" "pr k = p" "i < n_dofs t s k" "slot_of t tr s k i = FaceSlot e v c" using slotsD by blast
    obtain l where l: "l < own_size M" "?C ! l = k" using L(5) [OF k(1,2)] by blast
    show "visited t tr s ?C ?P e v" unfolding visited_def using k(3,4) l by (intro bexI [of _ "(l, i)"]) auto
  qed
  have face: "(v < n_faces t tr e \<and> c < face_size t tr s e v \<and> owns t tr pr p e v \<and> visited t tr s ?C ?P e v)
      \<longleftrightarrow> (\<exists>k < bulk_of t. pr k = p \<and> FaceSlot e v c \<in> slots t tr s k \<and> slot_owner t tr s pr (FaceSlot e v c) = p)" for e v c
  proof
    assume a: "v < n_faces t tr e \<and> c < face_size t tr s e v \<and> owns t tr pr p e v \<and> visited t tr s ?C ?P e v"
    then obtain k c' where k: "k < bulk_of t" "pr k = p" "FaceSlot e v c' \<in> slots t tr s k" unfolding vis by blast
    then have x: "FaceSlot e v c \<in> slots t tr s k" using a face_slots [OF T S k(1)] by blast
    obtain j where j: "j < bulk_of t" "FaceSlot e v c \<in> slots t tr s j" "pr j = slot_owner t tr s pr (FaceSlot e v c)"
      using slot_owner_facts(2) [OF k(1) x] by blast
    have "v \<in> set (faces t tr e j)" using face_slots [OF T S j(1)] j(2) by blast
    then have "p \<le> pr j" using a j(1) by (simp add: owns_def)
    then have "slot_owner t tr s pr (FaceSlot e v c) = p" using j(3) slot_owner_facts(1) [OF k(1) x, of pr] k(2) by simp
    then show "\<exists>k < bulk_of t. pr k = p \<and> FaceSlot e v c \<in> slots t tr s k \<and> slot_owner t tr s pr (FaceSlot e v c) = p" using k x by blast
  next
    assume "\<exists>k < bulk_of t. pr k = p \<and> FaceSlot e v c \<in> slots t tr s k \<and> slot_owner t tr s pr (FaceSlot e v c) = p"
    then obtain k where k: "k < bulk_of t" "pr k = p" "FaceSlot e v c \<in> slots t tr s k" "slot_owner t tr s pr (FaceSlot e v c) = p" by blast
    note fk = k(3) [unfolded face_slots [OF T S k(1)]]
    have "p \<le> pr j" if j: "j < bulk_of t" "v \<in> set (faces t tr e j)" for j
    proof -
      have "dim_of (elems t ! j) = dim_of (elems t ! k)" using faces_facts(5) [OF T k(1) _ j] fk by blast
      then have "FaceSlot e v c \<in> slots t tr s j" using face_slots [OF T S j(1)] fk j(2) by simp
      then show ?thesis using slot_owner_facts(1) [OF j(1), of _ tr s pr] k(4) by metis
    qed
    then have "owns t tr pr p e v" using k(1,2) fk by (auto simp: owns_def)
    then show "v < n_faces t tr e \<and> c < face_size t tr s e v \<and> owns t tr pr p e v \<and> visited t tr s ?C ?P e v"
      using fk faces_facts(3) [OF T k(1)] vis k(1-3) by blast
  qed
  have cell: "(\<exists>l i. x = CellSlot (?C ! l) i \<and> (l, i) \<in> ?P \<and> slot_of t tr s (?C ! l) i = CellSlot (?C ! l) i)
      \<longleftrightarrow> (\<exists>k i. x = CellSlot k i \<and> k < bulk_of t \<and> pr k = p \<and> x \<in> slots t tr s k \<and> slot_owner t tr s pr x = p)" for x
  proof
    assume "\<exists>l i. x = CellSlot (?C ! l) i \<and> (l, i) \<in> ?P \<and> slot_of t tr s (?C ! l) i = CellSlot (?C ! l) i"
    then obtain l i where l: "x = CellSlot (?C ! l) i" "l < own_size M" "i < n_dofs t s (?C ! l)" "slot_of t tr s (?C ! l) i = CellSlot (?C ! l) i"
      by auto
    let ?k = "?C ! l"
    have k: "?k < bulk_of t" "pr ?k = p" using L(4) [OF l(2)] by simp_all
    have x: "x \<in> slots t tr s ?k" using l(1,3,4) by (force simp: slots_def)
    obtain j where j: "j < bulk_of t" "x \<in> slots t tr s j" "pr j = slot_owner t tr s pr x" using slot_owner_facts(2) [OF k(1) x] by blast
    have "j = ?k" using slots_disjoint_cells [OF T S j(1)] j(2) l(1) by blast
    then show "\<exists>k i. x = CellSlot k i \<and> k < bulk_of t \<and> pr k = p \<and> x \<in> slots t tr s k \<and> slot_owner t tr s pr x = p"
      using k x l(1) j(3) by auto
  next
    assume "\<exists>k i. x = CellSlot k i \<and> k < bulk_of t \<and> pr k = p \<and> x \<in> slots t tr s k \<and> slot_owner t tr s pr x = p"
    then obtain k i where k: "x = CellSlot k i" "k < bulk_of t" "pr k = p" "x \<in> slots t tr s k" by blast
    obtain l where l: "l < own_size M" "?C ! l = k" using L(5) [OF k(2,3)] by blast
    have "i < n_dofs t s k \<and> slot_of t tr s k i = CellSlot k i" using slots_disjoint_cells [OF T S k(2)] k(1,4) by blast
    then show "\<exists>l i. x = CellSlot (?C ! l) i \<and> (l, i) \<in> ?P \<and> slot_of t tr s (?C ! l) i = CellSlot (?C ! l) i" using l k(1) by auto
  qed
  have "x \<in> assigned_slots t tr s ?C (owns t tr pr p) ?P \<longleftrightarrow> (\<exists>k < bulk_of t. pr k = p \<and> x \<in> slots t tr s k \<and> slot_owner t tr s pr x = p)" for x
  proof (cases x)
    case (FaceSlot e v c)
    have "x \<in> assigned_slots t tr s ?C (owns t tr pr p) ?P \<longleftrightarrow> v < n_faces t tr e \<and> c < face_size t tr s e v \<and> owns t tr pr p e v \<and> visited t tr s ?C ?P e v"
      unfolding assigned_slots_def FaceSlot by blast
    then show ?thesis unfolding face FaceSlot by simp
  next
    case (CellSlot k i)
    have "x \<in> assigned_slots t tr s ?C (owns t tr pr p) ?P \<longleftrightarrow> (\<exists>l i. x = CellSlot (?C ! l) i \<and> (l, i) \<in> ?P \<and> slot_of t tr s (?C ! l) i = CellSlot (?C ! l) i)"
      unfolding assigned_slots_def CellSlot by blast
    also have "\<dots> \<longleftrightarrow> (\<exists>k < bulk_of t. pr k = p \<and> x \<in> slots t tr s k \<and> slot_owner t tr s pr x = p)"
      unfolding cell using CellSlot slots_disjoint_cells [OF T S] by blast
    finally show ?thesis .
  qed
  then show ?thesis by blast
qed

section \<open>Messages\<close>

text \<open>A local number that stands for a global one.\<close>

definition stands_for :: "dof_handler \<Rightarrow> int \<Rightarrow> int \<Rightarrow> bool" where
  "stands_for h x y \<longleftrightarrow> 0 \<le> x \<and> nat x < length (local_to_global_dof_idx h) \<and> local_to_global_dof_idx h ! nat x = y"

lemma good_append: "stands_for h x y \<Longrightarrow> local_to_global_dof_idx h' = local_to_global_dof_idx h @ ys \<Longrightarrow> stands_for h' x y"
  by (simp add: stands_for_def nth_append)

lemma good_new: "local_to_global_dof_idx h' = local_to_global_dof_idx h @ [y] \<Longrightarrow> stands_for h' (int (length (local_to_global_dof_idx h))) y"
  by (simp add: stands_for_def)

text \<open>
  While messages are read: known numbers are right for the global numbering \<open>G\<close>, own dofs are known or wait for an update of a slot
  in \<open>W\<close>, the dofs in \<open>Q\<close> of ghost cells are known.
\<close>

definition msg_inv :: "topology \<Rightarrow> dup_nodes \<Rightarrow> equal_order_space \<Rightarrow> nat list \<Rightarrow> nat \<Rightarrow> (slot \<Rightarrow> int) \<Rightarrow> slot set \<Rightarrow> (nat \<times> nat) set \<Rightarrow> dof_handler \<Rightarrow> bool" where
  "msg_inv t tr s C n G W Q h \<longleftrightarrow> dof_frame t tr s C h \<and> cells_at C h
   \<and> (\<forall>e v c. v < n_faces t tr e \<longrightarrow> c < face_size t tr s e v \<longrightarrow> face_dof e v c h \<noteq> - 1 \<longrightarrow> stands_for h (face_dof e v c h) (G (FaceSlot e v c)))
   \<and> (\<forall>l < n. \<forall>i < n_dofs t s (C ! l). stands_for h (ind h l i) (G (slot_of t tr s (C ! l) i))
        \<or> ind h l i = - 1 \<and> update_cells h ! l \<and> (\<exists>e v c. slot_of t tr s (C ! l) i = FaceSlot e v c) \<and> slot_of t tr s (C ! l) i \<in> W)
   \<and> (\<forall>x \<in> Q. n \<le> fst x \<and> stands_for h (ind h (fst x) (snd x)) (G (slot_of t tr s (C ! fst x) (snd x)))
        \<and> (\<forall>e v c. slot_of t tr s (C ! fst x) (snd x) = FaceSlot e v c \<longrightarrow> face_dof e v c h \<noteq> - 1))"

lemma msg_invD:
  assumes "msg_inv t tr s C n G W Q h"
  shows "dof_frame t tr s C h" and "cells_at C h"
    and "v < n_faces t tr e \<Longrightarrow> c < face_size t tr s e v \<Longrightarrow> face_dof e v c h \<noteq> - 1 \<Longrightarrow> stands_for h (face_dof e v c h) (G (FaceSlot e v c))"
    and "l < n \<Longrightarrow> i < n_dofs t s (C ! l) \<Longrightarrow> stands_for h (ind h l i) (G (slot_of t tr s (C ! l) i))
        \<or> ind h l i = - 1 \<and> update_cells h ! l \<and> (\<exists>e v c. slot_of t tr s (C ! l) i = FaceSlot e v c) \<and> slot_of t tr s (C ! l) i \<in> W"
    and "x \<in> Q \<Longrightarrow> n \<le> fst x" and "x \<in> Q \<Longrightarrow> stands_for h (ind h (fst x) (snd x)) (G (slot_of t tr s (C ! fst x) (snd x)))"
    and "x \<in> Q \<Longrightarrow> slot_of t tr s (C ! fst x) (snd x) = FaceSlot e v c \<Longrightarrow> face_dof e v c h \<noteq> - 1"
  using assms unfolding msg_inv_def by blast+

text \<open>Own dofs that wait have faces that are not known.\<close>

definition all_updated :: "topology \<Rightarrow> dup_nodes \<Rightarrow> equal_order_space \<Rightarrow> nat list \<Rightarrow> nat \<Rightarrow> dof_handler \<Rightarrow> bool" where
  "all_updated t tr s C n h \<longleftrightarrow> (\<forall>l < n. \<forall>i < n_dofs t s (C ! l). \<forall>e v c. ind h l i = - 1 \<longrightarrow> slot_of t tr s (C ! l) i = FaceSlot e v c \<longrightarrow> face_dof e v c h = - 1)"

definition own_good :: "topology \<Rightarrow> dup_nodes \<Rightarrow> equal_order_space \<Rightarrow> nat list \<Rightarrow> nat \<Rightarrow> (slot \<Rightarrow> int) \<Rightarrow> dof_handler \<Rightarrow> bool" where
  "own_good t tr s C n G h \<longleftrightarrow> (\<forall>l < n. \<forall>i < n_dofs t s (C ! l). stands_for h (ind h l i) (G (slot_of t tr s (C ! l) i)))"

lemma learn_face_facts:
  fixes x :: int
  assumes f: "dof_frame t tr s C h" and v: "v < n_faces t tr e" "c < face_size t tr s e v"
  defines "h1 \<equiv> learn_face e v c x h"
  shows "dof_frame t tr s C h1"
    and "w < n_faces t tr e' \<Longrightarrow> d < face_size t tr s e' w \<Longrightarrow> face_dof e' w d h1 =
      (if e' = e \<and> w = v \<and> d = c \<and> face_dof e v c h = - 1 then int (length (local_to_global_dof_idx h)) else face_dof e' w d h)"
    and "local_to_global_dof_idx h1 = local_to_global_dof_idx h @ (if face_dof e v c h = - 1 then [x] else [])"
    and "update_cells h1 = update_cells h" and "dof_indices h1 = dof_indices h" and "cell_starts h1 = cell_starts h" and "same_cells h h1"
    and "loffset h1 = loffset h" and "lsize h1 = lsize h" and "n_global_dofs h1 = n_global_dofs h"
proof -
  note P = face_place [OF f v]
  show "dof_frame t tr s C h1" using f by (auto simp: h1_def learn_face_def Let_def dof_frame_def)
  show "local_to_global_dof_idx h1 = local_to_global_dof_idx h @ (if face_dof e v c h = - 1 then [x] else [])"
    "update_cells h1 = update_cells h" "dof_indices h1 = dof_indices h" "cell_starts h1 = cell_starts h" "same_cells h h1"
    "loffset h1 = loffset h" "lsize h1 = lsize h" "n_global_dofs h1 = n_global_dofs h"
    by (simp_all add: h1_def learn_face_def Let_def same_cells_def)
  show "face_dof e' w d h1 =
      (if e' = e \<and> w = v \<and> d = c \<and> face_dof e v c h = - 1 then int (length (local_to_global_dof_idx h)) else face_dof e' w d h)"
    if w: "w < n_faces t tr e'" "d < face_size t tr s e' w"
    using P(1) P(2) [of w d] w unfolding h1_def learn_face_def Let_def by (auto simp: nth_list_update)
qed

lemma update_ghost_dof_step:
  assumes M: "dm_topo M = t" "dm_tree M = tr" and T: "tree_ok t tr" and S: "space_ok s" and C: "\<forall>k \<in> set C. k < bulk_of t"
    and I: "msg_inv t tr s C n G W Q h" and l: "n \<le> l" "l < length C" "i < n_dofs t s (C ! l)" and elm: "elm_idx M h l = C ! l"
    and Q: "pairs_ok t s C Q" "n \<le> length C"
  defines "h' \<equiv> update_ghost_dof M s h ((l, i), G (slot_of t tr s (C ! l) i))"
  shows "msg_inv t tr s C n G W (insert (l, i) Q) h'" and "same_cells h h'" and "update_cells h' = update_cells h"
    and "loffset h' = loffset h" and "lsize h' = lsize h" and "n_global_dofs h' = n_global_dofs h"
proof -
  note D = msg_invD [OF I]
  have k: "C ! l < bulk_of t" using C l(2) by simp
  let ?y = "G (slot_of t tr s (C ! l) i)"
  have "\<exists>h1 x ys. h' = store_dof l i x h1 \<and> dof_frame t tr s C h1 \<and> local_to_global_dof_idx h1 = local_to_global_dof_idx h @ ys \<and> stands_for h1 x ?y
      \<and> same_cells h h1 \<and> update_cells h1 = update_cells h \<and> cell_starts h1 = cell_starts h \<and> dof_indices h1 = dof_indices h
      \<and> loffset h1 = loffset h \<and> lsize h1 = lsize h \<and> n_global_dofs h1 = n_global_dofs h
      \<and> (\<forall>e v c. v < n_faces t tr e \<longrightarrow> c < face_size t tr s e v \<longrightarrow> face_dof e v c h1 \<noteq> - 1 \<longrightarrow> stands_for h1 (face_dof e v c h1) (G (FaceSlot e v c)))
      \<and> (\<forall>e v c. v < n_faces t tr e \<longrightarrow> c < face_size t tr s e v \<longrightarrow> face_dof e v c h \<noteq> - 1 \<longrightarrow> face_dof e v c h1 \<noteq> - 1)
      \<and> (\<forall>e v c. slot_of t tr s (C ! l) i = FaceSlot e v c \<longrightarrow> face_dof e v c h1 \<noteq> - 1)"
  proof (cases rule: slot_cases [OF T S k l(3)])
    case (1 e f)
    let ?v = "faces t tr e (C ! l) ! f" and ?c = "dof_count (cell_dofs t s (C ! l)) i"
    let ?h1 = "learn_face e ?v ?c ?y h"
    have "?v \<in> set (faces t tr e (C ! l))" using 1(2) faces_facts(1) [OF T k] by simp
    note v = faces_facts(3) [OF T k this]
    note F = learn_face_facts [OF D(1) v 1(5), where x = ?y]
    have run: "h' = store_dof l i (face_dof e ?v ?c ?h1) ?h1"
      using 1(1) by (cases e) (simp_all add: h'_def update_ghost_dof_def elm M Let_def)
    have known: "face_dof e ?v ?c ?h1 \<noteq> - 1" "stands_for ?h1 (face_dof e ?v ?c ?h1) ?y"
    proof -
      show "face_dof e ?v ?c ?h1 \<noteq> - 1" using F(2) [OF v 1(5)] by auto
      show "stands_for ?h1 (face_dof e ?v ?c ?h1) ?y"
      proof (cases "face_dof e ?v ?c h = - 1")
        case True
        then show ?thesis using F(2) [OF v 1(5)] F(3) good_new by simp
      next
        case False
        then show ?thesis using F(2) [OF v 1(5)] D(3) [OF v 1(5) False] good_append [OF _ F(3)] 1(3) by simp
      qed
    qed
    have all: "stands_for ?h1 (face_dof e' w d ?h1) (G (FaceSlot e' w d))" if w: "w < n_faces t tr e'" "d < face_size t tr s e' w" "face_dof e' w d ?h1 \<noteq> - 1" for e' w d
    proof (cases "e' = e \<and> w = ?v \<and> d = ?c")
      case True
      then show ?thesis using known(2) 1(3) by simp
    next
      case False
      then have "face_dof e' w d ?h1 = face_dof e' w d h" using F(2) [OF w(1,2)] by auto
      then show ?thesis using D(3) [OF w(1,2)] w(3) good_append [OF _ F(3)] by simp
    qed
    have keep: "face_dof e' w d ?h1 \<noteq> - 1" if "w < n_faces t tr e'" "d < face_size t tr s e' w" "face_dof e' w d h \<noteq> - 1" for e' w d
      using F(2) [OF that(1,2)] that(3) by auto
    show ?thesis
      by (intro exI [of _ ?h1] exI [of _ "face_dof e ?v ?c ?h1"] exI [of _ "if face_dof e ?v ?c h = - 1 then [?y] else []"])
        (use run F known all keep 1(3) in auto)
  next
    case 2
    let ?h1 = "h\<lparr>local_to_global_dof_idx := local_to_global_dof_idx h @ [?y]\<rparr>"
    have run: "h' = store_dof l i (int (length (local_to_global_dof_idx h))) ?h1"
      using 2(1) by (simp add: h'_def update_ghost_dof_def elm M Let_def)
    have "stands_for ?h1 (face_dof e w d h) (G (FaceSlot e w d))" if "w < n_faces t tr e" "d < face_size t tr s e w" "face_dof e w d h \<noteq> - 1" for e w d
      using D(3) [OF that] by (rule good_append) simp
    then show ?thesis
      by (intro exI [of _ ?h1] exI [of _ "int (length (local_to_global_dof_idx h))"] exI [of _ "[?y]"])
        (use run D(1) 2(2) in \<open>auto simp: stands_for_def dof_frame_def same_cells_def\<close>)
  qed
  then obtain h1 x ys where h1: "h' = store_dof l i x h1" "dof_frame t tr s C h1" "local_to_global_dof_idx h1 = local_to_global_dof_idx h @ ys" "stands_for h1 x ?y"
    "same_cells h h1" "update_cells h1 = update_cells h" "cell_starts h1 = cell_starts h" "dof_indices h1 = dof_indices h"
    and h1f: "\<And>e v c. v < n_faces t tr e \<Longrightarrow> c < face_size t tr s e v \<Longrightarrow> face_dof e v c h1 \<noteq> - 1 \<Longrightarrow> stands_for h1 (face_dof e v c h1) (G (FaceSlot e v c))"
      "\<And>e v c. v < n_faces t tr e \<Longrightarrow> c < face_size t tr s e v \<Longrightarrow> face_dof e v c h \<noteq> - 1 \<Longrightarrow> face_dof e v c h1 \<noteq> - 1"
      "\<And>e v c. slot_of t tr s (C ! l) i = FaceSlot e v c \<Longrightarrow> face_dof e v c h1 \<noteq> - 1"
    and h1g: "loffset h1 = loffset h" "lsize h1 = lsize h" "n_global_dofs h1 = n_global_dofs h"
    by blast
  have g: "stands_for h' a b \<longleftrightarrow> stands_for h1 a b" for a b by (simp add: stands_for_def h1(1))
  have mono: "stands_for h' a b" if "stands_for h a b" for a b unfolding g by (rule good_append [OF that h1(3)])
  have ind: "ind h' m j = (if m = l \<and> j = i then x else ind h m j)" if "m < length C" "j < n_dofs t s (C ! m)" for m j
    using store_dof_ind [OF h1(2) l(2,3) that, of x] h1(1,7,8) by simp
  show "same_cells h h'" "update_cells h' = update_cells h" using h1(1,5,6) by (simp_all add: same_cells_def)
  show "loffset h' = loffset h" "lsize h' = lsize h" "n_global_dofs h' = n_global_dofs h" using h1(1) h1g by simp_all
  have own: "stands_for h' (ind h' m j) (G (slot_of t tr s (C ! m) j))
        \<or> ind h' m j = - 1 \<and> update_cells h' ! m \<and> (\<exists>e v c. slot_of t tr s (C ! m) j = FaceSlot e v c) \<and> slot_of t tr s (C ! m) j \<in> W" if "m < n" "j < n_dofs t s (C ! m)" for m j
  proof -
    have "ind h' m j = ind h m j" using ind [of m j] that l(1) Q(2) by simp
    then show ?thesis using D(4) [OF that] mono h1(1,6) by auto
  qed
  have ghost: "n \<le> fst y \<and> stands_for h' (ind h' (fst y) (snd y)) (G (slot_of t tr s (C ! fst y) (snd y)))
        \<and> (\<forall>e v c. slot_of t tr s (C ! fst y) (snd y) = FaceSlot e v c \<longrightarrow> face_dof e v c h' \<noteq> - 1)" if y: "y \<in> insert (l, i) Q" for y
  proof (cases "y = (l, i)")
    case True
    then show ?thesis using ind [OF l(2,3)] h1(1,4) h1f(3) l(1) g by simp
  next
    case False
    then have yQ: "y \<in> Q" using y by simp
    then have lt: "fst y < length C" "snd y < n_dofs t s (C ! fst y)" using Q(1) by (auto simp: pairs_ok_def)
    have "ind h' (fst y) (snd y) = ind h (fst y) (snd y)" using ind [OF lt] False by (cases y) auto
    moreover have "face_dof e v c h' \<noteq> - 1" if s: "slot_of t tr s (C ! fst y) (snd y) = FaceSlot e v c" for e v c
    proof -
      have ky: "C ! fst y < bulk_of t" using C lt(1) by simp
      have "FaceSlot e v c \<in> slots t tr s (C ! fst y)" using s slotsI [OF lt(2)] by metis
      then have "v < n_faces t tr e" "c < face_size t tr s e v" using face_slots [OF T S ky] faces_facts(3) [OF T ky] by blast+
      then show ?thesis using h1f(2) D(7) [OF yQ s] h1(1) by simp
    qed
    ultimately show ?thesis using D(5,6) [OF yQ] mono by simp
  qed
  have "dof_frame t tr s C h'" unfolding h1(1) by (rule store_dof_frame [OF h1(2)])
  moreover have "cells_at C h'" using D(2) same_cellsD(4) [OF h1(5)] by (simp add: cells_at_def h1(1))
  moreover have "stands_for h' (face_dof e v c h') (G (FaceSlot e v c))" if "v < n_faces t tr e" "c < face_size t tr s e v" "face_dof e v c h' \<noteq> - 1" for e v c
    using h1f(1) [OF that(1,2)] that(3) unfolding g by (simp add: h1(1))
  ultimately show "msg_inv t tr s C n G W (insert (l, i) Q) h'" using own ghost unfolding msg_inv_def by blast
qed

text \<open>All dofs of the ghost cells of a message.\<close>

lemma update_ghost_fold:
  assumes M: "dm_topo M = t" "dm_tree M = tr" and T: "tree_ok t tr" and S: "space_ok s" and C: "\<forall>k \<in> set C. k < bulk_of t" "n \<le> length C"
    and "msg_inv t tr s C n G W Q h" and "pairs_ok t s C Q" and "pairs_ok t s C (set js)" "\<forall>x \<in> set js. n \<le> fst x"
    and elm: "\<And>h'. same_cells h h' \<Longrightarrow> \<forall>l < length C. elm_idx M h' l = C ! l"
  defines "run \<equiv> foldl (update_ghost_dof M s) h (zip js (map (\<lambda>x. G (slot_of t tr s (C ! fst x) (snd x))) js))"
  shows "msg_inv t tr s C n G W (Q \<union> set js) run \<and> same_cells h run \<and> update_cells run = update_cells h
    \<and> loffset run = loffset h \<and> lsize run = lsize h \<and> n_global_dofs run = n_global_dofs h"
  unfolding run_def using assms(7-11)
proof (induction js arbitrary: h Q)
  case Nil
  then show ?case by (simp add: same_cells_refl)
next
  case (Cons x js)
  obtain l i where x: "x = (l, i)" by (cases x)
  have l: "n \<le> l" "l < length C" "i < n_dofs t s (C ! l)" using Cons.prems(3,4) by (simp_all add: x pairs_ok_def)
  have e: "elm_idx M h l = C ! l" using Cons.prems(5) [OF same_cells_refl] l(2) by simp
  let ?h1 = "update_ghost_dof M s h ((l, i), G (slot_of t tr s (C ! l) i))"
  note U = update_ghost_dof_step [OF M T S C(1) Cons.prems(1) l e Cons.prems(2) C(2)]
  have "pairs_ok t s C (insert (l, i) Q)" "pairs_ok t s C (set js)" "\<forall>x \<in> set js. n \<le> fst x"
    using Cons.prems(2-4) by (auto simp: pairs_ok_def x)
  from Cons.IH [OF U(1) this] have "msg_inv t tr s C n G W (insert (l, i) Q \<union> set js)
      (foldl (update_ghost_dof M s) ?h1 (zip js (map (\<lambda>x. G (slot_of t tr s (C ! fst x) (snd x))) js)))
    \<and> same_cells ?h1 (foldl (update_ghost_dof M s) ?h1 (zip js (map (\<lambda>x. G (slot_of t tr s (C ! fst x) (snd x))) js)))
    \<and> update_cells (foldl (update_ghost_dof M s) ?h1 (zip js (map (\<lambda>x. G (slot_of t tr s (C ! fst x) (snd x))) js))) = update_cells ?h1
    \<and> loffset (foldl (update_ghost_dof M s) ?h1 (zip js (map (\<lambda>x. G (slot_of t tr s (C ! fst x) (snd x))) js))) = loffset ?h1
    \<and> lsize (foldl (update_ghost_dof M s) ?h1 (zip js (map (\<lambda>x. G (slot_of t tr s (C ! fst x) (snd x))) js))) = lsize ?h1
    \<and> n_global_dofs (foldl (update_ghost_dof M s) ?h1 (zip js (map (\<lambda>x. G (slot_of t tr s (C ! fst x) (snd x))) js))) = n_global_dofs ?h1"
    using Cons.prems(5) same_cells_trans [OF U(2)] by blast
  then show ?case using U(2-6) same_cells_trans [OF U(2)] by (simp add: x)
qed

text \<open>The own dofs that wait.\<close>

lemma update_own_dof_step:
  assumes M: "dm_topo M = t" "dm_tree M = tr" and T: "tree_ok t tr" and S: "space_ok s" and C: "\<forall>k \<in> set C. k < bulk_of t" "n \<le> length C"
    and I: "msg_inv t tr s C n G W Q h" and l: "l < n" "i < n_dofs t s (C ! l)" and elm: "elm_idx M h l = C ! l" and Q: "pairs_ok t s C Q"
  defines "h' \<equiv> update_own_dof M s h (l, i)"
  shows "msg_inv t tr s C n G W Q h'" and "same_cells h h'" and "update_cells h' = update_cells h" and "table e h' = table e h"
    and "slot_of t tr s (C ! l) i = FaceSlot e v c \<Longrightarrow> ind h' l i = - 1 \<Longrightarrow> face_dof e v c h' = - 1"
    and "m < n \<Longrightarrow> j < n_dofs t s (C ! m) \<Longrightarrow> (m, j) \<noteq> (l, i) \<Longrightarrow> ind h' m j = ind h m j"
    and "loffset h' = loffset h" and "lsize h' = lsize h" and "n_global_dofs h' = n_global_dofs h"
proof -
  note D = msg_invD [OF I]
  have lC: "l < length C" using l(1) C(2) by simp
  have k: "C ! l < bulk_of t" using C(1) lC by simp
  have "h' = h \<and> (slot_of t tr s (C ! l) i = FaceSlot e v c \<longrightarrow> ind h l i = - 1 \<longrightarrow> face_dof e v c h = - 1)
    \<or> (\<exists>e v c. slot_of t tr s (C ! l) i = FaceSlot e v c \<and> v < n_faces t tr e \<and> c < face_size t tr s e v
         \<and> h' = store_dof l i (face_dof e v c h) h)" for e v c
  proof (cases rule: slot_cases [OF T S k l(2)])
    case (1 e' f)
    let ?v = "faces t tr e' (C ! l) ! f" and ?c = "dof_count (cell_dofs t s (C ! l)) i"
    have "?v \<in> set (faces t tr e' (C ! l))" using 1(2) faces_facts(1) [OF T k] by simp
    note v = faces_facts(3) [OF T k this]
    have "h' = (if ind h l i = - 1 then store_dof l i (face_dof e' ?v ?c h) h else h)"
      using 1(1) by (cases e') (simp_all add: h'_def update_own_dof_def elm M Let_def)
    then show ?thesis using 1(3,5) v by auto
  next
    case 2
    have "h' = h" using 2(1) by (simp add: h'_def update_own_dof_def elm M Let_def)
    then show ?thesis using 2(2) by simp
  qed
  note cases = this
  have ind: "ind (store_dof l i x h) m j = (if m = l \<and> j = i then x else ind h m j)" if "m < length C" "j < n_dofs t s (C ! m)" for m j x
    by (rule store_dof_ind [OF D(1) lC l(2) that])
  consider (same) "h' = h" | (store) x where "h' = store_dof l i x h" using cases [of True 0 0] by blast
  then have fields: "same_cells h h' \<and> update_cells h' = update_cells h \<and> (\<forall>e. table e h' = table e h)
      \<and> loffset h' = loffset h \<and> lsize h' = lsize h \<and> n_global_dofs h' = n_global_dofs h"
    by cases (simp_all add: same_cells_def)
  then show sc: "same_cells h h'" and up: "update_cells h' = update_cells h" and tab: "table e h' = table e h"
    and "loffset h' = loffset h" "lsize h' = lsize h" "n_global_dofs h' = n_global_dofs h" for e
    by blast+
  show "slot_of t tr s (C ! l) i = FaceSlot e v c \<Longrightarrow> ind h' l i = - 1 \<Longrightarrow> face_dof e v c h' = - 1"
    using cases [of e v c] ind [OF lC l(2)] by auto
  show other: "ind h' m j = ind h m j" if "m < n" "j < n_dofs t s (C ! m)" "(m, j) \<noteq> (l, i)"
    using cases [of True 0 0] ind [of m j] that C(2) by auto
  show "msg_inv t tr s C n G W Q h'"
  proof (cases "h' = h")
    case True
    then show ?thesis using I by simp
  next
    case False
    then obtain e v c where h': "slot_of t tr s (C ! l) i = FaceSlot e v c" "v < n_faces t tr e" "c < face_size t tr s e v"
      "h' = store_dof l i (face_dof e v c h) h" using cases [of True 0 0] by blast
    have g: "stands_for h' a b \<longleftrightarrow> stands_for h a b" for a b by (simp add: stands_for_def h'(4))
    have upd: "ind h l i = - 1"
    proof (rule ccontr)
      assume n1: "ind h l i \<noteq> - 1"
      have "h' = h" using n1 by (simp add: h'_def update_own_dof_def Let_def)
      then show False using False by simp
    qed
    then have flag: "update_cells h ! l" "slot_of t tr s (C ! l) i \<in> W" using D(4) [OF l] by (auto simp: stands_for_def)
    have own: "stands_for h' (ind h' m j) (G (slot_of t tr s (C ! m) j))
        \<or> ind h' m j = - 1 \<and> update_cells h' ! m \<and> (\<exists>e v c. slot_of t tr s (C ! m) j = FaceSlot e v c) \<and> slot_of t tr s (C ! m) j \<in> W" if m: "m < n" "j < n_dofs t s (C ! m)" for m j
    proof (cases "(m, j) = (l, i)")
      case True
      have "ind h' l i = face_dof e v c h" using ind [OF lC l(2)] h'(4) by simp
      then show ?thesis using True D(3) [OF h'(2,3)] h'(1) flag g up by auto
    next
      case False
      have "ind h' m j = ind h m j" using ind [of m j] m C(2) False h'(4) by auto
      then show ?thesis using D(4) [OF m] g up by simp
    qed
    have ghost: "ind h' (fst y) (snd y) = ind h (fst y) (snd y)" if "y \<in> Q" for y
      using ind [of "fst y" "snd y"] D(5) [OF that] Q that l(1) h'(4) by (auto simp: pairs_ok_def)
    have "dof_frame t tr s C h'" unfolding h'(4) by (rule store_dof_frame [OF D(1)])
    moreover have "cells_at C h'" using D(2) by (simp add: cells_at_def h'(4))
    moreover have "\<forall>y \<in> Q. n \<le> fst y \<and> stands_for h' (ind h' (fst y) (snd y)) (G (slot_of t tr s (C ! fst y) (snd y)))
        \<and> (\<forall>e v c. slot_of t tr s (C ! fst y) (snd y) = FaceSlot e v c \<longrightarrow> face_dof e v c h' \<noteq> - 1)"
      using D(5-7) ghost g by (simp add: tab)
    moreover have "\<forall>e v c. v < n_faces t tr e \<longrightarrow> c < face_size t tr s e v \<longrightarrow> face_dof e v c h' \<noteq> - 1 \<longrightarrow> stands_for h' (face_dof e v c h') (G (FaceSlot e v c))"
      using D(3) g by (simp add: tab)
    ultimately show ?thesis using own unfolding msg_inv_def by blast
  qed
qed

lemma update_own_fold:
  assumes M: "dm_topo M = t" "dm_tree M = tr" and T: "tree_ok t tr" and S: "space_ok s" and C: "\<forall>k \<in> set C. k < bulk_of t" "n \<le> length C"
    and Q: "pairs_ok t s C Q" and "msg_inv t tr s C n G W Q h" and "\<forall>x \<in> set js. fst x < n \<and> snd x < n_dofs t s (C ! fst x)"
    and elm: "\<And>h'. same_cells h h' \<Longrightarrow> \<forall>l < length C. elm_idx M h' l = C ! l"
  defines "run \<equiv> foldl (update_own_dof M s) h js"
  shows "msg_inv t tr s C n G W Q run \<and> same_cells h run \<and> update_cells run = update_cells h \<and> (\<forall>e. table e run = table e h)
    \<and> loffset run = loffset h \<and> lsize run = lsize h \<and> n_global_dofs run = n_global_dofs h
    \<and> (\<forall>x \<in> set js. \<forall>e v c. slot_of t tr s (C ! fst x) (snd x) = FaceSlot e v c \<longrightarrow> ind run (fst x) (snd x) = - 1 \<longrightarrow> face_dof e v c h = - 1)
    \<and> (\<forall>m < n. \<forall>j < n_dofs t s (C ! m). (m, j) \<notin> set js \<longrightarrow> ind run m j = ind h m j)"
  unfolding run_def using assms(8-10)
proof (induction js arbitrary: h rule: rev_induct)
  case Nil
  then show ?case by (simp add: same_cells_refl)
next
  case (snoc x js)
  obtain l i where x: "x = (l, i)" by (cases x)
  let ?h1 = "foldl (update_own_dof M s) h js"
  have l: "l < n" "i < n_dofs t s (C ! l)" using snoc.prems(2) by (simp_all add: x)
  have IH: "msg_inv t tr s C n G W Q ?h1" "same_cells h ?h1" "update_cells ?h1 = update_cells h" "\<And>e. table e ?h1 = table e h"
    "loffset ?h1 = loffset h" "lsize ?h1 = lsize h" "n_global_dofs ?h1 = n_global_dofs h"
    "\<And>y e v c. y \<in> set js \<Longrightarrow> slot_of t tr s (C ! fst y) (snd y) = FaceSlot e v c \<Longrightarrow> ind ?h1 (fst y) (snd y) = - 1 \<Longrightarrow> face_dof e v c h = - 1"
    "\<And>m j. m < n \<Longrightarrow> j < n_dofs t s (C ! m) \<Longrightarrow> (m, j) \<notin> set js \<Longrightarrow> ind ?h1 m j = ind h m j"
    using snoc.IH [OF snoc.prems(1) _ snoc.prems(3)] snoc.prems(2) by auto
  have e: "elm_idx M ?h1 l = C ! l" using snoc.prems(3) [OF IH(2)] l(1) C(2) by simp
  note U = update_own_dof_step [OF M T S C IH(1) l e Q]
  let ?h2 = "update_own_dof M s ?h1 (l, i)"
  have run: "foldl (update_own_dof M s) h (js @ [x]) = ?h2" by (simp add: x)
  have waiting: "face_dof e v c h = - 1"
    if y: "y \<in> set (js @ [x])" "slot_of t tr s (C ! fst y) (snd y) = FaceSlot e v c" "ind ?h2 (fst y) (snd y) = - 1" for y e v c
  proof (cases "y = x")
    case True
    then show ?thesis using U(5) [of e v c] y(2,3) U(4) [of e] IH(4) [of e] by (simp add: x)
  next
    case False
    then have "y \<in> set js" using y(1) by simp
    moreover have "fst y < n" "snd y < n_dofs t s (C ! fst y)" using snoc.prems(2) y(1) by auto
    ultimately show ?thesis using IH(8) [OF _ y(2)] U(6) [of "fst y" "snd y"] False y(3) by (simp add: x prod_eq_iff)
  qed
  show ?case unfolding run using U(1-4,6-9) IH waiting same_cells_trans [OF IH(2) U(2)] by (auto simp: x)
qed

section \<open>Rounds\<close>

lemma fold_res_append_list:
  "\<forall>j \<in> set js. f j = Inr (g j) \<Longrightarrow> fold_res (\<lambda>xs j. bind_res (f j) (\<lambda>x. Inr (xs @ [x]))) xs js = Inr (xs @ map g js)"
  by (induction js arbitrary: xs) simp_all

lemma fold_res_append_lists:
  "\<forall>k \<in> set ks. \<forall>xs. f xs k = Inr (xs @ g k) \<Longrightarrow> fold_res f xs ks = Inr (xs @ concat (map g ks))"
  by (induction ks arbitrary: xs) simp_all

text \<open>What a processor sends when its own dofs are known.\<close>

lemma send_ghost_dofs_ok:
  assumes f: "dof_frame t tr s C g" "cells_at C g" and o: "own_good t tr s C n G g" "n \<le> length C"
    and ks: "\<forall>k \<in> set ks. \<exists>l < n. C ! l = k"
  shows "send_ghost_dofs g ks = Inr (concat (map (\<lambda>k. map (\<lambda>i. G (slot_of t tr s k i)) [0..<n_dofs t s k]) ks))"
proof -
  note D = dof_frameD [OF f(1)]
  have "send_element g xs k = Inr (xs @ map (\<lambda>i. G (slot_of t tr s k i)) [0..<n_dofs t s k])" if k: "k \<in> set ks" for xs k
  proof -
    obtain l where l: "l < n" "C ! l = k" using ks k by blast
    have lC: "l < length C" using l(1) o(2) by simp
    have g2l: "global_to_local_el_idx g k = Some l" using f(2) lC l(2) by (auto simp: cells_at_def)
    have range: "cell_starts g ! (l + 1) = cell_starts g ! l + n_dofs t s k"
      using running_step [of l "map (n_dofs t s) C" 0] lC l(2) D(1) by simp
    have "\<forall>j \<in> set [cell_starts g ! l..<cell_starts g ! (l + 1)]. global_dof l j g = Inr (G (slot_of t tr s k (j - cell_starts g ! l)))"
    proof
      fix j assume "j \<in> set [cell_starts g ! l..<cell_starts g ! (l + 1)]"
      then have j: "cell_starts g ! l \<le> j" "j - cell_starts g ! l < n_dofs t s (C ! l)" using range l(2) by auto
      have "stands_for g (ind g l (j - cell_starts g ! l)) (G (slot_of t tr s k (j - cell_starts g ! l)))"
        using o(1) l j(2) by (auto simp: own_good_def)
      then show "global_dof l j g = Inr (G (slot_of t tr s k (j - cell_starts g ! l)))"
        using j(1) by (simp add: global_dof_def stands_for_def Let_def)
    qed
    note r = fold_res_append_list [OF this, of xs]
    have "map (\<lambda>j. G (slot_of t tr s k (j - cell_starts g ! l))) [cell_starts g ! l..<cell_starts g ! (l + 1)] =
        map (\<lambda>i. G (slot_of t tr s k i)) [0..<n_dofs t s k]"
      unfolding range by (rule nth_equalityI) simp_all
    then show ?thesis using r g2l by (simp add: send_element_def)
  qed
  then show ?thesis unfolding send_ghost_dofs_def by (subst fold_res_append_lists) auto
qed

lemma dofs_of_cells_slots:
  assumes "dm_topo M = t" and "\<forall>l \<in> set ls. elm_idx M h l = C ! l"
  shows "map (\<lambda>x. F (C ! fst x) (snd x)) (dofs_of_cells M s h ls) = concat (map (\<lambda>k. map (F k) [0..<n_dofs t s k]) (map ((!) C) ls))"
  using assms by (induction ls) (simp_all add: dofs_of_cells_def)

text \<open>The message of one processor.\<close>

lemma receive_from_ok:
  assumes V: "view_ok t tr pr p M" and T: "tree_ok t tr" and S: "space_ok s" and N: "neighbours_ok t" and q: "q \<noteq> p"
    and cells: "same_cells (make_elem_partitioning M) h" "length (update_cells h) = own_size M"
  defines "C \<equiv> local_cells M" and "n \<equiv> own_size M"
  assumes I: "msg_inv t tr s C n G W Q h" "all_updated t tr s C n h" and Q: "pairs_ok t s C Q"
    and sender: "send_ghost_dofs (senders q) (ghost_proc_el h q) =
      Inr (concat (map (\<lambda>k. map (\<lambda>i. G (slot_of t tr s k i)) [0..<n_dofs t s k]) (ghost_proc_el h q)))"
  shows "\<exists>h'. receive_from M s senders h q = Inr h' \<and> same_cells h h' \<and> length (update_cells h') = own_size M
    \<and> loffset h' = loffset h \<and> lsize h' = lsize h \<and> n_global_dofs h' = n_global_dofs h
    \<and> msg_inv t tr s C n G W (Q \<union> {(l, i). n \<le> l \<and> l < length C \<and> pr (C ! l) = q \<and> i < n_dofs t s (C ! l)}) h' \<and> all_updated t tr s C n h'"
proof -
  note D = view_okD [OF V] and L = local_cells_facts [OF V T N] and P = make_elem_partitioning_ok(1) [OF V T N]
  let ?H = "make_elem_partitioning M" and ?ks = "ghost_proc_el h q"
  have Hg: "ghost_4_loc h = ghost_4_loc ?H" "ghost_proc_el h = ghost_proc_el ?H" using cells(1) by (simp_all add: same_cells_def)
  have C_eq: "C = own_cells M @ ghost_4_loc h" by (simp add: C_def local_cells_def Hg)
  have Cb: "\<forall>k \<in> set C. k < bulk_of t" "n \<le> length C" using L(2,3) by (simp_all add: C_def n_def)
  have elm: "\<forall>l < length C. elm_idx M h' l = C ! l" if "same_cells h h'" for h'
    using elm_idx_nth [OF D(4), of _ h'] that C_eq D(4) by (simp add: same_cells_def)
  have ks: "?ks = filter (\<lambda>k. pr k = q) (ghost_4_loc h)" using P Hg by (simp add: ghosts_ok_def)
  have at: "\<And>l. l < length C \<Longrightarrow> global_to_local_el_idx h (C ! l) = Some l" using msg_invD(2) [OF I(1)] by (simp add: cells_at_def)
  define loc where "loc = (\<lambda>k. the (global_to_local_el_idx h k))"
  have ghost: "\<exists>l. n \<le> l \<and> l < length C \<and> C ! l = k" if k: "k \<in> set (ghost_4_loc h)" for k
  proof -
    obtain j where "j < length (ghost_4_loc h)" "ghost_4_loc h ! j = k" using k unfolding in_set_conv_nth by blast
    then show ?thesis using D(4) by (intro exI [of _ "n + j"]) (simp add: C_eq n_def nth_append)
  qed
  have loc_k: "global_to_local_el_idx h k = Some (loc k) \<and> n \<le> loc k \<and> loc k < length C \<and> C ! loc k = k" if "k \<in> set ?ks" for k
    using ghost [of k] that at by (auto simp: ks loc_def)
  let ?ls = "map loc ?ks"
  have ls_run: "fold_res (\<lambda>ls k. bind_res (local_cell h k) (\<lambda>l. Inr (ls @ [l]))) [] ?ks = Inr ?ls"
    using fold_res_append_list [of ?ks "local_cell h" loc "[]"] loc_k by (simp add: local_cell_def)
  have ls_set: "set ?ls = {l. n \<le> l \<and> l < length C \<and> pr (C ! l) = q}"
  proof (intro set_eqI iffI)
    fix l assume "l \<in> set ?ls"
    then obtain k where "k \<in> set ?ks" "l = loc k" by auto
    then show "l \<in> {l. n \<le> l \<and> l < length C \<and> pr (C ! l) = q}" using loc_k [of k] by (auto simp: ks)
  next
    fix l assume l: "l \<in> {l. n \<le> l \<and> l < length C \<and> pr (C ! l) = q}"
    then have "l - n < length (ghost_4_loc h)" "C ! l = ghost_4_loc h ! (l - n)" using D(4) by (auto simp: C_eq n_def nth_append)
    then have "C ! l \<in> set ?ks" using l by (simp add: ks)
    moreover have "loc (C ! l) = l" using at l by (simp add: loc_def)
    ultimately show "l \<in> set ?ls" by force
  qed
  let ?js = "dofs_of_cells M s h ?ls"
  have el: "\<forall>l \<in> set ?ls. elm_idx M h l = C ! l" using elm [OF same_cells_refl] ls_set by simp
  have js: "set ?js = {(l, i). n \<le> l \<and> l < length C \<and> pr (C ! l) = q \<and> i < n_dofs t s (C ! l)}"
    unfolding dofs_of_cells_set(1) [OF D(1) el] ls_set by auto
  let ?xs = "map (\<lambda>x. G (slot_of t tr s (C ! fst x) (snd x))) ?js"
  have xs: "concat (map (\<lambda>k. map (\<lambda>i. G (slot_of t tr s k i)) [0..<n_dofs t s k]) ?ks) = ?xs"
  proof -
    have "map ((!) C) ?ls = ?ks" using loc_k by (simp add: map_idI)
    then show ?thesis using dofs_of_cells_slots [OF D(1) el, of "\<lambda>k i. G (slot_of t tr s k i)" s] by simp
  qed
  let ?h1 = "foldl (update_ghost_dof M s) h (zip ?js ?xs)"
  have U: "msg_inv t tr s C n G W (Q \<union> set ?js) ?h1 \<and> same_cells h ?h1 \<and> update_cells ?h1 = update_cells h
      \<and> loffset ?h1 = loffset h \<and> lsize ?h1 = lsize h \<and> n_global_dofs ?h1 = n_global_dofs h"
    by (rule update_ghost_fold [OF D(1,2) T S Cb I(1) Q]) (use js elm in \<open>auto simp: pairs_ok_def\<close>)
  then have U: "msg_inv t tr s C n G W (Q \<union> set ?js) ?h1" "same_cells h ?h1" "update_cells ?h1 = update_cells h"
    "loffset ?h1 = loffset h" "lsize ?h1 = lsize h" "n_global_dofs ?h1 = n_global_dofs h" by simp_all
  have Q1: "pairs_ok t s C (Q \<union> set ?js)" using Q js by (auto simp: pairs_ok_def)
  let ?ms = "filter (\<lambda>l. update_cells ?h1 ! l) [0..<own_size M]"
  let ?js2 = "dofs_of_cells M s ?h1 ?ms"
  have el2: "\<forall>l \<in> set ?ms. elm_idx M ?h1 l = C ! l" using elm [OF U(2)] Cb(2) by (simp add: n_def)
  have js2: "set ?js2 = {(l, i). l < n \<and> update_cells ?h1 ! l \<and> i < n_dofs t s (C ! l)}"
    unfolding dofs_of_cells_set(1) [OF D(1) el2] by (auto simp: n_def)
  let ?h2 = "foldl (update_own_dof M s) ?h1 ?js2"
  have F: "msg_inv t tr s C n G W (Q \<union> set ?js) ?h2 \<and> same_cells ?h1 ?h2 \<and> update_cells ?h2 = update_cells ?h1 \<and> (\<forall>e. table e ?h2 = table e ?h1)
    \<and> loffset ?h2 = loffset ?h1 \<and> lsize ?h2 = lsize ?h1 \<and> n_global_dofs ?h2 = n_global_dofs ?h1
    \<and> (\<forall>x \<in> set ?js2. \<forall>e v c. slot_of t tr s (C ! fst x) (snd x) = FaceSlot e v c \<longrightarrow> ind ?h2 (fst x) (snd x) = - 1 \<longrightarrow> face_dof e v c ?h1 = - 1)
    \<and> (\<forall>m < n. \<forall>j < n_dofs t s (C ! m). (m, j) \<notin> set ?js2 \<longrightarrow> ind ?h2 m j = ind ?h1 m j)"
    by (rule update_own_fold [OF D(1,2) T S Cb Q1 U(1)]) (use js2 elm same_cells_trans [OF U(2)] in auto)
  then have F: "msg_inv t tr s C n G W (Q \<union> set ?js) ?h2" "same_cells ?h1 ?h2" "update_cells ?h2 = update_cells ?h1" "\<And>e. table e ?h2 = table e ?h1"
    "loffset ?h2 = loffset ?h1" "lsize ?h2 = lsize ?h1" "n_global_dofs ?h2 = n_global_dofs ?h1"
    "\<And>x e v c. x \<in> set ?js2 \<Longrightarrow> slot_of t tr s (C ! fst x) (snd x) = FaceSlot e v c \<Longrightarrow> ind ?h2 (fst x) (snd x) = - 1 \<Longrightarrow> face_dof e v c ?h1 = - 1"
    by blast+
  have upd: "all_updated t tr s C n ?h2"
    unfolding all_updated_def
  proof (intro allI impI)
    fix l i e v c assume l: "l < n" "i < n_dofs t s (C ! l)" and m: "ind ?h2 l i = - 1" and x: "slot_of t tr s (C ! l) i = FaceSlot e v c"
    have "update_cells ?h2 ! l" using msg_invD(4) [OF F(1) l] m by (auto simp: stands_for_def)
    then have "(l, i) \<in> set ?js2" using l F(3) by (simp add: js2)
    then have "face_dof e v c ?h1 = - 1" using F(8) [of "(l, i)" e v c] x m by simp
    then show "face_dof e v c ?h2 = - 1" using F(4) by simp
  qed
  have "receive_from M s senders h q = Inr ?h2"
    unfolding receive_from_def sender bind_res_simps xs update_local_dofs_def ls_run Let_def by simp
  then show ?thesis using U F upd same_cells_trans [OF U(2) F(2)] cells(2) js by auto
qed


section \<open>The numbering\<close>

text \<open>Every processor after its own cells, and where its numbers begin.\<close>

definition own_run :: "(nat \<Rightarrow> dof_mesh) \<Rightarrow> equal_order_space \<Rightarrow> nat \<Rightarrow> dof_handler" where
  "own_run Ms s p = (case distribute_own (Ms p) s (make_elem_partitioning (Ms p)) of Inr h \<Rightarrow> h | Inl _ \<Rightarrow> new_handler)"

definition first_dof :: "(nat \<Rightarrow> dof_mesh) \<Rightarrow> equal_order_space \<Rightarrow> nat \<Rightarrow> nat" where
  "first_dof Ms s p = (\<Sum>q < p. lsize (own_run Ms s q))"

definition own_slots :: "topology \<Rightarrow> dup_nodes \<Rightarrow> equal_order_space \<Rightarrow> (nat \<Rightarrow> nat) \<Rightarrow> nat \<Rightarrow> slot set" where
  "own_slots t tr s pr p = {x. \<exists>k < bulk_of t. pr k = p \<and> x \<in> slots t tr s k \<and> slot_owner t tr s pr x = p}"

definition all_slots :: "topology \<Rightarrow> dup_nodes \<Rightarrow> equal_order_space \<Rightarrow> slot set" where
  "all_slots t tr s = (\<Union>k < bulk_of t. slots t tr s k)"

definition dof_number :: "(nat \<Rightarrow> dof_mesh) \<Rightarrow> topology \<Rightarrow> dup_nodes \<Rightarrow> equal_order_space \<Rightarrow> (nat \<Rightarrow> nat) \<Rightarrow> slot \<Rightarrow> int" where
  "dof_number Ms t tr s pr x = (let p = slot_owner t tr s pr x in int (first_dof Ms s p) + num (own_run Ms s p) x)"

lemma own_run_facts:
  assumes K: "machine_ok t tr s pr np Ms" and p: "p < np"
  shows "distribute_own (Ms p) s (make_elem_partitioning (Ms p)) = Inr (own_run Ms s p)"
    and "own_inv t tr s (local_cells (Ms p)) (owns t tr pr p) (own_pairs t s (Ms p) (local_cells (Ms p))) (own_run Ms s p)"
    and "same_cells (make_elem_partitioning (Ms p)) (own_run Ms s p)" and "length (update_cells (own_run Ms s p)) = own_size (Ms p)"
    and "lsize (own_run Ms s p) = next_free_dof (own_run Ms s p)"
    and "bij_betw (num (own_run Ms s p)) (own_slots t tr s pr p) (int ` {..<lsize (own_run Ms s p)})"
proof -
  note D = machine_okD [OF K]
  note V = D(5) [OF p]
  obtain h where h: "distribute_own (Ms p) s (make_elem_partitioning (Ms p)) = Inr h"
    "own_inv t tr s (local_cells (Ms p)) (owns t tr pr p) (own_pairs t s (Ms p) (local_cells (Ms p))) h"
    "same_cells (make_elem_partitioning (Ms p)) h" "length (update_cells h) = own_size (Ms p)" "lsize h = next_free_dof h"
    using distribute_own_spec [OF V D(1,2) make_elem_partitioning_ok(1) [OF V D(1,3)] local_cells_facts(6) [OF V D(1,3)] local_cells_def]
    by blast
  have r: "own_run Ms s p = h" by (simp add: own_run_def h(1))
  show "distribute_own (Ms p) s (make_elem_partitioning (Ms p)) = Inr (own_run Ms s p)"
    "own_inv t tr s (local_cells (Ms p)) (owns t tr pr p) (own_pairs t s (Ms p) (local_cells (Ms p))) (own_run Ms s p)"
    "same_cells (make_elem_partitioning (Ms p)) (own_run Ms s p)" "length (update_cells (own_run Ms s p)) = own_size (Ms p)"
    "lsize (own_run Ms s p) = next_free_dof (own_run Ms s p)"
    unfolding r using h by simp_all
  show "bij_betw (num (own_run Ms s p)) (own_slots t tr s pr p) (int ` {..<lsize (own_run Ms s p)})"
    unfolding r h(5) own_slots_def using own_invD(5) [OF h(2)] unfolding assigned_own [OF V D(1,2,3)] .
qed

lemma all_slots_split:
  assumes "\<forall>k < bulk_of t. pr k < np"
  shows "all_slots t tr s = (\<Union>p < np. own_slots t tr s pr p)"
proof (intro set_eqI iffI)
  fix x assume "x \<in> all_slots t tr s"
  then obtain k where "k < bulk_of t" "x \<in> slots t tr s k" by (auto simp: all_slots_def)
  from slot_owner_facts(2) [OF this] obtain j where "j < bulk_of t" "x \<in> slots t tr s j" "pr j = slot_owner t tr s pr x" by blast
  then show "x \<in> (\<Union>p < np. own_slots t tr s pr p)" using assms by (intro UN_I [of "pr j"]) (auto simp: own_slots_def)
qed (auto simp: own_slots_def all_slots_def)

text \<open>The dofs are numbered through, processor by processor.\<close>

lemma dof_number_own_bij:
  assumes K: "machine_ok t tr s pr np Ms" and n: "n < np"
  shows "bij_betw (dof_number Ms t tr s pr) (own_slots t tr s pr n) (int ` {first_dof Ms s n..<first_dof Ms s (Suc n)})"
proof -
  let ?h = "own_run Ms s n"
  have b: "bij_betw (num ?h) (own_slots t tr s pr n) (int ` {..<lsize ?h})" by (rule own_run_facts(6) [OF K n])
  have "bij_betw (\<lambda>y. int (first_dof Ms s n) + y) (int ` {..<lsize ?h}) (int ` {first_dof Ms s n..<first_dof Ms s (Suc n)})"
  proof -
    have "(\<lambda>y. int (first_dof Ms s n) + y) ` (int ` {..<lsize ?h}) = int ` ((\<lambda>x. first_dof Ms s n + x) ` {0..<lsize ?h})"
      unfolding image_image by (simp add: lessThan_atLeast0)
    also have "(\<lambda>x. first_dof Ms s n + x) ` {0..<lsize ?h} = {first_dof Ms s n..<first_dof Ms s (Suc n)}"
      by (subst image_add_atLeastLessThan) (simp add: first_dof_def add.commute)
    finally show ?thesis by (simp add: bij_betw_def inj_on_def)
  qed
  from bij_betw_trans [OF b this] show ?thesis
    by (rule bij_betw_cong [THEN iffD1, rotated]) (auto simp: own_slots_def dof_number_def Let_def)
qed

lemma dof_number_prefix:
  assumes K: "machine_ok t tr s pr np Ms"
  shows "n \<le> np \<Longrightarrow> bij_betw (dof_number Ms t tr s pr) (\<Union>p < n. own_slots t tr s pr p) (int ` {..<first_dof Ms s n})"
proof (induction n)
  case 0
  then show ?case by (simp add: first_dof_def bij_betw_def)
next
  case (Suc n)
  have "bij_betw (dof_number Ms t tr s pr) (own_slots t tr s pr n) (int ` {first_dof Ms s n..<first_dof Ms s (Suc n)})"
    by (rule dof_number_own_bij [OF K]) (use Suc.prems in simp)
  from bij_extend [OF Suc.IH refl this] Suc.prems show ?case by (simp add: lessThan_Suc Un_commute first_dof_def)
qed

lemma dof_number_bij:
  assumes "machine_ok t tr s pr np Ms"
  shows "bij_betw (dof_number Ms t tr s pr) (all_slots t tr s) (int ` {..<first_dof Ms s np})"
  using dof_number_prefix [OF assms order_refl] all_slots_split [of t pr np] machine_okD(4) [OF assms] by simp

lemma first_dof_bound:
  assumes K: "machine_ok t tr s pr np Ms" and "p \<le> np"
  shows "first_dof Ms s p < 2 ^ 31"
proof -
  have "first_dof Ms s p \<le> first_dof Ms s np" unfolding first_dof_def using assms(2) by (intro sum_mono2) auto
  also have "first_dof Ms s np = card (all_slots t tr s)"
    using bij_betw_same_card [OF dof_number_bij [OF K]] by (simp add: card_image)
  also have "\<dots> \<le> (\<Sum>k < bulk_of t. card (slots t tr s k))" unfolding all_slots_def by (rule card_UN_le) simp
  also have "\<dots> \<le> (\<Sum>k < bulk_of t. n_dofs t s k)"
    by (intro sum_mono) (simp add: slots_def card_image_le [THEN le_trans])
  finally show ?thesis using machine_okD(6) [OF K] by simp
qed


lemma dof_number_own:
  assumes K: "machine_ok t tr s pr np Ms" and p: "p < np"
  shows "dof_number Ms t tr s pr ` own_slots t tr s pr p = int ` {first_dof Ms s p..<first_dof Ms s p + lsize (own_run Ms s p)}"
  using dof_number_own_bij [OF K p] by (simp add: bij_betw_def first_dof_def add.commute)

text \<open>The state of a processor before the first message.\<close>

definition shifted :: "(nat \<Rightarrow> dof_mesh) \<Rightarrow> equal_order_space \<Rightarrow> nat \<Rightarrow> nat \<Rightarrow> dof_handler" where
  "shifted Ms s np p = shift_dofs (map lsize (map (own_run Ms s) [0..<np])) p (own_run Ms s p)"

lemma shifted_facts:
  assumes K: "machine_ok t tr s pr np Ms" and p: "p < np"
  shows "n_global_dofs (shifted Ms s np p) = first_dof Ms s np" and "loffset (shifted Ms s np p) = first_dof Ms s p"
    and "local_to_global_dof_idx (shifted Ms s np p) = map int [first_dof Ms s p..<first_dof Ms s p + lsize (own_run Ms s p)]"
    and "lsize (shifted Ms s np p) = lsize (own_run Ms s p)" and "same_cells (own_run Ms s p) (shifted Ms s np p)"
    and "table e (shifted Ms s np p) = table e (own_run Ms s p)" and "dof_indices (shifted Ms s np p) = dof_indices (own_run Ms s p)"
    and "cell_starts (shifted Ms s np p) = cell_starts (own_run Ms s p)" and "update_cells (shifted Ms s np p) = update_cells (own_run Ms s p)"
proof -
  let ?sizes = "map (\<lambda>q. lsize (own_run Ms s q)) [0..<np]"
  let ?d = "distribution_from_sizes p (map of_nat ?sizes)"
  have off: "unat (starts ?d ! q) = first_dof Ms s q" if q: "q \<le> np" for q
  proof -
    have "sum_list (take q (map of_nat ?sizes)) = (of_nat (first_dof Ms s q) :: u32)"
      using q by (simp add: take_map first_dof_def sum_list_distinct_conv_sum_set sum.distinct_set_conv_list flip: lessThan_atLeast0)
    then have "starts ?d ! q = of_nat (first_dof Ms s q)" using q by (simp add: distribution_from_sizes_def scan_sizes_nth)
    then show ?thesis using first_dof_bound [OF K q] by (simp add: unat_of_nat take_bit_nat_eq_self)
  qed
  have "unat (dist_size ?d) = first_dof Ms s np" "unat (begin_of ?d p) = first_dof Ms s p"
    using off p by (simp_all add: dist_size_def begin_of_def distribution_from_sizes_def)
  then have run: "shifted Ms s np p = (own_run Ms s p)\<lparr>n_global_dofs := first_dof Ms s np, loffset := first_dof Ms s p,
      local_to_global_dof_idx := (if first_dof Ms s p > 0 then map (\<lambda>x. x + int (first_dof Ms s p)) (local_to_global_dof_idx (own_run Ms s p))
        else local_to_global_dof_idx (own_run Ms s p))\<rparr>"
    by (simp add: shifted_def shift_dofs_def Let_def comp_def)
  show "n_global_dofs (shifted Ms s np p) = first_dof Ms s np" "loffset (shifted Ms s np p) = first_dof Ms s p" by (simp_all add: run)
  have "local_to_global_dof_idx (own_run Ms s p) = map int [0..<lsize (own_run Ms s p)]"
    using own_invD(6) [OF own_run_facts(2) [OF K p]] own_run_facts(5) [OF K p] by simp
  then show "local_to_global_dof_idx (shifted Ms s np p) = map int [first_dof Ms s p..<first_dof Ms s p + lsize (own_run Ms s p)]"
    unfolding run by (intro nth_equalityI) auto
qed (simp_all add: shifted_def shift_dofs_def Let_def same_cells_def)


lemma own_number_known:
  assumes K: "machine_ok t tr s pr np Ms" and p: "p < np" and x: "x \<in> own_slots t tr s pr p"
  shows "stands_for (shifted Ms s np p) (num (own_run Ms s p) x) (dof_number Ms t tr s pr x)"
proof -
  have "num (own_run Ms s p) x \<in> int ` {..<lsize (own_run Ms s p)}" using own_run_facts(6) [OF K p] x by (metis bij_betwE)
  moreover have "slot_owner t tr s pr x = p" using x by (auto simp: own_slots_def)
  ultimately show ?thesis using shifted_facts(3) [OF K p] by (auto simp: stands_for_def dof_number_def Let_def)
qed

text \<open>Every local dof is known or belongs to a lower processor.\<close>

lemma shifted_inv:
  assumes K: "machine_ok t tr s pr np Ms" and p: "p < np"
  defines "C \<equiv> local_cells (Ms p)" and "n \<equiv> own_size (Ms p)" and "h \<equiv> shifted Ms s np p"
  shows "msg_inv t tr s C n (dof_number Ms t tr s pr) {x. slot_owner t tr s pr x < p} {} h" and "all_updated t tr s C n h"
proof -
  let ?r = "own_run Ms s p" and ?G = "dof_number Ms t tr s pr"
  note D = machine_okD [OF K] and F = shifted_facts [OF K p, folded h_def]
  note V = D(5) [OF p] and I = own_invD [OF own_run_facts(2) [OF K p], folded C_def]
  note L = local_cells_facts [OF V D(1,3), folded C_def n_def]
  have A: "assigned_slots t tr s C (owns t tr pr p) (own_pairs t s (Ms p) C) = own_slots t tr s pr p"
    using assigned_own [OF V D(1,2,3)] by (simp add: C_def own_slots_def)
  have status: "FaceSlot e v c \<in> own_slots t tr s pr p"
    if "v < n_faces t tr e" "c < face_size t tr s e v" "face_dof e v c ?r \<noteq> - 1" for e v c
  proof -
    have "face_status (table e ?r) ! v = Assigned_NFace" using I(4) [OF that(1,2)] that(3) by blast
    then have "owns t tr pr p e v \<and> visited t tr s C (own_pairs t s (Ms p) C) e v" using I(3) [OF that(1)] by (auto split: if_splits)
    then show ?thesis unfolding A [symmetric] using that(1,2) by (simp add: assigned_slots_def)
  qed
  have frame: "dof_frame t tr s C h" using I(1) by (simp add: dof_frame_def F(6-8))
  have at: "cells_at C h" using I(2) same_cellsD(4) [OF F(5)] by (simp add: cells_at_def)
  have pair: "ind h l i = num ?r (slot_of t tr s (C ! l) i)" "ind h l i = - 1 \<Longrightarrow> update_cells h ! l" if "l < n" "i < n_dofs t s (C ! l)" for l i
    using I(7,8) [of "(l, i)"] that by (simp_all add: n_def F(7-9))
  have own: "stands_for h (ind h l i) (?G (slot_of t tr s (C ! l) i)) \<or> ind h l i = - 1 \<and> update_cells h ! l
      \<and> (\<exists>e v c. slot_of t tr s (C ! l) i = FaceSlot e v c) \<and> slot_of t tr s (C ! l) i \<in> {x. slot_owner t tr s pr x < p}"
    if l: "l < n" "i < n_dofs t s (C ! l)" for l i
  proof -
    let ?x = "slot_of t tr s (C ! l) i"
    have k: "C ! l < bulk_of t" "pr (C ! l) = p" using L(4) [OF l(1)] by simp_all
    have x: "?x \<in> slots t tr s (C ! l)" by (rule slotsI [OF l(2)])
    show ?thesis
    proof (cases "slot_owner t tr s pr ?x = p")
      case True
      then have "?x \<in> own_slots t tr s pr p" using k x by (auto simp: own_slots_def)
      then show ?thesis using own_number_known [OF K p] pair(1) [OF l] by (simp add: h_def)
    next
      case False
      then have low: "slot_owner t tr s pr ?x < p" using slot_owner_facts(1) [OF k(1) x, of pr] k(2) by simp
      show ?thesis
      proof (cases ?x)
        case (CellSlot j i')
        obtain m where m: "m < bulk_of t" "?x \<in> slots t tr s m" "pr m = slot_owner t tr s pr ?x"
          using slot_owner_facts(2) [OF k(1) x] by blast
        have "j = m" "j = C ! l" using slots_disjoint_cells [OF D(1,2) m(1)] slots_disjoint_cells [OF D(1,2) k(1)] m(2) x CellSlot by metis+
        then show ?thesis using m(3) k(2) False by simp
      next
        case (FaceSlot e v c)
        have fs: "v < n_faces t tr e" "c < face_size t tr s e v"
          using face_slots [OF D(1,2) k(1), of e v c] faces_facts(3) [OF D(1) k(1)] x FaceSlot by auto
        have "face_dof e v c ?r = - 1" using status [OF fs] False FaceSlot by (auto simp: own_slots_def)
        then show ?thesis using pair [OF l] low FaceSlot by simp
      qed
    qed
  qed
  have "stands_for h (face_dof e v c h) (?G (FaceSlot e v c))" if "v < n_faces t tr e" "c < face_size t tr s e v" "face_dof e v c h \<noteq> - 1" for e v c
    using own_number_known [OF K p status [OF that(1,2)]] that(3) by (simp add: F(6) h_def shifted_facts(6) [OF K p])
  then show "msg_inv t tr s C n ?G {x. slot_owner t tr s pr x < p} {} h" using frame at own unfolding msg_inv_def by blast
  show "all_updated t tr s C n h" unfolding all_updated_def using pair(1) by (auto simp: F(6))
qed


section \<open>All processors\<close>

text \<open>The dofs of local ghost cells whose processors satisfy \<open>R\<close>.\<close>

abbreviation ghost_pairs :: "topology \<Rightarrow> equal_order_space \<Rightarrow> (nat \<Rightarrow> nat) \<Rightarrow> nat list \<Rightarrow> nat \<Rightarrow> (nat \<Rightarrow> bool) \<Rightarrow> (nat \<times> nat) set" where
  "ghost_pairs t s pr C n R \<equiv> {(l, i). n \<le> l \<and> l < length C \<and> R (pr (C ! l)) \<and> i < n_dofs t s (C ! l)}"

text \<open>The values of the dofs of cells.\<close>

abbreviation dof_values :: "topology \<Rightarrow> dup_nodes \<Rightarrow> equal_order_space \<Rightarrow> (slot \<Rightarrow> int) \<Rightarrow> nat list \<Rightarrow> int list" where
  "dof_values t tr s G ks \<equiv> concat (map (\<lambda>k. map (\<lambda>i. G (slot_of t tr s k i)) [0..<n_dofs t s k]) ks)"

lemma receive_fold:
  assumes V: "view_ok t tr pr p M" and T: "tree_ok t tr" and S: "space_ok s" and N: "neighbours_ok t"
  defines "C \<equiv> local_cells M" and "n \<equiv> own_size M"
  assumes "\<forall>q \<in> set qs. q \<noteq> p \<and> send_ghost_dofs (senders q) (ghost_proc_el (make_elem_partitioning M) q) =
      Inr (dof_values t tr s G (ghost_proc_el (make_elem_partitioning M) q))"
    and "same_cells (make_elem_partitioning M) h" "length (update_cells h) = own_size M"
    and "msg_inv t tr s C n G W (ghost_pairs t s pr C n R) h" "all_updated t tr s C n h"
  shows "\<exists>h'. fold_res (receive_from M s senders) h qs = Inr h' \<and> same_cells (make_elem_partitioning M) h' \<and> length (update_cells h') = own_size M
    \<and> loffset h' = loffset h \<and> lsize h' = lsize h \<and> n_global_dofs h' = n_global_dofs h
    \<and> msg_inv t tr s C n G W (ghost_pairs t s pr C n (\<lambda>q. R q \<or> q \<in> set qs)) h' \<and> all_updated t tr s C n h'"
  using assms(7-11)
proof (induction qs arbitrary: h R)
  case Nil
  then show ?case by simp
next
  case (Cons q qs)
  have el: "ghost_proc_el h q = ghost_proc_el (make_elem_partitioning M) q" using Cons.prems(2) by (simp add: same_cells_def)
  have q: "q \<noteq> p" "send_ghost_dofs (senders q) (ghost_proc_el h q) = Inr (dof_values t tr s G (ghost_proc_el h q))"
    using Cons.prems(1) by (simp_all add: el)
  have ok: "pairs_ok t s (local_cells M) (ghost_pairs t s pr (local_cells M) (own_size M) R)" by (auto simp: pairs_ok_def)
  obtain h1 where h1: "receive_from M s senders h q = Inr h1" "same_cells h h1" "length (update_cells h1) = own_size M"
    "loffset h1 = loffset h" "lsize h1 = lsize h" "n_global_dofs h1 = n_global_dofs h"
    "msg_inv t tr s C n G W (ghost_pairs t s pr C n R \<union> ghost_pairs t s pr C n (\<lambda>r. r = q)) h1" "all_updated t tr s C n h1"
    using receive_from_ok [where senders = senders, OF V T S N q(1) Cons.prems(2,3) Cons.prems(4,5) [unfolded C_def n_def] ok q(2)] unfolding C_def n_def by blast
  have "ghost_pairs t s pr C n R \<union> ghost_pairs t s pr C n (\<lambda>r. r = q) = ghost_pairs t s pr C n (\<lambda>r. R r \<or> r = q)" by auto
  then have I: "msg_inv t tr s C n G W (ghost_pairs t s pr C n (\<lambda>r. R r \<or> r = q)) h1" using h1(7) by simp
  have "\<exists>h'. fold_res (receive_from M s senders) h1 qs = Inr h' \<and> same_cells (make_elem_partitioning M) h' \<and> length (update_cells h') = own_size M
    \<and> loffset h' = loffset h1 \<and> lsize h' = lsize h1 \<and> n_global_dofs h' = n_global_dofs h1
    \<and> msg_inv t tr s C n G W (ghost_pairs t s pr C n (\<lambda>r. (R r \<or> r = q) \<or> r \<in> set qs)) h' \<and> all_updated t tr s C n h'"
    by (rule Cons.IH) (use Cons.prems h1 I same_cells_trans in auto)
  moreover have "(\<lambda>r. (R r \<or> r = q) \<or> r \<in> set qs) = (\<lambda>r. R r \<or> r \<in> set (q # qs))" by auto
  ultimately show ?case using h1 by simp
qed

text \<open>When the ghost cells of the lower processors are known, all own dofs are.\<close>

lemma all_known:
  assumes V: "view_ok t tr pr p M" and T: "tree_ok t tr" and S: "space_ok s" and N: "neighbours_ok t"
  defines "C \<equiv> local_cells M" and "n \<equiv> own_size M"
  assumes I: "msg_inv t tr s C n G {x. slot_owner t tr s pr x < p} (ghost_pairs t s pr C n R) h" and u: "all_updated t tr s C n h"
    and R: "\<forall>q < p. R q"
  shows "own_good t tr s C n G h"
  unfolding own_good_def
proof (intro allI impI, rule ccontr)
  fix l i assume l: "l < n" "i < n_dofs t s (C ! l)" and bad: "\<not> stands_for h (ind h l i) (G (slot_of t tr s (C ! l) i))"
  note L = local_cells_facts [OF V T N, folded C_def n_def] and D = msg_invD [OF I]
  let ?x = "slot_of t tr s (C ! l) i"
  obtain e v c where w: "ind h l i = - 1" "?x = FaceSlot e v c" "slot_owner t tr s pr ?x < p" using D(4) [OF l] bad by blast
  have k: "C ! l < bulk_of t" "pr (C ! l) = p" using L(4) [OF l(1)] by simp_all
  note x = slotsI [OF l(2), of tr]
  obtain j where j: "j < bulk_of t" "?x \<in> slots t tr s j" "pr j = slot_owner t tr s pr ?x" using slot_owner_facts(2) [OF k(1) x] by blast
  obtain i' where i': "i' < n_dofs t s j" "slot_of t tr s j i' = ?x" using slotsD [OF j(2)] by blast
  have "v \<in> set (faces t tr e (C ! l))" "v \<in> set (faces t tr e j)"
    using face_slots [OF T S k(1), of e v c] face_slots [OF T S j(1), of e v c] x j(2) w(2) by simp_all
  then have "touching t tr (C ! l) j" using face_touching [OF T k(1) j(1)] by blast
  then have "j \<in> set (ghost_4_loc (make_elem_partitioning M))" using L(6) j(1,3) k w(3) by (auto simp: ghosts_all_def)
  then obtain a where a: "a < length (ghost_4_loc (make_elem_partitioning M))" "ghost_4_loc (make_elem_partitioning M) ! a = j"
    unfolding in_set_conv_nth by blast
  have "C ! (n + a) = j" "n + a < length C" using a L(3) view_okD(4) [OF V] by (simp_all add: C_def n_def local_cells_def nth_append)
  then have "(n + a, i') \<in> ghost_pairs t s pr C n R" using i'(1) R w(3) j(3) by simp
  from D(7) [OF this] have "face_dof e v c h \<noteq> - 1" using i'(2) w(2) \<open>C ! (n + a) = j\<close> by simp
  then show False using u l w(1,2) by (auto simp: all_updated_def)
qed

text \<open>A processor in the second round.\<close>

definition round_done :: "topology \<Rightarrow> dup_nodes \<Rightarrow> equal_order_space \<Rightarrow> (nat \<Rightarrow> nat) \<Rightarrow> nat \<Rightarrow> (nat \<Rightarrow> dof_mesh) \<Rightarrow> (nat \<Rightarrow> bool) \<Rightarrow> nat \<Rightarrow> dof_handler \<Rightarrow> bool" where
  "round_done t tr s pr np Ms R p h \<longleftrightarrow> same_cells (make_elem_partitioning (Ms p)) h \<and> length (update_cells h) = own_size (Ms p)
    \<and> loffset h = first_dof Ms s p \<and> lsize h = lsize (own_run Ms s p) \<and> n_global_dofs h = first_dof Ms s np
    \<and> (let C = local_cells (Ms p); n = own_size (Ms p); G = dof_number Ms t tr s pr in
       msg_inv t tr s C n G {x. slot_owner t tr s pr x < p} (ghost_pairs t s pr C n R) h \<and> all_updated t tr s C n h \<and> own_good t tr s C n G h)"

lemma round_doneD:
  assumes "round_done t tr s pr np Ms R p h"
  shows "same_cells (make_elem_partitioning (Ms p)) h" and "length (update_cells h) = own_size (Ms p)"
    and "loffset h = first_dof Ms s p" and "lsize h = lsize (own_run Ms s p)" and "n_global_dofs h = first_dof Ms s np"
    and "msg_inv t tr s (local_cells (Ms p)) (own_size (Ms p)) (dof_number Ms t tr s pr) {x. slot_owner t tr s pr x < p}
      (ghost_pairs t s pr (local_cells (Ms p)) (own_size (Ms p)) R) h"
    and "all_updated t tr s (local_cells (Ms p)) (own_size (Ms p)) h"
    and "own_good t tr s (local_cells (Ms p)) (own_size (Ms p)) (dof_number Ms t tr s pr) h"
  using assms by (simp_all add: round_done_def Let_def)

text \<open>What it sends.\<close>

lemma round_done_sends:
  assumes K: "machine_ok t tr s pr np Ms" and p: "p < np" and q: "q < np" and d: "round_done t tr s pr np Ms R q g"
  shows "send_ghost_dofs g (ghost_proc_el (make_elem_partitioning (Ms p)) q) =
    Inr (dof_values t tr s (dof_number Ms t tr s pr) (ghost_proc_el (make_elem_partitioning (Ms p)) q))"
proof -
  note D = machine_okD [OF K] and E = round_doneD [OF d]
  note L = local_cells_facts [OF D(5) [OF q] D(1,3)] and P = make_elem_partitioning_ok(1) [OF D(5) [OF p] D(1,3)]
  have "\<forall>k \<in> set (ghost_proc_el (make_elem_partitioning (Ms p)) q). k < bulk_of t \<and> pr k = q" using P by (auto simp: ghosts_ok_def)
  then have ks: "\<forall>k \<in> set (ghost_proc_el (make_elem_partitioning (Ms p)) q). \<exists>l < own_size (Ms q). local_cells (Ms q) ! l = k"
    using L(5) by blast
  show ?thesis by (rule send_ghost_dofs_ok [OF msg_invD(1,2) [OF E(6)] E(8) _ ks]) (simp add: L(3))
qed


text \<open>The processors of the ghost cells are the neighbouring ones.\<close>

lemma ghost_procs:
  assumes K: "machine_ok t tr s pr np Ms" and p: "p < np"
  shows "q \<in> set (ghost_proc (make_elem_partitioning (Ms p))) \<Longrightarrow> q < np \<and> q \<noteq> p"
    and "ghost_pairs t s pr (local_cells (Ms p)) (own_size (Ms p)) (\<lambda>q. R q \<and> q \<in> set (ghost_proc (make_elem_partitioning (Ms p)))) =
      ghost_pairs t s pr (local_cells (Ms p)) (own_size (Ms p)) R"
    and "own_size (Ms p) \<le> l \<Longrightarrow> l < length (local_cells (Ms p)) \<Longrightarrow> pr (local_cells (Ms p) ! l) \<noteq> p"
proof -
  note D = machine_okD [OF K]
  note P = make_elem_partitioning_ok(1) [OF D(5) [OF p] D(1,3)]
  show "q < np \<and> q \<noteq> p" if "q \<in> set (ghost_proc (make_elem_partitioning (Ms p)))" using that P D(4) by (auto simp: ghosts_ok_def)
  have ghost: "pr (local_cells (Ms p) ! l) \<in> set (ghost_proc (make_elem_partitioning (Ms p))) \<and> pr (local_cells (Ms p) ! l) \<noteq> p"
    if l: "own_size (Ms p) \<le> l" "l < length (local_cells (Ms p))" for l
  proof -
    have "local_cells (Ms p) ! l = ghost_4_loc (make_elem_partitioning (Ms p)) ! (l - own_size (Ms p))"
      "l - own_size (Ms p) < length (ghost_4_loc (make_elem_partitioning (Ms p)))"
      using l view_okD(4) [OF D(5) [OF p]] by (auto simp: local_cells_def nth_append)
    then have "local_cells (Ms p) ! l \<in> set (ghost_4_loc (make_elem_partitioning (Ms p)))" by simp
    then show ?thesis using P by (auto simp: ghosts_ok_def)
  qed
  show "ghost_pairs t s pr (local_cells (Ms p)) (own_size (Ms p)) (\<lambda>q. R q \<and> q \<in> set (ghost_proc (make_elem_partitioning (Ms p)))) =
      ghost_pairs t s pr (local_cells (Ms p)) (own_size (Ms p)) R"
    "own_size (Ms p) \<le> l \<Longrightarrow> l < length (local_cells (Ms p)) \<Longrightarrow> pr (local_cells (Ms p) ! l) \<noteq> p"
    using ghost by auto
qed

lemma round_ok:
  assumes K: "machine_ok t tr s pr np Ms" and p: "p < np" and P: "\<And>q. P q \<Longrightarrow> q < np \<Longrightarrow> q \<noteq> p \<Longrightarrow> round_done t tr s pr np Ms (Rs q) q (senders q)"
    and h: "same_cells (make_elem_partitioning (Ms p)) h" "length (update_cells h) = own_size (Ms p)"
      "loffset h = first_dof Ms s p" "lsize h = lsize (own_run Ms s p)" "n_global_dofs h = first_dof Ms s np"
      "msg_inv t tr s (local_cells (Ms p)) (own_size (Ms p)) (dof_number Ms t tr s pr) {x. slot_owner t tr s pr x < p}
        (ghost_pairs t s pr (local_cells (Ms p)) (own_size (Ms p)) R) h"
      "all_updated t tr s (local_cells (Ms p)) (own_size (Ms p)) h"
    and R: "\<forall>q < p. R q \<or> P q"
  shows "\<exists>h'. fold_res (receive_from (Ms p) s senders) h (filter P (ghost_proc h)) = Inr h' \<and> round_done t tr s pr np Ms (\<lambda>q. R q \<or> P q) p h'"
proof -
  note D = machine_okD [OF K]
  note V = D(5) [OF p]
  let ?H = "make_elem_partitioning (Ms p)" and ?G = "dof_number Ms t tr s pr" and ?C = "local_cells (Ms p)" and ?n = "own_size (Ms p)"
  have gp: "ghost_proc h = ghost_proc ?H" using h(1) by (simp add: same_cells_def)
  let ?qs = "filter P (ghost_proc ?H)"
  have "\<forall>q \<in> set ?qs. q \<noteq> p \<and> send_ghost_dofs (senders q) (ghost_proc_el ?H q) = Inr (dof_values t tr s ?G (ghost_proc_el ?H q))"
  proof
    fix q assume "q \<in> set ?qs"
    then have q: "P q" "q < np" "q \<noteq> p" using ghost_procs(1) [OF K p] by auto
    show "q \<noteq> p \<and> send_ghost_dofs (senders q) (ghost_proc_el ?H q) = Inr (dof_values t tr s ?G (ghost_proc_el ?H q))"
      using q(3) round_done_sends [OF K p q(2) P [OF q]] by blast
  qed
  from receive_fold [OF V D(1-3) this h(1,2,6,7)] obtain h' where
    h': "fold_res (receive_from (Ms p) s senders) h ?qs = Inr h'" "same_cells ?H h'" "length (update_cells h') = ?n"
    "loffset h' = loffset h" "lsize h' = lsize h" "n_global_dofs h' = n_global_dofs h"
    "msg_inv t tr s ?C ?n ?G {x. slot_owner t tr s pr x < p} (ghost_pairs t s pr ?C ?n (\<lambda>q. R q \<or> q \<in> set ?qs)) h'" "all_updated t tr s ?C ?n h'"
    by blast
  have "ghost_pairs t s pr ?C ?n (\<lambda>q. R q \<or> q \<in> set ?qs) =
      ghost_pairs t s pr ?C ?n (\<lambda>q. (R q \<or> q \<in> set ?qs) \<and> q \<in> set (ghost_proc ?H))" by (rule ghost_procs(2) [OF K p, symmetric])
  also have "(\<lambda>q. (R q \<or> q \<in> set ?qs) \<and> q \<in> set (ghost_proc ?H)) = (\<lambda>q. (R q \<or> P q) \<and> q \<in> set (ghost_proc ?H))" by auto
  also have "ghost_pairs t s pr ?C ?n (\<lambda>q. (R q \<or> P q) \<and> q \<in> set (ghost_proc ?H)) = ghost_pairs t s pr ?C ?n (\<lambda>q. R q \<or> P q)"
    by (rule ghost_procs(2) [OF K p])
  finally have I: "msg_inv t tr s ?C ?n ?G {x. slot_owner t tr s pr x < p} (ghost_pairs t s pr ?C ?n (\<lambda>q. R q \<or> P q)) h'" using h'(7) by simp
  have "own_good t tr s ?C ?n ?G h'" by (rule all_known [OF V D(1-3) I h'(8) R])
  then have "round_done t tr s pr np Ms (\<lambda>q. R q \<or> P q) p h'" using h' I h(3-5) by (simp add: round_done_def Let_def)
  then show ?thesis using h'(1) by (auto simp: gp)
qed

text \<open>The first round, processor by processor.\<close>

lemma lower_rounds:
  assumes K: "machine_ok t tr s pr np Ms"
  shows "m \<le> np \<Longrightarrow> \<exists>hs. fold_res (lower_round Ms s) (map (shifted Ms s np) [0..<np]) [0..<m] = Inr hs \<and> length hs = np
    \<and> (\<forall>p < m. round_done t tr s pr np Ms (\<lambda>q. q < p) p (hs ! p)) \<and> (\<forall>p. m \<le> p \<longrightarrow> p < np \<longrightarrow> hs ! p = shifted Ms s np p)"
proof (induction m)
  case 0
  then show ?case by simp
next
  case (Suc m)
  note D = machine_okD [OF K]
  obtain hs where hs: "fold_res (lower_round Ms s) (map (shifted Ms s np) [0..<np]) [0..<m] = Inr hs" "length hs = np"
    "\<And>p. p < m \<Longrightarrow> round_done t tr s pr np Ms (\<lambda>q. q < p) p (hs ! p)" "\<And>p. m \<le> p \<Longrightarrow> p < np \<Longrightarrow> hs ! p = shifted Ms s np p"
    using Suc by auto
  have m: "m < np" using Suc.prems by simp
  note F = shifted_facts [OF K m] and O = own_run_facts [OF K m] and I = shifted_inv [OF K m]
  have m_eq: "hs ! m = shifted Ms s np m" using hs(4) m by simp
  have "ghost_pairs t s pr (local_cells (Ms m)) (own_size (Ms m)) (\<lambda>q. False) = {}" by simp
  then have I': "msg_inv t tr s (local_cells (Ms m)) (own_size (Ms m)) (dof_number Ms t tr s pr) {x. slot_owner t tr s pr x < m}
        (ghost_pairs t s pr (local_cells (Ms m)) (own_size (Ms m)) (\<lambda>q. False)) (hs ! m)" using I(1) by (simp add: m_eq)
  have "\<exists>h'. fold_res (receive_from (Ms m) s (nth hs)) (hs ! m) (filter (\<lambda>q. q < m) (ghost_proc (hs ! m))) = Inr h'
      \<and> round_done t tr s pr np Ms (\<lambda>q. False \<or> q < m) m h'"
    by (rule round_ok [OF K m hs(3) _ _ _ _ _ I']) (use F O I(2) same_cells_trans [OF O(3) F(5)] in \<open>simp_all add: m_eq\<close>)
  then obtain h' where h': "lower_round Ms s hs m = Inr (hs[m := h'])" "round_done t tr s pr np Ms (\<lambda>q. q < m) m h'"
    by (auto simp: lower_round_def)
  have "fold_res (lower_round Ms s) (map (shifted Ms s np) [0..<np]) [0..<Suc m] = Inr (hs[m := h'])"
    using hs(1) h'(1) by (simp add: fold_res_append)
  moreover have "\<forall>p < Suc m. round_done t tr s pr np Ms (\<lambda>q. q < p) p (hs[m := h'] ! p)"
    using hs(2,3) h'(2) m by (auto simp: nth_list_update less_Suc_eq)
  ultimately show ?case using hs(2,4) by (intro exI [of _ "hs[m := h']"]) simp
qed


section \<open>Distributed meshes\<close>

text \<open>
  What the processors see after \<open>setup_topology\<close>: the same topology and tree, and the numbering of elements by
  \<open>id_maps\<close> from the partition.
\<close>

definition distributed_mesh :: "petsc_is \<Rightarrow> nat list \<Rightarrow> nat \<Rightarrow> topology \<Rightarrow> dup_nodes \<Rightarrow> (nat \<Rightarrow> dof_mesh) \<Rightarrow> bool" where
  "distributed_mesh P part np t tr Ms \<longleftrightarrow> petsc_ok P part np \<and> np < 2 ^ 32 \<and> length part < 2 ^ 32 \<and> length part = bulk_of t
     \<and> (\<forall>q \<in> set part. q < np)
     \<and> (\<forall>p < np. dm_topo (Ms p) = t \<and> dm_tree (Ms p) = tr
          \<and> id_maps P (bulk_of t) (map int [0..<bulk_of t]) part np p = Inr (dm_ids (Ms p)))"

lemma distributed_view:
  assumes M: "distributed_mesh P part np t tr Ms" and p: "p < np"
  shows "view_ok t tr (nth part) p (Ms p)"
proof -
  let ?M = "Ms p" and ?s = "length part" and ?num = "partitioning_to_numbering P part" and ?ids = "map int [0..<bulk_of t]"
  have P: "petsc_ok P part np" and np: "np < 2 ^ 32" "length part < 2 ^ 32" "\<forall>q \<in> set part. q < np" and n: "length part = bulk_of t"
    and m: "dm_topo ?M = t" "dm_tree ?M = tr" "id_maps P (bulk_of t) ?ids part np p = Inr (dm_ids ?M)"
    using M p by (simp_all add: distributed_mesh_def)
  have ids: "length ?ids = length part" "distinct ?ids" "\<forall>k \<in> set ?ids. 0 \<le> k \<and> k \<le> int (bulk_of t)"
    by (auto simp: n distinct_map)
  note D = part_distribution [OF np, where rank = p] and N = numbering_facts [OF P np(3)] and L = local_ids [OF P np(3) p ids(1,2)]
  let ?d = "distribution_from_sizes p (partitioning_count P part np)"
  have cnt: "partitioning_count P part np = map (\<lambda>p. of_nat (length (filter (\<lambda>q. q = p) part))) [0..<np]"
    using P by (simp add: petsc_ok_def Let_def)
  let ?loc = "map (\<lambda>i. ?ids ! (old_4_new P part ! i)) [part_start part p..<part_start part (Suc p)]"
  obtain a where "id_maps P (bulk_of t) ?ids part np p = Inr \<lparr>new_ds = ?d, id_4_loc = ?loc, new_4_id = a\<rparr>"
    and a: "\<forall>i < ?s. a ! nat (?ids ! i) = int (?num ! i)"
    using id_maps_run [OF P np p ids] by blast
  then have im: "dm_ids ?M = \<lparr>new_ds = ?d, id_4_loc = ?loc, new_4_id = a\<rparr>" using m(3) by simp
  have num: "new_4_id (dm_ids ?M) ! k = int (?num ! k)" if "k < bulk_of t" for k using a that n by (simp add: im)
  have rank: "my_rank ?M = p" by (simp add: my_rank_def im distribution_from_sizes_def)
  have st: "unat (starts ?d ! q) = part_start part q" if "q \<le> np" for q using D(1) [OF that] by (simp add: cnt)
  have le: "part_start part p \<le> part_start part (Suc p)" by (simp add: part_start_Suc)
  have "unat (lsize_of ?d p) = part_start part (Suc p) - part_start part p"
    using st [of p] st [of "Suc p"] p le by (simp add: lsize_of_def begin_of_def end_of_def unat_sub word_le_nat_alt)
  then have size: "own_size ?M = length ?loc" unfolding own_size_def rank by (simp add: im)
  have own: "own_cells ?M = map nat ?loc"
    unfolding own_cells_def size by (rule nth_equalityI) (simp_all add: im)
  have loc: "set ?loc = int ` {k. k < bulk_of t \<and> part ! k = p}"
  proof -
    have "{?ids ! i | i. i < length part \<and> part ! i = p} = (\<lambda>i. ?ids ! i) ` {k. k < bulk_of t \<and> part ! k = p}"
      unfolding n by (rule setcompr_eq_image)
    also have "\<dots> = int ` {k. k < bulk_of t \<and> part ! k = p}" by (rule image_cong) simp_all
    finally show ?thesis unfolding L(1) .
  qed
  have "inj_on nat (set ?loc)" unfolding loc inj_on_def by simp
  then have "distinct (own_cells ?M)" unfolding own distinct_map [of nat] using L(2) by blast
  moreover have "set (own_cells ?M) = {k. k < bulk_of t \<and> part ! k = p}" unfolding own set_map [of nat] loc image_image by simp
  moreover have "proc_of ?M k = part ! k" if k: "k < bulk_of t" for k
  proof -
    have "get_proc ?d (word_of_int (int (?num ! k))) = of_nat (part ! k)" using new_owner [OF P np, where rank = p] k n by simp
    moreover have "part ! k < 2 ^ 32" using np(1,3) k n by (metis nth_mem order_less_trans)
    ultimately show ?thesis unfolding proc_of_def element_proc_def num [OF k] by (simp add: im unat_of_nat take_bit_nat_eq_self)
  qed
  moreover have "el_is_local ?M k \<longleftrightarrow> part ! k = p" if k: "k < bulk_of t" for k
  proof -
    let ?w = "word_of_int (int (?num ! k)) :: u32"
    have w: "unat ?w = ?num ! k" using N(4) [of k] np(2) k n by (simp add: unat_of_nat)
    have "el_is_local ?M k \<longleftrightarrow> is_on_proc ?d ?w p"
      unfolding el_is_local_def num [OF k] by (simp add: im is_local_def is_on_proc_def distribution_from_sizes_def)
    then show ?thesis unfolding is_on_proc_iff w using st [of p] st [of "Suc p"] p N(6) [of k p] k n by simp
  qed
  ultimately show ?thesis unfolding view_ok_def using m(1,2) rank size own by simp
qed

lemma distributed_machine:
  assumes ok: "simplices_ok m" "mesh_ok m" and t: "make_neighbours_and_edges (new_topology m) = Inr t" and tr: "duplicate_nodes t = Inr tr"
    and M: "distributed_mesh P part np t tr Ms" and s: "space_ok s" and n: "(\<Sum>k < bulk_of t. n_dofs t s k) < 2 ^ 31"
  shows "machine_ok t tr s (nth part) np Ms"
proof -
  have r: "split_ready t" by (rule make_neighbours_and_edges_ready [OF ok t])
  have T: "tree_ok t tr" using duplicate_nodes_total [OF r] tr r by (simp add: tree_ok_def)
  have inv: "topo_inv (element_vec m) (mesh_bulk_size m) (length (mesh_nodes m)) t"
    using make_neighbours_and_edges_spec [OF ok(1)] ok(2) t by (simp add: mesh_ok_def)
  note E = edges_invD [OF topo_invD(9) [OF inv]]
  have "neighbours_ok t"
    unfolding neighbours_ok_def
  proof
    fix x assume "x \<in> set (vb_neighbours t)"
    then obtain y where y: "y \<in> sides_of (element_vec m) (mesh_bulk_size m)" "edge_of t y = Some (ngh_edge_idx x)"
      "lower_elem (element_vec m) (mesh_bulk_size m) (side_key (element_vec m) y) (ngh_elem_idx x)" using E(6) by blast
    then show "ngh_elem_idx x < bulk_of t \<and> ngh_edge_idx x < length (edges t)"
      using E(1) topo_invD(6) [OF inv] by (simp add: lower_elem_def)
  qed
  moreover have "\<forall>k < bulk_of t. part ! k < np" using M by (simp add: distributed_mesh_def)
  ultimately show ?thesis using T s n distributed_view [OF M] by (simp add: machine_ok_def)
qed


section \<open>Properties\<close>

lemma distribute_dofs_ok:
  assumes K: "machine_ok t tr s pr np Ms"
  shows "\<exists>hs. distribute_dofs Ms np s = Inr hs \<and> length hs = np \<and> (\<forall>p < np. round_done t tr s pr np Ms (\<lambda>q. q < p \<or> p < q) p (hs ! p))"
proof -
  have own: "collect_res (\<lambda>p. distribute_own (Ms p) s (make_elem_partitioning (Ms p))) np = Inr (map (own_run Ms s) [0..<np])"
    unfolding collect_res_def by (subst fold_res_append_list) (use own_run_facts(1) [OF K] in auto)
  have shift: "map (\<lambda>p. shift_dofs (map lsize (map (own_run Ms s) [0..<np])) p (map (own_run Ms s) [0..<np] ! p)) [0..<np] = map (shifted Ms s np) [0..<np]"
    by (simp add: shifted_def)
  obtain hs where hs: "fold_res (lower_round Ms s) (map (shifted Ms s np) [0..<np]) [0..<np] = Inr hs" "length hs = np"
    "\<And>p. p < np \<Longrightarrow> round_done t tr s pr np Ms (\<lambda>q. q < p) p (hs ! p)" using lower_rounds [OF K order_refl] by blast
  have "\<exists>h'. higher_round Ms s hs p = Inr h' \<and> round_done t tr s pr np Ms (\<lambda>q. q < p \<or> p < q) p h'" if p: "p < np" for p
    unfolding higher_round_def by (rule round_ok [OF K p hs(3)]) (use round_doneD [OF hs(3) [OF p]] in auto)
  then obtain f where f: "\<forall>p < np. higher_round Ms s hs p = Inr (f p) \<and> round_done t tr s pr np Ms (\<lambda>q. q < p \<or> p < q) p (f p)" by metis
  have "collect_res (higher_round Ms s hs) np = Inr (map f [0..<np])"
    unfolding collect_res_def by (subst fold_res_append_list) (use f in auto)
  then have "distribute_dofs Ms np s = Inr (map f [0..<np])" unfolding distribute_dofs_def own Let_def bind_res_simps shift hs(1) .
  then show ?thesis using f by (intro exI [of _ "map f [0..<np]"]) simp
qed

lemma known_indices:
  assumes f: "dof_frame t tr s C h" and l: "l < length C" and g: "\<And>i. i < n_dofs t s (C ! l) \<Longrightarrow> stands_for h (ind h l i) (F i)"
  shows "get_dof_indices h l = map F [0..<n_dofs t s (C ! l)]"
proof -
  have "cell_starts h ! (l + 1) - cell_starts h ! l = n_dofs t s (C ! l)"
    using running_step [of l "map (n_dofs t s) C" 0] l dof_frameD(1) [OF f] by simp
  then show ?thesis unfolding get_dof_indices_def using g by (intro map_cong) (auto simp: stands_for_def)
qed

text \<open>
  C2. The numbering of degrees of freedom on all processors. On a mesh of simplices distributed by a partition, for finite elements
  with the same number of dofs at all nodes and at all sides and a number of dofs below \<open>2^31\<close>, \<open>distribute_dofs\<close> succeeds, and there is one
  numbering of all dofs of the mesh, where the dof of a cell is known by its node, edge or cell and its number there, such that
  it goes through \<open>0, ..., n_global_dofs - 1\<close>; the numbers of a processor are those from \<open>loffset\<close> to \<open>loffset + lsize\<close>, and they are the numbers of the dofs
  whose least processor it is; and every processor reads from \<open>get_dof_indices\<close> exactly these numbers, for its own cells and
  for its ghost cells. So dofs of two cells, also of different processors, get the same number exactly when they are at the same place.
\<close>

theorem dofs_distributed:
  assumes "simplices_ok m" "mesh_ok m" and "make_neighbours_and_edges (new_topology m) = Inr t" and "duplicate_nodes t = Inr tr"
    and "distributed_mesh P part np t tr Ms" and "space_ok s" and "(\<Sum>k < bulk_of t. n_dofs t s k) < 2 ^ 31"
  shows "\<exists>hs num N. distribute_dofs Ms np s = Inr hs \<and> length hs = np \<and> bij_betw num (all_slots t tr s) (int ` {..<N})
    \<and> (\<forall>p < np. n_global_dofs (hs ! p) = N
        \<and> num ` own_slots t tr s (nth part) p = int ` {loffset (hs ! p)..<loffset (hs ! p) + lsize (hs ! p)}
        \<and> (\<forall>l < local_size (Ms p) (hs ! p). get_dof_indices (hs ! p) l =
             map (\<lambda>i. num (slot_of t tr s (elm_idx (Ms p) (hs ! p) l) i)) [0..<n_dofs t s (elm_idx (Ms p) (hs ! p) l)]))"
proof -
  have K: "machine_ok t tr s (nth part) np Ms" by (rule distributed_machine [OF assms])
  note D = machine_okD [OF K]
  let ?G = "dof_number Ms t tr s (nth part)"
  obtain hs where hs: "distribute_dofs Ms np s = Inr hs" "length hs = np"
    "\<And>p. p < np \<Longrightarrow> round_done t tr s (nth part) np Ms (\<lambda>q. q < p \<or> p < q) p (hs ! p)" using distribute_dofs_ok [OF K] by blast
  have "n_global_dofs (hs ! p) = first_dof Ms s np
      \<and> ?G ` own_slots t tr s (nth part) p = int ` {loffset (hs ! p)..<loffset (hs ! p) + lsize (hs ! p)}
      \<and> (\<forall>l < local_size (Ms p) (hs ! p). get_dof_indices (hs ! p) l =
           map (\<lambda>i. ?G (slot_of t tr s (elm_idx (Ms p) (hs ! p) l) i)) [0..<n_dofs t s (elm_idx (Ms p) (hs ! p) l)])" if p: "p < np" for p
  proof (intro conjI allI impI)
    let ?C = "local_cells (Ms p)" and ?n = "own_size (Ms p)" and ?h = "hs ! p"
    note V = D(5) [OF p] and E = round_doneD [OF hs(3) [OF p]]
    note L = local_cells_facts [OF V D(1,3)] and I = msg_invD [OF E(6)]
    show "n_global_dofs ?h = first_dof Ms s np" by (rule E(5))
    show "?G ` own_slots t tr s (nth part) p = int ` {loffset ?h..<loffset ?h + lsize ?h}"
      using dof_number_own [OF K p] E(3,4) by simp
    fix l assume "l < local_size (Ms p) ?h"
    then have l: "l < length ?C" using L(3) same_cellsD(1) [OF E(1)] by (simp add: local_size_def)
    have elm: "elm_idx (Ms p) ?h l = ?C ! l"
      using elm_idx_nth [OF view_okD(4) [OF V], of l ?h] l same_cellsD(1) [OF E(1)] L(3) by (simp add: local_cells_def)
    have "stands_for ?h (ind ?h l i) (?G (slot_of t tr s (?C ! l) i))" if i: "i < n_dofs t s (?C ! l)" for i
    proof (cases "l < ?n")
      case True
      then show ?thesis using E(8) i by (simp add: own_good_def)
    next
      case False
      then have "(l, i) \<in> ghost_pairs t s (nth part) ?C ?n (\<lambda>q. q < p \<or> p < q)"
        using ghost_procs(3) [OF K p, of l] l i by auto
      from I(6) [OF this] show ?thesis by simp
    qed
    then show "get_dof_indices ?h l = map (\<lambda>i. ?G (slot_of t tr s (elm_idx (Ms p) ?h l) i)) [0..<n_dofs t s (elm_idx (Ms p) ?h l)]"
      unfolding elm by (rule known_indices [OF I(1) l])
  qed
  then show ?thesis using hs(1,2) dof_number_bij [OF K] by blast
qed


text \<open>Linear finite elements on four elements and two processors.\<close>

definition sample_space :: equal_order_space where
  "sample_space = new_space (map (\<lambda>k. map (\<lambda>f. (0, f)) [0..<k + 1]) [0..<4])"

lemma sample_space_ok: "space_ok sample_space" "k < 4 \<Longrightarrow> length (fe sample_space ! k) = k + 1"
proof -
  have "fe_ok 1 [(0, 0), (0, 1)]" "fe_ok 2 [(0, 0), (0, 1), (0, 2)]" "fe_ok 3 [(0, 0), (0, 1), (0, 2), (0, 3)]" by code_simp+
  then show "space_ok sample_space"
    unfolding space_ok_def sample_space_def by (intro exI conjI refl) (auto simp: upt_rec numeral_2_eq_2 numeral_3_eq_3)
  show "length (fe sample_space ! k) = k + 1" if "k < 4" using that by (simp add: sample_space_def new_space_def)
qed

lemma sample_distributed:
  obtains m t tr Ms where "simplices_ok m" and "mesh_ok m" and "make_neighbours_and_edges (new_topology m) = Inr t" and "bulk_of t = 4"
    and "duplicate_nodes t = Inr tr" and "distributed_mesh sample_petsc [0, 1, 0, 1] 2 t tr Ms"
    and "(\<Sum>k < bulk_of t. n_dofs t sample_space k) < 2 ^ 31"
proof -
  obtain m1 m t where m: "fold_res mesh_step empty_mesh topo_cmds = Inr m1" "create_boundary_elements m1 = Inr m" "simplices_ok m"
    and t: "make_neighbours_and_edges (new_topology m) = Inr t" "bulk_of t = 4"
    using duplicate_sample_eval by (auto split: sum.splits)
  have "list_all mesh_cmd_allowed topo_cmds" by (simp add: topo_cmds_def reserved_def)
  from create_boundary_elements_ok(1) [OF building.run_keeps [OF empty_mesh_reading this m(1)] m(2)] have ok: "mesh_ok m" .
  have r: "split_ready t" by (rule make_neighbours_and_edges_ready [OF m(3) ok t(1)])
  obtain tr where tr: "duplicate_nodes t = Inr tr" using duplicate_nodes_total [OF r] by blast
  have P: "petsc_ok sample_petsc [0, 1, 0, 1] 2" by code_simp
  have "\<exists>im. id_maps sample_petsc 4 (map int [0..<4]) [0, 1, 0, 1] 2 p = Inr im" if "p < 2" for p
    using id_maps_run [OF P _ _ _ that, of "map int [0..<4]" 4] by (auto simp: distinct_map)
  then obtain im where im: "\<forall>p < 2. id_maps sample_petsc 4 (map int [0..<4]) [0, 1, 0, 1] 2 p = Inr (im p)" by metis
  define Ms where "Ms = (\<lambda>p. \<lparr>dm_topo = t, dm_tree = tr, dm_ids = im p\<rparr>)"
  have M: "distributed_mesh sample_petsc [0, 1, 0, 1] 2 t tr Ms" using P im t(2) by (simp add: distributed_mesh_def Ms_def)
  have "n_dofs t sample_space k \<le> 4" if "k < bulk_of t" for k
    using split_ready_simplex(2) [OF r that] sample_space_ok(2) [of "dim_of (elems t ! k)"] by (auto simp: cell_dofs_def)
  then have "(\<Sum>k < bulk_of t. n_dofs t sample_space k) \<le> (\<Sum>k < bulk_of t. 4)" by (intro sum_mono) simp
  then have "(\<Sum>k < bulk_of t. n_dofs t sample_space k) < 2 ^ 31" by (simp add: t(2))
  then show thesis by (rule that [OF m(3) ok t tr M])
qed

theorem dofs_distributed_witness:
  "\<exists>m t tr Ms hs. mesh_ok m \<and> make_neighbours_and_edges (new_topology m) = Inr t \<and> bulk_of t = 4 \<and> duplicate_nodes t = Inr tr
    \<and> distributed_mesh sample_petsc [0, 1, 0, 1] 2 t tr Ms \<and> distribute_dofs Ms 2 sample_space = Inr hs
    \<and> n_global_dofs (hs ! 0) = n_global_dofs (hs ! 1)"
proof -
  obtain m t tr Ms where S: "simplices_ok m" "mesh_ok m" "make_neighbours_and_edges (new_topology m) = Inr t" "bulk_of t = 4"
    "duplicate_nodes t = Inr tr" "distributed_mesh sample_petsc [0, 1, 0, 1] 2 t tr Ms" "(\<Sum>k < bulk_of t. n_dofs t sample_space k) < 2 ^ 31"
    by (rule sample_distributed)
  from dofs_distributed [OF S(1-3,5,6) sample_space_ok(1) S(7)] obtain hs num N where
    run: "distribute_dofs Ms 2 sample_space = Inr hs" and N: "\<forall>p < (2 :: nat). n_global_dofs (hs ! p) = N"
    by (elim exE conjE) (rule that, assumption, intro allI impI, drule spec, drule mp, assumption, elim conjE, assumption)
  have "n_global_dofs (hs ! 0) = n_global_dofs (hs ! 1)" using N by simp
  with run show ?thesis using S
    by (intro exI [of _ m] exI [of _ t] exI [of _ tr] exI [of _ Ms] exI [of _ hs]) simp
qed

text \<open>
  C16. The ghost cells. \<open>make_elem_partitioning\<close> collects, without repetition, exactly the elements of other processors that have a
  node with an own element or are its neighbours of another dimension; \<open>ghost_proc\<close> are their processors in order, with the list
  of the elements of each; and a processor is among those of another one exactly when this one is among its own, so that messages
  are expected exactly by those to whom they are sent.
\<close>

theorem ghosts_symmetric:
  assumes "simplices_ok m" "mesh_ok m" and "make_neighbours_and_edges (new_topology m) = Inr t" and "duplicate_nodes t = Inr tr"
    and "distributed_mesh P part np t tr Ms" and "p < np" "q < np"
  shows "distinct (ghost_4_loc (make_elem_partitioning (Ms p)))
    \<and> set (ghost_4_loc (make_elem_partitioning (Ms p))) = {k. k < bulk_of t \<and> part ! k \<noteq> p \<and> (\<exists>a < bulk_of t. part ! a = p \<and> touching t tr a k)}
    \<and> sorted (ghost_proc (make_elem_partitioning (Ms p))) \<and> distinct (ghost_proc (make_elem_partitioning (Ms p)))
    \<and> ghost_proc_el (make_elem_partitioning (Ms p)) q = filter (\<lambda>k. part ! k = q) (ghost_4_loc (make_elem_partitioning (Ms p)))
    \<and> (q \<in> set (ghost_proc (make_elem_partitioning (Ms p))) \<longleftrightarrow> p \<in> set (ghost_proc (make_elem_partitioning (Ms q))))"
proof -
  have "space_ok (new_space [[], [], [], []])"
  proof -
    have "fe_ok k ([[], [], [], []] ! k)" if "k \<in> {1, 2, 3}" for k using that by (auto simp: fe_ok_def list_all_iff)
    then show ?thesis by (auto simp: space_ok_def)
  qed
  moreover have "n_dofs t (new_space [[], [], [], []]) k = 0" if "k < bulk_of t" for k
    using split_ready_simplex(2) [OF make_neighbours_and_edges_ready [OF assms(1-3)] that] by (auto simp: cell_dofs_def new_space_def)
  ultimately have K: "machine_ok t tr (new_space [[], [], [], []]) (nth part) np Ms"
    using distributed_machine [OF assms(1-5)] by simp
  note D = machine_okD [OF K]
  note G = make_elem_partitioning_ok [OF D(5) D(1,3)]
  note Gp = G [OF assms(6)]
  have iff: "b \<in> set (ghost_proc (make_elem_partitioning (Ms a))) \<longleftrightarrow>
      (\<exists>k < bulk_of t. \<exists>j < bulk_of t. part ! k = b \<and> part ! j = a \<and> b \<noteq> a \<and> touching t tr j k)" if "a < np" for a b
    using G(2) [OF that] G(1) [OF that] by (auto simp: ghosts_ok_def)
  have one: "a \<in> set (ghost_proc (make_elem_partitioning (Ms b)))" if b: "b \<in> set (ghost_proc (make_elem_partitioning (Ms a)))" and np: "a < np" "b < np" for a b
  proof -
    obtain k j where kj: "k < bulk_of t" "j < bulk_of t" "part ! k = b" "part ! j = a" "b \<noteq> a" "touching t tr j k"
      using b unfolding iff [OF np(1)] by (elim exE conjE)
    have "touching t tr k j" using kj(6) by (rule touching_sym [THEN iffD1])
    then show ?thesis unfolding iff [OF np(2)] using kj(1-5) by (intro exI conjI) simp_all
  qed
  have "q \<in> set (ghost_proc (make_elem_partitioning (Ms p))) \<longleftrightarrow> p \<in> set (ghost_proc (make_elem_partitioning (Ms q)))"
    by (rule iffI) (use one assms(6,7) in \<open>simp_all\<close>)
  then show ?thesis using Gp unfolding ghosts_ok_def by simp
qed

theorem ghosts_symmetric_witness:
  "\<exists>m t tr Ms. mesh_ok m \<and> make_neighbours_and_edges (new_topology m) = Inr t \<and> duplicate_nodes t = Inr tr
    \<and> distributed_mesh sample_petsc [0, 1, 0, 1] 2 t tr Ms \<and> distinct (ghost_4_loc (make_elem_partitioning (Ms 0)))
    \<and> (1 \<in> set (ghost_proc (make_elem_partitioning (Ms 0))) \<longleftrightarrow> 0 \<in> set (ghost_proc (make_elem_partitioning (Ms 1))))"
proof -
  obtain m t tr Ms where S: "simplices_ok m" "mesh_ok m" "make_neighbours_and_edges (new_topology m) = Inr t"
    "duplicate_nodes t = Inr tr" "distributed_mesh sample_petsc [0, 1, 0, 1] 2 t tr Ms"
    by (rule sample_distributed)
  from ghosts_symmetric [OF S, of 0 1] show ?thesis using S
    by (intro exI [of _ m] exI [of _ t] exI [of _ tr] exI [of _ Ms]) simp
qed

end
