(* ===== verification/Spec2Isabelle.thy ===== *)
theory Spec2Isabelle
  imports Output_Times Region_Sets Distribution Containers BIH_Tree Local_System Data_Reader
    Mesh_Partition Dof_Exchange
begin

text \<open>
  A verification library for Flow123d, a simulator of flow, transport and mechanics in fractured
  porous media (C++, sources under \<open>src/src\<close>). The equations of the program are driven by a
  common infrastructure, and it is this infrastructure that the library models: the time axis
  (units of time, time marks shared by all equations, the time governor that chooses the steps, the
  output times), the mesh database (regions and sets of regions, assignment of elements to
  regions, the bounding boxes of elements and the search tree over them), the distribution of indices
  over processors, the local linear systems that the assemblies fill, and the readers of text
  files, meshes and element data. The numerical assemblies themselves are clients of these parts.

  \<^bold>\<open>Conventions.\<close> Structs and classes are records, enumerations are datatypes, operations are
  functions from the state to the new state; a static or shared object (the database of time marks,
  the region database) is passed explicitly. A thrown exception, a failed \<open>ASSERT\<close> and a read outside
  a container are values \<open>Inl e\<close> of a result type; assertions of the debug build (\<open>ASSERT_DBG\<close>,
  \<open>OLD_ASSERT\<close>) are off, as in the release build. \<open>unsigned int\<close> and narrower types are words where
  wrap-around can matter, natural numbers where they index containers. A \<open>double\<close> is an exact real or one
  of the special values NaN and the infinities (\<open>Ideal_Double\<close>): comparisons with NaN and
  arithmetic with infinities follow IEEE 754, rounding and the sign of zero are abstracted away, so
  the theorems say what the algorithms do, not what rounding errors do. In \<open>Local_System\<close> the values are
  reals. What the program takes from libraries outside the sources is a parameter: the
  unit conversion inside the time governor is the modelled one, the inverse of a matrix (Armadillo), the
  splitting and trimming of lines (Boost), the numbers of processors and ranks (MPI).

  \<^bold>\<open>Theories and sources.\<close>
  \<^item> \<open>Prelude\<close>: results, loops whose body may fail, checked vector access, \<open>std::lower_bound\<close> and
    \<open>std::find\<close>; the locale \<open>checked_machine\<close> of components whose commands may fail.
  \<^item> \<open>Ideal_Double\<close>: the numbers.
  \<^item> \<open>Time_Step\<close>, \<open>Time_Marks\<close>, \<open>Time_Governor\<close> (\<open>tools/time_governor\<close>, \<open>tools/time_marks\<close>): comparison of times
    with tolerance; marks with types, their merging and the searches; the governor with limits,
    constraints, the choice of the step and the advance. Shown: the marks stay sorted and the precision
    apart, the searches return the nearest matching mark, every advance hits the fixed marks in whole
    steps within the constraints, and the end time is reached in finitely many steps. The locale
    \<open>mark_search\<close> states what the governor needs of the marks and is interpreted on \<open>Time_Marks\<close>.
  \<^item> \<open>Output_Times\<close> (\<open>io/output_time_set\<close>): output grids on top of marks and governor; the set of times
    and the marks agree.
  \<^item> \<open>Units\<close> (\<open>tools/unit_si\<close>, \<open>tools/unit_converter\<close>): the table of units, products of units, conversion of
    user formulas; conversion is right exactly when the exponents agree, it ends for definitions
    without cycles and does not for definitions in a cycle.
  \<^item> \<open>Region_DB\<close>, \<open>Region_Sets\<close> (\<open>mesh/region\<close>, \<open>mesh/region_set\<close>, parts of \<open>mesh/mesh.cc\<close>): the region table
    with its three unique keys, labels and sets, the declarations of regions in the input and the
    assignment of elements. Shown: an invariant of all reachable databases (a step relation with
    reachability), lookups after insertions, the set operations against sets.
  \<^item> \<open>Mesh_Build\<close> (\<open>mesh/mesh.cc\<close>, \<open>mesh/elements.cc\<close>): nodes, elements and boundary elements while a mesh is read;
    bulk elements stay in front of boundary elements and ids and positions correspond.
  \<^item> \<open>Ref_Element\<close> (\<open>mesh/ref_element\<close>): the tables of the reference simplices and barycentric coordinates. Shown: the tables
    agree with the incidences of a simplex, and clipping ends in the simplex.
  \<^item> \<open>Mesh_Topology\<close> (\<open>mesh/mesh.cc\<close>, \<open>mesh/neighbours\<close>): edges, neighbours and boundaries from the sides of the elements.
    Shown: an invariant of every step, from which edges are exactly the classes of sides with the same nodes that
    are not separated by an element of the lower dimension.
  \<^item> \<open>Mesh_Setup\<close>, \<open>Mesh_Sides\<close> (\<open>mesh/mesh.cc\<close>): the steps of \<open>setup_topology\<close> around the edges: unused nodes, the neighbours of an
    element, the permutations of the nodes of sides, counters. Shown: removal of nodes changes no element, the steps after
    the edges never fail, and every permutation sends the nodes of its side to the reference nodes.
  \<^item> \<open>Sparse_Graph\<close> (\<open>la/sparse_graph\<close>), \<open>Mesh_Partition\<close> (\<open>mesh/partitioning.cc\<close>, \<open>mesh/mesh.cc\<close>): the graph of connected elements over
    all processors, the numbering of elements after the partition and the distribution of nodes. Shown: the rows of the
    finished graph against the inserted edges, with the conditions under which they are right; the edges
    inserted for an element; new numbers lie on the processor of their part; owners and order of local nodes.
  \<^item> \<open>Duplicate_Nodes\<close> (\<open>mesh/duplicate_nodes\<close>): the objects of edges and elements and the nodes duplicated at fractures, with positions
    for the pointers to faces. Shown: two elements share a duplicated node exactly when they share the node and are connected at it over common edges.
  \<^item> \<open>Dof_Handler\<close>, \<open>Dof_Exchange\<close> (\<open>fem/dofhandler\<close>, \<open>fem/discrete_space.hh\<close>): local and ghost cells, the distribution of the
    dofs of nodes, edges and cells on every processor, and the exchange of their numbers in two rounds of messages; the processors
    are a list of states, a message is the list it carries, sent from the state in which the code sends it. A finite element is the list of its dofs (dimension
    and index of the face). Shown: the least processor at a node or edge numbers it (\<open>own_inv\<close>), what is known after every message (\<open>msg_inv\<close>), and at
    the end one numbering of the whole mesh that all processors read on own and ghost cells; neighbouring processors have each other
    as neighbours. The number of dofs is below \<open>2^31\<close>.
  \<^item> \<open>Bounding_Box\<close>, \<open>BIH_Tree\<close> (\<open>mesh/bounding_box\<close>, \<open>mesh/bih_node\<close>, \<open>mesh/bih_tree\<close>): boxes with tolerance and the
    bounding interval hierarchy. Shown: construction never fails on finite boxes, the tree is
    well-formed, and a search returns exactly the intersecting elements (the locale \<open>box_index\<close> is
    the contract, interpreted on the tree).
  \<^item> \<open>Distribution\<close> (\<open>la/distribution\<close>, \<open>la/local_to_global_map\<close>): contiguous partitions (locale
    \<open>contiguous_partition\<close>), owners of indices, local to global maps.
  \<^item> \<open>Local_System\<close> (\<open>la/local_system\<close>): elimination of known values and the Schur complement preserve the
    solutions.
  \<^item> \<open>Containers\<close> (\<open>tools/bidirectional_map\<close>, \<open>system/flag_array\<close>): both directions of the map stay inverse; masks act
    as documented.
  \<^item> \<open>Tokenizer\<close> (\<open>system/tokenizer\<close>): lines, comments, tokens and positions over a model of \<open>std::istream\<close> with its
    state bits; the reading of lines, the restoring of positions and two ways in which the code loops
    or misses a line.
  \<^item> \<open>Gmsh_Reader\<close>, \<open>Data_Reader\<close> (\<open>io/msh_gmshreader.cc\<close>, \<open>io/msh_basereader.cc\<close>): the reader of GMSH files over the tokenizer:
    sections of nodes, elements and names, the table of the headers of data, the search for a header and the reading of
    element data. Shown: a refinement of the reading of lines (\<open>mesh_file\<close>: the commands a file says), well-formedness of the mesh for
    every file, the end of the search for data sections, the rows of the data. The locale \<open>line_command\<close> is the contract of a reader of one line.
  \<^item> \<open>Element_Cache\<close> (\<open>io/element_data_cache\<close>): the cache of values for input and output; rearrangement by moves, averages, check and scaling.

  \<^bold>\<open>Loops and fuel.\<close> Loops over containers are structural recursion. Loops that may not end are
  \<open>while_option\<close> (the partition of \<open>BIH_Tree\<close>, the search over its stack, the reading of lines), whose
  termination is proved under the stated conditions; the recursion of the unit conversion and of
  \<open>make_node\<close> carries fuel: for \<open>make_node\<close> one more than the number of levels is enough because every
  split child is one level deeper, for the conversion the nesting depth of the definitions.

  \<^bold>\<open>Not modelled.\<close> The numerical parts (assemblies, solvers, finite elements, fields, transport,
  mechanics, reactions, geometric intersections) depend on rounding and on PETSc, BDDCML and Armadillo; of the dof handler
  the sequential copy and the parts of systems; the
  output writers, the profiler and logging are input and output; the generic input types are
  represented by the values they deliver. The readers
  of VTK and PVD files go through a third-party parser of XML and binary streams.
\<close>

end
